(* ===== verification/Prelude.thy ===== *)
theory Prelude
  imports Main "HOL-Library.Word"
begin

text \<open>
  Shared vocabulary of the development.

  Kernel code is modelled by explicit state passing.  A kernel routine of type
  \<open>('s, 'a) kern\<close> takes the state and ends in one of three ways:
  \<^item> \<open>Ok a s\<close>: it returned \<open>a\<close> and left the state \<open>s\<close>;
  \<^item> \<open>Panic msg\<close>: it called \<open>panic(msg)\<close> (console.c), which never returns;
  \<^item> \<open>Block chan\<close>: it went to sleep on \<open>chan\<close> and nobody else is running.

  \<open>bnd\<close> is sequencing (the C semicolon).  \<open>triple P m Q E\<close> is total correctness up to
  the panics in \<open>E\<close>: started in \<open>P\<close>, the routine returns with \<open>Q\<close> or panics with a
  message in \<open>E\<close>; it never blocks.  The rules for \<open>triple\<close> are collected in \<open>kern_intro\<close>.

  Bytes are \<open>8 word\<close>; C \<open>uint\<close> counters kept as \<open>nat\<close> wrap through \<open>uinc\<close> and \<open>udec\<close>.
\<close>

section \<open>Outcomes and sequencing\<close>

named_theorems kern_simps \<open>equations of the kernel-routine combinators\<close>
named_theorems kern_intro \<open>introduction rules for triples\<close>
named_theorems c_int_simps \<open>facts about C integers kept as nat\<close>

type_synonym byte = "8 word"
type_synonym uint32 = "32 word"

datatype ('a, 's) res = Ok 'a 's | Panic string | Block string

type_synonym ('s, 'a) kern = "'s \<Rightarrow> ('a, 's) res"

definition ret :: "'a \<Rightarrow> ('s, 'a) kern" where
  "ret a s = Ok a s"

definition panic :: "string \<Rightarrow> ('s, 'a) kern" where
  "panic msg s = Panic msg"

definition bnd :: "('s, 'a) kern \<Rightarrow> ('a \<Rightarrow> ('s, 'b) kern) \<Rightarrow> ('s, 'b) kern" where
  "bnd m f s = (case m s of Ok a s' \<Rightarrow> f a s' | Panic e \<Rightarrow> Panic e | Block c \<Rightarrow> Block c)"

definition getk :: "('s \<Rightarrow> 'a) \<Rightarrow> ('s, 'a) kern" where
  "getk f s = Ok (f s) s"

definition modk :: "('s \<Rightarrow> 's) \<Rightarrow> ('s, unit) kern" where
  "modk f s = Ok () (f s)"

fun for_each :: "('x \<Rightarrow> ('s, unit) kern) \<Rightarrow> 'x list \<Rightarrow> ('s, unit) kern" where
  "for_each f [] s = Ok () s"
| "for_each f (x # xs) s = bnd (f x) (\<lambda>_. for_each f xs) s"

definition uinc :: "nat \<Rightarrow> nat" where
  "uinc n = (n + 1) mod 2 ^ 32"

definition udec :: "nat \<Rightarrow> nat" where
  "udec n = (n + (2 ^ 32 - 1)) mod 2 ^ 32"

definition triple ::
  "('s \<Rightarrow> bool) \<Rightarrow> ('s, 'a) kern \<Rightarrow> ('a \<Rightarrow> 's \<Rightarrow> bool) \<Rightarrow> string set \<Rightarrow> bool" where
  "triple P m Q E \<longleftrightarrow>
     (\<forall>s. P s \<longrightarrow> (case m s of Ok a s' \<Rightarrow> Q a s' | Panic e \<Rightarrow> e \<in> E | Block c \<Rightarrow> False))"

section \<open>Equations\<close>

lemma ret_simp [simp, kern_simps]: "ret a s = Ok a s"
  by (simp add: ret_def)

lemma panic_simp [simp, kern_simps]: "panic e s = Panic e"
  by (simp add: panic_def)

lemma getk_simp [simp, kern_simps]: "getk f s = Ok (f s) s"
  by (simp add: getk_def)

lemma modk_simp [simp, kern_simps]: "modk f s = Ok () (f s)"
  by (simp add: modk_def)

lemma bnd_Ok [simp, kern_simps]: "m s = Ok a s' \<Longrightarrow> bnd m f s = f a s'"
  by (simp add: bnd_def)

lemma bnd_Panic [simp, kern_simps]: "m s = Panic e \<Longrightarrow> bnd m f s = Panic e"
  by (simp add: bnd_def)

lemma bnd_Block [simp, kern_simps]: "m s = Block c \<Longrightarrow> bnd m f s = Block c"
  by (simp add: bnd_def)

lemma bnd_assoc: "bnd (bnd m f) g s = bnd m (\<lambda>a. bnd (f a) g) s"
  by (simp add: bnd_def split: res.split)

lemma bnd_eq_Ok:
  "bnd m f s = Ok b s'' \<longleftrightarrow> (\<exists>a s'. m s = Ok a s' \<and> f a s' = Ok b s'')"
  by (simp add: bnd_def split: res.split)

lemma bnd_OkE:
  assumes "bnd m f s = Ok b s''"
  obtains a s' where "m s = Ok a s'" and "f a s' = Ok b s''"
  using assms by (auto simp: bnd_eq_Ok)

lemma uinc_less [c_int_simps]: "n < 2 ^ 32 - 1 \<Longrightarrow> uinc n = Suc n"
  by (simp add: uinc_def)

lemma udec_Suc [simp, c_int_simps]: "Suc n < 2 ^ 32 \<Longrightarrow> udec (Suc n) = n"
proof -
  assume "Suc n < 2 ^ 32"
  moreover have "Suc n + (2 ^ 32 - 1) = n + 2 ^ 32" by simp
  ultimately show ?thesis by (simp add: udec_def)
qed

lemma udec_pos [c_int_simps]: "0 < n \<Longrightarrow> n < 2 ^ 32 \<Longrightarrow> udec n = n - 1"
  using udec_Suc [of "n - 1"] by simp

lemma udec_0: "udec 0 = 2 ^ 32 - 1"
  by (simp add: udec_def)

section \<open>Triples\<close>

lemma tripleI:
  assumes "\<And>s. P s \<Longrightarrow> case m s of Ok a s' \<Rightarrow> Q a s' | Panic e \<Rightarrow> e \<in> E | Block c \<Rightarrow> False"
  shows "triple P m Q E"
  using assms by (simp add: triple_def)

lemma tripleD:
  assumes "triple P m Q E" and "P s"
  shows "(\<exists>a s'. m s = Ok a s' \<and> Q a s') \<or> (\<exists>e\<in>E. m s = Panic e)"
  using assms by (auto simp: triple_def split: res.splits) (metis res.exhaust)

lemma triple_OkD: "triple P m Q E \<Longrightarrow> P s \<Longrightarrow> m s = Ok a s' \<Longrightarrow> Q a s'"
  by (auto simp: triple_def split: res.splits)

lemma triple_bnd [kern_intro]:
  assumes "triple P m R E" and "\<And>a. triple (R a) (f a) Q E"
  shows "triple P (bnd m f) Q E"
proof (rule tripleI)
  fix s assume "P s"
  with assms(1) consider a s' where "m s = Ok a s'" "R a s'" | e where "m s = Panic e" "e \<in> E"
    by (blast dest: tripleD)
  then show "case bnd m f s of Ok a s' \<Rightarrow> Q a s' | Panic e \<Rightarrow> e \<in> E | Block c \<Rightarrow> False"
    using assms(2) by cases (auto simp: triple_def)
qed

lemma triple_conseq:
  assumes "triple P m Q E"
    and "\<And>s. P' s \<Longrightarrow> P s" and "\<And>a s. Q a s \<Longrightarrow> Q' a s" and "E \<subseteq> E'"
  shows "triple P' m Q' E'"
  using assms by (fastforce simp: triple_def split: res.splits)

lemma triple_ret [kern_intro]: "(\<And>s. P s \<Longrightarrow> Q a s) \<Longrightarrow> triple P (ret a) Q E"
  by (simp add: triple_def)

lemma triple_getk [kern_intro]: "(\<And>s. P s \<Longrightarrow> Q (f s) s) \<Longrightarrow> triple P (getk f) Q E"
  by (simp add: triple_def)

lemma triple_modk [kern_intro]: "(\<And>s. P s \<Longrightarrow> Q () (f s)) \<Longrightarrow> triple P (modk f) Q E"
  by (simp add: triple_def)

lemma triple_panic [kern_intro]: "(\<And>s. P s \<Longrightarrow> e \<in> E) \<Longrightarrow> triple P (panic e) Q E"
  by (auto simp: triple_def)

lemma triple_if [kern_intro]:
  assumes "c \<Longrightarrow> triple P m Q E" and "\<not> c \<Longrightarrow> triple P m' Q E"
  shows "triple P (if c then m else m') Q E"
  using assms by simp

lemma triple_pre_fact:
  assumes "\<And>s. P s \<Longrightarrow> c" and "c \<Longrightarrow> triple P m Q E"
  shows "triple P m Q E"
  using assms by (force simp: triple_def)

section \<open>Frames\<close>

text \<open>\<open>keeps f m\<close>: whenever \<open>m\<close> returns, \<open>f\<close> of the state is what it was.\<close>

named_theorems keeps_intro \<open>frame rules\<close>

definition keeps :: "('s \<Rightarrow> 'b) \<Rightarrow> ('s, 'a) kern \<Rightarrow> bool" where
  "keeps f m \<longleftrightarrow> (\<forall>s a s'. m s = Ok a s' \<longrightarrow> f s' = f s)"

lemma keepsD: "keeps f m \<Longrightarrow> m s = Ok a s' \<Longrightarrow> f s' = f s"
  by (simp add: keeps_def)

lemma keeps_bnd [keeps_intro]: "keeps f m \<Longrightarrow> (\<And>a. keeps f (g a)) \<Longrightarrow> keeps f (bnd m g)"
  by (auto simp: keeps_def bnd_eq_Ok)

lemma keeps_basic [keeps_intro]:
  "keeps f (ret a)" "keeps f (panic e)" "keeps f (getk h)" "keeps f (\<lambda>s. Block c)"
  by (simp_all add: keeps_def)

lemma keeps_modk [keeps_intro]: "(\<And>s. f (h s) = f s) \<Longrightarrow> keeps f (modk h)"
  by (simp add: keeps_def)

lemma keeps_if [keeps_intro]: "keeps f m \<Longrightarrow> keeps f m' \<Longrightarrow> keeps f (if c then m else m')"
  by simp

lemma keeps_option [keeps_intro]:
  "keeps f m \<Longrightarrow> (\<And>x. keeps f (g x)) \<Longrightarrow> keeps f (case p of None \<Rightarrow> m | Some x \<Rightarrow> g x)"
  by (simp split: option.split)

lemma keeps_for_each [keeps_intro]: "(\<And>x. keeps f (g x)) \<Longrightarrow> keeps f (for_each g xs)"
proof (induction xs)
  case (Cons x xs)
  have "keeps f (bnd (g x) (\<lambda>_. for_each g xs))"
    by (rule keeps_bnd [OF Cons.prems]) (rule Cons.IH [OF Cons.prems])
  then show ?case by (simp add: keeps_def)
qed (simp add: keeps_def)

section \<open>Lists\<close>

lemma nth_take_drop: "i < n \<Longrightarrow> k + n \<le> length xs \<Longrightarrow> take n (drop k xs) ! i = xs ! (k + i)"
  by simp

lemma take_Suc_drop_nth: "k < length xs \<Longrightarrow> take 1 (drop k xs) = [xs ! k]"
  by (simp add: take_Suc_conv_app_nth)

text \<open>Overwriting a slice of a byte array: the effect of \<open>memmove (base + off, src, len)\<close>.\<close>

definition bput :: "'a list \<Rightarrow> nat \<Rightarrow> 'a list \<Rightarrow> 'a list" where
  "bput xs k ys = take k xs @ ys @ drop (k + length ys) xs"

lemma length_bput [simp]:
  "k + length ys \<le> length xs \<Longrightarrow> length (bput xs k ys) = length xs"
  by (simp add: bput_def)

lemma take_drop_bput [simp]:
  "k + length ys \<le> length xs \<Longrightarrow> take (length ys) (drop k (bput xs k ys)) = ys"
  by (simp add: bput_def)

lemma nth_bput:
  assumes "k + length ys \<le> length xs" and "i < length xs"
  shows "bput xs k ys ! i = (if k \<le> i \<and> i < k + length ys then ys ! (i - k) else xs ! i)"
  using assms by (auto simp: bput_def nth_append)

lemma bput_same: "k + n \<le> length xs \<Longrightarrow> bput xs k (take n (drop k xs)) = xs"
  by (rule nth_equalityI) (auto simp: nth_bput)

end
