(* ===== verification/CStr.thy ===== *)
theory CStr
  imports Prelude
begin

text \<open>
  The kernel's C string library, \<open>src/lab10xv6/xv6/string.c\<close>, and the string part of the
  user library \<open>ulib.c\<close>.  Memory is a map from addresses to bytes; a pointer that is only
  read is also given as the function from offsets to the bytes it points at.

  The theorems: the word-at-a-time path of \<open>memset\<close> equals the byte-wise fill;
  \<open>memmove\<close> copies the old source bytes whatever the overlap, while the user-level
  \<open>memmove\<close> does so only when the destination is not inside the source; \<open>strncmp\<close>,
  \<open>strncpy\<close>, \<open>safestrcpy\<close> and \<open>strlen\<close> against the reference reading \<open>cstrn\<close> of a C
  string.
\<close>

unbundle bit_operations_syntax

type_synonym mem = "nat \<Rightarrow> byte"

section \<open>The routines\<close>

text \<open>The string instructions behind \<open>stosb\<close> and \<open>stosl\<close> (x86.h): \<open>rep stos\<close>.\<close>

fun stosb :: "mem \<Rightarrow> nat \<Rightarrow> byte \<Rightarrow> nat \<Rightarrow> mem" where
  "stosb m a c 0 = m"
| "stosb m a c (Suc n) = stosb (m(a := c)) (a + 1) c n"

definition store32 :: "mem \<Rightarrow> nat \<Rightarrow> uint32 \<Rightarrow> mem" where
  "store32 m a v = m(a := ucast v, a + 1 := ucast (drop_bit 8 v),
     a + 2 := ucast (drop_bit 16 v), a + 3 := ucast (drop_bit 24 v))"

fun stosl :: "mem \<Rightarrow> nat \<Rightarrow> uint32 \<Rightarrow> nat \<Rightarrow> mem" where
  "stosl m a v 0 = m"
| "stosl m a v (Suc n) = stosl (store32 m a v) (a + 4) v n"

definition memset :: "mem \<Rightarrow> nat \<Rightarrow> uint32 \<Rightarrow> nat \<Rightarrow> mem" where
  "memset m dst c n =
     (if dst mod 4 = 0 \<and> n mod 4 = 0
      then let c = c AND 0xFF in
           stosl m dst (push_bit 24 c OR push_bit 16 c OR push_bit 8 c OR c) (n div 4)
      else stosb m dst (ucast c) n)"

fun memcmp :: "(nat \<Rightarrow> byte) \<Rightarrow> (nat \<Rightarrow> byte) \<Rightarrow> nat \<Rightarrow> int" where
  "memcmp s1 s2 0 = 0"
| "memcmp s1 s2 (Suc n) =
     (if s1 0 \<noteq> s2 0 then uint (s1 0) - uint (s2 0)
      else memcmp (\<lambda>i. s1 (i + 1)) (\<lambda>i. s2 (i + 1)) n)"

fun copy_up :: "mem \<Rightarrow> nat \<Rightarrow> nat \<Rightarrow> nat \<Rightarrow> mem" where
  "copy_up m d s 0 = m"
| "copy_up m d s (Suc n) = copy_up (m(d := m s)) (d + 1) (s + 1) n"

fun copy_down :: "mem \<Rightarrow> nat \<Rightarrow> nat \<Rightarrow> nat \<Rightarrow> mem" where
  "copy_down m d s 0 = m"
| "copy_down m d s (Suc n) = copy_down (m(d - 1 := m (s - 1))) (d - 1) (s - 1) n"

definition memmove :: "mem \<Rightarrow> nat \<Rightarrow> nat \<Rightarrow> nat \<Rightarrow> mem" where
  "memmove m dst src n =
     (if src < dst \<and> src + n > dst then copy_down m (dst + n) (src + n) n
      else copy_up m dst src n)"

definition memcpy :: "mem \<Rightarrow> nat \<Rightarrow> nat \<Rightarrow> nat \<Rightarrow> mem" where
  "memcpy m dst src n = memmove m dst src n"

text \<open>\<open>memmove\<close> of ulib.c has the upward loop only; a count that is not positive copies nothing.\<close>

definition ulib_memmove :: "mem \<Rightarrow> nat \<Rightarrow> nat \<Rightarrow> int \<Rightarrow> mem" where
  "ulib_memmove m vdst vsrc n = copy_up m vdst vsrc (nat n)"

fun strncmp :: "(nat \<Rightarrow> byte) \<Rightarrow> (nat \<Rightarrow> byte) \<Rightarrow> nat \<Rightarrow> int" where
  "strncmp p q 0 = 0"
| "strncmp p q (Suc n) =
     (if p 0 \<noteq> 0 \<and> p 0 = q 0 then strncmp (\<lambda>i. p (i + 1)) (\<lambda>i. q (i + 1)) n
      else uint (p 0) - uint (q 0))"

fun strncpy_pad :: "mem \<Rightarrow> nat \<Rightarrow> nat \<Rightarrow> mem" where
  "strncpy_pad m s 0 = m"
| "strncpy_pad m s (Suc n) = strncpy_pad (m(s := 0)) (s + 1) n"

fun strncpy_copy :: "mem \<Rightarrow> nat \<Rightarrow> nat \<Rightarrow> nat \<Rightarrow> mem" where
  "strncpy_copy m s t 0 = m"
| "strncpy_copy m s t (Suc n) =
     (let m' = m(s := m t) in
      if m t \<noteq> 0 then strncpy_copy m' (s + 1) (t + 1) n else strncpy_pad m' (s + 1) n)"

definition strncpy :: "mem \<Rightarrow> nat \<Rightarrow> nat \<Rightarrow> int \<Rightarrow> mem" where
  "strncpy m s t n = strncpy_copy m s t (nat n)"

fun safestrcpy_copy :: "mem \<Rightarrow> nat \<Rightarrow> nat \<Rightarrow> nat \<Rightarrow> mem" where
  "safestrcpy_copy m s t 0 = m(s := 0)"
| "safestrcpy_copy m s t (Suc n) =
     (let m' = m(s := m t) in
      if m t \<noteq> 0 then safestrcpy_copy m' (s + 1) (t + 1) n else m'(s + 1 := 0))"

definition safestrcpy :: "mem \<Rightarrow> nat \<Rightarrow> nat \<Rightarrow> int \<Rightarrow> mem" where
  "safestrcpy m s t n = (if n \<le> 0 then m else safestrcpy_copy m s t (nat n - 1))"

text \<open>
  \<open>strlen\<close> reads on until it finds a NUL: without one it does not return, which is \<open>None\<close>.
\<close>

partial_function (option) strlen_from :: "(nat \<Rightarrow> byte) \<Rightarrow> nat \<Rightarrow> nat option" where
  "strlen_from s n = (if s n \<noteq> 0 then strlen_from s (n + 1) else Some n)"

definition strlen :: "(nat \<Rightarrow> byte) \<Rightarrow> nat option" where
  "strlen s = strlen_from s 0"

section \<open>The reference reading of a C string\<close>

text \<open>The string of at most \<open>n\<close> bytes at \<open>p\<close>: up to the first NUL or the bound.\<close>

definition cstrn :: "(nat \<Rightarrow> byte) \<Rightarrow> nat \<Rightarrow> byte list" where
  "cstrn p n = takeWhile (\<lambda>c. c \<noteq> 0) (map p [0..<n])"

lemma cstrn_0 [simp]: "cstrn p 0 = []"
  by (simp add: cstrn_def)

lemma cstrn_Suc:
  "cstrn p (Suc n) = (if p 0 = 0 then [] else p 0 # cstrn (\<lambda>i. p (i + 1)) n)"
proof -
  have "map p [0..<Suc n] = p 0 # map (\<lambda>i. p (i + 1)) [0..<n]"
    by (simp add: upt_conv_Cons map_Suc_upt [symmetric] del: upt_Suc)
  then show ?thesis by (simp add: cstrn_def)
qed

lemma length_cstrn_le: "length (cstrn p n) \<le> n"
  by (metis cstrn_def length_map length_takeWhile_le length_upt minus_nat.diff_0)

section \<open>memset\<close>

lemma stosb_apply: "stosb m a c n x = (if a \<le> x \<and> x < a + n then c else m x)"
  by (induction n arbitrary: m a) auto

lemma splat_bytes:
  fixes c :: uint32
  assumes "v = push_bit 24 (c AND 0xFF) OR push_bit 16 (c AND 0xFF)
             OR push_bit 8 (c AND 0xFF) OR (c AND 0xFF)"
  shows "(ucast v :: byte) = ucast c" and "(ucast (drop_bit 8 v) :: byte) = ucast c"
    and "(ucast (drop_bit 16 v) :: byte) = ucast c" and "(ucast (drop_bit 24 v) :: byte) = ucast c"
proof -
  have c: "c AND 0xFF = take_bit 8 c"
    by (simp add: take_bit_eq_mask mask_eq_exp_minus_1)
  show "(ucast v :: byte) = ucast c" and "(ucast (drop_bit 8 v) :: byte) = ucast c"
    and "(ucast (drop_bit 16 v) :: byte) = ucast c" and "(ucast (drop_bit 24 v) :: byte) = ucast c"
    unfolding assms c by (rule bit_word_eqI, auto simp: bit_simps)+
qed

lemma stosl_apply:
  assumes "ucast v = (b :: byte)" and "ucast (drop_bit 8 v) = b"
    and "ucast (drop_bit 16 v) = b" and "ucast (drop_bit 24 v) = b"
  shows "stosl m a v n x = (if a \<le> x \<and> x < a + 4 * n then b else m x)"
proof (induction n arbitrary: m a)
  case (Suc n)
  have "stosl m a v (Suc n) x = (if a + 4 \<le> x \<and> x < a + 4 + 4 * n then b else store32 m a v x)"
    using Suc by simp
  also have "\<dots> = (if a \<le> x \<and> x < a + 4 * Suc n then b else m x)"
    using assms by (auto simp: store32_def)
  finally show ?case .
qed auto

lemma memset_apply:
  "memset m dst c n x = (if dst \<le> x \<and> x < dst + n then ucast c else m x)"
proof (cases "dst mod 4 = 0 \<and> n mod 4 = 0")
  case True
  define v where "v = push_bit 24 (c AND 0xFF) OR push_bit 16 (c AND 0xFF)
      OR push_bit 8 (c AND 0xFF) OR (c AND 0xFF)"
  from True have "memset m dst c n x = stosl m dst v (n div 4) x"
    by (simp only: memset_def Let_def v_def if_True simp_thms)
  also have "\<dots> = (if dst \<le> x \<and> x < dst + 4 * (n div 4) then ucast c else m x)"
    by (rule stosl_apply [OF splat_bytes [OF v_def]])
  also have "4 * (n div 4) = n" using True by auto
  finally show ?thesis .
qed (auto simp: memset_def stosb_apply)

section \<open>memmove\<close>

lemma copy_up_apply:
  "d \<le> s \<or> s + n \<le> d \<Longrightarrow>
   copy_up m d s n x = (if d \<le> x \<and> x < d + n then m (s + (x - d)) else m x)"
proof (induction n arbitrary: m d s)
  case (Suc n)
  let ?m = "m(d := m s)"
  have "copy_up ?m (d + 1) (s + 1) n x =
      (if d + 1 \<le> x \<and> x < d + 1 + n then ?m (s + 1 + (x - (d + 1))) else ?m x)"
    using Suc.prems by (intro Suc.IH) auto
  moreover have "s + 1 + (x - (d + 1)) = s + (x - d)" if "d + 1 \<le> x"
    using that by simp
  moreover have "s + (x - d) \<noteq> d" if "d + 1 \<le> x" "x < d + 1 + n"
    using that Suc.prems by auto
  ultimately show ?case by auto
qed auto

lemma copy_down_apply:
  "s < d \<Longrightarrow>
   copy_down m (d + n) (s + n) n x = (if d \<le> x \<and> x < d + n then m (s + (x - d)) else m x)"
proof (induction n arbitrary: m)
  case (Suc n)
  let ?m = "m(d + n := m (s + n))"
  from Suc have "copy_down m (d + Suc n) (s + Suc n) (Suc n) x =
      (if d \<le> x \<and> x < d + n then ?m (s + (x - d)) else ?m x)" by simp
  also have "\<dots> = (if d \<le> x \<and> x < d + Suc n then m (s + (x - d)) else m x)"
    using Suc.prems by auto
  finally show ?case .
qed auto

lemma memmove_apply:
  "memmove m dst src n x = (if dst \<le> x \<and> x < dst + n then m (src + (x - dst)) else m x)"
  by (auto simp: memmove_def copy_up_apply copy_down_apply)

section \<open>strncmp, strncpy, safestrcpy, strlen\<close>

lemma strncmp_eq_0: "strncmp p q n = 0 \<longleftrightarrow> cstrn p n = cstrn q n"
  by (induction p q n rule: strncmp.induct) (auto simp: cstrn_Suc word_uint_eq_iff)

lemma strlen_from_found:
  "s (n + k) = 0 \<Longrightarrow> \<forall>i < k. s (n + i) \<noteq> 0 \<Longrightarrow> strlen_from s n = Some (n + k)"
proof (induction k arbitrary: n)
  case 0
  then show ?case by (simp add: strlen_from.simps)
next
  case (Suc k)
  from Suc.prems(2) have "s n \<noteq> 0" by force
  moreover have "strlen_from s (n + 1) = Some (n + 1 + k)"
    using Suc.prems by (intro Suc.IH) auto
  ultimately show ?case by (subst strlen_from.simps) simp
qed

lemma strncpy_pad_apply:
  "strncpy_pad m s n x = (if s \<le> x \<and> x < s + n then 0 else m x)"
  by (induction n arbitrary: m s) auto

lemma strncpy_copy_apply:
  assumes "s + n \<le> t \<or> t + n \<le> s"
  shows "strncpy_copy m s t n x =
    (if s \<le> x \<and> x < s + n
     then (if x - s < length (cstrn (\<lambda>i. m (t + i)) n) then m (t + (x - s)) else 0)
     else m x)"
  using assms
proof (induction n arbitrary: m s t)
  case (Suc n)
  define m' where "m' = m(s := m t)"
  have m': "m' s = m t" "\<And>x. x \<noteq> s \<Longrightarrow> m' x = m x" by (auto simp: m'_def)
  have step: "strncpy_copy m s t (Suc n) =
      (if m t \<noteq> 0 then strncpy_copy m' (s + 1) (t + 1) n else strncpy_pad m' (s + 1) n)"
    by (simp add: m'_def)
  have upd: "cstrn (\<lambda>i. m' (t + 1 + i)) n = cstrn (\<lambda>i. m (t + 1 + i)) n"
    using Suc.prems by (auto simp: cstrn_def m' intro!: arg_cong [where f = "takeWhile _"])
  have shift: "cstrn (\<lambda>i. m (t + i)) (Suc n) =
      (if m t = 0 then [] else m t # cstrn (\<lambda>i. m (t + 1 + i)) n)"
    by (simp add: cstrn_Suc add.assoc)
  have IH: "strncpy_copy m' (s + 1) (t + 1) n x =
      (if s + 1 \<le> x \<and> x < s + 1 + n
       then (if x - (s + 1) < length (cstrn (\<lambda>i. m (t + 1 + i)) n)
             then m' (t + 1 + (x - (s + 1))) else 0)
       else m' x)"
    using Suc.prems by (subst Suc.IH [of "s + 1" "t + 1" m', unfolded upd]) auto
  have "m' (t + 1 + (x - (s + 1))) = m (t + (x - s))" if "s + 1 \<le> x" "x < s + 1 + n"
  proof -
    have "t + 1 + (x - (s + 1)) = t + (x - s)" using that by simp
    then show ?thesis using that Suc.prems m' by auto
  qed
  then have IH': "strncpy_copy m' (s + 1) (t + 1) n x =
      (if s + 1 \<le> x \<and> x < s + 1 + n
       then (if x - (s + 1) < length (cstrn (\<lambda>i. m (t + 1 + i)) n) then m (t + (x - s)) else 0)
       else m' x)"
    unfolding IH by (cases "s + 1 \<le> x \<and> x < s + 1 + n") auto
  show ?case
  proof (cases "m t = 0")
    case True
    then show ?thesis
      unfolding shift step using m' by (cases "x = s") (simp_all add: strncpy_pad_apply)
  next
    case False
    have "x - s < Suc l \<longleftrightarrow> x - (s + 1) < l" if "s < x" for l
      using that by arith
    then show ?thesis
      unfolding shift using IH' False m' step by (cases "x = s"; cases "s < x") simp_all
  qed
qed auto

lemma safestrcpy_copy_frame:
  assumes "x < s \<or> s + Suc n \<le> x"
  shows "safestrcpy_copy m s t n x = m x"
  using assms by (induction n arbitrary: m s t) (auto simp: Let_def)

lemma safestrcpy_copy_string:
  assumes "s + Suc n \<le> t \<or> t + Suc n \<le> s"
  shows "cstrn (\<lambda>i. safestrcpy_copy m s t n (s + i)) (Suc n) = cstrn (\<lambda>i. m (t + i)) n"
  using assms
proof (induction n arbitrary: m s t)
  case 0
  then show ?case by (simp add: cstrn_Suc)
next
  case (Suc n)
  define m' where "m' = m(s := m t)"
  have m': "m' s = m t" "\<And>x. x \<noteq> s \<Longrightarrow> m' x = m x" by (auto simp: m'_def)
  have step: "safestrcpy_copy m s t (Suc n) =
      (if m t \<noteq> 0 then safestrcpy_copy m' (s + 1) (t + 1) n else m'(s + 1 := 0))"
    by (simp add: m'_def)
  have upd: "cstrn (\<lambda>i. m' (t + 1 + i)) n = cstrn (\<lambda>i. m (t + 1 + i)) n"
    using Suc.prems by (auto simp: cstrn_def m' intro!: arg_cong [where f = "takeWhile _"])
  show ?case
  proof (cases "m t = 0")
    case True
    then show ?thesis unfolding step by (simp add: cstrn_Suc m')
  next
    case False
    let ?r = "safestrcpy_copy m' (s + 1) (t + 1) n"
    have "cstrn (\<lambda>i. ?r (s + 1 + i)) (Suc n) = cstrn (\<lambda>i. m (t + 1 + i)) n"
      unfolding upd [symmetric] using Suc.prems by (intro Suc.IH) auto
    moreover have "?r s = m t"
      using m' by (subst safestrcpy_copy_frame) auto
    ultimately show ?thesis
      unfolding step using False by (simp add: cstrn_Suc [of _ "Suc n"] cstrn_Suc [of _ n])
  qed
qed

section \<open>Properties\<close>

text \<open>C9. The kernel's memmove copies the bytes the source range held before the call, for every
  overlap of the two ranges, and changes nothing else.\<close>

theorem memmove_copies:
  "memmove m dst src n =
     (\<lambda>x. if dst \<le> x \<and> x < dst + n then m (src + (x - dst)) else m x)"
  by (rule ext) (rule memmove_apply)

text \<open>memset fills exactly the requested range with the low byte of its argument: the path that
  stores four replicated bytes at a time agrees with the byte-wise path, at every alignment
  and length.\<close>

lemma memset_fills:
  "memset m dst c n = stosb m dst (ucast c) n
   \<and> memset m dst c n x = (if dst \<le> x \<and> x < dst + n then ucast c else m x)"
  by (simp add: fun_eq_iff memset_apply stosb_apply)

text \<open>safestrcpy, given a positive size and disjoint buffers, writes inside its n-byte destination
  only, and leaves there the source string cut to n - 1 bytes, terminated by a NUL within
  the n bytes.\<close>

lemma safestrcpy_truncates:
  fixes n :: int
  assumes "0 < n" and "s + nat n \<le> t \<or> t + nat n \<le> s"
  shows "cstrn (\<lambda>i. safestrcpy m s t n (s + i)) (nat n) = cstrn (\<lambda>i. m (t + i)) (nat n - 1)
    \<and> length (cstrn (\<lambda>i. safestrcpy m s t n (s + i)) (nat n)) < nat n
    \<and> (\<forall>x. x < s \<or> s + nat n \<le> x \<longrightarrow> safestrcpy m s t n x = m x)"
proof -
  obtain k where k: "nat n = Suc k" using assms(1) by (cases "nat n") auto
  have sc: "safestrcpy m s t n = safestrcpy_copy m s t k"
    using assms(1) k by (simp add: safestrcpy_def)
  from safestrcpy_copy_string [of s k t m] assms(2)
  have "cstrn (\<lambda>i. safestrcpy m s t n (s + i)) (nat n) = cstrn (\<lambda>i. m (t + i)) (nat n - 1)"
    by (simp add: sc k)
  moreover have "length (cstrn (\<lambda>i. m (t + i)) (nat n - 1)) < nat n"
    using length_cstrn_le [of "\<lambda>i. m (t + i)" "nat n - 1"] k by simp
  moreover have "\<forall>x. x < s \<or> s + nat n \<le> x \<longrightarrow> safestrcpy m s t n x = m x"
    unfolding sc k by (simp add: safestrcpy_copy_frame)
  ultimately show ?thesis by simp
qed

theorem safestrcpy_truncates_witness:
  "cstrn (\<lambda>i. safestrcpy (\<lambda>a. if a < 20 then 65 else 0) 100 10 4 (100 + i)) 4 = [65, 65, 65]"
  using safestrcpy_truncates [of 4 100 10 "\<lambda>a. if a < 20 then 65 else 0"]
  by (simp add: numeral_3_eq_3 cstrn_Suc)

end
