(* ===== verification/Kalloc.thy ===== *)
theory Kalloc
  imports CStr
begin

text \<open>
  The physical page allocator, \<open>src/lab10xv6/xv6/kalloc.c\<close>, with the page arithmetic of
  \<open>mmu.h\<close> and the address map of \<open>memlayout.h\<close>.

  The state is the kernel's memory, byte by byte, and the head of the free list; the list
  itself is threaded through the first word of each free page, as \<open>struct run\<close> does it, and
  \<open>kfree\<close> fills the page with junk first.  \<open>kend\<close> is the linker's symbol \<open>end\<close>.  The region
  that \<open>kmem.lock\<close> protects is one step here (Spinlock proves the exclusion this rests on).

  \<open>free_pages s xs\<close> abstracts the threaded list to the list of page addresses.  The locale
  \<open>page_pool\<close> states what clients rely on: allocation takes a page off the pool, freeing puts
  one back, and neither touches a page that is in use; it is interpreted on \<open>kalloc\<close>/\<open>kfree\<close>.
\<close>

section \<open>Address arithmetic (mmu.h, memlayout.h)\<close>

definition PGSIZE :: nat where "PGSIZE = 4096"
definition EXTMEM :: nat where "EXTMEM = 0x100000"
definition PHYSTOP :: nat where "PHYSTOP = 0xE000000"
definition DEVSPACE :: nat where "DEVSPACE = 0xFE000000"
definition KERNBASE :: nat where "KERNBASE = 0x80000000"
definition KERNLINK :: nat where "KERNLINK = KERNBASE + EXTMEM"

text \<open>\<open>((sz) + PGSIZE - 1) & ~(PGSIZE - 1)\<close> and \<open>(a) & ~(PGSIZE - 1)\<close> on \<open>uint\<close>.\<close>

definition PGROUNDUP :: "nat \<Rightarrow> nat" where
  "PGROUNDUP sz = (let x = (sz + PGSIZE - 1) mod 2 ^ 32 in x - x mod PGSIZE)"

definition PGROUNDDOWN :: "nat \<Rightarrow> nat" where
  "PGROUNDDOWN a = a - a mod PGSIZE"

definition V2P :: "nat \<Rightarrow> nat" where
  "V2P a = (a + (2 ^ 32 - KERNBASE)) mod 2 ^ 32"

definition P2V :: "nat \<Rightarrow> nat" where
  "P2V a = (a + KERNBASE) mod 2 ^ 32"

section \<open>The allocator\<close>

record kmem_st =
  mem :: mem
  freelist :: nat
  use_lock :: bool
  kend :: nat

definition load32 :: "mem \<Rightarrow> nat \<Rightarrow> uint32" where
  "load32 m a = ucast (m a) OR push_bit 8 (ucast (m (a + 1)))
     OR push_bit 16 (ucast (m (a + 2))) OR push_bit 24 (ucast (m (a + 3)))"

definition kfree :: "nat \<Rightarrow> ('z kmem_st_scheme, unit) kern" where
  "kfree v s =
     (if v mod PGSIZE \<noteq> 0 \<or> v < kend s \<or> V2P v \<ge> PHYSTOP then Panic ''kfree''
      else let m = memset (mem s) v 1 PGSIZE;
               m = store32 m v (of_nat (freelist s))
           in Ok () (s\<lparr>mem := m, freelist := v\<rparr>))"

definition kalloc :: "('z kmem_st_scheme, nat) kern" where
  "kalloc s =
     (let r = freelist s in
      if r \<noteq> 0 then Ok r (s\<lparr>freelist := unat (load32 (mem s) r)\<rparr>) else Ok r s)"

text \<open>The loop of \<open>freerange\<close>: \<open>for(; p + PGSIZE <= vend; p += PGSIZE) kfree(p)\<close>.\<close>

function freerange_loop :: "nat \<Rightarrow> nat \<Rightarrow> ('z kmem_st_scheme, unit) kern" where
  "freerange_loop p vend s =
     (if p + PGSIZE \<le> vend
      then bnd (kfree p) (\<lambda>_. freerange_loop (p + PGSIZE) vend) s
      else Ok () s)"
  by pat_completeness auto
termination
  by (relation "measure (\<lambda>(p, vend, s). vend + 1 - p)") (auto simp: PGSIZE_def)

declare freerange_loop.simps [simp del]

definition freerange :: "nat \<Rightarrow> nat \<Rightarrow> ('z kmem_st_scheme, unit) kern" where
  "freerange vstart vend = freerange_loop (PGROUNDUP vstart) vend"

definition kinit1 :: "nat \<Rightarrow> nat \<Rightarrow> ('z kmem_st_scheme, unit) kern" where
  "kinit1 vstart vend =
     bnd (modk (\<lambda>s. s\<lparr>use_lock := False\<rparr>)) (\<lambda>_. freerange vstart vend)"

definition kinit2 :: "nat \<Rightarrow> nat \<Rightarrow> ('z kmem_st_scheme, unit) kern" where
  "kinit2 vstart vend =
     bnd (freerange vstart vend) (\<lambda>_. modk (\<lambda>s. s\<lparr>use_lock := True\<rparr>))"

section \<open>The free list\<close>

definition page_ok :: "'z kmem_st_scheme \<Rightarrow> nat \<Rightarrow> bool" where
  "page_ok s v \<longleftrightarrow> v mod PGSIZE = 0 \<and> kend s \<le> v \<and> KERNBASE \<le> v \<and> v < KERNBASE + PHYSTOP"

fun threaded :: "mem \<Rightarrow> nat \<Rightarrow> nat list \<Rightarrow> bool" where
  "threaded m p [] \<longleftrightarrow> p = 0"
| "threaded m p (x # xs) \<longleftrightarrow> p = x \<and> p \<noteq> 0 \<and> threaded m (unat (load32 m p)) xs"

definition free_pages :: "'z kmem_st_scheme \<Rightarrow> nat list \<Rightarrow> bool" where
  "free_pages s xs \<longleftrightarrow>
     threaded (mem s) (freelist s) xs \<and> distinct xs \<and> (\<forall>x \<in> set xs. page_ok s x)"

lemmas page_consts = PGSIZE_def PHYSTOP_def KERNBASE_def EXTMEM_def DEVSPACE_def KERNLINK_def

lemma load32_store32 [simp]: "load32 (store32 m a v) a = v"
proof (rule bit_word_eqI)
  fix n assume "n < LENGTH(32)"
  then consider "n < 8" | "8 \<le> n" "n < 16" | "16 \<le> n" "n < 24" | "24 \<le> n" "n < 32"
    by fastforce
  then show "bit (load32 (store32 m a v) a) n = bit v n"
    by cases (auto simp: load32_def store32_def bit_simps)
qed

lemma load32_cong:
  "(\<And>i. i < 4 \<Longrightarrow> m (a + i) = m' (a + i)) \<Longrightarrow> load32 m a = load32 m' a"
proof -
  assume eq: "\<And>i. i < 4 \<Longrightarrow> m (a + i) = m' (a + i)"
  from eq [of 0] eq [of 1] eq [of 2] eq [of 3] show ?thesis by (simp add: load32_def)
qed

lemma store32_other: "x < a \<or> a + 4 \<le> x \<Longrightarrow> store32 m a v x = m x"
  by (auto simp: store32_def)

lemma threaded_cong:
  "(\<And>x. x \<in> set xs \<Longrightarrow> load32 m x = load32 m' x) \<Longrightarrow> threaded m p xs = threaded m' p xs"
  by (induction xs arbitrary: p) auto

lemma threaded_nz: "threaded m p xs \<Longrightarrow> 0 \<notin> set xs"
  by (induction xs arbitrary: p) auto

lemma pages_apart:
  assumes "p mod PGSIZE = 0" and "q mod PGSIZE = 0" and "p \<noteq> q"
  shows "p + PGSIZE \<le> q \<or> q + PGSIZE \<le> p"
proof -
  obtain i j where "p = PGSIZE * i" "q = PGSIZE * j"
    using assms(1,2) by (auto simp: mod_eq_0_iff_dvd dvd_def)
  with assms(3) show ?thesis by (cases i j rule: linorder_cases) (auto simp: PGSIZE_def)
qed

lemma V2P_kern: "KERNBASE \<le> v \<Longrightarrow> v < 2 ^ 32 \<Longrightarrow> V2P v = v - KERNBASE"
proof -
  assume v: "KERNBASE \<le> v" "v < 2 ^ 32"
  then have "v + (2 ^ 32 - KERNBASE) = (v - KERNBASE) + 2 ^ 32" by (simp add: KERNBASE_def)
  moreover have "((v - KERNBASE) + 2 ^ 32) mod 2 ^ 32 = v - KERNBASE"
    unfolding mod_add_self2 using v by simp
  ultimately show ?thesis unfolding V2P_def by (simp only:)
qed

lemma P2V_V2P: "KERNBASE \<le> v \<Longrightarrow> v < 2 ^ 32 \<Longrightarrow> P2V (V2P v) = v"
  by (simp add: V2P_kern P2V_def)

lemma page_ok_V2P: "page_ok s v \<Longrightarrow> V2P v < PHYSTOP"
  by (auto simp: page_ok_def V2P_kern page_consts)

section \<open>kalloc and kfree on the abstract pool\<close>

lemma kfree_spec:
  assumes "free_pages s xs" and "page_ok s v" and "v \<notin> set xs"
  shows "\<exists>m. kfree v s = Ok () (s\<lparr>mem := m, freelist := v\<rparr>)
    \<and> free_pages (s\<lparr>mem := m, freelist := v\<rparr>) (v # xs)
    \<and> (\<forall>x. x < v \<or> v + PGSIZE \<le> x \<longrightarrow> m x = mem s x)"
proof -
  define m where "m = store32 (memset (mem s) v 1 PGSIZE) v (of_nat (freelist s))"
  let ?s = "s\<lparr>mem := m, freelist := v\<rparr>"
  have frame: "m x = mem s x" if "x < v \<or> v + PGSIZE \<le> x" for x
    using that by (auto simp: m_def store32_other memset_apply PGSIZE_def)
  have head: "freelist s < 2 ^ 32"
    using assms(1) by (cases xs) (auto simp: free_pages_def page_ok_def page_consts)
  have "load32 m x = load32 (mem s) x" if "x \<in> set xs" for x
  proof (rule load32_cong)
    fix i :: nat assume "i < 4"
    moreover from that assms have "v + PGSIZE \<le> x \<or> x + PGSIZE \<le> v"
      by (intro pages_apart) (auto simp: free_pages_def page_ok_def)
    ultimately show "m (x + i) = mem s (x + i)" by (intro frame) (auto simp: PGSIZE_def)
  qed
  then have "threaded m (freelist s) xs"
    using assms(1) threaded_cong [of xs m "mem s"] by (auto simp: free_pages_def)
  moreover have "unat (load32 m v) = freelist s"
    using head by (simp add: m_def unat_of_nat)
  moreover have "v \<noteq> 0" using assms(2) by (auto simp: page_ok_def page_consts)
  ultimately have "free_pages ?s (v # xs)"
    using assms by (auto simp: free_pages_def page_ok_def)
  moreover have "kfree v s = Ok () ?s"
    using assms(2) page_ok_V2P [OF assms(2)]
    by (auto simp: kfree_def page_ok_def m_def Let_def)
  ultimately show ?thesis using frame by auto
qed

lemma kalloc_Cons:
  assumes "free_pages s (x # xs)"
  shows "kalloc s = Ok x (s\<lparr>freelist := unat (load32 (mem s) x)\<rparr>)"
    and "free_pages (s\<lparr>freelist := unat (load32 (mem s) x)\<rparr>) xs"
  using assms by (auto simp: free_pages_def kalloc_def page_ok_def)

lemma kalloc_Nil: "free_pages s [] \<Longrightarrow> kalloc s = Ok 0 s"
  by (simp add: free_pages_def kalloc_def)

lemma kfree_bad:
  "v mod PGSIZE \<noteq> 0 \<or> v < kend s \<or> PHYSTOP \<le> V2P v \<Longrightarrow> kfree v s = Panic ''kfree''"
  by (auto simp: kfree_def)

lemma kalloc_frame:
  "kalloc s = Ok p s' \<Longrightarrow> s' = s\<lparr>freelist := freelist s'\<rparr>"
  by (auto simp: kalloc_def Let_def split: if_splits)

section \<open>The contract of the page pool\<close>

locale page_pool =
  fixes alloc :: "('s, nat) kern"
    and free :: "nat \<Rightarrow> ('s, unit) kern"
    and pool :: "'s \<Rightarrow> nat list \<Rightarrow> bool"
    and usable :: "'s \<Rightarrow> nat \<Rightarrow> bool"
  assumes alloc_page: "pool s (x # xs) \<Longrightarrow> \<exists>s'. alloc s = Ok x s' \<and> pool s' xs \<and> usable s' = usable s"
    and alloc_empty: "pool s [] \<Longrightarrow> alloc s = Ok 0 s"
    and free_page: "pool s xs \<Longrightarrow> usable s v \<Longrightarrow> v \<notin> set xs \<Longrightarrow>
        \<exists>s'. free v s = Ok () s' \<and> pool s' (v # xs) \<and> usable s' = usable s"
    and pool_distinct: "pool s xs \<Longrightarrow> distinct xs"
    and pool_usable: "pool s xs \<Longrightarrow> v \<in> set xs \<Longrightarrow> usable s v"
    and null_unusable: "\<not> usable s 0"
begin

lemma alloc_not_null:
  assumes "pool s xs" and "alloc s = Ok v s'"
  shows "v = 0 \<longleftrightarrow> xs = []"
proof (cases xs)
  case Nil
  with assms alloc_empty [of s] show ?thesis by auto
next
  case (Cons x ys)
  with assms alloc_page [of s x ys] have "v = x" by auto
  moreover have "x \<noteq> 0" using assms(1) Cons pool_usable [of s xs x] null_unusable [of s]
    by (cases "x = 0") auto
  ultimately show ?thesis using Cons by simp
qed

text \<open>A page that was just handed out is not in the pool, so it can be given back.\<close>

lemma alloc_free_roundtrip:
  assumes "pool s (x # xs)"
  shows "\<exists>s'. bnd alloc free s = Ok () s' \<and> pool s' (x # xs)"
proof -
  from alloc_page [OF assms] obtain s1
    where s1: "alloc s = Ok x s1" "pool s1 xs" "usable s1 = usable s" by blast
  have "x \<notin> set xs" using pool_distinct [OF assms] by simp
  moreover have "usable s1 x" using pool_usable [OF assms, of x] s1(3) by simp
  ultimately obtain s2 where "free x s1 = Ok () s2" "pool s2 (x # xs)"
    using free_page [OF s1(2)] by blast
  with s1(1) show ?thesis by auto
qed

text \<open>Two pages allocated one after the other differ.\<close>

lemma alloc_twice_distinct:
  assumes "pool s (x # y # xs)"
  shows "\<exists>s1 s2. alloc s = Ok x s1 \<and> alloc s1 = Ok y s2 \<and> x \<noteq> y \<and> pool s2 xs"
  using alloc_page [OF assms] alloc_page [of _ y xs] pool_distinct [OF assms] by fastforce

end

interpretation kpool: page_pool kalloc kfree free_pages page_ok
proof unfold_locales
  fix s :: "'z kmem_st_scheme" and x xs
  assume "free_pages s (x # xs)"
  from kalloc_Cons [OF this]
  show "\<exists>s'. kalloc s = Ok x s' \<and> free_pages s' xs \<and> page_ok s' = page_ok s"
    by (auto simp: page_ok_def fun_eq_iff)
next
  fix s :: "'z kmem_st_scheme" and xs v
  assume "free_pages s xs" "page_ok s v" "v \<notin> set xs"
  from kfree_spec [OF this]
  show "\<exists>s'. kfree v s = Ok () s' \<and> free_pages s' (v # xs) \<and> page_ok s' = page_ok s"
    by (force simp: page_ok_def fun_eq_iff)
qed (auto simp: kalloc_Nil free_pages_def page_ok_def page_consts)

section \<open>Initialisation\<close>

definition pages_of :: "nat \<Rightarrow> nat \<Rightarrow> nat list" where
  "pages_of p vend = map (\<lambda>i. p + i * PGSIZE) [0..<(vend - p) div PGSIZE]"

lemma pages_of_rec:
  "pages_of p vend = (if p + PGSIZE \<le> vend then p # pages_of (p + PGSIZE) vend else [])"
proof (cases "p + PGSIZE \<le> vend")
  case True
  then have "(vend - p) div PGSIZE = Suc ((vend - (p + PGSIZE)) div PGSIZE)"
    using le_div_geq [of PGSIZE "vend - p"] by (simp add: PGSIZE_def)
  then have "pages_of p vend =
      p # map ((\<lambda>i. p + i * PGSIZE) \<circ> Suc) [0..<(vend - (p + PGSIZE)) div PGSIZE]"
    unfolding pages_of_def by (simp only: upt_conv_Cons [OF zero_less_Suc] map_Suc_upt [symmetric]) simp
  with True show ?thesis by (simp add: pages_of_def comp_def algebra_simps)
next
  case False
  then have "(vend - p) div PGSIZE = 0" by (simp add: PGSIZE_def)
  with False show ?thesis by (simp add: pages_of_def)
qed

lemma freerange_loop_pages:
  assumes "free_pages s xs" and "\<forall>v \<in> set (pages_of p vend). page_ok s v \<and> v \<notin> set xs"
  shows "\<exists>s'. freerange_loop p vend s = Ok () s' \<and> free_pages s' (rev (pages_of p vend) @ xs)
    \<and> kend s' = kend s \<and> use_lock s' = use_lock s"
  using assms
proof (induction p vend s arbitrary: xs rule: freerange_loop.induct)
  case (1 p vend s)
  show ?case
  proof (cases "p + PGSIZE \<le> vend")
    case True
    note rec = pages_of_rec [of p vend]
    from 1(3) True have p: "page_ok s p" "p \<notin> set xs" by (auto simp: rec)
    from kfree_spec [OF 1(2) p] obtain m where m: "kfree p s = Ok () (s\<lparr>mem := m, freelist := p\<rparr>)"
      "free_pages (s\<lparr>mem := m, freelist := p\<rparr>) (p # xs)" by blast
    define s1 where "s1 = s\<lparr>mem := m, freelist := p\<rparr>"
    have s1: "kfree p s = Ok () s1" "free_pages s1 (p # xs)"
      and k: "kend s1 = kend s" "use_lock s1 = use_lock s"
      using m by (simp_all add: s1_def)
    have "p < v" if "v \<in> set (pages_of (p + PGSIZE) vend)" for v
      using that by (auto simp: pages_of_def PGSIZE_def)
    then have "\<forall>v \<in> set (pages_of (p + PGSIZE) vend). page_ok s1 v \<and> v \<notin> set (p # xs)"
      using 1(3) True k by (auto simp: rec page_ok_def)
    from 1(1) [OF True s1(2) this] show ?thesis
      using True s1(1) k by (auto simp: freerange_loop.simps [of p vend s] rec)
  next
    case False
    with 1(2) show ?thesis by (auto simp: freerange_loop.simps [of p vend s] pages_of_rec [of p vend])
  qed
qed

lemma PGROUNDUP_aligned: "PGROUNDUP sz mod PGSIZE = 0"
  by (simp add: PGROUNDUP_def Let_def mod_eq_0_iff_dvd)

lemma PGROUNDUP_bounds:
  assumes "sz + PGSIZE \<le> 2 ^ 32"
  shows "sz \<le> PGROUNDUP sz" and "PGROUNDUP sz < sz + PGSIZE"
proof -
  have "(sz + PGSIZE - 1) mod 2 ^ 32 = sz + PGSIZE - 1" using assms by (simp add: PGSIZE_def)
  then have eq: "PGROUNDUP sz = (sz + PGSIZE - 1) - (sz + PGSIZE - 1) mod PGSIZE"
    by (simp only: PGROUNDUP_def Let_def)
  have "(sz + PGSIZE - 1) mod PGSIZE < PGSIZE" by (simp add: PGSIZE_def)
  then show "sz \<le> PGROUNDUP sz" and "PGROUNDUP sz < sz + PGSIZE"
    unfolding eq by (auto simp: PGSIZE_def)
qed

lemma PGROUNDDOWN_bounds:
  shows "PGROUNDDOWN a \<le> a" and "a < PGROUNDDOWN a + PGSIZE"
proof -
  have "a mod PGSIZE < PGSIZE" by (simp add: PGSIZE_def)
  then show "PGROUNDDOWN a \<le> a" and "a < PGROUNDDOWN a + PGSIZE"
    by (auto simp: PGROUNDDOWN_def)
qed

lemma PGROUNDDOWN_aligned: "PGROUNDDOWN a mod PGSIZE = 0"
  by (simp add: PGROUNDDOWN_def mod_eq_0_iff_dvd)

section \<open>Properties\<close>

text \<open>After kinit1 on an empty allocator the free list holds exactly the whole pages of the range
  it was given, each once: no page of the range is lost, and no page outside it is handed out.\<close>

lemma kinit1_all_pages:
  assumes "freelist s = 0" and "kend s \<le> vstart" and "KERNBASE \<le> vstart"
    and "vstart \<le> vend" and "vend \<le> KERNBASE + PHYSTOP"
  shows "\<exists>s'. kinit1 vstart vend s = Ok () s'
    \<and> free_pages s' (rev (pages_of (PGROUNDUP vstart) vend)) \<and> \<not> use_lock s'"
proof -
  let ?s = "s\<lparr>use_lock := False\<rparr>" and ?p = "PGROUNDUP vstart"
  have p: "vstart \<le> ?p" "?p mod PGSIZE = 0"
    using assms(4,5) PGROUNDUP_bounds(1) [of vstart]
    by (simp_all add: PGROUNDUP_aligned) (simp add: page_consts)
  have "v < vend \<and> v mod PGSIZE = 0 \<and> ?p \<le> v" if v: "v \<in> set (pages_of ?p vend)" for v
  proof -
    from v obtain i where i: "v = ?p + i * PGSIZE" "i < (vend - ?p) div PGSIZE"
      unfolding pages_of_def by force
    then have "Suc i * PGSIZE \<le> (vend - ?p) div PGSIZE * PGSIZE" by (intro mult_le_mono1) simp
    also have "\<dots> \<le> vend - ?p" by (rule div_times_less_eq_dividend)
    finally show ?thesis using i p(2) by (auto simp: PGSIZE_def mod_add_left_eq [symmetric])
  qed
  then have "\<forall>v \<in> set (pages_of ?p vend). page_ok ?s v \<and> v \<notin> set []"
    using assms p by (fastforce simp: page_ok_def)
  moreover have "free_pages ?s []" using assms(1) by (simp add: free_pages_def)
  ultimately show ?thesis
    using freerange_loop_pages [of ?s "[]" ?p vend] by (auto simp: kinit1_def freerange_def)
qed

theorem kinit1_all_pages_witness:
  "\<exists>s'. kinit1 0x80200010 0x80204000 \<lparr>mem = (\<lambda>_. 0), freelist = 0, use_lock = True, kend = 0x80200000\<rparr>
     = Ok () s' \<and> free_pages s' [0x80203000, 0x80202000, 0x80201000] \<and> \<not> use_lock s'"
proof -
  have "PGROUNDUP 0x80200010 = 0x80201000" by (simp add: PGROUNDUP_def PGSIZE_def)
  moreover have "pages_of 0x80201000 0x80204000 = [0x80201000, 0x80202000, 0x80203000]"
    by (simp add: pages_of_rec PGSIZE_def)
  ultimately show ?thesis
    using kinit1_all_pages [of "\<lparr>mem = (\<lambda>_. 0), freelist = 0, use_lock = True, kend = 0x80200000\<rparr>"
        "0x80200010" "0x80204000"]
    by (simp add: page_consts)
qed

text \<open>C11. kfree accepts exactly the page-aligned addresses of managed memory and pushes the page on the
  free list, which stays duplicate-free, writing inside that page only; on any other address
  it panics.  The next kalloc returns that page, and the list is then the one before.\<close>

theorem kfree_then_kalloc:
  assumes "free_pages s xs" and "v \<notin> set xs" and "KERNBASE \<le> kend s" and "v < 2 ^ 32"
  shows "if page_ok s v
    then \<exists>s1 s2. kfree v s = Ok () s1 \<and> free_pages s1 (v # xs)
           \<and> (\<forall>x. x < v \<or> v + PGSIZE \<le> x \<longrightarrow> mem s1 x = mem s x)
           \<and> kalloc s1 = Ok v s2 \<and> free_pages s2 xs
    else kfree v s = Panic ''kfree''"
proof (cases "page_ok s v")
  case True
  from kfree_spec [OF assms(1) True assms(2)] obtain m
    where m: "kfree v s = Ok () (s\<lparr>mem := m, freelist := v\<rparr>)"
      "free_pages (s\<lparr>mem := m, freelist := v\<rparr>) (v # xs)"
      "\<forall>x. x < v \<or> v + PGSIZE \<le> x \<longrightarrow> m x = mem s x" by blast
  from kpool.alloc_page [OF m(2)] m True show ?thesis by auto
next
  case False
  then have "v mod PGSIZE \<noteq> 0 \<or> v < kend s \<or> PHYSTOP \<le> V2P v"
    using assms(3,4) V2P_kern [of v] by (fastforce simp: page_ok_def)
  with False show ?thesis by (simp add: kfree_bad)
qed

theorem kfree_then_kalloc_witness:
  "kfree 0x80300000 \<lparr>mem = (\<lambda>_. 0), freelist = 0, use_lock = True, kend = 0x80200000\<rparr> \<noteq> Panic ''kfree''
   \<and> kfree 0x80300001 \<lparr>mem = (\<lambda>_. 0), freelist = 0, use_lock = True, kend = 0x80200000\<rparr> = Panic ''kfree''"
  using kfree_then_kalloc [of "\<lparr>mem = (\<lambda>_. 0), freelist = 0, use_lock = True, kend = 0x80200000\<rparr>"
      "[]" "0x80300000"]
    kfree_then_kalloc [of "\<lparr>mem = (\<lambda>_. 0), freelist = 0, use_lock = True, kend = 0x80200000\<rparr>"
      "[]" "0x80300001"]
  by (auto simp: free_pages_def page_ok_def page_consts)

end
