(* ===== verification/Vm.thy ===== *)
theory Vm
  imports Kalloc
begin

text \<open>
  Virtual memory, \<open>src/lab10xv6/xv6/vm.c\<close>, with the page-table arithmetic of \<open>mmu.h\<close>.

  Page directories and page tables live in the byte-addressed memory of Kalloc: a page
  directory is the kernel address of its page, an entry is the little-endian word at
  \<open>pgdir + 4 * PDX va\<close>, and so on, exactly as the C code indexes them.  Routines that return
  a pointer return its address, with 0 for the null pointer; \<open>int\<close> results are \<open>int\<close>.
  The loops of \<open>mappages\<close> and \<open>deallocuvm\<close> advance a wrapping 32-bit address; they carry
  \<open>2 ^ 20\<close> units of fuel, the number of pages in the address space, and running out is
  \<open>Block\<close>, the endless loop; VmSpec shows that the fuel suffices.

  \<open>translate\<close> is the reference: what the MMU's two-level walk returns for an address.
\<close>

section \<open>Page-table arithmetic (mmu.h)\<close>

definition PDX :: "nat \<Rightarrow> nat" where "PDX va = va div 2 ^ 22 mod 1024"
definition PTX :: "nat \<Rightarrow> nat" where "PTX va = va div 2 ^ 12 mod 1024"

definition PGADDR :: "nat \<Rightarrow> nat \<Rightarrow> nat \<Rightarrow> nat" where
  "PGADDR d t off = unat ((push_bit 22 (of_nat d) OR push_bit 12 (of_nat t) OR of_nat off) :: uint32)"

definition NPDENTRIES :: nat where "NPDENTRIES = 1024"

definition PTE_P :: uint32 where "PTE_P = 0x001"
definition PTE_W :: uint32 where "PTE_W = 0x002"
definition PTE_U :: uint32 where "PTE_U = 0x004"

definition PTE_ADDR :: "uint32 \<Rightarrow> nat" where "PTE_ADDR pte = unat (pte AND NOT 0xFFF)"
definition PTE_FLAGS :: "uint32 \<Rightarrow> uint32" where "PTE_FLAGS pte = pte AND 0xFFF"

text \<open>The reference: the physical address the MMU finds for \<open>va\<close> through the directory at \<open>pd\<close>.\<close>

definition translate :: "mem \<Rightarrow> nat \<Rightarrow> nat \<Rightarrow> nat option" where
  "translate m pd va =
     (let pde = load32 m (pd + 4 * PDX va) in
      if pde AND PTE_P = 0 then None
      else let pte = load32 m (P2V (PTE_ADDR pde) + 4 * PTX va) in
           if pte AND PTE_P = 0 then None else Some (PTE_ADDR pte + va mod PGSIZE))"

section \<open>State\<close>

record vm_st = kmem_st +
  kpgdir :: nat
  cr3 :: nat
  sym_data :: nat

section \<open>Walking and mapping\<close>

definition set_mem :: "(mem \<Rightarrow> mem) \<Rightarrow> ('z kmem_st_scheme, unit) kern" where
  "set_mem f = modk (\<lambda>s. s\<lparr>mem := f (mem s)\<rparr>)"

definition walkpgdir :: "nat \<Rightarrow> nat \<Rightarrow> bool \<Rightarrow> ('z kmem_st_scheme, nat) kern" where
  "walkpgdir pgdir va alloc s =
     (let pde = pgdir + 4 * PDX va in
      if load32 (mem s) pde AND PTE_P \<noteq> 0
      then Ok (P2V (PTE_ADDR (load32 (mem s) pde)) + 4 * PTX va) s
      else if \<not> alloc then Ok 0 s
      else bnd kalloc (\<lambda>pgtab.
           if pgtab = 0 then ret 0
           else bnd (set_mem (\<lambda>m. memset m pgtab 0 PGSIZE)) (\<lambda>_.
                bnd (set_mem (\<lambda>m. store32 m pde (of_nat (V2P pgtab) OR PTE_P OR PTE_W OR PTE_U))) (\<lambda>_.
                ret (pgtab + 4 * PTX va)))) s)"

fun mappages_loop ::
  "nat \<Rightarrow> nat \<Rightarrow> nat \<Rightarrow> nat \<Rightarrow> nat \<Rightarrow> uint32 \<Rightarrow> ('z kmem_st_scheme, int) kern" where
  "mappages_loop 0 pgdir a lst pa perm s = Block ''mappages''"
| "mappages_loop (Suc fuel) pgdir a lst pa perm s =
     bnd (walkpgdir pgdir a True) (\<lambda>pte.
     if pte = 0 then ret (- 1)
     else bnd (getk (\<lambda>s. load32 (mem s) pte)) (\<lambda>e.
          if e AND PTE_P \<noteq> 0 then panic ''remap''
          else bnd (set_mem (\<lambda>m. store32 m pte (of_nat pa OR perm OR PTE_P))) (\<lambda>_.
               if a = lst then ret 0
               else mappages_loop fuel pgdir ((a + PGSIZE) mod 2 ^ 32) lst
                      ((pa + PGSIZE) mod 2 ^ 32) perm))) s"

definition mappages ::
  "nat \<Rightarrow> nat \<Rightarrow> nat \<Rightarrow> nat \<Rightarrow> uint32 \<Rightarrow> ('z kmem_st_scheme, int) kern" where
  "mappages pgdir va sz pa perm =
     mappages_loop (2 ^ 20) pgdir (PGROUNDDOWN va)
       (PGROUNDDOWN ((va + sz + (2 ^ 32 - 1)) mod 2 ^ 32)) pa perm"

section \<open>Releasing user memory\<close>

fun deallocuvm_loop :: "nat \<Rightarrow> nat \<Rightarrow> nat \<Rightarrow> nat \<Rightarrow> ('z kmem_st_scheme, unit) kern" where
  "deallocuvm_loop 0 pgdir a oldsz s = Block ''deallocuvm''"
| "deallocuvm_loop (Suc fuel) pgdir a oldsz s =
     (if a < oldsz
      then bnd (walkpgdir pgdir a False) (\<lambda>pte.
           if pte = 0
           then deallocuvm_loop fuel pgdir
                  ((PGADDR (PDX a + 1) 0 0 + (2 ^ 32 - PGSIZE) + PGSIZE) mod 2 ^ 32) oldsz
           else bnd (getk (\<lambda>s. load32 (mem s) pte)) (\<lambda>e.
                bnd (if e AND PTE_P \<noteq> 0
                     then if PTE_ADDR e = 0 then panic ''kfree''
                          else bnd (kfree (P2V (PTE_ADDR e))) (\<lambda>_. set_mem (\<lambda>m. store32 m pte 0))
                     else ret ()) (\<lambda>_.
                deallocuvm_loop fuel pgdir ((a + PGSIZE) mod 2 ^ 32) oldsz))) s
      else Ok () s)"

definition deallocuvm :: "nat \<Rightarrow> nat \<Rightarrow> nat \<Rightarrow> ('z kmem_st_scheme, nat) kern" where
  "deallocuvm pgdir oldsz newsz =
     (if newsz \<ge> oldsz then ret oldsz
      else bnd (deallocuvm_loop (2 ^ 20 + 1) pgdir (PGROUNDUP newsz) oldsz) (\<lambda>_. ret newsz))"

definition freevm :: "nat \<Rightarrow> ('z kmem_st_scheme, unit) kern" where
  "freevm pgdir =
     (if pgdir = 0 then panic ''freevm: no pgdir''
      else bnd (deallocuvm pgdir KERNBASE 0) (\<lambda>_.
           bnd (for_each (\<lambda>i. bnd (getk (\<lambda>s. load32 (mem s) (pgdir + 4 * i))) (\<lambda>e.
                  if e AND PTE_P \<noteq> 0 then kfree (P2V (PTE_ADDR e)) else ret ()))
                [0..<NPDENTRIES]) (\<lambda>_.
           kfree pgdir)))"

section \<open>Building address spaces\<close>

text \<open>The table \<open>kmap\<close>: virtual address, first and last physical address, permissions.\<close>

definition kmap :: "'z vm_st_scheme \<Rightarrow> (nat \<times> nat \<times> nat \<times> uint32) list" where
  "kmap s = [(KERNBASE, 0, EXTMEM, PTE_W),
             (KERNLINK, V2P KERNLINK, V2P (sym_data s), 0),
             (sym_data s, V2P (sym_data s), PHYSTOP, PTE_W),
             (DEVSPACE, DEVSPACE, 0, PTE_W)]"

fun map_kernel :: "nat \<Rightarrow> (nat \<times> nat \<times> nat \<times> uint32) list \<Rightarrow> ('z vm_st_scheme, nat) kern" where
  "map_kernel pgdir [] s = Ok pgdir s"
| "map_kernel pgdir ((virt, pstart, pend, perm) # ks) s =
     bnd (mappages pgdir virt ((pend + (2 ^ 32 - pstart)) mod 2 ^ 32) pstart perm) (\<lambda>r.
     if r < 0 then bnd (freevm pgdir) (\<lambda>_. ret 0) else map_kernel pgdir ks) s"

definition setupkvm :: "('z vm_st_scheme, nat) kern" where
  "setupkvm =
     bnd kalloc (\<lambda>pgdir.
     if pgdir = 0 then ret 0
     else bnd (set_mem (\<lambda>m. memset m pgdir 0 PGSIZE)) (\<lambda>_.
          if P2V PHYSTOP > DEVSPACE then panic ''PHYSTOP too high''
          else bnd (getk kmap) (map_kernel pgdir)))"

definition switchkvm :: "('z vm_st_scheme, unit) kern" where
  "switchkvm = modk (\<lambda>s. s\<lparr>cr3 := V2P (kpgdir s)\<rparr>)"

definition kvmalloc :: "('z vm_st_scheme, unit) kern" where
  "kvmalloc = bnd setupkvm (\<lambda>d. bnd (modk (\<lambda>s. s\<lparr>kpgdir := d\<rparr>)) (\<lambda>_. switchkvm))"

definition inituvm :: "nat \<Rightarrow> byte list \<Rightarrow> ('z kmem_st_scheme, unit) kern" where
  "inituvm pgdir init =
     (if length init \<ge> PGSIZE then panic ''inituvm: more than a page''
      else bnd kalloc (\<lambda>p.
           bnd (set_mem (\<lambda>m. memset m p 0 PGSIZE)) (\<lambda>_.
           bnd (mappages pgdir 0 PGSIZE (V2P p) (PTE_W OR PTE_U)) (\<lambda>_.
           set_mem (\<lambda>m x. if p \<le> x \<and> x < p + length init then init ! (x - p) else m x)))))"

function allocuvm_loop ::
  "nat \<Rightarrow> nat \<Rightarrow> nat \<Rightarrow> nat \<Rightarrow> ('z kmem_st_scheme, nat) kern" where
  "allocuvm_loop pgdir a oldsz newsz s =
     (if a < newsz
      then bnd kalloc (\<lambda>p.
           if p = 0 then bnd (deallocuvm pgdir newsz oldsz) (\<lambda>_. ret 0)
           else bnd (set_mem (\<lambda>m. memset m p 0 PGSIZE)) (\<lambda>_.
                bnd (mappages pgdir a PGSIZE (V2P p) (PTE_W OR PTE_U)) (\<lambda>r.
                if r < 0
                then bnd (deallocuvm pgdir newsz oldsz) (\<lambda>_. bnd (kfree p) (\<lambda>_. ret 0))
                else allocuvm_loop pgdir (a + PGSIZE) oldsz newsz))) s
      else Ok newsz s)"
  by pat_completeness auto
termination
  by (relation "measure (\<lambda>(pgdir, a, oldsz, newsz, s). newsz - a)") (auto simp: PGSIZE_def)

declare allocuvm_loop.simps [simp del]

definition allocuvm :: "nat \<Rightarrow> nat \<Rightarrow> nat \<Rightarrow> ('z kmem_st_scheme, nat) kern" where
  "allocuvm pgdir oldsz newsz =
     (if newsz \<ge> KERNBASE then ret 0
      else if newsz < oldsz then ret oldsz
      else allocuvm_loop pgdir (PGROUNDUP oldsz) oldsz newsz)"

definition clearpteu :: "nat \<Rightarrow> nat \<Rightarrow> ('z kmem_st_scheme, unit) kern" where
  "clearpteu pgdir uva =
     bnd (walkpgdir pgdir uva False) (\<lambda>pte.
     if pte = 0 then panic ''clearpteu''
     else set_mem (\<lambda>m. store32 m pte (load32 m pte AND NOT PTE_U)))"

function copyuvm_loop :: "nat \<Rightarrow> nat \<Rightarrow> nat \<Rightarrow> nat \<Rightarrow> ('z kmem_st_scheme, nat) kern" where
  "copyuvm_loop d pgdir i sz s =
     (if i < sz
      then bnd (walkpgdir pgdir i False) (\<lambda>pte.
           if pte = 0 then panic ''copyuvm: pte should exist''
           else bnd (getk (\<lambda>s. load32 (mem s) pte)) (\<lambda>e.
                if e AND PTE_P = 0 then panic ''copyuvm: page not present''
                else bnd kalloc (\<lambda>p.
                     if p = 0 then bnd (freevm d) (\<lambda>_. ret 0)
                     else bnd (set_mem (\<lambda>m. memmove m p (P2V (PTE_ADDR e)) PGSIZE)) (\<lambda>_.
                          bnd (mappages d i PGSIZE (V2P p) (PTE_FLAGS e)) (\<lambda>r.
                          if r < 0 then bnd (kfree p) (\<lambda>_. bnd (freevm d) (\<lambda>_. ret 0))
                          else copyuvm_loop d pgdir (i + PGSIZE) sz))))) s
      else Ok d s)"
  by pat_completeness auto
termination
  by (relation "measure (\<lambda>(d, pgdir, i, sz, s). sz - i)") (auto simp: PGSIZE_def)

declare copyuvm_loop.simps [simp del]

definition copyuvm :: "nat \<Rightarrow> nat \<Rightarrow> ('z vm_st_scheme, nat) kern" where
  "copyuvm pgdir sz =
     bnd setupkvm (\<lambda>d. if d = 0 then ret 0 else copyuvm_loop d pgdir 0 sz)"

section \<open>User addresses from the kernel\<close>

text \<open>
  \<open>uva2ka\<close> does not test the pointer \<open>walkpgdir\<close> returns: with no page table for the address
  it reads through the null pointer, which the model reports as a fault.
\<close>

definition uva2ka :: "nat \<Rightarrow> nat \<Rightarrow> ('z kmem_st_scheme, nat) kern" where
  "uva2ka pgdir uva =
     bnd (walkpgdir pgdir uva False) (\<lambda>pte.
     if pte = 0 then panic ''fault: null pte''
     else bnd (getk (\<lambda>s. load32 (mem s) pte)) (\<lambda>e.
          if e AND PTE_P = 0 then ret 0
          else if e AND PTE_U = 0 then ret 0
          else ret (P2V (PTE_ADDR e))))"

function copyout :: "nat \<Rightarrow> nat \<Rightarrow> byte list \<Rightarrow> ('z kmem_st_scheme, int) kern" where
  "copyout pgdir va buf s =
     (if buf \<noteq> []
      then let va0 = PGROUNDDOWN va in
           bnd (uva2ka pgdir va0) (\<lambda>pa0.
           if pa0 = 0 then ret (- 1)
           else let n = min (PGSIZE - (va - va0)) (length buf);
                    dst = pa0 + (va - va0)
                in bnd (set_mem (\<lambda>m x. if dst \<le> x \<and> x < dst + n then buf ! (x - dst) else m x))
                     (\<lambda>_. copyout pgdir ((va0 + PGSIZE) mod 2 ^ 32) (drop n buf))) s
      else Ok 0 s)"
  by pat_completeness auto
termination
proof (relation "measure (\<lambda>(pgdir, va, buf, s). length buf)", goal_cases)
  case (2 pgdir va buf s x xa xb xc xd xe)
  have "va - PGROUNDDOWN va < PGSIZE" by (simp add: PGROUNDDOWN_def PGSIZE_def)
  with 2 show ?case by (cases buf) auto
qed simp

declare copyout.simps [simp del]

end
