(* ===== verification/Spinlock.thy ===== *)
theory Spinlock
  imports Vm
begin

text \<open>
  Spin locks and the interrupt nesting they rest on, \<open>src/lab10xv6/xv6/spinlock.c\<close>, with
  \<open>mycpu\<close> and \<open>cpuid\<close> of \<open>proc.c\<close>.

  The executing processor is the one whose local APIC id is \<open>lapicid\<close>; \<open>hw_if\<close> is the
  interrupt flag of each processor's \<open>eflags\<close>.  A spinning \<open>acquire\<close> is the outcome \<open>Block\<close>:
  the processor goes round the \<open>xchg\<close> loop until another one releases the lock.  The call-stack
  record \<open>pcs\<close>, which nothing reads, is left out.  \<open>slid\<close> names the sleep locks, whose guards are
  spin locks; a processor's \<open>ts\<close> holds the fields of its task state that the kernel writes.

  The section on interleaving runs several processors against the locks, one access to a lock per
  step, and proves mutual exclusion by rule induction over the reachable states.  Memory is
  sequentially consistent there: the fences of \<open>__sync_synchronize\<close> are not modelled.
\<close>

section \<open>State\<close>

record taskstate =
  esp0 :: nat
  ss0 :: nat
  iomb :: nat

record cpu =
  apicid :: nat
  ts :: taskstate
  ncli :: int
  intena :: bool
  cproc :: "nat option"

record spinlock =
  locked :: bool
  lcpu :: "nat option"

datatype slid = BufSleep nat | InodeSleep nat

datatype lockid = PtableLock | BcacheLock | LogLock | IcacheLock | FtableLock | KmemLock
  | ConsLock | TicksLock | IdeLock | PipeLock nat | SleepGuard slid

record lock_st = vm_st +
  cpus :: "nat \<Rightarrow> cpu"
  ncpu :: nat
  lapicid :: nat
  hw_if :: "nat \<Rightarrow> bool"
  locks :: "lockid \<Rightarrow> spinlock"

section \<open>Interrupt flag and processor identity\<close>

definition readeflags_if :: "'z lock_st_scheme \<Rightarrow> bool" where
  "readeflags_if s = hw_if s (lapicid s)"

definition cli :: "('z lock_st_scheme, unit) kern" where
  "cli = modk (\<lambda>s. s\<lparr>hw_if := (hw_if s)(lapicid s := False)\<rparr>)"

definition sti :: "('z lock_st_scheme, unit) kern" where
  "sti = modk (\<lambda>s. s\<lparr>hw_if := (hw_if s)(lapicid s := True)\<rparr>)"

fun find_cpu :: "(nat \<Rightarrow> cpu) \<Rightarrow> nat \<Rightarrow> nat list \<Rightarrow> nat option" where
  "find_cpu cs ap [] = None"
| "find_cpu cs ap (i # is) = (if apicid (cs i) = ap then Some i else find_cpu cs ap is)"

definition mycpu :: "('z lock_st_scheme, nat) kern" where
  "mycpu s =
     (if readeflags_if s then Panic ''mycpu called with interrupts enabled''
      else case find_cpu (cpus s) (lapicid s) [0..<ncpu s] of
             Some i \<Rightarrow> Ok i s
           | None \<Rightarrow> Panic ''unknown apicid'')"

definition cpuid :: "('z lock_st_scheme, nat) kern" where
  "cpuid = mycpu"

definition upd_cpu :: "nat \<Rightarrow> (cpu \<Rightarrow> cpu) \<Rightarrow> 'z lock_st_scheme \<Rightarrow> 'z lock_st_scheme" where
  "upd_cpu i f s = s\<lparr>cpus := (cpus s)(i := f (cpus s i))\<rparr>"

section \<open>pushcli and popcli\<close>

definition pushcli :: "('z lock_st_scheme, unit) kern" where
  "pushcli =
     bnd (getk readeflags_if) (\<lambda>eflags.
     bnd cli (\<lambda>_.
     bnd mycpu (\<lambda>c.
     bnd (modk (\<lambda>s. if ncli (cpus s c) = 0 then upd_cpu c (\<lambda>cp. cp\<lparr>intena := eflags\<rparr>) s else s)) (\<lambda>_.
     modk (upd_cpu c (\<lambda>cp. cp\<lparr>ncli := ncli cp + 1\<rparr>))))))"

definition popcli :: "('z lock_st_scheme, unit) kern" where
  "popcli =
     bnd (getk readeflags_if) (\<lambda>eflags.
     if eflags then panic ''popcli - interruptible''
     else bnd mycpu (\<lambda>c.
          bnd (modk (upd_cpu c (\<lambda>cp. cp\<lparr>ncli := ncli cp - 1\<rparr>))) (\<lambda>_.
          bnd (getk (\<lambda>s. cpus s c)) (\<lambda>cp.
          if ncli cp < 0 then panic ''popcli''
          else if ncli cp = 0 \<and> intena cp then sti else ret ()))))"

section \<open>The locks\<close>

definition upd_lock :: "lockid \<Rightarrow> (spinlock \<Rightarrow> spinlock) \<Rightarrow> 'z lock_st_scheme \<Rightarrow> 'z lock_st_scheme" where
  "upd_lock l f s = s\<lparr>locks := (locks s)(l := f (locks s l))\<rparr>"

definition initlock :: "lockid \<Rightarrow> ('z lock_st_scheme, unit) kern" where
  "initlock l = modk (upd_lock l (\<lambda>_. \<lparr>locked = False, lcpu = None\<rparr>))"

definition holding :: "lockid \<Rightarrow> ('z lock_st_scheme, bool) kern" where
  "holding l =
     bnd pushcli (\<lambda>_.
     bnd mycpu (\<lambda>c.
     bnd (getk (\<lambda>s. locked (locks s l) \<and> lcpu (locks s l) = Some c)) (\<lambda>r.
     bnd popcli (\<lambda>_. ret r))))"

text \<open>
  \<open>acquire\<close> and \<open>release\<close> are composed from the accesses to the shared lock they make, so that the
  section on several processors can run them one access at a time.  \<open>xchg\<close> of \<open>x86.h\<close> is a locked
  read-modify-write: one access that returns the old value and stores the new one.  \<open>spin_round\<close> is
  what one round of the while loop does, an action per access, each given the register left by the
  one before; the loop ends when the register is 0 at the end of a round.
\<close>

definition xchg :: "lockid \<Rightarrow> bool \<Rightarrow> ('z lock_st_scheme, bool) kern" where
  "xchg l newval s = Ok (locked (locks s l)) (upd_lock l (\<lambda>lk. lk\<lparr>locked := newval\<rparr>) s)"

definition spin_round :: "lockid \<Rightarrow> (bool \<Rightarrow> ('z lock_st_scheme, bool) kern) list" where
  "spin_round l = [\<lambda>_. xchg l True]"

fun run_round :: "(bool \<Rightarrow> ('s, bool) kern) list \<Rightarrow> bool \<Rightarrow> ('s, bool) kern" where
  "run_round [] reg s = Ok reg s"
| "run_round (a # as) reg s = bnd (a reg) (run_round as) s"

definition acquire_enter :: "lockid \<Rightarrow> ('z lock_st_scheme, unit) kern" where
  "acquire_enter l =
     bnd pushcli (\<lambda>_.
     bnd (holding l) (\<lambda>h.
     if h then panic ''acquire'' else ret ()))"

definition acquire_mark :: "lockid \<Rightarrow> ('z lock_st_scheme, unit) kern" where
  "acquire_mark l = bnd mycpu (\<lambda>c. modk (upd_lock l (\<lambda>lk. lk\<lparr>lcpu := Some c\<rparr>)))"

definition acquire :: "lockid \<Rightarrow> ('z lock_st_scheme, unit) kern" where
  "acquire l =
     bnd (acquire_enter l) (\<lambda>_.
     bnd (run_round (spin_round l) False) (\<lambda>busy.
     if busy then (\<lambda>s. Block ''spin'') else acquire_mark l))"

definition release_enter :: "lockid \<Rightarrow> ('z lock_st_scheme, unit) kern" where
  "release_enter l = bnd (holding l) (\<lambda>h. if \<not> h then panic ''release'' else ret ())"

definition release_steps :: "lockid \<Rightarrow> ('z lock_st_scheme, unit) kern list" where
  "release_steps l =
     [modk (upd_lock l (\<lambda>lk. lk\<lparr>lcpu := None\<rparr>)),
      modk (upd_lock l (\<lambda>lk. lk\<lparr>locked := False\<rparr>)),
      popcli]"

definition release :: "lockid \<Rightarrow> ('z lock_st_scheme, unit) kern" where
  "release l = bnd (release_enter l) (\<lambda>_. for_each (\<lambda>a. a) (release_steps l))"

section \<open>Well-formed processors\<close>

lemma spinlock_fields [simp]:
  "lk\<lparr>lcpu := c, locked := b\<rparr> = \<lparr>locked = b, lcpu = c\<rparr>"
  "lk\<lparr>locked := b, lcpu := c\<rparr> = \<lparr>locked = b, lcpu = c\<rparr>"
  for lk :: spinlock
  by (cases lk; simp)+

text \<open>
  The executing processor is registered at a unique index, its nesting depth is not negative,
  and interrupts are off while it is positive.
\<close>

definition cpu_at :: "'z lock_st_scheme \<Rightarrow> nat \<Rightarrow> bool" where
  "cpu_at s c \<longleftrightarrow> find_cpu (cpus s) (lapicid s) [0..<ncpu s] = Some c
     \<and> 0 \<le> ncli (cpus s c) \<and> (0 < ncli (cpus s c) \<longrightarrow> \<not> hw_if s (lapicid s))"

lemma find_cpu_upd:
  "(\<And>x. apicid (f x) = apicid x) \<Longrightarrow> find_cpu (cs(i := f (cs i))) ap is = find_cpu cs ap is"
  by (induction "is") auto

lemma mycpu_off:
  "cpu_at s c \<Longrightarrow> \<not> hw_if s (lapicid s) \<Longrightarrow> mycpu s = Ok c s"
  by (simp add: mycpu_def cpu_at_def readeflags_if_def)

text \<open>The state after \<open>pushcli\<close>.\<close>

definition pushed :: "nat \<Rightarrow> 'z lock_st_scheme \<Rightarrow> 'z lock_st_scheme" where
  "pushed c s = s\<lparr>hw_if := (hw_if s)(lapicid s := False),
     cpus := (cpus s)(c := (cpus s c)\<lparr>
       intena := (if ncli (cpus s c) = 0 then hw_if s (lapicid s) else intena (cpus s c)),
       ncli := ncli (cpus s c) + 1\<rparr>)\<rparr>"

lemma cpu_at_cli: "cpu_at s c \<Longrightarrow> cpu_at (s\<lparr>hw_if := (hw_if s)(lapicid s := False)\<rparr>) c"
  by (simp add: cpu_at_def)

lemma pushcli_spec:
  assumes "cpu_at s c"
  shows "pushcli s = Ok () (pushed c s)" and "cpu_at (pushed c s) c"
proof -
  have "mycpu (s\<lparr>hw_if := (hw_if s)(lapicid s := False)\<rparr>)
      = Ok c (s\<lparr>hw_if := (hw_if s)(lapicid s := False)\<rparr>)"
    using cpu_at_cli [OF assms] by (intro mycpu_off) simp_all
  then show "pushcli s = Ok () (pushed c s)"
    by (auto simp: pushcli_def cli_def pushed_def upd_cpu_def readeflags_if_def bnd_def)
  show "cpu_at (pushed c s) c"
    using assms
    by (auto simp: cpu_at_def pushed_def find_cpu_upd [where f = "\<lambda>x. x\<lparr>intena := _, ncli := _\<rparr>"])
qed

text \<open>The state after \<open>popcli\<close> from a positive depth.\<close>

definition popped :: "nat \<Rightarrow> 'z lock_st_scheme \<Rightarrow> 'z lock_st_scheme" where
  "popped c s = s\<lparr>cpus := (cpus s)(c := (cpus s c)\<lparr>ncli := ncli (cpus s c) - 1\<rparr>),
     hw_if := (hw_if s)(lapicid s := (ncli (cpus s c) = 1 \<and> intena (cpus s c)))\<rparr>"

lemma popcli_spec:
  assumes "cpu_at s c" and "0 < ncli (cpus s c)"
  shows "popcli s = Ok () (popped c s)" and "cpu_at (popped c s) c"
proof -
  have off: "\<not> hw_if s (lapicid s)" using assms by (simp add: cpu_at_def)
  then have "(hw_if s)(lapicid s := False) = hw_if s" by (auto simp: fun_eq_iff)
  with off mycpu_off [OF assms(1) off] assms(2) show "popcli s = Ok () (popped c s)"
    by (auto simp: popcli_def popped_def upd_cpu_def readeflags_if_def sti_def bnd_def)
  show "cpu_at (popped c s) c"
    using assms by (auto simp: cpu_at_def popped_def find_cpu_upd [where f = "\<lambda>x. x\<lparr>ncli := _\<rparr>"])
qed

lemma popcli_underflow:
  assumes "cpu_at s c" and "ncli (cpus s c) = 0" and "\<not> hw_if s (lapicid s)"
  shows "popcli s = Panic ''popcli''"
  using mycpu_off [OF assms(1,3)] assms(2,3)
  by (simp add: popcli_def upd_cpu_def readeflags_if_def bnd_def)

lemma pushed_popped:
  assumes "cpu_at s c"
  shows "popped c (pushed c s) =
    s\<lparr>cpus := (cpus s)(c := (cpus s c)\<lparr>intena :=
        (if ncli (cpus s c) = 0 then hw_if s (lapicid s) else intena (cpus s c))\<rparr>)\<rparr>"
  using assms by (auto simp: popped_def pushed_def cpu_at_def fun_eq_iff
      intro!: lock_st.equality cpu.equality)

lemma pushed_pos: "cpu_at s c \<Longrightarrow> 0 < ncli (cpus (pushed c s) c)"
  by (simp add: pushed_def cpu_at_def)

lemma pushed_simps [simp]:
  "locks (pushed c s) = locks s" "lapicid (pushed c s) = lapicid s"
  "locks (popped c s) = locks s" "lapicid (popped c s) = lapicid s"
  by (simp_all add: pushed_def popped_def)

lemma pushed_popped_deep:
  assumes "cpu_at s c" and "0 < ncli (cpus s c)"
  shows "popped c (pushed c s) = s"
  using assms by (simp add: pushed_popped)

lemma holding_deep:
  assumes "cpu_at s c" and "0 < ncli (cpus s c)"
  shows "holding l s = Ok (locked (locks s l) \<and> lcpu (locks s l) = Some c) s"
proof -
  have "mycpu (pushed c s) = Ok c (pushed c s)"
    by (rule mycpu_off [OF pushcli_spec(2) [OF assms(1)]]) (simp add: pushed_def)
  moreover have "popcli (pushed c s) = Ok () s"
    using popcli_spec(1) [OF pushcli_spec(2) [OF assms(1)] pushed_pos [OF assms(1)]]
    by (simp add: pushed_popped_deep [OF assms])
  ultimately show ?thesis
    by (simp add: holding_def pushcli_spec(1) [OF assms(1)])
qed

text \<open>The state after a successful \<open>acquire\<close>.\<close>

definition acquired :: "lockid \<Rightarrow> nat \<Rightarrow> 'z lock_st_scheme \<Rightarrow> 'z lock_st_scheme" where
  "acquired l c s =
     (pushed c s)\<lparr>locks := (locks s)(l := \<lparr>locked = True, lcpu = Some c\<rparr>)\<rparr>"

lemma cpu_at_locks [simp]: "cpu_at (s\<lparr>locks := ls\<rparr>) c = cpu_at s c"
  by (simp add: cpu_at_def)

lemma acquire_spec:
  assumes "cpu_at s c"
  shows "acquire l s =
     (if locked (locks s l)
      then if lcpu (locks s l) = Some c then Panic ''acquire'' else Block ''spin''
      else Ok () (acquired l c s))"
proof -
  have at: "cpu_at (pushed c s) c" by (rule pushcli_spec(2) [OF assms])
  note h = holding_deep [OF at pushed_pos [OF assms], of l]
  have "mycpu (upd_lock l (\<lambda>lk. lk\<lparr>locked := True\<rparr>) (pushed c s))
      = Ok c (upd_lock l (\<lambda>lk. lk\<lparr>locked := True\<rparr>) (pushed c s))"
    by (rule mycpu_off) (use at in \<open>simp_all add: upd_lock_def pushed_def\<close>)
  then show ?thesis
    by (auto simp: acquire_def acquire_enter_def acquire_mark_def spin_round_def xchg_def
        pushcli_spec(1) [OF assms] h bnd_def acquired_def upd_lock_def)
qed

lemma cpu_at_acquired: "cpu_at s c \<Longrightarrow> cpu_at (acquired l c s) c"
  by (simp add: acquired_def pushcli_spec(2))

text \<open>The state after \<open>release\<close>.\<close>

definition released :: "lockid \<Rightarrow> nat \<Rightarrow> 'z lock_st_scheme \<Rightarrow> 'z lock_st_scheme" where
  "released l c s = popped c (s\<lparr>locks := (locks s)(l := \<lparr>locked = False, lcpu = None\<rparr>)\<rparr>)"

lemma release_spec:
  assumes "cpu_at s c" and "0 < ncli (cpus s c)"
  shows "release l s =
     (if locked (locks s l) \<and> lcpu (locks s l) = Some c then Ok () (released l c s)
      else Panic ''release'')"
proof -
  have upd: "upd_lock l (\<lambda>lk. lk\<lparr>locked := False\<rparr>) (upd_lock l (\<lambda>lk. lk\<lparr>lcpu := None\<rparr>) s)
      = s\<lparr>locks := (locks s)(l := \<lparr>locked = False, lcpu = None\<rparr>)\<rparr>"
    by (simp add: upd_lock_def)
  have "popcli (s\<lparr>locks := (locks s)(l := \<lparr>locked = False, lcpu = None\<rparr>)\<rparr>) = Ok () (released l c s)"
    unfolding released_def by (rule popcli_spec(1)) (use assms in simp_all)
  with upd show ?thesis
    by (simp add: release_def release_enter_def release_steps_def holding_deep [OF assms] bnd_def)
qed

section \<open>Several processors\<close>

text \<open>The same kernel state seen from processor \<open>c\<close>.\<close>

definition on_cpu :: "nat \<Rightarrow> 'z lock_st_scheme \<Rightarrow> 'z lock_st_scheme" where
  "on_cpu c s = s\<lparr>lapicid := apicid (cpus s c)\<rparr>"

definition locks_inv :: "'z lock_st_scheme \<Rightarrow> (nat \<times> lockid) set \<Rightarrow> bool" where
  "locks_inv s H \<longleftrightarrow>
     (\<forall>c < ncpu s. cpu_at (on_cpu c s) c)
   \<and> (\<forall>c l. (c, l) \<in> H \<longleftrightarrow> locked (locks s l) \<and> lcpu (locks s l) = Some c)
   \<and> finite H \<and> (\<forall>(c, l) \<in> H. c < ncpu s)
   \<and> (\<forall>c < ncpu s. int (card {l. (c, l) \<in> H}) \<le> ncli (cpus s c))"

lemma cpu_at_apicid:
  assumes "cpu_at (on_cpu c s) c" and "cpu_at (on_cpu d s) d" and "c \<noteq> d"
  shows "apicid (cpus s c) \<noteq> apicid (cpus s d)"
  using assms by (auto simp: cpu_at_def on_cpu_def)

lemma find_cpu_cong:
  "(\<And>i. i \<in> set is \<Longrightarrow> apicid (cs i) = apicid (cs' i)) \<Longrightarrow> find_cpu cs ap is = find_cpu cs' ap is"
  by (induction "is") auto

text \<open>Only the executing processor's nesting depth and interrupt flag change in a step.\<close>

definition cpu_step :: "nat \<Rightarrow> 'z lock_st_scheme \<Rightarrow> 'z lock_st_scheme \<Rightarrow> bool" where
  "cpu_step c s s' \<longleftrightarrow> cpu_at s' c \<and> lapicid s' = apicid (cpus s c) \<and> ncpu s' = ncpu s
     \<and> (\<forall>i. apicid (cpus s' i) = apicid (cpus s i))
     \<and> (\<forall>i. i \<noteq> c \<longrightarrow> cpus s' i = cpus s i)
     \<and> (\<forall>a. a \<noteq> apicid (cpus s c) \<longrightarrow> hw_if s' a = hw_if s a)"

lemma cpu_step_wf:
  assumes "cpu_step c s s'" and "\<forall>d < ncpu s. cpu_at (on_cpu d s) d" and "c < ncpu s"
  shows "\<forall>d < ncpu s'. cpu_at (on_cpu d s') d"
proof (intro allI impI)
  fix d assume d: "d < ncpu s'"
  from assms(1) have eq: "find_cpu (cpus s') a [0..<ncpu s'] = find_cpu (cpus s) a [0..<ncpu s]" for a
    by (auto simp: cpu_step_def intro!: find_cpu_cong)
  show "cpu_at (on_cpu d s') d"
  proof (cases "d = c")
    case True
    have "apicid (cpus s' c) = lapicid s'" using assms(1) by (simp add: cpu_step_def)
    then have "on_cpu c s' = s'" by (simp add: on_cpu_def)
    with assms(1) True show ?thesis by (simp add: cpu_step_def)
  next
    case False
    with assms d have "apicid (cpus s d) \<noteq> apicid (cpus s c)"
      by (intro cpu_at_apicid) (auto simp: cpu_step_def)
    with assms d False eq show ?thesis by (auto simp: cpu_step_def cpu_at_def on_cpu_def)
  qed
qed

lemma on_cpu_simps [simp]:
  "locks (on_cpu c s) = locks s" "cpus (on_cpu c s) = cpus s" "ncpu (on_cpu c s) = ncpu s"
  "hw_if (on_cpu c s) = hw_if s" "lapicid (on_cpu c s) = apicid (cpus s c)"
  by (simp_all add: on_cpu_def)

lemma cpu_step_acquired:
  "cpu_at (on_cpu c s) c \<Longrightarrow> cpu_step c s (acquired l c (on_cpu c s))"
  using cpu_at_acquired [of "on_cpu c s" c l]
  by (auto simp: cpu_step_def acquired_def pushed_def)

lemma cpu_step_released:
  assumes "cpu_at (on_cpu c s) c" and "0 < ncli (cpus s c)"
  shows "cpu_step c s (released l c (on_cpu c s))"
proof -
  have "cpu_at (released l c (on_cpu c s)) c"
    unfolding released_def by (rule popcli_spec(2)) (use assms in simp_all)
  then show ?thesis by (auto simp: cpu_step_def released_def popped_def)
qed

lemma card_insert_le_Suc: "card (insert x A) \<le> Suc (card A)"
  by (cases "finite A") (auto simp: card_insert_if)

lemma finite_slice: "finite H \<Longrightarrow> finite {l. (c, l) \<in> H}"
  by (rule finite_subset [of _ "snd ` H"]) force+

lemma locks_inv_count: "locks_inv s H \<Longrightarrow> c < ncpu s \<Longrightarrow> int (card {l. (c, l) \<in> H}) \<le> ncli (cpus s c)"
  unfolding locks_inv_def by blast

lemma count_others:
  assumes inv: "locks_inv s H" and step: "cpu_step c s s'"
    and c: "int (card {l. (c, l) \<in> H'}) \<le> ncli (cpus s' c)"
    and others: "\<And>d. d \<noteq> c \<Longrightarrow> {l. (d, l) \<in> H'} = {l. (d, l) \<in> H}"
  shows "\<forall>d < ncpu s'. int (card {l. (d, l) \<in> H'}) \<le> ncli (cpus s' d)"
proof (intro allI impI)
  fix d assume d: "d < ncpu s'"
  show "int (card {l. (d, l) \<in> H'}) \<le> ncli (cpus s' d)"
  proof (cases "d = c")
    case False
    then have "cpus s' d = cpus s d" and "d < ncpu s" using step d by (simp_all add: cpu_step_def)
    with locks_inv_count [OF inv, of d] others [OF False] show ?thesis by simp
  qed (use c in simp)
qed

lemma locks_inv_held:
  assumes "locks_inv s H" and "(c, l) \<in> H"
  shows "c < ncpu s" and "0 < ncli (cpus s c)"
proof -
  show c: "c < ncpu s" using assms by (auto simp: locks_inv_def)
  have "finite {l'. (c, l') \<in> H}" using assms(1) by (intro finite_slice) (simp add: locks_inv_def)
  with assms(2) have "0 < card {l'. (c, l') \<in> H}" by (auto simp: card_gt_0_iff)
  with locks_inv_count [OF assms(1) c] show "0 < ncli (cpus s c)" by linarith
qed

lemma locks_inv_acq:
  assumes inv: "locks_inv s H" and c: "c < ncpu s" and ok: "acquire l (on_cpu c s) = Ok () s'"
  shows "locks_inv s' (insert (c, l) H)"
proof -
  have at: "cpu_at (on_cpu c s) c" using inv c by (simp add: locks_inv_def)
  from ok have free: "\<not> locked (locks s l)" and s': "s' = acquired l c (on_cpu c s)"
    by (simp_all add: acquire_spec [OF at] split: if_splits)
  have step: "cpu_step c s s'" unfolding s' by (rule cpu_step_acquired [OF at])
  have lk: "locks s' = (locks s)(l := \<lparr>locked = True, lcpu = Some c\<rparr>)"
    and nc: "ncli (cpus s' c) = ncli (cpus s c) + 1"
    by (simp_all add: s' acquired_def pushed_def)
  have "{l'. (c, l') \<in> insert (c, l) H} = insert l {l'. (c, l') \<in> H}" by auto
  then have "card {l'. (c, l') \<in> insert (c, l) H} \<le> Suc (card {l'. (c, l') \<in> H})"
    by (simp only: card_insert_le_Suc)
  moreover have "int (card {l'. (c, l') \<in> H}) \<le> ncli (cpus s c)"
    using inv c unfolding locks_inv_def by blast
  ultimately have "int (card {l'. (c, l') \<in> insert (c, l) H}) \<le> ncli (cpus s' c)"
    using nc by linarith
  moreover have "{l'. (d, l') \<in> insert (c, l) H} = {l'. (d, l') \<in> H}" if "d \<noteq> c" for d
    using that by auto
  ultimately have "\<forall>d < ncpu s'. int (card {l'. (d, l') \<in> insert (c, l) H}) \<le> ncli (cpus s' d)"
    by (rule count_others [OF inv step])
  moreover have "\<forall>d l'. (d, l') \<in> insert (c, l) H \<longleftrightarrow> locked (locks s' l') \<and> lcpu (locks s' l') = Some d"
    using inv free by (auto simp: locks_inv_def lk)
  moreover have "\<forall>d < ncpu s'. cpu_at (on_cpu d s') d"
    by (rule cpu_step_wf [OF step _ c]) (use inv in \<open>simp add: locks_inv_def\<close>)
  moreover have "\<forall>(d, l') \<in> insert (c, l) H. d < ncpu s'"
    using locks_inv_held(1) [OF inv] c step by (auto simp: cpu_step_def)
  moreover have "finite (insert (c, l) H)" using inv by (simp add: locks_inv_def)
  ultimately show ?thesis unfolding locks_inv_def by blast
qed

lemma locks_inv_rel:
  assumes inv: "locks_inv s H" and c: "c < ncpu s" and ok: "release l (on_cpu c s) = Ok () s'"
  shows "locks_inv s' (H - {(c, l)})"
proof -
  have at: "cpu_at (on_cpu c s) c" using inv c by (simp add: locks_inv_def)
  note held = locks_inv_held(2) [OF inv]
  have mem: "(c, l) \<in> H" and pos: "0 < ncli (cpus s c)"
  proof -
    show pos: "0 < ncli (cpus s c)"
    proof (rule ccontr)
      assume "\<not> 0 < ncli (cpus s c)"
      then have nh: "(c, l) \<notin> H" and z: "ncli (cpus s c) = 0"
        using held [of c l] at by (auto simp: cpu_at_def)
      let ?t = "popped c (pushed c (on_cpu c s))"
      have "mycpu (pushed c (on_cpu c s)) = Ok c (pushed c (on_cpu c s))"
        by (rule mycpu_off [OF pushcli_spec(2) [OF at]]) (simp add: pushed_def)
      moreover have "popcli (pushed c (on_cpu c s)) = Ok () ?t"
        by (rule popcli_spec(1) [OF pushcli_spec(2) [OF at] pushed_pos [OF at]])
      moreover have "\<not> (locked (locks s l) \<and> lcpu (locks s l) = Some c)"
        using nh inv by (auto simp: locks_inv_def)
      ultimately have "holding l (on_cpu c s) = Ok False ?t"
        by (auto simp: holding_def pushcli_spec(1) [OF at] bnd_def)
      with ok show False by (simp add: release_def release_enter_def bnd_def)
    qed
    show "(c, l) \<in> H"
      using ok inv release_spec [OF at] pos by (auto simp: locks_inv_def split: if_splits)
  qed
  have s': "s' = released l c (on_cpu c s)"
    using ok release_spec [OF at] pos by (simp split: if_splits)
  have step: "cpu_step c s s'" unfolding s' by (rule cpu_step_released [OF at pos])
  have lk: "locks s' = (locks s)(l := \<lparr>locked = False, lcpu = None\<rparr>)"
    and nc: "ncli (cpus s' c) = ncli (cpus s c) - 1"
    by (simp_all add: s' released_def popped_def)
  have "{l'. (c, l') \<in> H} = insert l {l'. (c, l') \<in> H - {(c, l)}}" using mem by auto
  moreover have "finite {l'. (c, l') \<in> H - {(c, l)}}"
    using inv by (intro finite_slice) (simp add: locks_inv_def)
  ultimately have "card {l'. (c, l') \<in> H} = Suc (card {l'. (c, l') \<in> H - {(c, l)}})"
    by (simp only: card_insert_disjoint) (subst card_insert_disjoint, simp_all)
  moreover have "int (card {l'. (c, l') \<in> H}) \<le> ncli (cpus s c)"
    by (rule locks_inv_count [OF inv c])
  ultimately have "int (card {l'. (c, l') \<in> H - {(c, l)}}) \<le> ncli (cpus s' c)"
    using nc by linarith
  moreover have "{l'. (d, l') \<in> H - {(c, l)}} = {l'. (d, l') \<in> H}" if "d \<noteq> c" for d
    using that by auto
  ultimately have "\<forall>d < ncpu s'. int (card {l'. (d, l') \<in> H - {(c, l)}}) \<le> ncli (cpus s' d)"
    by (rule count_others [OF inv step])
  moreover have "\<forall>d l'. (d, l') \<in> H - {(c, l)} \<longleftrightarrow> locked (locks s' l') \<and> lcpu (locks s' l') = Some d"
    using inv mem by (auto simp: locks_inv_def lk)
  moreover have "\<forall>d < ncpu s'. cpu_at (on_cpu d s') d"
    by (rule cpu_step_wf [OF step _ c]) (use inv in \<open>simp add: locks_inv_def\<close>)
  moreover have "\<forall>(d, l') \<in> H - {(c, l)}. d < ncpu s'"
    using locks_inv_held(1) [OF inv] step by (auto simp: cpu_step_def)
  moreover have "finite (H - {(c, l)})" using inv by (simp add: locks_inv_def)
  ultimately show ?thesis unfolding locks_inv_def by blast
qed

section \<open>Interleaved accesses\<close>

text \<open>
  Where each processor is: outside \<open>acquire\<close> and \<open>release\<close> (possibly inside critical sections), at
  access \<open>k\<close> of a round of \<open>acquire\<close>'s loop with a register, past the loop but with \<open>lk->cpu\<close> not yet
  recorded, or at statement \<open>k\<close> of \<open>release\<close> after its check.
\<close>

datatype lphase = Idle | Spinning lockid nat bool | Marking lockid | Releasing lockid nat

definition spin_next :: "lockid \<Rightarrow> nat \<Rightarrow> nat \<Rightarrow> bool \<Rightarrow> lphase" where
  "spin_next l n k reg =
     (if Suc k < n then Spinning l (Suc k) reg
      else if reg then Spinning l 0 reg
      else Marking l)"

definition rel_next :: "lockid \<Rightarrow> nat \<Rightarrow> nat \<Rightarrow> lphase" where
  "rel_next l n k = (if Suc k < n then Releasing l (Suc k) else Idle)"

text \<open>
  Runs of the locks: in each step one processor makes one access of an \<open>acquire\<close> or a \<open>release\<close>, or
  turns interrupts off and on again.  \<open>H\<close> records who is inside which critical section: entered when
  \<open>acquire\<close> returns, left when \<open>release\<close> is called.
\<close>

inductive lock_run :: "'z lock_st_scheme \<Rightarrow> (nat \<Rightarrow> lphase) \<Rightarrow> (nat \<times> lockid) set \<Rightarrow> bool" where
  start: "(\<forall>c < ncpu s. cpu_at (on_cpu c s) c) \<Longrightarrow>
     (\<forall>l. \<not> locked (locks s l) \<and> lcpu (locks s l) = None) \<Longrightarrow> lock_run s (\<lambda>_. Idle) {}"
| a_enter: "lock_run s ph H \<Longrightarrow> c < ncpu s \<Longrightarrow> ph c = Idle \<Longrightarrow>
     acquire_enter l (on_cpu c s) = Ok () s' \<Longrightarrow> lock_run s' (ph(c := Spinning l 0 False)) H"
| a_spin: "lock_run s ph H \<Longrightarrow> c < ncpu s \<Longrightarrow> ph c = Spinning l k reg \<Longrightarrow> as = spin_round l \<Longrightarrow>
     k < length as \<Longrightarrow> (as ! k) reg (on_cpu c s) = Ok reg' s' \<Longrightarrow>
     lock_run s' (ph(c := spin_next l (length as) k reg')) H"
| a_mark: "lock_run s ph H \<Longrightarrow> c < ncpu s \<Longrightarrow> ph c = Marking l \<Longrightarrow>
     acquire_mark l (on_cpu c s) = Ok () s' \<Longrightarrow> lock_run s' (ph(c := Idle)) (insert (c, l) H)"
| r_enter: "lock_run s ph H \<Longrightarrow> c < ncpu s \<Longrightarrow> ph c = Idle \<Longrightarrow>
     release_enter l (on_cpu c s) = Ok () s' \<Longrightarrow>
     lock_run s' (ph(c := Releasing l 0)) (H - {(c, l)})"
| r_step: "lock_run s ph H \<Longrightarrow> c < ncpu s \<Longrightarrow> ph c = Releasing l k \<Longrightarrow> as = release_steps l \<Longrightarrow>
     k < length as \<Longrightarrow> (as ! k) (on_cpu c s) = Ok () s' \<Longrightarrow>
     lock_run s' (ph(c := rel_next l (length as) k)) H"
| blip: "lock_run s ph H \<Longrightarrow> c < ncpu s \<Longrightarrow> ph c = Idle \<Longrightarrow>
     bnd pushcli (\<lambda>_. popcli) (on_cpu c s) = Ok () s' \<Longrightarrow> lock_run s' ph H"

text \<open>
  The invariant.  A processor owns a lock from the exchange that read 0 to the store that clears it;
  \<open>lk->cpu\<close> names the owner while it is inside or about to clear the field.
\<close>

definition owns :: "(nat \<Rightarrow> lphase) \<Rightarrow> (nat \<times> lockid) set \<Rightarrow> nat \<Rightarrow> lockid \<Rightarrow> bool" where
  "owns ph H c l \<longleftrightarrow> (c, l) \<in> H \<or> ph c = Marking l \<or> ph c = Releasing l 0 \<or> ph c = Releasing l 1"

definition phases_ok :: "'z lock_st_scheme \<Rightarrow> (nat \<Rightarrow> lphase) \<Rightarrow> (nat \<times> lockid) set \<Rightarrow> bool" where
  "phases_ok s ph H \<longleftrightarrow>
     (\<forall>c d l. owns ph H c l \<longrightarrow> owns ph H d l \<longrightarrow> c = d)
   \<and> (\<forall>l. locked (locks s l) \<longleftrightarrow> (\<exists>c. owns ph H c l))
   \<and> (\<forall>c l. lcpu (locks s l) = Some c \<longleftrightarrow> (c, l) \<in> H \<or> ph c = Releasing l 0)
   \<and> (\<forall>c l. (c, l) \<in> H \<longrightarrow> ph c \<noteq> Marking l \<and> (\<forall>k. ph c \<noteq> Releasing l k))
   \<and> (\<forall>c l k. ph c = Releasing l k \<longrightarrow> k < 3)
   \<and> (\<forall>c l k r. ph c = Spinning l k r \<longrightarrow> k = 0)"

definition depth_ok :: "'z lock_st_scheme \<Rightarrow> (nat \<Rightarrow> lphase) \<Rightarrow> (nat \<times> lockid) set \<Rightarrow> bool" where
  "depth_ok s ph H \<longleftrightarrow>
     (\<forall>c < ncpu s. cpu_at (on_cpu c s) c)
   \<and> finite H \<and> (\<forall>(c, l) \<in> H. c < ncpu s)
   \<and> (\<forall>c < ncpu s. int (card {l. (c, l) \<in> H}) + (if ph c = Idle then 0 else 1) \<le> ncli (cpus s c))"

lemma depth_ok_at: "depth_ok s ph H \<Longrightarrow> c < ncpu s \<Longrightarrow> cpu_at (on_cpu c s) c"
  by (simp add: depth_ok_def)

lemma depth_ok_busy:
  assumes "depth_ok s ph H" and "c < ncpu s" and "ph c \<noteq> Idle \<or> (\<exists>l. (c, l) \<in> H)"
  shows "0 < ncli (cpus s c)"
proof -
  have fin: "finite {l. (c, l) \<in> H}" using assms(1) by (intro finite_slice) (simp add: depth_ok_def)
  have le: "int (card {l. (c, l) \<in> H}) + (if ph c = Idle then 0 else 1) \<le> ncli (cpus s c)"
    using assms(1,2) unfolding depth_ok_def by blast
  show ?thesis
  proof (cases "ph c = Idle")
    case True
    then have "{l. (c, l) \<in> H} \<noteq> {}" using assms(3) by blast
    then have "0 < card {l. (c, l) \<in> H}" using fin by (simp add: card_gt_0_iff)
    with le True show ?thesis by simp
  qed (use le in simp)
qed

text \<open>A step of one processor keeps the depths when its own count stays covered.\<close>

lemma depth_ok_step:
  assumes inv: "depth_ok s ph H" and c: "c < ncpu s" and step: "cpu_step c s s'"
    and cnt: "int (card {l. (c, l) \<in> H'}) + (if ph' c = Idle then 0 else 1) \<le> ncli (cpus s' c)"
    and others: "\<And>d. d \<noteq> c \<Longrightarrow> ph' d = ph d" "\<And>d l. d \<noteq> c \<Longrightarrow> (d, l) \<in> H' \<longleftrightarrow> (d, l) \<in> H"
    and fin: "finite H'"
  shows "depth_ok s' ph' H'"
proof -
  have n: "ncpu s' = ncpu s" using step by (simp add: cpu_step_def)
  have "int (card {l. (d, l) \<in> H'}) + (if ph' d = Idle then 0 else 1) \<le> ncli (cpus s' d)"
    if "d < ncpu s'" for d
  proof (cases "d = c")
    case False
    then have "cpus s' d = cpus s d" using step by (simp add: cpu_step_def)
    with inv that n others False show ?thesis unfolding depth_ok_def by simp
  qed (use cnt in simp)
  moreover have "\<forall>(d, l) \<in> H'. d < ncpu s'" using inv c others n unfolding depth_ok_def by fastforce
  moreover have "\<forall>d < ncpu s'. cpu_at (on_cpu d s') d"
    by (rule cpu_step_wf [OF step _ c]) (use inv in \<open>simp add: depth_ok_def\<close>)
  ultimately show ?thesis using fin unfolding depth_ok_def by blast
qed

lemma cpu_step_locks:
  "cpu_at (on_cpu c s) c \<Longrightarrow> cpu_step c s ((on_cpu c s)\<lparr>locks := ls\<rparr>)"
  by (simp add: cpu_step_def)

lemma cpu_step_pushed:
  "cpu_at (on_cpu c s) c \<Longrightarrow> cpu_step c s (pushed c (on_cpu c s))"
  using pushcli_spec(2) [of "on_cpu c s" c] by (auto simp: cpu_step_def pushed_def)

lemma cpu_step_popped:
  "cpu_at (on_cpu c s) c \<Longrightarrow> 0 < ncli (cpus s c) \<Longrightarrow> cpu_step c s (popped c (on_cpu c s))"
  using popcli_spec(2) [of "on_cpu c s" c] by (auto simp: cpu_step_def popped_def)

lemma cpu_step_blip:
  assumes "cpu_at (on_cpu c s) c"
  shows "cpu_step c s (popped c (pushed c (on_cpu c s)))"
  using popcli_spec(2) [OF pushcli_spec(2) [OF assms] pushed_pos [OF assms]]
  by (auto simp: cpu_step_def popped_def pushed_def)

text \<open>What each access does.\<close>

lemma acquire_enter_spec:
  assumes "cpu_at s c"
  shows "acquire_enter l s =
     (if locked (locks s l) \<and> lcpu (locks s l) = Some c then Panic ''acquire'' else Ok () (pushed c s))"
  using holding_deep [OF pushcli_spec(2) [OF assms] pushed_pos [OF assms], of l]
  by (auto simp: acquire_enter_def pushcli_spec(1) [OF assms] bnd_def)

lemma acquire_mark_spec:
  assumes "cpu_at s c" and "0 < ncli (cpus s c)"
  shows "acquire_mark l s = Ok () (upd_lock l (\<lambda>lk. lk\<lparr>lcpu := Some c\<rparr>) s)"
  using mycpu_off [OF assms(1)] assms by (simp add: acquire_mark_def cpu_at_def)

lemma release_enter_held:
  assumes "cpu_at s c" and "0 < ncli (cpus s c)"
  shows "release_enter l s =
     (if locked (locks s l) \<and> lcpu (locks s l) = Some c then Ok () s else Panic ''release'')"
  by (auto simp: release_enter_def holding_deep [OF assms] bnd_def)

lemma release_enter_outside:
  assumes at: "cpu_at s c" and "release_enter l s = Ok () s'"
  shows "locked (locks s l) \<and> lcpu (locks s l) = Some c"
proof -
  let ?t = "popped c (pushed c s)"
  have "mycpu (pushed c s) = Ok c (pushed c s)"
    by (rule mycpu_off [OF pushcli_spec(2) [OF at]]) (simp add: pushed_def)
  moreover have "popcli (pushed c s) = Ok () ?t"
    by (rule popcli_spec(1) [OF pushcli_spec(2) [OF at] pushed_pos [OF at]])
  ultimately have "holding l s = Ok (locked (locks s l) \<and> lcpu (locks s l) = Some c) ?t"
    by (auto simp: holding_def pushcli_spec(1) [OF at] bnd_def)
  with assms(2) show ?thesis by (auto simp: release_enter_def bnd_def split: if_splits)
qed

text \<open>How each access moves the phases and the lock it touches.\<close>

lemma phases_enter:
  assumes "phases_ok s ph H" and "ph c = Idle" and "locks s' = locks s"
  shows "phases_ok s' (ph(c := Spinning l 0 r)) H"
proof -
  have "owns (ph(c := Spinning l 0 r)) H = owns ph H"
    using assms(2) by (auto simp: owns_def fun_eq_iff)
  with assms show ?thesis by (auto simp: phases_ok_def)
qed

lemma phases_xchg:
  assumes inv: "phases_ok s ph H" and ph: "ph c = Spinning l 0 r"
    and lk: "locks s' = (locks s)(l := (locks s l)\<lparr>locked := True\<rparr>)"
  shows "phases_ok s' (ph(c := if locked (locks s l) then Spinning l 0 True else Marking l)) H"
proof (cases "locked (locks s l)")
  case True
  then have "locks s' = locks s" by (simp add: lk fun_upd_idem)
  moreover have "owns (ph(c := Spinning l 0 True)) H = owns ph H"
    using ph by (auto simp: owns_def fun_eq_iff)
  ultimately show ?thesis using inv ph True by (auto simp: phases_ok_def)
next
  case False
  have o: "owns (ph(c := Marking l)) H d l' \<longleftrightarrow> owns ph H d l' \<or> d = c \<and> l' = l" for d l'
    using ph by (auto simp: owns_def)
  have free: "\<not> owns ph H d l" for d using inv False by (auto simp: phases_ok_def)
  then have "(d, l) \<notin> H" for d by (auto simp: owns_def)
  with inv ph False free show ?thesis
    by (simp add: phases_ok_def o lk) (metis lphase.distinct(3))
qed

lemma phases_mark:
  assumes inv: "phases_ok s ph H" and ph: "ph c = Marking l"
    and lk: "locks s' = (locks s)(l := (locks s l)\<lparr>lcpu := Some c\<rparr>)"
  shows "phases_ok s' (ph(c := Idle)) (insert (c, l) H)"
proof -
  have o: "owns (ph(c := Idle)) (insert (c, l) H) = owns ph H"
    using ph by (auto simp: owns_def fun_eq_iff)
  have "owns ph H c l" using ph by (simp add: owns_def)
  then have "(d, l) \<in> H \<or> ph d = Releasing l 0 \<Longrightarrow> d = c" for d
    using inv unfolding phases_ok_def owns_def by blast
  then have "(d, l) \<notin> H" "ph d \<noteq> Releasing l 0" for d
    using inv ph unfolding phases_ok_def by (metis lphase.distinct(11))+
  with inv ph show ?thesis by (auto simp: phases_ok_def o lk)
qed

lemma phases_leave:
  assumes inv: "phases_ok s ph H" and ph: "ph c = Idle" and mem: "(c, l) \<in> H"
    and lk: "locks s' = locks s"
  shows "phases_ok s' (ph(c := Releasing l 0)) (H - {(c, l)})"
proof -
  have o: "owns (ph(c := Releasing l 0)) (H - {(c, l)}) = owns ph H"
    using ph mem by (auto simp: owns_def fun_eq_iff)
  show ?thesis using inv ph mem by (auto simp: phases_ok_def o lk)
qed

lemma phases_unmark:
  assumes inv: "phases_ok s ph H" and ph: "ph c = Releasing l 0"
    and lk: "locks s' = (locks s)(l := (locks s l)\<lparr>lcpu := None\<rparr>)"
  shows "phases_ok s' (ph(c := Releasing l 1)) H"
proof -
  have o: "owns (ph(c := Releasing l 1)) H = owns ph H"
    using ph by (auto simp: owns_def fun_eq_iff)
  have "owns ph H c l" using ph by (simp add: owns_def)
  then have "(d, l) \<in> H \<or> ph d = Releasing l 0 \<Longrightarrow> d = c" for d
    using inv unfolding phases_ok_def owns_def by blast
  moreover have "(c, l) \<notin> H" using inv ph unfolding phases_ok_def by blast
  ultimately have none: "\<not> ((d, l) \<in> H \<or> (ph(c := Releasing l 1)) d = Releasing l 0)" for d by auto
  have old: "lcpu (locks s l') = Some d \<longleftrightarrow> (d, l') \<in> H \<or> ph d = Releasing l' 0" for d l'
    using inv by (simp add: phases_ok_def)
  have "lcpu (locks s' l') = Some d \<longleftrightarrow> (d, l') \<in> H \<or> (ph(c := Releasing l 1)) d = Releasing l' 0" for d l'
  proof (cases "l' = l")
    case True
    then show ?thesis using none [of d] by (simp only: lk) simp
  next
    case False
    then show ?thesis using old [of l' d] ph by (simp add: lk)
  qed
  moreover have "locked (locks s' l') = locked (locks s l')" for l' by (simp add: lk)
  ultimately show ?thesis using inv ph unfolding phases_ok_def o by auto
qed

lemma phases_store:
  assumes inv: "phases_ok s ph H" and ph: "ph c = Releasing l 1"
    and lk: "locks s' = (locks s)(l := (locks s l)\<lparr>locked := False\<rparr>)"
  shows "phases_ok s' (ph(c := Releasing l 2)) H"
proof -
  have nm: "(c, l) \<notin> H" using inv ph unfolding phases_ok_def by blast
  have o: "owns (ph(c := Releasing l 2)) H d l' \<longleftrightarrow> owns ph H d l' \<and> \<not> (d = c \<and> l' = l)" for d l'
    using ph nm by (auto simp: owns_def)
  have "owns ph H c l" using ph by (simp add: owns_def)
  then have "\<not> owns (ph(c := Releasing l 2)) H d l" for d
    using inv o unfolding phases_ok_def by blast
  with inv ph nm show ?thesis by (simp add: phases_ok_def o lk) blast
qed

lemma phases_last:
  assumes "phases_ok s ph H" and "ph c = Releasing l 2" and "locks s' = locks s"
  shows "phases_ok s' (ph(c := Idle)) H"
proof -
  have "owns (ph(c := Idle)) H = owns ph H" using assms(2) by (auto simp: owns_def fun_eq_iff)
  with assms show ?thesis by (auto simp: phases_ok_def)
qed

lemma slice_insert:
  "int (card {l'. (c, l') \<in> insert (c, l) H}) \<le> int (card {l'. (c, l') \<in> H}) + 1"
proof -
  have "{l'. (c, l') \<in> insert (c, l) H} = insert l {l'. (c, l') \<in> H}" by auto
  then show ?thesis using card_insert_le_Suc [of l "{l'. (c, l') \<in> H}"] by simp
qed

lemma slice_remove:
  assumes "finite H" and "(c, l) \<in> H"
  shows "int (card {l'. (c, l') \<in> H - {(c, l)}}) + 1 = int (card {l'. (c, l') \<in> H})"
proof -
  have "{l'. (c, l') \<in> H - {(c, l)}} = {l'. (c, l') \<in> H} - {l}" by auto
  with assms finite_slice [OF assms(1), of c] show ?thesis
    by (simp add: card_Suc_Diff1 card_Diff_singleton) (metis (no_types, lifting) One_nat_def
        Suc_pred card_gt_0_iff empty_iff mem_Collect_eq of_nat_Suc add.commute)
qed

text \<open>The steps keep the invariant.\<close>

lemma depth_count:
  "depth_ok s ph H \<Longrightarrow> c < ncpu s \<Longrightarrow>
     int (card {l. (c, l) \<in> H}) + (if ph c = Idle then 0 else 1) \<le> ncli (cpus s c)"
  unfolding depth_ok_def by blast

lemma inv_enter:
  assumes inv: "phases_ok s ph H" "depth_ok s ph H" and c: "c < ncpu s" and ph: "ph c = Idle"
    and ok: "acquire_enter l (on_cpu c s) = Ok () s'"
  shows "phases_ok s' (ph(c := Spinning l 0 False)) H \<and> depth_ok s' (ph(c := Spinning l 0 False)) H"
proof -
  note at = depth_ok_at [OF inv(2) c]
  have s': "s' = pushed c (on_cpu c s)"
    using ok by (simp add: acquire_enter_spec [OF at] split: if_splits)
  have "depth_ok s' (ph(c := Spinning l 0 False)) H"
    unfolding s' by (rule depth_ok_step [OF inv(2) c cpu_step_pushed [OF at]])
      (use depth_count [OF inv(2) c] ph inv(2) in \<open>simp_all add: pushed_def depth_ok_def\<close>)
  moreover have "phases_ok s' (ph(c := Spinning l 0 False)) H"
    by (rule phases_enter [where s = s]) (use inv ph in \<open>simp_all add: s'\<close>)
  ultimately show ?thesis by blast
qed

text \<open>An access that only writes the lock leaves the depths alone.\<close>

lemma depth_ok_lock:
  assumes inv: "depth_ok s ph H" and c: "c < ncpu s" and ph: "ph c \<noteq> Idle"
  shows "depth_ok (upd_lock l f (on_cpu c s)) (ph(c := p)) H"
proof -
  have "depth_ok ((on_cpu c s)\<lparr>locks := (locks s)(l := f (locks s l))\<rparr>) (ph(c := p)) H"
    by (rule depth_ok_step [OF inv c cpu_step_locks [OF depth_ok_at [OF inv c]]])
      (use depth_count [OF inv c] ph inv in \<open>simp_all add: depth_ok_def\<close>)
  then show ?thesis by (simp add: upd_lock_def)
qed

lemma inv_spin:
  assumes inv: "phases_ok s ph H" "depth_ok s ph H" and c: "c < ncpu s"
    and ph: "ph c = Spinning l k reg" and rd: "as = spin_round l" and k: "k < length as"
    and ok: "(as ! k) reg (on_cpu c s) = Ok reg' s'"
  shows "phases_ok s' (ph(c := spin_next l (length as) k reg')) H
    \<and> depth_ok s' (ph(c := spin_next l (length as) k reg')) H"
proof -
  have k0: "k = 0" using k by (simp add: rd spin_round_def)
  from ok have reg': "reg' = locked (locks s l)"
    and s': "s' = upd_lock l (\<lambda>lk. lk\<lparr>locked := True\<rparr>) (on_cpu c s)"
    by (simp_all add: rd spin_round_def k0 xchg_def)
  have nx: "spin_next l (length as) k reg'
      = (if locked (locks s l) then Spinning l 0 True else Marking l)"
    by (simp add: spin_next_def rd spin_round_def k0 reg')
  have "phases_ok s' (ph(c := if locked (locks s l) then Spinning l 0 True else Marking l)) H"
    by (rule phases_xchg [OF inv(1)]) (use ph k0 in \<open>simp_all add: s' upd_lock_def\<close>)
  moreover have "depth_ok s' (ph(c := p)) H" for p
    unfolding s' by (rule depth_ok_lock [OF inv(2) c]) (simp add: ph)
  ultimately show ?thesis unfolding nx by blast
qed

lemma inv_mark:
  assumes inv: "phases_ok s ph H" "depth_ok s ph H" and c: "c < ncpu s" and ph: "ph c = Marking l"
    and ok: "acquire_mark l (on_cpu c s) = Ok () s'"
  shows "phases_ok s' (ph(c := Idle)) (insert (c, l) H) \<and> depth_ok s' (ph(c := Idle)) (insert (c, l) H)"
proof -
  note at = depth_ok_at [OF inv(2) c]
  have pos: "0 < ncli (cpus s c)" by (rule depth_ok_busy [OF inv(2) c]) (simp add: ph)
  have s': "s' = (on_cpu c s)\<lparr>locks := (locks s)(l := (locks s l)\<lparr>lcpu := Some c\<rparr>)\<rparr>"
    using ok pos acquire_mark_spec [OF at, of l] by (simp add: upd_lock_def)
  have "depth_ok s' (ph(c := Idle)) (insert (c, l) H)"
    unfolding s' by (rule depth_ok_step [OF inv(2) c cpu_step_locks [OF at]])
      (use depth_count [OF inv(2) c] slice_insert [of c l H] ph inv(2) in \<open>auto simp: depth_ok_def\<close>)
  moreover have "phases_ok s' (ph(c := Idle)) (insert (c, l) H)"
    by (rule phases_mark [OF inv(1) ph]) (simp add: s')
  ultimately show ?thesis by blast
qed

lemma inv_leave:
  assumes inv: "phases_ok s ph H" "depth_ok s ph H" and c: "c < ncpu s" and ph: "ph c = Idle"
    and ok: "release_enter l (on_cpu c s) = Ok () s'"
  shows "phases_ok s' (ph(c := Releasing l 0)) (H - {(c, l)})
    \<and> depth_ok s' (ph(c := Releasing l 0)) (H - {(c, l)})"
proof -
  note at = depth_ok_at [OF inv(2) c]
  have "lcpu (locks s l) = Some c" using release_enter_outside [OF at ok] by simp
  then have mem: "(c, l) \<in> H" using inv(1) ph by (simp add: phases_ok_def)
  have pos: "0 < ncli (cpus s c)" by (rule depth_ok_busy [OF inv(2) c]) (use mem in blast)
  have s': "s' = on_cpu c s"
    using ok release_enter_held [OF at, of l] pos by (simp split: if_splits)
  have fin: "finite H" using inv(2) by (simp add: depth_ok_def)
  have "cpu_step c s (on_cpu c s)" using at by (simp add: cpu_step_def)
  then have "depth_ok s' (ph(c := Releasing l 0)) (H - {(c, l)})"
    unfolding s' by (rule depth_ok_step [OF inv(2) c])
      (use depth_count [OF inv(2) c] slice_remove [OF fin mem] ph fin in auto)
  moreover have "phases_ok s' (ph(c := Releasing l 0)) (H - {(c, l)})"
    by (rule phases_leave [OF inv(1) ph mem]) (simp add: s')
  ultimately show ?thesis by blast
qed

lemma inv_release:
  assumes inv: "phases_ok s ph H" "depth_ok s ph H" and c: "c < ncpu s" and ph: "ph c = Releasing l k"
    and ok: "(release_steps l ! k) (on_cpu c s) = Ok () s'"
  shows "phases_ok s' (ph(c := rel_next l 3 k)) H \<and> depth_ok s' (ph(c := rel_next l 3 k)) H"
proof -
  note at = depth_ok_at [OF inv(2) c]
  have pos: "0 < ncli (cpus s c)" by (rule depth_ok_busy [OF inv(2) c]) (simp add: ph)
  have nid: "ph c \<noteq> Idle" by (simp add: ph)
  have "k < 3" using inv(1) ph unfolding phases_ok_def by blast
  then consider (0) "k = 0" | (1) "k = 1" | (2) "k = 2" by linarith
  then show ?thesis
  proof cases
    case 0
    then have s': "s' = upd_lock l (\<lambda>lk. lk\<lparr>lcpu := None\<rparr>) (on_cpu c s)"
      using ok by (simp add: release_steps_def modk_def)
    have "phases_ok s' (ph(c := Releasing l 1)) H"
      by (rule phases_unmark [OF inv(1)]) (use ph 0 in \<open>simp_all add: s' upd_lock_def\<close>)
    with depth_ok_lock [OF inv(2) c nid] show ?thesis by (simp add: 0 rel_next_def s')
  next
    case 1
    then have s': "s' = upd_lock l (\<lambda>lk. lk\<lparr>locked := False\<rparr>) (on_cpu c s)"
      using ok by (simp add: release_steps_def modk_def)
    have "phases_ok s' (ph(c := Releasing l 2)) H"
      by (rule phases_store [OF inv(1)]) (use ph 1 in \<open>simp_all add: s' upd_lock_def\<close>)
    with depth_ok_lock [OF inv(2) c nid] show ?thesis
      by (simp add: 1 rel_next_def s' numeral_2_eq_2)
  next
    case 2
    then have s': "s' = popped c (on_cpu c s)"
      using ok popcli_spec(1) [OF at] pos by (simp add: release_steps_def)
    have "depth_ok s' (ph(c := Idle)) H"
      unfolding s' by (rule depth_ok_step [OF inv(2) c cpu_step_popped [OF at pos]])
        (use depth_count [OF inv(2) c] nid inv(2) in \<open>simp_all add: popped_def depth_ok_def\<close>)
    moreover have "phases_ok s' (ph(c := Idle)) H"
      by (rule phases_last [OF inv(1)]) (use ph 2 in \<open>simp_all add: s'\<close>)
    ultimately show ?thesis by (simp add: 2 rel_next_def)
  qed
qed

lemma inv_blip:
  assumes inv: "phases_ok s ph H" "depth_ok s ph H" and c: "c < ncpu s" and ph: "ph c = Idle"
    and ok: "bnd pushcli (\<lambda>_. popcli) (on_cpu c s) = Ok () s'"
  shows "phases_ok s' ph H \<and> depth_ok s' ph H"
proof -
  note at = depth_ok_at [OF inv(2) c]
  have s': "s' = popped c (pushed c (on_cpu c s))"
    using ok popcli_spec(1) [OF pushcli_spec(2) [OF at] pushed_pos [OF at]]
    by (simp add: pushcli_spec(1) [OF at])
  have "depth_ok s' ph H"
    unfolding s' by (rule depth_ok_step [OF inv(2) c cpu_step_blip [OF at]])
      (use depth_count [OF inv(2) c] inv(2) in \<open>simp_all add: popped_def pushed_def depth_ok_def\<close>)
  moreover have "phases_ok s' ph H" using inv(1) by (simp add: phases_ok_def s')
  ultimately show ?thesis by blast
qed

lemma length_release_steps [simp]: "length (release_steps l) = 3"
  by (simp add: release_steps_def)

lemma lock_run_inv: "lock_run s ph H \<Longrightarrow> phases_ok s ph H \<and> depth_ok s ph H"
proof (induction rule: lock_run.induct)
  case (start s)
  then show ?case by (auto simp: phases_ok_def depth_ok_def owns_def cpu_at_def)
next
  case (a_enter s ph H c l s')
  then show ?case using inv_enter by blast
next
  case (a_spin s ph H c l k reg as reg' s')
  then show ?case using inv_spin by blast
next
  case (a_mark s ph H c l s')
  then show ?case using inv_mark by blast
next
  case (r_enter s ph H c l s')
  then show ?case using inv_leave by blast
next
  case (r_step s ph H c l k as s')
  moreover have "length as = 3" using r_step.hyps by simp
  ultimately show ?case using inv_release [of s ph H c l k s'] by metis
next
  case (blip s ph H c s')
  then show ?case using inv_blip by blast
qed

section \<open>Properties\<close>

text \<open>C8. However the processors interleave the accesses to the locks made by their acquire and
  release calls, one exchange or store at a time, at most one of them is inside the critical section
  of a lock at any time; it runs with interrupts disabled, the lock is marked held by it, and when it
  calls release the call is not refused.\<close>

theorem spinlock_mutual_exclusion:
  assumes "lock_run s ph H" and "(c, l) \<in> H" and "(d, l) \<in> H"
  shows "c = d \<and> \<not> hw_if s (apicid (cpus s c))
    \<and> locks s l = \<lparr>locked = True, lcpu = Some c\<rparr>
    \<and> release_enter l (on_cpu c s) = Ok () (on_cpu c s)"
proof -
  from lock_run_inv [OF assms(1)] have inv: "phases_ok s ph H" "depth_ok s ph H" by blast+
  have own: "owns ph H c l" "owns ph H d l" using assms(2,3) by (simp_all add: owns_def)
  then have eq: "c = d" and lk: "locked (locks s l)" "lcpu (locks s l) = Some c"
    using inv(1) assms(2) unfolding phases_ok_def by blast+
  have c: "c < ncpu s" using inv(2) assms(2) by (auto simp: depth_ok_def)
  note at = depth_ok_at [OF inv(2) c]
  have pos: "0 < ncli (cpus s c)" by (rule depth_ok_busy [OF inv(2) c]) (use assms(2) in blast)
  have "release_enter l (on_cpu c s) = Ok () (on_cpu c s)"
    using release_enter_held [OF at, of l] pos lk by simp
  moreover have "\<not> hw_if s (apicid (cpus s c))" using at pos by (simp add: cpu_at_def)
  moreover have "locks s l = \<lparr>locked = True, lcpu = Some c\<rparr>" using lk by (cases "locks s l") simp
  ultimately show ?thesis using eq by blast
qed

definition two_cpus :: lock_st where
  "two_cpus = \<lparr>mem = (\<lambda>_. 0), freelist = 0, use_lock = True, kend = 0, kpgdir = 0, cr3 = 0,
     sym_data = 0,
     cpus = (\<lambda>i. \<lparr>apicid = i + 5, ts = \<lparr>esp0 = 0, ss0 = 0, iomb = 0\<rparr>, ncli = 0, intena = False, cproc = None\<rparr>),
     ncpu = 2, lapicid = 5, hw_if = (\<lambda>_. True),
     locks = (\<lambda>_. \<lparr>locked = False, lcpu = None\<rparr>)\<rparr>"

lemma two_cpus_at: "c < 2 \<Longrightarrow> cpu_at (on_cpu c two_cpus) c"
  by (auto simp: two_cpus_def cpu_at_def on_cpu_def upt_rec less_2_cases_iff)

text \<open>Processor 1 enters \<open>acquire\<close>, wins the exchange and is marked as the holder.\<close>

lemma two_cpus_run:
  "lock_run (acquired PtableLock 1 (on_cpu 1 two_cpus)) (\<lambda>_. Idle) {(1, PtableLock)}"
proof -
  have n: "ncpu two_cpus = 2" by (simp add: two_cpus_def)
  define t where "t = pushed 1 (on_cpu 1 two_cpus)"
  define u where "u = upd_lock PtableLock (\<lambda>lk. lk\<lparr>locked := True\<rparr>) (on_cpu 1 t)"
  have at: "cpu_at t 1" "0 < ncli (cpus t 1)"
    using pushcli_spec(2) [OF two_cpus_at] pushed_pos [OF two_cpus_at] by (simp_all add: t_def)
  have on: "on_cpu 1 t = t" by (simp add: t_def on_cpu_def pushed_def)
  have onu: "on_cpu 1 u = u" by (simp add: u_def on t_def on_cpu_def pushed_def upd_lock_def)
  have "lock_run two_cpus (\<lambda>_. Idle) {}"
    by (rule lock_run.start) (use two_cpus_at in \<open>auto simp: two_cpus_def\<close>)
  moreover have "acquire_enter PtableLock (on_cpu 1 two_cpus) = Ok () t"
    by (simp add: acquire_enter_spec [OF two_cpus_at] t_def) (simp add: two_cpus_def)
  ultimately have "lock_run t ((\<lambda>_. Idle)(1 := Spinning PtableLock 0 False)) {}"
    using lock_run.a_enter [of two_cpus "\<lambda>_. Idle" "{}" 1] n by simp
  moreover have nt: "ncpu t = 2" and lt: "\<not> locked (locks t PtableLock)"
    by (simp_all add: t_def pushed_def two_cpus_def on_cpu_def)
  moreover have "(spin_round PtableLock ! 0) False (on_cpu 1 t) = Ok False u"
    using lt by (simp add: spin_round_def xchg_def u_def)
  ultimately have "lock_run u ((\<lambda>_. Idle)(1 := Spinning PtableLock 0 False,
      1 := spin_next PtableLock 1 0 False)) {}"
    using lock_run.a_spin [of t "(\<lambda>_. Idle)(1 := Spinning PtableLock 0 False)" "{}" 1 PtableLock 0 False "spin_round PtableLock" False u]
    by (simp add: spin_round_def)
  then have "lock_run u ((\<lambda>_. Idle)(1 := Marking PtableLock)) {}" by (simp add: spin_next_def)
  moreover have "acquire_mark PtableLock (on_cpu 1 u) = Ok () (upd_lock PtableLock (\<lambda>lk. lk\<lparr>lcpu := Some 1\<rparr>) u)"
    unfolding onu by (rule acquire_mark_spec) (use at on in \<open>simp_all add: u_def upd_lock_def\<close>)
  moreover have "ncpu u = 2" using nt by (simp add: u_def on upd_lock_def)
  ultimately have "lock_run (upd_lock PtableLock (\<lambda>lk. lk\<lparr>lcpu := Some 1\<rparr>) u)
      ((\<lambda>_. Idle)(1 := Marking PtableLock, 1 := Idle)) {(1, PtableLock)}"
    using lock_run.a_mark [of u "(\<lambda>_. Idle)(1 := Marking PtableLock)" "{}" 1 PtableLock] by simp
  then have "lock_run (upd_lock PtableLock (\<lambda>lk. lk\<lparr>lcpu := Some 1\<rparr>) u) (\<lambda>_. Idle) {(1, PtableLock)}"
    by (simp add: fun_upd_idem)
  moreover have "upd_lock PtableLock (\<lambda>lk. lk\<lparr>lcpu := Some 1\<rparr>) u = acquired PtableLock 1 (on_cpu 1 two_cpus)"
    using on by (simp add: u_def upd_lock_def acquired_def) (simp add: t_def)
  ultimately show ?thesis by simp
qed

theorem spinlock_mutual_exclusion_witness:
  "lock_run (acquired PtableLock 1 (on_cpu 1 two_cpus)) (\<lambda>_. Idle) {(1, PtableLock)}
   \<and> \<not> hw_if (acquired PtableLock 1 (on_cpu 1 two_cpus)) 6"
  using spinlock_mutual_exclusion [OF two_cpus_run, of 1 PtableLock 1] two_cpus_run
  by (simp add: acquired_def pushed_def two_cpus_def)

fun push_pop :: "nat \<Rightarrow> ('z lock_st_scheme, unit) kern" where
  "push_pop 0 s = Ok () s"
| "push_pop (Suc n) s = bnd pushcli (\<lambda>_. bnd (push_pop n) (\<lambda>_. popcli)) s"

text \<open>Below the outermost level a nest of calls is the identity.\<close>

lemma push_pop_deep:
  "cpu_at s c \<Longrightarrow> 0 < ncli (cpus s c) \<Longrightarrow> push_pop n s = Ok () s"
proof (induction n arbitrary: s)
  case (Suc n)
  have at: "cpu_at (pushed c s) c" by (rule pushcli_spec(2) [OF Suc.prems(1)])
  note pos = pushed_pos [OF Suc.prems(1)]
  show ?case
    using Suc.IH [OF at pos] popcli_spec(1) [OF at pos]
    by (simp add: pushcli_spec(1) [OF Suc.prems(1)] pushed_popped_deep [OF Suc.prems])
qed simp

text \<open>pushcli and popcli nest: on any processor, any number of pushcli calls followed by as many
  popcli calls returns, and leaves the nesting depth, the interrupt flag and the locks as they were.
  One popcli more is refused.\<close>

lemma pushcli_popcli_nest:
  assumes "cpu_at s c"
  shows "\<exists>s'. push_pop n s = Ok () s' \<and> cpu_at s' c
    \<and> ncli (cpus s' c) = ncli (cpus s c) \<and> hw_if s' = hw_if s \<and> locks s' = locks s
    \<and> (ncli (cpus s c) = 0 \<longrightarrow> (\<exists>e. popcli s' = Panic e))"
proof -
  have at: "cpu_at (pushed c s) c" by (rule pushcli_spec(2) [OF assms])
  note pos = pushed_pos [OF assms]
  define t where "t = popped c (pushed c s)"
  have t: "cpu_at t c" "ncli (cpus t c) = ncli (cpus s c)" "hw_if t = hw_if s" "locks t = locks s"
    using popcli_spec(2) [OF at pos] by (simp_all add: t_def pushed_popped [OF assms])
  have over: "\<exists>e. popcli u = Panic e" if "cpu_at u c" "ncli (cpus u c) = 0" for u :: "'a lock_st_scheme"
  proof (cases "hw_if u (lapicid u)")
    case True
    then show ?thesis by (simp add: popcli_def readeflags_if_def bnd_def)
  qed (use popcli_underflow [OF that] in blast)
  show ?thesis
  proof (cases n)
    case 0
    with assms over show ?thesis by simp
  next
    case (Suc m)
    then have "push_pop n s = Ok () t"
      using popcli_spec(1) [OF at pos]
      by (simp add: pushcli_spec(1) [OF assms] push_pop_deep [OF at pos] t_def)
    with t over [OF t(1)] show ?thesis by auto
  qed
qed

theorem pushcli_popcli_nest_witness:
  "cpu_at (on_cpu 1 two_cpus) 1 \<and>
   (\<exists>s'. push_pop 3 (on_cpu 1 two_cpus) = Ok () s' \<and> hw_if s' 6)"
proof -
  have at: "cpu_at (on_cpu 1 two_cpus) 1" by (simp add: two_cpus_at)
  from pushcli_popcli_nest [OF this, of 3] obtain s' where
    "push_pop 3 (on_cpu 1 two_cpus) = Ok () s'" and "hw_if s' = hw_if (on_cpu 1 two_cpus)" by blast
  with at show ?thesis by (auto simp: two_cpus_def)
qed

end
