(* ===== verification/Proc.thy ===== *)
theory Proc
  imports Spinlock
begin

text \<open>
  Processes and scheduling, \<open>src/lab10xv6/xv6/proc.c\<close> and \<open>switchuvm\<close> of \<open>vm.c\<close>; \<open>fork\<close>,
  \<open>exit\<close> and \<open>userinit\<close>, which need the file system, are in Exec.

  A \<open>struct proc *\<close> is the index of its slot in \<open>ptable.proc\<close>.  Sleep channels are the kernel
  objects whose addresses the code uses as channels.  Trap frames and contexts live in the kernel
  stack pages of Kalloc's memory, at the offsets of \<open>x86.h\<close> and \<open>proc.h\<close>.

  \<open>swtch\<close> is assembly: it is the parameter \<open>sw\<close> of the routines that give up the processor,
  standing for all that other kernel threads do until this thread is switched to again.  A
  routine that may sleep any number of times takes a list of such environments, one for each time
  it sleeps; when the list is exhausted it stays asleep, the outcome \<open>Block\<close>.
  Here the spin lock calls are explicit, since sleeping is about them.
\<close>

section \<open>State\<close>

definition NPROC :: nat where "NPROC = 64"
definition NOFILE :: nat where "NOFILE = 16"
definition KSTACKSIZE :: nat where "KSTACKSIZE = 4096"

datatype procstate = UNUSED | EMBRYO | SLEEPING | RUNNABLE | RUNNING | ZOMBIE

datatype chan = ProcChan nat | SleeplockChan slid | LogChan | TicksChan | InputChan
  | PipeRead nat | PipeWrite nat | BufChan nat

record proc =
  psz :: nat
  pgdir :: nat
  kstack :: nat
  pstate :: procstate
  pid :: int
  parent :: "nat option"
  tf :: nat
  pcontext :: nat
  pchan :: "chan option"
  killed :: bool
  ofile :: "nat \<Rightarrow> nat option"
  cwd :: "nat option"
  pname :: "byte list"

record proc_st = lock_st +
  procs :: "nat \<Rightarrow> proc"
  nextpid :: int
  initproc :: "nat option"
  forkret_addr :: nat
  trapret_addr :: nat

definition upd_proc :: "nat \<Rightarrow> (proc \<Rightarrow> proc) \<Rightarrow> ('z proc_st_scheme, unit) kern" where
  "upd_proc i f = modk (\<lambda>s. s\<lparr>procs := (procs s)(i := f (procs s i))\<rparr>)"

section \<open>The running process\<close>

definition pinit :: "('z proc_st_scheme, unit) kern" where
  "pinit = initlock PtableLock"

definition myproc :: "('z lock_st_scheme, nat option) kern" where
  "myproc =
     bnd pushcli (\<lambda>_.
     bnd mycpu (\<lambda>c.
     bnd (getk (\<lambda>s. cproc (cpus s c))) (\<lambda>p.
     bnd popcli (\<lambda>_. ret p))))"

text \<open>Using a field of \<open>myproc()\<close> when it is null reads through a null pointer.\<close>

definition myproc_nn :: "('z lock_st_scheme, nat) kern" where
  "myproc_nn = bnd myproc (\<lambda>p. case p of Some i \<Rightarrow> ret i | None \<Rightarrow> panic ''fault: no process'')"

section \<open>Allocating a process slot\<close>

fun find_slot :: "(nat \<Rightarrow> proc) \<Rightarrow> (proc \<Rightarrow> bool) \<Rightarrow> nat list \<Rightarrow> nat option" where
  "find_slot ps P [] = None"
| "find_slot ps P (i # is) = (if P (ps i) then Some i else find_slot ps P is)"

text \<open>\<open>int\<close> increment, wrapping at 32 bits.\<close>

definition int_inc :: "int \<Rightarrow> int" where
  "int_inc n = (if n = 2 ^ 31 - 1 then - (2 ^ 31) else n + 1)"

definition sizeof_trapframe :: nat where "sizeof_trapframe = 76"
definition sizeof_context :: nat where "sizeof_context = 20"

definition allocproc :: "('z proc_st_scheme, nat option) kern" where
  "allocproc =
     bnd (acquire PtableLock) (\<lambda>_.
     bnd (getk (\<lambda>s. find_slot (procs s) (\<lambda>p. pstate p = UNUSED) [0..<NPROC])) (\<lambda>slot.
     case slot of
       None \<Rightarrow> bnd (release PtableLock) (\<lambda>_. ret None)
     | Some p \<Rightarrow>
         bnd (upd_proc p (\<lambda>q. q\<lparr>pstate := EMBRYO\<rparr>)) (\<lambda>_.
         bnd (getk nextpid) (\<lambda>n.
         bnd (modk (\<lambda>s. s\<lparr>nextpid := int_inc n\<rparr>)) (\<lambda>_.
         bnd (upd_proc p (\<lambda>q. q\<lparr>pid := n\<rparr>)) (\<lambda>_.
         bnd (release PtableLock) (\<lambda>_.
         bnd kalloc (\<lambda>ks.
         bnd (upd_proc p (\<lambda>q. q\<lparr>kstack := ks\<rparr>)) (\<lambda>_.
         if ks = 0 then bnd (upd_proc p (\<lambda>q. q\<lparr>pstate := UNUSED\<rparr>)) (\<lambda>_. ret None)
         else let sp = ks + KSTACKSIZE - sizeof_trapframe;
                  sp4 = sp - 4;
                  ctx = sp4 - sizeof_context
              in bnd (upd_proc p (\<lambda>q. q\<lparr>tf := sp\<rparr>)) (\<lambda>_.
                 bnd (modk (\<lambda>s. s\<lparr>mem := store32 (mem s) sp4 (of_nat (trapret_addr s))\<rparr>)) (\<lambda>_.
                 bnd (upd_proc p (\<lambda>q. q\<lparr>pcontext := ctx\<rparr>)) (\<lambda>_.
                 bnd (set_mem (\<lambda>m. memset m ctx 0 sizeof_context)) (\<lambda>_.
                 bnd (modk (\<lambda>s. s\<lparr>mem := store32 (mem s) (ctx + 16) (of_nat (forkret_addr s))\<rparr>)) (\<lambda>_.
                 ret (Some p)))))))))))))))"

section \<open>Address space of the running process\<close>

definition SEG_KDATA :: nat where "SEG_KDATA = 2"

text \<open>
  \<open>switchuvm\<close>: the task state, the page table register.  The TSS descriptor in the GDT and the
  task register, which only the hardware reads, are not part of the state.
\<close>

definition switchuvm :: "nat option \<Rightarrow> ('z proc_st_scheme, unit) kern" where
  "switchuvm po =
     (case po of
        None \<Rightarrow> panic ''switchuvm: no process''
      | Some p \<Rightarrow>
          bnd (getk (\<lambda>s. procs s p)) (\<lambda>pr.
          if kstack pr = 0 then panic ''switchuvm: no kstack''
          else if pgdir pr = 0 then panic ''switchuvm: no pgdir''
          else bnd pushcli (\<lambda>_.
               bnd mycpu (\<lambda>c.
               bnd (modk (upd_cpu c (\<lambda>cp. cp\<lparr>ts := \<lparr>esp0 = kstack pr + KSTACKSIZE,
                      ss0 = 8 * SEG_KDATA, iomb = 0xFFFF\<rparr>\<rparr>))) (\<lambda>_.
               bnd (modk (\<lambda>s. s\<lparr>cr3 := V2P (pgdir pr)\<rparr>)) (\<lambda>_.
               popcli))))))"

definition growproc :: "int \<Rightarrow> ('z proc_st_scheme, int) kern" where
  "growproc n =
     bnd myproc_nn (\<lambda>p.
     bnd (getk (\<lambda>s. procs s p)) (\<lambda>pr.
     let new = nat ((int (psz pr) + n) mod 2 ^ 32);
         finish = (\<lambda>sz. bnd (upd_proc p (\<lambda>q. q\<lparr>psz := sz\<rparr>)) (\<lambda>_.
                        bnd (switchuvm (Some p)) (\<lambda>_. ret 0)))
     in if n > 0 then bnd (allocuvm (pgdir pr) (psz pr) new) (\<lambda>sz. if sz = 0 then ret (- 1) else finish sz)
        else if n < 0 then bnd (deallocuvm (pgdir pr) (psz pr) new) (\<lambda>sz. if sz = 0 then ret (- 1) else finish sz)
        else finish (psz pr)))"

section \<open>Giving up the processor\<close>

text \<open>
  \<open>sched_checks\<close> is \<open>sched\<close> up to the switch: its four checks, and the \<open>intena\<close> it saves.  \<open>sw\<close> is
  what happens between \<open>swtch\<close>'s two halves.
\<close>

definition sched_checks :: "nat \<Rightarrow> ('z proc_st_scheme, bool) kern" where
  "sched_checks p =
     bnd (holding PtableLock) (\<lambda>h.
     if \<not> h then panic ''sched ptable.lock''
     else bnd mycpu (\<lambda>c.
          bnd (getk (\<lambda>s. ncli (cpus s c))) (\<lambda>depth.
          if depth \<noteq> 1 then panic ''sched locks''
          else bnd (getk (\<lambda>s. pstate (procs s p))) (\<lambda>st.
               if st = RUNNING then panic ''sched running''
               else bnd (getk readeflags_if) (\<lambda>fl.
                    if fl then panic ''sched interruptible''
                    else getk (\<lambda>s. intena (cpus s c)))))))"

definition sched :: "('z proc_st_scheme, unit) kern \<Rightarrow> ('z proc_st_scheme, unit) kern" where
  "sched sw =
     bnd myproc_nn (\<lambda>p.
     bnd (sched_checks p) (\<lambda>ien.
     bnd sw (\<lambda>_.
     bnd mycpu (\<lambda>c'. modk (upd_cpu c' (\<lambda>cp. cp\<lparr>intena := ien\<rparr>))))))"

definition yield_cpu :: "('z proc_st_scheme, unit) kern \<Rightarrow> ('z proc_st_scheme, unit) kern" where
  "yield_cpu sw =
     bnd (acquire PtableLock) (\<lambda>_.
     bnd myproc_nn (\<lambda>p.
     bnd (upd_proc p (\<lambda>q. q\<lparr>pstate := RUNNABLE\<rparr>)) (\<lambda>_.
     bnd (sched sw) (\<lambda>_.
     release PtableLock))))"

text \<open>
  The statements of \<open>sleep\<close> before and after \<open>sched\<close>, in the order of the source, as lists: \<open>sleep\<close>
  runs them one after the other, the interleavings below one at a time.
\<close>

definition sleep_before :: "nat \<Rightarrow> chan \<Rightarrow> lockid \<Rightarrow> ('z proc_st_scheme, unit) kern list" where
  "sleep_before p ch lk =
     (if lk \<noteq> PtableLock then [acquire PtableLock, release lk] else []) @
     [upd_proc p (\<lambda>q. q\<lparr>pchan := Some ch\<rparr>),
      upd_proc p (\<lambda>q. q\<lparr>pstate := SLEEPING\<rparr>)]"

definition sleep_after :: "nat \<Rightarrow> lockid \<Rightarrow> ('z proc_st_scheme, unit) kern list" where
  "sleep_after p lk =
     [upd_proc p (\<lambda>q. q\<lparr>pchan := None\<rparr>)] @
     (if lk \<noteq> PtableLock then [release PtableLock, acquire lk] else [])"

definition sleep ::
  "('z proc_st_scheme, unit) kern \<Rightarrow> chan \<Rightarrow> lockid option \<Rightarrow> ('z proc_st_scheme, unit) kern" where
  "sleep sw ch lko =
     bnd myproc (\<lambda>po.
     case po of
       None \<Rightarrow> panic ''sleep''
     | Some p \<Rightarrow>
        (case lko of
           None \<Rightarrow> panic ''sleep without lk''
         | Some lk \<Rightarrow>
             bnd (for_each (\<lambda>a. a) (sleep_before p ch lk)) (\<lambda>_.
             bnd (sched sw) (\<lambda>_.
             for_each (\<lambda>a. a) (sleep_after p lk)))))"

section \<open>Waking up\<close>

definition wake_slot :: "chan \<Rightarrow> nat \<Rightarrow> ('z proc_st_scheme, unit) kern" where
  "wake_slot ch i =
     bnd (getk (\<lambda>s. procs s i)) (\<lambda>p.
     if pstate p = SLEEPING \<and> pchan p = Some ch
     then upd_proc i (\<lambda>q. q\<lparr>pstate := RUNNABLE\<rparr>) else ret ())"

definition wakeup1 :: "chan \<Rightarrow> ('z proc_st_scheme, unit) kern" where
  "wakeup1 ch = for_each (wake_slot ch) [0..<NPROC]"

definition wakeup_steps :: "chan \<Rightarrow> ('z proc_st_scheme, unit) kern list" where
  "wakeup_steps ch = [acquire PtableLock, wakeup1 ch, release PtableLock]"

definition wakeup :: "chan \<Rightarrow> ('z proc_st_scheme, unit) kern" where
  "wakeup ch = for_each (\<lambda>a. a) (wakeup_steps ch)"

definition kill :: "int \<Rightarrow> ('z proc_st_scheme, int) kern" where
  "kill n =
     bnd (acquire PtableLock) (\<lambda>_.
     bnd (getk (\<lambda>s. find_slot (procs s) (\<lambda>p. pid p = n) [0..<NPROC])) (\<lambda>slot.
     case slot of
       None \<Rightarrow> bnd (release PtableLock) (\<lambda>_. ret (- 1))
     | Some p \<Rightarrow>
         bnd (upd_proc p (\<lambda>q. q\<lparr>killed := True\<rparr>)) (\<lambda>_.
         bnd (getk (\<lambda>s. pstate (procs s p))) (\<lambda>st.
         bnd (if st = SLEEPING then upd_proc p (\<lambda>q. q\<lparr>pstate := RUNNABLE\<rparr>) else ret ()) (\<lambda>_.
         bnd (release PtableLock) (\<lambda>_. ret 0))))))"

section \<open>Waiting for children\<close>

text \<open>
  The scan of \<open>wait\<close>: the first zombie child is reaped and its pid returned; otherwise
  \<open>Inl havekids\<close>.
\<close>

definition reap :: "nat \<Rightarrow> ('z proc_st_scheme, int) kern" where
  "reap i =
     bnd (getk (\<lambda>s. procs s i)) (\<lambda>p.
     bnd (kfree (kstack p)) (\<lambda>_.
     bnd (upd_proc i (\<lambda>q. q\<lparr>kstack := 0\<rparr>)) (\<lambda>_.
     bnd (freevm (pgdir p)) (\<lambda>_.
     bnd (upd_proc i (\<lambda>q. q\<lparr>pid := 0, parent := None, pname := (pname q)[0 := 0],
            killed := False, pstate := UNUSED\<rparr>)) (\<lambda>_.
     ret (pid p))))))"

fun wait_scan :: "nat \<Rightarrow> bool \<Rightarrow> nat list \<Rightarrow> ('z proc_st_scheme, bool + int) kern" where
  "wait_scan me havekids [] s = Ok (Inl havekids) s"
| "wait_scan me havekids (i # is) s =
     (if parent (procs s i) \<noteq> Some me then wait_scan me havekids is s
      else if pstate (procs s i) = ZOMBIE then bnd (reap i) (\<lambda>n. ret (Inr n)) s
      else wait_scan me True is s)"

fun wait_loop ::
  "('z proc_st_scheme, unit) kern list \<Rightarrow> nat \<Rightarrow> ('z proc_st_scheme, int) kern" where
  "wait_loop sws me s =
     bnd (wait_scan me False [0..<NPROC]) (\<lambda>r.
     case r of
       Inr n \<Rightarrow> bnd (release PtableLock) (\<lambda>_. ret n)
     | Inl havekids \<Rightarrow>
         bnd (getk (\<lambda>s. killed (procs s me))) (\<lambda>k.
         if \<not> havekids \<or> k then bnd (release PtableLock) (\<lambda>_. ret (- 1))
         else case sws of
                [] \<Rightarrow> (\<lambda>_. Block ''wait'')
              | sw # sws' \<Rightarrow> bnd (sleep sw (ProcChan me) (Some PtableLock)) (\<lambda>_. wait_loop sws' me))) s"

definition wait :: "('z proc_st_scheme, unit) kern list \<Rightarrow> ('z proc_st_scheme, int) kern" where
  "wait sws =
     bnd myproc_nn (\<lambda>me.
     bnd (acquire PtableLock) (\<lambda>_. wait_loop sws me))"

section \<open>The scheduler\<close>

text \<open>
  One round of \<open>scheduler\<close>: \<open>run i\<close> stands for \<open>swtch\<close> into process \<open>i\<close> until it switches back.
\<close>

fun sched_scan ::
  "(nat \<Rightarrow> ('z proc_st_scheme, unit) kern) \<Rightarrow> nat \<Rightarrow> nat list \<Rightarrow> ('z proc_st_scheme, unit) kern" where
  "sched_scan run c [] s = Ok () s"
| "sched_scan run c (i # is) s =
     (if pstate (procs s i) \<noteq> RUNNABLE then sched_scan run c is s
      else bnd (modk (upd_cpu c (\<lambda>cp. cp\<lparr>cproc := Some i\<rparr>))) (\<lambda>_.
           bnd (switchuvm (Some i)) (\<lambda>_.
           bnd (upd_proc i (\<lambda>q. q\<lparr>pstate := RUNNING\<rparr>)) (\<lambda>_.
           bnd (run i) (\<lambda>_.
           bnd switchkvm (\<lambda>_.
           bnd (modk (upd_cpu c (\<lambda>cp. cp\<lparr>cproc := None\<rparr>))) (\<lambda>_.
           sched_scan run c is)))))) s)"

definition scheduler_round ::
  "(nat \<Rightarrow> ('z proc_st_scheme, unit) kern) \<Rightarrow> nat \<Rightarrow> ('z proc_st_scheme, unit) kern" where
  "scheduler_round run c =
     bnd sti (\<lambda>_.
     bnd (acquire PtableLock) (\<lambda>_.
     bnd (sched_scan run c [0..<NPROC]) (\<lambda>_.
     release PtableLock)))"

fun scheduler ::
  "(nat \<Rightarrow> ('z proc_st_scheme, unit) kern) list \<Rightarrow> ('z proc_st_scheme, unit) kern" where
  "scheduler runs s =
     bnd mycpu (\<lambda>c.
     bnd (modk (upd_cpu c (\<lambda>cp. cp\<lparr>cproc := None\<rparr>))) (\<lambda>_.
     for_each (\<lambda>run. scheduler_round run c) runs)) s"

section \<open>The steps run in a row\<close>

lemma bnd_last: "bnd m (\<lambda>_. for_each (\<lambda>a. a) []) = m"
  by (auto simp: bnd_def fun_eq_iff split: res.splits)

lemma for_each_Cons: "for_each f (x # xs) = bnd (f x) (\<lambda>_. for_each f xs)"
  by (rule ext) simp

lemma wakeup_unfold:
  "wakeup ch = bnd (acquire PtableLock) (\<lambda>_. bnd (wakeup1 ch) (\<lambda>_. release PtableLock))"
  by (simp only: wakeup_def wakeup_steps_def for_each_Cons bnd_last)

section \<open>Critical sections\<close>

text \<open>
  \<open>quiet c s s'\<close>: between the two states processor \<open>c\<close> has left every lock, its interrupt nesting
  and the interrupt flag as they were.
\<close>

definition quiet :: "nat \<Rightarrow> 'z lock_st_scheme \<Rightarrow> 'z lock_st_scheme \<Rightarrow> bool" where
  "quiet c s s' \<longleftrightarrow> cpu_at s' c \<and> lapicid s' = lapicid s \<and> ncpu s' = ncpu s
     \<and> hw_if s' = hw_if s \<and> ncli (cpus s' c) = ncli (cpus s c)
     \<and> cproc (cpus s' c) = cproc (cpus s c) \<and> (\<forall>i. i \<noteq> c \<longrightarrow> cpus s' i = cpus s i)
     \<and> (\<forall>l. locked (locks s' l) = locked (locks s l))
     \<and> (\<forall>l. locked (locks s l) \<longrightarrow> lcpu (locks s' l) = lcpu (locks s l))"

lemma quiet_refl: "cpu_at s c \<Longrightarrow> quiet c s s"
  by (simp add: quiet_def)

lemma quiet_trans: "quiet c s t \<Longrightarrow> quiet c t u \<Longrightarrow> quiet c s u"
  by (simp add: quiet_def)

text \<open>The state differs in nothing that the lock operations read or write.\<close>

definition same_locks :: "'z lock_st_scheme \<Rightarrow> 'z lock_st_scheme \<Rightarrow> bool" where
  "same_locks s t \<longleftrightarrow> cpus t = cpus s \<and> locks t = locks s \<and> hw_if t = hw_if s
     \<and> lapicid t = lapicid s \<and> ncpu t = ncpu s"

lemma same_locks_refl [simp]: "same_locks s s"
  by (simp add: same_locks_def)

lemma same_locks_trans: "same_locks s t \<Longrightarrow> same_locks t u \<Longrightarrow> same_locks s u"
  by (simp add: same_locks_def)

lemma quiet_same_locks: "quiet c s t \<Longrightarrow> same_locks t u \<Longrightarrow> quiet c s u"
  by (auto simp: quiet_def same_locks_def cpu_at_def)

lemma release_after:
  assumes at: "cpu_at s c" and free: "\<not> locked (locks s l)" and same: "same_locks (acquired l c s) t"
  shows "release l t = Ok () (released l c t)" and "quiet c s (released l c t)"
proof -
  have at': "cpu_at t c" using cpu_at_acquired [OF at, of l] same by (simp add: cpu_at_def same_locks_def)
  have pos: "0 < ncli (cpus t c)"
    using at same by (simp add: cpu_at_def same_locks_def acquired_def pushed_def)
  have lk: "locks t = (locks s)(l := \<lparr>locked = True, lcpu = Some c\<rparr>)"
    using same by (simp add: same_locks_def acquired_def)
  then show "release l t = Ok () (released l c t)" by (simp add: release_spec [OF at' pos])
  have "cpu_at (released l c t) c"
    unfolding released_def by (rule popcli_spec(2)) (use at' pos in simp_all)
  moreover have "hw_if (released l c t) = hw_if s"
    using same at
    by (auto simp: same_locks_def released_def popped_def acquired_def pushed_def cpu_at_def fun_eq_iff)
  ultimately show "quiet c s (released l c t)"
    using same free by (auto simp: quiet_def same_locks_def released_def popped_def acquired_def pushed_def)
qed

lemma acquired_frame [simp]:
  "mem (acquired l c s) = mem s" "freelist (acquired l c s) = freelist s"
  "kend (acquired l c s) = kend s" "mem (released l c s) = mem s"
  "freelist (released l c s) = freelist s" "kend (released l c s) = kend s"
  "mem (pushed c s) = mem s" "mem (popped c s) = mem s"
  by (simp_all add: acquired_def released_def pushed_def popped_def)

lemma acquired_frame_proc [simp]:
  "procs (acquired l c s) = procs s" "procs (released l c s) = procs s"
  "nextpid (acquired l c s) = nextpid s" "nextpid (released l c s) = nextpid s"
  "initproc (acquired l c s) = initproc s" "initproc (released l c s) = initproc s"
  "forkret_addr (acquired l c s) = forkret_addr s" "forkret_addr (released l c s) = forkret_addr s"
  "trapret_addr (acquired l c s) = trapret_addr s" "trapret_addr (released l c s) = trapret_addr s"
  "procs (pushed c s) = procs s" "procs (popped c s) = procs s"
  by (simp_all add: acquired_def released_def pushed_def popped_def)

lemma myproc_spec:
  assumes "cpu_at s c"
  shows "myproc s = Ok (cproc (cpus s c)) (popped c (pushed c s))"
    and "quiet c s (popped c (pushed c s))"
proof -
  have at: "cpu_at (pushed c s) c" by (rule pushcli_spec(2) [OF assms])
  have "mycpu (pushed c s) = Ok c (pushed c s)"
    by (rule mycpu_off [OF at]) (simp add: pushed_def)
  then show "myproc s = Ok (cproc (cpus s c)) (popped c (pushed c s))"
    using popcli_spec(1) [OF at pushed_pos [OF assms]]
    by (simp add: myproc_def pushcli_spec(1) [OF assms] bnd_def) (simp add: pushed_def)
  show "quiet c s (popped c (pushed c s))"
    using popcli_spec(2) [OF at pushed_pos [OF assms]]
    by (simp add: pushed_popped [OF assms] quiet_def)
qed

lemma myproc_deep:
  assumes "cpu_at s c" and "0 < ncli (cpus s c)"
  shows "myproc s = Ok (cproc (cpus s c)) s"
  by (simp add: myproc_spec(1) [OF assms(1)] pushed_popped_deep [OF assms])

section \<open>wakeup and kill\<close>

definition woken :: "chan \<Rightarrow> (nat \<Rightarrow> proc) \<Rightarrow> nat \<Rightarrow> proc" where
  "woken ch ps i =
     (if i < NPROC \<and> pstate (ps i) = SLEEPING \<and> pchan (ps i) = Some ch
      then (ps i)\<lparr>pstate := RUNNABLE\<rparr> else ps i)"

definition wake1 :: "chan \<Rightarrow> proc \<Rightarrow> proc" where
  "wake1 ch p = (if pstate p = SLEEPING \<and> pchan p = Some ch then p\<lparr>pstate := RUNNABLE\<rparr> else p)"

lemma wake_slot_spec: "wake_slot ch i s = Ok () (s\<lparr>procs := (procs s)(i := wake1 ch (procs s i))\<rparr>)"
  by (simp add: wake_slot_def upd_proc_def wake1_def bnd_def)

lemma wake_slots:
  "distinct is \<Longrightarrow> for_each (wake_slot ch) is s =
     Ok () (s\<lparr>procs := \<lambda>i. if i \<in> set is then wake1 ch (procs s i) else procs s i\<rparr>)"
proof (induction "is" arbitrary: s)
  case (Cons j js)
  then show ?case
    by (auto simp: wake_slot_spec intro!: arg_cong [where f = "\<lambda>p. s\<lparr>procs := p\<rparr>"])
qed simp

lemma wakeup1_spec: "wakeup1 ch s = Ok () (s\<lparr>procs := woken ch (procs s)\<rparr>)"
  by (simp add: wakeup1_def wake_slots)
    (auto simp: woken_def wake1_def fun_eq_iff intro!: arg_cong [where f = "\<lambda>p. s\<lparr>procs := p\<rparr>"])

lemma find_slot_Some:
  "find_slot ps P is = Some i \<Longrightarrow> i \<in> set is \<and> P (ps i)"
  by (induction "is") (auto split: if_splits)

lemma find_slot_None: "find_slot ps P is = None \<longleftrightarrow> (\<forall>i \<in> set is. \<not> P (ps i))"
  by (induction "is") auto

lemma wakeup_spec:
  assumes "cpu_at s c" and "\<not> locked (locks s PtableLock)"
  shows "\<exists>s'. wakeup ch s = Ok () s' \<and> procs s' = woken ch (procs s) \<and> quiet c s s'"
proof -
  let ?t = "(acquired PtableLock c s)\<lparr>procs := woken ch (procs s)\<rparr>"
  have "same_locks (acquired PtableLock c s) ?t" by (simp add: same_locks_def)
  note r = release_after [OF assms this]
  have "wakeup ch s = Ok () (released PtableLock c ?t)"
    using assms(2) r(1) by (simp add: wakeup_unfold acquire_spec [OF assms(1)] wakeup1_spec)
  with r(2) show ?thesis by auto
qed

definition killed_slot :: "int \<Rightarrow> (nat \<Rightarrow> proc) \<Rightarrow> nat option" where
  "killed_slot n ps = find_slot ps (\<lambda>p. pid p = n) [0..<NPROC]"

definition kill1 :: "proc \<Rightarrow> proc" where
  "kill1 p = p\<lparr>killed := True, pstate := (if pstate p = SLEEPING then RUNNABLE else pstate p)\<rparr>"

lemma kill_spec:
  assumes "cpu_at s c" and "\<not> locked (locks s PtableLock)"
  shows "\<exists>s'. kill n s = Ok (if killed_slot n (procs s) = None then - 1 else 0) s' \<and> quiet c s s'
     \<and> procs s' = (case killed_slot n (procs s) of None \<Rightarrow> procs s
                   | Some p \<Rightarrow> (procs s)(p := kill1 (procs s p)))"
proof -
  define t where "t = (acquired PtableLock c s)\<lparr>procs := (case killed_slot n (procs s) of None \<Rightarrow> procs s
                   | Some p \<Rightarrow> (procs s)(p := kill1 (procs s p)))\<rparr>"
  have "same_locks (acquired PtableLock c s) t" by (simp add: same_locks_def t_def)
  note r = release_after [OF assms this]
  have "kill n s = Ok (if killed_slot n (procs s) = None then - 1 else 0) (released PtableLock c t)"
  proof (cases "killed_slot n (procs s)")
    case None
    then have "acquired PtableLock c s = t" and "procs t = procs s" by (simp_all add: t_def)
    with None assms(2) r(1) show ?thesis
      by (simp add: kill_def acquire_spec [OF assms(1)] killed_slot_def bnd_def)
  next
    case (Some p)
    then have "t = (acquired PtableLock c s)\<lparr>procs := (procs s)(p := kill1 (procs s p))\<rparr>" by (simp add: t_def)
    with Some assms(2) r(1) show ?thesis
      by (auto simp: kill_def acquire_spec [OF assms(1)] killed_slot_def bnd_def upd_proc_def kill1_def)
  qed
  with r(2) show ?thesis by (auto simp: t_def)
qed

section \<open>allocproc\<close>

text \<open>The process-table invariant: live processes have different positive pids below \<open>nextpid\<close>.\<close>

definition procs_ok :: "'z proc_st_scheme \<Rightarrow> bool" where
  "procs_ok s \<longleftrightarrow> 0 < nextpid s
     \<and> (\<forall>i < NPROC. pstate (procs s i) \<noteq> UNUSED \<longrightarrow> 0 < pid (procs s i) \<and> pid (procs s i) < nextpid s)
     \<and> (\<forall>i < NPROC. \<forall>j < NPROC. pstate (procs s i) \<noteq> UNUSED \<longrightarrow> pstate (procs s j) \<noteq> UNUSED \<longrightarrow>
          pid (procs s i) = pid (procs s j) \<longrightarrow> i = j)"

text \<open>The state of slot \<open>p\<close> that \<open>allocproc\<close> sets up around the stack page \<open>ks\<close>.\<close>

definition embryo :: "int \<Rightarrow> nat \<Rightarrow> proc \<Rightarrow> proc" where
  "embryo n ks q = q\<lparr>pstate := EMBRYO, pid := n, kstack := ks,
     tf := ks + KSTACKSIZE - sizeof_trapframe,
     pcontext := ks + KSTACKSIZE - sizeof_trapframe - 4 - sizeof_context\<rparr>"

definition stack_image :: "nat \<Rightarrow> nat \<Rightarrow> nat \<Rightarrow> mem \<Rightarrow> mem" where
  "stack_image ks fr tr m =
     (let sp4 = ks + KSTACKSIZE - sizeof_trapframe - 4; ctx = sp4 - sizeof_context
      in store32 (memset (store32 m sp4 (of_nat tr)) ctx 0 sizeof_context) (ctx + 16) (of_nat fr))"

lemma kalloc_cases:
  "kalloc s = Ok (freelist s) (if freelist s = 0 then s
      else s\<lparr>freelist := unat (load32 (mem s) (freelist s))\<rparr>)"
  by (simp add: kalloc_def Let_def)

lemma allocproc_spec:
  assumes at: "cpu_at s c" and free: "\<not> locked (locks s PtableLock)"
  shows "\<exists>r s'. allocproc s = Ok r s' \<and> quiet c s s' \<and>
    (case find_slot (procs s) (\<lambda>p. pstate p = UNUSED) [0..<NPROC] of
       None \<Rightarrow> r = None \<and> procs s' = procs s \<and> nextpid s' = nextpid s \<and> mem s' = mem s
     | Some p \<Rightarrow> nextpid s' = int_inc (nextpid s) \<and>
         (if freelist s = 0
          then r = None \<and> mem s' = mem s \<and>
               procs s' = (procs s)(p := (procs s p)\<lparr>pid := nextpid s, kstack := 0, pstate := UNUSED\<rparr>)
          else r = Some p \<and> procs s' = (procs s)(p := embryo (nextpid s) (freelist s) (procs s p))
               \<and> mem s' = stack_image (freelist s) (forkret_addr s) (trapret_addr s) (mem s)))"
proof (cases "find_slot (procs s) (\<lambda>p. pstate p = UNUSED) [0..<NPROC]")
  case None
  have "same_locks (acquired PtableLock c s) (acquired PtableLock c s)" by simp
  note r = release_after [OF assms this]
  from None r free show ?thesis
    by (auto simp: allocproc_def acquire_spec [OF at] bnd_def)
next
  case (Some p)
  define t where "t = (acquired PtableLock c s)\<lparr>nextpid := int_inc (nextpid s),
    procs := (procs s)(p := (procs s p)\<lparr>pstate := EMBRYO, pid := nextpid s\<rparr>)\<rparr>"
  define u where "u = released PtableLock c t"
  have "same_locks (acquired PtableLock c s) t" by (simp add: same_locks_def t_def)
  note r = release_after [OF assms this]
  have unused: "pstate (procs s p) = UNUSED" using find_slot_Some [OF Some] by simp
  have q: "quiet c s u" using r(2) by (simp add: u_def)
  have uf: "freelist u = freelist s" "mem u = mem s" "nextpid u = int_inc (nextpid s)"
    "procs u = (procs s)(p := (procs s p)\<lparr>pstate := EMBRYO, pid := nextpid s\<rparr>)"
    "forkret_addr u = forkret_addr s" "trapret_addr u = trapret_addr s"
    by (simp_all add: u_def t_def)
  have rel: "release PtableLock ((acquired PtableLock c s)\<lparr>nextpid := int_inc (nextpid s),
      procs := (procs s)(p := (procs s p)\<lparr>pstate := EMBRYO, pid := nextpid s\<rparr>)\<rparr>) = Ok () u"
    using r(1) by (simp add: u_def t_def)
  show ?thesis
  proof (cases "freelist s = 0")
    case True
    let ?v = "u\<lparr>procs := (procs s)(p := (procs s p)\<lparr>pid := nextpid s, kstack := 0, pstate := UNUSED\<rparr>)\<rparr>"
    have "allocproc s = Ok None ?v"
      using Some free True rel unused uf
      by (simp add: allocproc_def acquire_spec [OF at] bnd_def upd_proc_def kalloc_cases)
    moreover have "quiet c s ?v"
      by (rule quiet_same_locks [OF q]) (simp add: same_locks_def)
    ultimately show ?thesis using Some True uf by simp
  next
    case False
    let ?v = "u\<lparr>freelist := unat (load32 (mem s) (freelist s)),
      procs := (procs s)(p := embryo (nextpid s) (freelist s) (procs s p)),
      mem := stack_image (freelist s) (forkret_addr s) (trapret_addr s) (mem s)\<rparr>"
    have "allocproc s = Ok (Some p) ?v"
      using Some free False rel unused uf
      by (simp add: allocproc_def acquire_spec [OF at] bnd_def upd_proc_def kalloc_cases Let_def
          embryo_def stack_image_def set_mem_def add.assoc)
    moreover have "quiet c s ?v"
      by (rule quiet_same_locks [OF q]) (simp add: same_locks_def)
    ultimately show ?thesis using Some False uf by simp
  qed
qed

lemma stack_image_words:
  assumes "fr < 2 ^ 32" and "tr < 2 ^ 32"
    and "ctx = ks + KSTACKSIZE - sizeof_trapframe - 4 - sizeof_context"
  shows "unat (load32 (stack_image ks fr tr m) (ctx + 16)) = fr"
    and "unat (load32 (stack_image ks fr tr m) (ctx + 20)) = tr"
proof -
  have sp4: "ks + KSTACKSIZE - sizeof_trapframe - 4 = ctx + 20"
    by (simp add: assms(3) KSTACKSIZE_def sizeof_trapframe_def sizeof_context_def)
  have im: "stack_image ks fr tr m =
      store32 (memset (store32 m (ctx + 20) (of_nat tr)) ctx 0 20) (ctx + 16) (of_nat fr)"
    unfolding stack_image_def Let_def sp4 by (simp add: sizeof_context_def)
  show "unat (load32 (stack_image ks fr tr m) (ctx + 16)) = fr"
    using assms(1) by (simp add: im unat_of_nat)
  have "load32 (stack_image ks fr tr m) (ctx + 20) = load32 (store32 m (ctx + 20) (of_nat tr)) (ctx + 20)"
    by (rule load32_cong) (simp add: im store32_other memset_apply)
  then show "unat (load32 (stack_image ks fr tr m) (ctx + 20)) = tr"
    using assms(2) by (simp add: unat_of_nat)
qed

lemma procs_ok_pid:
  "procs_ok s \<Longrightarrow> i < NPROC \<Longrightarrow> pstate (procs s i) \<noteq> UNUSED \<Longrightarrow>
   0 < pid (procs s i) \<and> pid (procs s i) < nextpid s"
  unfolding procs_ok_def by blast

lemma procs_ok_inj:
  "procs_ok s \<Longrightarrow> i < NPROC \<Longrightarrow> j < NPROC \<Longrightarrow> pstate (procs s i) \<noteq> UNUSED \<Longrightarrow>
   pstate (procs s j) \<noteq> UNUSED \<Longrightarrow> pid (procs s i) = pid (procs s j) \<Longrightarrow> i = j"
  unfolding procs_ok_def by blast

lemma procs_ok_upd:
  assumes ok: "procs_ok s" and n: "nextpid s' = nextpid s + 1"
    and ps: "procs s' = (procs s)(p := q)" and q: "pstate q = UNUSED \<or> pid q = nextpid s"
  shows "procs_ok s'"
proof -
  have pos: "0 < nextpid s" using ok by (simp add: procs_ok_def)
  have r: "0 < pid (procs s' i) \<and> pid (procs s' i) < nextpid s'"
    if "i < NPROC" "pstate (procs s' i) \<noteq> UNUSED" for i
    using that procs_ok_pid [OF ok, of i] q pos n by (auto simp: ps split: if_splits)
  have "i = j" if "i < NPROC" "j < NPROC" "pstate (procs s' i) \<noteq> UNUSED"
    "pstate (procs s' j) \<noteq> UNUSED" "pid (procs s' i) = pid (procs s' j)" for i j
    using that procs_ok_inj [OF ok, of i j] procs_ok_pid [OF ok, of i] procs_ok_pid [OF ok, of j] q
    by (auto simp: ps split: if_splits)
  with r pos n show ?thesis unfolding procs_ok_def by auto
qed

text \<open>allocproc returns null only when every slot is taken or memory is exhausted; otherwise it claims
  an unused slot, gives it a pid no live process has, and lays out its kernel stack so that the
  first switch to it runs forkret and then returns to trapret.  Live pids stay distinct on
  every path, and all locks are released.\<close>

lemma allocproc_fresh:
  assumes "cpu_at s c" and "\<not> locked (locks s PtableLock)" and "procs_ok s"
    and "nextpid s < 2 ^ 31 - 1" and "forkret_addr s < 2 ^ 32" and "trapret_addr s < 2 ^ 32"
  shows "\<exists>r s'. allocproc s = Ok r s' \<and> quiet c s s' \<and> procs_ok s' \<and>
    (case r of
       None \<Rightarrow> (\<forall>i < NPROC. pstate (procs s i) \<noteq> UNUSED) \<or> freelist s = 0
     | Some p \<Rightarrow> p < NPROC \<and> pstate (procs s p) = UNUSED \<and> pstate (procs s' p) = EMBRYO
         \<and> pid (procs s' p) = nextpid s \<and> (\<forall>i. i \<noteq> p \<longrightarrow> procs s' i = procs s i)
         \<and> tf (procs s' p) + sizeof_trapframe = kstack (procs s' p) + KSTACKSIZE
         \<and> pcontext (procs s' p) + 24 = tf (procs s' p)
         \<and> unat (load32 (mem s') (pcontext (procs s' p) + 16)) = forkret_addr s
         \<and> unat (load32 (mem s') (pcontext (procs s' p) + 20)) = trapret_addr s)"
proof (cases "find_slot (procs s) (\<lambda>p. pstate p = UNUSED) [0..<NPROC]")
  case None
  with allocproc_spec [OF assms(1,2)] obtain s' where
    s': "allocproc s = Ok None s'" "quiet c s s'" "procs s' = procs s" "nextpid s' = nextpid s" by auto
  moreover have "procs_ok s'" using s' assms(3) by (simp add: procs_ok_def)
  moreover have "\<forall>i < NPROC. pstate (procs s i) \<noteq> UNUSED"
    using None by (simp add: find_slot_None)
  ultimately show ?thesis by auto
next
  case (Some p)
  note p = find_slot_Some [OF Some]
  from allocproc_spec [OF assms(1,2)] obtain r s' where
    s': "allocproc s = Ok r s'" "quiet c s s'" "nextpid s' = int_inc (nextpid s)"
    and alt: "if freelist s = 0
          then r = None \<and> mem s' = mem s \<and>
               procs s' = (procs s)(p := (procs s p)\<lparr>pid := nextpid s, kstack := 0, pstate := UNUSED\<rparr>)
          else r = Some p \<and> procs s' = (procs s)(p := embryo (nextpid s) (freelist s) (procs s p))
               \<and> mem s' = stack_image (freelist s) (forkret_addr s) (trapret_addr s) (mem s)"
    by (auto simp only: Some option.case)
  have n: "nextpid s' = nextpid s + 1" using s'(3) assms(4) by (simp add: int_inc_def)
  show ?thesis
  proof (cases "freelist s = 0")
    case True
    with alt have "r = None" and ps: "procs s' = (procs s)(p := (procs s p)\<lparr>pid := nextpid s, kstack := 0, pstate := UNUSED\<rparr>)"
      by simp_all
    with s' True procs_ok_upd [OF assms(3) n ps] show ?thesis by auto
  next
    case False
    with alt have r: "r = Some p" and ps: "procs s' = (procs s)(p := embryo (nextpid s) (freelist s) (procs s p))"
      and m: "mem s' = stack_image (freelist s) (forkret_addr s) (trapret_addr s) (mem s)" by simp_all
    have "procs_ok s'" by (rule procs_ok_upd [OF assms(3) n ps]) (simp add: embryo_def)
    moreover note w = stack_image_words [OF assms(5,6), of "pcontext (procs s' p)" "freelist s" "mem s"]
    ultimately show ?thesis
      using s'(1,2) r p w
      by (auto simp: m ps embryo_def KSTACKSIZE_def sizeof_trapframe_def sizeof_context_def)
  qed
qed

definition boot_procs :: proc_st where
  "boot_procs = \<lparr>mem = (\<lambda>_. 0), freelist = 0x80400000, use_lock = True, kend = 0x80200000,
     kpgdir = 0, cr3 = 0, sym_data = 0,
     cpus = (\<lambda>i. \<lparr>apicid = i, ts = \<lparr>esp0 = 0, ss0 = 0, iomb = 0\<rparr>, ncli = 0, intena = False, cproc = None\<rparr>),
     ncpu = 1, lapicid = 0, hw_if = (\<lambda>_. True),
     locks = (\<lambda>_. \<lparr>locked = False, lcpu = None\<rparr>),
     procs = (\<lambda>_. \<lparr>psz = 0, pgdir = 0, kstack = 0, pstate = UNUSED, pid = 0, parent = None, tf = 0,
        pcontext = 0, pchan = None, killed = False, ofile = (\<lambda>_. None), cwd = None, pname = []\<rparr>),
     nextpid = 1, initproc = None, forkret_addr = 0x80100100, trapret_addr = 0x80100200\<rparr>"

lemma boot_procs_at: "cpu_at boot_procs 0" "\<not> locked (locks boot_procs l)"
  by (simp_all add: boot_procs_def cpu_at_def)

theorem allocproc_fresh_witness:
  "\<exists>s'. allocproc boot_procs = Ok (Some 0) s' \<and> pid (procs s' 0) = 1 \<and> pstate (procs s' 0) = EMBRYO"
proof -
  have "procs_ok boot_procs" by (simp add: procs_ok_def boot_procs_def)
  moreover have "nextpid boot_procs = 1" "forkret_addr boot_procs < 2 ^ 32" "trapret_addr boot_procs < 2 ^ 32"
    "freelist boot_procs \<noteq> 0" "pstate (procs boot_procs i) = UNUSED" for i
    by (simp_all add: boot_procs_def)
  ultimately obtain p s' where "allocproc boot_procs = Ok (Some p) s'" "pid (procs s' p) = 1" "pstate (procs s' p) = EMBRYO"
    using allocproc_fresh [of boot_procs 0] boot_procs_at
    by (fastforce split: option.splits simp: NPROC_def)
  moreover have "find_slot (procs boot_procs) (\<lambda>p. pstate p = UNUSED) [0..<NPROC] = Some 0"
    by (simp add: boot_procs_def NPROC_def upt_rec)
  ultimately show ?thesis using allocproc_spec [of boot_procs 0] boot_procs_at by (auto split: if_splits)
qed

section \<open>Sleeping without losing a wakeup\<close>

text \<open>
  A sleeper on processor \<open>a\<close> and a waker on processor \<open>b\<close>, interleaved statement by statement.  The
  sleeper runs the loop the kernel uses everywhere, \<open>acquire(lk); while(!cond) sleep(ch, lk);\<close>
  \<open>release(lk)\<close>; the waker runs \<open>acquire(lk); cond = 1; wakeup(ch); release(lk)\<close>.  Inside \<open>sleep\<close> and
  \<open>wakeup\<close> a step runs the next statement of \<open>sleep_before\<close>, \<open>sleep_after\<close> and \<open>wakeup_steps\<close>, the lists
  that \<open>sleep\<close> and \<open>wakeup\<close> themselves run.  Between the two lists come the checks of \<open>sched\<close>; then
  the scheduler of processor \<open>a\<close> releases \<open>ptable.lock\<close> at the end of a round, and in a later round
  takes it again and picks the process once it is \<open>RUNNABLE\<close>, as \<open>sched_scan\<close> does.
\<close>

datatype spc = SIdle | STest | SBefore nat | SSched | SSwitched | SOut | SAfter nat | SEnd
datatype wpc = WIdle | WLk | WWake nat | WRel | WDone

definition s_next :: "nat \<Rightarrow> nat \<Rightarrow> spc" where
  "s_next n k = (if Suc k < n then SBefore (Suc k) else SSched)"

definition s_back :: "nat \<Rightarrow> nat \<Rightarrow> spc" where
  "s_back n k = (if Suc k < n then SAfter (Suc k) else STest)"

definition w_next :: "nat \<Rightarrow> nat \<Rightarrow> wpc" where
  "w_next n k = (if Suc k < n then WWake (Suc k) else WRel)"

inductive sw_run ::
  "nat \<Rightarrow> nat \<Rightarrow> nat \<Rightarrow> chan \<Rightarrow> lockid \<Rightarrow> 'z proc_st_scheme \<Rightarrow> bool \<Rightarrow> spc \<Rightarrow> wpc \<Rightarrow> bool"
  for a b p ch lk where
  start: "locks_inv s {} \<Longrightarrow> a < ncpu s \<Longrightarrow> b < ncpu s \<Longrightarrow> pstate (procs s p) = RUNNING \<Longrightarrow>
     sw_run a b p ch lk s False SIdle WIdle"
| s_lock: "sw_run a b p ch lk s cond SIdle w \<Longrightarrow> acquire lk (on_cpu a s) = Ok () s' \<Longrightarrow>
     sw_run a b p ch lk s' cond STest w"
| s_go: "sw_run a b p ch lk s cond STest w \<Longrightarrow> cond \<Longrightarrow> release lk (on_cpu a s) = Ok () s' \<Longrightarrow>
     sw_run a b p ch lk s' cond SEnd w"
| s_call: "sw_run a b p ch lk s cond STest w \<Longrightarrow> \<not> cond \<Longrightarrow> sw_run a b p ch lk s cond (SBefore 0) w"
| s_step: "sw_run a b p ch lk s cond (SBefore k) w \<Longrightarrow> as = sleep_before p ch lk \<Longrightarrow> k < length as \<Longrightarrow>
     (as ! k) (on_cpu a s) = Ok () s' \<Longrightarrow> sw_run a b p ch lk s' cond (s_next (length as) k) w"
| s_sched: "sw_run a b p ch lk s cond SSched w \<Longrightarrow> sched_checks p (on_cpu a s) = Ok ien s' \<Longrightarrow>
     sw_run a b p ch lk s' cond SSwitched w"
| s_out: "sw_run a b p ch lk s cond SSwitched w \<Longrightarrow> release PtableLock (on_cpu a s) = Ok () s' \<Longrightarrow>
     sw_run a b p ch lk s' cond SOut w"
| s_pick: "sw_run a b p ch lk s cond SOut w \<Longrightarrow> acquire PtableLock (on_cpu a s) = Ok () t \<Longrightarrow>
     pstate (procs t p) = RUNNABLE \<Longrightarrow> upd_proc p (\<lambda>q. q\<lparr>pstate := RUNNING\<rparr>) t = Ok () s' \<Longrightarrow>
     sw_run a b p ch lk s' cond (SAfter 0) w"
| s_after: "sw_run a b p ch lk s cond (SAfter k) w \<Longrightarrow> as = sleep_after p lk \<Longrightarrow> k < length as \<Longrightarrow>
     (as ! k) (on_cpu a s) = Ok () s' \<Longrightarrow> sw_run a b p ch lk s' cond (s_back (length as) k) w"
| w_lock: "sw_run a b p ch lk s cond sp WIdle \<Longrightarrow> acquire lk (on_cpu b s) = Ok () s' \<Longrightarrow>
     sw_run a b p ch lk s' cond sp WLk"
| w_set: "sw_run a b p ch lk s cond sp WLk \<Longrightarrow> sw_run a b p ch lk s True sp (WWake 0)"
| w_step: "sw_run a b p ch lk s cond sp (WWake k) \<Longrightarrow> as = wakeup_steps ch \<Longrightarrow> k < length as \<Longrightarrow>
     (as ! k) (on_cpu b s) = Ok () s' \<Longrightarrow> sw_run a b p ch lk s' cond sp (w_next (length as) k)"
| w_unlock: "sw_run a b p ch lk s cond sp WRel \<Longrightarrow> release lk (on_cpu b s) = Ok () s' \<Longrightarrow>
     sw_run a b p ch lk s' cond sp WDone"

definition s_held :: "nat \<Rightarrow> lockid \<Rightarrow> spc \<Rightarrow> (nat \<times> lockid) set" where
  "s_held a lk sp = (if sp \<in> {STest, SBefore 0, SBefore 1} then {(a, lk)} else {})
     \<union> (if sp \<in> {SBefore 1, SBefore 2, SBefore 3, SSched, SSwitched, SAfter 0, SAfter 1}
        then {(a, PtableLock)} else {})"

definition w_held :: "nat \<Rightarrow> lockid \<Rightarrow> wpc \<Rightarrow> (nat \<times> lockid) set" where
  "w_held b lk w = (if w \<in> {WLk, WWake 0, WWake 1, WWake 2, WRel} then {(b, lk)} else {})
     \<union> (if w \<in> {WWake 1, WWake 2} then {(b, PtableLock)} else {})"

text \<open>What the two program counters say of the condition and of the sleeping process.\<close>

definition sw_data :: "nat \<Rightarrow> chan \<Rightarrow> 'z proc_st_scheme \<Rightarrow> bool \<Rightarrow> spc \<Rightarrow> wpc \<Rightarrow> bool" where
  "sw_data p ch s cond sp w \<longleftrightarrow>
     cond = (w \<notin> {WIdle, WLk})
   \<and> (sp \<notin> {SSched, SSwitched, SOut} \<longrightarrow> pstate (procs s p) = RUNNING)
   \<and> (sp \<in> {SBefore 0, SBefore 1} \<longrightarrow> w = WIdle)
   \<and> (sp \<in> {SBefore 2, SBefore 3, SSched, SSwitched} \<longrightarrow> w \<in> {WIdle, WLk, WWake 0})
   \<and> (sp \<in> {SBefore 3, SSched, SSwitched} \<longrightarrow> pchan (procs s p) = Some ch)
   \<and> (sp \<in> {SSched, SSwitched} \<longrightarrow> pstate (procs s p) = SLEEPING)
   \<and> (sp = SOut \<longrightarrow> pstate (procs s p) = RUNNABLE \<or>
        pstate (procs s p) = SLEEPING \<and> pchan (procs s p) = Some ch \<and> w \<in> {WIdle, WLk, WWake 0, WWake 1})
   \<and> (\<forall>k. sp = SBefore k \<longrightarrow> k < 4) \<and> (\<forall>k. sp = SAfter k \<longrightarrow> k < 3) \<and> (\<forall>k. w = WWake k \<longrightarrow> k < 3)"

lemma locks_inv_excl: "locks_inv s H \<Longrightarrow> (c, l) \<in> H \<Longrightarrow> (d, l) \<in> H \<Longrightarrow> c = d"
  unfolding locks_inv_def by (metis option.inject)

lemma locks_inv_same:
  assumes "locks_inv s H" and "cpus t = cpus s" "locks t = locks s" "hw_if t = hw_if s" "ncpu t = ncpu s"
  shows "locks_inv t H"
proof -
  have eq: "cpu_at (on_cpu c t) c = cpu_at (on_cpu c s) c" for c by (simp add: cpu_at_def assms(2-))
  show ?thesis using assms(1) unfolding locks_inv_def assms(2-) eq .
qed

lemma procs_on_cpu [simp]: "procs (on_cpu c s) = procs s"
  by (simp add: on_cpu_def)

lemma acquire_frame:
  assumes "locks_inv s H" and "c < ncpu s" and "acquire l (on_cpu c s) = Ok () s'"
  shows "procs s' = procs s \<and> ncpu s' = ncpu s"
proof -
  have "cpu_at (on_cpu c s) c" using assms(1,2) by (simp add: locks_inv_def)
  from assms(3) show ?thesis
    by (auto simp: acquire_spec [OF \<open>cpu_at (on_cpu c s) c\<close>] acquired_def pushed_def split: if_splits)
qed

lemma release_frame:
  assumes "locks_inv s H" and "(c, l) \<in> H" and "release l (on_cpu c s) = Ok () s'"
  shows "procs s' = procs s \<and> ncpu s' = ncpu s"
proof -
  note held = locks_inv_held [OF assms(1,2)]
  have "cpu_at (on_cpu c s) c" using assms(1) held(1) by (simp add: locks_inv_def)
  from assms(3) held(2) show ?thesis
    by (auto simp: release_spec [OF \<open>cpu_at (on_cpu c s) c\<close>] released_def popped_def split: if_splits)
qed

definition sw_inv ::
  "nat \<Rightarrow> nat \<Rightarrow> nat \<Rightarrow> chan \<Rightarrow> lockid \<Rightarrow> 'z proc_st_scheme \<Rightarrow> bool \<Rightarrow> spc \<Rightarrow> wpc \<Rightarrow> bool" where
  "sw_inv a b p ch lk s cond sp w \<longleftrightarrow> a < ncpu s \<and> b < ncpu s
     \<and> locks_inv s (s_held a lk sp \<union> w_held b lk w) \<and> sw_data p ch s cond sp w"

text \<open>A successful acquire (release) by the sleeper or the waker moves the held set along.\<close>

lemma sw_inv_acq:
  assumes inv: "sw_inv a b p ch lk s cond sp w" and c: "c \<in> {a, b}"
    and ok: "acquire l (on_cpu c s) = Ok () s'"
    and held: "insert (c, l) (s_held a lk sp \<union> w_held b lk w) = s_held a lk sp' \<union> w_held b lk w'"
    and data: "procs s' = procs s \<Longrightarrow>
      (\<And>x y k. (x, k) \<in> s_held a lk sp' \<union> w_held b lk w' \<Longrightarrow> (y, k) \<in> s_held a lk sp' \<union> w_held b lk w' \<Longrightarrow> x = y)
      \<Longrightarrow> sw_data p ch s' cond' sp' w'"
  shows "sw_inv a b p ch lk s' cond' sp' w'"
proof -
  have cs: "c < ncpu s" and li: "locks_inv s (s_held a lk sp \<union> w_held b lk w)"
    using inv c by (auto simp: sw_inv_def)
  note li' = locks_inv_acq [OF li cs ok, unfolded held]
  from acquire_frame [OF li cs ok] li' data [OF _ locks_inv_excl [OF li']] inv show ?thesis
    by (simp add: sw_inv_def)
qed

lemma sw_inv_rel:
  assumes inv: "sw_inv a b p ch lk s cond sp w"
    and ok: "release l (on_cpu c s) = Ok () s'"
    and mem: "(c, l) \<in> s_held a lk sp \<union> w_held b lk w"
    and held: "(s_held a lk sp \<union> w_held b lk w) - {(c, l)} = s_held a lk sp' \<union> w_held b lk w'"
    and data: "procs s' = procs s \<Longrightarrow> sw_data p ch s' cond' sp' w'"
  shows "sw_inv a b p ch lk s' cond' sp' w'"
proof -
  have li: "locks_inv s (s_held a lk sp \<union> w_held b lk w)" using inv by (simp add: sw_inv_def)
  note li' = locks_inv_rel [OF li locks_inv_held(1) [OF li mem] ok, unfolded held]
  from release_frame [OF li mem ok] li' data inv show ?thesis by (simp add: sw_inv_def)
qed

lemma sw_inv_procs:
  assumes inv: "sw_inv a b p ch lk s cond sp w"
    and held: "s_held a lk sp = s_held a lk sp'" "w_held b lk w = w_held b lk w'"
    and data: "sw_data p ch ((on_cpu c s)\<lparr>procs := ps\<rparr>) cond' sp' w'"
  shows "sw_inv a b p ch lk ((on_cpu c s)\<lparr>procs := ps\<rparr>) cond' sp' w'"
proof -
  have "locks_inv ((on_cpu c s)\<lparr>procs := ps\<rparr>) (s_held a lk sp \<union> w_held b lk w)"
    by (rule locks_inv_same) (use inv in \<open>simp_all add: sw_inv_def\<close>)
  with inv held data show ?thesis by (simp add: sw_inv_def)
qed

lemmas sw_defs = s_held_def w_held_def sw_data_def s_next_def s_back_def w_next_def

text \<open>\<open>sched\<close>'s checks change nothing when they pass with a lock held.\<close>

lemma sched_checks_frame:
  assumes "cpu_at s c" and "0 < ncli (cpus s c)" and "sched_checks p s = Ok ien s'"
  shows "s' = s"
proof -
  have "\<not> hw_if s (lapicid s)" using assms(1,2) by (simp add: cpu_at_def)
  then show ?thesis
    using assms(3) holding_deep [OF assms(1,2), of PtableLock] mycpu_off [OF assms(1)]
    by (auto simp: sched_checks_def bnd_def getk_def panic_def split: if_splits)
qed

text \<open>The steps of the sleeper inside \<open>sleep\<close>.\<close>

lemma sw_inv_before:
  assumes inv: "sw_inv a b p ch lk s cond (SBefore k) w" and ab: "a \<noteq> b" and lk: "lk \<noteq> PtableLock"
    and ok: "(sleep_before p ch lk ! k) (on_cpu a s) = Ok () s'"
  shows "sw_inv a b p ch lk s' cond (s_next 4 k) w"
proof -
  have d: "sw_data p ch s cond (SBefore k) w" using inv by (simp add: sw_inv_def)
  then have "k < 4" by (simp add: sw_data_def)
  then consider (0) "k = 0" | (1) "k = 1" | (2) "k = 2" | (3) "k = 3" by linarith
  then show ?thesis
  proof cases
    case 0
    then have ok0: "acquire PtableLock (on_cpu a s) = Ok () s'" using ok lk by (simp add: sleep_before_def)
    have nx: "s_next 4 k = SBefore 1" by (simp add: s_next_def 0)
    show ?thesis unfolding nx
    proof (rule sw_inv_acq [OF inv _ ok0])
      assume "procs s' = procs s"
      then show "sw_data p ch s' cond (SBefore 1) w" using d 0 by (auto simp: sw_data_def)
    qed (auto simp: s_held_def 0)
  next
    case 1
    then have "release lk (on_cpu a s) = Ok () s'" using ok lk by (simp add: sleep_before_def)
    then show ?thesis using d 1 ab lk by (intro sw_inv_rel [OF inv]) (auto simp: sw_defs)
  next
    case 2
    then have "s' = (on_cpu a s)\<lparr>procs := (procs s)(p := (procs s p)\<lparr>pchan := Some ch\<rparr>)\<rparr>"
      using ok lk by (simp add: sleep_before_def upd_proc_def numeral_2_eq_2)
    then show ?thesis using d 2 by (auto intro!: sw_inv_procs [OF inv] simp: sw_defs)
  next
    case 3
    then have "s' = (on_cpu a s)\<lparr>procs := (procs s)(p := (procs s p)\<lparr>pstate := SLEEPING\<rparr>)\<rparr>"
      using ok lk by (simp add: sleep_before_def upd_proc_def numeral_3_eq_3)
    then show ?thesis using d 3 by (auto intro!: sw_inv_procs [OF inv] simp: sw_defs)
  qed
qed

lemma sw_inv_after:
  assumes inv: "sw_inv a b p ch lk s cond (SAfter k) w" and ab: "a \<noteq> b" and lk: "lk \<noteq> PtableLock"
    and ok: "(sleep_after p lk ! k) (on_cpu a s) = Ok () s'"
  shows "sw_inv a b p ch lk s' cond (s_back 3 k) w"
proof -
  have d: "sw_data p ch s cond (SAfter k) w" using inv by (simp add: sw_inv_def)
  then have "k < 3" by (simp add: sw_data_def)
  then consider (0) "k = 0" | (1) "k = 1" | (2) "k = 2" by linarith
  then show ?thesis
  proof cases
    case 0
    then have "s' = (on_cpu a s)\<lparr>procs := (procs s)(p := (procs s p)\<lparr>pchan := None\<rparr>)\<rparr>"
      using ok lk by (simp add: sleep_after_def upd_proc_def)
    then show ?thesis using d 0 by (auto intro!: sw_inv_procs [OF inv] simp: sw_defs)
  next
    case 1
    then have "release PtableLock (on_cpu a s) = Ok () s'" using ok lk by (simp add: sleep_after_def)
    then show ?thesis using d 1 ab lk by (intro sw_inv_rel [OF inv]) (auto simp: sw_defs)
  next
    case 2
    then have ok2: "acquire lk (on_cpu a s) = Ok () s'" using ok lk by (simp add: sleep_after_def numeral_2_eq_2)
    have nx: "s_back 3 k = STest" by (simp add: s_back_def 2)
    show ?thesis unfolding nx
    proof (rule sw_inv_acq [OF inv _ ok2])
      assume "procs s' = procs s"
      then show "sw_data p ch s' cond STest w" using d 2 by (auto simp: sw_data_def)
    qed (auto simp: s_held_def 2)
  qed
qed

text \<open>The steps of the waker inside \<open>wakeup\<close>.\<close>

lemma sw_inv_waker:
  assumes inv: "sw_inv a b p ch lk s cond sp (WWake k)" and ab: "a \<noteq> b" and lk: "lk \<noteq> PtableLock"
    and p: "p < NPROC" and ok: "(wakeup_steps ch ! k) (on_cpu b s) = Ok () s'"
  shows "sw_inv a b p ch lk s' cond sp (w_next 3 k)"
proof -
  have d: "sw_data p ch s cond sp (WWake k)" using inv by (simp add: sw_inv_def)
  then have "k < 3" by (simp add: sw_data_def)
  then consider (0) "k = 0" | (1) "k = 1" | (2) "k = 2" by linarith
  then show ?thesis
  proof cases
    case 0
    then have ok0: "acquire PtableLock (on_cpu b s) = Ok () s'" using ok by (simp add: wakeup_steps_def)
    have nx: "w_next 3 k = WWake 1" by (simp add: w_next_def 0)
    show ?thesis unfolding nx
    proof (rule sw_inv_acq [OF inv _ ok0])
      assume "procs s' = procs s" and ex: "\<And>x y k. (x, k) \<in> s_held a lk sp \<union> w_held b lk (WWake 1) \<Longrightarrow>
        (y, k) \<in> s_held a lk sp \<union> w_held b lk (WWake 1) \<Longrightarrow> x = y"
      moreover have "sp \<notin> {SBefore 1, SBefore 2, SBefore 3, SSched, SSwitched}"
        using ex [of a PtableLock b] ab by (auto simp: s_held_def w_held_def)
      moreover have "sp = SBefore j \<Longrightarrow> j = 0 \<or> j = 1 \<or> j = 2 \<or> j = 3" for j
        using d by (auto simp: sw_data_def)
      ultimately show "sw_data p ch s' cond sp (WWake 1)" using d 0 by (auto simp: sw_data_def)
    qed (auto simp: w_held_def 0)
  next
    case 1
    then have s': "s' = (on_cpu b s)\<lparr>procs := woken ch (procs s)\<rparr>"
      using ok by (simp add: wakeup_steps_def wakeup1_spec)
    have "sw_data p ch s' cond sp (WWake 2)"
      using d p 1 by (cases sp) (auto simp: sw_data_def s' woken_def)
    then show ?thesis unfolding s' by (intro sw_inv_procs [OF inv]) (simp_all add: w_held_def w_next_def 1 numeral_2_eq_2)
  next
    case 2
    then have "release PtableLock (on_cpu b s) = Ok () s'"
      using ok by (simp add: wakeup_steps_def numeral_2_eq_2)
    then show ?thesis using d 2 ab lk by (intro sw_inv_rel [OF inv]) (auto simp: sw_defs)
  qed
qed

lemma sw_run_inv:
  assumes "sw_run a b p ch lk s cond sp w" and ab: "a \<noteq> b" and lk: "lk \<noteq> PtableLock"
    and p: "p < NPROC"
  shows "sw_inv a b p ch lk s cond sp w"
  using assms(1)
proof (induction rule: sw_run.induct)
  case (start s)
  then show ?case by (simp add: sw_inv_def sw_defs)
next
  case (s_lock s cond w s')
  have "sw_data p ch s cond SIdle w" using s_lock.IH by (simp add: sw_inv_def)
  with s_lock show ?case by (intro sw_inv_acq [OF s_lock.IH _ s_lock.hyps(2)]) (auto simp: sw_defs)
next
  case (s_go s cond w s')
  have "sw_data p ch s cond STest w" using s_go.IH by (simp add: sw_inv_def)
  then show ?case by (intro sw_inv_rel [OF s_go.IH s_go.hyps(3)]) (use ab lk in \<open>auto simp: sw_defs\<close>)
next
  case (s_call s cond w)
  have d: "sw_data p ch s cond STest w" and li: "locks_inv s (s_held a lk STest \<union> w_held b lk w)"
    using s_call.IH by (simp_all add: sw_inv_def)
  have "(b, lk) \<notin> w_held b lk w"
    using locks_inv_excl [OF li, of a lk b] ab by (auto simp: s_held_def)
  then have "w = WIdle" using d s_call.hyps(2) by (cases w) (auto simp: w_held_def sw_data_def)
  then have "sw_data p ch s cond (SBefore 0) w" using d by (auto simp: sw_data_def)
  moreover have "s_held a lk (SBefore 0) = s_held a lk STest" by (simp add: s_held_def)
  ultimately show ?case using s_call.IH by (simp add: sw_inv_def)
next
  case (s_step s cond k w as s')
  moreover have "length as = 4" using s_step.hyps lk by (simp add: sleep_before_def)
  ultimately show ?case using sw_inv_before [OF s_step.IH ab lk] by simp
next
  case (s_sched s cond w ien s')
  have li: "locks_inv s (s_held a lk SSched \<union> w_held b lk w)" and d: "sw_data p ch s cond SSched w"
    using s_sched.IH by (simp_all add: sw_inv_def)
  have h: "(a, PtableLock) \<in> s_held a lk SSched \<union> w_held b lk w" by (simp add: s_held_def)
  have "cpu_at (on_cpu a s) a" using li locks_inv_held(1) [OF li h] by (simp add: locks_inv_def)
  then have "s' = on_cpu a s"
    using sched_checks_frame [of "on_cpu a s" a p ien s'] locks_inv_held(2) [OF li h] s_sched.hyps(2) by simp
  then have s': "s' = (on_cpu a s)\<lparr>procs := procs s\<rparr>" by simp
  show ?case unfolding s' by (rule sw_inv_procs [OF s_sched.IH]) (use d in \<open>auto simp: sw_defs\<close>)
next
  case (s_out s cond w s')
  have "sw_data p ch s cond SSwitched w" using s_out.IH by (simp add: sw_inv_def)
  then show ?case by (intro sw_inv_rel [OF s_out.IH s_out.hyps(2)]) (use ab lk in \<open>auto simp: sw_defs\<close>)
next
  case (s_pick s cond w t s')
  have d: "sw_data p ch s cond SOut w" using s_pick.IH by (simp add: sw_inv_def)
  have s': "s' = t\<lparr>procs := (procs t)(p := (procs t p)\<lparr>pstate := RUNNING\<rparr>)\<rparr>"
    using s_pick.hyps(4) by (simp add: upd_proc_def)
  have li: "locks_inv s (s_held a lk SOut \<union> w_held b lk w)" "a < ncpu s" "b < ncpu s"
    using s_pick.IH by (simp_all add: sw_inv_def)
  have "locks_inv t (s_held a lk (SAfter 0) \<union> w_held b lk w)"
    using locks_inv_acq [OF li(1,2) s_pick.hyps(2)] by (simp add: s_held_def)
  then have "locks_inv s' (s_held a lk (SAfter 0) \<union> w_held b lk w)"
    by (rule locks_inv_same) (simp_all add: s')
  with acquire_frame [OF li(1,2) s_pick.hyps(2)] li d show ?case
    by (auto simp: sw_inv_def s' sw_data_def)
next
  case (s_after s cond k w as s')
  moreover have "length as = 3" using s_after.hyps lk by (simp add: sleep_after_def)
  ultimately show ?case using sw_inv_after [OF s_after.IH ab lk] by simp
next
  case (w_lock s cond sp s')
  have d: "sw_data p ch s cond sp WIdle" using w_lock.IH by (simp add: sw_inv_def)
  show ?case
  proof (rule sw_inv_acq [OF w_lock.IH _ w_lock.hyps(2)])
    assume "procs s' = procs s" and ex: "\<And>x y k. (x, k) \<in> s_held a lk sp \<union> w_held b lk WLk \<Longrightarrow>
      (y, k) \<in> s_held a lk sp \<union> w_held b lk WLk \<Longrightarrow> x = y"
    moreover have "sp \<notin> {SBefore 0, SBefore 1}"
      using ex [of a lk b] ab by (auto simp: s_held_def w_held_def)
    ultimately show "sw_data p ch s' cond sp WLk" using d by (auto simp: sw_data_def)
  qed (auto simp: w_held_def)
next
  case (w_set s cond sp)
  have "w_held b lk (WWake 0) = w_held b lk WLk" by (simp add: w_held_def)
  moreover have "sw_data p ch s True sp (WWake 0)"
    using w_set.IH by (cases sp) (auto simp: sw_inv_def sw_data_def)
  ultimately show ?case using w_set.IH unfolding sw_inv_def by (simp only:)
next
  case (w_step s cond sp k as s')
  moreover have "length as = 3" using w_step.hyps by (simp add: wakeup_steps_def)
  ultimately show ?case using sw_inv_waker [OF w_step.IH ab lk p] by simp
next
  case (w_unlock s cond sp s')
  have "sw_data p ch s cond sp WRel" using w_unlock.IH by (simp add: sw_inv_def)
  then show ?case by (intro sw_inv_rel [OF w_unlock.IH w_unlock.hyps(2)]) (use ab lk in \<open>auto simp: sw_defs\<close>)
qed

text \<open>C19. No wakeup is lost: however the statements of sleep, run by a process on one processor, and of
  wakeup, run on another after setting the condition, interleave, once the condition holds the
  process is asleep only while it is on the channel and the wakeup has still to scan the process
  table; after the scan a process that has left its processor is runnable.\<close>

theorem no_lost_wakeup:
  assumes "sw_run a b p ch lk s cond sp w" and "a \<noteq> b" and "lk \<noteq> PtableLock" and "p < NPROC"
    and "cond"
  shows "(pstate (procs s p) = SLEEPING \<longrightarrow> w \<in> {WWake 0, WWake 1} \<and> pchan (procs s p) = Some ch)
    \<and> (sp = SOut \<and> w \<in> {WWake 2, WRel, WDone} \<longrightarrow> pstate (procs s p) = RUNNABLE)"
proof -
  have d: "sw_data p ch s cond sp w"
    using sw_run_inv [OF assms(1-4)] by (simp add: sw_inv_def)
  then have w: "w \<notin> {WIdle, WLk}" using assms(5) by (simp add: sw_data_def)
  have "w \<in> {WWake 0, WWake 1} \<and> pchan (procs s p) = Some ch" if "pstate (procs s p) = SLEEPING"
  proof -
    have "sp \<in> {SSched, SSwitched, SOut}" using d that by (auto simp: sw_data_def)
    then show ?thesis using d that w by (elim insertE emptyE) (simp_all add: sw_data_def)
  qed
  moreover have "pstate (procs s p) = RUNNABLE" if "sp = SOut" "w \<in> {WWake 2, WRel, WDone}"
    using d that by (auto simp: sw_data_def)
  ultimately show ?thesis by blast
qed

definition two_procs :: proc_st where
  "two_procs = \<lparr>mem = (\<lambda>_. 0), freelist = 0, use_lock = True, kend = 0, kpgdir = 0, cr3 = 0, sym_data = 0,
     cpus = (\<lambda>i. \<lparr>apicid = i + 5, ts = \<lparr>esp0 = 0, ss0 = 0, iomb = 0\<rparr>, ncli = 0, intena = False, cproc = Some i\<rparr>),
     ncpu = 2, lapicid = 5, hw_if = (\<lambda>_. True),
     locks = (\<lambda>_. \<lparr>locked = False, lcpu = None\<rparr>),
     procs = (\<lambda>i. \<lparr>psz = 4096, pgdir = 0x80500000, kstack = 0x80600000 + 4096 * i, pstate = RUNNING, pid = int i + 1,
        parent = None, tf = 0, pcontext = 0, pchan = None, killed = False, ofile = (\<lambda>_. None), cwd = None, pname = []\<rparr>),
     nextpid = 3, initproc = None, forkret_addr = 0, trapret_addr = 0\<rparr>"

lemma two_procs_at: "c < 2 \<Longrightarrow> cpu_at (on_cpu c two_procs) c"
  by (auto simp: two_procs_def cpu_at_def on_cpu_def upt_rec less_2_cases_iff)

lemma acquire_ok:
  assumes "locks_inv s H" and "c < ncpu s" and "\<not> locked (locks s l)"
  shows "\<exists>s'. acquire l (on_cpu c s) = Ok () s' \<and> locks_inv s' (insert (c, l) H) \<and> procs s' = procs s
    \<and> ncpu s' = ncpu s \<and> locks s' = (locks s)(l := \<lparr>locked = True, lcpu = Some c\<rparr>)"
proof -
  have "cpu_at (on_cpu c s) c" using assms(1,2) by (simp add: locks_inv_def)
  then have a: "acquire l (on_cpu c s) = Ok () (acquired l c (on_cpu c s))"
    using assms(3) by (simp add: acquire_spec)
  then show ?thesis using locks_inv_acq [OF assms(1,2) a] acquire_frame [OF assms(1,2) a]
    by (simp add: acquired_def)
qed

lemma release_ok:
  assumes "locks_inv s H" and "(c, l) \<in> H"
  shows "\<exists>s'. release l (on_cpu c s) = Ok () s' \<and> locks_inv s' (H - {(c, l)}) \<and> procs s' = procs s
    \<and> ncpu s' = ncpu s \<and> locks s' = (locks s)(l := \<lparr>locked = False, lcpu = None\<rparr>)"
proof -
  note held = locks_inv_held [OF assms]
  have "cpu_at (on_cpu c s) c" using assms(1) held(1) by (simp add: locks_inv_def)
  moreover have "locked (locks s l) \<and> lcpu (locks s l) = Some c"
    using assms unfolding locks_inv_def by blast
  ultimately have a: "release l (on_cpu c s) = Ok () (released l c (on_cpu c s))"
    using held(2) by (simp add: release_spec)
  then show ?thesis using locks_inv_rel [OF assms(1) held(1) a] release_frame [OF assms a]
    by (simp add: released_def popped_def)
qed

theorem no_lost_wakeup_witness:
  "\<exists>s. sw_run 0 1 0 LogChan LogLock (s :: proc_st) True SSched (WWake 0)
     \<and> pstate (procs s 0) = SLEEPING \<and> pchan (procs s 0) = Some LogChan"
proof -
  have "locks_inv two_procs {}" using two_procs_at by (auto simp: locks_inv_def) (auto simp: two_procs_def cpu_at_def)
  moreover have n: "ncpu two_procs = 2" "\<And>l. \<not> locked (locks two_procs l)" "pstate (procs two_procs 0) = RUNNING"
    by (simp_all add: two_procs_def)
  ultimately have r0: "sw_run 0 1 0 LogChan LogLock two_procs False SIdle WIdle" and i0: "locks_inv two_procs {}"
    by (auto intro: sw_run.start)
  from acquire_ok [OF i0, of 0 LogLock] n obtain s1 where
    s1: "acquire LogLock (on_cpu 0 two_procs) = Ok () s1" "locks_inv s1 {(0, LogLock)}" "ncpu s1 = 2"
      "locks s1 = (locks two_procs)(LogLock := \<lparr>locked = True, lcpu = Some 0\<rparr>)" by auto
  from acquire_ok [OF s1(2), of 0 PtableLock] n s1 obtain s2 where
    s2: "acquire PtableLock (on_cpu 0 s1) = Ok () s2" "locks_inv s2 {(0, PtableLock), (0, LogLock)}" "ncpu s2 = 2"
      "locks s2 = (locks s1)(PtableLock := \<lparr>locked = True, lcpu = Some 0\<rparr>)" by auto
  from release_ok [OF s2(2), of 0 LogLock] s2 obtain s3 where
    s3: "release LogLock (on_cpu 0 s2) = Ok () s3" "locks_inv s3 {(0, PtableLock)}" "ncpu s3 = 2"
      "locks s3 = (locks s2)(LogLock := \<lparr>locked = False, lcpu = None\<rparr>)"
    by (auto simp: insert_Diff_if)
  define s4 where "s4 = (on_cpu 0 s3)\<lparr>procs := (procs s3)(0 := (procs s3 0)\<lparr>pchan := Some LogChan\<rparr>)\<rparr>"
  define s5 where "s5 = (on_cpu 0 s4)\<lparr>procs := (procs s4)(0 := (procs s4 0)\<lparr>pstate := SLEEPING\<rparr>)\<rparr>"
  have s5: "locks_inv s5 {(0, PtableLock)}" "locks s5 = locks s3" "ncpu s5 = 2"
    by (rule locks_inv_same [OF s3(2)]) (simp_all add: s5_def s4_def s3(3))
  have free: "\<not> locked (locks s5 LogLock)" by (simp add: s5(2) s3(4))
  from acquire_ok [OF s5(1) _ free, of 1] s5(3) obtain s6 where
    s6: "acquire LogLock (on_cpu 1 s5) = Ok () s6" "procs s6 = procs s5" by auto
  have st: "sleep_before 0 LogChan LogLock =
      [acquire PtableLock, release LogLock, upd_proc 0 (\<lambda>q. q\<lparr>pchan := Some LogChan\<rparr>),
       upd_proc 0 (\<lambda>q. q\<lparr>pstate := SLEEPING\<rparr>)]" by (simp add: sleep_before_def)
  note step = sw_run.s_step [OF _ refl, of 0 1 0 LogChan LogLock, unfolded st s_next_def]
  have "sw_run 0 1 0 LogChan LogLock s1 False (SBefore 0) WIdle"
    by (rule sw_run.s_call [OF sw_run.s_lock [OF r0 s1(1)]]) simp
  from step [OF this, of s2] s2(1) have "sw_run 0 1 0 LogChan LogLock s2 False (SBefore 1) WIdle" by simp
  from step [OF this, of s3] s3(1) have "sw_run 0 1 0 LogChan LogLock s3 False (SBefore 2) WIdle"
    by (simp add: numeral_2_eq_2)
  from step [OF this, of s4] have "sw_run 0 1 0 LogChan LogLock s4 False (SBefore 3) WIdle"
    by (simp add: numeral_2_eq_2 numeral_3_eq_3 upd_proc_def s4_def)
  from step [OF this, of s5] have "sw_run 0 1 0 LogChan LogLock s5 False SSched WIdle"
    by (simp add: numeral_3_eq_3 upd_proc_def s5_def)
  then have run: "sw_run 0 1 0 LogChan LogLock s6 True SSched (WWake 0)"
    by (rule sw_run.w_set [OF sw_run.w_lock [OF _ s6(1)]])
  have sl: "pstate (procs s6 0) = SLEEPING" by (simp add: s6(2) s5_def)
  show ?thesis using no_lost_wakeup [OF run] run sl by (auto simp: NPROC_def)
qed

text \<open>
  The state at which \<open>sleep\<close> hands the processor to the scheduler, and what is left to do after.
\<close>

definition resume :: "nat \<Rightarrow> lockid \<Rightarrow> bool \<Rightarrow> ('z proc_st_scheme, unit) kern" where
  "resume p lk ien =
     bnd (bnd mycpu (\<lambda>c'. modk (upd_cpu c' (\<lambda>cp. cp\<lparr>intena := ien\<rparr>)))) (\<lambda>_.
     bnd (upd_proc p (\<lambda>q. q\<lparr>pchan := None\<rparr>)) (\<lambda>_.
     bnd (release PtableLock) (\<lambda>_. acquire lk)))"

lemma sched_switches:
  assumes "cpu_at t c" and "ncli (cpus t c) = 1" and "cproc (cpus t c) = Some p"
    and "locks t PtableLock = \<lparr>locked = True, lcpu = Some c\<rparr>" and "pstate (procs t p) \<noteq> RUNNING"
  shows "sched sw t = bnd sw (\<lambda>_. bnd mycpu (\<lambda>c'. modk (upd_cpu c' (\<lambda>cp. cp\<lparr>intena := intena (cpus t c)\<rparr>)))) t"
proof -
  have off: "\<not> hw_if t (lapicid t)" using assms(1,2) by (simp add: cpu_at_def)
  have deep: "0 < ncli (cpus t c)" using assms(2) by simp
  show ?thesis
    using myproc_deep [OF assms(1) deep] holding_deep [OF assms(1) deep, of PtableLock] mycpu_off [OF assms(1) off] assms off
    by (simp add: sched_def sched_checks_def myproc_nn_def bnd_def readeflags_if_def)
qed

definition asleep :: "nat \<Rightarrow> chan \<Rightarrow> lockid \<Rightarrow> nat \<Rightarrow> 'z proc_st_scheme \<Rightarrow> 'z proc_st_scheme" where
  "asleep p ch lk c s = (released lk c (acquired PtableLock c s))
     \<lparr>procs := (procs s)(p := (procs s p)\<lparr>pchan := Some ch, pstate := SLEEPING\<rparr>)\<rparr>"

lemma asleep_state:
  assumes "cpu_at s c" and "ncli (cpus s c) = 1" and "cproc (cpus s c) = Some p"
    and "locks s lk = \<lparr>locked = True, lcpu = Some c\<rparr>" and "lk \<noteq> PtableLock"
  shows "cpu_at (asleep p ch lk c s) c" and "ncli (cpus (asleep p ch lk c s) c) = 1"
    and "cproc (cpus (asleep p ch lk c s) c) = Some p"
    and "intena (cpus (asleep p ch lk c s) c) = intena (cpus s c)"
    and "locks (asleep p ch lk c s) = (locks s)(PtableLock := \<lparr>locked = True, lcpu = Some c\<rparr>, lk := \<lparr>locked = False, lcpu = None\<rparr>)"
    and "release lk (acquired PtableLock c s) = Ok () (released lk c (acquired PtableLock c s))"
proof -
  let ?u = "acquired PtableLock c s"
  have u: "cpu_at ?u c" "ncli (cpus ?u c) = 2" "locks ?u lk = \<lparr>locked = True, lcpu = Some c\<rparr>"
    using cpu_at_acquired [OF assms(1)] assms by (simp_all add: acquired_def pushed_def)
  have at: "cpu_at (released lk c ?u) c"
    unfolding released_def by (rule popcli_spec(2)) (use u in simp_all)
  then show "cpu_at (asleep p ch lk c s) c" "ncli (cpus (asleep p ch lk c s) c) = 1"
    "cproc (cpus (asleep p ch lk c s) c) = Some p"
    "intena (cpus (asleep p ch lk c s) c) = intena (cpus s c)"
    "locks (asleep p ch lk c s) = (locks s)(PtableLock := \<lparr>locked = True, lcpu = Some c\<rparr>, lk := \<lparr>locked = False, lcpu = None\<rparr>)"
    using u(2) assms by (simp_all add: asleep_def cpu_at_def released_def popped_def acquired_def pushed_def)
  show "release lk ?u = Ok () (released lk c ?u)" using release_spec [OF u(1), of lk] u(2,3) by simp
qed

lemma sleep_eq:
  assumes "cpu_at s c" and "ncli (cpus s c) = 1" and "cproc (cpus s c) = Some p"
    and "locks s lk = \<lparr>locked = True, lcpu = Some c\<rparr>" and "lk \<noteq> PtableLock"
    and "\<not> locked (locks s PtableLock)"
  shows "sleep sw ch (Some lk) s = bnd sw (\<lambda>_. resume p lk (intena (cpus s c))) (asleep p ch lk c s)"
proof -
  define t where "t = asleep p ch lk c s"
  note t = asleep_state(1-5) [OF assms(1-5), of ch, folded t_def] asleep_state(6) [OF assms(1-5)]
  have deep: "0 < ncli (cpus s c)" using assms(2) by simp
  have "pstate (procs t p) = SLEEPING" by (simp add: t_def asleep_def)
  then have "sched sw t = bnd sw (\<lambda>_. bnd mycpu (\<lambda>c'. modk (upd_cpu c' (\<lambda>cp. cp\<lparr>intena := intena (cpus s c)\<rparr>)))) t"
    using sched_switches [OF t(1-3), of sw] t(4,5) assms(5) by simp
  then have "bnd (sched sw) f t = bnd sw (\<lambda>_. bnd (bnd mycpu (\<lambda>c'. modk (upd_cpu c' (\<lambda>cp. cp\<lparr>intena := intena (cpus s c)\<rparr>)))) f) t" for f :: "unit \<Rightarrow> ('a proc_st_scheme, unit) kern"
    by (simp add: bnd_def split: res.splits)
  then show ?thesis
    using myproc_deep [OF assms(1) deep] acquire_spec [OF assms(1), of PtableLock] assms(3,5,6) t(6)
    by (simp add: sleep_def sleep_before_def sleep_after_def for_each_Cons bnd_last bnd_assoc upd_proc_def
        resume_def t_def [symmetric]) (simp add: t_def asleep_def upd_proc_def)
qed

text \<open>C7. sleep called with only the lock lk held reaches the context switch with every check of sched
  satisfied: the process is then asleep on the channel, ptable.lock is held by this processor as
  its only lock and lk is free; after the switch it clears the channel and takes lk again.
  Without a process or a lock it panics.\<close>

theorem sleep_switches:
  assumes "cpu_at s c" and "ncli (cpus s c) = 1" and "cproc (cpus s c) = Some p"
    and "locks s lk = \<lparr>locked = True, lcpu = Some c\<rparr>" and "lk \<noteq> PtableLock"
    and "\<not> locked (locks s PtableLock)"
  shows "(\<exists>t. sleep sw ch (Some lk) s = bnd sw (\<lambda>_. resume p lk (intena (cpus s c))) t
     \<and> procs t = (procs s)(p := (procs s p)\<lparr>pchan := Some ch, pstate := SLEEPING\<rparr>)
     \<and> locks t = (locks s)(PtableLock := \<lparr>locked = True, lcpu = Some c\<rparr>, lk := \<lparr>locked = False, lcpu = None\<rparr>)
     \<and> cpu_at t c \<and> ncli (cpus t c) = 1)
   \<and> sleep sw ch None s = Panic ''sleep without lk''"
proof -
  have deep: "0 < ncli (cpus s c)" using assms(2) by simp
  have "procs (asleep p ch lk c s) = (procs s)(p := (procs s p)\<lparr>pchan := Some ch, pstate := SLEEPING\<rparr>)"
    by (simp add: asleep_def)
  moreover have "sleep sw ch None s = Panic ''sleep without lk''"
    using myproc_deep [OF assms(1) deep] assms(3) by (simp add: sleep_def)
  ultimately show ?thesis using sleep_eq [OF assms, of sw ch] asleep_state(1-5) [OF assms(1-5), of ch] by blast
qed

theorem sleep_switches_witness:
  "sleep (\<lambda>t. if pstate (procs t 1) = SLEEPING \<and> \<not> locked (locks t TicksLock) then Panic ''asleep'' else Panic ''awake'')
     TicksChan (Some TicksLock) (acquired TicksLock 1 (on_cpu 1 two_procs)) = Panic ''asleep''"
proof -
  let ?s = "acquired TicksLock 1 (on_cpu 1 two_procs)"
  let ?sw = "\<lambda>t :: proc_st. if pstate (procs t 1) = SLEEPING \<and> \<not> locked (locks t TicksLock) then Panic ''asleep'' else Panic ''awake''"
  have "cpu_at ?s 1" by (rule cpu_at_acquired) (simp add: two_procs_at)
  moreover have "ncli (cpus ?s 1) = 1" "cproc (cpus ?s 1) = Some 1" "\<not> locked (locks ?s PtableLock)"
    "locks ?s TicksLock = \<lparr>locked = True, lcpu = Some 1\<rparr>"
    by (simp_all add: acquired_def pushed_def two_procs_def)
  ultimately obtain t where "sleep ?sw TicksChan (Some TicksLock) ?s = bnd ?sw (\<lambda>_. resume 1 TicksLock (intena (cpus ?s 1))) t"
    and "procs t = (procs ?s)(1 := (procs ?s 1)\<lparr>pchan := Some TicksChan, pstate := SLEEPING\<rparr>)"
    and "locks t = (locks ?s)(PtableLock := \<lparr>locked = True, lcpu = Some 1\<rparr>, TicksLock := \<lparr>locked = False, lcpu = None\<rparr>)"
    using sleep_switches [of ?s 1 1 TicksLock ?sw TicksChan] by auto
  then show ?thesis by (simp add: bnd_def)
qed

end
