(* ===== verification/Sleeplock.thy ===== *)
theory Sleeplock
  imports Proc
begin

text \<open>
  Sleep locks, \<open>src/lab10xv6/xv6/sleeplock.c\<close>.

  From here on a region protected by a spin lock (the lock's guard, \<open>ptable.lock\<close> inside
  \<open>wakeup\<close>) is one step, which the exclusion proved in Spinlock justifies.  The file-system
  layers above are modelled as one kernel thread at a time runs them: where the code would sleep
  on a lock somebody else holds, the outcome is \<open>Block\<close>.
\<close>

record sleeplock =
  slocked :: bool
  spid :: int

record sl_st = proc_st +
  slocks :: "slid \<Rightarrow> sleeplock"

text \<open>What \<open>myproc()\<close> returns (\<open>this_proc_myproc\<close>).\<close>

definition this_proc :: "'z lock_st_scheme \<Rightarrow> nat option" where
  "this_proc s = (case find_cpu (cpus s) (lapicid s) [0..<ncpu s] of
     Some c \<Rightarrow> cproc (cpus s c) | None \<Rightarrow> None)"

definition my_pid :: "('z proc_st_scheme, int) kern" where
  "my_pid = bnd (getk this_proc) (\<lambda>p. case p of
     None \<Rightarrow> panic ''fault: no process''
   | Some i \<Rightarrow> getk (\<lambda>s. pid (procs s i)))"

definition upd_sl :: "slid \<Rightarrow> sleeplock \<Rightarrow> ('z sl_st_scheme, unit) kern" where
  "upd_sl l v = modk (\<lambda>s. s\<lparr>slocks := (slocks s)(l := v)\<rparr>)"

definition initsleeplock :: "slid \<Rightarrow> ('z sl_st_scheme, unit) kern" where
  "initsleeplock l = bnd (initlock (SleepGuard l)) (\<lambda>_. upd_sl l \<lparr>slocked = False, spid = 0\<rparr>)"

definition acquiresleep :: "slid \<Rightarrow> ('z sl_st_scheme, unit) kern" where
  "acquiresleep l =
     bnd (getk (\<lambda>s. slocked (slocks s l))) (\<lambda>busy.
     if busy then (\<lambda>_. Block ''sleep lock'')
     else bnd my_pid (\<lambda>n. upd_sl l \<lparr>slocked = True, spid = n\<rparr>))"

definition releasesleep :: "slid \<Rightarrow> ('z sl_st_scheme, unit) kern" where
  "releasesleep l =
     bnd (upd_sl l \<lparr>slocked = False, spid = 0\<rparr>) (\<lambda>_.
     wakeup1 (SleeplockChan l))"

definition holdingsleep :: "slid \<Rightarrow> ('z sl_st_scheme, bool) kern" where
  "holdingsleep l =
     bnd (getk (\<lambda>s. slocks s l)) (\<lambda>lk.
     if \<not> slocked lk then ret False
     else bnd my_pid (\<lambda>n. ret (spid lk = n)))"

section \<open>Specifications\<close>

text \<open>Some process is running; its pid.\<close>

definition running :: "'z proc_st_scheme \<Rightarrow> bool" where
  "running s \<longleftrightarrow> this_proc s \<noteq> None"

definition curpid :: "'z proc_st_scheme \<Rightarrow> int" where
  "curpid s = pid (procs s (the (this_proc s)))"

lemma this_proc_myproc:
  "cpu_at s c \<Longrightarrow> myproc s = Ok (this_proc s) (popped c (pushed c s))"
  by (simp add: myproc_spec(1) this_proc_def cpu_at_def)

lemma my_pid_ok [simp]: "running s \<Longrightarrow> my_pid s = Ok (curpid s) s"
  by (auto simp: my_pid_def running_def curpid_def bnd_def)

lemma woken_pid [simp]: "pid (woken ch ps i) = pid (ps i)"
  by (simp add: woken_def)

lemma this_proc_procs [simp]:
  "this_proc (s\<lparr>procs := ps\<rparr>) = this_proc s" "this_proc (s\<lparr>slocks := sl\<rparr>) = this_proc s"
  by (simp_all add: this_proc_def split: option.split)

lemma running_simps [simp]:
  "running (s\<lparr>procs := ps\<rparr>) = running s" "running (s\<lparr>slocks := sl\<rparr>) = running s"
  "curpid (s\<lparr>slocks := sl\<rparr>) = curpid s" "curpid (s\<lparr>procs := woken ch (procs s)\<rparr>) = curpid s"
  by (simp_all add: running_def curpid_def)

lemma acquiresleep_spec:
  "running s \<Longrightarrow> acquiresleep l s =
     (if slocked (slocks s l) then Block ''sleep lock''
      else Ok () (s\<lparr>slocks := (slocks s)(l := \<lparr>slocked = True, spid = curpid s\<rparr>)\<rparr>))"
  by (simp add: acquiresleep_def upd_sl_def bnd_def)

lemma releasesleep_spec:
  "releasesleep l s = Ok () (s\<lparr>slocks := (slocks s)(l := \<lparr>slocked = False, spid = 0\<rparr>),
     procs := woken (SleeplockChan l) (procs s)\<rparr>)"
  by (simp add: releasesleep_def upd_sl_def wakeup1_spec)

lemma holdingsleep_spec:
  "running s \<Longrightarrow> holdingsleep l s = Ok (slocked (slocks s l) \<and> spid (slocks s l) = curpid s) s"
  by (simp add: holdingsleep_def bnd_def)

end
