(* ===== verification/Bio.thy ===== *)
theory Bio
  imports Sleeplock
begin

text \<open>
  The buffer cache, \<open>src/lab10xv6/xv6/bio.c\<close>, over the in-memory disk driver \<open>memide.c\<close>.

  A \<open>struct buf *\<close> is the index of the buffer in \<open>bcache.buf\<close>; \<open>HEAD\<close> is \<open>&bcache.head\<close>.  The
  \<open>prev\<close> and \<open>next\<close> links are kept as the code keeps them, and \<open>lru_list\<close> abstracts them to the list
  of buffers in most-recently-used order.  The two bits of \<open>flags\<close> are \<open>b_valid\<close> and \<open>b_dirty\<close>.
  The scans of \<open>bget\<close> follow the links with fuel \<open>NBUF + 1\<close>; under the invariant the ring has
  \<open>NBUF\<close> buffers and the fuel is never exhausted.

  \<open>writes\<close> is a ghost: the sequence of disk writes so far, used to say what a crash leaves behind.
  \<open>view s k\<close> is the abstraction: the content of block \<open>k\<close> as file-system code sees it, the
  valid cached copy if there is one and the disk otherwise.
\<close>

section \<open>State\<close>

definition NBUF :: nat where "NBUF = 30"
definition BSIZE :: nat where "BSIZE = 512"
definition FSSIZE :: nat where "FSSIZE = 1000"
definition HEAD :: nat where "HEAD = NBUF"
definition ROOTDEV :: nat where "ROOTDEV = 1"

record buf =
  b_valid :: bool
  b_dirty :: bool
  dev :: nat
  blockno :: nat
  refcnt :: nat
  b_prev :: nat
  b_next :: nat
  qnext :: "nat option"
  data :: "byte list"

record bio_st = sl_st +
  bufs :: "nat \<Rightarrow> buf"
  memdisk :: "nat \<Rightarrow> byte list"
  disksize :: nat
  writes :: "(nat \<times> byte list) list"

definition upd_buf :: "nat \<Rightarrow> (buf \<Rightarrow> buf) \<Rightarrow> ('z bio_st_scheme, unit) kern" where
  "upd_buf b f = modk (\<lambda>s. s\<lparr>bufs := (bufs s)(b := f (bufs s b))\<rparr>)"

definition buf_at :: "nat \<Rightarrow> ('z bio_st_scheme, buf) kern" where
  "buf_at b = getk (\<lambda>s. bufs s b)"

section \<open>The memory disk (memide.c)\<close>

definition ideinit :: "(nat \<Rightarrow> byte list) \<Rightarrow> nat \<Rightarrow> ('z bio_st_scheme, unit) kern" where
  "ideinit img bytes = modk (\<lambda>s. s\<lparr>memdisk := img, disksize := bytes div BSIZE\<rparr>)"

definition iderw :: "nat \<Rightarrow> ('z bio_st_scheme, unit) kern" where
  "iderw b =
     bnd (holdingsleep (BufSleep b)) (\<lambda>h.
     if \<not> h then panic ''iderw: buf not locked''
     else bnd (buf_at b) (\<lambda>bf.
          if b_valid bf \<and> \<not> b_dirty bf then panic ''iderw: nothing to do''
          else if dev bf \<noteq> 1 then panic ''iderw: request not for disk 1''
          else bnd (getk disksize) (\<lambda>n.
               if blockno bf \<ge> n then panic ''iderw: block out of range''
               else bnd (if b_dirty bf
                         then bnd (upd_buf b (\<lambda>x. x\<lparr>b_dirty := False\<rparr>)) (\<lambda>_.
                              modk (\<lambda>s. s\<lparr>memdisk := (memdisk s)(blockno bf := data bf),
                                         writes := writes s @ [(blockno bf, data bf)]\<rparr>))
                         else bnd (getk memdisk) (\<lambda>d. upd_buf b (\<lambda>x. x\<lparr>data := d (blockno bf)\<rparr>))) (\<lambda>_.
                    upd_buf b (\<lambda>x. x\<lparr>b_valid := True\<rparr>)))))"

section \<open>The cache\<close>

definition binit_one :: "nat \<Rightarrow> ('z bio_st_scheme, unit) kern" where
  "binit_one b =
     bnd (buf_at HEAD) (\<lambda>hd.
     bnd (upd_buf b (\<lambda>x. x\<lparr>b_next := b_next hd\<rparr>)) (\<lambda>_.
     bnd (upd_buf b (\<lambda>x. x\<lparr>b_prev := HEAD\<rparr>)) (\<lambda>_.
     bnd (initsleeplock (BufSleep b)) (\<lambda>_.
     bnd (upd_buf (b_next hd) (\<lambda>x. x\<lparr>b_prev := b\<rparr>)) (\<lambda>_.
     upd_buf HEAD (\<lambda>x. x\<lparr>b_next := b\<rparr>))))))"

definition binit :: "('z bio_st_scheme, unit) kern" where
  "binit =
     bnd (initlock BcacheLock) (\<lambda>_.
     bnd (upd_buf HEAD (\<lambda>x. x\<lparr>b_prev := HEAD\<rparr>)) (\<lambda>_.
     bnd (upd_buf HEAD (\<lambda>x. x\<lparr>b_next := HEAD\<rparr>)) (\<lambda>_.
     for_each binit_one [0..<NBUF])))"

fun scan :: "nat \<Rightarrow> (buf \<Rightarrow> nat) \<Rightarrow> (buf \<Rightarrow> bool) \<Rightarrow> nat \<Rightarrow> ('z bio_st_scheme, nat option) kern" where
  "scan 0 link P b s = Block ''bcache list''"
| "scan (Suc fuel) link P b s =
     (if b = HEAD then Ok None s
      else if P (bufs s b) then Ok (Some b) s
      else scan fuel link P (link (bufs s b)) s)"

definition bget :: "nat \<Rightarrow> nat \<Rightarrow> ('z bio_st_scheme, nat) kern" where
  "bget d n =
     bnd (buf_at HEAD) (\<lambda>hd.
     bnd (scan (NBUF + 1) b_next (\<lambda>x. dev x = d \<and> blockno x = n) (b_next hd)) (\<lambda>r.
     case r of
       Some b \<Rightarrow>
         bnd (upd_buf b (\<lambda>x. x\<lparr>refcnt := uinc (refcnt x)\<rparr>)) (\<lambda>_.
         bnd (acquiresleep (BufSleep b)) (\<lambda>_. ret b))
     | None \<Rightarrow>
         bnd (scan (NBUF + 1) b_prev (\<lambda>x. refcnt x = 0 \<and> \<not> b_dirty x) (b_prev hd)) (\<lambda>r.
         case r of
           Some b \<Rightarrow>
             bnd (upd_buf b (\<lambda>x. x\<lparr>dev := d, blockno := n, b_valid := False, b_dirty := False,
                    refcnt := 1\<rparr>)) (\<lambda>_.
             bnd (acquiresleep (BufSleep b)) (\<lambda>_. ret b))
         | None \<Rightarrow> panic ''bget: no buffers'')))"

definition bread :: "nat \<Rightarrow> nat \<Rightarrow> ('z bio_st_scheme, nat) kern" where
  "bread d n =
     bnd (bget d n) (\<lambda>b.
     bnd (buf_at b) (\<lambda>bf.
     bnd (if \<not> b_valid bf then iderw b else ret ()) (\<lambda>_. ret b)))"

definition bwrite :: "nat \<Rightarrow> ('z bio_st_scheme, unit) kern" where
  "bwrite b =
     bnd (holdingsleep (BufSleep b)) (\<lambda>h.
     if \<not> h then panic ''bwrite''
     else bnd (upd_buf b (\<lambda>x. x\<lparr>b_dirty := True\<rparr>)) (\<lambda>_. iderw b))"

definition brelse :: "nat \<Rightarrow> ('z bio_st_scheme, unit) kern" where
  "brelse b =
     bnd (holdingsleep (BufSleep b)) (\<lambda>h.
     if \<not> h then panic ''brelse''
     else bnd (releasesleep (BufSleep b)) (\<lambda>_.
          bnd (upd_buf b (\<lambda>x. x\<lparr>refcnt := udec (refcnt x)\<rparr>)) (\<lambda>_.
          bnd (buf_at b) (\<lambda>bf.
          if refcnt bf = 0
          then bnd (upd_buf (b_next bf) (\<lambda>x. x\<lparr>b_prev := b_prev bf\<rparr>)) (\<lambda>_.
               bnd (upd_buf (b_prev bf) (\<lambda>x. x\<lparr>b_next := b_next bf\<rparr>)) (\<lambda>_.
               bnd (buf_at HEAD) (\<lambda>hd.
               bnd (upd_buf b (\<lambda>x. x\<lparr>b_next := b_next hd\<rparr>)) (\<lambda>_.
               bnd (upd_buf b (\<lambda>x. x\<lparr>b_prev := HEAD\<rparr>)) (\<lambda>_.
               bnd (upd_buf (b_next hd) (\<lambda>x. x\<lparr>b_prev := b\<rparr>)) (\<lambda>_.
               upd_buf HEAD (\<lambda>x. x\<lparr>b_next := b\<rparr>)))))))
          else ret ()))))"

text \<open>Writing \<open>b->data\<close>: what callers do between \<open>bread\<close> and \<open>bwrite\<close> or \<open>log_write\<close>.\<close>

definition bset :: "nat \<Rightarrow> (byte list \<Rightarrow> byte list) \<Rightarrow> ('z bio_st_scheme, unit) kern" where
  "bset b f = upd_buf b (\<lambda>x. x\<lparr>data := f (data x)\<rparr>)"

section \<open>The most-recently-used list\<close>

fun chain :: "(nat \<Rightarrow> nat) \<Rightarrow> nat \<Rightarrow> nat list \<Rightarrow> nat \<Rightarrow> bool" where
  "chain f a [] z \<longleftrightarrow> f a = z"
| "chain f a (x # xs) z \<longleftrightarrow> f a = x \<and> chain f x xs z"

lemma chain_append: "chain f a (xs @ y # ys) z \<longleftrightarrow> chain f a xs y \<and> chain f y ys z"
  by (induction xs arbitrary: a) auto

lemma chain_other: "i \<notin> set (a # xs) \<Longrightarrow> chain (f(i := v)) a xs z = chain f a xs z"
  by (induction xs arbitrary: a) auto

lemma chain_cong: "(\<And>i. i \<in> set (a # xs) \<Longrightarrow> f i = g i) \<Longrightarrow> chain f a xs z = chain g a xs z"
  by (induction xs arbitrary: a) auto

text \<open>The last link of a chain, moved to another target.\<close>

lemma chain_retarget:
  assumes "chain f a xs z" and "distinct (a # xs)"
  shows "chain (f(last (a # xs) := z')) a xs z'"
  using assms
proof (induction xs arbitrary: a)
  case (Cons x xs)
  have "a \<noteq> last (x # xs)" using Cons.prems(2) last_in_set [of "x # xs"] by force
  with Cons show ?case by simp
qed simp

definition lru_list :: "(nat \<Rightarrow> buf) \<Rightarrow> nat list \<Rightarrow> bool" where
  "lru_list bs xs \<longleftrightarrow> distinct xs \<and> set xs = {0..<NBUF}
     \<and> chain (\<lambda>i. b_next (bs i)) HEAD xs HEAD \<and> chain (\<lambda>i. b_prev (bs i)) HEAD (rev xs) HEAD"

lemma head_notin [simp]: "\<not> HEAD < NBUF" "i < NBUF \<Longrightarrow> i \<noteq> HEAD"
  by (simp_all add: HEAD_def)

text \<open>Unlinking \<open>b\<close> from a ring, seen in one direction.\<close>

lemma chain_unlink:
  assumes ch: "chain f h (xs @ b # ys) h" and d: "distinct (h # xs @ b # ys)"
  shows "chain (f(last (h # xs) := f b)) h (xs @ ys) h" and "f (last (h # xs)) = b"
proof -
  from ch have 1: "chain f h xs b" and 2: "chain f b ys h" by (simp_all add: chain_append)
  have l: "last (h # xs) \<in> set (h # xs)" by (rule last_in_set) simp
  show "f (last (h # xs)) = b"
  proof (cases xs rule: rev_cases)
    case (snoc zs z)
    with 1 show ?thesis by (simp add: chain_append)
  qed (use 1 in simp)
  have r: "chain (f(last (h # xs) := f b)) h xs (f b)"
    by (rule chain_retarget [OF 1]) (use d in auto)
  show "chain (f(last (h # xs) := f b)) h (xs @ ys) h"
  proof (cases ys)
    case Nil
    with 2 r show ?thesis by simp
  next
    case (Cons y zs)
    with 2 have "f b = y" "chain f y zs h" by simp_all
    moreover have "last (h # xs) \<notin> set (y # zs)" using l d Cons by auto
    then have "chain (f(last (h # xs) := f b)) y zs h = chain f y zs h" by (intro chain_other)
    ultimately show ?thesis using r Cons by (simp add: chain_append)
  qed
qed

lemma chain_push:
  assumes "chain f h xs h" and "distinct (h # xs)" and "b \<notin> set (h # xs)"
  shows "chain (f(b := f h, h := b)) h (b # xs) h"
proof (cases xs)
  case (Cons x ys)
  with assms have "chain f x ys h" "f h = x" by simp_all
  moreover have "chain (f(b := f h, h := b)) x ys h = chain f x ys h"
    by (rule chain_cong) (use assms Cons in auto)
  ultimately show ?thesis using Cons assms by auto
qed (use assms in auto)

lemma chain_push_back:
  assumes "chain f h (rev xs) h" and "distinct (h # xs)" and "b \<notin> set (h # xs)"
    and n: "n = (case xs of [] \<Rightarrow> h | x # _ \<Rightarrow> x)"
  shows "chain (f(b := h, n := b)) h (rev xs @ [b]) h"
proof -
  have l: "last (h # rev xs) = n" using n by (cases xs) simp_all
  have "chain (f(last (h # rev xs) := b)) h (rev xs) b"
    by (rule chain_retarget [OF assms(1)]) (use assms in simp)
  then have c: "chain (f(n := b)) h (rev xs) b" by (simp only: l)
  have nb: "n \<noteq> b" using n assms(3) by (cases xs) auto
  have "chain (f(b := h, n := b)) h (rev xs) b = chain (f(n := b)) h (rev xs) b"
    by (rule chain_cong) (use assms(3) in auto)
  with c nb show ?thesis by (simp add: chain_append)
qed

text \<open>The pointer assignments of \<open>brelse\<close> and \<open>binit\<close> as functions of the buffer table.\<close>

definition unlink_buf :: "nat \<Rightarrow> (nat \<Rightarrow> buf) \<Rightarrow> nat \<Rightarrow> buf" where
  "unlink_buf b bs =
     (let n = b_next (bs b); p = b_prev (bs b);
          bs = bs(n := (bs n)\<lparr>b_prev := p\<rparr>)
      in bs(p := (bs p)\<lparr>b_next := n\<rparr>))"

definition push_buf :: "nat \<Rightarrow> (nat \<Rightarrow> buf) \<Rightarrow> nat \<Rightarrow> buf" where
  "push_buf b bs =
     (let n = b_next (bs HEAD);
          bs = bs(b := (bs b)\<lparr>b_next := n\<rparr>);
          bs = bs(b := (bs b)\<lparr>b_prev := HEAD\<rparr>);
          bs = bs(n := (bs n)\<lparr>b_prev := b\<rparr>)
      in bs(HEAD := (bs HEAD)\<lparr>b_next := b\<rparr>))"

lemma unlink_links:
  "(\<lambda>i. b_next (unlink_buf b bs i)) = (\<lambda>i. b_next (bs i))(b_prev (bs b) := b_next (bs b))"
  "(\<lambda>i. b_prev (unlink_buf b bs i)) = (\<lambda>i. b_prev (bs i))(b_next (bs b) := b_prev (bs b))"
  by (auto simp: unlink_buf_def Let_def fun_eq_iff)

lemma push_links:
  "b \<noteq> HEAD \<Longrightarrow> (\<lambda>i. b_next (push_buf b bs i)) = (\<lambda>i. b_next (bs i))(b := b_next (bs HEAD), HEAD := b)"
  "b \<noteq> HEAD \<Longrightarrow> b_next (bs HEAD) \<noteq> b \<Longrightarrow>
   (\<lambda>i. b_prev (push_buf b bs i)) = (\<lambda>i. b_prev (bs i))(b := HEAD, b_next (bs HEAD) := b)"
  by (auto simp: push_buf_def Let_def fun_eq_iff)

text \<open>A buffer without its links.\<close>

definition unlinked :: "buf \<Rightarrow> buf" where
  "unlinked x = x\<lparr>b_prev := 0, b_next := 0\<rparr>"

lemma unlinked_links [simp]:
  "unlinked (x\<lparr>b_prev := p\<rparr>) = unlinked x" "unlinked (x\<lparr>b_next := n\<rparr>) = unlinked x"
  by (simp_all add: unlinked_def)

lemma unlinked_ring [simp]:
  "unlinked (unlink_buf b bs i) = unlinked (bs i)" "unlinked (push_buf b bs i) = unlinked (bs i)"
  by (simp_all add: unlink_buf_def push_buf_def Let_def)

lemma unlinkedD:
  assumes "unlinked x = unlinked y"
  shows "b_valid x = b_valid y" "b_dirty x = b_dirty y" "dev x = dev y" "blockno x = blockno y"
    "refcnt x = refcnt y" "data x = data y"
  using assms by (cases x; cases y; simp add: unlinked_def)+

lemma lru_cong:
  assumes "\<And>i. b_next (bs' i) = b_next (bs i)" and "\<And>i. b_prev (bs' i) = b_prev (bs i)"
  shows "lru_list bs' xs = lru_list bs xs"
  by (simp add: lru_list_def assms)

lemma lru_push:
  assumes "chain (\<lambda>i. b_next (bs i)) HEAD xs HEAD" and "chain (\<lambda>i. b_prev (bs i)) HEAD (rev xs) HEAD"
    and "distinct (HEAD # xs)" and "b \<notin> set (HEAD # xs)"
  shows "chain (\<lambda>i. b_next (push_buf b bs i)) HEAD (b # xs) HEAD"
    and "chain (\<lambda>i. b_prev (push_buf b bs i)) HEAD (rev (b # xs)) HEAD"
proof -
  have n: "b_next (bs HEAD) = (case xs of [] \<Rightarrow> HEAD | x # _ \<Rightarrow> x)" using assms(1) by (cases xs) auto
  have nb: "b_next (bs HEAD) \<noteq> b" using n assms(4) by (cases xs) auto
  have h: "b \<noteq> HEAD" using assms(4) by auto
  show "chain (\<lambda>i. b_next (push_buf b bs i)) HEAD (b # xs) HEAD"
    unfolding push_links(1) [OF h] by (rule chain_push [OF assms(1,3,4)])
  show "chain (\<lambda>i. b_prev (push_buf b bs i)) HEAD (rev (b # xs)) HEAD"
    using chain_push_back [OF assms(2-4) n] unfolding push_links(2) [of b bs, OF h nb] by simp
qed

lemma lru_move_front:
  assumes l: "lru_list bs (xs @ b # ys)"
  shows "lru_list (push_buf b (unlink_buf b bs)) (b # xs @ ys)"
proof -
  have d: "distinct (HEAD # xs @ b # ys)" using l by (auto simp: lru_list_def)
  have f: "chain (\<lambda>i. b_next (bs i)) HEAD (xs @ b # ys) HEAD"
    and g: "chain (\<lambda>i. b_prev (bs i)) HEAD (rev ys @ b # rev xs) HEAD"
    using l by (simp_all add: lru_list_def)
  have dr: "distinct (HEAD # rev ys @ b # rev xs)" using d by auto
  have p: "b_prev (bs b) = last (HEAD # xs)"
    using g by (cases xs rule: rev_cases) (simp_all add: chain_append)
  have n: "b_next (bs b) = last (HEAD # rev ys)"
    using f by (cases ys) (simp_all add: chain_append)
  have f': "chain (\<lambda>i. b_next (unlink_buf b bs i)) HEAD (xs @ ys) HEAD"
    using chain_unlink(1) [OF f d] unfolding unlink_links p .
  have g': "chain (\<lambda>i. b_prev (unlink_buf b bs i)) HEAD (rev (xs @ ys)) HEAD"
    using chain_unlink(1) [OF g dr] unfolding unlink_links n [symmetric] by simp
  have "distinct (HEAD # xs @ ys)" "b \<notin> set (HEAD # xs @ ys)" using d by auto
  from lru_push [OF f' g' this] show ?thesis using l by (auto simp: lru_list_def)
qed

text \<open>The scans of \<open>bget\<close> are searches through the list.\<close>

lemma scan_chain:
  assumes "chain (\<lambda>i. link (bufs s i)) a xs HEAD" and "HEAD \<notin> set xs" and "length xs < fuel"
  shows "scan fuel link P (link (bufs s a)) s = Ok (find (\<lambda>i. P (bufs s i)) xs) s"
  using assms
proof (induction xs arbitrary: a fuel)
  case Nil
  then show ?case by (cases fuel) auto
next
  case (Cons x xs)
  then obtain k where "fuel = Suc k" by (cases fuel) auto
  with Cons show ?case by auto
qed

lemma lru_length: "lru_list bs xs \<Longrightarrow> length xs = NBUF"
  by (metis card_atLeastLessThan diff_zero distinct_card lru_list_def)

lemma scan_lru:
  assumes "lru_list (bufs s) xs"
  shows "scan (NBUF + 1) b_next P (b_next (bufs s HEAD)) s = Ok (find (\<lambda>i. P (bufs s i)) xs) s"
    and "scan (NBUF + 1) b_prev P (b_prev (bufs s HEAD)) s = Ok (find (\<lambda>i. P (bufs s i)) (rev xs)) s"
proof -
  have h: "HEAD \<notin> set xs" using assms by (auto simp: lru_list_def)
  show "scan (NBUF + 1) b_next P (b_next (bufs s HEAD)) s = Ok (find (\<lambda>i. P (bufs s i)) xs) s"
    using assms h lru_length [OF assms] by (intro scan_chain) (auto simp: lru_list_def)
  show "scan (NBUF + 1) b_prev P (b_prev (bufs s HEAD)) s = Ok (find (\<lambda>i. P (bufs s i)) (rev xs)) s"
    using assms h lru_length [OF assms] by (intro scan_chain) (auto simp: lru_list_def)
qed

section \<open>Invariant and abstraction\<close>

definition heldb :: "'z bio_st_scheme \<Rightarrow> nat set" where
  "heldb s = {i. i < NBUF \<and> slocked (slocks s (BufSleep i))}"

text \<open>
  One buffer: it is locked exactly while somebody has a reference to it; what is valid is a block
  of the disk; a released clean buffer agrees with the disk.
\<close>

definition buf_ok :: "int \<Rightarrow> nat \<Rightarrow> (nat \<Rightarrow> byte list) \<Rightarrow> buf \<Rightarrow> sleeplock \<Rightarrow> bool" where
  "buf_ok me n disk bf sl \<longleftrightarrow>
     (slocked sl \<longrightarrow> refcnt bf = 1 \<and> spid sl = me \<and> b_valid bf)
   \<and> (\<not> slocked sl \<longrightarrow> refcnt bf = 0)
   \<and> (b_valid bf \<longrightarrow> dev bf = 1 \<and> blockno bf < n \<and> length (data bf) = BSIZE)
   \<and> (b_dirty bf \<longrightarrow> b_valid bf)
   \<and> (b_valid bf \<and> \<not> b_dirty bf \<and> \<not> slocked sl \<longrightarrow> data bf = disk (blockno bf))"

definition one_copy :: "(nat \<Rightarrow> buf) \<Rightarrow> bool" where
  "one_copy bs \<longleftrightarrow> (\<forall>i < NBUF. \<forall>j < NBUF. dev (bs i) = 1 \<longrightarrow> dev (bs j) = 1 \<longrightarrow>
     blockno (bs i) = blockno (bs j) \<longrightarrow> i = j)"

definition cache_inv :: "'z bio_st_scheme \<Rightarrow> bool" where
  "cache_inv s \<longleftrightarrow> running s \<and> (\<exists>xs. lru_list (bufs s) xs) \<and> one_copy (bufs s)
     \<and> (\<forall>i < NBUF. buf_ok (curpid s) (disksize s) (memdisk s) (bufs s i) (slocks s (BufSleep i)))
     \<and> (\<forall>k < disksize s. length (memdisk s k) = BSIZE)"

definition has_block :: "nat \<Rightarrow> buf \<Rightarrow> bool" where
  "has_block k bf \<longleftrightarrow> b_valid bf \<and> dev bf = 1 \<and> blockno bf = k"

definition view :: "'z bio_st_scheme \<Rightarrow> nat \<Rightarrow> byte list" where
  "view s k = (case find (\<lambda>i. has_block k (bufs s i)) [0..<NBUF] of
     Some i \<Rightarrow> data (bufs s i) | None \<Rightarrow> memdisk s k)"

definition dirtyb :: "'z bio_st_scheme \<Rightarrow> nat set" where
  "dirtyb s = (\<lambda>i. blockno (bufs s i)) ` {i. i < NBUF \<and> b_dirty (bufs s i)}"

lemma find_unique:
  assumes "i \<in> set xs" and "P i" and "\<And>j. j \<in> set xs \<Longrightarrow> P j \<Longrightarrow> j = i"
  shows "find P xs = Some i"
proof (cases "find P xs")
  case None
  then show ?thesis using assms(1,2) by (auto simp: find_None_iff)
next
  case (Some j)
  then have "j \<in> set xs \<and> P j" by (auto simp: find_Some_iff)
  with assms(3) Some show ?thesis by blast
qed

lemma find_SomeD: "find P xs = Some x \<Longrightarrow> x \<in> set xs \<and> P x"
  by (induction xs) (auto split: if_splits)

lemma one_copyD:
  "one_copy bs \<Longrightarrow> i < NBUF \<Longrightarrow> j < NBUF \<Longrightarrow> dev (bs i) = 1 \<Longrightarrow> dev (bs j) = 1 \<Longrightarrow>
   blockno (bs i) = blockno (bs j) \<Longrightarrow> i = j"
  unfolding one_copy_def by blast

lemma view_cached:
  assumes "one_copy (bufs s)" and "i < NBUF" and "has_block k (bufs s i)"
  shows "view s k = data (bufs s i)"
proof -
  have "find (\<lambda>i. has_block k (bufs s i)) [0..<NBUF] = Some i"
    by (rule find_unique) (use assms one_copyD [OF assms(1)] in \<open>auto simp: has_block_def\<close>)
  then show ?thesis by (simp add: view_def)
qed

lemma view_uncached: "(\<And>i. i < NBUF \<Longrightarrow> \<not> has_block k (bufs s i)) \<Longrightarrow> view s k = memdisk s k"
proof -
  assume "\<And>i. i < NBUF \<Longrightarrow> \<not> has_block k (bufs s i)"
  then have "find (\<lambda>i. has_block k (bufs s i)) [0..<NBUF] = None" by (simp add: find_None_iff)
  then show ?thesis by (simp add: view_def)
qed

lemma cache_bufD:
  "cache_inv s \<Longrightarrow> i < NBUF \<Longrightarrow> buf_ok (curpid s) (disksize s) (memdisk s) (bufs s i) (slocks s (BufSleep i))"
  by (simp add: cache_inv_def)

lemma cache_held:
  assumes "cache_inv s" and "b \<in> heldb s"
  shows "b < NBUF" "slocked (slocks s (BufSleep b))" "spid (slocks s (BufSleep b)) = curpid s"
    "refcnt (bufs s b) = 1" "b_valid (bufs s b)" "dev (bufs s b) = 1" "blockno (bufs s b) < disksize s"
    "length (data (bufs s b)) = BSIZE" "view s (blockno (bufs s b)) = data (bufs s b)"
proof -
  show b: "b < NBUF" and l: "slocked (slocks s (BufSleep b))" using assms(2) by (simp_all add: heldb_def)
  from cache_bufD [OF assms(1) b] l
  show "spid (slocks s (BufSleep b)) = curpid s" "refcnt (bufs s b) = 1" "b_valid (bufs s b)"
    "dev (bufs s b) = 1" "blockno (bufs s b) < disksize s" "length (data (bufs s b)) = BSIZE"
    by (simp_all add: buf_ok_def)
  with b assms(1) show "view s (blockno (bufs s b)) = data (bufs s b)"
    by (intro view_cached) (auto simp: has_block_def cache_inv_def)
qed

lemma cache_held_inj:
  "cache_inv s \<Longrightarrow> b \<in> heldb s \<Longrightarrow> c \<in> heldb s \<Longrightarrow> blockno (bufs s b) = blockno (bufs s c) \<Longrightarrow> b = c"
  using cache_held [of s b] cache_held [of s c] by (auto simp: cache_inv_def dest: one_copyD)

lemma length_view: "cache_inv s \<Longrightarrow> k < disksize s \<Longrightarrow> length (view s k) = BSIZE"
proof -
  assume inv: "cache_inv s" and k: "k < disksize s"
  show ?thesis
  proof (cases "\<exists>i < NBUF. has_block k (bufs s i)")
    case True
    then obtain i where i: "i < NBUF" "has_block k (bufs s i)" by blast
    with view_cached [OF _ i] cache_bufD [OF inv i(1)] inv show ?thesis
      by (auto simp: cache_inv_def buf_ok_def has_block_def)
  next
    case False
    with inv k show ?thesis by (auto simp: view_uncached cache_inv_def)
  qed
qed

section \<open>bread\<close>

text \<open>What \<open>bread\<close> does to the buffer it returns.\<close>

definition loaded :: "nat \<Rightarrow> byte list \<Rightarrow> buf \<Rightarrow> buf" where
  "loaded k d bf = bf\<lparr>b_valid := True, dev := 1, blockno := k, refcnt := 1, data := d\<rparr>"

definition taken :: "nat \<Rightarrow> buf \<Rightarrow> 'z bio_st_scheme \<Rightarrow> 'z bio_st_scheme" where
  "taken b bf s = s\<lparr>bufs := (bufs s)(b := bf),
     slocks := (slocks s)(BufSleep b := \<lparr>slocked = True, spid = curpid s\<rparr>)\<rparr>"

lemma running_bufs [simp]:
  "running (s\<lparr>bufs := x\<rparr>) = running s" "curpid (s\<lparr>bufs := x\<rparr>) = curpid s"
  "running (s\<lparr>memdisk := d\<rparr>) = running s" "curpid (s\<lparr>memdisk := d\<rparr>) = curpid s"
  "running (s\<lparr>writes := w\<rparr>) = running s" "curpid (s\<lparr>writes := w\<rparr>) = curpid s"
  by (simp_all add: running_def curpid_def this_proc_def split: option.split)

lemma taken_simps [simp]:
  "bufs (taken b bf s) = (bufs s)(b := bf)" "memdisk (taken b bf s) = memdisk s"
  "disksize (taken b bf s) = disksize s" "running (taken b bf s) = running s"
  "curpid (taken b bf s) = curpid s" "writes (taken b bf s) = writes s"
  "slocks (taken b bf s) = (slocks s)(BufSleep b := \<lparr>slocked = True, spid = curpid s\<rparr>)"
  by (simp_all add: taken_def)

lemma taken_taken: "upd_buf b f (taken b bf s) = Ok () (taken b (f bf) s)"
  by (simp add: upd_buf_def taken_def)

lemma iderw_read:
  assumes "running s" and "\<not> b_valid bf" and "\<not> b_dirty bf" and "dev bf = 1" and "blockno bf < disksize s"
  shows "iderw b (taken b bf s) = Ok () (taken b (bf\<lparr>data := memdisk s (blockno bf), b_valid := True\<rparr>) s)"
  using assms by (simp add: iderw_def holdingsleep_spec buf_at_def bnd_def taken_taken)

lemma bread_of_bget:
  assumes "running s" and "bget 1 k s = Ok b (taken b bf s)" and "k < disksize s"
    and "dev bf = 1" and "blockno bf = k" and "\<not> b_valid bf \<Longrightarrow> \<not> b_dirty bf"
  shows "bread 1 k s = Ok b (taken b (if b_valid bf then bf else bf\<lparr>data := memdisk s k, b_valid := True\<rparr>) s)"
  using assms iderw_read [of s bf b] by (auto simp: bread_def buf_at_def bnd_def)

lemma bget_cached:
  assumes inv: "cache_inv s" and f: "find (\<lambda>i. dev (bufs s i) = 1 \<and> blockno (bufs s i) = k) xs = Some b"
    and xs: "lru_list (bufs s) xs" and nh: "\<forall>i \<in> heldb s. blockno (bufs s i) \<noteq> k"
  shows "bget 1 k s = Ok b (taken b ((bufs s b)\<lparr>refcnt := 1\<rparr>) s)"
    and "b < NBUF" "\<not> slocked (slocks s (BufSleep b))" "dev (bufs s b) = 1" "blockno (bufs s b) = k"
proof -
  have b: "b \<in> set xs" "dev (bufs s b) = 1" "blockno (bufs s b) = k"
    using find_SomeD [OF f] by simp_all
  then show bn: "b < NBUF" "dev (bufs s b) = 1" "blockno (bufs s b) = k" using xs by (auto simp: lru_list_def)
  show l: "\<not> slocked (slocks s (BufSleep b))" using nh bn by (auto simp: heldb_def)
  then have "refcnt (bufs s b) = 0" using cache_bufD [OF inv bn(1)] by (simp add: buf_ok_def)
  then have ref: "uinc (refcnt (bufs s b)) = 1" by (simp add: uinc_def)
  have run: "running s" using inv by (simp add: cache_inv_def)
  show "bget 1 k s = Ok b (taken b ((bufs s b)\<lparr>refcnt := 1\<rparr>) s)"
    using scan_lru(1) [OF xs, of "\<lambda>x. dev x = 1 \<and> blockno x = k"] f l run ref
    by (simp add: bget_def buf_at_def bnd_def upd_buf_def acquiresleep_spec taken_def)
qed

lemma bget_recycled:
  assumes inv: "cache_inv s" and f: "find (\<lambda>i. dev (bufs s i) = 1 \<and> blockno (bufs s i) = k) xs = None"
    and xs: "lru_list (bufs s) xs"
    and g: "find (\<lambda>i. refcnt (bufs s i) = 0 \<and> \<not> b_dirty (bufs s i)) (rev xs) = Some b"
  shows "bget 1 k s = Ok b (taken b ((bufs s b)\<lparr>dev := 1, blockno := k, b_valid := False, b_dirty := False, refcnt := 1\<rparr>) s)"
    and "b < NBUF" "\<not> slocked (slocks s (BufSleep b))" "\<not> b_dirty (bufs s b)"
proof -
  have b: "b \<in> set (rev xs)" "refcnt (bufs s b) = 0" "\<not> b_dirty (bufs s b)"
    using find_SomeD [OF g] by simp_all
  then show bn: "b < NBUF" "\<not> b_dirty (bufs s b)" using xs by (auto simp: lru_list_def)
  show l: "\<not> slocked (slocks s (BufSleep b))" using cache_bufD [OF inv bn(1)] b(2) by (auto simp: buf_ok_def)
  have run: "running s" using inv by (simp add: cache_inv_def)
  show "bget 1 k s = Ok b (taken b ((bufs s b)\<lparr>dev := 1, blockno := k, b_valid := False, b_dirty := False, refcnt := 1\<rparr>) s)"
    using scan_lru(1) [OF xs, of "\<lambda>x. dev x = 1 \<and> blockno x = k"] f
      scan_lru(2) [OF xs, of "\<lambda>x. refcnt x = 0 \<and> \<not> b_dirty x"] g l run
    by (simp add: bget_def buf_at_def bnd_def upd_buf_def acquiresleep_spec taken_def)
qed

lemma bget_full:
  assumes "lru_list (bufs s) xs" and "find (\<lambda>i. dev (bufs s i) = 1 \<and> blockno (bufs s i) = k) xs = None"
    and "find (\<lambda>i. refcnt (bufs s i) = 0 \<and> \<not> b_dirty (bufs s i)) (rev xs) = None"
  shows "bread 1 k s = Panic ''bget: no buffers''"
  using scan_lru(1) [OF assms(1), of "\<lambda>x. dev x = 1 \<and> blockno x = k"] assms(2)
    scan_lru(2) [OF assms(1), of "\<lambda>x. refcnt x = 0 \<and> \<not> b_dirty x"] assms(3)
  by (simp add: bread_def bget_def buf_at_def bnd_def)

text \<open>
  \<open>bread\<close> takes a buffer nobody holds, which is the block's own if it has one and otherwise a
  clean one, and fills it with the block; or every buffer is in use or dirty.
\<close>

lemma bread_cases:
  assumes inv: "cache_inv s" and k: "k < disksize s" and nh: "\<forall>i \<in> heldb s. blockno (bufs s i) \<noteq> k"
  obtains (ok) b where "bread 1 k s = Ok b (taken b (loaded k (view s k) (bufs s b)) s)"
      "b < NBUF" "\<not> slocked (slocks s (BufSleep b))" "b_dirty (bufs s b) \<longrightarrow> blockno (bufs s b) = k"
      "\<forall>j < NBUF. dev (bufs s j) = 1 \<longrightarrow> blockno (bufs s j) = k \<longrightarrow> j = b"
    | (full) "bread 1 k s = Panic ''bget: no buffers''"
      "\<forall>i < NBUF. refcnt (bufs s i) \<noteq> 0 \<or> b_dirty (bufs s i)"
      "\<forall>j < NBUF. \<not> (dev (bufs s j) = 1 \<and> blockno (bufs s j) = k)"
proof -
  obtain xs where xs: "lru_list (bufs s) xs" using inv by (auto simp: cache_inv_def)
  have run: "running s" and oc: "one_copy (bufs s)" using inv by (simp_all add: cache_inv_def)
  have set: "set xs = {0..<NBUF}" using xs by (simp add: lru_list_def)
  show thesis
  proof (cases "find (\<lambda>i. dev (bufs s i) = 1 \<and> blockno (bufs s i) = k) xs")
    case (Some b)
    note g = bget_cached [OF inv Some xs nh]
    have uniq: "\<forall>j < NBUF. dev (bufs s j) = 1 \<longrightarrow> blockno (bufs s j) = k \<longrightarrow> j = b"
      using one_copyD [OF oc _ g(2) _ g(4)] g(5) by auto
    have nd: "\<not> b_valid (bufs s b) \<Longrightarrow> \<not> b_dirty (bufs s b)"
      using cache_bufD [OF inv g(2)] by (auto simp: buf_ok_def)
    have v: "view s k = (if b_valid (bufs s b) then data (bufs s b) else memdisk s k)"
    proof (cases "b_valid (bufs s b)")
      case True
      with view_cached [OF oc g(2), of k] g(4,5) show ?thesis by (simp add: has_block_def)
    next
      case False
      with uniq have "\<not> has_block k (bufs s i)" if "i < NBUF" for i using that by (auto simp: has_block_def)
      with view_uncached [of k s] False show ?thesis by simp
    qed
    have "loaded k (view s k) (bufs s b) = (let bf = (bufs s b)\<lparr>refcnt := 1\<rparr>
        in if b_valid bf then bf else bf\<lparr>data := memdisk s k, b_valid := True\<rparr>)"
      using g(4,5) by (cases "bufs s b") (simp add: loaded_def v)
    with bread_of_bget [OF run g(1) k] g(4,5) nd
    have "bread 1 k s = Ok b (taken b (loaded k (view s k) (bufs s b)) s)" by simp
    from ok [OF this g(2,3) _ uniq] g(5) show thesis by simp
  next
    case None
    then have nc: "\<forall>j < NBUF. \<not> (dev (bufs s j) = 1 \<and> blockno (bufs s j) = k)"
      using set by (auto simp: find_None_iff)
    then have v: "view s k = memdisk s k" by (intro view_uncached) (auto simp: has_block_def)
    show thesis
    proof (cases "find (\<lambda>i. refcnt (bufs s i) = 0 \<and> \<not> b_dirty (bufs s i)) (rev xs)")
      case (Some b)
      note g = bget_recycled [OF inv None xs Some]
      have "loaded k (view s k) (bufs s b) =
          (bufs s b)\<lparr>dev := 1, blockno := k, b_valid := False, b_dirty := False, refcnt := 1,
            data := memdisk s k, b_valid := True\<rparr>"
        using g(4) by (cases "bufs s b") (simp add: loaded_def v)
      with bread_of_bget [OF run g(1) k]
      have "bread 1 k s = Ok b (taken b (loaded k (view s k) (bufs s b)) s)" by simp
      from ok [OF this g(2,3)] g(4) nc show thesis by blast
    next
      case N: None
      then have "\<forall>i < NBUF. refcnt (bufs s i) \<noteq> 0 \<or> b_dirty (bufs s i)"
        using set by (auto simp: find_None_iff)
      with bget_full [OF xs None N] nc show thesis by (blast intro: full)
    qed
  qed
qed

section \<open>What the operations keep\<close>

text \<open>
  Buffer-cache operations change buffers, their locks, the disk, and the run state of processes
  that were waiting; nothing else.
\<close>

definition bio_frame :: "'z bio_st_scheme \<Rightarrow> 'z bio_st_scheme \<Rightarrow> bool" where
  "bio_frame s s' \<longleftrightarrow>
     s' = s\<lparr>procs := procs s', slocks := slocks s', bufs := bufs s', memdisk := memdisk s', writes := writes s'\<rparr>
   \<and> (\<forall>i. procs s' i = (procs s i)\<lparr>pstate := pstate (procs s' i)\<rparr>)
   \<and> (\<forall>n. slocks s' (InodeSleep n) = slocks s (InodeSleep n))"

lemma bio_frame_refl [simp]: "bio_frame s s"
  by (simp add: bio_frame_def)

lemma bio_frame_eq: "bio_frame s s' \<Longrightarrow> s' = s\<lparr>procs := procs s', slocks := slocks s', bufs := bufs s', memdisk := memdisk s', writes := writes s'\<rparr>"
  by (simp add: bio_frame_def)

lemma bio_frame_trans:
  assumes "bio_frame s t" and "bio_frame t u"
  shows "bio_frame s u"
proof -
  have "u = s\<lparr>procs := procs u, slocks := slocks u, bufs := bufs u, memdisk := memdisk u, writes := writes u\<rparr>"
    using bio_frame_eq [OF assms(1)] bio_frame_eq [OF assms(2)]
    by (cases s; cases t; cases u) simp
  moreover have "procs u i = (procs s i)\<lparr>pstate := pstate (procs u i)\<rparr>" for i
  proof -
    have "procs u i = (procs t i)\<lparr>pstate := pstate (procs u i)\<rparr>" "procs t i = (procs s i)\<lparr>pstate := pstate (procs t i)\<rparr>"
      using assms unfolding bio_frame_def by blast+
    then show ?thesis by (cases "procs s i"; cases "procs t i"; cases "procs u i") simp
  qed
  ultimately show ?thesis using assms unfolding bio_frame_def by simp
qed

lemma bio_frame_simps:
  assumes "bio_frame s s'"
  shows "disksize s' = disksize s" "running s' = running s" "curpid s' = curpid s"
    "this_proc s' = this_proc s" "slocks s' (InodeSleep n) = slocks s (InodeSleep n)"
    "mem s' = mem s" "pid (procs s' i) = pid (procs s i)"
proof -
  note eq = bio_frame_eq [OF assms]
  have p: "pid (procs s' i) = pid (procs s i)" for i
  proof -
    have "procs s' i = (procs s i)\<lparr>pstate := pstate (procs s' i)\<rparr>" using assms unfolding bio_frame_def by blast
    then show ?thesis by (cases "procs s i"; cases "procs s' i") simp
  qed
  have "disksize s' = disksize s" "this_proc s' = this_proc s" "mem s' = mem s"
    by (subst eq, simp add: this_proc_def split: option.split)+
  with p show "disksize s' = disksize s" "running s' = running s" "curpid s' = curpid s"
    "this_proc s' = this_proc s" "mem s' = mem s" "pid (procs s' i) = pid (procs s i)"
    by (simp_all add: running_def curpid_def)
  show "slocks s' (InodeSleep n) = slocks s (InodeSleep n)" using assms by (simp add: bio_frame_def)
qed

text \<open>Replacing one buffer, with its links as they were.\<close>

lemma cache_inv_upd:
  assumes inv: "cache_inv s" and b: "b < NBUF"
    and bs: "bufs s' = (bufs s)(b := bf)"
    and links: "b_next bf = b_next (bufs s b)" "b_prev bf = b_prev (bufs s b)"
    and sl: "\<And>i. i \<noteq> b \<Longrightarrow> slocks s' (BufSleep i) = slocks s (BufSleep i)"
    and ok: "buf_ok (curpid s) (disksize s) (memdisk s') bf (slocks s' (BufSleep b))"
    and one: "dev bf = 1 \<Longrightarrow> \<forall>j < NBUF. j \<noteq> b \<longrightarrow> dev (bufs s j) = 1 \<longrightarrow> blockno (bufs s j) \<noteq> blockno bf"
    and disk: "\<And>k. k \<noteq> blockno bf \<Longrightarrow> memdisk s' k = memdisk s k"
      "length (memdisk s' (blockno bf)) = BSIZE \<or> memdisk s' = memdisk s"
    and bf: "dev bf = 1 \<or> memdisk s' = memdisk s"
    and eq: "curpid s' = curpid s" "disksize s' = disksize s" "running s' = running s"
  shows "cache_inv s'"
proof -
  obtain xs where xs: "lru_list (bufs s) xs" using inv by (auto simp: cache_inv_def)
  have "lru_list (bufs s') xs = lru_list (bufs s) xs"
    by (rule lru_cong) (simp_all add: bs links)
  moreover have "one_copy (bufs s')"
    unfolding one_copy_def
  proof (intro allI impI)
    fix i j assume "i < NBUF" "j < NBUF" "dev (bufs s' i) = 1" "dev (bufs s' j) = 1" "blockno (bufs s' i) = blockno (bufs s' j)"
    then show "i = j" using one one_copyD [of "bufs s" i j] inv
      by (cases "i = b"; cases "j = b") (auto simp: bs cache_inv_def)
  qed
  moreover have "buf_ok (curpid s') (disksize s') (memdisk s') (bufs s' i) (slocks s' (BufSleep i))" if i: "i < NBUF" for i
  proof (cases "i = b")
    case True
    with ok show ?thesis by (simp add: bs eq)
  next
    case False
    have old: "buf_ok (curpid s) (disksize s) (memdisk s) (bufs s i) (slocks s (BufSleep i))"
      by (rule cache_bufD [OF inv i])
    have "memdisk s' = memdisk s \<or> (b_valid (bufs s i) \<longrightarrow> blockno (bufs s i) \<noteq> blockno bf)"
      using old one i False bf by (auto simp: buf_ok_def)
    with old disk(1) show ?thesis using False by (auto simp: bs sl eq buf_ok_def)
  qed
  moreover have "length (memdisk s' k) = BSIZE" if "k < disksize s'" for k
    using that disk inv by (cases "k = blockno bf") (auto simp: cache_inv_def eq)
  ultimately show ?thesis using xs inv by (auto simp: cache_inv_def eq)
qed

lemma view_upd_other:
  assumes oc: "one_copy (bufs s)" and b: "b < NBUF" and bs: "bufs s' = (bufs s)(b := bf)"
    and new: "\<not> has_block j bf" and disk: "memdisk s' j = memdisk s j"
    and old: "has_block j (bufs s b) \<Longrightarrow> data (bufs s b) = memdisk s j"
  shows "view s' j = view s j"
proof (cases "has_block j (bufs s b)")
  case True
  have "\<not> has_block j (bufs s' i)" if "i < NBUF" for i
    using that new True one_copyD [OF oc that b] by (auto simp: bs has_block_def)
  then have "view s' j = memdisk s' j" by (rule view_uncached)
  with old [OF True] view_cached [OF oc b True] disk show ?thesis by simp
next
  case False
  with new have "has_block j (bufs s' i) = has_block j (bufs s i)" for i by (simp add: bs)
  moreover have "bufs s' i = bufs s i" if "has_block j (bufs s i)" for i
    using that False by (auto simp: bs)
  ultimately show ?thesis
    unfolding view_def by (auto simp: disk split: option.split dest: find_SomeD)
qed

text \<open>One operation on buffer \<open>b\<close>: the invariant holds, and the other buffers held are untouched.\<close>

definition bstep :: "nat \<Rightarrow> 'z bio_st_scheme \<Rightarrow> 'z bio_st_scheme \<Rightarrow> bool" where
  "bstep b s s' \<longleftrightarrow> cache_inv s' \<and> bio_frame s s'
     \<and> (\<forall>i \<in> heldb s. i \<noteq> b \<longrightarrow> unlinked (bufs s' i) = unlinked (bufs s i))"

text \<open>A buffer may be released when it is dirty or agrees with the disk.\<close>

definition settled :: "'z bio_st_scheme \<Rightarrow> nat \<Rightarrow> bool" where
  "settled s b \<longleftrightarrow> b_dirty (bufs s b) \<or> data (bufs s b) = memdisk s (blockno (bufs s b))"

lemma bread_spec:
  assumes inv: "cache_inv s" and k: "k < disksize s" and nh: "\<forall>i \<in> heldb s. blockno (bufs s i) \<noteq> k"
  shows "(\<exists>b s'. bread 1 k s = Ok b s' \<and> bstep b s s' \<and> view s' = view s \<and> dirtyb s' = dirtyb s
      \<and> memdisk s' = memdisk s \<and> writes s' = writes s \<and> b \<notin> heldb s \<and> heldb s' = insert b (heldb s)
      \<and> blockno (bufs s' b) = k \<and> data (bufs s' b) = view s k \<and> settled s' b)
    \<or> bread 1 k s = Panic ''bget: no buffers'' \<and> NBUF \<le> card (heldb s \<union> {i. i < NBUF \<and> b_dirty (bufs s i)})
      \<and> k \<notin> dirtyb s"
  using inv k nh
proof (cases rule: bread_cases)
  case (ok b)
  let ?bf = "loaded k (view s k) (bufs s b)"
  let ?s = "taken b ?bf s"
  have bok: "buf_ok (curpid s) (disksize s) (memdisk s) (bufs s b) (slocks s (BufSleep b))"
    by (rule cache_bufD [OF inv ok(2)])
  have oc: "one_copy (bufs s)" using inv by (simp add: cache_inv_def)
  have inv': "cache_inv ?s"
    by (rule cache_inv_upd [OF inv ok(2), where bf = ?bf])
      (use ok(5) k length_view [OF inv k] in \<open>auto simp: loaded_def buf_ok_def\<close>)
  have "view ?s j = view s j" for j
  proof (cases "j = k")
    case True
    have "has_block k ?bf" by (simp add: has_block_def loaded_def)
    with inv' ok(2) have "view ?s k = data ?bf"
      using view_cached [of ?s b k] by (simp add: cache_inv_def)
    with True show ?thesis by (simp add: loaded_def)
  next
    case False
    show ?thesis
      by (rule view_upd_other [OF oc ok(2)]) (use False bok ok(3,4) in \<open>auto simp: loaded_def has_block_def buf_ok_def\<close>)
  qed
  then have "view ?s = view s" by (rule ext)
  moreover have "dirtyb ?s = dirtyb s"
  proof -
    have "b_dirty (bufs ?s i) = b_dirty (bufs s i)" for i by (simp add: loaded_def)
    moreover have "blockno (bufs ?s i) = blockno (bufs s i)" if "b_dirty (bufs s i)" for i
      using that ok(4) by (auto simp: loaded_def)
    ultimately show ?thesis unfolding dirtyb_def by (intro image_cong) simp_all
  qed
  moreover have "bio_frame s ?s" by (simp add: bio_frame_def taken_def)
  moreover have "b \<notin> heldb s" "heldb ?s = insert b (heldb s)" using ok(2,3) by (auto simp: heldb_def)
  moreover have "settled ?s b"
  proof (cases "has_block k (bufs s b)")
    case True
    with view_cached [OF oc ok(2) True] bok ok(3) show ?thesis
      by (auto simp: settled_def loaded_def has_block_def buf_ok_def)
  next
    case False
    then have "\<not> has_block k (bufs s i)" if "i < NBUF" for i
      using that ok(5) by (auto simp: has_block_def)
    then have "view s k = memdisk s k" by (rule view_uncached)
    then show ?thesis by (simp add: settled_def loaded_def)
  qed
  ultimately show ?thesis using ok(1) inv' by (auto simp: bstep_def loaded_def)
next
  case full
  have "{0..<NBUF} \<subseteq> heldb s \<union> {i. i < NBUF \<and> b_dirty (bufs s i)}"
    using full(2) cache_bufD [OF inv] by (fastforce simp: heldb_def buf_ok_def)
  then have "card {0..<NBUF} \<le> card (heldb s \<union> {i. i < NBUF \<and> b_dirty (bufs s i)})"
    by (intro card_mono) (auto simp: heldb_def)
  moreover have "k \<notin> dirtyb s"
    using full(3) cache_bufD [OF inv] by (auto simp: dirtyb_def buf_ok_def)
  ultimately show ?thesis using full(1) by simp
qed

lemma card_dirty: "cache_inv s \<Longrightarrow> card {i. i < NBUF \<and> b_dirty (bufs s i)} = card (dirtyb s)"
proof -
  assume inv: "cache_inv s"
  have "inj_on (\<lambda>i. blockno (bufs s i)) {i. i < NBUF \<and> b_dirty (bufs s i)}"
  proof (rule inj_onI)
    fix x y assume "x \<in> {i. i < NBUF \<and> b_dirty (bufs s i)}" "y \<in> {i. i < NBUF \<and> b_dirty (bufs s i)}"
      "blockno (bufs s x) = blockno (bufs s y)"
    then show "x = y" using cache_bufD [OF inv, of x] cache_bufD [OF inv, of y] inv
      by (auto simp: buf_ok_def cache_inv_def intro: one_copyD)
  qed
  then show ?thesis unfolding dirtyb_def by (rule card_image [symmetric])
qed

text \<open>With few enough buffers pinned, \<open>bread\<close> succeeds.\<close>

lemma bread_ok:
  assumes inv: "cache_inv s" and k: "k < disksize s" and nh: "\<forall>i \<in> heldb s. blockno (bufs s i) \<noteq> k"
    and room: "k \<in> dirtyb s \<or> card (heldb s) + card (dirtyb s) < NBUF"
  shows "\<exists>b s'. bread 1 k s = Ok b s' \<and> bstep b s s' \<and> view s' = view s \<and> dirtyb s' = dirtyb s
      \<and> memdisk s' = memdisk s \<and> writes s' = writes s \<and> b \<notin> heldb s \<and> heldb s' = insert b (heldb s)
      \<and> blockno (bufs s' b) = k \<and> data (bufs s' b) = view s k \<and> settled s' b"
proof -
  have "card (heldb s \<union> {i. i < NBUF \<and> b_dirty (bufs s i)}) \<le> card (heldb s) + card (dirtyb s)"
    using card_Un_le [of "heldb s"] by (simp add: card_dirty [OF inv, symmetric])
  then have "k \<in> dirtyb s \<or> \<not> NBUF \<le> card (heldb s \<union> {i. i < NBUF \<and> b_dirty (bufs s i)})"
    using room by linarith
  with bread_spec [OF inv k nh] show ?thesis by blast
qed

lemma holding_held: "cache_inv s \<Longrightarrow> b \<in> heldb s \<Longrightarrow> holdingsleep (BufSleep b) s = Ok True s"
  using cache_held(2,3) [of s b] by (simp add: holdingsleep_spec cache_inv_def)

lemma bset_spec:
  assumes inv: "cache_inv s" and b: "b \<in> heldb s" and len: "length (f (data (bufs s b))) = BSIZE"
  shows "\<exists>s'. bset b f s = Ok () s' \<and> bstep b s s' \<and> heldb s' = heldb s \<and> dirtyb s' = dirtyb s
    \<and> view s' = (view s)(blockno (bufs s b) := f (view s (blockno (bufs s b))))
    \<and> memdisk s' = memdisk s \<and> writes s' = writes s
    \<and> bufs s' b = (bufs s b)\<lparr>data := f (data (bufs s b))\<rparr>"
proof -
  note h = cache_held [OF inv b]
  let ?bf = "(bufs s b)\<lparr>data := f (data (bufs s b))\<rparr>"
  let ?s = "s\<lparr>bufs := (bufs s)(b := ?bf)\<rparr>"
  have oc: "one_copy (bufs s)" using inv by (simp add: cache_inv_def)
  have inv': "cache_inv ?s"
    by (rule cache_inv_upd [OF inv h(1), where bf = ?bf])
      (use h len oc one_copyD [OF oc _ h(1)] cache_bufD [OF inv h(1)] in \<open>auto simp: buf_ok_def\<close>)
  have "view ?s j = ((view s)(blockno (bufs s b) := f (view s (blockno (bufs s b))))) j" for j
  proof (cases "j = blockno (bufs s b)")
    case True
    have "view ?s j = data ?bf"
      using view_cached [of ?s b j] inv' h True by (simp add: has_block_def cache_inv_def)
    with True h(9) show ?thesis by simp
  next
    case False
    have "view ?s j = view s j" by (rule view_upd_other [OF oc h(1)]) (use False in \<open>auto simp: has_block_def\<close>)
    with False show ?thesis by simp
  qed
  then have "view ?s = (view s)(blockno (bufs s b) := f (view s (blockno (bufs s b))))" by (rule ext)
  moreover have "dirtyb ?s = dirtyb s" unfolding dirtyb_def by (rule image_cong) auto
  moreover have "bio_frame s ?s" by (simp add: bio_frame_def)
  ultimately show ?thesis using inv' by (auto simp: bset_def upd_buf_def bstep_def heldb_def)
qed

lemma view_cong:
  assumes "\<And>i j. has_block j (bufs s' i) = has_block j (bufs s i)"
    and "\<And>i. data (bufs s' i) = data (bufs s i)" and "memdisk s' = memdisk s"
  shows "view s' = view s"
  by (rule ext) (simp add: view_def assms split: option.split)

lemma bdirty_spec:
  assumes inv: "cache_inv s" and b: "b \<in> heldb s"
  shows "\<exists>s'. upd_buf b (\<lambda>x. x\<lparr>b_dirty := True\<rparr>) s = Ok () s' \<and> bstep b s s' \<and> heldb s' = heldb s
    \<and> dirtyb s' = insert (blockno (bufs s b)) (dirtyb s) \<and> view s' = view s
    \<and> memdisk s' = memdisk s \<and> writes s' = writes s \<and> bufs s' b = (bufs s b)\<lparr>b_dirty := True\<rparr>"
proof -
  note h = cache_held [OF inv b]
  let ?bf = "(bufs s b)\<lparr>b_dirty := True\<rparr>"
  let ?s = "s\<lparr>bufs := (bufs s)(b := ?bf)\<rparr>"
  have oc: "one_copy (bufs s)" using inv by (simp add: cache_inv_def)
  have inv': "cache_inv ?s"
    by (rule cache_inv_upd [OF inv h(1), where bf = ?bf])
      (use h oc one_copyD [OF oc _ h(1)] cache_bufD [OF inv h(1)] in \<open>auto simp: buf_ok_def\<close>)
  have "view ?s = view s" by (rule view_cong) (auto simp: has_block_def)
  moreover have "dirtyb ?s = insert (blockno (bufs s b)) (dirtyb s)"
  proof -
    have "{i. i < NBUF \<and> b_dirty (bufs ?s i)} = insert b {i. i < NBUF \<and> b_dirty (bufs s i)}" using h(1) by auto
    moreover have "blockno (bufs ?s i) = blockno (bufs s i)" for i by simp
    ultimately show ?thesis unfolding dirtyb_def by (simp only: image_insert)
  qed
  moreover have "bio_frame s ?s" by (simp add: bio_frame_def)
  ultimately show ?thesis using inv' by (auto simp: upd_buf_def bstep_def heldb_def)
qed

lemma bwrite_spec:
  assumes inv: "cache_inv s" and b: "b \<in> heldb s" and k: "k = blockno (bufs s b)"
  shows "\<exists>s'. bwrite b s = Ok () s' \<and> bstep b s s' \<and> heldb s' = heldb s
    \<and> dirtyb s' = dirtyb s - {k} \<and> view s' = view s
    \<and> memdisk s' = (memdisk s)(k := view s k) \<and> writes s' = writes s @ [(k, view s k)]
    \<and> bufs s' b = (bufs s b)\<lparr>b_dirty := False\<rparr> \<and> settled s' b"
proof -
  note h = cache_held [OF inv b]
  let ?bf = "(bufs s b)\<lparr>b_dirty := False\<rparr>"
  let ?s = "s\<lparr>bufs := (bufs s)(b := ?bf), memdisk := (memdisk s)(k := data (bufs s b)),
    writes := writes s @ [(k, data (bufs s b))]\<rparr>"
  have oc: "one_copy (bufs s)" and run: "running s" using inv by (simp_all add: cache_inv_def)
  have inv': "cache_inv ?s"
    by (rule cache_inv_upd [OF inv h(1), where bf = ?bf])
      (use h k oc one_copyD [OF oc _ h(1)] cache_bufD [OF inv h(1)] in \<open>auto simp: buf_ok_def\<close>)
  have "view ?s j = view s j" for j
  proof (cases "j = k")
    case True
    have "has_block k (bufs ?s b)" using h k by (simp add: has_block_def)
    with view_cached [of ?s b k] inv' h k True show ?thesis by (simp add: cache_inv_def)
  next
    case False
    then show ?thesis by (intro view_upd_other [OF oc h(1)]) (auto simp: has_block_def k)
  qed
  then have "view ?s = view s" by (rule ext)
  moreover have "dirtyb ?s = dirtyb s - {k}"
  proof -
    have "blockno (bufs s i) \<noteq> k" if "i < NBUF" "i \<noteq> b" "b_dirty (bufs s i)" for i
      using that cache_bufD [OF inv that(1)] one_copyD [OF oc that(1) h(1)] h(6) k by (auto simp: buf_ok_def)
    then have "{i. i < NBUF \<and> b_dirty (bufs ?s i)} = {i. i < NBUF \<and> b_dirty (bufs s i) \<and> blockno (bufs s i) \<noteq> k}"
      using k by (auto split: if_splits)
    moreover have "blockno (bufs ?s i) = blockno (bufs s i)" for i by simp
    ultimately have "dirtyb ?s = (\<lambda>i. blockno (bufs s i)) ` {i. i < NBUF \<and> b_dirty (bufs s i) \<and> blockno (bufs s i) \<noteq> k}"
      unfolding dirtyb_def by (simp only:)
    then show ?thesis unfolding dirtyb_def [of s] by (simp only:) blast
  qed
  moreover have "bio_frame s ?s" by (simp add: bio_frame_def)
  moreover have "(bufs s b)\<lparr>b_dirty := False, b_valid := True\<rparr> = ?bf" using h(5) by (cases "bufs s b") simp
  then have "bwrite b s = Ok () ?s"
    using h(2,3,6,7) run k
    by (simp add: bwrite_def iderw_def holdingsleep_spec buf_at_def bnd_def upd_buf_def)
  ultimately show ?thesis using inv' h(9) k by (auto simp: bstep_def heldb_def settled_def)
qed

definition relsd :: "nat \<Rightarrow> 'z bio_st_scheme \<Rightarrow> 'z bio_st_scheme" where
  "relsd b s = s\<lparr>slocks := (slocks s)(BufSleep b := \<lparr>slocked = False, spid = 0\<rparr>),
     procs := woken (SleeplockChan (BufSleep b)) (procs s),
     bufs := push_buf b (unlink_buf b ((bufs s)(b := (bufs s b)\<lparr>refcnt := 0\<rparr>)))\<rparr>"

lemma brelse_eq:
  assumes "cache_inv s" and "b \<in> heldb s"
  shows "brelse b s = Ok () (relsd b s)"
  using cache_held(4) [OF assms] holding_held [OF assms]
  by (simp add: brelse_def releasesleep_spec buf_at_def bnd_def upd_buf_def relsd_def
      push_buf_def unlink_buf_def Let_def udec_def)

lemma brelse_spec:
  assumes inv: "cache_inv s" and b: "b \<in> heldb s" and set: "settled s b"
  shows "\<exists>s'. brelse b s = Ok () s' \<and> bstep b s s' \<and> heldb s' = heldb s - {b}
    \<and> dirtyb s' = dirtyb s \<and> view s' = view s \<and> memdisk s' = memdisk s \<and> writes s' = writes s"
proof -
  note h = cache_held [OF inv b]
  let ?s = "relsd b s"
  have oc: "one_copy (bufs s)" using inv by (simp add: cache_inv_def)
  have u: "unlinked (bufs ?s i) = unlinked (((bufs s)(b := (bufs s b)\<lparr>refcnt := 0\<rparr>)) i)" for i
    by (simp add: relsd_def)
  have f: "b_valid (bufs ?s i) = b_valid (bufs s i)" "b_dirty (bufs ?s i) = b_dirty (bufs s i)"
    "dev (bufs ?s i) = dev (bufs s i)" "blockno (bufs ?s i) = blockno (bufs s i)"
    "data (bufs ?s i) = data (bufs s i)" "refcnt (bufs ?s i) = (if i = b then 0 else refcnt (bufs s i))" for i
    using unlinkedD [OF u [of i]] by (simp_all split: if_splits)
  have sl: "slocks ?s = (slocks s)(BufSleep b := \<lparr>slocked = False, spid = 0\<rparr>)"
    and dk: "memdisk ?s = memdisk s" "disksize ?s = disksize s" "writes ?s = writes s"
    and rn: "running ?s = running s" "curpid ?s = curpid s"
    by (simp_all add: relsd_def curpid_def running_def this_proc_def split: option.split)
  obtain xs ys where "lru_list (bufs s) (xs @ b # ys)"
    using inv h(1) by (metis atLeastLessThan_iff bot_nat_0.extremum cache_inv_def in_set_conv_decomp lru_list_def)
  then have "lru_list ((bufs s)(b := (bufs s b)\<lparr>refcnt := 0\<rparr>)) (xs @ b # ys)"
    by (subst lru_cong) auto
  then have "lru_list (bufs ?s) (b # xs @ ys)" by (simp add: relsd_def lru_move_front)
  moreover have "one_copy (bufs ?s)" using oc by (simp add: one_copy_def f)
  moreover have "buf_ok (curpid ?s) (disksize ?s) (memdisk ?s) (bufs ?s i) (slocks ?s (BufSleep i))" if "i < NBUF" for i
    using cache_bufD [OF inv that] set by (auto simp: buf_ok_def f sl dk rn settled_def)
  ultimately have inv': "cache_inv ?s" using inv by (auto simp: cache_inv_def dk rn)
  have "view ?s = view s" by (rule view_cong) (simp_all add: has_block_def f dk)
  moreover have "dirtyb ?s = dirtyb s" by (simp add: dirtyb_def f)
  moreover have "bio_frame s ?s" by (simp add: bio_frame_def relsd_def woken_def)
  moreover have "unlinked (bufs ?s i) = unlinked (bufs s i)" if "i \<noteq> b" for i using that by (simp add: u)
  moreover have "heldb ?s = heldb s - {b}" by (auto simp: heldb_def sl)
  ultimately show ?thesis using brelse_eq [OF inv b] inv' dk by (auto simp: bstep_def)
qed

text \<open>Fields of the state that are not the cache's own are kept whatever the outcome.\<close>

definition bio_indep :: "('z bio_st_scheme \<Rightarrow> 'b) \<Rightarrow> bool" where
  "bio_indep f \<longleftrightarrow> (\<forall>s x. f (s\<lparr>bufs := x\<rparr>) = f s) \<and> (\<forall>s x. f (s\<lparr>slocks := x\<rparr>) = f s)
     \<and> (\<forall>s x. f (s\<lparr>procs := x\<rparr>) = f s) \<and> (\<forall>s x y. f (s\<lparr>memdisk := x, writes := y\<rparr>) = f s)"

lemma keeps_upd_buf [keeps_intro]: "bio_indep f \<Longrightarrow> keeps f (upd_buf b g)"
  by (simp add: keeps_def upd_buf_def bio_indep_def)

lemma keeps_sleep [keeps_intro]:
  assumes "bio_indep f"
  shows "keeps f my_pid" "keeps f (acquiresleep l)" "keeps f (releasesleep l)" "keeps f (holdingsleep l)"
proof -
  show p: "keeps f my_pid"
    unfolding my_pid_def by (intro keeps_bnd keeps_basic) (simp add: keeps_basic split: option.split)
  have u: "keeps f (upd_sl l v)" for v using assms by (simp add: keeps_def upd_sl_def bio_indep_def)
  show "keeps f (acquiresleep l)" unfolding acquiresleep_def by (intro keeps_intro p u)
  show "keeps f (holdingsleep l)" unfolding holdingsleep_def by (intro keeps_intro p)
  show "keeps f (releasesleep l)"
    using assms by (simp add: keeps_def releasesleep_spec bio_indep_def)
qed

lemma keeps_scan [keeps_intro]: "keeps f (scan fuel link P b)"
proof -
  have "scan fuel link P b s = Ok a s' \<Longrightarrow> s' = s" for s :: "'a bio_st_scheme" and s' a
    by (induction fuel arbitrary: b) (auto split: if_splits)
  then show ?thesis by (auto simp: keeps_def)
qed

lemma keeps_bio [keeps_intro]:
  assumes "bio_indep f"
  shows "keeps f (iderw b)" "keeps f (bread d k)" "keeps f (bwrite b)" "keeps f (brelse b)" "keeps f (bset b g)"
proof -
  have m: "keeps f (modk (\<lambda>s. s\<lparr>memdisk := h s, writes := w s\<rparr>))" for h w
    using assms by (simp add: keeps_def bio_indep_def)
  show i: "keeps f (iderw b)" for b
    unfolding iderw_def buf_at_def by (intro keeps_intro assms m)
  have "keeps f (bget d k)" unfolding bget_def buf_at_def by (intro keeps_intro assms)
  then show "keeps f (bread d k)" unfolding bread_def buf_at_def by (intro keeps_intro assms i)
  show "keeps f (bwrite b)" unfolding bwrite_def by (intro keeps_intro assms i)
  show "keeps f (brelse b)" unfolding brelse_def buf_at_def by (intro keeps_intro assms)
  show "keeps f (bset b g)" unfolding bset_def by (intro keeps_intro assms)
qed

section \<open>The contract of a block cache\<close>

text \<open>
  What the layers above rely on: \<open>rd\<close> hands out a buffer with the block's current content,
  \<open>wr\<close> changes the content of a buffer held, \<open>rel\<close> gives a buffer back.
\<close>

locale block_cache =
  fixes rd :: "nat \<Rightarrow> ('s, nat) kern"
    and rel :: "nat \<Rightarrow> ('s, unit) kern"
    and wr :: "nat \<Rightarrow> ('s, unit) kern"
    and content :: "'s \<Rightarrow> nat \<Rightarrow> byte list"
    and inv :: "'s \<Rightarrow> bool"
    and held :: "'s \<Rightarrow> nat set"
    and block :: "'s \<Rightarrow> nat \<Rightarrow> nat"
    and disk :: "'s \<Rightarrow> nat \<Rightarrow> byte list"
    and limit :: "'s \<Rightarrow> nat"
    and final :: "'s \<Rightarrow> nat \<Rightarrow> bool"
    and full :: string
  assumes rd_law: "inv s \<Longrightarrow> k < limit s \<Longrightarrow> \<forall>i \<in> held s. block s i \<noteq> k \<Longrightarrow>
      rd k s = Panic full \<or> (\<exists>b s'. rd k s = Ok b s' \<and> inv s' \<and> content s' = content s \<and> disk s' = disk s
        \<and> limit s' = limit s \<and> b \<notin> held s \<and> held s' = insert b (held s) \<and> block s' b = k \<and> final s' b)"
    and rel_law: "inv s \<Longrightarrow> b \<in> held s \<Longrightarrow> final s b \<Longrightarrow>
      \<exists>s'. rel b s = Ok () s' \<and> inv s' \<and> content s' = content s \<and> disk s' = disk s \<and> held s' = held s - {b}"
    and wr_law: "inv s \<Longrightarrow> b \<in> held s \<Longrightarrow>
      \<exists>s'. wr b s = Ok () s' \<and> inv s' \<and> content s' = content s \<and> held s' = held s
        \<and> disk s' = (disk s)(block s b := content s (block s b)) \<and> block s' b = block s b \<and> final s' b"
begin

text \<open>Reading a block and giving it back changes nothing a client can see.\<close>

lemma read_release:
  assumes "inv s" and "k < limit s" and "\<forall>i \<in> held s. block s i \<noteq> k"
  shows "bnd (rd k) rel s = Panic full \<or>
    (\<exists>s'. bnd (rd k) rel s = Ok () s' \<and> inv s' \<and> content s' = content s \<and> disk s' = disk s \<and> held s' = held s)"
  using rd_law [OF assms]
proof (elim disjE exE conjE)
  fix b s' assume s': "rd k s = Ok b s'" "inv s'" "content s' = content s" "disk s' = disk s" "b \<notin> held s"
    "held s' = insert b (held s)" "final s' b"
  from rel_law [OF s'(2) _ s'(7)] s'(6) obtain t where
    "rel b s' = Ok () t" "inv t" "content t = content s'" "disk t = disk s'" "held t = held s' - {b}" by auto
  with s' show ?thesis by auto
qed simp

text \<open>Writing a block through brings the disk up to date with what clients see, there and only there.\<close>

lemma write_through:
  assumes "inv s" and "k < limit s" and "\<forall>i \<in> held s. block s i \<noteq> k"
  shows "bnd (rd k) (\<lambda>b. bnd (wr b) (\<lambda>_. rel b)) s = Panic full \<or>
    (\<exists>s'. bnd (rd k) (\<lambda>b. bnd (wr b) (\<lambda>_. rel b)) s = Ok () s' \<and> inv s' \<and> content s' = content s
       \<and> disk s' = (disk s)(k := content s k) \<and> held s' = held s)"
  using rd_law [OF assms]
proof (elim disjE exE conjE)
  fix b s' assume s': "rd k s = Ok b s'" "inv s'" "content s' = content s" "disk s' = disk s" "b \<notin> held s"
    "held s' = insert b (held s)" "block s' b = k"
  from wr_law [OF s'(2), of b] s'(6) obtain t where t: "wr b s' = Ok () t" "inv t" "content t = content s'"
    "held t = held s'" "disk t = (disk s')(k := content s' k)" "final t b" using s'(7) by auto
  from rel_law [OF t(2) _ t(6)] t(4) s'(6) obtain u where
    "rel b t = Ok () u" "inv u" "content u = content t" "disk u = disk t" "held u = held t - {b}" by auto
  with s' t show ?thesis by auto
qed simp

end

interpretation bcache: block_cache "bread 1" brelse bwrite view cache_inv heldb "\<lambda>s b. blockno (bufs s b)"
  memdisk disksize settled "''bget: no buffers''"
proof unfold_locales
  fix s :: "'z bio_st_scheme" and k
  assume "cache_inv s" "k < disksize s" "\<forall>i \<in> heldb s. blockno (bufs s i) \<noteq> k"
  from bread_spec [OF this]
  show "bread 1 k s = Panic ''bget: no buffers'' \<or> (\<exists>b s'. bread 1 k s = Ok b s' \<and> cache_inv s' \<and> view s' = view s
      \<and> memdisk s' = memdisk s \<and> disksize s' = disksize s \<and> b \<notin> heldb s \<and> heldb s' = insert b (heldb s)
      \<and> blockno (bufs s' b) = k \<and> settled s' b)"
    by (auto simp: bstep_def bio_frame_simps)
next
  fix s :: "'z bio_st_scheme" and b
  assume "cache_inv s" "b \<in> heldb s" "settled s b"
  from brelse_spec [OF this]
  show "\<exists>s'. brelse b s = Ok () s' \<and> cache_inv s' \<and> view s' = view s \<and> memdisk s' = memdisk s \<and> heldb s' = heldb s - {b}"
    by (auto simp: bstep_def)
next
  fix s :: "'z bio_st_scheme" and b
  assume "cache_inv s" "b \<in> heldb s"
  from bwrite_spec [OF this refl]
  show "\<exists>s'. bwrite b s = Ok () s' \<and> cache_inv s' \<and> view s' = view s \<and> heldb s' = heldb s
      \<and> memdisk s' = (memdisk s)(blockno (bufs s b) := view s (blockno (bufs s b)))
      \<and> blockno (bufs s' b) = blockno (bufs s b) \<and> settled s' b"
    by (auto simp: bstep_def)
qed

section \<open>Properties\<close>

lemma binit_one_eq:
  "binit_one b s = Ok () (s\<lparr>bufs := push_buf b (bufs s),
     locks := (locks s)(SleepGuard (BufSleep b) := \<lparr>locked = False, lcpu = None\<rparr>),
     slocks := (slocks s)(BufSleep b := \<lparr>slocked = False, spid = 0\<rparr>)\<rparr>)"
  by (simp add: binit_one_def buf_at_def upd_buf_def initsleeplock_def initlock_def upd_sl_def upd_lock_def
      push_buf_def Let_def bnd_def)

lemma binit_loop:
  assumes "chain (\<lambda>i. b_next (bufs s i)) HEAD xs HEAD" and "chain (\<lambda>i. b_prev (bufs s i)) HEAD (rev xs) HEAD"
    and "distinct (HEAD # xs)" and "distinct ns" and "set ns \<inter> set (HEAD # xs) = {}"
  shows "\<exists>s'. for_each binit_one ns s = Ok () s'
    \<and> chain (\<lambda>i. b_next (bufs s' i)) HEAD (rev ns @ xs) HEAD \<and> chain (\<lambda>i. b_prev (bufs s' i)) HEAD (rev (rev ns @ xs)) HEAD
    \<and> (\<forall>i \<in> set ns. \<not> slocked (slocks s' (BufSleep i)))
    \<and> (\<forall>i. \<not> slocked (slocks s (BufSleep i)) \<longrightarrow> \<not> slocked (slocks s' (BufSleep i)))
    \<and> (\<forall>i. unlinked (bufs s' i) = unlinked (bufs s i)) \<and> memdisk s' = memdisk s \<and> disksize s' = disksize s
    \<and> procs s' = procs s \<and> this_proc s' = this_proc s"
  using assms
proof (induction ns arbitrary: s xs)
  case (Cons n ns)
  have n: "n \<notin> set (HEAD # xs)" using Cons.prems(5) by auto
  let ?s = "s\<lparr>bufs := push_buf n (bufs s),
     locks := (locks s)(SleepGuard (BufSleep n) := \<lparr>locked = False, lcpu = None\<rparr>),
     slocks := (slocks s)(BufSleep n := \<lparr>slocked = False, spid = 0\<rparr>)\<rparr>"
  have "\<exists>s'. for_each binit_one ns ?s = Ok () s'
    \<and> chain (\<lambda>i. b_next (bufs s' i)) HEAD (rev ns @ n # xs) HEAD \<and> chain (\<lambda>i. b_prev (bufs s' i)) HEAD (rev (rev ns @ n # xs)) HEAD
    \<and> (\<forall>i \<in> set ns. \<not> slocked (slocks s' (BufSleep i)))
    \<and> (\<forall>i. \<not> slocked (slocks ?s (BufSleep i)) \<longrightarrow> \<not> slocked (slocks s' (BufSleep i)))
    \<and> (\<forall>i. unlinked (bufs s' i) = unlinked (bufs ?s i)) \<and> memdisk s' = memdisk ?s \<and> disksize s' = disksize ?s
    \<and> procs s' = procs ?s \<and> this_proc s' = this_proc ?s"
    by (rule Cons.IH) (use lru_push [OF Cons.prems(1-3) n] Cons.prems n in simp_all)
  moreover have "this_proc ?s = this_proc s" by (simp add: this_proc_def split: option.split)
  ultimately show ?case by (auto simp: binit_one_eq [of n s])
qed simp

lemma binit_ring:
  "\<exists>s'. binit s = Ok () s' \<and> lru_list (bufs s') (rev [0..<NBUF]) \<and> (\<forall>i < NBUF. \<not> slocked (slocks s' (BufSleep i)))
    \<and> (\<forall>i. unlinked (bufs s' i) = unlinked (bufs s i)) \<and> memdisk s' = memdisk s \<and> disksize s' = disksize s
    \<and> procs s' = procs s \<and> this_proc s' = this_proc s"
proof -
  let ?s = "s\<lparr>locks := (locks s)(BcacheLock := \<lparr>locked = False, lcpu = None\<rparr>),
    bufs := (bufs s)(HEAD := (bufs s HEAD)\<lparr>b_prev := HEAD, b_next := HEAD\<rparr>)\<rparr>"
  have "\<exists>s'. for_each binit_one [0..<NBUF] ?s = Ok () s'
    \<and> chain (\<lambda>i. b_next (bufs s' i)) HEAD (rev [0..<NBUF] @ []) HEAD
    \<and> chain (\<lambda>i. b_prev (bufs s' i)) HEAD (rev (rev [0..<NBUF] @ [])) HEAD
    \<and> (\<forall>i \<in> set [0..<NBUF]. \<not> slocked (slocks s' (BufSleep i)))
    \<and> (\<forall>i. \<not> slocked (slocks ?s (BufSleep i)) \<longrightarrow> \<not> slocked (slocks s' (BufSleep i)))
    \<and> (\<forall>i. unlinked (bufs s' i) = unlinked (bufs ?s i)) \<and> memdisk s' = memdisk ?s \<and> disksize s' = disksize ?s
    \<and> procs s' = procs ?s \<and> this_proc s' = this_proc ?s"
    by (rule binit_loop) auto
  moreover have "this_proc ?s = this_proc s" by (simp add: this_proc_def split: option.split)
  ultimately show ?thesis
    by (auto simp: binit_def initlock_def upd_lock_def upd_buf_def lru_list_def)
qed

text \<open>binit links all NBUF buffers into one ring through next and prev, each buffer once and unlocked:
  following either link from the head reaches every buffer and returns to the head.\<close>

lemma binit_builds_ring:
  "\<exists>s'. binit s = Ok () s' \<and> lru_list (bufs s') (rev [0..<NBUF]) \<and> heldb s' = {}"
  using binit_ring [of s] by (auto simp: heldb_def)

lemma binit_inv:
  assumes "running s" and "\<forall>i. \<not> b_valid (bufs s i) \<and> \<not> b_dirty (bufs s i) \<and> refcnt (bufs s i) = 0 \<and> dev (bufs s i) = 0"
    and "\<forall>k < disksize s. length (memdisk s k) = BSIZE"
  shows "\<exists>s'. binit s = Ok () s' \<and> cache_inv s' \<and> view s' = memdisk s \<and> heldb s' = {} \<and> dirtyb s' = {}
    \<and> disksize s' = disksize s \<and> memdisk s' = memdisk s
    \<and> (\<forall>i < NBUF. \<not> b_dirty (bufs s' i))"
proof -
  from binit_ring [of s] obtain s' where
    s': "binit s = Ok () s'" "lru_list (bufs s') (rev [0..<NBUF])" "\<forall>i < NBUF. \<not> slocked (slocks s' (BufSleep i))"
      "\<forall>i. unlinked (bufs s' i) = unlinked (bufs s i)" "memdisk s' = memdisk s" "disksize s' = disksize s"
      "procs s' = procs s" "this_proc s' = this_proc s" by auto
  have f: "\<not> b_valid (bufs s' i) \<and> \<not> b_dirty (bufs s' i) \<and> refcnt (bufs s' i) = 0 \<and> dev (bufs s' i) = 0" for i
    using unlinkedD [of "bufs s' i" "bufs s i"] s'(4) assms(2) by simp
  have "cache_inv s'"
    using s' f assms by (auto simp: cache_inv_def buf_ok_def one_copy_def running_def)
  moreover have "view s' k = memdisk s k" for k
    using view_uncached [of k s'] f s'(5) by (simp add: has_block_def)
  then have "view s' = memdisk s" by (rule ext)
  ultimately show ?thesis using s' f by (auto simp: heldb_def dirtyb_def)
qed

text \<open>C2. The buffer cache is coherent.  Reading a block that the caller does not hold already either fails
  because every buffer is held or dirty, or returns a buffer with the block's latest content;
  writing it through and releasing it leaves every block's content as it was, makes the disk
  agree on this block and on no other changed one, and moves the buffer to the front of the
  recency list.\<close>

theorem bcache_coherent:
  assumes "cache_inv s" and "k < disksize s" and "\<forall>i \<in> heldb s. blockno (bufs s i) \<noteq> k"
  shows "(bread 1 k s = Panic ''bget: no buffers'' \<and> NBUF \<le> card (heldb s \<union> {i. i < NBUF \<and> b_dirty (bufs s i)})) \<or>
    (\<exists>b s1 s2. bread 1 k s = Ok b s1 \<and> data (bufs s1 b) = view s k \<and> b \<notin> heldb s
       \<and> bnd (bwrite b) (\<lambda>_. brelse b) s1 = Ok () s2 \<and> cache_inv s2 \<and> view s2 = view s \<and> heldb s2 = heldb s
       \<and> memdisk s2 = (memdisk s)(k := view s k) \<and> b_next (bufs s2 HEAD) = b)"
  using bread_spec [OF assms]
proof (elim disjE exE conjE)
  fix b s1 assume s1: "bread 1 k s = Ok b s1" "bstep b s s1" "view s1 = view s" "memdisk s1 = memdisk s"
    "b \<notin> heldb s" "heldb s1 = insert b (heldb s)" "blockno (bufs s1 b) = k" "data (bufs s1 b) = view s k"
  have i1: "cache_inv s1" and b1: "b \<in> heldb s1" using s1 by (auto simp: bstep_def)
  from bwrite_spec [OF i1 b1] s1(7) obtain t where t: "bwrite b s1 = Ok () t" "cache_inv t" "view t = view s1"
    "heldb t = heldb s1" "memdisk t = (memdisk s1)(k := view s1 k)" "settled t b" by (auto simp: bstep_def)
  have bt: "b \<in> heldb t" using b1 t(4) by simp
  from brelse_spec [OF t(2) bt t(6)] obtain u where u: "brelse b t = Ok () u" "cache_inv u" "view u = view t"
    "heldb u = heldb t - {b}" "memdisk u = memdisk t" by (auto simp: bstep_def)
  have "u = relsd b t" using u(1) brelse_eq [OF t(2) bt] by simp
  then have "b_next (bufs u HEAD) = b" by (simp add: relsd_def push_buf_def Let_def)
  with s1 t u show ?thesis by auto
qed blast

definition boot_bio :: "(nat \<Rightarrow> byte list) \<Rightarrow> bio_st" where
  "boot_bio img = \<lparr>mem = (\<lambda>_. 0), freelist = 0, use_lock = True, kend = 0, kpgdir = 0, cr3 = 0, sym_data = 0,
     cpus = (\<lambda>i. \<lparr>apicid = i, ts = \<lparr>esp0 = 0, ss0 = 0, iomb = 0\<rparr>, ncli = 0, intena = False, cproc = Some 0\<rparr>),
     ncpu = 1, lapicid = 0, hw_if = (\<lambda>_. True), locks = (\<lambda>_. \<lparr>locked = False, lcpu = None\<rparr>),
     procs = (\<lambda>i. \<lparr>psz = 4096, pgdir = 0, kstack = 0, pstate = RUNNING, pid = int i + 1, parent = None, tf = 0,
        pcontext = 0, pchan = None, killed = False, ofile = (\<lambda>_. None), cwd = None, pname = []\<rparr>),
     nextpid = 2, initproc = Some 0, forkret_addr = 0, trapret_addr = 0,
     slocks = (\<lambda>_. \<lparr>slocked = False, spid = 0\<rparr>),
     bufs = (\<lambda>_. \<lparr>b_valid = False, b_dirty = False, dev = 0, blockno = 0, refcnt = 0, b_prev = 0, b_next = 0,
        qnext = None, data = []\<rparr>),
     memdisk = img, disksize = 1000, writes = []\<rparr>"

lemma boot_bio_running: "running (boot_bio img)"
  by (simp add: running_def this_proc_def boot_bio_def)

theorem bcache_coherent_witness:
  "\<exists>s b s1. cache_inv (s :: bio_st) \<and> bread 1 7 s = Ok b s1 \<and> data (bufs s1 b) = replicate 512 9"
proof -
  have "\<exists>s. cache_inv (s :: bio_st) \<and> view s = (\<lambda>_. replicate 512 9) \<and> heldb s = {} \<and> disksize s = 1000
      \<and> (\<forall>i < NBUF. \<not> b_dirty (bufs s i)) \<and> memdisk s = (\<lambda>_. replicate 512 9)"
    using binit_inv [OF boot_bio_running, of "\<lambda>_. replicate 512 9"] by (auto simp: boot_bio_def BSIZE_def)
  then obtain s where s: "cache_inv (s :: bio_st)" "view s = (\<lambda>_. replicate 512 9)" "heldb s = {}" "disksize s = 1000"
    "\<forall>i < NBUF. \<not> b_dirty (bufs s i)" by auto
  have "heldb s \<union> {i. i < NBUF \<and> b_dirty (bufs s i)} = {}" using s by auto
  then have "\<not> NBUF \<le> card (heldb s \<union> {i. i < NBUF \<and> b_dirty (bufs s i)})"
    by (simp only: card.empty) (simp add: NBUF_def)
  with bcache_coherent [OF s(1), of 7] s obtain b s1 where "bread 1 7 s = Ok b s1" "data (bufs s1 b) = view s 7" by auto
  with s(1,2) show ?thesis by auto
qed

end
