(* ===== verification/Log.thy ===== *)
theory Log
  imports Bio
begin

text \<open>
  The redo log, \<open>src/lab10xv6/xv6/log.c\<close>, with \<open>readsb\<close> of \<open>fs.c\<close> and the superblock of \<open>fs.h\<close>.

  The in-memory header \<open>log.lh\<close> is \<open>lh_n\<close> and \<open>lh_block\<close> (the array of \<open>LOGSIZE\<close> block numbers); on
  disk it is the block \<open>log.start\<close>, words little-endian.  Indexing the array out of bounds is a
  fault.  \<open>begin_op\<close> is \<open>Block\<close> where it sleeps; the section on concurrent transactions runs several
  operations against the admission test.

  The crash theorem compares, for every prefix of the disk writes that \<open>commit\<close> makes, the disk
  after recovery with the disks before and after the transaction.
\<close>

section \<open>Little-endian words in blocks\<close>

definition get32 :: "byte list \<Rightarrow> nat \<Rightarrow> nat" where
  "get32 bs k = unat (bs ! k) + 2 ^ 8 * unat (bs ! (k + 1))
     + 2 ^ 16 * unat (bs ! (k + 2)) + 2 ^ 24 * unat (bs ! (k + 3))"

definition enc32 :: "nat \<Rightarrow> byte list" where
  "enc32 v = [of_nat v, of_nat (v div 2 ^ 8), of_nat (v div 2 ^ 16), of_nat (v div 2 ^ 24)]"

definition put32 :: "byte list \<Rightarrow> nat \<Rightarrow> nat \<Rightarrow> byte list" where
  "put32 bs k v = bput bs k (enc32 v)"

definition s32 :: "nat \<Rightarrow> int" where
  "s32 n = (if n < 2 ^ 31 then int n else int n - 2 ^ 32)"

definition u32 :: "int \<Rightarrow> nat" where
  "u32 i = nat (i mod 2 ^ 32)"

section \<open>State\<close>

definition MAXOPBLOCKS :: nat where "MAXOPBLOCKS = 10"
definition LOGSIZE :: nat where "LOGSIZE = MAXOPBLOCKS * 3"

record superblock =
  sb_size :: nat
  nblocks :: nat
  ninodes :: nat
  nlog :: nat
  logstart :: nat
  inodestart :: nat
  bmapstart :: nat

record log_st = bio_st +
  lg_start :: nat
  lg_size :: int
  outstanding :: int
  committing :: bool
  lg_dev :: nat
  lh_n :: int
  lh_block :: "nat list"

definition readsb :: "nat \<Rightarrow> ('z bio_st_scheme, superblock) kern" where
  "readsb d =
     bnd (bread d 1) (\<lambda>bp.
     bnd (getk (\<lambda>s. data (bufs s bp))) (\<lambda>bs.
     bnd (brelse bp) (\<lambda>_.
     ret \<lparr>sb_size = get32 bs 0, nblocks = get32 bs 4, ninodes = get32 bs 8, nlog = get32 bs 12,
          logstart = get32 bs 16, inodestart = get32 bs 20, bmapstart = get32 bs 24\<rparr>)))"

section \<open>Installing and recovering\<close>

definition install_one :: "nat \<Rightarrow> ('z log_st_scheme, unit) kern" where
  "install_one tail =
     bnd (getk id) (\<lambda>s0.
     if tail \<ge> length (lh_block s0) then panic ''fault: log.lh.block''
     else bnd (bread (lg_dev s0) (lg_start s0 + tail + 1)) (\<lambda>lbuf.
          bnd (bread (lg_dev s0) (lh_block s0 ! tail)) (\<lambda>dbuf.
          bnd (getk (\<lambda>s. data (bufs s lbuf))) (\<lambda>src.
          bnd (bset dbuf (\<lambda>_. src)) (\<lambda>_.
          bnd (bwrite dbuf) (\<lambda>_.
          bnd (brelse lbuf) (\<lambda>_.
          brelse dbuf)))))))"

definition install_trans :: "('z log_st_scheme, unit) kern" where
  "install_trans = bnd (getk lh_n) (\<lambda>n. for_each install_one [0..<nat n])"

definition read_entry :: "byte list \<Rightarrow> nat \<Rightarrow> ('z log_st_scheme, unit) kern" where
  "read_entry bs i =
     bnd (getk lh_block) (\<lambda>bl.
     if i \<ge> length bl then panic ''fault: log.lh.block''
     else modk (\<lambda>s. s\<lparr>lh_block := bl[i := get32 bs (4 + 4 * i)]\<rparr>))"

definition read_head :: "('z log_st_scheme, unit) kern" where
  "read_head =
     bnd (getk id) (\<lambda>s0.
     bnd (bread (lg_dev s0) (lg_start s0)) (\<lambda>b.
     bnd (getk (\<lambda>s. data (bufs s b))) (\<lambda>bs.
     bnd (modk (\<lambda>s. s\<lparr>lh_n := s32 (get32 bs 0)\<rparr>)) (\<lambda>_.
     bnd (getk lh_n) (\<lambda>n.
     bnd (for_each (read_entry bs) [0..<nat n]) (\<lambda>_.
     brelse b))))))"

text \<open>The header block that \<open>write_head\<close> builds in the buffer.\<close>

fun put_blocks :: "byte list \<Rightarrow> nat \<Rightarrow> nat list \<Rightarrow> byte list" where
  "put_blocks bs i [] = bs"
| "put_blocks bs i (x # xs) = put_blocks (put32 bs (4 + 4 * i) x) (i + 1) xs"

definition put_head :: "int \<Rightarrow> nat list \<Rightarrow> byte list \<Rightarrow> byte list" where
  "put_head n bl bs = put_blocks (put32 bs 0 (u32 n)) 0 (take (nat n) bl)"

definition write_head :: "('z log_st_scheme, unit) kern" where
  "write_head =
     bnd (getk id) (\<lambda>s0.
     bnd (bread (lg_dev s0) (lg_start s0)) (\<lambda>b.
     if lh_n s0 > int (length (lh_block s0)) then panic ''fault: log.lh.block''
     else bnd (bset b (put_head (lh_n s0) (lh_block s0))) (\<lambda>_.
          bnd (bwrite b) (\<lambda>_.
          brelse b))))"

definition recover_from_log :: "('z log_st_scheme, unit) kern" where
  "recover_from_log =
     bnd read_head (\<lambda>_.
     bnd install_trans (\<lambda>_.
     bnd (modk (\<lambda>s. s\<lparr>lh_n := 0\<rparr>)) (\<lambda>_.
     write_head)))"

definition initlog :: "nat \<Rightarrow> ('z log_st_scheme, unit) kern" where
  "initlog d =
     (if 4 + 4 * LOGSIZE \<ge> BSIZE then panic ''initlog: too big logheader''
      else bnd (initlock LogLock) (\<lambda>_.
           bnd (readsb d) (\<lambda>sb.
           bnd (modk (\<lambda>s. s\<lparr>lg_start := logstart sb, lg_size := s32 (nlog sb), lg_dev := d\<rparr>)) (\<lambda>_.
           recover_from_log))))"

section \<open>Transactions\<close>

definition begin_op :: "('z log_st_scheme, unit) kern" where
  "begin_op =
     bnd (getk id) (\<lambda>s.
     if committing s then (\<lambda>_. Block ''log'')
     else if lh_n s + (outstanding s + 1) * int MAXOPBLOCKS > int LOGSIZE then (\<lambda>_. Block ''log'')
     else modk (\<lambda>s. s\<lparr>outstanding := outstanding s + 1\<rparr>))"

definition write_log_one :: "nat \<Rightarrow> ('z log_st_scheme, unit) kern" where
  "write_log_one tail =
     bnd (getk id) (\<lambda>s0.
     if tail \<ge> length (lh_block s0) then panic ''fault: log.lh.block''
     else bnd (bread (lg_dev s0) (lg_start s0 + tail + 1)) (\<lambda>to.
          bnd (bread (lg_dev s0) (lh_block s0 ! tail)) (\<lambda>from.
          bnd (getk (\<lambda>s. data (bufs s from))) (\<lambda>src.
          bnd (bset to (\<lambda>_. src)) (\<lambda>_.
          bnd (bwrite to) (\<lambda>_.
          bnd (brelse from) (\<lambda>_.
          brelse to)))))))"

definition write_log :: "('z log_st_scheme, unit) kern" where
  "write_log = bnd (getk lh_n) (\<lambda>n. for_each write_log_one [0..<nat n])"

definition commit :: "('z log_st_scheme, unit) kern" where
  "commit =
     bnd (getk lh_n) (\<lambda>n.
     if n > 0
     then bnd write_log (\<lambda>_.
          bnd write_head (\<lambda>_.
          bnd install_trans (\<lambda>_.
          bnd (modk (\<lambda>s. s\<lparr>lh_n := 0\<rparr>)) (\<lambda>_.
          write_head))))
     else ret ())"

definition end_op :: "('z log_st_scheme, unit) kern" where
  "end_op =
     bnd (modk (\<lambda>s. s\<lparr>outstanding := outstanding s - 1\<rparr>)) (\<lambda>_.
     bnd (getk id) (\<lambda>s.
     if committing s then panic ''log.committing''
     else if outstanding s = 0
     then bnd (modk (\<lambda>s. s\<lparr>committing := True\<rparr>)) (\<lambda>_.
          bnd commit (\<lambda>_.
          bnd (modk (\<lambda>s. s\<lparr>committing := False\<rparr>)) (\<lambda>_.
          wakeup1 LogChan)))
     else wakeup1 LogChan))"

text \<open>The absorption loop: the index of the block in the header, or \<open>n\<close>.\<close>

fun absorb :: "nat list \<Rightarrow> nat \<Rightarrow> nat \<Rightarrow> nat" where
  "absorb [] k i = i"
| "absorb (x # xs) k i = (if x = k then i else absorb xs k (i + 1))"

definition log_write :: "nat \<Rightarrow> ('z log_st_scheme, unit) kern" where
  "log_write b =
     bnd (getk id) (\<lambda>s.
     if lh_n s \<ge> int LOGSIZE \<or> lh_n s \<ge> lg_size s - 1 then panic ''too big a transaction''
     else if outstanding s < 1 then panic ''log_write outside of trans''
     else let k = blockno (bufs s b);
              i = absorb (take (nat (lh_n s)) (lh_block s)) k 0
          in bnd (modk (\<lambda>s. s\<lparr>lh_block := (lh_block s)[i := k],
                   lh_n := (if int i = lh_n s then lh_n s + 1 else lh_n s)\<rparr>)) (\<lambda>_.
             upd_buf b (\<lambda>x. x\<lparr>b_dirty := True\<rparr>)))"

section \<open>Words in blocks: round trips\<close>

lemma length_enc32 [simp]: "length (enc32 v) = 4"
  by (simp add: enc32_def)

lemma length_put32 [simp]: "k + 4 \<le> length bs \<Longrightarrow> length (put32 bs k v) = length bs"
  by (simp add: put32_def)

lemma get32_enc32: "v < 2 ^ 32 \<Longrightarrow> get32 (enc32 v) 0 = v"
proof -
  assume v: "v < 2 ^ 32"
  define a b c where "a = v div 256" and "b = a div 256" and "c = b div 256"
  have "v div 2 ^ 16 = b" "v div 2 ^ 24 = c" "v div 2 ^ 8 = a"
    by (simp_all add: a_def b_def c_def div_mult2_eq [symmetric])
  moreover have "c < 256" using v by (simp add: a_def b_def c_def div_mult2_eq [symmetric] less_mult_imp_div_less)
  moreover have "v = 256 * a + v mod 256" "a = 256 * b + a mod 256" "b = 256 * c + b mod 256"
    by (simp_all add: a_def b_def c_def)
  ultimately show ?thesis by (simp add: get32_def enc32_def unat_of_nat)
qed

lemma get32_put32:
  assumes "k + 4 \<le> length bs" and "v < 2 ^ 32"
  shows "get32 (put32 bs k v) k = v"
proof -
  have "put32 bs k v ! (k + i) = enc32 v ! i" if "i < 4" for i
    using that assms(1) by (simp add: put32_def nth_bput)
  from this [of 0] this [of 1] this [of 2] this [of 3] get32_enc32 [OF assms(2)]
  show ?thesis by (simp add: get32_def numeral_2_eq_2)
qed

lemma get32_put32_other:
  assumes "k + 4 \<le> length bs" and "j + 4 \<le> length bs" and "j + 4 \<le> k \<or> k + 4 \<le> j"
  shows "get32 (put32 bs k v) j = get32 bs j"
proof -
  have "put32 bs k v ! (j + i) = bs ! (j + i)" if "i < 4" for i
    using that assms by (auto simp: put32_def nth_bput)
  from this [of 0] this [of 1] this [of 2] this [of 3] show ?thesis by (simp add: get32_def)
qed

lemma length_put_blocks [simp]:
  "4 + 4 * (i + length xs) \<le> length bs \<Longrightarrow> length (put_blocks bs i xs) = length bs"
  by (induction xs arbitrary: bs i) simp_all

lemma get32_put_blocks_below:
  assumes "4 + 4 * (i + length xs) \<le> length bs" and "j + 4 \<le> 4 + 4 * i"
  shows "get32 (put_blocks bs i xs) j = get32 bs j"
  using assms by (induction xs arbitrary: bs i) (simp_all add: get32_put32_other)

lemma get32_put_blocks:
  assumes "4 + 4 * (i + length xs) \<le> length bs" and "\<forall>x \<in> set xs. x < 2 ^ 32" and "m < length xs"
  shows "get32 (put_blocks bs i xs) (4 + 4 * (i + m)) = xs ! m"
  using assms
proof (induction xs arbitrary: bs i m)
  case (Cons x xs)
  show ?case
  proof (cases m)
    case 0
    with Cons.prems show ?thesis by (simp add: get32_put_blocks_below get32_put32)
  next
    case (Suc k)
    with Cons.prems Cons.IH [of "i + 1" "put32 bs (4 + 4 * i) x" k] show ?thesis by simp
  qed
qed simp

lemma put_head_get:
  assumes "length bs = BSIZE" and "n \<le> length bl" and "n \<le> LOGSIZE" and "\<forall>x \<in> set (take n bl). x < 2 ^ 32"
  shows "length (put_head (int n) bl bs) = BSIZE" and "get32 (put_head (int n) bl bs) 0 = n"
    and "i < n \<Longrightarrow> get32 (put_head (int n) bl bs) (4 + 4 * i) = bl ! i"
proof -
  have l: "4 + 4 * (0 + length (take n bl)) \<le> length (put32 bs 0 (u32 (int n)))"
    using assms by (simp add: BSIZE_def LOGSIZE_def MAXOPBLOCKS_def)
  have n: "u32 (int n) = n" "n < 2 ^ 32" using assms(3) by (simp_all add: u32_def LOGSIZE_def MAXOPBLOCKS_def nat_mod_distrib)
  show "length (put_head (int n) bl bs) = BSIZE" using l assms(1) by (simp add: put_head_def BSIZE_def)
  show "get32 (put_head (int n) bl bs) 0 = n"
    using l assms(1) n by (simp add: put_head_def get32_put_blocks_below get32_put32 BSIZE_def)
  show "i < n \<Longrightarrow> get32 (put_head (int n) bl bs) (4 + 4 * i) = bl ! i"
    using get32_put_blocks [OF l assms(4), of i] assms(2) by (simp add: put_head_def)
qed

section \<open>Copying one block\<close>

lemma bio_frame_log:
  assumes "bio_frame s s'"
  shows "lg_start s' = lg_start s" "lg_size s' = lg_size s" "outstanding s' = outstanding s"
    "committing s' = committing s" "lg_dev s' = lg_dev s" "lh_n s' = lh_n s" "lh_block s' = lh_block s"
  by (subst bio_frame_eq [OF assms], simp)+

lemma bstepD:
  assumes "bstep b s s'"
  shows "cache_inv s'" and "bio_frame s s'"
  using assms by (simp_all add: bstep_def)

lemma bstep_other: "bstep b s s' \<Longrightarrow> i \<in> heldb s \<Longrightarrow> i \<noteq> b \<Longrightarrow> unlinked (bufs s' i) = unlinked (bufs s i)"
  by (simp add: bstep_def)

definition copy_tail :: "nat \<Rightarrow> nat \<Rightarrow> ('z bio_st_scheme, unit) kern" where
  "copy_tail l x =
     bnd (getk (\<lambda>s. data (bufs s l))) (\<lambda>src.
     bnd (bset x (\<lambda>_. src)) (\<lambda>_.
     bnd (bwrite x) (\<lambda>_.
     bnd (brelse l) (\<lambda>_. brelse x))))"

text \<open>The effect of copying block \<open>a\<close> to block \<open>d\<close>, through to the disk.\<close>

definition copied :: "nat \<Rightarrow> nat \<Rightarrow> 'z bio_st_scheme \<Rightarrow> 'z bio_st_scheme \<Rightarrow> bool" where
  "copied a d s s' \<longleftrightarrow> cache_inv s' \<and> bio_frame s s' \<and> heldb s' = {} \<and> dirtyb s' = dirtyb s - {d}
     \<and> view s' = (view s)(d := view s a) \<and> memdisk s' = (memdisk s)(d := view s a)
     \<and> writes s' = writes s @ [(d, view s a)]"

lemma copy_tail_spec:
  assumes inv: "cache_inv t" and held: "heldb t = {l, x}" and ne: "l \<noteq> x"
    and bl: "blockno (bufs t l) = a" "blockno (bufs t x) = d" and set: "settled t l"
  shows "\<exists>s'. copy_tail l x t = Ok () s' \<and> copied a d t s'"
proof -
  have hl: "l \<in> heldb t" and hx: "x \<in> heldb t" using held by auto
  note L = cache_held [OF inv hl]
  have ad: "a \<noteq> d" using cache_held_inj [OF inv hl hx] ne bl by auto
  from bset_spec [OF inv hx, of "\<lambda>_. data (bufs t l)"] L(8) obtain u where
    u: "bset x (\<lambda>_. data (bufs t l)) t = Ok () u" "bstep x t u" "heldb u = heldb t" "dirtyb u = dirtyb t"
      "view u = (view t)(d := view t a)" "memdisk u = memdisk t" "writes u = writes t"
      "bufs u x = (bufs t x)\<lparr>data := data (bufs t l)\<rparr>"
    using L(9) bl by auto
  have iu: "cache_inv u" "x \<in> heldb u" and ul: "unlinked (bufs u l) = unlinked (bufs t l)"
    using u hx bstep_other [OF u(2) hl ne] by (auto simp: bstep_def)
  from bwrite_spec [OF iu, of d] u(8) bl obtain v where
    v: "bwrite x u = Ok () v" "bstep x u v" "heldb v = heldb u" "dirtyb v = dirtyb u - {d}" "view v = view u"
      "memdisk v = (memdisk u)(d := view u d)" "writes v = writes u @ [(d, view u d)]" "settled v x"
      "bufs v x = (bufs u x)\<lparr>b_dirty := False\<rparr>" by auto
  have iv: "cache_inv v" "l \<in> heldb v" and vl: "unlinked (bufs v l) = unlinked (bufs t l)"
    using v u(3) hl bstep_other [OF v(2) _ ne] ul by (auto simp: bstep_def)
  have "settled v l"
    using set unlinkedD [OF vl] bl(1) ad by (auto simp: settled_def v(6) u(6))
  from brelse_spec [OF iv this] obtain w where
    w: "brelse l v = Ok () w" "bstep l v w" "heldb w = heldb v - {l}" "dirtyb w = dirtyb v" "view w = view v"
      "memdisk w = memdisk v" "writes w = writes v" by auto
  have iw: "cache_inv w" "x \<in> heldb w" and wx: "unlinked (bufs w x) = unlinked (bufs v x)"
    using w v(3) u(3) hx ne bstep_other [OF w(2), of x] by (auto simp: bstep_def)
  have "settled w x" using v(8) unlinkedD [OF wx] by (simp add: settled_def w(6))
  from brelse_spec [OF iw this] obtain z where
    z: "brelse x w = Ok () z" "bstep x w z" "heldb z = heldb w - {x}" "dirtyb z = dirtyb w" "view z = view w"
      "memdisk z = memdisk w" "writes z = writes w" by auto
  have fr: "bio_frame t z"
    using bio_frame_trans [OF bio_frame_trans [OF bio_frame_trans]]
      bstepD(2) [OF u(2)] bstepD(2) [OF v(2)] bstepD(2) [OF w(2)] bstepD(2) [OF z(2)] by blast
  have run: "copy_tail l x t = Ok () z" using u(1) v(1) w(1) z(1) by (simp add: copy_tail_def)
  have "heldb z = {}" using z(3) w(3) v(3) u(3) held by auto
  moreover have va: "view u d = view t a" by (simp add: u(5))
  moreover have "cache_inv z" by (rule bstepD(1) [OF z(2)])
  ultimately have "copied a d t z"
    unfolding copied_def z(4-7) w(4-7) v(4-7) u(4,6,7) va using fr u(5) by blast
  with run show ?thesis by blast
qed

lemma frames_trans: "bio_frame s t \<Longrightarrow> copied a d t u \<Longrightarrow> view t = view s \<Longrightarrow> memdisk t = memdisk s \<Longrightarrow>
   dirtyb t = dirtyb s \<Longrightarrow> writes t = writes s \<Longrightarrow> copied a d s u"
  by (auto simp: copied_def intro: bio_frame_trans)

lemma install_copy:
  assumes inv: "cache_inv s" and h: "heldb s = {}" and ad: "a \<noteq> d" "a < disksize s" "d < disksize s"
    and room: "card (dirtyb s) < NBUF" "d \<in> dirtyb s \<or> dirtyb s = {}"
  shows "\<exists>s'. bnd (bread 1 a) (\<lambda>l. bnd (bread 1 d) (copy_tail l)) s = Ok () s' \<and> copied a d s s'"
proof -
  from bread_ok [OF inv ad(2)] h room obtain l t where
    t: "bread 1 a s = Ok l t" "bstep l s t" "view t = view s" "dirtyb t = dirtyb s" "memdisk t = memdisk s"
      "writes t = writes s" "heldb t = {l}" "blockno (bufs t l) = a" "settled t l" by auto
  have i: "cache_inv t" "d < disksize t" "\<forall>i \<in> heldb t. blockno (bufs t i) \<noteq> d"
    using t ad bio_frame_simps(1) [OF bstepD(2) [OF t(2)]] by (simp_all add: bstepD(1) [OF t(2)])
  have "d \<in> dirtyb t \<or> card (heldb t) + card (dirtyb t) < NBUF" using room(2) t by (auto simp: NBUF_def)
  from bread_ok [OF i this] t obtain x u where
    u: "bread 1 d t = Ok x u" "bstep x t u" "view u = view s" "dirtyb u = dirtyb s" "memdisk u = memdisk s"
      "writes u = writes s" "heldb u = {l, x}" "x \<noteq> l" "blockno (bufs u x) = d"
    by (auto simp: insert_commute)
  have ul: "unlinked (bufs u l) = unlinked (bufs t l)" using bstep_other [OF u(2)] t(7) u(8) by simp
  have "blockno (bufs u l) = a" "settled u l"
    using unlinkedD [OF ul] t(5,8,9) u(5) by (simp_all add: settled_def)
  from copy_tail_spec [OF bstepD(1) [OF u(2)] u(7) _ this(1) u(9) this(2)] u(8) obtain v where
    v: "copy_tail l x u = Ok () v" "copied a d u v" by auto
  have "copied a d s v"
    by (rule frames_trans [OF bio_frame_trans [OF bstepD(2) [OF t(2)] bstepD(2) [OF u(2)]] v(2) u(3,5,4,6)])
  with t(1) u(1) v(1) show ?thesis by auto
qed

lemma write_copy:
  assumes inv: "cache_inv s" and h: "heldb s = {}" and ad: "a \<noteq> d" "a < disksize s" "d < disksize s"
    and room: "card (dirtyb s) < NBUF" "a \<in> dirtyb s"
  shows "\<exists>s'. bnd (bread 1 d) (\<lambda>x. bnd (bread 1 a) (\<lambda>l. copy_tail l x)) s = Ok () s' \<and> copied a d s s'"
proof -
  from bread_ok [OF inv ad(3)] h room obtain x t where
    t: "bread 1 d s = Ok x t" "bstep x s t" "view t = view s" "dirtyb t = dirtyb s" "memdisk t = memdisk s"
      "writes t = writes s" "heldb t = {x}" "blockno (bufs t x) = d" by auto
  have i: "cache_inv t" "a < disksize t" "\<forall>i \<in> heldb t. blockno (bufs t i) \<noteq> a"
    using t ad bio_frame_simps(1) [OF bstepD(2) [OF t(2)]] by (simp_all add: bstepD(1) [OF t(2)])
  from bread_ok [OF i] t room(2) obtain l u where
    u: "bread 1 a t = Ok l u" "bstep l t u" "view u = view s" "dirtyb u = dirtyb s" "memdisk u = memdisk s"
      "writes u = writes s" "heldb u = {l, x}" "l \<noteq> x" "blockno (bufs u l) = a" "settled u l" by auto
  have ux: "unlinked (bufs u x) = unlinked (bufs t x)" using bstep_other [OF u(2)] t(7) u(8) by simp
  have "blockno (bufs u x) = d" using unlinkedD [OF ux] t(8) by simp
  from copy_tail_spec [OF bstepD(1) [OF u(2)] u(7) u(8) u(9) this u(10)] obtain v where
    v: "copy_tail l x u = Ok () v" "copied a d u v" by auto
  have "copied a d s v"
    by (rule frames_trans [OF bio_frame_trans [OF bstepD(2) [OF t(2)] bstepD(2) [OF u(2)]] v(2) u(3,5,4,6)])
  with t(1) u(1) v(1) show ?thesis by auto
qed

section \<open>Sequences of disk writes\<close>

fun apply_writes :: "(nat \<Rightarrow> 'a) \<Rightarrow> (nat \<times> 'a) list \<Rightarrow> nat \<Rightarrow> 'a" where
  "apply_writes D [] = D"
| "apply_writes D ((k, d) # ws) = apply_writes (D(k := d)) ws"

lemma apply_writes_append: "apply_writes D (ws @ ws') = apply_writes (apply_writes D ws) ws'"
  by (induction ws arbitrary: D) auto

lemma apply_writes_other: "k \<notin> fst ` set ws \<Longrightarrow> apply_writes D ws k = D k"
  by (induction ws arbitrary: D) auto

lemma apply_writes_distinct:
  "distinct (map fst ws) \<Longrightarrow> (k, d) \<in> set ws \<Longrightarrow> apply_writes D ws k = d"
proof (induction ws arbitrary: D)
  case (Cons w ws)
  obtain j e where w: "w = (j, e)" by (cases w)
  show ?case
  proof (cases "(k, d) \<in> set ws")
    case True
    with Cons w show ?thesis by simp
  next
    case False
    with Cons.prems w have "j = k" "e = d" "k \<notin> fst ` set ws" by auto
    with w show ?thesis by (simp add: apply_writes_other)
  qed
qed simp

text \<open>A run of writes that keeps the cache in step with the disk.\<close>

definition written :: "'z bio_st_scheme \<Rightarrow> (nat \<times> byte list) list \<Rightarrow> 'z bio_st_scheme \<Rightarrow> bool" where
  "written s ws s' \<longleftrightarrow> cache_inv s' \<and> bio_frame s s' \<and> heldb s' = {} \<and> dirtyb s' = dirtyb s - fst ` set ws
     \<and> view s' = apply_writes (view s) ws \<and> memdisk s' = apply_writes (memdisk s) ws \<and> writes s' = writes s @ ws"

lemma written_copied: "copied a d s s' \<Longrightarrow> written s [(d, view s a)] s'"
  by (simp add: written_def copied_def)

lemma written_trans: "written s ws t \<Longrightarrow> written t ws' u \<Longrightarrow> written s (ws @ ws') u"
  by (auto simp: written_def apply_writes_append intro: bio_frame_trans)

section \<open>The loops of the log\<close>

lemma install_one_eq:
  "lg_dev s = 1 \<Longrightarrow> i < length (lh_block s) \<Longrightarrow> install_one i s =
     bnd (bread 1 (lg_start s + i + 1)) (\<lambda>l. bnd (bread 1 (lh_block s ! i)) (copy_tail l)) s"
  by (simp add: install_one_def copy_tail_def [abs_def])

lemma write_log_one_eq:
  "lg_dev s = 1 \<Longrightarrow> i < length (lh_block s) \<Longrightarrow> write_log_one i s =
     bnd (bread 1 (lg_start s + i + 1)) (\<lambda>x. bnd (bread 1 (lh_block s ! i)) (\<lambda>l. copy_tail l x)) s"
  by (simp add: write_log_one_def copy_tail_def [abs_def])

text \<open>Log positions and home positions of the entries \<open>is\<close> lie on the disk and do not collide.\<close>

definition placed :: "'z log_st_scheme \<Rightarrow> nat list \<Rightarrow> bool" where
  "placed s is \<longleftrightarrow> lg_dev s = 1 \<and> (\<forall>i \<in> set is. i < length (lh_block s) \<and> lh_block s ! i < disksize s
     \<and> lg_start s + i + 1 < disksize s) \<and> (\<forall>i \<in> set is. \<forall>j \<in> set is. lh_block s ! i \<noteq> lg_start s + j + 1)"

lemma placed_frame: "bio_frame s t \<Longrightarrow> placed t is = placed s is"
  by (simp add: placed_def bio_frame_log bio_frame_simps)

lemma placed_Cons: "placed s (i # is) \<Longrightarrow> placed s is"
  by (simp add: placed_def)

lemma install_loop:
  assumes "cache_inv s" and "heldb s = {}" and "placed s is" and "card (dirtyb s) < NBUF"
    and "dirtyb s = {} \<or> distinct (map ((!) (lh_block s)) is) \<and> (\<forall>i \<in> set is. lh_block s ! i \<in> dirtyb s)"
  shows "\<exists>s'. for_each install_one is s = Ok () s'
    \<and> written s (map (\<lambda>i. (lh_block s ! i, view s (lg_start s + i + 1))) is) s'"
  using assms
proof (induction "is" arbitrary: s)
  case Nil
  then show ?case by (simp add: written_def)
next
  case (Cons i js)
  let ?a = "lg_start s + i + 1" and ?d = "lh_block s ! i"
  have p: "lg_dev s = 1" "i < length (lh_block s)" "?a \<noteq> ?d" "?a < disksize s" "?d < disksize s"
    using Cons.prems(3) by (auto simp: placed_def)
  obtain t where t: "install_one i s = Ok () t" "copied ?a ?d s t"
    using install_copy [OF Cons.prems(1,2) p(3-5) Cons.prems(4)] Cons.prems(5) install_one_eq [OF p(1,2)] by auto
  have fr: "bio_frame s t" and vt: "view t = (view s)(?d := view s ?a)" and dt: "dirtyb t = dirtyb s - {?d}"
    using t(2) by (simp_all add: copied_def)
  note f = bio_frame_log [OF fr]
  have "card (dirtyb t) \<le> card (dirtyb s)"
    unfolding dt by (rule card_mono) (auto simp: dirtyb_def)
  then have c: "card (dirtyb t) < NBUF" using Cons.prems(4) by simp
  have "dirtyb t = {} \<or> distinct (map ((!) (lh_block t)) js) \<and> (\<forall>j \<in> set js. lh_block t ! j \<in> dirtyb t)"
    using Cons.prems(5) by (auto simp: f dt image_iff)
  then obtain u where u: "for_each install_one js t = Ok () u"
    "written t (map (\<lambda>i. (lh_block t ! i, view t (lg_start t + i + 1))) js) u"
    using Cons.IH [of t] t(2) placed_frame [OF fr] placed_Cons [OF Cons.prems(3)] c by (auto simp: copied_def)
  have eq: "map (\<lambda>j. (lh_block t ! j, view t (lg_start t + j + 1))) js
      = map (\<lambda>j. (lh_block s ! j, view s (lg_start s + j + 1))) js"
    using Cons.prems(3) by (auto simp: f vt placed_def)
  from written_trans [OF written_copied [OF t(2)] u(2) [unfolded eq]] u(1) show ?case by (simp add: t(1))
qed

lemma write_loop:
  assumes "cache_inv s" and "heldb s = {}" and "placed s is" and "card (dirtyb s) < NBUF"
    and "\<forall>i \<in> set is. lh_block s ! i \<in> dirtyb s"
  shows "\<exists>s'. for_each write_log_one is s = Ok () s'
    \<and> written s (map (\<lambda>i. (lg_start s + i + 1, view s (lh_block s ! i))) is) s'"
  using assms
proof (induction "is" arbitrary: s)
  case Nil
  then show ?case by (simp add: written_def)
next
  case (Cons i js)
  let ?d = "lg_start s + i + 1" and ?a = "lh_block s ! i"
  have p: "lg_dev s = 1" "i < length (lh_block s)" "?a \<noteq> ?d" "?a < disksize s" "?d < disksize s"
    using Cons.prems(3) by (auto simp: placed_def)
  obtain t where t: "write_log_one i s = Ok () t" "copied ?a ?d s t"
    using write_copy [OF Cons.prems(1,2) p(3-5) Cons.prems(4)] Cons.prems(5) write_log_one_eq [OF p(1,2)] by auto
  have fr: "bio_frame s t" and vt: "view t = (view s)(?d := view s ?a)" and dt: "dirtyb t = dirtyb s - {?d}"
    using t(2) by (simp_all add: copied_def)
  note f = bio_frame_log [OF fr]
  have "card (dirtyb t) \<le> card (dirtyb s)"
    unfolding dt by (rule card_mono) (auto simp: dirtyb_def)
  then have c: "card (dirtyb t) < NBUF" using Cons.prems(4) by simp
  have "\<forall>j \<in> set js. lh_block t ! j \<in> dirtyb t"
    using Cons.prems(3,5) by (auto simp: f dt placed_def)
  then obtain u where u: "for_each write_log_one js t = Ok () u"
    "written t (map (\<lambda>i. (lg_start t + i + 1, view t (lh_block t ! i))) js) u"
    using Cons.IH [of t] t(2) placed_frame [OF fr] placed_Cons [OF Cons.prems(3)] c by (auto simp: copied_def)
  have eq: "map (\<lambda>j. (lg_start t + j + 1, view t (lh_block t ! j))) js
      = map (\<lambda>j. (lg_start s + j + 1, view s (lh_block s ! j))) js"
    using Cons.prems(3) by (auto simp: f vt placed_def)
  from written_trans [OF written_copied [OF t(2)] u(2) [unfolded eq]] u(1) show ?case by (simp add: t(1))
qed

lemma write_head_spec:
  assumes inv: "cache_inv s" and h: "heldb s = {}" and d: "lg_dev s = 1" and st: "lg_start s < disksize s"
    and room: "card (dirtyb s) < NBUF" and n: "lh_n s = int n" "n \<le> length (lh_block s)" "n \<le> LOGSIZE"
    and small: "\<forall>x \<in> set (take n (lh_block s)). x < 2 ^ 32"
  shows "\<exists>s'. write_head s = Ok () s' \<and> written s [(lg_start s, put_head (int n) (lh_block s) (view s (lg_start s)))] s'"
proof -
  let ?k = "lg_start s"
  from bread_ok [OF inv st] h room obtain b t where
    t: "bread 1 ?k s = Ok b t" "bstep b s t" "view t = view s" "dirtyb t = dirtyb s" "memdisk t = memdisk s"
      "writes t = writes s" "heldb t = {b}" "blockno (bufs t b) = ?k" "data (bufs t b) = view s ?k" by auto
  have bt: "b \<in> heldb t" using t(7) by simp
  have "length (put_head (int n) (lh_block s) (data (bufs t b))) = BSIZE"
    using put_head_get(1) [OF _ n(2,3) small] cache_held(8) [OF bstepD(1) [OF t(2)] bt] by blast
  from bset_spec [where f = "put_head (int n) (lh_block s)", OF bstepD(1) [OF t(2)] bt this] t obtain u where
    u: "bset b (put_head (int n) (lh_block s)) t = Ok () u" "bstep b t u" "heldb u = {b}" "dirtyb u = dirtyb s"
      "view u = (view s)(?k := put_head (int n) (lh_block s) (view s ?k))" "memdisk u = memdisk s" "writes u = writes s"
      "blockno (bufs u b) = ?k" by auto
  have bu: "b \<in> heldb u" using u(3) by simp
  from bwrite_spec [OF bstepD(1) [OF u(2)] bu u(8) [symmetric]] obtain v where
    v: "bwrite b u = Ok () v" "bstep b u v" "heldb v = heldb u" "dirtyb v = dirtyb u - {?k}" "view v = view u"
      "memdisk v = (memdisk u)(?k := view u ?k)" "writes v = writes u @ [(?k, view u ?k)]" "settled v b" by auto
  have bv: "b \<in> heldb v" using v(3) bu by simp
  from brelse_spec [OF bstepD(1) [OF v(2)] bv v(8)] obtain w where
    w: "brelse b v = Ok () w" "bstep b v w" "heldb w = heldb v - {b}" "dirtyb w = dirtyb v" "view w = view v"
      "memdisk w = memdisk v" "writes w = writes v" by auto
  have fr: "bio_frame s w"
    using bio_frame_trans [OF bio_frame_trans [OF bio_frame_trans]]
      bstepD(2) [OF t(2)] bstepD(2) [OF u(2)] bstepD(2) [OF v(2)] bstepD(2) [OF w(2)] by blast
  have "write_head s = Ok () w" using t(1) u(1) v(1) w(1) n d by (simp add: write_head_def)
  moreover have "written s [(?k, put_head (int n) (lh_block s) (view s ?k))] w"
    using fr bstepD(1) [OF w(2)] v(3) u(3) unfolding written_def w(3-7) v(4-7) u(4-7) by simp
  ultimately show ?thesis by blast
qed

section \<open>commit\<close>

lemma bio_lh [simp]:
  "cache_inv (s\<lparr>lh_n := x\<rparr>) = cache_inv s" "view (s\<lparr>lh_n := x\<rparr>) = view s"
  "dirtyb (s\<lparr>lh_n := x\<rparr>) = dirtyb s" "heldb (s\<lparr>lh_n := x\<rparr>) = heldb s"
  "cache_inv (s\<lparr>lh_block := y\<rparr>) = cache_inv s" "view (s\<lparr>lh_block := y\<rparr>) = view s"
  "dirtyb (s\<lparr>lh_block := y\<rparr>) = dirtyb s" "heldb (s\<lparr>lh_block := y\<rparr>) = heldb s"
  "cache_inv (s\<lparr>outstanding := x\<rparr>) = cache_inv s" "view (s\<lparr>outstanding := x\<rparr>) = view s"
  "dirtyb (s\<lparr>outstanding := x\<rparr>) = dirtyb s" "heldb (s\<lparr>outstanding := x\<rparr>) = heldb s"
  "cache_inv (s\<lparr>committing := c\<rparr>) = cache_inv s" "view (s\<lparr>committing := c\<rparr>) = view s"
  "dirtyb (s\<lparr>committing := c\<rparr>) = dirtyb s" "heldb (s\<lparr>committing := c\<rparr>) = heldb s"
  "cache_inv (s\<lparr>lg_start := k, lg_size := x, lg_dev := d\<rparr>) = cache_inv s"
  "view (s\<lparr>lg_start := k, lg_size := x, lg_dev := d\<rparr>) = view s"
  "dirtyb (s\<lparr>lg_start := k, lg_size := x, lg_dev := d\<rparr>) = dirtyb s"
  "heldb (s\<lparr>lg_start := k, lg_size := x, lg_dev := d\<rparr>) = heldb s"
  by (simp_all add: cache_inv_def view_def [abs_def] dirtyb_def heldb_def running_def curpid_def this_proc_def
      cong: option.case_cong)

lemma map_nth_take: "n \<le> length xs \<Longrightarrow> map ((!) xs) [0..<n] = take n xs"
  by (rule nth_equalityI) simp_all

text \<open>A transaction ready to commit: the logged blocks are the dirty ones.\<close>

definition trans_ok :: "'z log_st_scheme \<Rightarrow> nat \<Rightarrow> bool" where
  "trans_ok s n \<longleftrightarrow> cache_inv s \<and> heldb s = {} \<and> lh_n s = int n \<and> 0 < n \<and> n < NBUF \<and> n \<le> LOGSIZE
     \<and> n \<le> length (lh_block s) \<and> placed s [0..<n] \<and> distinct (take n (lh_block s))
     \<and> dirtyb s = set (take n (lh_block s)) \<and> lg_start s < disksize s
     \<and> lg_start s \<notin> set (take n (lh_block s)) \<and> (\<forall>x \<in> set (take n (lh_block s)). x < 2 ^ 32)"

definition log_writes :: "'z log_st_scheme \<Rightarrow> nat \<Rightarrow> (nat \<times> byte list) list" where
  "log_writes s n = map (\<lambda>i. (lg_start s + i + 1, view s (lh_block s ! i))) [0..<n]"

definition home_writes :: "'z log_st_scheme \<Rightarrow> nat \<Rightarrow> (nat \<times> byte list) list" where
  "home_writes s n = map (\<lambda>i. (lh_block s ! i, view s (lh_block s ! i))) [0..<n]"

definition head_block :: "'z log_st_scheme \<Rightarrow> nat \<Rightarrow> byte list" where
  "head_block s n = put_head (int n) (lh_block s) (view s (lg_start s))"

definition commit_writes :: "'z log_st_scheme \<Rightarrow> nat \<Rightarrow> (nat \<times> byte list) list" where
  "commit_writes s n = log_writes s n @ [(lg_start s, head_block s n)] @ home_writes s n
     @ [(lg_start s, put_head 0 (lh_block s) (head_block s n))]"

lemma commit_spec:
  assumes ok: "trans_ok s n"
  shows "\<exists>s'. commit s = Ok () s' \<and> cache_inv s' \<and> heldb s' = {} \<and> dirtyb s' = {} \<and> lh_n s' = 0
    \<and> writes s' = writes s @ commit_writes s n \<and> memdisk s' = apply_writes (memdisk s) (commit_writes s n)
    \<and> view s' = apply_writes (view s) (commit_writes s n) \<and> disksize s' = disksize s
    \<and> lg_start s' = lg_start s \<and> lg_dev s' = lg_dev s \<and> lh_block s' = lh_block s"
proof -
  let ?bl = "lh_block s" and ?st = "lg_start s"
  have T: "cache_inv s" "heldb s = {}" "lh_n s = int n" "0 < n" "n < NBUF" "n \<le> LOGSIZE" "n \<le> length ?bl"
    "placed s [0..<n]" "distinct (take n ?bl)" "dirtyb s = set (take n ?bl)" "?st < disksize s"
    "?st \<notin> set (take n ?bl)" "\<forall>x \<in> set (take n ?bl). x < 2 ^ 32"
    using ok by (simp_all add: trans_ok_def)
  have c: "card (dirtyb s) < NBUF" using T(5) card_length [of "take n ?bl"] by (simp add: T(10))
  have nth: "?bl ! i \<in> set (take n ?bl)" if "i < n" for i using that T(7) by (auto simp: in_set_conv_nth)
  have sep: "?bl ! i \<noteq> ?st + j + 1" "?bl ! i \<noteq> ?st" if "i < n" "j < n" for i j
    using that T(8,12) nth [OF that(1)] by (auto simp: placed_def)
  have fst_log: "fst ` set (log_writes s n) = (\<lambda>i. ?st + i + 1) ` {0..<n}" by (force simp: log_writes_def)
  have fst_home: "fst ` set (home_writes s n) = set (take n ?bl)"
    using T(7) by (force simp: home_writes_def nth in_set_conv_nth)
  from write_loop [OF T(1,2,8) c] nth T(10) obtain s1 where
    s1: "for_each write_log_one [0..<n] s = Ok () s1" "written s (log_writes s n) s1" by (auto simp: log_writes_def)
  have f1: "bio_frame s s1" and v1: "view s1 = apply_writes (view s) (log_writes s n)" and i1: "cache_inv s1" "heldb s1 = {}"
    using s1(2) by (simp_all add: written_def)
  have d1: "dirtyb s1 = dirtyb s"
    using s1(2) sep(1) T(10,7) by (auto simp: written_def fst_log in_set_conv_nth)
  note g1 = bio_frame_log [OF f1] bio_frame_simps(1) [OF f1]
  have vst: "view s1 ?st = view s ?st" unfolding v1 by (rule apply_writes_other) (auto simp: fst_log)
  have "\<exists>s2. write_head s1 = Ok () s2 \<and> written s1 [(lg_start s1, put_head (int n) (lh_block s1) (view s1 (lg_start s1)))] s2"
    by (rule write_head_spec [OF i1]) (use T c ok placed_def in \<open>simp_all add: g1 d1, simp add: placed_def\<close>)
  then obtain s2 where s2: "write_head s1 = Ok () s2" "written s1 [(?st, head_block s n)] s2"
    by (auto simp: g1 vst head_block_def)
  have f2: "bio_frame s s2" and i2: "cache_inv s2" "heldb s2 = {}"
    using s2(2) bio_frame_trans [OF f1] by (auto simp: written_def)
  have d2: "dirtyb s2 = set (take n ?bl)" using s2(2) T(12) by (auto simp: written_def d1 T(10))
  note g2 = bio_frame_log [OF f2] bio_frame_simps(1) [OF f2]
  have v2: "view s2 (?st + i + 1) = view s (?bl ! i)" if "i < n" for i
  proof -
    have "view s2 (?st + i + 1) = apply_writes (view s) (log_writes s n) (?st + i + 1)"
      using s2(2) by (simp add: written_def v1)
    also have "\<dots> = view s (?bl ! i)"
      by (rule apply_writes_distinct) (use that in \<open>auto simp: log_writes_def comp_def distinct_map inj_on_def\<close>)
    finally show ?thesis .
  qed
  have "\<exists>s3. for_each install_one [0..<n] s2 = Ok () s3
      \<and> written s2 (map (\<lambda>i. (lh_block s2 ! i, view s2 (lg_start s2 + i + 1))) [0..<n]) s3"
    using i2 T c nth by (intro install_loop) (auto simp: placed_frame [OF f2] g2 d2 T(10) map_nth_take)
  moreover have "map (\<lambda>i. (lh_block s2 ! i, view s2 (lg_start s2 + i + 1))) [0..<n] = home_writes s n"
    using v2 by (simp add: g2 home_writes_def)
  ultimately obtain s3 where s3: "for_each install_one [0..<n] s2 = Ok () s3" "written s2 (home_writes s n) s3" by auto
  have f3: "bio_frame s s3" and d3: "dirtyb s3 = {}" and i3: "cache_inv s3" "heldb s3 = {}"
    using s3(2) bio_frame_trans [OF f2] by (auto simp: written_def d2 fst_home)
  note g3 = bio_frame_log [OF f3] bio_frame_simps(1) [OF f3]
  have W3: "written s (log_writes s n @ [(?st, head_block s n)] @ home_writes s n) s3"
    using written_trans [OF written_trans [OF s1(2) s2(2)] s3(2)] by simp
  have v3: "view s3 ?st = head_block s n"
  proof -
    have "view s3 ?st = view s2 ?st" using s3(2) T(12) by (simp add: written_def apply_writes_other fst_home)
    with s2(2) show ?thesis by (simp add: written_def)
  qed
  let ?t = "s3\<lparr>lh_n := 0\<rparr>"
  have "\<exists>s4. write_head ?t = Ok () s4 \<and> written ?t [(lg_start ?t, put_head (int 0) (lh_block ?t) (view ?t (lg_start ?t)))] s4"
    by (rule write_head_spec) (use T i3 in \<open>simp_all add: g3 d3 NBUF_def placed_def\<close>)
  then obtain s4 where s4: "write_head ?t = Ok () s4" "written ?t [(?st, put_head 0 ?bl (head_block s n))] s4"
    by (auto simp: g3 v3)
  have f4: "bio_frame ?t s4" using s4(2) by (simp add: written_def)
  note g4 = bio_frame_log [OF f4] bio_frame_simps(1) [OF f4]
  have "commit s = Ok () s4"
    using T(3,4) s1(1) s2(1) s3(1) s4(1) by (simp add: commit_def write_log_def install_trans_def g1 g2)
  moreover have "writes s4 = writes s @ commit_writes s n" "memdisk s4 = apply_writes (memdisk s) (commit_writes s n)"
    "view s4 = apply_writes (view s) (commit_writes s n)" "dirtyb s4 = {}" "cache_inv s4" "heldb s4 = {}"
    using s4(2) W3 d3 by (simp_all add: written_def commit_writes_def apply_writes_append)
  ultimately show ?thesis using g4 g3 by simp
qed

section \<open>Recovery\<close>

lemma view_clean:
  assumes inv: "cache_inv s" and "k \<notin> dirtyb s" and "\<forall>b \<in> heldb s. blockno (bufs s b) \<noteq> k"
  shows "view s k = memdisk s k"
proof (cases "\<exists>i < NBUF. has_block k (bufs s i)")
  case True
  then obtain i where i: "i < NBUF" "has_block k (bufs s i)" by blast
  have "\<not> b_dirty (bufs s i)" using assms(2) i by (auto simp: dirtyb_def has_block_def)
  moreover have "\<not> slocked (slocks s (BufSleep i))" using assms(3) i by (auto simp: heldb_def has_block_def)
  ultimately show ?thesis
    using view_cached [OF _ i] cache_bufD [OF inv i(1)] i(2) inv by (auto simp: buf_ok_def has_block_def cache_inv_def)
qed (simp add: view_uncached)

lemma get32_less: "get32 bs k < 2 ^ 32"
proof -
  have "unat (x :: byte) < 256" for x using unsigned_less [of x, where ?'a = nat] by simp
  from this [of "bs ! k"] this [of "bs ! (k + 1)"] this [of "bs ! (k + 2)"] this [of "bs ! (k + 3)"]
  show ?thesis by (simp add: get32_def)
qed

lemma put_head_0: "put_head 0 bl bs = put32 bs 0 0"
  by (simp add: put_head_def u32_def)

lemma read_entries:
  assumes "\<forall>i \<in> set is. i < length (lh_block s)"
  shows "for_each (read_entry bs) is s =
    Ok () (s\<lparr>lh_block := fold (\<lambda>i bl. bl[i := get32 bs (4 + 4 * i)]) is (lh_block s)\<rparr>)"
  using assms by (induction "is" arbitrary: s) (simp_all add: read_entry_def)

lemma fold_updates:
  "n \<le> length bl \<Longrightarrow> length (fold (\<lambda>i bl. bl[i := f i]) [0..<n] bl) = length bl
     \<and> (\<forall>i < n. fold (\<lambda>i bl. bl[i := f i]) [0..<n] bl ! i = f i)"
  by (induction n) (auto simp: nth_list_update less_Suc_eq)

lemma settled_lh [simp]: "settled (s\<lparr>lh_n := x\<rparr>) b = settled s b" "settled (s\<lparr>lh_block := y\<rparr>) b = settled s b"
  by (simp_all add: settled_def)

lemma read_head_spec:
  assumes inv: "cache_inv s" and h: "heldb s = {}" and d: "lg_dev s = 1" and st: "lg_start s < disksize s"
    and room: "card (dirtyb s) < NBUF"
    and n: "n = get32 (view s (lg_start s)) 0" "n \<le> LOGSIZE" "n \<le> length (lh_block s)"
  shows "\<exists>s'. read_head s = Ok () s' \<and> cache_inv s' \<and> heldb s' = {} \<and> dirtyb s' = dirtyb s \<and> view s' = view s
    \<and> memdisk s' = memdisk s \<and> lh_n s' = int n \<and> length (lh_block s') = length (lh_block s)
    \<and> (\<forall>i < n. lh_block s' ! i = get32 (view s (lg_start s)) (4 + 4 * i))
    \<and> lg_start s' = lg_start s \<and> lg_dev s' = lg_dev s \<and> disksize s' = disksize s"
proof -
  let ?hd = "view s (lg_start s)"
  from bread_ok [OF inv st] h room obtain b t where
    t: "bread 1 (lg_start s) s = Ok b t" "bstep b s t" "view t = view s" "dirtyb t = dirtyb s" "memdisk t = memdisk s"
      "heldb t = {b}" "data (bufs t b) = ?hd" "settled t b" by auto
  note f = bio_frame_log [OF bstepD(2) [OF t(2)]] bio_frame_simps(1) [OF bstepD(2) [OF t(2)]]
  define bl where "bl = fold (\<lambda>i bl. bl[i := get32 ?hd (4 + 4 * i)]) [0..<n] (lh_block s)"
  have bl: "length bl = length (lh_block s)" "\<forall>i < n. bl ! i = get32 ?hd (4 + 4 * i)"
    using fold_updates [OF n(3)] by (simp_all add: bl_def)
  let ?u = "t\<lparr>lh_n := int n, lh_block := bl\<rparr>"
  have s32: "s32 (get32 ?hd 0) = int n" using n(1,2) by (simp add: s32_def LOGSIZE_def MAXOPBLOCKS_def)
  have e: "for_each (read_entry ?hd) [0..<n] (t\<lparr>lh_n := int n\<rparr>) = Ok () ?u"
    using read_entries [of "[0..<n]" "t\<lparr>lh_n := int n\<rparr>" ?hd] n(3) by (simp add: f bl_def)
  have "cache_inv ?u" "b \<in> heldb ?u" "settled ?u b" using bstepD(1) [OF t(2)] t(6,8) by simp_all
  from brelse_spec [OF this] obtain w where
    w: "brelse b ?u = Ok () w" "bstep b ?u w" "heldb w = heldb ?u - {b}" "dirtyb w = dirtyb ?u" "view w = view ?u"
      "memdisk w = memdisk ?u" by auto
  note g = bio_frame_log [OF bstepD(2) [OF w(2)]] bio_frame_simps(1) [OF bstepD(2) [OF w(2)]]
  have "read_head s = Ok () w"
    using t(1,7) w(1) e d by (simp add: read_head_def s32)
  then show ?thesis using bstepD(1) [OF w(2)] w(3-6) t(3-6) bl f g by simp
qed

text \<open>The log area of a disk is in order for recovery at \<open>st\<close>.\<close>

definition log_disk_ok :: "nat \<Rightarrow> nat \<Rightarrow> (nat \<Rightarrow> byte list) \<Rightarrow> bool" where
  "log_disk_ok st sz D \<longleftrightarrow> (let n = get32 (D st) 0; blk = (\<lambda>i. get32 (D st) (4 + 4 * i)) in
     n \<le> LOGSIZE \<and> st < sz \<and> (\<forall>i < n. blk i < sz \<and> st + i + 1 < sz \<and> blk i \<noteq> st)
     \<and> (\<forall>i < n. \<forall>j < n. blk i \<noteq> st + j + 1))"

definition recovered :: "nat \<Rightarrow> (nat \<Rightarrow> byte list) \<Rightarrow> nat \<Rightarrow> byte list" where
  "recovered st D = (apply_writes D (map (\<lambda>i. (get32 (D st) (4 + 4 * i), D (st + i + 1))) [0..<get32 (D st) 0]))
     (st := put32 (D st) 0 0)"

text \<open>A machine that has just started on disk \<open>D\<close>: an empty cache, the log location known.\<close>

definition booted :: "nat \<Rightarrow> nat \<Rightarrow> (nat \<Rightarrow> byte list) \<Rightarrow> 'z log_st_scheme \<Rightarrow> bool" where
  "booted st sz D t \<longleftrightarrow> cache_inv t \<and> heldb t = {} \<and> dirtyb t = {} \<and> memdisk t = D \<and> disksize t = sz
     \<and> lg_dev t = 1 \<and> lg_start t = st \<and> length (lh_block t) = LOGSIZE"

lemma recover_spec:
  assumes b: "booted st sz D t" and ok: "log_disk_ok st sz D"
  shows "\<exists>t'. recover_from_log t = Ok () t' \<and> memdisk t' = recovered st D \<and> cache_inv t' \<and> dirtyb t' = {}
    \<and> heldb t' = {} \<and> lh_n t' = 0"
proof -
  define n where "n = get32 (D st) 0"
  define blk where "blk = (\<lambda>i. get32 (D st) (4 + 4 * i))"
  have B: "cache_inv t" "heldb t = {}" "dirtyb t = {}" "memdisk t = D" "disksize t = sz" "lg_dev t = 1"
    "lg_start t = st" "length (lh_block t) = LOGSIZE" using b by (simp_all add: booted_def)
  have O: "n \<le> LOGSIZE" "st < sz" "\<forall>i < n. blk i < sz \<and> st + i + 1 < sz \<and> blk i \<noteq> st"
    "\<forall>i < n. \<forall>j < n. blk i \<noteq> st + j + 1" using ok by (simp_all add: log_disk_ok_def Let_def n_def blk_def)
  have vD: "view t = D" using view_clean [OF B(1)] B(2-4) by auto
  have "n = get32 (view t (lg_start t)) 0" by (simp add: n_def vD B(7))
  from read_head_spec [OF B(1,2,6) _ _ this] B O(1,2) obtain u where
    u: "read_head t = Ok () u" "cache_inv u" "heldb u = {}" "dirtyb u = {}" "view u = D" "memdisk u = D"
      "lh_n u = int n" "length (lh_block u) = LOGSIZE" "\<forall>i < n. lh_block u ! i = blk i" "lg_start u = st"
      "lg_dev u = 1" "disksize u = sz" by (auto simp: vD blk_def NBUF_def)
  have p: "placed u [0..<n]" using O u by (auto simp: placed_def)
  from install_loop [OF u(2,3) p] u(4) obtain v where
    v: "for_each install_one [0..<n] u = Ok () v"
      "written u (map (\<lambda>i. (lh_block u ! i, view u (lg_start u + i + 1))) [0..<n]) v" by (auto simp: NBUF_def)
  have ws: "map (\<lambda>i. (lh_block u ! i, view u (lg_start u + i + 1))) [0..<n] = map (\<lambda>i. (blk i, D (st + i + 1))) [0..<n]"
    using u by simp
  let ?W = "map (\<lambda>i. (blk i, D (st + i + 1))) [0..<n]"
  have V: "written u ?W v" using v(2) by (simp only: ws)
  have f: "bio_frame u v" and V': "cache_inv v" "heldb v = {}" "dirtyb v = {}" "view v = apply_writes D ?W" "memdisk v = apply_writes D ?W"
    using V u by (simp_all add: written_def)
  note g = bio_frame_log [OF f] bio_frame_simps(1) [OF f]
  have "apply_writes D ?W st = D st" by (rule apply_writes_other) (use O(3) in force)
  then have vst: "view v st = D st" by (simp add: V')
  let ?t = "v\<lparr>lh_n := 0\<rparr>"
  have "\<exists>w. write_head ?t = Ok () w \<and> written ?t [(lg_start ?t, put_head (int 0) (lh_block ?t) (view ?t (lg_start ?t)))] w"
    by (rule write_head_spec) (use V' u O in \<open>simp_all add: g NBUF_def\<close>)
  then obtain w where w: "write_head ?t = Ok () w" "written ?t [(st, put32 (D st) 0 0)] w"
    by (auto simp: g u vst put_head_0)
  have "recover_from_log t = Ok () w"
    using u(1,7) v(1) w(1) by (simp add: recover_from_log_def install_trans_def)
  moreover have "lh_n w = 0" using bio_frame_log(6) [of ?t w] w(2) by (simp add: written_def)
  moreover have "memdisk w = recovered st D"
    using w(2) by (simp add: written_def V' recovered_def n_def blk_def)
  ultimately show ?thesis using w(2) V' by (auto simp: written_def)
qed

section \<open>Crash atomicity\<close>

text \<open>The disk after the first \<open>m\<close> of the writes that \<open>commit\<close> makes.\<close>

definition crashed :: "'z log_st_scheme \<Rightarrow> nat \<Rightarrow> nat \<Rightarrow> nat \<Rightarrow> byte list" where
  "crashed s n m = apply_writes (memdisk s) (take m (commit_writes s n))"

lemma recovered_empty:
  "get32 (D st) 0 = 0 \<Longrightarrow> k \<noteq> st \<Longrightarrow> recovered st D k = D k"
  by (simp add: recovered_def)

lemma log_disk_empty: "get32 (D st) 0 = 0 \<Longrightarrow> st < sz \<Longrightarrow> log_disk_ok st sz D"
  by (simp add: log_disk_ok_def)

lemma trans_facts:
  assumes "trans_ok s n"
  shows "\<And>i. i < n \<Longrightarrow> lh_block s ! i \<in> set (take n (lh_block s))"
    and "\<And>i j. i < n \<Longrightarrow> j < n \<Longrightarrow> lh_block s ! i \<noteq> lg_start s + j + 1"
    and "\<And>i. i < n \<Longrightarrow> lh_block s ! i \<noteq> lg_start s"
    and "fst ` set (log_writes s n) = (\<lambda>i. lg_start s + i + 1) ` {0..<n}"
    and "fst ` set (home_writes s n) = set (take n (lh_block s))"
    and "\<And>i. i < n \<Longrightarrow> apply_writes D (log_writes s n) (lg_start s + i + 1) = view s (lh_block s ! i)"
    and "k \<notin> set (take n (lh_block s)) \<Longrightarrow> view s k = memdisk s k"
proof -
  have len: "n \<le> length (lh_block s)" using assms by (simp add: trans_ok_def)
  show nth: "lh_block s ! i \<in> set (take n (lh_block s))" if "i < n" for i
    using that len by (auto simp: in_set_conv_nth)
  show "lh_block s ! i \<noteq> lg_start s + j + 1" if "i < n" "j < n" for i j
    using that assms by (auto simp: trans_ok_def placed_def)
  show "lh_block s ! i \<noteq> lg_start s" if "i < n" for i
    using nth [OF that] assms by (auto simp: trans_ok_def)
  show "fst ` set (log_writes s n) = (\<lambda>i. lg_start s + i + 1) ` {0..<n}" by (force simp: log_writes_def)
  show "fst ` set (home_writes s n) = set (take n (lh_block s))"
    using len by (force simp: home_writes_def nth in_set_conv_nth)
  show "apply_writes D (log_writes s n) (lg_start s + i + 1) = view s (lh_block s ! i)" if "i < n" for i
    by (rule apply_writes_distinct) (use that in \<open>auto simp: log_writes_def comp_def distinct_map inj_on_def\<close>)
  show "k \<notin> set (take n (lh_block s)) \<Longrightarrow> view s k = memdisk s k"
    using view_clean [of s k] assms by (simp add: trans_ok_def)
qed

lemma home_view:
  assumes "trans_ok s n"
  shows "apply_writes D (home_writes s n) k = (if k \<in> set (take n (lh_block s)) then view s k else D k)"
proof (cases "k \<in> set (take n (lh_block s))")
  case True
  have "map fst (home_writes s n) = take n (lh_block s)"
    using assms by (simp add: home_writes_def comp_def map_nth_take trans_ok_def)
  moreover obtain i where "i < n" "k = lh_block s ! i" using True by (auto simp: in_set_conv_nth)
  then have "(k, view s k) \<in> set (home_writes s n)" by (auto simp: home_writes_def)
  ultimately show ?thesis using apply_writes_distinct [of "home_writes s n" k] assms True by (simp add: trans_ok_def)
qed (simp add: apply_writes_other trans_facts(5) [OF assms])

lemma head_words:
  assumes "trans_ok s n"
  shows "get32 (head_block s n) 0 = n" and "i < n \<Longrightarrow> get32 (head_block s n) (4 + 4 * i) = lh_block s ! i"
    and "length (head_block s n) = BSIZE"
  using put_head_get [of "view s (lg_start s)" n "lh_block s"] length_view [of s "lg_start s"] assms
  by (simp_all add: trans_ok_def head_block_def)

lemma length_commit_writes [simp]: "length (log_writes s n) = n" "length (home_writes s n) = n"
  "length (commit_writes s n) = 2 * n + 2"
  by (simp_all add: commit_writes_def log_writes_def home_writes_def)

text \<open>Before the header is written: the log is still empty on disk.\<close>

lemma crash_before:
  assumes ok: "trans_ok s n" and empty: "get32 (memdisk s (lg_start s)) 0 = 0" and m: "m \<le> n"
  shows "get32 (crashed s n m (lg_start s)) 0 = 0"
    and "k \<notin> {lg_start s..lg_start s + n} \<Longrightarrow> crashed s n m k = memdisk s k"
proof -
  have D: "crashed s n m = apply_writes (memdisk s) (take m (log_writes s n))"
    using m by (simp add: crashed_def commit_writes_def)
  have sub: "fst ` set (take m (log_writes s n)) \<subseteq> (\<lambda>i. lg_start s + i + 1) ` {0..<n}"
    using trans_facts(4) [OF ok] set_take_subset [of m "log_writes s n"] by blast
  have "crashed s n m (lg_start s) = memdisk s (lg_start s)"
    unfolding D by (rule apply_writes_other) (use sub in auto)
  with empty show "get32 (crashed s n m (lg_start s)) 0 = 0" by simp
  assume k: "k \<notin> {lg_start s..lg_start s + n}"
  show "crashed s n m k = memdisk s k"
    unfolding D by (rule apply_writes_other) (use sub k in auto)
qed

text \<open>After the header is written and before it is cleared: the log describes the transaction.\<close>

lemma crash_between:
  assumes ok: "trans_ok s n" and m: "n < m" "m \<le> 2 * n + 1"
  shows "crashed s n m (lg_start s) = head_block s n"
    and "i < n \<Longrightarrow> crashed s n m (lg_start s + i + 1) = view s (lh_block s ! i)"
    and "k \<notin> {lg_start s..lg_start s + n} \<Longrightarrow> k \<notin> set (take n (lh_block s)) \<Longrightarrow> crashed s n m k = view s k"
proof -
  let ?C = "take (m - n - 1) (home_writes s n)"
  let ?L = "apply_writes (memdisk s) (log_writes s n)"
  have D: "crashed s n m = apply_writes (?L(lg_start s := head_block s n)) ?C"
    using m by (simp add: crashed_def commit_writes_def apply_writes_append take_Cons')
  have sub: "fst ` set ?C \<subseteq> set (take n (lh_block s))"
    using trans_facts(5) [OF ok] set_take_subset [of "m - n - 1" "home_writes s n"] by blast
  have other: "crashed s n m k = (?L(lg_start s := head_block s n)) k" if "k \<notin> set (take n (lh_block s))" for k
    unfolding D by (rule apply_writes_other) (use sub that in blast)
  have nst: "lg_start s \<notin> set (take n (lh_block s))" using ok by (simp add: trans_ok_def)
  show "crashed s n m (lg_start s) = head_block s n" using other [OF nst] by simp
  show "crashed s n m (lg_start s + i + 1) = view s (lh_block s ! i)" if i: "i < n" for i
  proof -
    have "lg_start s + i + 1 \<notin> set (take n (lh_block s))"
      using trans_facts(2) [OF ok _ i] by (auto simp: in_set_conv_nth)
    from other [OF this] trans_facts(6) [OF ok i] show ?thesis by simp
  qed
  assume k: "k \<notin> {lg_start s..lg_start s + n}" "k \<notin> set (take n (lh_block s))"
  have "?L k = memdisk s k" by (rule apply_writes_other) (use k trans_facts(4) [OF ok] in auto)
  with other [OF k(2)] k trans_facts(7) [OF ok k(2)] show "crashed s n m k = view s k" by auto
qed

text \<open>After the header is cleared: every block is in place.\<close>

lemma crash_after:
  assumes ok: "trans_ok s n" and m: "2 * n + 1 < m"
  shows "get32 (crashed s n m (lg_start s)) 0 = 0"
    and "k \<notin> {lg_start s..lg_start s + n} \<Longrightarrow> crashed s n m k = view s k"
proof -
  let ?H = "apply_writes ((apply_writes (memdisk s) (log_writes s n))(lg_start s := head_block s n)) (home_writes s n)"
  have "take m (commit_writes s n) = commit_writes s n" using m by simp
  then have D: "crashed s n m = ?H(lg_start s := put32 (head_block s n) 0 0)"
    by (simp add: crashed_def commit_writes_def apply_writes_append put_head_0)
  show "get32 (crashed s n m (lg_start s)) 0 = 0"
    using head_words(3) [OF ok] by (simp add: D get32_put32 BSIZE_def)
  assume k: "k \<notin> {lg_start s..lg_start s + n}"
  have "apply_writes (memdisk s) (log_writes s n) k = memdisk s k"
    by (rule apply_writes_other) (use k trans_facts(4) [OF ok] in auto)
  with k trans_facts(7) [OF ok] show "crashed s n m k = view s k"
    by (auto simp: D home_view [OF ok])
qed

lemma recovered_between:
  assumes ok: "trans_ok s n" and m: "n < m" "m \<le> 2 * n + 1"
  shows "log_disk_ok (lg_start s) (disksize s) (crashed s n m)"
    and "k \<notin> {lg_start s..lg_start s + n} \<Longrightarrow> recovered (lg_start s) (crashed s n m) k = view s k"
proof -
  note c = crash_between [OF ok m] and w = head_words [OF ok]
  show "log_disk_ok (lg_start s) (disksize s) (crashed s n m)"
    using ok trans_facts(2,3) [OF ok]
    by (auto simp: log_disk_ok_def Let_def c(1) w trans_ok_def placed_def)
  have "map (\<lambda>i. (get32 (crashed s n m (lg_start s)) (4 + 4 * i), crashed s n m (lg_start s + i + 1)))
      [0..<get32 (crashed s n m (lg_start s)) 0] = home_writes s n"
    by (simp add: c(1) w home_writes_def) (use c(2) in auto)
  moreover assume "k \<notin> {lg_start s..lg_start s + n}"
  ultimately show "recovered (lg_start s) (crashed s n m) k = view s k"
    using c(3) [of k] by (auto simp: recovered_def home_view [OF ok])
qed

text \<open>C1. Commit is atomic across crashes.  It returns, having made some sequence of disk writes; if the
  machine stops after any number m of them, recovery at the next boot returns and leaves every
  block outside the log either as it was before the transaction (when the header had not been
  written yet) or with the content the transaction gave it, all blocks alike, and an empty log.\<close>

theorem commit_crash_atomic:
  assumes "trans_ok s n" and "get32 (memdisk s (lg_start s)) 0 = 0"
  shows "\<exists>s' W. commit s = Ok () s' \<and> writes s' = writes s @ W \<and> memdisk s' = apply_writes (memdisk s) W
    \<and> (\<forall>m t. booted (lg_start s) (disksize s) (apply_writes (memdisk s) (take m W)) t \<longrightarrow>
        (\<exists>t'. recover_from_log t = Ok () t' \<and> lh_n t' = 0 \<and>
          (\<forall>k. k \<notin> {lg_start s..lg_start s + n} \<longrightarrow>
             memdisk t' k = (if m \<le> n then memdisk s k else view s k))))"
proof -
  from commit_spec [OF assms(1)] obtain s' where
    s': "commit s = Ok () s'" "writes s' = writes s @ commit_writes s n"
      "memdisk s' = apply_writes (memdisk s) (commit_writes s n)" by auto
  have st: "lg_start s < disksize s" using assms(1) by (simp add: trans_ok_def)
  have rec: "log_disk_ok (lg_start s) (disksize s) (crashed s n m) \<and>
    (\<forall>k. k \<notin> {lg_start s..lg_start s + n} \<longrightarrow>
       recovered (lg_start s) (crashed s n m) k = (if m \<le> n then memdisk s k else view s k))" for m
  proof -
    consider "m \<le> n" | "n < m" "m \<le> 2 * n + 1" | "2 * n + 1 < m" by linarith
    then show ?thesis
    proof cases
      case 1
      note c = crash_before [OF assms 1]
      show ?thesis using log_disk_empty [of "crashed s n m", OF c(1) st] recovered_empty [of "crashed s n m", OF c(1)] c(2) 1 by auto
    next
      case 2
      then show ?thesis using recovered_between [OF assms(1) 2] by auto
    next
      case 3
      note c = crash_after [OF assms(1) 3]
      show ?thesis using log_disk_empty [of "crashed s n m", OF c(1) st] recovered_empty [of "crashed s n m", OF c(1)] c(2) 3 by auto
    qed
  qed
  have "\<exists>t'. recover_from_log t = Ok () t' \<and> lh_n t' = 0 \<and> (\<forall>k. k \<notin> {lg_start s..lg_start s + n} \<longrightarrow>
       memdisk t' k = (if m \<le> n then memdisk s k else view s k))"
    if "booted (lg_start s) (disksize s) (apply_writes (memdisk s) (take m (commit_writes s n))) t" for m and t :: "'b log_st_scheme"
    using recover_spec [OF that] rec [of m] by (auto simp: crashed_def)
  with s' show ?thesis by blast
qed

text \<open>A log with nothing in it, and one with a single block, on a zeroed disk.\<close>

definition boot_log :: log_st where
  "boot_log = bio_st.extend (boot_bio (\<lambda>_. replicate 512 0))
     (log_st.fields 2 30 0 False 1 0 (replicate LOGSIZE 0))"

lemma boot_log_exists:
  "\<exists>t :: log_st. booted 2 1000 (\<lambda>_. replicate 512 0) t \<and> lg_size t = 30 \<and> view t = (\<lambda>_. replicate 512 0)"
proof -
  have run: "running boot_log"
    by (simp add: boot_log_def running_def this_proc_def boot_bio_def log_st.defs bio_st.defs)
  have b: "bufs boot_log = bufs (boot_bio (\<lambda>_. replicate 512 0))" "memdisk boot_log = (\<lambda>_. replicate 512 0)"
    "disksize boot_log = 1000"
    by (simp_all add: boot_log_def boot_bio_def log_st.defs bio_st.defs)
  have "\<exists>s' :: log_st. binit boot_log = Ok () s' \<and> cache_inv s' \<and> view s' = memdisk boot_log \<and> heldb s' = {} \<and> dirtyb s' = {}
    \<and> disksize s' = disksize boot_log \<and> memdisk s' = memdisk boot_log"
    using binit_inv [OF run] by (simp add: b BSIZE_def) (auto simp: boot_bio_def)
  then obtain s where "cache_inv (s :: log_st)" "heldb s = {}" "dirtyb s = {}" "memdisk s = (\<lambda>_. replicate 512 0)" "disksize s = 1000"
    "view s = (\<lambda>_. replicate 512 0)" by (auto simp: b)
  then have "booted 2 1000 (\<lambda>_. replicate 512 0) (s\<lparr>lh_block := replicate LOGSIZE 0, lg_start := 2, lg_size := 30, lg_dev := 1\<rparr>)"
    "lg_size (s\<lparr>lh_block := replicate LOGSIZE 0, lg_start := 2, lg_size := 30, lg_dev := 1\<rparr>) = 30"
    "view (s\<lparr>lh_block := replicate LOGSIZE 0, lg_start := 2, lg_size := 30, lg_dev := 1\<rparr>) = (\<lambda>_. replicate 512 0)"
    by (simp_all add: booted_def)
  then show ?thesis by blast
qed

lemma one_block_transaction:
  "\<exists>s :: log_st. trans_ok s 1 \<and> lg_start s = 2 \<and> disksize s = 1000 \<and> memdisk s = (\<lambda>_. replicate 512 0)
     \<and> view s = (\<lambda>_. replicate 512 0)(100 := replicate 512 7)"
proof -
  obtain s where s: "booted 2 1000 (\<lambda>_. replicate 512 0) (s :: log_st)" "view s = (\<lambda>_. replicate 512 0)"
    using boot_log_exists by blast
  then have S: "cache_inv s" "heldb s = {}" "dirtyb s = {}" "memdisk s = (\<lambda>_. replicate 512 0)" "disksize s = 1000"
    "lg_dev s = 1" "lg_start s = 2" "length (lh_block s) = LOGSIZE" by (simp_all add: booted_def)
  from bread_ok [OF S(1), of 100] S obtain b t where
    t: "bstep b s t" "view t = view s" "dirtyb t = {}" "memdisk t = memdisk s" "heldb t = {b}" "blockno (bufs t b) = 100"
    by (auto simp: NBUF_def)
  have bt: "b \<in> heldb t" using t(5) by simp
  from bset_spec [OF bstepD(1) [OF t(1)] bt, of "\<lambda>_. replicate 512 7"] t obtain u where
    u: "bstep b t u" "heldb u = {b}" "dirtyb u = {}" "view u = (view s)(100 := replicate 512 7)" "memdisk u = memdisk s"
      "blockno (bufs u b) = 100" by (auto simp: BSIZE_def)
  have bu: "b \<in> heldb u" using u(2) by simp
  from bdirty_spec [OF bstepD(1) [OF u(1)] bu] u obtain v where
    v: "bstep b u v" "heldb v = {b}" "dirtyb v = {100}" "view v = view u" "memdisk v = memdisk s"
      "bufs v b = (bufs u b)\<lparr>b_dirty := True\<rparr>" by auto
  have bv: "b \<in> heldb v" "settled v b" using v(2,6) by (simp_all add: settled_def)
  from brelse_spec [OF bstepD(1) [OF v(1)] bv] v obtain w where
    w: "bstep b v w" "heldb w = {}" "dirtyb w = {100}" "view w = view u" "memdisk w = memdisk s" by auto
  have fr: "bio_frame s w"
    using bio_frame_trans [OF bio_frame_trans [OF bio_frame_trans]]
      bstepD(2) [OF t(1)] bstepD(2) [OF u(1)] bstepD(2) [OF v(1)] bstepD(2) [OF w(1)] by blast
  note g = bio_frame_log [OF fr] bio_frame_simps(1) [OF fr]
  have "trans_ok (w\<lparr>lh_block := replicate LOGSIZE 100, lh_n := 1\<rparr>) 1"
    using w bstepD(1) [OF w(1)] S by (simp add: trans_ok_def placed_def g LOGSIZE_def MAXOPBLOCKS_def NBUF_def)
  moreover have "lg_start (w\<lparr>lh_block := replicate LOGSIZE 100, lh_n := 1\<rparr>) = 2"
    "disksize (w\<lparr>lh_block := replicate LOGSIZE 100, lh_n := 1\<rparr>) = 1000"
    "memdisk (w\<lparr>lh_block := replicate LOGSIZE 100, lh_n := 1\<rparr>) = (\<lambda>_. replicate 512 0)"
    "view (w\<lparr>lh_block := replicate LOGSIZE 100, lh_n := 1\<rparr>) = (\<lambda>_. replicate 512 0)(100 := replicate 512 7)"
    using w u s(2) S by (simp_all add: g)
  ultimately show ?thesis by blast
qed

theorem commit_crash_atomic_witness:
  "\<exists>(s :: log_st) (t :: log_st) s' t'. commit s = Ok () s' \<and> recover_from_log t = Ok () t'
     \<and> view s 100 = replicate 512 7 \<and> memdisk t' 100 = replicate 512 0"
proof -
  obtain s where s: "trans_ok (s :: log_st) 1" "lg_start s = 2" "disksize s = 1000" "memdisk s = (\<lambda>_. replicate 512 0)"
    "view s = (\<lambda>_. replicate 512 0)(100 := replicate 512 7)" using one_block_transaction by blast
  obtain t where t: "booted 2 1000 (\<lambda>_. replicate 512 0) (t :: log_st)" using boot_log_exists by blast
  have z: "get32 (memdisk s (lg_start s)) 0 = 0" by (simp add: s(4) get32_def)
  from commit_crash_atomic [OF s(1) z] obtain s' W where W: "commit s = Ok () s'"
    "\<And>m (t :: log_st). booted (lg_start s) (disksize s) (apply_writes (memdisk s) (take m W)) t \<Longrightarrow>
        (\<exists>t'. recover_from_log t = Ok () t' \<and> lh_n t' = 0 \<and> (\<forall>k. k \<notin> {lg_start s..lg_start s + 1} \<longrightarrow>
             memdisk t' k = (if m \<le> 1 then memdisk s k else view s k)))" by blast
  have "booted (lg_start s) (disksize s) (apply_writes (memdisk s) (take 0 W)) t" using t s by simp
  from W(2) [OF this] obtain t' where "recover_from_log t = Ok () t'" "memdisk t' 100 = memdisk s 100"
    by (auto simp: s(2))
  moreover have "view s 100 = replicate 512 7" "memdisk s 100 = replicate 512 0" by (simp_all add: s)
  ultimately show ?thesis using W(1) by metis
qed

section \<open>Reserving log space\<close>

lemma bio_indep_log [simp]:
  "bio_indep outstanding" "bio_indep committing" "bio_indep lh_n" "bio_indep lg_size" "bio_indep lh_block"
  "bio_indep lg_start" "bio_indep lg_dev"
  by (simp_all add: bio_indep_def)

lemma keeps_log_loops [keeps_intro]:
  assumes "bio_indep f"
  shows "keeps f write_log" "keeps f install_trans" "keeps f write_head"
proof -
  have w: "keeps f (write_log_one i)" and i: "keeps f (install_one i)" for i
    unfolding write_log_one_def install_one_def by (intro keeps_intro assms)+
  show "keeps f write_log" unfolding write_log_def by (intro keeps_intro w)
  show "keeps f install_trans" unfolding install_trans_def by (intro keeps_intro i)
  show "keeps f write_head" unfolding write_head_def by (intro keeps_intro assms)
qed

lemma commit_lh_n:
  assumes "commit s = Ok () s'"
  shows "lh_n s' = (if lh_n s > 0 then 0 else lh_n s)" and "outstanding s' = outstanding s"
    and "committing s' = committing s" and "lg_size s' = lg_size s" and "length (lh_block s') = length (lh_block s)"
proof -
  have "keeps f commit" if "bio_indep f" "\<And>s x. f (s\<lparr>lh_n := x\<rparr>) = f s" for f :: "'a log_st_scheme \<Rightarrow> 'b"
    unfolding commit_def by (intro keeps_intro that)
  note k = keepsD [OF this assms]
  show "outstanding s' = outstanding s" "committing s' = committing s" "lg_size s' = lg_size s"
    by (rule k, simp_all)+
  have "keeps (\<lambda>s. length (lh_block s)) commit"
    unfolding commit_def by (intro keeps_intro) (simp_all add: bio_indep_def)
  from keepsD [OF this assms] show "length (lh_block s') = length (lh_block s)" .
  show "lh_n s' = (if lh_n s > 0 then 0 else lh_n s)"
  proof (cases "lh_n s > 0")
    case True
    with assms obtain t where "write_head (t\<lparr>lh_n := 0\<rparr>) = Ok () s'"
      by (auto simp: commit_def elim!: bnd_OkE)
    from keepsD [OF keeps_log_loops(3) this, of lh_n] True show ?thesis by simp
  qed (use assms in \<open>simp add: commit_def\<close>)
qed

lemma end_op_effect:
  assumes "end_op s = Ok () s'"
  shows "outstanding s' = outstanding s - 1" and "\<not> committing s'" and "lg_size s' = lg_size s"
    and "lh_n s' = lh_n s \<or> lh_n s' = 0 \<and> 0 < lh_n s" and "length (lh_block s') = length (lh_block s)"
proof -
  have nc: "\<not> committing s" using assms by (auto simp: end_op_def)
  have "outstanding s' = outstanding s - 1 \<and> \<not> committing s' \<and> lg_size s' = lg_size s
    \<and> (lh_n s' = lh_n s \<or> lh_n s' = 0 \<and> 0 < lh_n s) \<and> length (lh_block s') = length (lh_block s)"
  proof (cases "outstanding s = 1")
    case True
    with assms nc obtain t where t: "commit (s\<lparr>outstanding := 0, committing := True\<rparr>) = Ok () t"
      and s': "wakeup1 LogChan (t\<lparr>committing := False\<rparr>) = Ok () s'"
      by (auto simp: end_op_def elim!: bnd_OkE)
    from commit_lh_n [OF t] s' True show ?thesis by (auto simp: wakeup1_spec split: if_splits)
  next
    case False
    with assms nc show ?thesis by (auto simp: end_op_def wakeup1_spec)
  qed
  then show "outstanding s' = outstanding s - 1" "\<not> committing s'" "lg_size s' = lg_size s"
    "lh_n s' = lh_n s \<or> lh_n s' = 0 \<and> 0 < lh_n s" "length (lh_block s') = length (lh_block s)" by blast+
qed

text \<open>
  Concurrent file-system operations: \<open>u i = Some k\<close> when operation \<open>i\<close> is between its \<open>begin_op\<close> and
  its \<open>end_op\<close> and has called \<open>log_write\<close> \<open>k\<close> times; each may call it \<open>MAXOPBLOCKS\<close> times.
\<close>

inductive log_run :: "'z log_st_scheme \<Rightarrow> (nat \<Rightarrow> nat option) \<Rightarrow> bool" where
  init: "lh_n s = 0 \<Longrightarrow> outstanding s = 0 \<Longrightarrow> \<not> committing s \<Longrightarrow> length (lh_block s) = LOGSIZE \<Longrightarrow>
     log_run s (\<lambda>_. None)"
| op_begin: "log_run s u \<Longrightarrow> u i = None \<Longrightarrow> begin_op s = Ok () s' \<Longrightarrow> log_run s' (u(i \<mapsto> 0))"
| op_write: "log_run s u \<Longrightarrow> u i = Some k \<Longrightarrow> k < MAXOPBLOCKS \<Longrightarrow> log_write b s = Ok () s' \<Longrightarrow>
     log_run s' (u(i \<mapsto> k + 1))"
| op_end: "log_run s u \<Longrightarrow> u i = Some k \<Longrightarrow> end_op s = Ok () s' \<Longrightarrow> log_run s' (u(i := None))"

definition unused :: "(nat \<Rightarrow> nat option) \<Rightarrow> nat" where
  "unused u = (\<Sum>i \<in> dom u. MAXOPBLOCKS - the (u i))"

definition reserve_inv :: "'z log_st_scheme \<Rightarrow> (nat \<Rightarrow> nat option) \<Rightarrow> bool" where
  "reserve_inv s u \<longleftrightarrow> finite (dom u) \<and> outstanding s = int (card (dom u)) \<and> \<not> committing s
     \<and> 0 \<le> lh_n s \<and> lh_n s + int (unused u) \<le> int LOGSIZE \<and> length (lh_block s) = LOGSIZE
     \<and> (\<forall>i k. u i = Some k \<longrightarrow> k \<le> MAXOPBLOCKS)"

lemma unused_upd:
  assumes "finite (dom u)"
  shows "unused (u(i \<mapsto> k)) = (MAXOPBLOCKS - k) + unused (u(i := None))"
    and "u i = Some k' \<Longrightarrow> unused u = (MAXOPBLOCKS - k') + unused (u(i := None))"
    and "unused u \<le> card (dom u) * MAXOPBLOCKS"
proof -
  have d: "dom (u(i \<mapsto> k)) = insert i (dom (u(i := None)))" "i \<notin> dom (u(i := None))" by auto
  have f: "finite (dom (u(i := None)))" using assms by simp
  show "unused (u(i \<mapsto> k)) = (MAXOPBLOCKS - k) + unused (u(i := None))"
    unfolding unused_def d(1) using f d(2) by (subst sum.insert) (auto intro!: sum.cong)
  show "unused u = (MAXOPBLOCKS - k') + unused (u(i := None))" if "u i = Some k'"
  proof -
    have "dom u = insert i (dom (u(i := None)))" using that by auto
    then have "unused u = (\<Sum>j \<in> insert i (dom (u(i := None))). MAXOPBLOCKS - the (u j))" by (simp only: unused_def)
    also have "\<dots> = (MAXOPBLOCKS - k') + (\<Sum>j \<in> dom (u(i := None)). MAXOPBLOCKS - the (u j))"
      using f d(2) that by (subst sum.insert) auto
    also have "(\<Sum>j \<in> dom (u(i := None)). MAXOPBLOCKS - the (u j)) = unused (u(i := None))"
      unfolding unused_def by (rule sum.cong) (auto split: if_splits)
    finally show ?thesis .
  qed
  show "unused u \<le> card (dom u) * MAXOPBLOCKS"
    unfolding unused_def using sum_bounded_above [of "dom u" "\<lambda>i. MAXOPBLOCKS - the (u i)" MAXOPBLOCKS] by simp
qed

lemma absorb_bound: "absorb xs k i \<le> i + length xs"
  by (induction xs k i rule: absorb.induct) auto

lemma log_write_effect:
  assumes "log_write b s = Ok () s'"
  shows "outstanding s' = outstanding s" "committing s' = committing s" "lg_size s' = lg_size s"
    "lh_n s' = lh_n s \<or> lh_n s' = lh_n s + 1" "length (lh_block s') = length (lh_block s)"
  using assms by (auto simp: log_write_def Let_def upd_buf_def split: if_splits)

lemma reserve_begin:
  assumes inv: "reserve_inv s u" and new: "u i = None" and ok: "begin_op s = Ok () s'"
  shows "reserve_inv s' (u(i \<mapsto> 0))"
proof -
  have s': "s' = s\<lparr>outstanding := outstanding s + 1\<rparr>"
    and room: "lh_n s + (outstanding s + 1) * int MAXOPBLOCKS \<le> int LOGSIZE"
    using ok by (auto simp: begin_op_def split: if_splits)
  have fin: "finite (dom u)" and out: "outstanding s = int (card (dom u))" using inv by (simp_all add: reserve_inv_def)
  have dom: "dom (u(i \<mapsto> 0)) = insert i (dom u)" "i \<notin> dom u" "u(i := None) = u" using new by auto
  have "int (unused (u(i \<mapsto> 0))) \<le> int ((card (dom u) + 1) * MAXOPBLOCKS)"
    using unused_upd(1) [OF fin, of i 0] unused_upd(3) [OF fin] dom(3) by (simp only: of_nat_le_iff) simp
  then have "lh_n s + int (unused (u(i \<mapsto> 0))) \<le> int LOGSIZE" using room out by (simp add: algebra_simps)
  with inv dom fin show ?thesis by (auto simp: reserve_inv_def s')
qed

lemma reserve_write:
  assumes inv: "reserve_inv s u" and i: "u i = Some k" "k < MAXOPBLOCKS" and ok: "log_write b s = Ok () s'"
  shows "reserve_inv s' (u(i \<mapsto> k + 1))"
proof -
  have fin: "finite (dom u)" using inv by (simp add: reserve_inv_def)
  have "unused (u(i \<mapsto> k + 1)) + 1 = unused u"
    using unused_upd(1) [OF fin, of i "k + 1"] unused_upd(2) [OF fin i(1)] i(2) by simp
  moreover have "dom (u(i \<mapsto> k + 1)) = dom u" using i(1) by auto
  ultimately show ?thesis
    using inv i(2) log_write_effect [OF ok] by (auto simp: reserve_inv_def)
qed

lemma reserve_end:
  assumes inv: "reserve_inv s u" and i: "u i = Some k" and ok: "end_op s = Ok () s'"
  shows "reserve_inv s' (u(i := None))"
proof -
  have fin: "finite (dom u)" using inv by (simp add: reserve_inv_def)
  have "unused (u(i := None)) \<le> unused u" using unused_upd(2) [OF fin i] by simp
  moreover have "dom u = insert i (dom (u(i := None)))" "i \<notin> dom (u(i := None))" using i by auto
  then have "card (dom u) = card (dom (u(i := None))) + 1"
    using fin by (metis card_insert_disjoint finite_insert Suc_eq_plus1)
  ultimately show ?thesis
    using inv end_op_effect [OF ok] by (auto simp: reserve_inv_def)
qed

lemma log_run_inv: "log_run s u \<Longrightarrow> reserve_inv s u"
proof (induction rule: log_run.induct)
  case (init s)
  then show ?case by (simp add: reserve_inv_def unused_def dom_def)
qed (blast intro: reserve_begin reserve_write reserve_end)+

text \<open>C20. Admission control works: however file-system operations interleave, as long as each makes at
  most MAXOPBLOCKS log_write calls, no such call panics, provided the log on disk has room for
  LOGSIZE blocks besides its header.\<close>

theorem log_space_reserved:
  assumes "log_run s u" and "u i = Some k" and "k < MAXOPBLOCKS" and "int LOGSIZE < lg_size s"
  shows "\<exists>s'. log_write b s = Ok () s'"
proof -
  have inv: "reserve_inv s u" by (rule log_run_inv [OF assms(1)])
  then have fin: "finite (dom u)" by (simp add: reserve_inv_def)
  have "0 < unused u" using unused_upd(2) [OF fin assms(2)] assms(3) by simp
  then have "lh_n s < int LOGSIZE" using inv by (simp add: reserve_inv_def)
  moreover have "0 < card (dom u)" using fin assms(2) by (auto simp: card_gt_0_iff)
  then have "1 \<le> outstanding s" using inv by (simp add: reserve_inv_def)
  ultimately show ?thesis using assms(4) by (simp add: log_write_def upd_buf_def Let_def)
qed

definition idle_log :: "int \<Rightarrow> log_st" where
  "idle_log sz = (bio_st.extend ((boot_bio (\<lambda>_. []))\<lparr>bufs := \<lambda>i. \<lparr>b_valid = True, b_dirty = False, dev = 1, blockno = i,
       refcnt = 1, b_prev = 0, b_next = 0, qnext = None, data = []\<rparr>\<rparr>)
     (log_st.fields 2 sz 0 False 1 0 (replicate LOGSIZE 0)))"

lemma idle_log_simps:
  "lg_size (idle_log sz) = sz" "lh_n (idle_log sz) = 0" "outstanding (idle_log sz) = 0" "\<not> committing (idle_log sz)"
  "lh_block (idle_log sz) = replicate LOGSIZE 0" "blockno (bufs (idle_log sz) b) = b"
  by (simp_all add: idle_log_def boot_bio_def log_st.defs bio_st.defs)

lemma begin_op_ok:
  "\<not> committing s \<Longrightarrow> lh_n s = 0 \<Longrightarrow> outstanding s \<le> 2 \<Longrightarrow>
   begin_op s = Ok () (s\<lparr>outstanding := outstanding s + 1\<rparr>)"
  by (simp add: begin_op_def LOGSIZE_def MAXOPBLOCKS_def)

theorem log_space_reserved_witness:
  "log_run ((idle_log 31)\<lparr>outstanding := 1\<rparr>) [4 \<mapsto> 0] \<and> (\<exists>s'. log_write 9 ((idle_log 31)\<lparr>outstanding := 1\<rparr>) = Ok () s')"
proof -
  have "log_run (idle_log 31) (\<lambda>_. None)" by (rule log_run.init) (simp_all add: idle_log_simps)
  then have run: "log_run ((idle_log 31)\<lparr>outstanding := 1\<rparr>) [4 \<mapsto> 0]"
    by (rule log_run.op_begin) (simp_all add: begin_op_ok idle_log_simps)
  from log_space_reserved [OF run, of 4 0 9] run show ?thesis
    by (simp add: idle_log_simps LOGSIZE_def MAXOPBLOCKS_def)
qed

text \<open>
  The log that \<open>mkfs\<close> lays out has \<open>nlog = LOGSIZE\<close> blocks, its header included, and \<open>begin_op\<close>
  still hands out \<open>LOGSIZE\<close>: three operations of ten blocks each reach the panic in \<open>log_write\<close>.
\<close>

definition usage :: "nat \<Rightarrow> nat \<Rightarrow> nat option" where
  "usage j = (\<lambda>i. if i < 3 then Some (min 10 (j - 10 * i)) else None)"

lemma usage_Suc:
  assumes "j < 30"
  shows "usage j (j div 10) = Some (j mod 10)" and "usage (j + 1) = (usage j)(j div 10 \<mapsto> j mod 10 + 1)"
proof -
  define q r where "q = j div 10" and "r = j mod 10"
  have j: "j = 10 * q + r" "r < 10" "q < 3" using assms by (auto simp: q_def r_def)
  show "usage j (j div 10) = Some (j mod 10)"
    unfolding q_def [symmetric] r_def [symmetric] using j by (simp add: usage_def)
  show "usage (j + 1) = (usage j)(j div 10 \<mapsto> j mod 10 + 1)"
    unfolding q_def [symmetric] r_def [symmetric]
  proof (rule ext)
    fix i
    consider "i < q" | "i = q" | "q < i" by linarith
    then show "usage (j + 1) i = ((usage j)(q \<mapsto> r + 1)) i"
      using j by cases (auto simp: usage_def)
  qed
qed

lemma absorb_fresh: "k \<notin> set xs \<Longrightarrow> absorb xs k i = i + length xs"
  by (induction xs k i rule: absorb.induct) auto

lemma three_ops_fill:
  "j \<le> 29 \<Longrightarrow> \<exists>s :: log_st. log_run s (usage j) \<and> lh_n s = int j \<and> lg_size s = 30 \<and> outstanding s = 3
     \<and> length (lh_block s) = LOGSIZE \<and> take j (lh_block s) = [0..<j] \<and> (\<forall>b. blockno (bufs s b) = b)"
proof (induction j)
  case 0
  have r0: "log_run (idle_log 30) (\<lambda>_. None)" by (rule log_run.init) (simp_all add: idle_log_simps)
  have r1: "log_run ((idle_log 30)\<lparr>outstanding := 1\<rparr>) [0 \<mapsto> 0]"
    by (rule log_run.op_begin [OF r0]) (simp_all add: begin_op_ok idle_log_simps)
  have r2: "log_run ((idle_log 30)\<lparr>outstanding := 2\<rparr>) [0 \<mapsto> 0, 1 \<mapsto> 0]"
    by (rule log_run.op_begin [OF r1]) (simp_all add: begin_op_ok idle_log_simps)
  have r3: "log_run ((idle_log 30)\<lparr>outstanding := 3\<rparr>) [0 \<mapsto> 0, 1 \<mapsto> 0, 2 \<mapsto> 0]"
    by (rule log_run.op_begin [OF r2]) (simp_all add: begin_op_ok idle_log_simps)
  have u0: "usage 0 = [0 \<mapsto> 0, 1 \<mapsto> 0, 2 \<mapsto> 0]" by (auto simp: usage_def fun_eq_iff)
  have "log_run ((idle_log 30)\<lparr>outstanding := 3\<rparr>) (usage 0)" unfolding u0 by (rule r3)
  then show ?case by (intro exI [of _ "(idle_log 30)\<lparr>outstanding := 3\<rparr>"]) (simp add: idle_log_simps)
next
  case (Suc j)
  then obtain s where s: "log_run (s :: log_st) (usage j)" "lh_n s = int j" "lg_size s = 30" "outstanding s = 3"
    "length (lh_block s) = LOGSIZE" "take j (lh_block s) = [0..<j]" "\<forall>b. blockno (bufs s b) = b" by auto
  have j: "j < 30" "j < length (lh_block s)" using Suc.prems s(5) by (auto simp: LOGSIZE_def MAXOPBLOCKS_def)
  define t where "t = s\<lparr>lh_block := (lh_block s)[j := j], lh_n := int j + 1,
    bufs := (bufs s)(j := (bufs s j)\<lparr>b_dirty := True\<rparr>)\<rparr>"
  have w: "log_write j s = Ok () t"
    using s Suc.prems absorb_fresh [of j "[0..<j]" 0]
    by (simp add: log_write_def Let_def upd_buf_def t_def LOGSIZE_def MAXOPBLOCKS_def)
  have "log_run t ((usage j)(j div 10 \<mapsto> j mod 10 + 1))"
    by (rule log_run.op_write [OF s(1) usage_Suc(1) [OF j(1)] _ w]) (simp add: MAXOPBLOCKS_def)
  then have "log_run t (usage (Suc j))" using usage_Suc(2) [OF j(1)] by simp
  moreover have "take (Suc j) ((lh_block s)[j := j]) = [0..<Suc j]"
    using s(6) j(2) by (simp add: take_Suc_conv_app_nth)
  ultimately show ?case using s j by (intro exI [of _ t]) (simp add: t_def)
qed

text \<open>C21. With the log size mkfs chooses, LOGSIZE blocks including the header, operations that begin_op
  admitted and that respect MAXOPBLOCKS can reach the panic of log_write.\<close>

theorem log_nlog_too_small:
  "\<exists>(s :: log_st) u i k. log_run s u \<and> lg_size s = int LOGSIZE \<and> u i = Some k \<and> k < MAXOPBLOCKS
     \<and> log_write b s = Panic ''too big a transaction''"
proof -
  obtain s where s: "log_run (s :: log_st) (usage 29)" "lh_n s = 29" "lg_size s = 30" using three_ops_fill [of 29] by auto
  have "usage 29 2 = Some 9" by (simp add: usage_def)
  moreover have "log_write b s = Panic ''too big a transaction''" using s by (simp add: log_write_def)
  ultimately show ?thesis using s by (intro exI [of _ s] exI [of _ "usage 29"] exI [of _ 2] exI [of _ 9])
    (simp add: LOGSIZE_def MAXOPBLOCKS_def)
qed

end
