(* ===== verification/Fs.thy ===== *)
theory Fs
  imports Log
begin

text \<open>
  Blocks, inodes and file content: \<open>src/lab10xv6/xv6/fs.c\<close> up to the directory layer, with the
  on-disk formats of \<open>fs.h\<close>.

  A \<open>struct inode *\<close> is the index of the cache entry in \<open>icache.inode\<close>.  On disk an inode is the 64
  bytes of \<open>struct dinode\<close>; \<open>dec_inode\<close> and \<open>put_inode\<close> are the field-by-field copies of \<open>ilock\<close> and
  \<open>iupdate\<close>.  \<open>readi\<close> returns the bytes it copies to \<open>dst\<close>, \<open>writei\<close> takes the bytes at \<open>src\<close>.
  Device files go through the table \<open>devsw\<close>, whose functions are the parameter \<open>dv\<close>.
\<close>

section \<open>Formats\<close>

definition get16 :: "byte list \<Rightarrow> nat \<Rightarrow> nat" where
  "get16 bs k = unat (bs ! k) + 2 ^ 8 * unat (bs ! (k + 1))"

definition enc16 :: "nat \<Rightarrow> byte list" where
  "enc16 v = [of_nat v, of_nat (v div 2 ^ 8)]"

definition put16 :: "byte list \<Rightarrow> nat \<Rightarrow> nat \<Rightarrow> byte list" where
  "put16 bs k v = bput bs k (enc16 v)"

definition s16 :: "nat \<Rightarrow> int" where
  "s16 n = (if n < 2 ^ 15 then int n else int n - 2 ^ 16)"

definition u16 :: "int \<Rightarrow> nat" where
  "u16 i = nat (i mod 2 ^ 16)"

definition NDIRECT :: nat where "NDIRECT = 12"
definition NINDIRECT :: nat where "NINDIRECT = BSIZE div 4"
definition MAXFILE :: nat where "MAXFILE = NDIRECT + NINDIRECT"
definition IPB :: nat where "IPB = BSIZE div 64"
definition BPB :: nat where "BPB = BSIZE * 8"
definition NINODE :: nat where "NINODE = 50"
definition NDEV :: int where "NDEV = 10"
definition T_DIR :: int where "T_DIR = 1"
definition T_FILE :: int where "T_FILE = 2"
definition T_DEV :: int where "T_DEV = 3"

definition IBLOCK :: "nat \<Rightarrow> superblock \<Rightarrow> nat" where "IBLOCK i sb = i div IPB + inodestart sb"
definition BBLOCK :: "nat \<Rightarrow> superblock \<Rightarrow> nat" where "BBLOCK b sb = b div BPB + bmapstart sb"

record inode =
  i_dev :: nat
  i_inum :: nat
  i_ref :: int
  i_valid :: bool
  i_type :: int
  i_major :: int
  i_minor :: int
  i_nlink :: int
  i_size :: nat
  addrs :: "nat list"

record fs_st = log_st +
  sb :: superblock
  inodes :: "nat \<Rightarrow> inode"

record stat =
  st_type :: int
  st_dev :: nat
  st_ino :: nat
  st_nlink :: int
  st_size :: nat

type_synonym 's devsw = "int \<Rightarrow> ((nat \<Rightarrow> nat \<Rightarrow> ('s, int \<times> byte list) kern) \<times> (nat \<Rightarrow> byte list \<Rightarrow> ('s, int) kern)) option"

definition ip_at :: "nat \<Rightarrow> ('z fs_st_scheme, inode) kern" where
  "ip_at ip = getk (\<lambda>s. inodes s ip)"

definition upd_ip :: "nat \<Rightarrow> (inode \<Rightarrow> inode) \<Rightarrow> ('z fs_st_scheme, unit) kern" where
  "upd_ip ip f = modk (\<lambda>s. s\<lparr>inodes := (inodes s)(ip := f (inodes s ip))\<rparr>)"

definition bdata :: "nat \<Rightarrow> ('z bio_st_scheme, byte list) kern" where
  "bdata b = getk (\<lambda>s. data (bufs s b))"

section \<open>Blocks\<close>

definition bzero :: "nat \<Rightarrow> nat \<Rightarrow> ('z log_st_scheme, unit) kern" where
  "bzero d bno =
     bnd (bread d bno) (\<lambda>bp.
     bnd (bset bp (\<lambda>_. replicate BSIZE 0)) (\<lambda>_.
     bnd (log_write bp) (\<lambda>_.
     brelse bp)))"

definition bmask :: "nat \<Rightarrow> byte" where
  "bmask bi = push_bit (bi mod 8) 1"

definition bit_clear :: "byte list \<Rightarrow> nat \<Rightarrow> bool" where
  "bit_clear bs bi \<longleftrightarrow> bs ! (bi div 8) AND bmask bi = 0"

definition mark_bit :: "nat \<Rightarrow> byte list \<Rightarrow> byte list" where
  "mark_bit bi bs = bs[bi div 8 := bs ! (bi div 8) OR bmask bi]"

definition wipe_bit :: "nat \<Rightarrow> byte list \<Rightarrow> byte list" where
  "wipe_bit bi bs = bs[bi div 8 := bs ! (bi div 8) AND NOT (bmask bi)]"

function balloc_loop :: "nat \<Rightarrow> superblock \<Rightarrow> nat \<Rightarrow> ('z log_st_scheme, nat) kern" where
  "balloc_loop d sbk b s =
     (if b < sb_size sbk
      then bnd (bread d (BBLOCK b sbk)) (\<lambda>bp.
           bnd (bdata bp) (\<lambda>bs.
           case find (\<lambda>bi. bit_clear bs bi) [0..<min BPB (sb_size sbk - b)] of
             Some bi \<Rightarrow>
               bnd (bset bp (mark_bit bi)) (\<lambda>_.
               bnd (log_write bp) (\<lambda>_.
               bnd (brelse bp) (\<lambda>_.
               bnd (bzero d (b + bi)) (\<lambda>_.
               ret (b + bi)))))
           | None \<Rightarrow> bnd (brelse bp) (\<lambda>_. balloc_loop d sbk (b + BPB)))) s
      else Panic ''balloc: out of blocks'')"
  by pat_completeness auto
termination
  by (relation "measure (\<lambda>(d, sbk, b, s). sb_size sbk - b)") (auto simp: BPB_def BSIZE_def)

declare balloc_loop.simps [simp del]

definition balloc :: "nat \<Rightarrow> ('z fs_st_scheme, nat) kern" where
  "balloc d = bnd (getk sb) (\<lambda>sbk. balloc_loop d sbk 0)"

definition bfree :: "nat \<Rightarrow> nat \<Rightarrow> ('z fs_st_scheme, unit) kern" where
  "bfree d b =
     bnd (getk sb) (\<lambda>sbk.
     bnd (bread d (BBLOCK b sbk)) (\<lambda>bp.
     bnd (bdata bp) (\<lambda>bs.
     let bi = b mod BPB in
     if bit_clear bs bi then panic ''freeing free block''
     else bnd (bset bp (wipe_bit bi)) (\<lambda>_.
          bnd (log_write bp) (\<lambda>_.
          brelse bp)))))"

section \<open>Inodes\<close>

definition iinit :: "nat \<Rightarrow> ('z fs_st_scheme, unit) kern" where
  "iinit d =
     bnd (initlock IcacheLock) (\<lambda>_.
     bnd (for_each (\<lambda>i. initsleeplock (InodeSleep i)) [0..<NINODE]) (\<lambda>_.
     bnd (readsb d) (\<lambda>x. modk (\<lambda>s. s\<lparr>sb := x\<rparr>))))"

text \<open>The in-memory entry found by \<open>iget\<close>: the cached one, else the first free one.\<close>

definition iget :: "nat \<Rightarrow> nat \<Rightarrow> ('z fs_st_scheme, nat) kern" where
  "iget d inum =
     bnd (getk inodes) (\<lambda>ic.
     case find (\<lambda>i. i_ref (ic i) > 0 \<and> i_dev (ic i) = d \<and> i_inum (ic i) = inum) [0..<NINODE] of
       Some ip \<Rightarrow> bnd (upd_ip ip (\<lambda>x. x\<lparr>i_ref := i_ref x + 1\<rparr>)) (\<lambda>_. ret ip)
     | None \<Rightarrow>
         (case find (\<lambda>i. i_ref (ic i) = 0) [0..<NINODE] of
            None \<Rightarrow> panic ''iget: no inodes''
          | Some ip \<Rightarrow>
              bnd (upd_ip ip (\<lambda>x. x\<lparr>i_dev := d, i_inum := inum, i_ref := 1, i_valid := False\<rparr>)) (\<lambda>_. ret ip)))"

definition doff :: "nat \<Rightarrow> nat" where
  "doff inum = 64 * (inum mod IPB)"

fun ialloc_loop :: "nat \<Rightarrow> int \<Rightarrow> nat list \<Rightarrow> ('z fs_st_scheme, nat) kern" where
  "ialloc_loop d ty [] s = Panic ''ialloc: no inodes''"
| "ialloc_loop d ty (inum # is) s =
     bnd (getk sb) (\<lambda>sbk.
     bnd (bread d (IBLOCK inum sbk)) (\<lambda>bp.
     bnd (bdata bp) (\<lambda>bs.
     if get16 bs (doff inum) = 0
     then bnd (bset bp (\<lambda>x. bput x (doff inum) (replicate 64 0))) (\<lambda>_.
          bnd (bset bp (\<lambda>x. put16 x (doff inum) (u16 ty))) (\<lambda>_.
          bnd (log_write bp) (\<lambda>_.
          bnd (brelse bp) (\<lambda>_.
          iget d inum))))
     else bnd (brelse bp) (\<lambda>_. ialloc_loop d ty is)))) s"

definition ialloc :: "nat \<Rightarrow> int \<Rightarrow> ('z fs_st_scheme, nat) kern" where
  "ialloc d ty = bnd (getk sb) (\<lambda>sbk. ialloc_loop d ty [1..<ninodes sbk])"

fun put_addrs :: "byte list \<Rightarrow> nat \<Rightarrow> nat list \<Rightarrow> byte list" where
  "put_addrs bs k [] = bs"
| "put_addrs bs k (x # xs) = put_addrs (put32 bs k x) (k + 4) xs"

definition put_inode :: "inode \<Rightarrow> nat \<Rightarrow> byte list \<Rightarrow> byte list" where
  "put_inode ip k bs =
     put_addrs (put32 (put16 (put16 (put16 (put16 bs k (u16 (i_type ip))) (k + 2) (u16 (i_major ip)))
       (k + 4) (u16 (i_minor ip))) (k + 6) (u16 (i_nlink ip))) (k + 8) (i_size ip)) (k + 12) (addrs ip)"

definition iupdate :: "nat \<Rightarrow> ('z fs_st_scheme, unit) kern" where
  "iupdate ip =
     bnd (getk sb) (\<lambda>sbk.
     bnd (ip_at ip) (\<lambda>x.
     bnd (bread (i_dev x) (IBLOCK (i_inum x) sbk)) (\<lambda>bp.
     bnd (bset bp (put_inode x (doff (i_inum x)))) (\<lambda>_.
     bnd (log_write bp) (\<lambda>_.
     brelse bp)))))"

definition idup :: "nat \<Rightarrow> ('z fs_st_scheme, nat) kern" where
  "idup ip = bnd (upd_ip ip (\<lambda>x. x\<lparr>i_ref := i_ref x + 1\<rparr>)) (\<lambda>_. ret ip)"

definition dec_inode :: "byte list \<Rightarrow> nat \<Rightarrow> inode \<Rightarrow> inode" where
  "dec_inode bs k x = x\<lparr>i_type := s16 (get16 bs k), i_major := s16 (get16 bs (k + 2)),
     i_minor := s16 (get16 bs (k + 4)), i_nlink := s16 (get16 bs (k + 6)), i_size := get32 bs (k + 8),
     addrs := map (\<lambda>i. get32 bs (k + 12 + 4 * i)) [0..<NDIRECT + 1]\<rparr>"

definition ilock :: "nat option \<Rightarrow> ('z fs_st_scheme, unit) kern" where
  "ilock ipo =
     (case ipo of
        None \<Rightarrow> panic ''ilock''
      | Some ip \<Rightarrow>
          bnd (ip_at ip) (\<lambda>x.
          if i_ref x < 1 then panic ''ilock''
          else bnd (acquiresleep (InodeSleep ip)) (\<lambda>_.
               bnd (ip_at ip) (\<lambda>x.
               if \<not> i_valid x
               then bnd (getk sb) (\<lambda>sbk.
                    bnd (bread (i_dev x) (IBLOCK (i_inum x) sbk)) (\<lambda>bp.
                    bnd (bdata bp) (\<lambda>bs.
                    bnd (upd_ip ip (dec_inode bs (doff (i_inum x)))) (\<lambda>_.
                    bnd (brelse bp) (\<lambda>_.
                    bnd (upd_ip ip (\<lambda>x. x\<lparr>i_valid := True\<rparr>)) (\<lambda>_.
                    bnd (ip_at ip) (\<lambda>x.
                    if i_type x = 0 then panic ''ilock: no type'' else ret ())))))))
               else ret ()))))"

definition iunlock :: "nat option \<Rightarrow> ('z fs_st_scheme, unit) kern" where
  "iunlock ipo =
     (case ipo of
        None \<Rightarrow> panic ''iunlock''
      | Some ip \<Rightarrow>
          bnd (holdingsleep (InodeSleep ip)) (\<lambda>h.
          bnd (ip_at ip) (\<lambda>x.
          if \<not> h \<or> i_ref x < 1 then panic ''iunlock'' else releasesleep (InodeSleep ip))))"

section \<open>The blocks of a file\<close>

definition bmap :: "nat \<Rightarrow> nat \<Rightarrow> ('z fs_st_scheme, nat) kern" where
  "bmap ip bn =
     bnd (ip_at ip) (\<lambda>x.
     if bn < NDIRECT
     then if addrs x ! bn = 0
          then bnd (balloc (i_dev x)) (\<lambda>addr.
               bnd (upd_ip ip (\<lambda>y. y\<lparr>addrs := (addrs y)[bn := addr]\<rparr>)) (\<lambda>_. ret addr))
          else ret (addrs x ! bn)
     else let bn = bn - NDIRECT in
     if bn < NINDIRECT
     then bnd (if addrs x ! NDIRECT = 0
               then bnd (balloc (i_dev x)) (\<lambda>addr.
                    bnd (upd_ip ip (\<lambda>y. y\<lparr>addrs := (addrs y)[NDIRECT := addr]\<rparr>)) (\<lambda>_. ret addr))
               else ret (addrs x ! NDIRECT)) (\<lambda>ind.
          bnd (bread (i_dev x) ind) (\<lambda>bp.
          bnd (bdata bp) (\<lambda>bs.
          bnd (if get32 bs (4 * bn) = 0
               then bnd (balloc (i_dev x)) (\<lambda>addr.
                    bnd (bset bp (\<lambda>y. put32 y (4 * bn) addr)) (\<lambda>_.
                    bnd (log_write bp) (\<lambda>_. ret addr)))
               else ret (get32 bs (4 * bn))) (\<lambda>addr.
          bnd (brelse bp) (\<lambda>_. ret addr)))))
     else panic ''bmap: out of range'')"

definition itrunc_direct :: "nat \<Rightarrow> nat \<Rightarrow> ('z fs_st_scheme, unit) kern" where
  "itrunc_direct ip i =
     bnd (ip_at ip) (\<lambda>x.
     if addrs x ! i \<noteq> 0
     then bnd (bfree (i_dev x) (addrs x ! i)) (\<lambda>_. upd_ip ip (\<lambda>y. y\<lparr>addrs := (addrs y)[i := 0]\<rparr>))
     else ret ())"

definition itrunc :: "nat \<Rightarrow> ('z fs_st_scheme, unit) kern" where
  "itrunc ip =
     bnd (for_each (itrunc_direct ip) [0..<NDIRECT]) (\<lambda>_.
     bnd (ip_at ip) (\<lambda>x.
     bnd (if addrs x ! NDIRECT \<noteq> 0
          then bnd (bread (i_dev x) (addrs x ! NDIRECT)) (\<lambda>bp.
               bnd (bdata bp) (\<lambda>bs.
               bnd (for_each (\<lambda>j. if get32 bs (4 * j) \<noteq> 0 then bfree (i_dev x) (get32 bs (4 * j)) else ret ())
                      [0..<NINDIRECT]) (\<lambda>_.
               bnd (brelse bp) (\<lambda>_.
               bnd (bfree (i_dev x) (addrs x ! NDIRECT)) (\<lambda>_.
               upd_ip ip (\<lambda>y. y\<lparr>addrs := (addrs y)[NDIRECT := 0]\<rparr>))))))
          else ret ()) (\<lambda>_.
     bnd (upd_ip ip (\<lambda>y. y\<lparr>i_size := 0\<rparr>)) (\<lambda>_.
     iupdate ip))))"

definition iput :: "nat \<Rightarrow> ('z fs_st_scheme, unit) kern" where
  "iput ip =
     bnd (acquiresleep (InodeSleep ip)) (\<lambda>_.
     bnd (ip_at ip) (\<lambda>x.
     bnd (if i_valid x \<and> i_nlink x = 0 \<and> i_ref x = 1
          then bnd (itrunc ip) (\<lambda>_.
               bnd (upd_ip ip (\<lambda>y. y\<lparr>i_type := 0\<rparr>)) (\<lambda>_.
               bnd (iupdate ip) (\<lambda>_.
               upd_ip ip (\<lambda>y. y\<lparr>i_valid := False\<rparr>))))
          else ret ()) (\<lambda>_.
     bnd (releasesleep (InodeSleep ip)) (\<lambda>_.
     upd_ip ip (\<lambda>y. y\<lparr>i_ref := i_ref y - 1\<rparr>)))))"

definition iunlockput :: "nat option \<Rightarrow> ('z fs_st_scheme, unit) kern" where
  "iunlockput ipo = bnd (iunlock ipo) (\<lambda>_. case ipo of None \<Rightarrow> panic ''iunlock'' | Some ip \<Rightarrow> iput ip)"

definition stati :: "nat \<Rightarrow> ('z fs_st_scheme, stat) kern" where
  "stati ip = bnd (ip_at ip) (\<lambda>x. ret \<lparr>st_type = i_type x, st_dev = i_dev x, st_ino = i_inum x,
     st_nlink = i_nlink x, st_size = i_size x\<rparr>)"

section \<open>Reading and writing\<close>

definition chunk :: "nat \<Rightarrow> nat \<Rightarrow> nat" where
  "chunk off left = min left (BSIZE - off mod BSIZE)"

lemma chunk_bounds [simp]: "0 < left \<Longrightarrow> 0 < chunk off left" "chunk off left \<le> left"
  "off mod BSIZE + chunk off left \<le> BSIZE"
proof -
  have "off mod BSIZE < BSIZE" by (simp add: BSIZE_def)
  then show "0 < left \<Longrightarrow> 0 < chunk off left" "chunk off left \<le> left" "off mod BSIZE + chunk off left \<le> BSIZE"
    by (auto simp: chunk_def)
qed

function readi_loop :: "nat \<Rightarrow> nat \<Rightarrow> nat \<Rightarrow> ('z fs_st_scheme, byte list) kern" where
  "readi_loop ip off left s =
     (if 0 < left
      then bnd (ip_at ip) (\<lambda>x.
           bnd (bmap ip (off div BSIZE)) (\<lambda>k.
           bnd (bread (i_dev x) k) (\<lambda>bp.
           bnd (bdata bp) (\<lambda>bs.
           bnd (brelse bp) (\<lambda>_.
           bnd (readi_loop ip (off + chunk off left) (left - chunk off left)) (\<lambda>rest.
           ret (take (chunk off left) (drop (off mod BSIZE) bs) @ rest))))))) s
      else Ok [] s)"
  by pat_completeness auto
termination
  by (relation "measure (\<lambda>(ip, off, left, s). left)") auto

declare readi_loop.simps [simp del]

text \<open>\<open>off\<close> and \<open>n\<close> are \<open>uint\<close>: the sum wraps.\<close>

definition readi :: "'z fs_st_scheme devsw \<Rightarrow> nat \<Rightarrow> nat \<Rightarrow> nat \<Rightarrow> ('z fs_st_scheme, int \<times> byte list) kern" where
  "readi dv ip off n =
     bnd (ip_at ip) (\<lambda>x.
     if i_type x = T_DEV
     then if i_major x < 0 \<or> i_major x \<ge> NDEV then ret (- 1, [])
          else (case dv (i_major x) of None \<Rightarrow> ret (- 1, []) | Some (rd, _) \<Rightarrow> rd ip n)
     else if off > i_size x \<or> (off + n) mod 2 ^ 32 < off then ret (- 1, [])
     else let n = (if (off + n) mod 2 ^ 32 > i_size x then i_size x - off else n)
          in bnd (readi_loop ip off n) (\<lambda>bs. ret (int n, bs)))"

function writei_loop :: "nat \<Rightarrow> nat \<Rightarrow> byte list \<Rightarrow> ('z fs_st_scheme, unit) kern" where
  "writei_loop ip off src s =
     (if 0 < length src
      then bnd (ip_at ip) (\<lambda>x.
           bnd (bmap ip (off div BSIZE)) (\<lambda>k.
           bnd (bread (i_dev x) k) (\<lambda>bp.
           bnd (bset bp (\<lambda>bs. bput bs (off mod BSIZE) (take (chunk off (length src)) src))) (\<lambda>_.
           bnd (log_write bp) (\<lambda>_.
           bnd (brelse bp) (\<lambda>_.
           writei_loop ip (off + chunk off (length src)) (drop (chunk off (length src)) src))))))) s
      else Ok () s)"
  by pat_completeness auto
termination
proof (relation "measure (\<lambda>(ip, off, src, s). length src)", goal_cases)
  case (2 ip off src s x xa xb xc xd xe xf)
  then have "0 < chunk off (length src)" by simp
  with 2 show ?case by simp
qed simp

declare writei_loop.simps [simp del]

definition writei :: "'z fs_st_scheme devsw \<Rightarrow> nat \<Rightarrow> nat \<Rightarrow> byte list \<Rightarrow> ('z fs_st_scheme, int) kern" where
  "writei dv ip off src =
     bnd (ip_at ip) (\<lambda>x.
     let n = length src in
     if i_type x = T_DEV
     then if i_major x < 0 \<or> i_major x \<ge> NDEV then ret (- 1)
          else (case dv (i_major x) of None \<Rightarrow> ret (- 1) | Some (_, wr) \<Rightarrow> wr ip src)
     else if off > i_size x \<or> (off + n) mod 2 ^ 32 < off then ret (- 1)
     else if (off + n) mod 2 ^ 32 > MAXFILE * BSIZE then ret (- 1)
     else bnd (writei_loop ip off src) (\<lambda>_.
          bnd (ip_at ip) (\<lambda>y.
          bnd (if n > 0 \<and> off + n > i_size y
               then bnd (upd_ip ip (\<lambda>z. z\<lparr>i_size := off + n\<rparr>)) (\<lambda>_. iupdate ip)
               else ret ()) (\<lambda>_.
          ret (int n)))))"

end
