(* ===== verification/Dir.thy ===== *)
theory Dir
  imports Fs
begin

text \<open>
  Directories and path names: the second half of \<open>src/lab10xv6/xv6/fs.c\<close>.

  A directory entry is the 16 bytes of \<open>struct dirent\<close>.  A C string is the list of its bytes before
  the terminator; the element buffer \<open>name\<close> is a byte list of length \<open>DIRSIZ\<close>, of which \<open>skipelem\<close>
  overwrites a prefix.  Device tables are passed through to \<open>readi\<close> and \<open>writei\<close>.
\<close>

definition DIRSIZ :: nat where "DIRSIZ = 14"
definition sizeof_dirent :: nat where "sizeof_dirent = 16"
definition ROOTINO :: nat where "ROOTINO = 1"
definition slash :: byte where "slash = 47"

text \<open>Reading a byte list as a C string.\<close>

definition cs :: "byte list \<Rightarrow> nat \<Rightarrow> byte" where
  "cs xs i = (if i < length xs then xs ! i else 0)"

definition namecmp :: "byte list \<Rightarrow> byte list \<Rightarrow> int" where
  "namecmp s t = strncmp (cs s) (cs t) DIRSIZ"

definition de_inum :: "byte list \<Rightarrow> nat" where "de_inum de = get16 de 0"
definition de_name :: "byte list \<Rightarrow> byte list" where "de_name de = take DIRSIZ (drop 2 de)"

section \<open>Looking up and linking\<close>

function dirlookup_loop ::
  "'z fs_st_scheme devsw \<Rightarrow> nat \<Rightarrow> byte list \<Rightarrow> nat \<Rightarrow> nat \<Rightarrow> ('z fs_st_scheme, (nat \<times> nat) option) kern" where
  "dirlookup_loop dv dp name dsz off s =
     (if off < dsz
      then bnd (readi dv dp off sizeof_dirent) (\<lambda>(r, de).
           if r \<noteq> int sizeof_dirent then panic ''dirlookup read''
           else if de_inum de = 0 then dirlookup_loop dv dp name dsz (off + sizeof_dirent)
           else if namecmp name (de_name de) = 0
           then bnd (ip_at dp) (\<lambda>x. bnd (iget (i_dev x) (de_inum de)) (\<lambda>ip. ret (Some (ip, off))))
           else dirlookup_loop dv dp name dsz (off + sizeof_dirent)) s
      else Ok None s)"
  by pat_completeness auto
termination
  by (relation "measure (\<lambda>(dv, dp, name, dsz, off, s). dsz - off)") (auto simp: sizeof_dirent_def)

declare dirlookup_loop.simps [simp del]

definition dirlookup ::
  "'z fs_st_scheme devsw \<Rightarrow> nat \<Rightarrow> byte list \<Rightarrow> ('z fs_st_scheme, (nat \<times> nat) option) kern" where
  "dirlookup dv dp name =
     bnd (ip_at dp) (\<lambda>x.
     if i_type x \<noteq> T_DIR then panic ''dirlookup not DIR''
     else dirlookup_loop dv dp name (i_size x) 0)"

function empty_dirent :: "'z fs_st_scheme devsw \<Rightarrow> nat \<Rightarrow> nat \<Rightarrow> nat \<Rightarrow> ('z fs_st_scheme, nat) kern" where
  "empty_dirent dv dp dsz off s =
     (if off < dsz
      then bnd (readi dv dp off sizeof_dirent) (\<lambda>(r, de).
           if r \<noteq> int sizeof_dirent then panic ''dirlink read''
           else if de_inum de = 0 then ret off
           else empty_dirent dv dp dsz (off + sizeof_dirent)) s
      else Ok off s)"
  by pat_completeness auto
termination
  by (relation "measure (\<lambda>(dv, dp, dsz, off, s). dsz - off)") (auto simp: sizeof_dirent_def)

declare empty_dirent.simps [simp del]

text \<open>\<open>strncpy(de.name, name, DIRSIZ)\<close>: the string, cut or padded with NULs to \<open>DIRSIZ\<close> bytes.\<close>

definition pad_name :: "byte list \<Rightarrow> byte list" where
  "pad_name name = (let t = cstrn (cs name) DIRSIZ in t @ replicate (DIRSIZ - length t) 0)"

definition enc_dirent :: "nat \<Rightarrow> byte list \<Rightarrow> byte list" where
  "enc_dirent inum name = enc16 (inum mod 2 ^ 16) @ pad_name name"

definition dirlink ::
  "'z fs_st_scheme devsw \<Rightarrow> nat \<Rightarrow> byte list \<Rightarrow> nat \<Rightarrow> ('z fs_st_scheme, int) kern" where
  "dirlink dv dp name inum =
     bnd (dirlookup dv dp name) (\<lambda>r.
     case r of
       Some (ip, _) \<Rightarrow> bnd (iput ip) (\<lambda>_. ret (- 1))
     | None \<Rightarrow>
         bnd (ip_at dp) (\<lambda>x.
         bnd (empty_dirent dv dp (i_size x) 0) (\<lambda>off.
         bnd (writei dv dp off (enc_dirent inum name)) (\<lambda>n.
         if n \<noteq> int sizeof_dirent then panic ''dirlink'' else ret 0))))"

section \<open>Paths\<close>

definition skipelem :: "byte list \<Rightarrow> byte list \<Rightarrow> (byte list \<times> byte list) option" where
  "skipelem path name =
     (let path = dropWhile (\<lambda>c. c = slash) path in
      if path = [] then None
      else let s = takeWhile (\<lambda>c. c \<noteq> slash) path;
               path = dropWhile (\<lambda>c. c \<noteq> slash) path;
               name = (if length s \<ge> DIRSIZ then bput name 0 (take DIRSIZ s) else bput name 0 (s @ [0]))
           in Some (dropWhile (\<lambda>c. c = slash) path, name))"

lemma skipelem_shorter: "skipelem path name = Some (p, n) \<Longrightarrow> length p < length path"
proof -
  assume "skipelem path name = Some (p, n)"
  then have ne: "dropWhile (\<lambda>c. c = slash) path \<noteq> []"
    and p': "p = dropWhile (\<lambda>c. c = slash) (dropWhile (\<lambda>c. c \<noteq> slash) (dropWhile (\<lambda>c. c = slash) path))"
    by (simp_all only: skipelem_def Let_def split: if_splits) auto
  obtain c q where q: "dropWhile (\<lambda>c. c = slash) path = c # q" by (cases "dropWhile (\<lambda>c. c = slash) path") (use ne in blast)+
  have p: "p = dropWhile (\<lambda>c. c = slash) (dropWhile (\<lambda>c. c \<noteq> slash) (c # q))" using p' by (simp only: q)
  have "c \<noteq> slash" using hd_dropWhile [OF ne] unfolding q by simp
  then have "length p \<le> length q"
    using p by (simp add: order.trans [OF length_dropWhile_le length_dropWhile_le])
  moreover have "length (c # q) \<le> length path" using q length_dropWhile_le [of "\<lambda>c. c = slash" path] by simp
  ultimately show ?thesis by simp
qed

function namex_loop ::
  "'z fs_st_scheme devsw \<Rightarrow> bool \<Rightarrow> nat \<Rightarrow> byte list \<Rightarrow> byte list \<Rightarrow> ('z fs_st_scheme, nat option \<times> byte list) kern" where
  "namex_loop dv want ip path name s =
     (case skipelem path name of
        None \<Rightarrow>
          if want then bnd (iput ip) (\<lambda>_. ret (None, name)) s else Ok (Some ip, name) s
      | Some (path', name') \<Rightarrow>
          bnd (ilock (Some ip)) (\<lambda>_.
          bnd (ip_at ip) (\<lambda>x.
          if i_type x \<noteq> T_DIR then bnd (iunlockput (Some ip)) (\<lambda>_. ret (None, name'))
          else if want \<and> path' = [] then bnd (iunlock (Some ip)) (\<lambda>_. ret (Some ip, name'))
          else bnd (dirlookup dv ip name') (\<lambda>r.
               case r of
                 None \<Rightarrow> bnd (iunlockput (Some ip)) (\<lambda>_. ret (None, name'))
               | Some (next, _) \<Rightarrow>
                   bnd (iunlockput (Some ip)) (\<lambda>_. namex_loop dv want next path' name')))) s)"
  by pat_completeness auto
termination
  by (relation "measure (\<lambda>(dv, want, ip, path, name, s). length path)") (auto dest: skipelem_shorter)

declare namex_loop.simps [simp del]

definition namex ::
  "'z fs_st_scheme devsw \<Rightarrow> byte list \<Rightarrow> bool \<Rightarrow> byte list \<Rightarrow> ('z fs_st_scheme, nat option \<times> byte list) kern" where
  "namex dv path want name =
     bnd (if path \<noteq> [] \<and> hd path = slash then iget ROOTDEV ROOTINO
          else bnd (getk this_proc) (\<lambda>po. case po of
                 None \<Rightarrow> panic ''fault: no process''
               | Some p \<Rightarrow> bnd (getk (\<lambda>s. cwd (procs s p))) (\<lambda>c. case c of
                   None \<Rightarrow> panic ''fault: no cwd'' | Some ip \<Rightarrow> idup ip))) (\<lambda>ip.
     namex_loop dv want ip path name)"

definition namei :: "'z fs_st_scheme devsw \<Rightarrow> byte list \<Rightarrow> ('z fs_st_scheme, nat option) kern" where
  "namei dv path = bnd (namex dv path False (replicate DIRSIZ 0)) (\<lambda>(r, _). ret r)"

definition nameiparent ::
  "'z fs_st_scheme devsw \<Rightarrow> byte list \<Rightarrow> byte list \<Rightarrow> ('z fs_st_scheme, nat option \<times> byte list) kern" where
  "nameiparent dv path name = namex dv path True name"

section \<open>Names\<close>

text \<open>
  The path as a list of components, and the component a name buffer holds: two names are equal
  for the directory layer when their first \<open>DIRSIZ\<close> bytes are.
\<close>

function comps :: "byte list \<Rightarrow> byte list list" where
  "comps [] = []"
| "comps (c # xs) =
     (if c = slash then comps xs
      else takeWhile (\<lambda>x. x \<noteq> slash) (c # xs) # comps (dropWhile (\<lambda>x. x \<noteq> slash) xs))"
  by pat_completeness auto
termination
  by (relation "measure length") (auto simp: less_Suc_eq_le length_dropWhile_le)

declare comps.simps(2) [simp del]

lemma comps_slash: "comps (dropWhile (\<lambda>c. c = slash) path) = comps path"
  by (induction path) (auto simp: comps.simps)

lemma cstrn_cs: "0 \<notin> set xs \<Longrightarrow> cstrn (cs xs) n = take n xs"
proof (induction xs arbitrary: n)
  case Nil
  then show ?case by (cases n) (simp_all add: cstrn_Suc cs_def)
next
  case (Cons x xs)
  have "(\<lambda>i. cs (x # xs) (i + 1)) = cs xs" by (simp add: cs_def fun_eq_iff)
  with Cons show ?case by (cases n) (simp_all add: cstrn_Suc, simp add: cs_def)
qed

lemma comps_dropWhile:
  "path \<noteq> [] \<Longrightarrow> hd path \<noteq> slash \<Longrightarrow>
   comps path = takeWhile (\<lambda>x. x \<noteq> slash) path # comps (dropWhile (\<lambda>x. x \<noteq> slash) path)"
  by (cases path) (simp_all add: comps.simps)

lemma cstrn_prefix:
  assumes "\<And>i. i < n \<Longrightarrow> p i = q i"
  shows "cstrn p n = cstrn q n"
  unfolding cstrn_def by (rule arg_cong [where f = "takeWhile _"]) (use assms in simp)

lemma cs_bput_0:
  assumes "length ys \<le> length name" and "i < length ys"
  shows "cs (bput name 0 ys) i = ys ! i"
  using assms by (simp add: cs_def nth_bput)

lemma name_buffer:
  assumes len: "length name = DIRSIZ" and nz: "0 \<notin> set c"
  shows "cstrn (cs (if length c \<ge> DIRSIZ then bput name 0 (take DIRSIZ c) else bput name 0 (c @ [0]))) DIRSIZ = take DIRSIZ c"
proof (cases "length c \<ge> DIRSIZ")
  case True
  have "cstrn (cs (bput name 0 (take DIRSIZ c))) DIRSIZ = cstrn (cs c) DIRSIZ"
    by (rule cstrn_prefix) (use True len in \<open>simp add: cs_bput_0, simp add: cs_def\<close>)
  with True nz show ?thesis by (simp add: cstrn_cs)
next
  case False
  let ?b = "bput name 0 (c @ [0])"
  have b: "?b = c @ 0 # drop (length c + 1) name" by (simp add: bput_def)
  have "cs ?b i = (c @ 0 # drop (length c + 1) name) ! i" if "i < DIRSIZ" for i
    using that False len by (simp add: cs_def b)
  then have "map (cs ?b) [0..<DIRSIZ] = map ((!) (c @ 0 # drop (length c + 1) name)) [0..<DIRSIZ]" by simp
  also have "\<dots> = c @ 0 # drop (length c + 1) name"
    using False len map_nth [of "c @ 0 # drop (length c + 1) name"] by simp
  finally have "cstrn (cs ?b) DIRSIZ = takeWhile (\<lambda>x. x \<noteq> 0) (c @ 0 # drop (length c + 1) name)" by (simp add: cstrn_def)
  also have "\<dots> = c" using nz by (subst takeWhile_append2) auto
  finally show ?thesis using False by simp
qed

section \<open>Properties\<close>

text \<open>skipelem splits a path into its components: it fails exactly when no component is left, and
  otherwise leaves the remaining components in the path and the next one in the name buffer,
  cut to DIRSIZ bytes, whatever the buffer held before.\<close>

lemma skipelem_components:
  assumes "length name = DIRSIZ" and "0 \<notin> set path"
  shows "case skipelem path name of
      None \<Rightarrow> comps path = []
    | Some (path', name') \<Rightarrow> comps path = hd (comps path) # comps path' \<and> length name' = DIRSIZ
        \<and> cstrn (cs name') DIRSIZ = take DIRSIZ (hd (comps path)) \<and> length path' < length path"
proof -
  define p where "p = dropWhile (\<lambda>c. c = slash) path"
  have cp: "comps path = comps p" by (simp add: p_def comps_slash)
  show ?thesis
  proof (cases "p = []")
    case True
    then show ?thesis using cp by (simp add: skipelem_def p_def [symmetric])
  next
    case False
    then have "hd p \<noteq> slash" using hd_dropWhile [of "\<lambda>c. c = slash" path] by (simp add: p_def)
    note c = comps_dropWhile [OF False this]
    let ?c = "takeWhile (\<lambda>x. x \<noteq> slash) p" and ?r = "dropWhile (\<lambda>x. x \<noteq> slash) p"
    let ?n = "if length ?c \<ge> DIRSIZ then bput name 0 (take DIRSIZ ?c) else bput name 0 (?c @ [0])"
    have sk: "skipelem path name = Some (dropWhile (\<lambda>c. c = slash) ?r, ?n)"
      using False by (simp add: skipelem_def p_def [symmetric] Let_def)
    have "0 \<notin> set p" using assms(2) set_dropWhileD [of 0 "\<lambda>c. c = slash" path] by (auto simp: p_def)
    then have "0 \<notin> set ?c" using set_takeWhileD by force
    with name_buffer [OF assms(1), of ?c] skipelem_shorter [OF sk] sk c cp assms(1) show ?thesis
      by (auto simp: comps_slash)
  qed
qed

theorem skipelem_components_witness:
  "skipelem [47, 47, 97, 47, 98] (replicate 14 120) = Some ([98], 97 # 0 # replicate 12 120)
   \<and> cstrn (cs (97 # 0 # replicate 12 120)) DIRSIZ = [97]"
proof -
  have c: "comps [47, 47, 97, 47, 98] = [[97], [98]]" by (simp add: comps.simps slash_def)
  have s: "skipelem [47, 47, 97, 47, 98] (replicate 14 120) = Some ([98], 97 # 0 # replicate 12 120)"
    by (simp add: skipelem_def Let_def slash_def bput_def DIRSIZ_def)
  show ?thesis
    using skipelem_components [of "replicate 14 120" "[47, 47, 97, 47, 98]"] c s
    by (simp add: DIRSIZ_def)
qed

lemma namecmp_eq: "namecmp s t = 0 \<longleftrightarrow> cstrn (cs s) DIRSIZ = cstrn (cs t) DIRSIZ"
  by (simp add: namecmp_def strncmp_eq_0)

text \<open>Directory entries round-trip: the entry dirlink writes for a name decodes to its inode number
  and compares equal, by namecmp, to exactly the names with the same first DIRSIZ bytes.\<close>

lemma dirent_roundtrip:
  assumes "inum < 2 ^ 16"
  shows "length (enc_dirent inum name) = sizeof_dirent \<and> de_inum (enc_dirent inum name) = inum
    \<and> (namecmp other (de_name (enc_dirent inum name)) = 0 \<longleftrightarrow> cstrn (cs other) DIRSIZ = cstrn (cs name) DIRSIZ)"
proof -
  define t where "t = cstrn (cs name) DIRSIZ"
  have t: "length t \<le> DIRSIZ" "0 \<notin> set t"
    using length_cstrn_le by (auto simp: t_def cstrn_def dest: set_takeWhileD)
  have pl: "length (pad_name name) = DIRSIZ" using t(1) by (simp add: pad_name_def t_def [symmetric] Let_def)
  have "unat (of_nat x :: byte) = x mod 256" for x by (simp add: unat_of_nat)
  moreover have "inum mod 256 + 256 * (inum div 256 mod 256) = inum" using assms by simp
  ultimately have i: "de_inum (enc_dirent inum name) = inum"
    using assms by (simp add: de_inum_def enc_dirent_def get16_def enc16_def)
  have n: "de_name (enc_dirent inum name) = pad_name name"
    using pl by (simp add: de_name_def enc_dirent_def enc16_def)
  have "cstrn (cs (pad_name name)) DIRSIZ = takeWhile (\<lambda>x. x \<noteq> 0) (pad_name name)"
  proof -
    have "map (cs (pad_name name)) [0..<DIRSIZ] = map ((!) (pad_name name)) [0..<DIRSIZ]"
      using pl by (simp add: cs_def)
    also have "\<dots> = pad_name name" using pl map_nth [of "pad_name name"] by simp
    finally show ?thesis by (simp add: cstrn_def)
  qed
  also have "\<dots> = t" using t(2) by (auto simp: pad_name_def t_def [symmetric] Let_def takeWhile_append)
  finally have "cstrn (cs (pad_name name)) DIRSIZ = t" .
  with i n pl show ?thesis
    by (auto simp: namecmp_eq t_def [symmetric]) (simp_all add: enc_dirent_def enc16_def sizeof_dirent_def DIRSIZ_def)
qed

theorem dirent_roundtrip_witness:
  "de_inum (enc_dirent 300 [99, 97, 116]) = 300 \<and> namecmp [99, 97, 116] (de_name (enc_dirent 300 [99, 97, 116])) = 0"
  using dirent_roundtrip [of 300 "[99, 97, 116]" "[99, 97, 116]"] by simp

end
