(* ===== verification/Pipe.thy ===== *)
theory Pipe
  imports Dir
begin

text \<open>
  Pipes, \<open>src/lab10xv6/xv6/pipe.c\<close> (\<open>pipealloc\<close>, which needs the file table, is in File).

  A \<open>struct pipe\<close> lives in a page of its own; \<open>pipes\<close> maps the page's address to the structure.
  The counters \<open>nread\<close> and \<open>nwrite\<close> are 32-bit and wrap.  The spin lock calls are explicit.  The
  routines that wait take a list of environments, one for each time they sleep (see Proc).

  \<open>contents\<close> abstracts the ring to the bytes in it, oldest first; the locale \<open>byte_queue\<close> is the
  contract of the two byte operations, interpreted on the ring.
\<close>

section \<open>State\<close>

definition PIPESIZE :: nat where "PIPESIZE = 512"

record pipe =
  pdata :: "nat \<Rightarrow> byte"
  nread :: uint32
  nwrite :: uint32
  readopen :: bool
  writeopen :: bool

record pipe_st = fs_st +
  pipes :: "nat \<Rightarrow> pipe"

definition upd_pipe :: "nat \<Rightarrow> (pipe \<Rightarrow> pipe) \<Rightarrow> ('z pipe_st_scheme, unit) kern" where
  "upd_pipe p f = modk (\<lambda>s. s\<lparr>pipes := (pipes s)(p := f (pipes s p))\<rparr>)"

definition pipe_at :: "nat \<Rightarrow> ('z pipe_st_scheme, pipe) kern" where
  "pipe_at p = getk (\<lambda>s. pipes s p)"

definition my_killed :: "('z proc_st_scheme, bool) kern" where
  "my_killed = bnd myproc_nn (\<lambda>q. getk (\<lambda>s. killed (procs s q)))"

section \<open>Operations\<close>

definition pipeclose :: "nat \<Rightarrow> bool \<Rightarrow> ('z pipe_st_scheme, unit) kern" where
  "pipeclose p writable =
     bnd (acquire (PipeLock p)) (\<lambda>_.
     bnd (if writable
          then bnd (upd_pipe p (\<lambda>x. x\<lparr>writeopen := False\<rparr>)) (\<lambda>_. wakeup (PipeRead p))
          else bnd (upd_pipe p (\<lambda>x. x\<lparr>readopen := False\<rparr>)) (\<lambda>_. wakeup (PipeWrite p))) (\<lambda>_.
     bnd (pipe_at p) (\<lambda>x.
     if \<not> readopen x \<and> \<not> writeopen x
     then bnd (release (PipeLock p)) (\<lambda>_. kfree p)
     else release (PipeLock p))))"

text \<open>\<open>p->data[p->nwrite++ % PIPESIZE] = b\<close> and \<open>p->data[p->nread++ % PIPESIZE]\<close>.\<close>

definition pipe_put :: "byte \<Rightarrow> pipe \<Rightarrow> pipe" where
  "pipe_put b x = x\<lparr>pdata := (pdata x)(unat (nwrite x) mod PIPESIZE := b), nwrite := nwrite x + 1\<rparr>"

definition pipe_get :: "pipe \<Rightarrow> byte \<times> pipe" where
  "pipe_get x = (pdata x (unat (nread x) mod PIPESIZE), x\<lparr>nread := nread x + 1\<rparr>)"

definition pipe_full :: "pipe \<Rightarrow> bool" where
  "pipe_full x \<longleftrightarrow> nwrite x = nread x + of_nat PIPESIZE"

definition pipe_empty :: "pipe \<Rightarrow> bool" where
  "pipe_empty x \<longleftrightarrow> nread x = nwrite x"

text \<open>The copying loop of \<open>pipewrite\<close> over the bytes still to be written; the result is false on the
  way to \<open>return -1\<close>.\<close>

function pipewrite_loop ::
  "('z pipe_st_scheme, unit) kern list \<Rightarrow> nat \<Rightarrow> byte list \<Rightarrow> ('z pipe_st_scheme, bool) kern" where
  "pipewrite_loop sws p [] s = Ok True s"
| "pipewrite_loop sws p (b # bs) s =
     bnd (pipe_at p) (\<lambda>x.
     if pipe_full x
     then bnd (if \<not> readopen x then ret True else my_killed) (\<lambda>stop.
          if stop then ret False
          else bnd (wakeup (PipeRead p)) (\<lambda>_.
               case sws of
                 [] \<Rightarrow> (\<lambda>_. Block ''pipewrite'')
               | sw # sws' \<Rightarrow>
                   bnd (sleep sw (PipeWrite p) (Some (PipeLock p))) (\<lambda>_.
                   pipewrite_loop sws' p (b # bs))))
     else bnd (upd_pipe p (pipe_put b)) (\<lambda>_. pipewrite_loop sws p bs)) s"
  by pat_completeness auto
termination
  by (relation "measure (\<lambda>(sws, p, bs, s). length sws + length bs)") auto

declare pipewrite_loop.simps(2) [simp del]

definition pipewrite ::
  "('z pipe_st_scheme, unit) kern list \<Rightarrow> nat \<Rightarrow> byte list \<Rightarrow> int \<Rightarrow> ('z pipe_st_scheme, int) kern" where
  "pipewrite sws p addr n =
     bnd (acquire (PipeLock p)) (\<lambda>_.
     bnd (pipewrite_loop sws p (take (nat n) addr)) (\<lambda>done.
     if \<not> done then bnd (release (PipeLock p)) (\<lambda>_. ret (- 1))
     else bnd (wakeup (PipeRead p)) (\<lambda>_.
          bnd (release (PipeLock p)) (\<lambda>_. ret n))))"

fun piperead_wait ::
  "('z pipe_st_scheme, unit) kern list \<Rightarrow> nat \<Rightarrow> ('z pipe_st_scheme, bool) kern" where
  "piperead_wait sws p s =
     bnd (pipe_at p) (\<lambda>x.
     if pipe_empty x \<and> writeopen x
     then bnd my_killed (\<lambda>k.
          if k then ret False
          else case sws of
                 [] \<Rightarrow> (\<lambda>_. Block ''piperead'')
               | sw # sws' \<Rightarrow>
                   bnd (sleep sw (PipeRead p) (Some (PipeLock p))) (\<lambda>_. piperead_wait sws' p))
     else ret True) s"

declare piperead_wait.simps [simp del]

fun piperead_copy :: "nat \<Rightarrow> nat \<Rightarrow> ('z pipe_st_scheme, byte list) kern" where
  "piperead_copy p 0 s = Ok [] s"
| "piperead_copy p (Suc n) s =
     bnd (pipe_at p) (\<lambda>x.
     if pipe_empty x then ret []
     else bnd (upd_pipe p (\<lambda>_. snd (pipe_get x))) (\<lambda>_.
          bnd (piperead_copy p n) (\<lambda>bs. ret (fst (pipe_get x) # bs)))) s"

definition piperead ::
  "('z pipe_st_scheme, unit) kern list \<Rightarrow> nat \<Rightarrow> int \<Rightarrow> ('z pipe_st_scheme, int \<times> byte list) kern" where
  "piperead sws p n =
     bnd (acquire (PipeLock p)) (\<lambda>_.
     bnd (piperead_wait sws p) (\<lambda>go.
     if \<not> go then bnd (release (PipeLock p)) (\<lambda>_. ret (- 1, []))
     else bnd (piperead_copy p (nat n)) (\<lambda>bs.
          bnd (wakeup (PipeWrite p)) (\<lambda>_.
          bnd (release (PipeLock p)) (\<lambda>_. ret (int (length bs), bs))))))"

section \<open>The ring as a queue\<close>

locale byte_queue =
  fixes put :: "'b \<Rightarrow> 'q \<Rightarrow> 'q" and get :: "'q \<Rightarrow> 'b \<times> 'q"
    and isempty :: "'q \<Rightarrow> bool" and isfull :: "'q \<Rightarrow> bool"
    and inv :: "'q \<Rightarrow> bool" and absq :: "'q \<Rightarrow> 'b list" and cap :: nat
  assumes cap_bound: "inv q \<Longrightarrow> length (absq q) \<le> cap"
    and full_iff: "inv q \<Longrightarrow> isfull q \<longleftrightarrow> length (absq q) = cap"
    and empty_iff: "inv q \<Longrightarrow> isempty q \<longleftrightarrow> absq q = []"
    and put_law: "inv q \<Longrightarrow> \<not> isfull q \<Longrightarrow> inv (put b q) \<and> absq (put b q) = absq q @ [b]"
    and get_law: "inv q \<Longrightarrow> \<not> isempty q \<Longrightarrow>
      inv (snd (get q)) \<and> absq q = fst (get q) # absq (snd (get q))"
begin

lemma room_not_full: "inv q \<Longrightarrow> length (absq q) < cap \<Longrightarrow> \<not> isfull q"
  by (simp add: full_iff)

lemma put_many:
  "inv q \<Longrightarrow> length (absq q) + length bs \<le> cap \<Longrightarrow>
   inv (fold put bs q) \<and> absq (fold put bs q) = absq q @ bs"
proof (induction bs arbitrary: q)
  case (Cons b bs)
  then show ?case using put_law [OF Cons.prems(1) room_not_full [OF Cons.prems(1)], of b]
    Cons.IH [of "put b q"] by simp
qed simp

lemma get_abs: "inv q \<Longrightarrow> absq q \<noteq> [] \<Longrightarrow>
   inv (snd (get q)) \<and> fst (get q) = hd (absq q) \<and> absq (snd (get q)) = tl (absq q)"
  using get_law [of q] by (auto simp: empty_iff)

end

definition contents :: "pipe \<Rightarrow> byte list" where
  "contents x = map (\<lambda>i. pdata x (unat (nread x + of_nat i) mod PIPESIZE)) [0..<unat (nwrite x - nread x)]"

definition pipe_ok :: "pipe \<Rightarrow> bool" where
  "pipe_ok x \<longleftrightarrow> unat (nwrite x - nread x) \<le> PIPESIZE"

lemma length_contents [simp]: "length (contents x) = unat (nwrite x - nread x)"
  by (simp add: contents_def)

lemma unat_add_mod_512: "unat (a + of_nat i :: uint32) mod PIPESIZE = (unat a + i) mod PIPESIZE"
proof -
  have "unat (a + of_nat i :: uint32) = (unat a + i) mod 2 ^ 32"
    by (simp add: unat_word_ariths unat_of_nat mod_simps)
  moreover have "PIPESIZE dvd 2 ^ 32" by (simp add: PIPESIZE_def)
  ultimately show ?thesis by (simp add: mod_mod_cancel)
qed

lemma contents_alt:
  "contents x = map (\<lambda>i. pdata x ((unat (nread x) + i) mod PIPESIZE)) [0..<unat (nwrite x - nread x)]"
  by (simp add: contents_def unat_add_mod_512)

lemma pipe_full_iff: "pipe_full x \<longleftrightarrow> unat (nwrite x - nread x) = PIPESIZE"
proof -
  have "pipe_full x \<longleftrightarrow> nwrite x - nread x = of_nat PIPESIZE"
    by (auto simp: pipe_full_def algebra_simps)
  also have "\<dots> \<longleftrightarrow> unat (nwrite x - nread x) = unat (of_nat PIPESIZE :: uint32)" by (simp add: word_unat_eq_iff)
  finally show ?thesis by (simp add: PIPESIZE_def)
qed

lemma pipe_empty_iff: "pipe_empty x \<longleftrightarrow> unat (nwrite x - nread x) = 0"
  by (auto simp: pipe_empty_def unat_eq_0)

lemma unat_Suc_diff:
  assumes "unat (a - b :: uint32) < PIPESIZE"
  shows "unat (a + 1 - b) = Suc (unat (a - b))"
proof -
  have "a + 1 - b = (a - b) + 1" by simp
  with assms show ?thesis by (simp only: PIPESIZE_def) (simp add: unat_word_ariths)
qed

lemma put_ok:
  assumes "pipe_ok x" and "\<not> pipe_full x"
  shows "pipe_ok (pipe_put b x)" and "contents (pipe_put b x) = contents x @ [b]"
proof -
  let ?n = "unat (nwrite x - nread x)"
  have lt: "?n < PIPESIZE" using assms by (simp add: pipe_ok_def pipe_full_iff)
  have n': "unat (nwrite x + 1 - nread x) = Suc ?n" by (rule unat_Suc_diff [OF lt])
  show "pipe_ok (pipe_put b x)" using lt n' by (simp add: pipe_ok_def pipe_put_def)
  have "nwrite x = nread x + of_nat ?n" by simp
  then have slot: "unat (nwrite x) mod PIPESIZE = (unat (nread x) + ?n) mod PIPESIZE"
    using unat_add_mod_512 [of "nread x" ?n] by simp
  have other: "(unat (nread x) + i) mod PIPESIZE \<noteq> unat (nwrite x) mod PIPESIZE" if "i < ?n" for i
  proof
    assume "(unat (nread x) + i) mod PIPESIZE = unat (nwrite x) mod PIPESIZE"
    then have "(unat (nread x) + ?n) mod PIPESIZE = (unat (nread x) + i) mod PIPESIZE" by (simp only: slot)
    then have "PIPESIZE dvd (unat (nread x) + ?n) - (unat (nread x) + i)"
      using that by (subst mod_eq_dvd_iff_nat [symmetric]) auto
    then have "PIPESIZE dvd ?n - i" by simp
    then show False using that lt by (auto dest: dvd_imp_le)
  qed
  have "contents (pipe_put b x)
      = map (\<lambda>i. if (unat (nread x) + i) mod PIPESIZE = unat (nwrite x) mod PIPESIZE then b
                 else pdata x ((unat (nread x) + i) mod PIPESIZE)) [0..<Suc ?n]"
    unfolding contents_alt by (simp add: pipe_put_def n' del: upt_Suc)
  also have "\<dots> = contents x @ [b]" using other slot by (simp add: contents_alt)
  finally show "contents (pipe_put b x) = contents x @ [b]" .
qed

lemma get_ok:
  assumes "pipe_ok x" and "\<not> pipe_empty x"
  shows "pipe_ok (snd (pipe_get x))" and "contents x = fst (pipe_get x) # contents (snd (pipe_get x))"
proof -
  obtain m where m: "unat (nwrite x - nread x) = Suc m"
    using assms(2) by (auto simp: pipe_empty_iff gr0_conv_Suc)
  have m': "unat (nwrite x - (nread x + 1)) = m"
  proof -
    have "nwrite x - nread x \<noteq> 0" using m by auto
    then have "unat ((nwrite x - nread x) - 1) = m" using m by (simp add: unat_minus_one)
    moreover have "nwrite x - (nread x + 1) = (nwrite x - nread x) - 1" by simp
    ultimately show ?thesis by (simp only:)
  qed
  then show "pipe_ok (snd (pipe_get x))" using assms(1) m by (simp add: pipe_ok_def pipe_get_def)
  have "(unat (nread x) + Suc i) mod PIPESIZE = (unat (nread x + 1) + i) mod PIPESIZE" for i
    using unat_add_mod_512 [of "nread x" "Suc i"] unat_add_mod_512 [of "nread x + 1" i] by (simp add: add.assoc)
  then show "contents x = fst (pipe_get x) # contents (snd (pipe_get x))"
    by (simp add: contents_alt pipe_get_def m m' upt_conv_Cons map_Suc_upt [symmetric] del: upt_Suc)
qed

interpretation ring: byte_queue pipe_put pipe_get pipe_empty pipe_full pipe_ok contents PIPESIZE
  by unfold_locales
    (simp_all add: pipe_ok_def pipe_full_iff, simp_all add: pipe_full_iff [symmetric] pipe_empty_iff contents_def,
     use put_ok get_ok in \<open>auto simp: contents_def pipe_ok_def pipe_full_iff pipe_empty_iff\<close>)

section \<open>Critical sections of a pipe\<close>

text \<open>As \<open>quiet\<close>, inside a critical section, where the saved interrupt flag matters too.\<close>

definition deep :: "nat \<Rightarrow> 'z lock_st_scheme \<Rightarrow> 'z lock_st_scheme \<Rightarrow> bool" where
  "deep c s t \<longleftrightarrow> quiet c s t \<and> intena (cpus t c) = intena (cpus s c)"

lemma deep_refl: "cpu_at s c \<Longrightarrow> deep c s s"
  by (simp add: deep_def quiet_refl)

lemma deep_trans: "deep c s t \<Longrightarrow> deep c t u \<Longrightarrow> deep c s u"
  unfolding deep_def using quiet_trans by metis

lemma deep_same_locks: "deep c s t \<Longrightarrow> same_locks t u \<Longrightarrow> deep c s u"
  unfolding deep_def by (auto intro: quiet_same_locks simp: same_locks_def)

definition set_pipe :: "nat \<Rightarrow> pipe \<Rightarrow> 'z pipe_st_scheme \<Rightarrow> 'z pipe_st_scheme" where
  "set_pipe p x s = s\<lparr>pipes := (pipes s)(p := x)\<rparr>"

lemma set_pipe_simps [simp]:
  "pipes (set_pipe p x s) = (pipes s)(p := x)" "set_pipe p y (set_pipe p x s) = set_pipe p y s"
  "set_pipe p (pipes s p) s = s" "procs (set_pipe p x s) = procs s" "locks (set_pipe p x s) = locks s"
  "cpus (set_pipe p x s) = cpus s" "cpu_at (set_pipe p x s) c = cpu_at s c"
  "upd_pipe p f s = Ok () (set_pipe p (f (pipes s p)) s)"
  by (simp_all add: set_pipe_def upd_pipe_def cpu_at_def)

lemma deep_pipes [simp]: "deep c s (set_pipe p x t) = deep c s t"
  by (auto simp: deep_def quiet_def cpu_at_def set_pipe_def)

lemma lock_frame_pipes [simp]:
  "pipes (acquired l c s) = pipes s" "pipes (released l c s) = pipes s"
  by (simp_all add: acquired_def released_def pushed_def popped_def)

lemma wakeup_deep:
  assumes "cpu_at s c" and "0 < ncli (cpus s c)" and "\<not> locked (locks s PtableLock)"
  shows "\<exists>s'. wakeup ch s = Ok () s' \<and> procs s' = woken ch (procs s) \<and> deep c s s'
    \<and> pipes s' = pipes (s :: 'z pipe_st_scheme)"
proof -
  let ?t = "(acquired PtableLock c s)\<lparr>procs := woken ch (procs s)\<rparr>"
  have "same_locks (acquired PtableLock c s) ?t" by (simp add: same_locks_def)
  note r = release_after [OF assms(1,3) this]
  have "wakeup ch s = Ok () (released PtableLock c ?t)"
    using assms(3) r(1) by (simp add: wakeup_unfold acquire_spec [OF assms(1)] wakeup1_spec)
  moreover have "intena (cpus (released PtableLock c ?t) c) = intena (cpus s c)"
    using assms(2) by (simp add: released_def popped_def acquired_def pushed_def)
  ultimately show ?thesis using r(2) by (auto simp: deep_def)
qed

lemma release_deep:
  assumes at: "cpu_at s c" and free: "\<not> locked (locks s l)" and d: "deep c (acquired l c s) t"
  shows "release l t = Ok () (released l c t)" and "quiet c s (released l c t)"
proof -
  have q: "quiet c (acquired l c s) t" and ie: "intena (cpus t c) = intena (cpus (acquired l c s) c)"
    using d by (simp_all add: deep_def)
  have at': "cpu_at t c" and pos: "0 < ncli (cpus t c)"
    using q at by (auto simp: quiet_def acquired_def pushed_def cpu_at_def)
  have "locked (locks t l)" "lcpu (locks t l) = Some c"
    using q by (simp_all add: quiet_def acquired_def)
  then show "release l t = Ok () (released l c t)" by (simp add: release_spec [OF at' pos])
  have "cpu_at (released l c t) c"
    unfolding released_def by (rule popcli_spec(2)) (use at' pos in simp_all)
  moreover have "hw_if (released l c t) = hw_if s"
    using q ie at by (auto simp: quiet_def released_def popped_def acquired_def pushed_def cpu_at_def fun_eq_iff)
  moreover have "\<forall>k. locked (locks (released l c t) k) = locked (locks s k)"
    using q free by (simp add: quiet_def released_def popped_def acquired_def)
  moreover have "\<forall>k. locked (locks s k) \<longrightarrow> lcpu (locks (released l c t) k) = lcpu (locks s k)"
    using q free by (auto simp: quiet_def released_def popped_def acquired_def)
  ultimately show "quiet c s (released l c t)"
    using q by (simp add: quiet_def released_def popped_def acquired_def pushed_def)
qed

lemma my_killed_deep:
  "cpu_at s c \<Longrightarrow> 0 < ncli (cpus s c) \<Longrightarrow> cproc (cpus s c) = Some q \<Longrightarrow>
   my_killed s = Ok (killed (procs s q)) s"
  by (simp add: my_killed_def myproc_nn_def myproc_deep bnd_def)

section \<open>Reading and writing without waiting\<close>

lemma pipewrite_loop_room:
  assumes "pipe_ok (pipes s p)" and "length (contents (pipes s p)) + length bs \<le> PIPESIZE"
  shows "pipewrite_loop sws p bs s = Ok True (set_pipe p (fold pipe_put bs (pipes s p)) s)"
  using assms
proof (induction bs arbitrary: s)
  case (Cons b bs)
  have nf: "\<not> pipe_full (pipes s p)"
    using ring.room_not_full [OF Cons.prems(1)] Cons.prems(2) by simp
  let ?s = "set_pipe p (pipe_put b (pipes s p)) s"
  have "pipewrite_loop sws p bs ?s = Ok True (set_pipe p (fold pipe_put bs (pipes ?s p)) ?s)"
    by (rule Cons.IH) (use put_ok [OF Cons.prems(1) nf, of b] Cons.prems(2) in \<open>simp_all del: length_contents\<close>)
  then show ?case using nf by (simp add: pipewrite_loop.simps(2) pipe_at_def)
qed simp

lemma piperead_copy_spec:
  assumes "pipe_ok (pipes s p)"
  shows "\<exists>x. piperead_copy p n s = Ok (take n (contents (pipes s p))) (set_pipe p x s)
    \<and> pipe_ok x \<and> contents x = drop n (contents (pipes s p))
    \<and> readopen x = readopen (pipes s p) \<and> writeopen x = writeopen (pipes s p)"
  using assms
proof (induction n arbitrary: s)
  case 0
  then show ?case by (intro exI [of _ "pipes s p"]) simp
next
  case (Suc n)
  show ?case
  proof (cases "pipe_empty (pipes s p)")
    case True
    then have "contents (pipes s p) = []" using ring.empty_iff [OF Suc.prems] by simp
    then show ?thesis using True Suc.prems
      by (intro exI [of _ "pipes s p"]) (simp add: pipe_at_def bnd_def)
  next
    case False
    let ?g = "pipe_get (pipes s p)"
    let ?s = "set_pipe p (snd ?g) s"
    note g = get_ok [OF Suc.prems False]
    have "pipe_ok (pipes ?s p)" using g by simp
    from Suc.IH [OF this] obtain x where x: "piperead_copy p n ?s = Ok (take n (contents (snd ?g))) (set_pipe p x s)"
      "pipe_ok x" "contents x = drop n (contents (snd ?g))" "readopen x = readopen (snd ?g)" "writeopen x = writeopen (snd ?g)"
      by auto
    have "readopen (snd ?g) = readopen (pipes s p)" "writeopen (snd ?g) = writeopen (pipes s p)"
      by (simp_all add: pipe_get_def)
    with x False show ?thesis
      unfolding g(2) by (intro exI [of _ x]) (simp add: pipe_at_def)
  qed
qed

lemma acquired_pos: "cpu_at s c \<Longrightarrow> 0 < ncli (cpus (acquired l c s) c)"
  by (simp add: acquired_def pushed_def cpu_at_def)

section \<open>Witnesses\<close>

text \<open>A booted state whose pipe at address 8 holds \<open>n\<close> bytes, its counters about to wrap.\<close>

definition boot_pipe :: "nat \<Rightarrow> pipe_st" where
  "boot_pipe n = fs_st.extend (log_st.extend boot_log (fs_st.fields \<lparr>sb_size = 1000, nblocks = 941, ninodes = 200, nlog = 30,
       logstart = 2, inodestart = 32, bmapstart = 58\<rparr> (\<lambda>_. \<lparr>i_dev = 0, i_inum = 0, i_ref = 0, i_valid = False, i_type = 0,
       i_major = 0, i_minor = 0, i_nlink = 0, i_size = 0, addrs = []\<rparr>)))
     (pipe_st.fields (\<lambda>_. \<lparr>pdata = (\<lambda>i. of_nat i), nread = - 1, nwrite = of_nat n - 1, readopen = True, writeopen = True\<rparr>))"

lemma boot_pipe_simps:
  "pipes (boot_pipe n) p = \<lparr>pdata = (\<lambda>i. of_nat i), nread = - 1, nwrite = of_nat n - 1, readopen = True, writeopen = True\<rparr>"
  "cpu_at (boot_pipe n) 0" "ncli (cpus (boot_pipe n) 0) = 0" "cproc (cpus (boot_pipe n) 0) = Some 0"
  "\<not> locked (locks (boot_pipe n) l)" "\<not> killed (procs (boot_pipe n) q)"
  by (simp_all add: boot_pipe_def fs_st.defs log_st.defs pipe_st.defs boot_log_def boot_bio_def bio_st.defs cpu_at_def)

lemma boot_pipe_ok: "n \<le> 512 \<Longrightarrow> pipe_ok (pipes (boot_pipe n) p) \<and> length (contents (pipes (boot_pipe n) p)) = n"
  by (simp add: boot_pipe_simps pipe_ok_def PIPESIZE_def unat_of_nat)

text \<open>C3. Writing to a pipe with room refines appending to a queue: pipewrite returns n at once, the n bytes
  are behind the ones already there, sleeping readers are made runnable, every lock is released
  and other pipes are untouched.  The counters may wrap at 32 bits.\<close>

theorem pipewrite_appends:
  assumes "cpu_at s c" and "\<not> locked (locks s (PipeLock p))" and "\<not> locked (locks s PtableLock)"
    and "pipe_ok (pipes s p)" and "0 \<le> n" and "nat n \<le> length addr"
    and "length (contents (pipes s p)) + nat n \<le> PIPESIZE"
  shows "\<exists>s'. pipewrite sws p addr n s = Ok n s' \<and> pipe_ok (pipes s' p)
    \<and> contents (pipes s' p) = contents (pipes s p) @ take (nat n) addr
    \<and> (\<forall>q. q \<noteq> p \<longrightarrow> pipes s' q = pipes s q)
    \<and> procs s' = woken (PipeRead p) (procs s) \<and> quiet c s s'"
proof -
  let ?a = "acquired (PipeLock p) c s" and ?bs = "take (nat n) addr"
  have len: "length (contents (pipes s p)) + length ?bs \<le> PIPESIZE" using assms(6,7) by simp
  let ?t = "set_pipe p (fold pipe_put ?bs (pipes s p)) ?a"
  have loop: "pipewrite_loop sws p ?bs ?a = Ok True ?t"
    using pipewrite_loop_room [of ?a p ?bs sws] assms(4) len by simp
  have d: "deep c ?a ?t" using deep_refl [OF cpu_at_acquired [OF assms(1)]] by simp
  have "\<not> locked (locks ?t PtableLock)" using assms(3) by (simp add: acquired_def)
  with wakeup_deep [of ?t c "PipeRead p"] cpu_at_acquired [OF assms(1)] acquired_pos [OF assms(1), of "PipeLock p"]
  obtain u where u: "wakeup (PipeRead p) ?t = Ok () u" "procs u = woken (PipeRead p) (procs s)" "deep c ?t u" "pipes u = pipes ?t"
    by auto
  note r = release_deep [OF assms(1,2) deep_trans [OF d u(3)]]
  have "pipewrite sws p addr n s = Ok n (released (PipeLock p) c u)"
    using assms(2) loop u(1) r(1) by (simp add: pipewrite_def acquire_spec [OF assms(1)])
  moreover note ring.put_many [OF assms(4) len]
  ultimately show ?thesis using r(2) u by auto
qed

theorem pipewrite_appends_witness:
  "\<exists>s'. pipewrite [] 8 [5, 6] 2 (boot_pipe 2) = Ok 2 s' \<and> contents (pipes s' 8) = contents (pipes (boot_pipe 2) 8) @ [5, 6]"
  using pipewrite_appends [of "boot_pipe 2" 0 8 2 "[5, 6]" "[]"] boot_pipe_ok [of 2 8]
  by (auto simp: boot_pipe_simps PIPESIZE_def numeral_2_eq_2)

text \<open>C22. Reading from a pipe that holds bytes, or whose writer has closed it, refines taking from the front of
  the queue: piperead returns at once with the oldest bytes, at most n of them, in order, removes
  exactly those, makes sleeping writers runnable and releases every lock; at end of file it
  returns 0.\<close>

theorem piperead_takes:
  assumes "cpu_at s c" and "\<not> locked (locks s (PipeLock p))" and "\<not> locked (locks s PtableLock)"
    and "pipe_ok (pipes s p)" and "contents (pipes s p) \<noteq> [] \<or> \<not> writeopen (pipes s p)"
  shows "\<exists>s'. piperead sws p n s = Ok (min (int (length (contents (pipes s p)))) (max n 0), take (nat n) (contents (pipes s p))) s'
    \<and> pipe_ok (pipes s' p) \<and> contents (pipes s' p) = drop (nat n) (contents (pipes s p))
    \<and> (\<forall>q. q \<noteq> p \<longrightarrow> pipes s' q = pipes s q)
    \<and> procs s' = woken (PipeWrite p) (procs s) \<and> quiet c s s'"
proof -
  let ?a = "acquired (PipeLock p) c s" and ?q = "contents (pipes s p)"
  have "pipe_empty (pipes s p) \<longleftrightarrow> ?q = []" using ring.empty_iff [OF assms(4)] .
  then have wait: "piperead_wait sws p ?a = Ok True ?a"
    using assms(5) by (auto simp: piperead_wait.simps [of sws p] pipe_at_def)
  from piperead_copy_spec [of ?a p "nat n"] assms(4) obtain x where
    x: "piperead_copy p (nat n) ?a = Ok (take (nat n) ?q) (set_pipe p x ?a)" "pipe_ok x" "contents x = drop (nat n) ?q"
    by auto
  let ?t = "set_pipe p x ?a"
  have d: "deep c ?a ?t" using deep_refl [OF cpu_at_acquired [OF assms(1)]] by simp
  have "\<not> locked (locks ?t PtableLock)" using assms(3) by (simp add: acquired_def)
  with wakeup_deep [of ?t c "PipeWrite p"] cpu_at_acquired [OF assms(1)] acquired_pos [OF assms(1), of "PipeLock p"]
  obtain u where u: "wakeup (PipeWrite p) ?t = Ok () u" "procs u = woken (PipeWrite p) (procs s)" "deep c ?t u" "pipes u = pipes ?t"
    by auto
  note r = release_deep [OF assms(1,2) deep_trans [OF d u(3)]]
  have "int (length (take (nat n) ?q)) = min (int (length ?q)) (max n 0)"
    by (cases "0 \<le> n") (auto simp: min_def max_def nat_le_iff le_nat_iff simp del: length_contents)
  then have "piperead sws p n s = Ok (min (int (length ?q)) (max n 0), take (nat n) ?q) (released (PipeLock p) c u)"
    using assms(2) wait x(1) u(1) r(1) by (simp add: piperead_def acquire_spec [OF assms(1)])
  then show ?thesis using r(2) u x(2,3) by auto
qed

theorem piperead_takes_witness:
  "\<exists>s'. piperead [] 8 3 (boot_pipe 2) = Ok (2, [255, 0]) s' \<and> contents (pipes s' 8) = []"
proof -
  have "- 1 = (4294967295 :: uint32)" by simp
  then have u: "unat (- 1 :: uint32) = 4294967295" by (simp only: unat_numeral) simp
  have c: "contents (pipes (boot_pipe 2) 8) = [255, 0]"
    unfolding contents_alt boot_pipe_simps by (simp add: PIPESIZE_def u upt_rec)
  show ?thesis
    using piperead_takes [of "boot_pipe 2" 0 8 "[]" 3] boot_pipe_ok [of 2 8] c by (auto simp: boot_pipe_simps)
qed

section \<open>Waiting writers make progress\<close>

text \<open>The running process \<open>q\<close> is inside the critical section of pipe \<open>p\<close>.\<close>

definition crit :: "nat \<Rightarrow> nat \<Rightarrow> nat \<Rightarrow> 'z pipe_st_scheme \<Rightarrow> bool" where
  "crit c p q s \<longleftrightarrow> cpu_at s c \<and> ncli (cpus s c) = 1 \<and> cproc (cpus s c) = Some q
     \<and> locks s (PipeLock p) = \<lparr>locked = True, lcpu = Some c\<rparr> \<and> \<not> locked (locks s PtableLock)"

text \<open>
  An environment that empties the pipe a little: while the writer is switched out, some reader
  removes at least one byte, and the writer is scheduled again on its processor, not killed.
\<close>

definition drains :: "nat \<Rightarrow> nat \<Rightarrow> nat \<Rightarrow> ('z pipe_st_scheme, unit) kern \<Rightarrow> bool" where
  "drains c p q sw \<longleftrightarrow> (\<forall>t. cpu_at t c \<and> ncli (cpus t c) = 1 \<and> locked (locks t PtableLock)
     \<and> \<not> locked (locks t (PipeLock p)) \<and> pipe_ok (pipes t p) \<and> contents (pipes t p) \<noteq> [] \<longrightarrow>
     (\<exists>t' k. sw t = Ok () t' \<and> same_locks t t' \<and> killed (procs t' q) = killed (procs t q)
       \<and> 0 < k \<and> k \<le> length (contents (pipes t p)) \<and> pipe_ok (pipes t' p)
       \<and> contents (pipes t' p) = drop k (contents (pipes t p)) \<and> readopen (pipes t' p) = readopen (pipes t p)))"

lemma crit_deep: "crit c p q s \<Longrightarrow> deep c s t \<Longrightarrow> crit c p q t"
  unfolding crit_def deep_def quiet_def by (auto intro!: spinlock.equality)

lemma crit_set_pipe [simp]: "crit c p q (set_pipe r x s) = crit c p q s"
  by (simp add: crit_def)

lemma resume_deep:
  assumes "crit c p q s" and "same_locks (asleep q ch (PipeLock p) c s) t"
  shows "\<exists>s'. resume q (PipeLock p) (intena (cpus s c)) t = Ok () s' \<and> deep c s s' \<and> pipes s' = pipes t
    \<and> procs s' = (procs t)(q := (procs t q)\<lparr>pchan := None\<rparr>)"
proof -
  note cr = assms(1) [unfolded crit_def]
  note a = asleep_state(1-5) [OF cr [THEN conjunct1], of q "PipeLock p" ch]
  have t: "cpu_at t c" "ncli (cpus t c) = 1" "intena (cpus t c) = intena (cpus s c)" "cproc (cpus t c) = Some q"
    "locks t = (locks s)(PtableLock := \<lparr>locked = True, lcpu = Some c\<rparr>, PipeLock p := \<lparr>locked = False, lcpu = None\<rparr>)"
    using a cr assms(2) by (simp_all add: same_locks_def cpu_at_def)
  have off: "\<not> hw_if t (lapicid t)" using t(1,2) by (simp add: cpu_at_def)
  have same: "cpus t = cpus (asleep q ch (PipeLock p) c s)" "hw_if t = hw_if (asleep q ch (PipeLock p) c s)"
    "lapicid t = lapicid s" "ncpu t = ncpu s"
    using assms(2) by (simp_all add: same_locks_def asleep_def released_def popped_def acquired_def pushed_def)
  define u where "u = t\<lparr>procs := (procs t)(q := (procs t q)\<lparr>pchan := None\<rparr>)\<rparr>"
  note ueq = u_def
  have "(cpus t c)\<lparr>intena := intena (cpus s c)\<rparr> = cpus t c" using t(3) by simp
  then have keep: "upd_cpu c (\<lambda>cp. cp\<lparr>intena := intena (cpus s c)\<rparr>) t = t" by (simp add: upd_cpu_def)
  have u: "cpu_at u c" "ncli (cpus u c) = 1" "locks u = locks t" using t(1,2) by (simp_all add: ueq cpu_at_def)
  have r: "release PtableLock u = Ok () (released PtableLock c u)" using release_spec [OF u(1), of PtableLock] u(2,3) t(5) by simp
  have at: "cpu_at (released PtableLock c u) c"
    unfolding released_def by (rule popcli_spec(2)) (use u in simp_all)
  define s' where "s' = acquired (PipeLock p) c (released PtableLock c u)"
  have "acquire (PipeLock p) (released PtableLock c u) = Ok () s'"
    using acquire_spec [OF at, of "PipeLock p"] t(5) by (simp add: s'_def released_def popped_def ueq)
  then have res: "resume q (PipeLock p) (intena (cpus s c)) t = Ok () s'"
    using mycpu_off [OF t(1) off] r by (simp add: resume_def bnd_def keep upd_proc_def u_def)
  have hw: "hw_if s (lapicid s) = False" using cr by (simp add: cpu_at_def)
  have c': "cpus s' c = (cpus s c)\<lparr>ncli := 1, intena := intena (cpus s c)\<rparr>" "hw_if s' = hw_if s"
    using cr hw by (auto simp: s'_def acquired_def pushed_def released_def popped_def ueq same asleep_def fun_eq_iff intro!: cpu.equality)
  have "quiet c s s'"
    unfolding quiet_def using cpu_at_acquired [OF at, of "PipeLock p"] cr c'
    by (auto simp: s'_def acquired_def pushed_def released_def popped_def ueq same asleep_def t(5))
  then have "deep c s s'" using c' by (simp add: deep_def)
  moreover have "pipes s' = pipes t" "procs s' = procs u" by (simp_all add: s'_def) (simp add: ueq)
  ultimately show ?thesis using res by (auto simp: ueq)
qed

lemma sleep_drains:
  assumes cr: "crit c p q s" and d: "drains c p q sw" and ok: "pipe_ok (pipes s p)" "contents (pipes s p) \<noteq> []"
  shows "\<exists>s' k. sleep sw (PipeWrite p) (Some (PipeLock p)) s = Ok () s' \<and> deep c s s'
    \<and> 0 < k \<and> k \<le> length (contents (pipes s p)) \<and> pipe_ok (pipes s' p)
    \<and> contents (pipes s' p) = drop k (contents (pipes s p)) \<and> readopen (pipes s' p) = readopen (pipes s p)
    \<and> killed (procs s' q) = killed (procs s q)"
proof -
  note c = cr [unfolded crit_def]
  let ?t = "asleep q (PipeWrite p) (PipeLock p) c s"
  note a = asleep_state(1-5) [OF c [THEN conjunct1], of q "PipeLock p" "PipeWrite p"]
  have pt: "pipes ?t = pipes s" and kt: "killed (procs ?t q) = killed (procs s q)" by (simp_all add: asleep_def)
  have "cpu_at ?t c \<and> ncli (cpus ?t c) = 1 \<and> locked (locks ?t PtableLock) \<and> \<not> locked (locks ?t (PipeLock p))
     \<and> pipe_ok (pipes ?t p) \<and> contents (pipes ?t p) \<noteq> []" using a c ok by (simp add: pt)
  with d obtain t' k where t': "sw ?t = Ok () t'" "same_locks ?t t'" "killed (procs t' q) = killed (procs ?t q)"
    "0 < k" "k \<le> length (contents (pipes ?t p))" "pipe_ok (pipes t' p)"
    "contents (pipes t' p) = drop k (contents (pipes ?t p))" "readopen (pipes t' p) = readopen (pipes ?t p)"
    unfolding drains_def by metis
  from resume_deep [OF cr t'(2)] obtain s' where
    s': "resume q (PipeLock p) (intena (cpus s c)) t' = Ok () s'" "deep c s s'" "pipes s' = pipes t'"
      "procs s' = (procs t')(q := (procs t' q)\<lparr>pchan := None\<rparr>)" by auto
  have "sleep sw (PipeWrite p) (Some (PipeLock p)) s = Ok () s'"
    using sleep_eq [of s c q "PipeLock p" sw "PipeWrite p"] c t'(1) s'(1) by simp
  then show ?thesis using s' t' pt kt by (intro exI [of _ s'] exI [of _ k]) simp
qed

lemma pipewrite_loop_progress:
  assumes "crit c p q s" and "pipe_ok (pipes s p)" and "readopen (pipes s p)" and "\<not> killed (procs s q)"
    and "\<forall>sw \<in> set sws. drains c p q sw" and "length bs \<le> length sws"
  shows "\<exists>s' k. pipewrite_loop sws p bs s = Ok True s' \<and> deep c s s' \<and> pipe_ok (pipes s' p)
    \<and> contents (pipes s' p) = drop k (contents (pipes s p) @ bs)"
  using assms
proof (induction bs arbitrary: s sws)
  case Nil
  then show ?case by (auto simp: crit_def deep_refl intro!: exI [of _ 0])
next
  case (Cons b bs)
  have at: "cpu_at s c" "0 < ncli (cpus s c)" "cproc (cpus s c) = Some q" "\<not> locked (locks s PtableLock)"
    using Cons.prems(1) by (simp_all add: crit_def)
  show ?case
  proof (cases "pipe_full (pipes s p)")
    case False
    note put = put_ok [OF Cons.prems(2) False, of b]
    let ?s = "set_pipe p (pipe_put b (pipes s p)) s"
    have "readopen (pipes ?s p)" using Cons.prems(3) by (simp add: pipe_put_def)
    with Cons.IH [of ?s sws] Cons.prems put obtain s' k where
      s': "pipewrite_loop sws p bs ?s = Ok True s'" "deep c ?s s'" "pipe_ok (pipes s' p)"
        "contents (pipes s' p) = drop k ((contents (pipes s p) @ [b]) @ bs)" by auto
    have "deep c s s'" using deep_trans [of c s ?s s'] s'(2) deep_refl [OF at(1)] by simp
    then show ?thesis using s' False by (intro exI [of _ s'] exI [of _ k])
        (simp add: pipewrite_loop.simps(2) pipe_at_def)
  next
    case True
    then have ne: "contents (pipes s p) \<noteq> []"
      using ring.full_iff [OF Cons.prems(2)] by (auto simp: PIPESIZE_def simp del: length_contents)
    obtain sw sws' where sws: "sws = sw # sws'" using Cons.prems(6) by (cases sws) auto
    from wakeup_deep [OF at(1,2,4), of "PipeRead p"] obtain u where
      u: "wakeup (PipeRead p) s = Ok () u" "procs u = woken (PipeRead p) (procs s)" "deep c s u" "pipes u = pipes s" by auto
    have ku: "killed (procs u q) = killed (procs s q)" by (simp add: u(2) woken_def)
    have cu: "crit c p q u" by (rule crit_deep [OF Cons.prems(1) u(3)])
    have "drains c p q sw" using Cons.prems(5) sws by simp
    from sleep_drains [OF cu this] Cons.prems(2) ne u(4) obtain v k where
      v: "sleep sw (PipeWrite p) (Some (PipeLock p)) u = Ok () v" "deep c u v" "0 < k" "k \<le> length (contents (pipes s p))"
        "pipe_ok (pipes v p)" "contents (pipes v p) = drop k (contents (pipes s p))"
        "readopen (pipes v p) = readopen (pipes s p)" "killed (procs v q) = killed (procs u q)" by auto
    have nf: "\<not> pipe_full (pipes v p)"
    proof (rule ring.room_not_full [OF v(5)])
      have "length (contents (pipes s p)) \<le> PIPESIZE" by (rule ring.cap_bound [OF Cons.prems(2)])
      then show "length (contents (pipes v p)) < PIPESIZE" unfolding v(6) using v(3,4) by simp
    qed
    note put = put_ok [OF v(5) nf, of b]
    let ?s = "set_pipe p (pipe_put b (pipes v p)) v"
    have "readopen (pipes ?s p)" using Cons.prems(3) v(7) by (simp add: pipe_put_def)
    with Cons.IH [of ?s sws'] Cons.prems put crit_deep [OF cu v(2)] v(8) ku sws obtain s' j where
      s': "pipewrite_loop sws' p bs ?s = Ok True s'" "deep c ?s s'" "pipe_ok (pipes s' p)"
        "contents (pipes s' p) = drop j ((contents (pipes v p) @ [b]) @ bs)" by auto
    have "deep c s s'"
      using deep_trans [OF u(3) v(2)] deep_trans [of c s ?s s'] s'(2) by simp
    moreover have "contents (pipes s' p) = drop (j + k) (contents (pipes s p) @ b # bs)"
      unfolding s'(4) v(6) using v(4) by (simp add: drop_drop [symmetric] add.commute del: drop_drop)
    moreover have "pipewrite_loop sws p (b # bs) s = Ok True s'"
      using True Cons.prems(3,4) my_killed_deep [OF at(1-3)] u(1) v(1) nf s'(1)
      by (simp add: sws pipewrite_loop.simps(2) pipe_at_def)
    ultimately show ?thesis using s'(3) by blast
  qed
qed

text \<open>C23. A writer always finishes: if every time pipewrite sleeps on a full pipe some reader removes at
  least one byte before the writer runs again, it returns n, for any n, and what is left in the
  pipe is the end of the old contents followed by the bytes written: nothing is lost,
  duplicated or reordered.\<close>

theorem pipewrite_progress:
  assumes "cpu_at s c" and "ncli (cpus s c) = 0" and "cproc (cpus s c) = Some q"
    and "\<not> locked (locks s (PipeLock p))" and "\<not> locked (locks s PtableLock)"
    and "pipe_ok (pipes s p)" and "readopen (pipes s p)" and "\<not> killed (procs s q)"
    and "\<forall>sw \<in> set sws. drains c p q sw" and "0 \<le> n" and "nat n \<le> length addr" and "nat n \<le> length sws"
  shows "\<exists>s' k. pipewrite sws p addr n s = Ok n s' \<and> quiet c s s' \<and> pipe_ok (pipes s' p)
    \<and> contents (pipes s' p) = drop k (contents (pipes s p) @ take (nat n) addr)"
proof -
  let ?a = "acquired (PipeLock p) c s"
  have cr: "crit c p q ?a" using cpu_at_acquired [OF assms(1)] assms
    by (simp add: crit_def) (simp add: acquired_def pushed_def)
  from pipewrite_loop_progress [OF cr, of sws "take (nat n) addr"] assms obtain t k where
    t: "pipewrite_loop sws p (take (nat n) addr) ?a = Ok True t" "deep c ?a t" "pipe_ok (pipes t p)"
      "contents (pipes t p) = drop k (contents (pipes s p) @ take (nat n) addr)" by auto
  have ct: "crit c p q t" by (rule crit_deep [OF cr t(2)])
  then obtain u where u: "wakeup (PipeRead p) t = Ok () u" "deep c t u" "pipes u = pipes t"
    using wakeup_deep [of t c "PipeRead p"] by (auto simp: crit_def)
  note r = release_deep [OF assms(1,4) deep_trans [OF t(2) u(2)]]
  have "pipewrite sws p addr n s = Ok n (released (PipeLock p) c u)"
    using assms(4) t(1) u(1) r(1) by (simp add: pipewrite_def acquire_spec [OF assms(1)])
  with r(2) t u show ?thesis by auto
qed

theorem pipewrite_progress_witness:
  "\<exists>s' k. pipewrite [\<lambda>t. Ok () (set_pipe 8 (snd (pipe_get (pipes t 8))) t)] 8 [7] 1 (boot_pipe 512) = Ok 1 s'
     \<and> contents (pipes s' 8) = drop k (contents (pipes (boot_pipe 512) 8) @ [7])"
proof -
  let ?sw = "\<lambda>t :: pipe_st. Ok () (set_pipe 8 (snd (pipe_get (pipes t 8))) t)"
  have "\<exists>t' k. ?sw t = Ok () t' \<and> same_locks t t' \<and> killed (procs t' 0) = killed (procs t 0)
       \<and> 0 < k \<and> k \<le> length (contents (pipes t 8)) \<and> pipe_ok (pipes t' 8)
       \<and> contents (pipes t' 8) = drop k (contents (pipes t 8)) \<and> readopen (pipes t' 8) = readopen (pipes t 8)"
    if "pipe_ok (pipes t 8)" and ne: "contents (pipes t 8) \<noteq> []" for t :: pipe_st
  proof (rule exI [of _ "set_pipe 8 (snd (pipe_get (pipes t 8))) t"], rule exI [of _ 1], intro conjI)
    note g = ring.get_abs [OF that]
    show "pipe_ok (pipes (set_pipe 8 (snd (pipe_get (pipes t 8))) t) 8)" using g by simp
    show "contents (pipes (set_pipe 8 (snd (pipe_get (pipes t 8))) t) 8) = drop 1 (contents (pipes t 8))"
      using g by (simp add: drop_Suc)
    show "1 \<le> length (contents (pipes t 8))" using ne by (cases "contents (pipes t 8)") (simp_all del: length_contents)
    show "same_locks t (set_pipe 8 (snd (pipe_get (pipes t 8))) t)" by (simp add: same_locks_def set_pipe_def)
  qed (simp_all add: pipe_get_def)
  then have "drains 0 8 0 ?sw" unfolding drains_def by blast
  then show ?thesis
    using pipewrite_progress [of "boot_pipe 512" 0 0 8 "[?sw]" 1 "[7]"] boot_pipe_ok [of 512 8]
    by (auto simp: boot_pipe_simps)
qed

end
