(* ===== verification/File.thy ===== *)
theory File
  imports Pipe
begin

text \<open>
  Open files, \<open>src/lab10xv6/xv6/file.c\<close>, and \<open>pipealloc\<close> of \<open>pipe.c\<close>.

  A \<open>struct file *\<close> is the index of the entry in \<open>ftable.file\<close>; the region \<open>ftable.lock\<close> protects is
  one step.  \<open>fileread\<close> returns the bytes it puts at \<open>addr\<close>; \<open>filewrite\<close> takes the bytes there.  \<open>sws\<close>
  are the environments of the pipe routines, \<open>dv\<close> the device table.
\<close>

section \<open>State\<close>

definition NFILE :: nat where "NFILE = 100"

datatype fd_type = FD_NONE | FD_PIPE | FD_INODE

record file_entry =
  f_type :: fd_type
  f_ref :: int
  readable :: bool
  writable :: bool
  f_pipe :: nat
  f_ip :: "nat option"
  f_off :: nat

record file_st = pipe_st +
  ftable :: "nat \<Rightarrow> file_entry"

type_synonym 's envs = "('s, unit) kern list"

definition file_at :: "nat \<Rightarrow> ('z file_st_scheme, file_entry) kern" where
  "file_at f = getk (\<lambda>s. ftable s f)"

definition upd_file :: "nat \<Rightarrow> (file_entry \<Rightarrow> file_entry) \<Rightarrow> ('z file_st_scheme, unit) kern" where
  "upd_file f g = modk (\<lambda>s. s\<lparr>ftable := (ftable s)(f := g (ftable s f))\<rparr>)"

section \<open>Allocation and references\<close>

definition fileinit :: "('z lock_st_scheme, unit) kern" where
  "fileinit = initlock FtableLock"

definition filealloc :: "('z file_st_scheme, nat option) kern" where
  "filealloc =
     bnd (getk ftable) (\<lambda>ft.
     case find (\<lambda>f. f_ref (ft f) = 0) [0..<NFILE] of
       Some f \<Rightarrow> bnd (upd_file f (\<lambda>x. x\<lparr>f_ref := 1\<rparr>)) (\<lambda>_. ret (Some f))
     | None \<Rightarrow> ret None)"

definition filedup :: "nat \<Rightarrow> ('z file_st_scheme, nat) kern" where
  "filedup f =
     bnd (file_at f) (\<lambda>x.
     if f_ref x < 1 then panic ''filedup''
     else bnd (upd_file f (\<lambda>y. y\<lparr>f_ref := f_ref y + 1\<rparr>)) (\<lambda>_. ret f))"

text \<open>Following a null \<open>f->ip\<close>.\<close>

definition with_ip :: "nat option \<Rightarrow> (nat \<Rightarrow> ('s, 'a) kern) \<Rightarrow> ('s, 'a) kern" where
  "with_ip ipo k = (case ipo of None \<Rightarrow> panic ''fault: null inode'' | Some ip \<Rightarrow> k ip)"

definition fileclose :: "nat \<Rightarrow> ('z file_st_scheme, unit) kern" where
  "fileclose f =
     bnd (file_at f) (\<lambda>x.
     if f_ref x < 1 then panic ''fileclose''
     else bnd (upd_file f (\<lambda>y. y\<lparr>f_ref := f_ref y - 1\<rparr>)) (\<lambda>_.
          bnd (file_at f) (\<lambda>ff.
          if f_ref ff > 0 then ret ()
          else bnd (upd_file f (\<lambda>y. y\<lparr>f_ref := 0, f_type := FD_NONE\<rparr>)) (\<lambda>_.
               if f_type ff = FD_PIPE then pipeclose (f_pipe ff) (writable ff)
               else if f_type ff = FD_INODE
               then bnd begin_op (\<lambda>_. bnd (with_ip (f_ip ff) iput) (\<lambda>_. end_op))
               else ret ()))))"

section \<open>Reading and writing\<close>

definition filestat :: "nat \<Rightarrow> ('z file_st_scheme, int \<times> stat option) kern" where
  "filestat f =
     bnd (file_at f) (\<lambda>x.
     if f_type x = FD_INODE
     then bnd (ilock (f_ip x)) (\<lambda>_.
          bnd (with_ip (f_ip x) stati) (\<lambda>st.
          bnd (iunlock (f_ip x)) (\<lambda>_. ret (0, Some st))))
     else ret (- 1, None))"

definition fileread ::
  "'z file_st_scheme envs \<Rightarrow> 'z file_st_scheme devsw \<Rightarrow> nat \<Rightarrow> int \<Rightarrow> ('z file_st_scheme, int \<times> byte list) kern" where
  "fileread sws dv f n =
     bnd (file_at f) (\<lambda>x.
     if \<not> readable x then ret (- 1, [])
     else if f_type x = FD_PIPE then piperead sws (f_pipe x) n
     else if f_type x = FD_INODE
     then bnd (ilock (f_ip x)) (\<lambda>_.
          bnd (with_ip (f_ip x) (\<lambda>ip. readi dv ip (f_off x) (u32 n))) (\<lambda>(r, bs).
          bnd (if r > 0 then upd_file f (\<lambda>y. y\<lparr>f_off := (f_off y + nat r) mod 2 ^ 32\<rparr>) else ret ()) (\<lambda>_.
          bnd (iunlock (f_ip x)) (\<lambda>_. ret (r, bs)))))
     else panic ''fileread'')"

definition max_write :: nat where
  "max_write = ((MAXOPBLOCKS - 1 - 1 - 2) div 2) * 512"

text \<open>The loop of \<open>filewrite\<close> over the bytes not yet written; true when \<open>i == n\<close> at the end.\<close>

function filewrite_loop ::
  "'z file_st_scheme devsw \<Rightarrow> nat \<Rightarrow> byte list \<Rightarrow> ('z file_st_scheme, bool) kern" where
  "filewrite_loop dv f src s =
     (if src = [] then Ok True s
      else let n1 = min (length src) max_write in
           bnd begin_op (\<lambda>_.
           bnd (file_at f) (\<lambda>x.
           bnd (ilock (f_ip x)) (\<lambda>_.
           bnd (with_ip (f_ip x) (\<lambda>ip. writei dv ip (f_off x) (take n1 src))) (\<lambda>r.
           bnd (if r > 0 then upd_file f (\<lambda>y. y\<lparr>f_off := (f_off y + nat r) mod 2 ^ 32\<rparr>) else ret ()) (\<lambda>_.
           bnd (iunlock (f_ip x)) (\<lambda>_.
           bnd end_op (\<lambda>_.
           if r < 0 then ret False
           else if r \<noteq> int n1 then panic ''short filewrite''
           else filewrite_loop dv f (drop n1 src)))))))) s)"
  by pat_completeness auto
termination
  by (relation "measure (\<lambda>(dv, f, src, s). length src)") (auto simp: max_write_def MAXOPBLOCKS_def)

declare filewrite_loop.simps [simp del]

definition filewrite ::
  "'z file_st_scheme envs \<Rightarrow> 'z file_st_scheme devsw \<Rightarrow> nat \<Rightarrow> byte list \<Rightarrow> int \<Rightarrow> ('z file_st_scheme, int) kern" where
  "filewrite sws dv f addr n =
     bnd (file_at f) (\<lambda>x.
     if \<not> writable x then ret (- 1)
     else if f_type x = FD_PIPE then pipewrite sws (f_pipe x) addr n
     else if f_type x = FD_INODE
     then bnd (filewrite_loop dv f (take (nat n) addr)) (\<lambda>full. ret (if full \<and> 0 \<le> n then n else - 1))
     else panic ''filewrite'')"

section \<open>Pipes as files\<close>

definition pipealloc :: "('z file_st_scheme, (nat \<times> nat) option) kern" where
  "pipealloc =
     bnd filealloc (\<lambda>f0.
     case f0 of
       None \<Rightarrow> ret None
     | Some r \<Rightarrow>
         bnd filealloc (\<lambda>f1.
         case f1 of
           None \<Rightarrow> bnd (fileclose r) (\<lambda>_. ret None)
         | Some w \<Rightarrow>
             bnd kalloc (\<lambda>p.
             if p = 0 then bnd (fileclose r) (\<lambda>_. bnd (fileclose w) (\<lambda>_. ret None))
             else bnd (upd_pipe p (\<lambda>x. x\<lparr>readopen := True, writeopen := True, nwrite := 0, nread := 0\<rparr>)) (\<lambda>_.
                  bnd (initlock (PipeLock p)) (\<lambda>_.
                  bnd (upd_file r (\<lambda>x. x\<lparr>f_type := FD_PIPE, readable := True, writable := False, f_pipe := p\<rparr>)) (\<lambda>_.
                  bnd (upd_file w (\<lambda>x. x\<lparr>f_type := FD_PIPE, readable := False, writable := True, f_pipe := p\<rparr>)) (\<lambda>_.
                  ret (Some (r, w)))))))))"

end
