(* ===== verification/Console.thy ===== *)
theory Console
  imports File
begin

text \<open>
  The console, \<open>src/lab10xv6/xv6/console.c\<close>, with the keyboard driver \<open>kbd.c\<close>, the serial port's
  data path (\<open>uartputc\<close>) and, since the console prints them, \<open>procdump\<close> of \<open>proc.c\<close> and
  \<open>getcallerpcs\<close> of \<open>spinlock.c\<close>.

  The screen is \<open>crt\<close>, a cell array, with the cursor register \<open>cur_pos\<close>; \<open>uart_out\<close> collects the
  bytes sent to the serial port.  \<open>panicked\<close> freezes every later output (\<open>Block\<close>).  The function
  \<open>getc\<close> that \<open>consoleintr\<close> polls is the list of characters it returns before \<open>-1\<close>; for the keyboard
  these come from the scan codes through \<open>kbdgetc\<close>.  \<open>panic\<close> itself is the outcome \<open>Panic\<close>.

  \<open>committed\<close> and \<open>editing\<close> abstract the input ring to the finished lines and the line being typed.
\<close>

section \<open>State\<close>

definition BACKSPACE :: int where "BACKSPACE = 0x100"
definition INPUT_BUF :: nat where "INPUT_BUF = 128"
definition CONSOLE :: int where "CONSOLE = 1"

record input_buf =
  in_buf :: "nat \<Rightarrow> byte"
  in_r :: uint32
  in_w :: uint32
  in_e :: uint32

record cons_st = file_st +
  cons_locking :: bool
  panicked :: bool
  input :: input_buf
  crt :: "nat \<Rightarrow> 16 word"
  cur_pos :: nat
  uart :: bool
  uart_out :: "byte list"

section \<open>Output\<close>

definition uartputc :: "int \<Rightarrow> ('z cons_st_scheme, unit) kern" where
  "uartputc c = modk (\<lambda>s. if uart s then s\<lparr>uart_out := uart_out s @ [word_of_int c]\<rparr> else s)"

text \<open>The cursor after \<open>c\<close>, before scrolling, and the screen once scrolled.\<close>

definition cga_advance :: "int \<Rightarrow> nat \<Rightarrow> nat" where
  "cga_advance c pos = (if c = 10 then pos + (80 - pos mod 80)
     else if c = BACKSPACE then pos - 1 else pos + 1)"

definition cga_scroll :: "nat \<Rightarrow> (nat \<Rightarrow> 16 word) \<Rightarrow> nat \<Rightarrow> 16 word" where
  "cga_scroll pos m i = (if pos \<le> i \<and> i < 24 * 80 then 0
     else if i < 23 * 80 then m (i + 80) else m i)"

definition cgaputc :: "int \<Rightarrow> ('z cons_st_scheme, unit) kern" where
  "cgaputc c =
     bnd (getk cur_pos) (\<lambda>pos0.
     bnd (if c \<noteq> 10 \<and> c \<noteq> BACKSPACE
          then modk (\<lambda>s. s\<lparr>crt := (crt s)(pos0 := (word_of_int c AND 0xff) OR 0x0700)\<rparr>) else ret ()) (\<lambda>_.
     let pos = cga_advance c pos0 in
     if pos > 25 * 80 then panic ''pos under/overflow''
     else let pos' = (if pos div 80 \<ge> 24 then pos - 80 else pos) in
          bnd (if pos div 80 \<ge> 24 then modk (\<lambda>s. s\<lparr>crt := cga_scroll pos' (crt s)\<rparr>) else ret ()) (\<lambda>_.
          bnd (modk (\<lambda>s. s\<lparr>cur_pos := pos'\<rparr>)) (\<lambda>_.
          modk (\<lambda>s. s\<lparr>crt := (crt s)(pos' := 0x0720)\<rparr>)))))"

definition consputc :: "int \<Rightarrow> ('z cons_st_scheme, unit) kern" where
  "consputc c =
     bnd (getk panicked) (\<lambda>frozen.
     if frozen then bnd cli (\<lambda>_ _. Block ''panicked'')
     else bnd (if c = BACKSPACE
               then bnd (uartputc 8) (\<lambda>_. bnd (uartputc 32) (\<lambda>_. uartputc 8))
               else uartputc c) (\<lambda>_.
          cgaputc c))"

definition put_bytes :: "byte list \<Rightarrow> ('z cons_st_scheme, unit) kern" where
  "put_bytes bs = for_each (\<lambda>b. consputc (uint b)) bs"

section \<open>Formatted output\<close>

definition bstr :: "string \<Rightarrow> byte list" where
  "bstr t = map (\<lambda>c. of_nat (of_char c)) t"

definition digit :: "nat \<Rightarrow> byte" where
  "digit d = (if d < 10 then of_nat (48 + d) else of_nat (87 + d))"

text \<open>\<open>do buf[i++] = digits[x % base]; while((x /= base) != 0)\<close>, for the bases 10 and 16 in use.\<close>

function do_digits :: "nat \<Rightarrow> nat \<Rightarrow> byte list" where
  "do_digits base x = digit (x mod base) # (if x div base = 0 \<or> base < 2 then [] else do_digits base (x div base))"
  by pat_completeness auto
termination
  by (relation "measure snd") (auto simp: Euclidean_Rings.div_eq_0_iff)

declare do_digits.simps [simp del]

definition printint_buf :: "int \<Rightarrow> nat \<Rightarrow> bool \<Rightarrow> byte list" where
  "printint_buf xx base sign =
     (let neg = (sign \<and> xx < 0); x = (if neg then u32 (- xx) else u32 xx)
      in do_digits base x @ (if neg then [45] else []))"

definition printint :: "int \<Rightarrow> nat \<Rightarrow> bool \<Rightarrow> ('z cons_st_scheme, unit) kern" where
  "printint xx base sign = put_bytes (rev (printint_buf xx base sign))"

text \<open>An argument of \<open>cprintf\<close>: a 32-bit word, or a pointer to a string, null or not.\<close>

datatype carg = AInt uint32 | AStr "byte list option"

definition fault_arg :: "('s, 'a) kern" where
  "fault_arg = panic ''fault: cprintf argument''"

fun cprintf_loop :: "byte list \<Rightarrow> carg list \<Rightarrow> ('z cons_st_scheme, unit) kern" where
  "cprintf_loop [] args s = Ok () s"
| "cprintf_loop [c] args s =
     (if c = 0 \<or> c = 37 then Ok () s else consputc (uint c) s)"
| "cprintf_loop (c # d # fmt) args s =
     (if c = 0 then Ok () s
      else if c \<noteq> 37 then bnd (consputc (uint c)) (\<lambda>_. cprintf_loop (d # fmt) args) s
      else if d = 0 then Ok () s
      else if d = 100 then
        (case args of AInt v # as \<Rightarrow> bnd (printint (sint v) 10 True) (\<lambda>_. cprintf_loop fmt as) | _ \<Rightarrow> fault_arg) s
      else if d = 120 \<or> d = 112 then
        (case args of AInt v # as \<Rightarrow> bnd (printint (sint v) 16 False) (\<lambda>_. cprintf_loop fmt as) | _ \<Rightarrow> fault_arg) s
      else if d = 115 then
        (case args of
           AStr None # as \<Rightarrow> bnd (put_bytes (bstr ''(null)'')) (\<lambda>_. cprintf_loop fmt as)
         | AStr (Some t) # as \<Rightarrow> bnd (put_bytes t) (\<lambda>_. cprintf_loop fmt as)
         | _ \<Rightarrow> fault_arg) s
      else if d = 37 then bnd (consputc 37) (\<lambda>_. cprintf_loop fmt args) s
      else bnd (consputc 37) (\<lambda>_. bnd (consputc (uint d)) (\<lambda>_. cprintf_loop fmt args)) s)"

definition cprintf :: "byte list option \<Rightarrow> carg list \<Rightarrow> ('z cons_st_scheme, unit) kern" where
  "cprintf fmt args =
     bnd (getk cons_locking) (\<lambda>locking.
     bnd (if locking then acquire ConsLock else ret ()) (\<lambda>_.
     case fmt of
       None \<Rightarrow> panic ''null fmt''
     | Some f \<Rightarrow>
         bnd (cprintf_loop f args) (\<lambda>_.
         if locking then release ConsLock else ret ())))"

section \<open>The process listing\<close>

text \<open>The saved program counters, following the frame pointers from \<open>ebp\<close>; the rest are 0.\<close>

fun callerpcs :: "mem \<Rightarrow> nat \<Rightarrow> nat \<Rightarrow> uint32 list" where
  "callerpcs m ebp 0 = []"
| "callerpcs m ebp (Suc n) =
     (if ebp = 0 \<or> ebp < KERNBASE \<or> ebp = 0xffffffff then replicate (Suc n) 0
      else load32 m (ebp + 4) # callerpcs m (unat (load32 m ebp)) n)"

definition getcallerpcs :: "nat \<Rightarrow> ('z kmem_st_scheme, uint32 list) kern" where
  "getcallerpcs v = getk (\<lambda>s. callerpcs (mem s) (v - 8) 10)"

fun state_name :: "procstate \<Rightarrow> string" where
  "state_name UNUSED = ''unused''"
| "state_name EMBRYO = ''embryo''"
| "state_name SLEEPING = ''sleep ''"
| "state_name RUNNABLE = ''runble''"
| "state_name RUNNING = ''run   ''"
| "state_name ZOMBIE = ''zombie''"

definition procdump_one :: "nat \<Rightarrow> ('z cons_st_scheme, unit) kern" where
  "procdump_one i =
     bnd (getk (\<lambda>s. procs s i)) (\<lambda>p.
     if pstate p = UNUSED then ret ()
     else bnd (cprintf (Some (bstr ''%d %s %s''))
                 [AInt (word_of_int (pid p)), AStr (Some (bstr (state_name (pstate p)))),
                  AStr (Some (takeWhile (\<lambda>b. b \<noteq> 0) (pname p)))]) (\<lambda>_.
          bnd (if pstate p = SLEEPING
               then bnd (getk (\<lambda>s. unat (load32 (mem s) (pcontext p + 12)))) (\<lambda>ebp.
                    bnd (getcallerpcs (ebp + 8)) (\<lambda>pcs.
                    for_each (\<lambda>pc. cprintf (Some (bstr '' %p'')) [AInt pc]) (takeWhile (\<lambda>pc. pc \<noteq> 0) pcs)))
               else ret ()) (\<lambda>_.
          cprintf (Some [10]) [])))"

definition procdump :: "('z cons_st_scheme, unit) kern" where
  "procdump = for_each procdump_one [0..<NPROC]"

section \<open>Input\<close>

definition upd_input :: "(input_buf \<Rightarrow> input_buf) \<Rightarrow> ('z cons_st_scheme, unit) kern" where
  "upd_input f = modk (\<lambda>s. s\<lparr>input := f (input s)\<rparr>)"

definition slot :: "uint32 \<Rightarrow> nat" where
  "slot x = unat x mod INPUT_BUF"

definition rub_out :: "input_buf \<Rightarrow> input_buf" where
  "rub_out b = b\<lparr>in_e := in_e b - 1\<rparr>"

definition add_char :: "byte \<Rightarrow> input_buf \<Rightarrow> input_buf" where
  "add_char c b = b\<lparr>in_buf := (in_buf b)(slot (in_e b) := c), in_e := in_e b + 1\<rparr>"

text \<open>The loop of control-U.  Its fuel is the size of the ring; \<open>Block\<close> would be an endless loop.\<close>

fun kill_line :: "nat \<Rightarrow> ('z cons_st_scheme, unit) kern" where
  "kill_line 0 s = Block ''kill line''"
| "kill_line (Suc n) s =
     (if in_e (input s) \<noteq> in_w (input s) \<and> in_buf (input s) (slot (in_e (input s) - 1)) \<noteq> 10
      then bnd (upd_input rub_out) (\<lambda>_. bnd (consputc BACKSPACE) (\<lambda>_. kill_line n)) s
      else Ok () s)"

definition intr_char :: "int \<Rightarrow> ('z cons_st_scheme, unit) kern" where
  "intr_char c =
     bnd (getk input) (\<lambda>b.
     if c = 21 then kill_line (INPUT_BUF + 1)
     else if c = 8 \<or> c = 127
     then if in_e b \<noteq> in_w b then bnd (upd_input rub_out) (\<lambda>_. consputc BACKSPACE) else ret ()
     else if c \<noteq> 0 \<and> unat (in_e b - in_r b) < INPUT_BUF
     then let c' = (if c = 13 then 10 else c) in
          bnd (upd_input (add_char (word_of_int c'))) (\<lambda>_.
          bnd (consputc c') (\<lambda>_.
          bnd (getk input) (\<lambda>b'.
          if c' = 10 \<or> c' = 4 \<or> in_e b' = in_r b' + of_nat INPUT_BUF
          then bnd (upd_input (\<lambda>x. x\<lparr>in_w := in_e x\<rparr>)) (\<lambda>_. wakeup InputChan)
          else ret ())))
     else ret ())"

definition consoleintr :: "int list \<Rightarrow> ('z cons_st_scheme, unit) kern" where
  "consoleintr keys =
     bnd (acquire ConsLock) (\<lambda>_.
     bnd (for_each intr_char (filter (\<lambda>c. c \<noteq> 16) keys)) (\<lambda>_.
     bnd (release ConsLock) (\<lambda>_.
     if 16 \<in> set keys then procdump else ret ())))"

text \<open>
  The loop of \<open>consoleread\<close>: \<open>n\<close> bytes still wanted, \<open>got\<close> some already.  The result is \<open>None\<close> on the
  way to \<open>return -1\<close>.
\<close>

function consoleread_loop ::
  "'z cons_st_scheme envs \<Rightarrow> nat \<Rightarrow> bool \<Rightarrow> ('z cons_st_scheme, byte list option) kern" where
  "consoleread_loop sws n got s =
     (if n = 0 then Ok (Some []) s
      else bnd (getk input) (\<lambda>b.
           if in_r b = in_w b
           then bnd my_killed (\<lambda>k.
                if k then ret None
                else case sws of
                       [] \<Rightarrow> (\<lambda>_. Block ''consoleread'')
                     | sw # sws' \<Rightarrow>
                         bnd (sleep sw InputChan (Some ConsLock)) (\<lambda>_. consoleread_loop sws' n got))
           else bnd (upd_input (\<lambda>x. x\<lparr>in_r := in_r x + 1\<rparr>)) (\<lambda>_.
                let c = in_buf b (slot (in_r b)) in
                if c = 4
                then bnd (if got then upd_input (\<lambda>x. x\<lparr>in_r := in_r x - 1\<rparr>) else ret ()) (\<lambda>_. ret (Some []))
                else if c = 10 then ret (Some [c])
                else bnd (consoleread_loop sws (n - 1) True) (\<lambda>r. ret (map_option (\<lambda>bs. c # bs) r)))) s)"
  by pat_completeness auto
termination
  by (relation "measure (\<lambda>(sws, n, got, s). length sws + n)") auto

declare consoleread_loop.simps [simp del]

definition consoleread ::
  "'z cons_st_scheme envs \<Rightarrow> nat \<Rightarrow> int \<Rightarrow> ('z cons_st_scheme, int \<times> byte list) kern" where
  "consoleread sws ip n =
     bnd (iunlock (Some ip)) (\<lambda>_.
     bnd (acquire ConsLock) (\<lambda>_.
     bnd (consoleread_loop sws (nat n) False) (\<lambda>r.
     bnd (release ConsLock) (\<lambda>_.
     bnd (ilock (Some ip)) (\<lambda>_.
     case r of None \<Rightarrow> ret (- 1, []) | Some bs \<Rightarrow> ret (int (length bs), bs))))))"

definition consolewrite :: "nat \<Rightarrow> byte list \<Rightarrow> ('z cons_st_scheme, int) kern" where
  "consolewrite ip src =
     bnd (iunlock (Some ip)) (\<lambda>_.
     bnd (acquire ConsLock) (\<lambda>_.
     bnd (put_bytes src) (\<lambda>_.
     bnd (release ConsLock) (\<lambda>_.
     bnd (ilock (Some ip)) (\<lambda>_. ret (int (length src)))))))"

text \<open>The device table after \<open>consoleinit\<close>, and its other effects.\<close>

definition devsw_table :: "'z cons_st_scheme envs \<Rightarrow> 'z cons_st_scheme devsw" where
  "devsw_table sws d = (if d = CONSOLE then Some (\<lambda>ip n. consoleread sws ip (s32 n), consolewrite) else None)"

definition consoleinit :: "('z cons_st_scheme, unit) kern" where
  "consoleinit = bnd (initlock ConsLock) (\<lambda>_. modk (\<lambda>s. s\<lparr>cons_locking := True\<rparr>))"

section \<open>The keyboard\<close>

definition SHIFT :: nat where "SHIFT = 1"
definition CTL :: nat where "CTL = 2"
definition ALT :: nat where "ALT = 4"
definition CAPSLOCK :: nat where "CAPSLOCK = 8"
definition NUMLOCK :: nat where "NUMLOCK = 16"
definition SCROLLLOCK :: nat where "SCROLLLOCK = 32"
definition E0ESC :: nat where "E0ESC = 64"

definition shiftcode :: "nat \<Rightarrow> nat" where
  "shiftcode d = (if d = 0x1D \<or> d = 0x9D then CTL else if d = 0x2A \<or> d = 0x36 then SHIFT
     else if d = 0x38 \<or> d = 0xB8 then ALT else 0)"

definition togglecode :: "nat \<Rightarrow> nat" where
  "togglecode d = (if d = 0x3A then CAPSLOCK else if d = 0x45 then NUMLOCK else if d = 0x46 then SCROLLLOCK else 0)"

text \<open>The special keys, which all three maps share but for Enter and the keypad slash.\<close>

definition keypad :: "nat \<Rightarrow> nat \<Rightarrow> nat \<Rightarrow> nat" where
  "keypad enter div_key d = (case map_of [(0x9C, enter), (0xB5, div_key), (0xC8, 0xE2), (0xD0, 0xE3), (0xC9, 0xE6),
       (0xD1, 0xE7), (0xCB, 0xE4), (0xCD, 0xE5), (0x97, 0xE0), (0xCF, 0xE1), (0xD2, 0xE8), (0xD3, 0xE9)] d
     of Some k \<Rightarrow> k | None \<Rightarrow> 0)"

definition nth0 :: "nat list \<Rightarrow> nat \<Rightarrow> nat" where
  "nth0 xs d = (if d < length xs then xs ! d else 0)"

definition normalmap :: "nat \<Rightarrow> nat" where
  "normalmap d = (if d < 0x58 then nth0
     [0, 0x1B, 49, 50, 51, 52, 53, 54,
      55, 56, 57, 48, 45, 61, 8, 9,
      113, 119, 101, 114, 116, 121, 117, 105,
      111, 112, 91, 93, 10, 0, 97, 115,
      100, 102, 103, 104, 106, 107, 108, 59,
      39, 96, 0, 92, 122, 120, 99, 118,
      98, 110, 109, 44, 46, 47, 0, 42,
      0, 32, 0, 0, 0, 0, 0, 0,
      0, 0, 0, 0, 0, 0, 0, 55,
      56, 57, 45, 52, 53, 54, 43, 49,
      50, 51, 48, 46, 0, 0, 0, 0] d else keypad 10 47 d)"

definition shiftmap :: "nat \<Rightarrow> nat" where
  "shiftmap d = (if d < 0x58 then nth0
     [0, 27, 33, 64, 35, 36, 37, 94,
      38, 42, 40, 41, 95, 43, 8, 9,
      81, 87, 69, 82, 84, 89, 85, 73,
      79, 80, 123, 125, 10, 0, 65, 83,
      68, 70, 71, 72, 74, 75, 76, 58,
      34, 126, 0, 124, 90, 88, 67, 86,
      66, 78, 77, 60, 62, 63, 0, 42,
      0, 32, 0, 0, 0, 0, 0, 0,
      0, 0, 0, 0, 0, 0, 0, 55,
      56, 57, 45, 52, 53, 54, 43, 49,
      50, 51, 48, 46, 0, 0, 0, 0] d else keypad 10 47 d)"

text \<open>\<open>C(x)\<close> is \<open>x - '@'\<close>, cut to a byte.\<close>

definition ctl :: "nat \<Rightarrow> nat" where
  "ctl x = (x + 192) mod 256"

definition ctlmap :: "nat \<Rightarrow> nat" where
  "ctlmap d = (if d < 0x38 then nth0
     [0, 0, 0, 0, 0, 0, 0, 0,
      0, 0, 0, 0, 0, 0, 0, 0,
      ctl 81, ctl 87, ctl 69, ctl 82, ctl 84, ctl 89, ctl 85, ctl 73,
      ctl 79, ctl 80, 0, 0, 13, 0, ctl 65, ctl 83,
      ctl 68, ctl 70, ctl 71, ctl 72, ctl 74, ctl 75, ctl 76, 0,
      0, 0, 0, ctl 92, ctl 90, ctl 88, ctl 67, ctl 86,
      ctl 66, ctl 78, ctl 77, 0, 0, ctl 47, 0, 0] d else keypad 13 (ctl 47) d)"

definition charcode :: "nat \<Rightarrow> nat \<Rightarrow> nat" where
  "charcode k = (if k = 0 then normalmap else if k = 1 then shiftmap else ctlmap)"

text \<open>\<open>x & ~y\<close>.\<close>

definition and_not :: "nat \<Rightarrow> nat \<Rightarrow> nat" where
  "and_not x y = x - (x AND y)"

text \<open>
  One call of \<open>kbdgetc\<close>: \<open>st\<close> is the status port, \<open>data\<close> the data port, \<open>shift\<close> the static variable.
\<close>

definition kbdgetc :: "byte \<Rightarrow> byte \<Rightarrow> nat \<Rightarrow> int \<times> nat" where
  "kbdgetc st dat shift =
     (if st AND 1 = 0 then (- 1, shift)
      else let d = unat dat in
      if d = 0xE0 then (0, shift OR E0ESC)
      else if d \<ge> 0x80
      then let d = (if shift AND E0ESC \<noteq> 0 then d else d AND 0x7F)
           in (0, and_not shift (shiftcode d OR E0ESC))
      else let d = (if shift AND E0ESC \<noteq> 0 then d OR 0x80 else d);
               shift = (if shift AND E0ESC \<noteq> 0 then and_not shift E0ESC else shift);
               shift = (shift OR shiftcode d) XOR togglecode d;
               c = charcode (shift AND (CTL OR SHIFT)) d;
               c = (if shift AND CAPSLOCK \<noteq> 0
                    then if 97 \<le> c \<and> c \<le> 122 then c - 32 else if 65 \<le> c \<and> c \<le> 90 then c + 32 else c
                    else c)
           in (int c, shift))"

text \<open>The characters \<open>kbdgetc\<close> returns until the controller's buffer is empty.\<close>

fun kbd_chars :: "byte list \<Rightarrow> nat \<Rightarrow> int list \<times> nat" where
  "kbd_chars [] shift = ([], shift)"
| "kbd_chars (d # ds) shift =
     (let (c, shift) = kbdgetc 1 d shift; (keys, shift) = kbd_chars ds shift in (c # keys, shift))"

definition kbdintr :: "byte list \<Rightarrow> nat \<Rightarrow> ('z cons_st_scheme, nat) kern" where
  "kbdintr ds shift = (let (keys, shift') = kbd_chars ds shift in bnd (consoleintr keys) (\<lambda>_. ret shift'))"

definition uartgetc :: "bool \<Rightarrow> byte option \<Rightarrow> int" where
  "uartgetc present d = (if \<not> present then - 1 else case d of None \<Rightarrow> - 1 | Some b \<Rightarrow> uint b)"

definition uartintr :: "byte list \<Rightarrow> ('z cons_st_scheme, unit) kern" where
  "uartintr ds =
     bnd (getk uart) (\<lambda>present. consoleintr (takeWhile (\<lambda>c. 0 \<le> c) (map (\<lambda>d. uartgetc present (Some d)) ds)))"

end
