(* ===== verification/Syscall.thy ===== *)
theory Syscall
  imports Console
begin

text \<open>
  User memory from the kernel, and the argument fetching of \<open>src/lab10xv6/xv6/syscall.c\<close>.

  The kernel reads and writes user addresses through the page table in \<open>cr3\<close>; an address that is
  not mapped faults in kernel mode, which \<open>trap\<close> turns into the panic \<open>trap\<close>.  Arguments are the words
  above the saved stack pointer in the trap frame.  A fetched string is returned as its bytes.
\<close>

section \<open>User memory\<close>

definition uload8 :: "nat \<Rightarrow> ('z vm_st_scheme, byte) kern" where
  "uload8 va s =
     (case translate (mem s) (P2V (cr3 s)) va of
        None \<Rightarrow> Panic ''trap''
      | Some pa \<Rightarrow> Ok (mem s (P2V pa)) s)"

fun uload :: "nat \<Rightarrow> nat \<Rightarrow> ('z vm_st_scheme, byte list) kern" where
  "uload va 0 s = Ok [] s"
| "uload va (Suc n) s = bnd (uload8 va) (\<lambda>b. bnd (uload (va + 1) n) (\<lambda>bs. ret (b # bs))) s"

definition ustore8 :: "nat \<Rightarrow> byte \<Rightarrow> ('z vm_st_scheme, unit) kern" where
  "ustore8 va b s =
     (case translate (mem s) (P2V (cr3 s)) va of
        None \<Rightarrow> Panic ''trap''
      | Some pa \<Rightarrow> Ok () (s\<lparr>mem := (mem s)(P2V pa := b)\<rparr>))"

fun ustore :: "nat \<Rightarrow> byte list \<Rightarrow> ('z vm_st_scheme, unit) kern" where
  "ustore va [] s = Ok () s"
| "ustore va (b # bs) s = bnd (ustore8 va b) (\<lambda>_. ustore (va + 1) bs) s"

section \<open>Arguments\<close>

definition TF_EAX :: nat where "TF_EAX = 28"
definition TF_ES :: nat where "TF_ES = 40"
definition TF_DS :: nat where "TF_DS = 44"
definition TF_TRAPNO :: nat where "TF_TRAPNO = 48"
definition TF_ERR :: nat where "TF_ERR = 52"
definition TF_EIP :: nat where "TF_EIP = 56"
definition TF_CS :: nat where "TF_CS = 60"
definition TF_EFLAGS :: nat where "TF_EFLAGS = 64"
definition TF_ESP :: nat where "TF_ESP = 68"
definition TF_SS :: nat where "TF_SS = 72"

definition my_proc :: "('z proc_st_scheme, proc) kern" where
  "my_proc = bnd myproc_nn (\<lambda>p. getk (\<lambda>s. procs s p))"

definition fetchint :: "nat \<Rightarrow> ('z proc_st_scheme, int option) kern" where
  "fetchint addr =
     bnd my_proc (\<lambda>pr.
     if addr \<ge> psz pr \<or> (addr + 4) mod 2 ^ 32 > psz pr then ret None
     else bnd (uload addr 4) (\<lambda>bs. ret (Some (s32 (get32 bs 0)))))"

function fetchstr_loop :: "nat \<Rightarrow> nat \<Rightarrow> ('z proc_st_scheme, byte list option) kern" where
  "fetchstr_loop a ep s =
     (if a < ep
      then bnd (uload8 a) (\<lambda>b.
           if b = 0 then ret (Some [])
           else bnd (fetchstr_loop (a + 1) ep) (\<lambda>r. ret (map_option (\<lambda>bs. b # bs) r))) s
      else Ok None s)"
  by pat_completeness auto
termination
  by (relation "measure (\<lambda>(a, ep, s). ep - a)") auto

declare fetchstr_loop.simps [simp del]

definition fetchstr :: "nat \<Rightarrow> ('z proc_st_scheme, byte list option) kern" where
  "fetchstr addr =
     bnd my_proc (\<lambda>pr.
     if addr \<ge> psz pr then ret None
     else fetchstr_loop addr (psz pr))"

definition argint :: "nat \<Rightarrow> ('z proc_st_scheme, int option) kern" where
  "argint n =
     bnd my_proc (\<lambda>pr.
     bnd (getk (\<lambda>s. unat (load32 (mem s) (tf pr + TF_ESP)))) (\<lambda>esp.
     fetchint ((esp + 4 + 4 * n) mod 2 ^ 32)))"

definition argptr :: "nat \<Rightarrow> int \<Rightarrow> ('z proc_st_scheme, nat option) kern" where
  "argptr n sz =
     bnd my_proc (\<lambda>pr.
     bnd (argint n) (\<lambda>r.
     case r of
       None \<Rightarrow> ret None
     | Some i \<Rightarrow>
         if sz < 0 \<or> u32 i \<ge> psz pr \<or> (u32 i + nat sz) mod 2 ^ 32 > psz pr then ret None
         else ret (Some (u32 i))))"

definition argstr :: "nat \<Rightarrow> ('z proc_st_scheme, byte list option) kern" where
  "argstr n =
     bnd (argint n) (\<lambda>r.
     case r of None \<Rightarrow> ret None | Some addr \<Rightarrow> fetchstr (u32 addr))"

section \<open>What the checks guarantee\<close>

text \<open>Calling \<open>myproc\<close> leaves a trace in the saved interrupt flag only.\<close>

definition noted :: "nat \<Rightarrow> 'z lock_st_scheme \<Rightarrow> 'z lock_st_scheme" where
  "noted c s = popped c (pushed c s)"

lemma noted_simps [simp]:
  "mem (noted c s) = mem s" "cr3 (noted c s) = cr3 s" "cproc (cpus (noted c s) c) = cproc (cpus s c)"
  by (simp_all add: noted_def popped_def pushed_def)

lemma noted_procs [simp]: "procs (noted c s) = procs s"
  by (simp add: noted_def)

lemma cpu_at_noted [simp]: "cpu_at s c \<Longrightarrow> cpu_at (noted c s) c"
  using popcli_spec(2) [OF pushcli_spec(2) pushed_pos] by (simp add: noted_def)

lemma noted_noted [simp]: "cpu_at s c \<Longrightarrow> noted c (noted c s) = noted c s"
  using cpu_at_noted [of s c] by (simp add: noted_def pushed_popped)

lemma my_proc_spec:
  "cpu_at s c \<Longrightarrow> cproc (cpus s c) = Some p \<Longrightarrow> my_proc s = Ok (procs s p) (noted c s)"
  by (simp add: my_proc_def myproc_nn_def myproc_spec noted_def [symmetric] bnd_def)

text \<open>The byte the MMU finds at a user address, and that all of the process's memory is mapped.\<close>

definition ubyte :: "'z vm_st_scheme \<Rightarrow> nat \<Rightarrow> byte" where
  "ubyte s va = mem s (P2V (the (translate (mem s) (P2V (cr3 s)) va)))"

definition mapped :: "'z vm_st_scheme \<Rightarrow> nat \<Rightarrow> bool" where
  "mapped s n \<longleftrightarrow> (\<forall>va < n. translate (mem s) (P2V (cr3 s)) va \<noteq> None)"

lemma ubyte_noted [simp]: "ubyte (noted c s) = ubyte s"
  by (simp add: ubyte_def fun_eq_iff)

lemma mapped_noted [simp]: "mapped (noted c s) n = mapped s n"
  by (simp add: mapped_def)

lemma uload8_mapped: "mapped s n \<Longrightarrow> va < n \<Longrightarrow> uload8 va s = Ok (ubyte s va) s"
  by (auto simp: uload8_def ubyte_def mapped_def split: option.split)

lemma uload_mapped: "mapped s n \<Longrightarrow> va + k \<le> n \<Longrightarrow> uload va k s = Ok (map (ubyte s) [va..<va + k]) s"
proof (induction k arbitrary: va)
  case (Suc k)
  then have "uload (va + 1) k s = Ok (map (ubyte s) [va + 1..<va + 1 + k]) s" by simp
  moreover have "[va..<va + Suc k] = va # [va + 1..<va + 1 + k]" by (simp add: upt_conv_Cons)
  ultimately show ?case using Suc.prems uload8_mapped [of s n va] by simp
qed simp

lemma fetchstr_loop_mapped:
  assumes "mapped s ep"
  shows "fetchstr_loop a ep s = Ok (if 0 \<in> ubyte s ` {a..<ep}
      then Some (takeWhile (\<lambda>b. b \<noteq> 0) (map (ubyte s) [a..<ep])) else None) s"
proof (induction "ep - a" arbitrary: a)
  case 0
  then show ?case by (simp add: fetchstr_loop.simps [of a])
next
  case (Suc n)
  then have lt: "a < ep" and ih: "fetchstr_loop (a + 1) ep s = Ok (if 0 \<in> ubyte s ` {a + 1..<ep}
      then Some (takeWhile (\<lambda>b. b \<noteq> 0) (map (ubyte s) [a + 1..<ep])) else None) s" by simp_all
  have "{a..<ep} = insert a {a + 1..<ep}" and "[a..<ep] = a # [a + 1..<ep]"
    using lt by (auto simp: upt_conv_Cons)
  then show ?case using lt ih uload8_mapped [OF assms lt]
    by (auto simp: fetchstr_loop.simps [of a])
qed

lemma KERNBASE_half: "KERNBASE = 2 ^ 31"
  by (simp add: KERNBASE_def)

lemma fetchint_spec:
  assumes "cpu_at s c" and "cproc (cpus s c) = Some p" and "psz (procs s p) \<le> KERNBASE"
    and "mapped s (psz (procs s p))" and "addr < 2 ^ 32"
  shows "fetchint addr s = Ok (if addr + 4 \<le> psz (procs s p)
      then Some (s32 (get32 (map (ubyte s) [addr..<addr + 4]) 0)) else None) (noted c s)"
proof (cases "addr + 4 \<le> psz (procs s p)")
  case True
  then have "(addr + 4) mod 2 ^ 32 = addr + 4" using assms(3) by (simp add: KERNBASE_def)
  with True show ?thesis
    using uload_mapped [of "noted c s" "psz (procs s p)" addr 4] assms(4)
    by (simp add: fetchint_def my_proc_spec [OF assms(1,2)])
next
  case False
  have "addr \<ge> psz (procs s p) \<or> (addr + 4) mod 2 ^ 32 > psz (procs s p)"
  proof (cases "addr \<ge> psz (procs s p)")
    case False
    then have "addr + 4 < 2 ^ 32" using assms(3) by (simp add: KERNBASE_def)
    with \<open>\<not> addr + 4 \<le> _\<close> show ?thesis by simp
  qed simp
  with False show ?thesis by (simp add: fetchint_def my_proc_spec [OF assms(1,2)])
qed

text \<open>The address and the value of the nth argument word.\<close>

definition arg_addr :: "'z proc_st_scheme \<Rightarrow> nat \<Rightarrow> nat \<Rightarrow> nat" where
  "arg_addr s p n = (unat (load32 (mem s) (tf (procs s p) + TF_ESP)) + 4 + 4 * n) mod 2 ^ 32"

definition arg_word :: "'z proc_st_scheme \<Rightarrow> nat \<Rightarrow> nat \<Rightarrow> nat" where
  "arg_word s p n = get32 (map (ubyte s) [arg_addr s p n..<arg_addr s p n + 4]) 0"

lemma u32_s32: "n < 2 ^ 32 \<Longrightarrow> u32 (s32 n) = n"
  by (auto simp: u32_def s32_def nat_mod_distrib)

lemma argint_spec:
  assumes "cpu_at s c" and "cproc (cpus s c) = Some p" and "psz (procs s p) \<le> KERNBASE"
    and "mapped s (psz (procs s p))"
  shows "argint n s = Ok (if arg_addr s p n + 4 \<le> psz (procs s p) then Some (s32 (arg_word s p n)) else None) (noted c s)"
proof -
  have "arg_addr s p n < 2 ^ 32" by (simp add: arg_addr_def)
  then have "fetchint (arg_addr s p n) (noted c s) = Ok (if arg_addr s p n + 4 \<le> psz (procs s p)
      then Some (s32 (arg_word s p n)) else None) (noted c s)"
    using fetchint_spec [of "noted c s" c p "arg_addr s p n"] assms by (simp add: arg_word_def)
  then show ?thesis by (simp add: argint_def my_proc_spec [OF assms(1,2)] arg_addr_def)
qed

text \<open>C6. The pointer check of a system call is exact: argptr accepts the nth argument as a block of sz bytes
  if and only if the argument word and the whole block lie inside the process, although the
  comparison is in wrapping 32-bit arithmetic; it returns the argument, and neither it nor the
  reads of user memory it makes can fault.\<close>

theorem argptr_exact:
  assumes "cpu_at s c" and "cproc (cpus s c) = Some p" and "psz (procs s p) \<le> KERNBASE"
    and "mapped s (psz (procs s p))" and "sz < 2 ^ 31"
  shows "argptr n sz s = Ok (if arg_addr s p n + 4 \<le> psz (procs s p) \<and> 0 \<le> sz
        \<and> arg_word s p n < psz (procs s p) \<and> arg_word s p n + nat sz \<le> psz (procs s p)
      then Some (arg_word s p n) else None) (noted c s)"
proof -
  have w: "u32 (s32 (arg_word s p n)) = arg_word s p n" using get32_less by (simp add: u32_s32 arg_word_def)
  have wrap: "(arg_word s p n + nat sz) mod 2 ^ 32 = arg_word s p n + nat sz" if "arg_word s p n < psz (procs s p)"
  proof (rule mod_less)
    have "nat sz < 2 ^ 31" using assms(5) by simp
    then show "arg_word s p n + nat sz < 2 ^ 32" using that assms(3) by (simp add: KERNBASE_half)
  qed
  have ai: "argint n (noted c s) = Ok (if arg_addr s p n + 4 \<le> psz (procs s p) then Some (s32 (arg_word s p n)) else None) (noted c s)"
    using argint_spec [of "noted c s" c p n] assms by (simp add: arg_addr_def arg_word_def)
  show ?thesis
    using wrap by (auto simp: argptr_def my_proc_spec [OF assms(1,2)] ai w)
qed

text \<open>C24. Fetching a string is safe and exact: fetchstr succeeds if and only if the address is inside the
  process and a NUL byte follows before its end, returns the bytes up to that NUL, and never
  reads outside the process.\<close>

theorem fetchstr_exact:
  assumes "cpu_at s c" and "cproc (cpus s c) = Some p" and "mapped s (psz (procs s p))"
  shows "fetchstr addr s = Ok (if 0 \<in> ubyte s ` {addr..<psz (procs s p)}
      then Some (takeWhile (\<lambda>b. b \<noteq> 0) (map (ubyte s) [addr..<psz (procs s p)])) else None) (noted c s)"
  using fetchstr_loop_mapped [of "noted c s" "psz (procs s p)" addr] assms(3)
  by (simp add: fetchstr_def my_proc_spec [OF assms(1,2)])

section \<open>Witnesses\<close>

text \<open>
  A process using 32 bytes of one page: the directory is the page at physical 0x1000, its page table at 0x2000,
  the user page at 0x3000.  Its first words are 4, 8, 8 and 0, its stack pointer 0.
\<close>

definition one_page_mem :: mem where
  "one_page_mem = (\<lambda>_. 0)(0x80001000 := 7, 0x80001001 := 0x20, 0x80002000 := 7, 0x80002001 := 0x30,
     0x80003000 := 4, 0x80003004 := 8, 0x80003008 := 8)"

definition one_page :: pipe_st where
  "one_page = (boot_pipe 0)\<lparr>mem := one_page_mem, cr3 := 0x1000, procs := \<lambda>i. (procs (boot_pipe 0) i)\<lparr>psz := 32\<rparr>\<rparr>"

lemma one_page_words:
  "load32 one_page_mem 0x80001000 = 0x2007" "load32 one_page_mem 0x80002000 = 0x3007" "load32 one_page_mem 68 = 0"
  by (simp_all add: one_page_mem_def load32_def)

lemma one_page_translate: "va < 4096 \<Longrightarrow> translate one_page_mem (P2V 0x1000) va = Some (0x3000 + va)"
  by (simp add: translate_def P2V_def KERNBASE_def PDX_def PTX_def one_page_words PTE_P_def PTE_ADDR_def PGSIZE_def)

lemma one_page_state:
  "cpu_at one_page 0" "cproc (cpus one_page 0) = Some 0" "psz (procs one_page 0) = 32"
  "mem one_page = one_page_mem" "cr3 one_page = 0x1000" "tf (procs one_page 0) = 0" "mapped one_page 32"
proof -
  show "cpu_at one_page 0" using boot_pipe_simps(2) [of 0] by (simp add: one_page_def cpu_at_def)
  show "cproc (cpus one_page 0) = Some 0" using boot_pipe_simps(4) [of 0] by (simp add: one_page_def)
  show "psz (procs one_page 0) = 32" "tf (procs one_page 0) = 0"
    by (simp_all add: one_page_def boot_pipe_def fs_st.defs log_st.defs pipe_st.defs boot_log_def boot_bio_def bio_st.defs)
  show m: "mem one_page = one_page_mem" "cr3 one_page = 0x1000" by (simp_all add: one_page_def)
  show "mapped one_page 32" by (simp add: mapped_def m one_page_translate)
qed

lemma one_page_byte:
  assumes "va < 4096"
  shows "ubyte one_page va = one_page_mem (0x80003000 + va)"
  unfolding ubyte_def one_page_state one_page_translate [OF assms]
  using assms by (simp add: P2V_def KERNBASE_def)

lemma one_page_arg: "arg_addr one_page 0 0 = 4" "arg_word one_page 0 0 = 8"
proof -
  show a: "arg_addr one_page 0 0 = 4" by (simp add: arg_addr_def one_page_state TF_ESP_def one_page_words)
  have "[4..<8] = [4, 5, 6, 7::nat]" by (simp add: upt_rec)
  then have "map (ubyte one_page) [4..<8] = [8, 0, 0, 0]"
    by (simp add: one_page_byte one_page_mem_def)
  then show "arg_word one_page 0 0 = 8" by (simp add: arg_word_def a get32_def)
qed

theorem argptr_exact_witness:
  "argptr 0 24 one_page = Ok (Some 8) (noted 0 one_page) \<and> argptr 0 25 one_page = Ok None (noted 0 one_page)"
  using argptr_exact [of one_page 0 0 24 0] argptr_exact [of one_page 0 0 25 0]
  by (simp add: one_page_state one_page_arg KERNBASE_def)

theorem fetchstr_exact_witness: "fetchstr 8 one_page = Ok (Some [8]) (noted 0 one_page)"
proof -
  have b: "ubyte one_page 8 = 8" "ubyte one_page 9 = 0"
    by (simp_all add: one_page_byte one_page_mem_def)
  have "0 \<in> ubyte one_page ` {8..<32}" using b(2) by (auto intro!: image_eqI [of _ _ 9])
  moreover have "[8..<32] = 8 # 9 # [10..<32]" by (simp add: upt_rec [of 8] upt_rec [of 9])
  ultimately show ?thesis
    using fetchstr_exact [of one_page 0 0 8] b by (simp add: one_page_state)
qed

end
