(* ===== verification/Exec.thy ===== *)
theory Exec
  imports Syscall
begin

text \<open>
  Loading programs: \<open>src/lab10xv6/xv6/exec.c\<close> and \<open>loaduvm\<close> of \<open>vm.c\<close>, with the ELF formats of
  \<open>elf.h\<close>; and the life of a process: \<open>userinit\<close>, \<open>fork\<close>, \<open>exit\<close> and \<open>forkret\<close> of \<open>proc.c\<close>.

  The ELF header and the program headers are read from the bytes of the file at the offsets of the
  packed structures.  The strings of \<open>argv\<close> and \<open>path\<close> are byte lists.  A \<open>goto bad\<close> is the result
  \<open>None\<close> of the phase it leaves.
\<close>

section \<open>Formats (elf.h)\<close>

definition ELF_MAGIC :: nat where "ELF_MAGIC = 0x464C457F"
definition ELF_PROG_LOAD :: nat where "ELF_PROG_LOAD = 1"
definition MAXARG :: nat where "MAXARG = 32"

record elfhdr =
  magic :: nat
  entry :: nat
  phoff :: nat
  phnum :: nat

record proghdr =
  ph_type :: nat
  ph_off :: nat
  vaddr :: nat
  filesz :: nat
  memsz :: nat

definition sizeof_elfhdr :: nat where "sizeof_elfhdr = 52"
definition sizeof_proghdr :: nat where "sizeof_proghdr = 32"

definition dec_elf :: "byte list \<Rightarrow> elfhdr" where
  "dec_elf bs = \<lparr>magic = get32 bs 0, entry = get32 bs 24, phoff = get32 bs 28, phnum = get16 bs 44\<rparr>"

definition dec_ph :: "byte list \<Rightarrow> proghdr" where
  "dec_ph bs = \<lparr>ph_type = get32 bs 0, ph_off = get32 bs 4, vaddr = get32 bs 8, filesz = get32 bs 16, memsz = get32 bs 20\<rparr>"

section \<open>Loading a segment\<close>

definition write_bytes :: "nat \<Rightarrow> byte list \<Rightarrow> mem \<Rightarrow> mem" where
  "write_bytes a bs m x = (if a \<le> x \<and> x < a + length bs then bs ! (x - a) else m x)"

function loaduvm_loop ::
  "'z fs_st_scheme devsw \<Rightarrow> nat \<Rightarrow> nat \<Rightarrow> nat \<Rightarrow> nat \<Rightarrow> nat \<Rightarrow> nat \<Rightarrow> ('z fs_st_scheme, int) kern" where
  "loaduvm_loop dv pd addr ip offset sz i s =
     (if i < sz
      then bnd (walkpgdir pd ((addr + i) mod 2 ^ 32) False) (\<lambda>pte.
           if pte = 0 then panic ''loaduvm: address should exist''
           else bnd (getk (\<lambda>s. PTE_ADDR (load32 (mem s) pte))) (\<lambda>pa.
                let n = (if sz - i < PGSIZE then sz - i else PGSIZE) in
                bnd (readi dv ip ((offset + i) mod 2 ^ 32) n) (\<lambda>(r, bs).
                bnd (set_mem (write_bytes (P2V pa) bs)) (\<lambda>_.
                if r \<noteq> int n then ret (- 1)
                else loaduvm_loop dv pd addr ip offset sz (i + PGSIZE))))) s
      else Ok 0 s)"
  by pat_completeness auto
termination
  by (relation "measure (\<lambda>(dv, pd, addr, ip, offset, sz, i, s). sz - i)") (auto simp: PGSIZE_def)

declare loaduvm_loop.simps [simp del]

definition loaduvm ::
  "'z fs_st_scheme devsw \<Rightarrow> nat \<Rightarrow> nat \<Rightarrow> nat \<Rightarrow> nat \<Rightarrow> nat \<Rightarrow> ('z fs_st_scheme, int) kern" where
  "loaduvm dv pd addr ip offset sz =
     (if addr mod PGSIZE \<noteq> 0 then panic ''loaduvm: addr must be page aligned''
      else loaduvm_loop dv pd addr ip offset sz 0)"

section \<open>exec\<close>

text \<open>The loop over the program headers: \<open>n\<close> headers left, the next at \<open>off\<close>.\<close>

fun exec_segments ::
  "'z fs_st_scheme devsw \<Rightarrow> nat \<Rightarrow> nat \<Rightarrow> nat \<Rightarrow> nat \<Rightarrow> nat \<Rightarrow> ('z fs_st_scheme, nat option) kern" where
  "exec_segments dv ip pd 0 off sz s = Ok (Some sz) s"
| "exec_segments dv ip pd (Suc n) off sz s =
     bnd (readi dv ip off sizeof_proghdr) (\<lambda>(r, bs).
     if r \<noteq> int sizeof_proghdr then ret None
     else let ph = dec_ph bs; off' = (off + sizeof_proghdr) mod 2 ^ 32 in
          if ph_type ph \<noteq> ELF_PROG_LOAD then exec_segments dv ip pd n off' sz
          else if memsz ph < filesz ph then ret None
          else if (vaddr ph + memsz ph) mod 2 ^ 32 < vaddr ph then ret None
          else bnd (allocuvm pd sz ((vaddr ph + memsz ph) mod 2 ^ 32)) (\<lambda>sz'.
               if sz' = 0 then ret None
               else if vaddr ph mod PGSIZE \<noteq> 0 then ret None
               else bnd (loaduvm dv pd (vaddr ph) ip (ph_off ph) (filesz ph)) (\<lambda>r.
                    if r < 0 then ret None else exec_segments dv ip pd n off' sz'))) s"

text \<open>Pushing the argument strings: the new stack pointer and the addresses of the strings.\<close>

definition push_sp :: "nat \<Rightarrow> nat \<Rightarrow> nat" where
  "push_sp sp n = (let sp' = (sp + 2 ^ 32 - n) mod 2 ^ 32 in sp' - sp' mod 4)"

fun exec_args ::
  "nat \<Rightarrow> byte list list \<Rightarrow> nat \<Rightarrow> nat \<Rightarrow> nat list \<Rightarrow> ('z kmem_st_scheme, (nat \<times> nat list) option) kern" where
  "exec_args pd [] argc sp us s = Ok (Some (sp, us)) s"
| "exec_args pd (a # as) argc sp us s =
     (if argc \<ge> MAXARG then Ok None s
      else bnd (copyout pd (push_sp sp (length a + 1)) (a @ [0])) (\<lambda>r.
           if r < 0 then ret None
           else exec_args pd as (argc + 1) (push_sp sp (length a + 1)) (us @ [push_sp sp (length a + 1)])) s)"

definition last_elem :: "byte list \<Rightarrow> byte list" where
  "last_elem path = rev (takeWhile (\<lambda>c. c \<noteq> slash) (rev path))"

text \<open>\<open>safestrcpy\<close> into \<open>p->name\<close>, which holds 16 bytes.\<close>

definition set_name :: "byte list \<Rightarrow> proc \<Rightarrow> proc" where
  "set_name t q = q\<lparr>pname := bput (pname q) 0 (take 15 t @ [0])\<rparr>"

definition exec_bad :: "nat \<Rightarrow> nat option \<Rightarrow> ('z fs_st_scheme, int) kern" where
  "exec_bad pd ipo =
     bnd (if pd \<noteq> 0 then freevm pd else ret ()) (\<lambda>_.
     bnd (if ipo \<noteq> None then bnd (iunlockput ipo) (\<lambda>_. end_op) else ret ()) (\<lambda>_.
     ret (- 1)))"

definition exec_image ::
  "nat \<Rightarrow> nat \<Rightarrow> byte list \<Rightarrow> byte list list \<Rightarrow> elfhdr \<Rightarrow> nat \<Rightarrow> ('z cons_st_scheme, int) kern" where
  "exec_image me pd path argv elf sz0 =
     (let sz1 = PGROUNDUP sz0 in
      bnd (allocuvm pd sz1 ((sz1 + 2 * PGSIZE) mod 2 ^ 32)) (\<lambda>sz.
      if sz = 0 then exec_bad pd None
      else bnd (clearpteu pd ((sz + 2 ^ 32 - 2 * PGSIZE) mod 2 ^ 32)) (\<lambda>_.
           bnd (exec_args pd argv 0 sz []) (\<lambda>r.
           case r of
             None \<Rightarrow> exec_bad pd None
           | Some (sp, us) \<Rightarrow>
               let argc = length us;
                   ustack = [0xffffffff, argc, (sp + 2 ^ 32 - (argc + 1) * 4) mod 2 ^ 32] @ us @ [0];
                   sp' = (sp + 2 ^ 32 - (3 + argc + 1) * 4) mod 2 ^ 32
               in bnd (copyout pd sp' (concat (map enc32 ustack))) (\<lambda>r.
                  if r < 0 then exec_bad pd None
                  else bnd (upd_proc me (set_name (last_elem path))) (\<lambda>_.
                       bnd (getk (\<lambda>s. pgdir (procs s me))) (\<lambda>oldpgdir.
                       bnd (upd_proc me (\<lambda>q. q\<lparr>pgdir := pd, psz := sz\<rparr>)) (\<lambda>_.
                       bnd (getk (\<lambda>s. tf (procs s me))) (\<lambda>t.
                       bnd (set_mem (\<lambda>m. store32 m (t + TF_EIP) (of_nat (entry elf)))) (\<lambda>_.
                       bnd (set_mem (\<lambda>m. store32 m (t + TF_ESP) (of_nat sp'))) (\<lambda>_.
                       bnd (switchuvm (Some me)) (\<lambda>_.
                       bnd (freevm oldpgdir) (\<lambda>_.
                       ret 0)))))))))))))"

definition exec ::
  "'z cons_st_scheme devsw \<Rightarrow> byte list \<Rightarrow> byte list list \<Rightarrow> ('z cons_st_scheme, int) kern" where
  "exec dv path argv =
     bnd myproc_nn (\<lambda>me.
     bnd begin_op (\<lambda>_.
     bnd (namei dv path) (\<lambda>ipo.
     case ipo of
       None \<Rightarrow> bnd end_op (\<lambda>_. bnd (cprintf (Some (bstr ''exec: fail'' @ [10])) []) (\<lambda>_. ret (- 1)))
     | Some ip \<Rightarrow>
         bnd (ilock (Some ip)) (\<lambda>_.
         bnd (readi dv ip 0 sizeof_elfhdr) (\<lambda>(r, bs).
         if r \<noteq> int sizeof_elfhdr then exec_bad 0 (Some ip)
         else let elf = dec_elf bs in
         if magic elf \<noteq> ELF_MAGIC then exec_bad 0 (Some ip)
         else bnd setupkvm (\<lambda>pd.
              if pd = 0 then exec_bad 0 (Some ip)
              else bnd (exec_segments dv ip pd (phnum elf) (phoff elf) 0) (\<lambda>r.
                   case r of
                     None \<Rightarrow> exec_bad pd (Some ip)
                   | Some sz \<Rightarrow>
                       bnd (iunlockput (Some ip)) (\<lambda>_.
                       bnd end_op (\<lambda>_.
                       exec_image me pd path argv elf sz)))))))))"

section \<open>The life of a process\<close>

record life_st = cons_st +
  first :: bool

definition SEG_UCODE :: nat where "SEG_UCODE = 3"
definition SEG_UDATA :: nat where "SEG_UDATA = 4"
definition DPL_USER :: nat where "DPL_USER = 3"
definition FL_IF :: nat where "FL_IF = 0x200"

definition store16 :: "mem \<Rightarrow> nat \<Rightarrow> nat \<Rightarrow> mem" where
  "store16 m a v = m(a := of_nat v, a + 1 := of_nat (v div 2 ^ 8))"

definition user_frame :: "nat \<Rightarrow> mem \<Rightarrow> mem" where
  "user_frame t m =
     (let ds = 8 * SEG_UDATA + DPL_USER;
          m = memset m t 0 sizeof_trapframe;
          m = store16 m (t + TF_CS) (8 * SEG_UCODE + DPL_USER);
          m = store16 m (t + TF_DS) ds;
          m = store16 m (t + TF_ES) ds;
          m = store16 m (t + TF_SS) ds;
          m = store32 m (t + TF_EFLAGS) (of_nat FL_IF);
          m = store32 m (t + TF_ESP) (of_nat PGSIZE)
      in store32 m (t + TF_EIP) 0)"

definition runnable :: "nat \<Rightarrow> ('z proc_st_scheme, unit) kern" where
  "runnable p =
     bnd (acquire PtableLock) (\<lambda>_.
     bnd (upd_proc p (\<lambda>q. q\<lparr>pstate := RUNNABLE\<rparr>)) (\<lambda>_.
     release PtableLock))"

text \<open>\<open>initcode\<close> is the linked-in program.  A full process table makes \<open>userinit\<close> follow a null pointer.\<close>

definition userinit :: "'z cons_st_scheme devsw \<Rightarrow> byte list \<Rightarrow> ('z cons_st_scheme, unit) kern" where
  "userinit dv initcode =
     bnd allocproc (\<lambda>po.
     bnd (modk (\<lambda>s. s\<lparr>initproc := po\<rparr>)) (\<lambda>_.
     case po of
       None \<Rightarrow> panic ''fault: no process''
     | Some p \<Rightarrow>
         bnd setupkvm (\<lambda>pd.
         bnd (upd_proc p (\<lambda>q. q\<lparr>pgdir := pd\<rparr>)) (\<lambda>_.
         if pd = 0 then panic ''userinit: out of memory?''
         else bnd (inituvm pd initcode) (\<lambda>_.
              bnd (upd_proc p (\<lambda>q. q\<lparr>psz := PGSIZE\<rparr>)) (\<lambda>_.
              bnd (getk (\<lambda>s. tf (procs s p))) (\<lambda>t.
              bnd (set_mem (user_frame t)) (\<lambda>_.
              bnd (upd_proc p (set_name (bstr ''initcode''))) (\<lambda>_.
              bnd (namei dv [slash]) (\<lambda>ip.
              bnd (upd_proc p (\<lambda>q. q\<lparr>cwd := ip\<rparr>)) (\<lambda>_.
              runnable p)))))))))))"

definition dup_file :: "nat \<Rightarrow> nat \<Rightarrow> nat \<Rightarrow> ('z file_st_scheme, unit) kern" where
  "dup_file me np i =
     bnd (getk (\<lambda>s. ofile (procs s me) i)) (\<lambda>fo.
     case fo of
       None \<Rightarrow> ret ()
     | Some f \<Rightarrow> bnd (filedup f) (\<lambda>f'. upd_proc np (\<lambda>q. q\<lparr>ofile := (ofile q)(i := Some f')\<rparr>)))"

definition fork :: "('z file_st_scheme, int) kern" where
  "fork =
     bnd myproc_nn (\<lambda>me.
     bnd allocproc (\<lambda>npo.
     case npo of
       None \<Rightarrow> ret (- 1)
     | Some np \<Rightarrow>
         bnd (getk (\<lambda>s. procs s me)) (\<lambda>cur.
         bnd (copyuvm (pgdir cur) (psz cur)) (\<lambda>pd.
         bnd (upd_proc np (\<lambda>q. q\<lparr>pgdir := pd\<rparr>)) (\<lambda>_.
         if pd = 0
         then bnd (getk (\<lambda>s. kstack (procs s np))) (\<lambda>ks.
              bnd (kfree ks) (\<lambda>_.
              bnd (upd_proc np (\<lambda>q. q\<lparr>kstack := 0, pstate := UNUSED\<rparr>)) (\<lambda>_.
              ret (- 1))))
         else bnd (upd_proc np (\<lambda>q. q\<lparr>psz := psz cur, parent := Some me\<rparr>)) (\<lambda>_.
              bnd (getk (\<lambda>s. tf (procs s np))) (\<lambda>t.
              bnd (set_mem (\<lambda>m. memmove m t (tf cur) sizeof_trapframe)) (\<lambda>_.
              bnd (set_mem (\<lambda>m. store32 m (t + TF_EAX) 0)) (\<lambda>_.
              bnd (for_each (dup_file me np) [0..<NOFILE]) (\<lambda>_.
              bnd (with_ip (cwd cur) idup) (\<lambda>ip.
              bnd (upd_proc np (\<lambda>q. q\<lparr>cwd := Some ip\<rparr>)) (\<lambda>_.
              bnd (upd_proc np (set_name (takeWhile (\<lambda>b. b \<noteq> 0) (pname cur)))) (\<lambda>_.
              bnd (getk (\<lambda>s. pid (procs s np))) (\<lambda>n.
              bnd (runnable np) (\<lambda>_.
              ret n)))))))))))))))"

definition close_fd :: "nat \<Rightarrow> nat \<Rightarrow> ('z file_st_scheme, unit) kern" where
  "close_fd me fd =
     bnd (getk (\<lambda>s. ofile (procs s me) fd)) (\<lambda>fo.
     case fo of
       None \<Rightarrow> ret ()
     | Some f \<Rightarrow> bnd (fileclose f) (\<lambda>_. upd_proc me (\<lambda>q. q\<lparr>ofile := (ofile q)(fd := None)\<rparr>)))"

definition adopt :: "nat \<Rightarrow> nat \<Rightarrow> ('z proc_st_scheme, unit) kern" where
  "adopt me i =
     bnd (getk (\<lambda>s. procs s i)) (\<lambda>p.
     if parent p = Some me
     then bnd (getk initproc) (\<lambda>ini.
          bnd (upd_proc i (\<lambda>q. q\<lparr>parent := ini\<rparr>)) (\<lambda>_.
          if pstate p = ZOMBIE then (case ini of None \<Rightarrow> ret () | Some j \<Rightarrow> wakeup1 (ProcChan j)) else ret ()))
     else ret ())"

text \<open>\<open>exit\<close>: \<open>sw\<close> is the final switch, which does not come back.\<close>

definition exit :: "('z file_st_scheme, unit) kern \<Rightarrow> ('z file_st_scheme, unit) kern" where
  "exit sw =
     bnd myproc_nn (\<lambda>me.
     bnd (getk initproc) (\<lambda>ini.
     if ini = Some me then panic ''init exiting''
     else bnd (for_each (close_fd me) [0..<NOFILE]) (\<lambda>_.
          bnd begin_op (\<lambda>_.
          bnd (getk (\<lambda>s. cwd (procs s me))) (\<lambda>c.
          bnd (with_ip c iput) (\<lambda>_.
          bnd end_op (\<lambda>_.
          bnd (upd_proc me (\<lambda>q. q\<lparr>cwd := None\<rparr>)) (\<lambda>_.
          bnd (acquire PtableLock) (\<lambda>_.
          bnd (getk (\<lambda>s. parent (procs s me))) (\<lambda>par.
          bnd (case par of None \<Rightarrow> ret () | Some j \<Rightarrow> wakeup1 (ProcChan j)) (\<lambda>_.
          bnd (for_each (adopt me) [0..<NPROC]) (\<lambda>_.
          bnd (upd_proc me (\<lambda>q. q\<lparr>pstate := ZOMBIE\<rparr>)) (\<lambda>_.
          bnd (sched sw) (\<lambda>_.
          panic ''zombie exit''))))))))))))))"

definition forkret :: "('z life_st_scheme, unit) kern" where
  "forkret =
     bnd (release PtableLock) (\<lambda>_.
     bnd (getk first) (\<lambda>fst_time.
     if fst_time
     then bnd (modk (\<lambda>s. s\<lparr>first := False\<rparr>)) (\<lambda>_.
          bnd (iinit ROOTDEV) (\<lambda>_. initlog ROOTDEV))
     else ret ()))"

end
