(* ===== verification/Sysfile.thy ===== *)
theory Sysfile
  imports Exec
begin

text \<open>
  The file-system calls, \<open>src/lab10xv6/xv6/sysfile.c\<close>.

  Every routine takes the device table \<open>dv\<close>, and the environments \<open>sws\<close> where a pipe may make it
  wait.  Paths fetched from user memory are byte lists; the buffer \<open>name\<close> starts out as zeros.
  Data moves between user memory and the kernel through \<open>uload\<close> and \<open>ustore\<close>.
\<close>

definition O_RDONLY :: nat where "O_RDONLY = 0x000"
definition O_WRONLY :: nat where "O_WRONLY = 0x001"
definition O_RDWR :: nat where "O_RDWR = 0x002"
definition O_CREATE :: nat where "O_CREATE = 0x200"

definition name_buf :: "byte list" where "name_buf = replicate DIRSIZ 0"
definition dot :: "byte list" where "dot = [46]"
definition dotdot :: "byte list" where "dotdot = [46, 46]"

section \<open>Descriptors\<close>

definition argfd :: "nat \<Rightarrow> ('z file_st_scheme, (nat \<times> nat) option) kern" where
  "argfd n =
     bnd (argint n) (\<lambda>r.
     case r of
       None \<Rightarrow> ret None
     | Some fd \<Rightarrow>
         if fd < 0 \<or> fd \<ge> int NOFILE then ret None
         else bnd my_proc (\<lambda>pr.
              case ofile pr (nat fd) of None \<Rightarrow> ret None | Some f \<Rightarrow> ret (Some (nat fd, f))))"

definition fdalloc :: "nat \<Rightarrow> ('z file_st_scheme, int) kern" where
  "fdalloc f =
     bnd myproc_nn (\<lambda>me.
     bnd (getk (\<lambda>s. find (\<lambda>fd. ofile (procs s me) fd = None) [0..<NOFILE])) (\<lambda>r.
     case r of
       None \<Rightarrow> ret (- 1)
     | Some fd \<Rightarrow> bnd (upd_proc me (\<lambda>q. q\<lparr>ofile := (ofile q)(fd := Some f)\<rparr>)) (\<lambda>_. ret (int fd))))"

definition clear_fd :: "nat \<Rightarrow> ('z file_st_scheme, unit) kern" where
  "clear_fd fd = bnd myproc_nn (\<lambda>me. upd_proc me (\<lambda>q. q\<lparr>ofile := (ofile q)(fd := None)\<rparr>))"

definition sys_dup :: "('z file_st_scheme, int) kern" where
  "sys_dup =
     bnd (argfd 0) (\<lambda>r.
     case r of
       None \<Rightarrow> ret (- 1)
     | Some (_, f) \<Rightarrow>
         bnd (fdalloc f) (\<lambda>fd.
         if fd < 0 then ret (- 1) else bnd (filedup f) (\<lambda>_. ret fd)))"

text \<open>The common prefix of \<open>sys_read\<close> and \<open>sys_write\<close>: the file, the buffer and the count.\<close>

definition arg_io :: "('z file_st_scheme, (nat \<times> nat \<times> int) option) kern" where
  "arg_io =
     bnd (argfd 0) (\<lambda>r.
     case r of
       None \<Rightarrow> ret None
     | Some (_, f) \<Rightarrow>
         bnd (argint 2) (\<lambda>r.
         case r of
           None \<Rightarrow> ret None
         | Some n \<Rightarrow>
             bnd (argptr 1 n) (\<lambda>r.
             case r of None \<Rightarrow> ret None | Some p \<Rightarrow> ret (Some (f, p, n)))))"

definition sys_read :: "'z file_st_scheme envs \<Rightarrow> 'z file_st_scheme devsw \<Rightarrow> ('z file_st_scheme, int) kern" where
  "sys_read sws dv =
     bnd arg_io (\<lambda>r.
     case r of
       None \<Rightarrow> ret (- 1)
     | Some (f, p, n) \<Rightarrow>
         bnd (fileread sws dv f n) (\<lambda>(k, bs).
         bnd (ustore p bs) (\<lambda>_. ret k)))"

definition sys_write :: "'z file_st_scheme envs \<Rightarrow> 'z file_st_scheme devsw \<Rightarrow> ('z file_st_scheme, int) kern" where
  "sys_write sws dv =
     bnd arg_io (\<lambda>r.
     case r of
       None \<Rightarrow> ret (- 1)
     | Some (f, p, n) \<Rightarrow>
         bnd (uload p (nat n)) (\<lambda>bs. filewrite sws dv f bs n))"

definition sys_close :: "('z file_st_scheme, int) kern" where
  "sys_close =
     bnd (argfd 0) (\<lambda>r.
     case r of
       None \<Rightarrow> ret (- 1)
     | Some (fd, f) \<Rightarrow>
         bnd (clear_fd fd) (\<lambda>_.
         bnd (fileclose f) (\<lambda>_. ret 0)))"

definition sizeof_stat :: nat where "sizeof_stat = 20"

text \<open>The fields of \<open>struct stat\<close> at their offsets, padding left alone.\<close>

definition ustore_stat :: "nat \<Rightarrow> stat \<Rightarrow> ('z vm_st_scheme, unit) kern" where
  "ustore_stat p st =
     bnd (ustore (p + 4) (enc32 (st_dev st))) (\<lambda>_.
     bnd (ustore (p + 8) (enc32 (st_ino st))) (\<lambda>_.
     bnd (ustore p (enc16 (u16 (st_type st)))) (\<lambda>_.
     bnd (ustore (p + 12) (enc16 (u16 (st_nlink st)))) (\<lambda>_.
     ustore (p + 16) (enc32 (st_size st))))))"

definition sys_fstat :: "('z file_st_scheme, int) kern" where
  "sys_fstat =
     bnd (argfd 0) (\<lambda>r.
     case r of
       None \<Rightarrow> ret (- 1)
     | Some (_, f) \<Rightarrow>
         bnd (argptr 1 (int sizeof_stat)) (\<lambda>r.
         case r of
           None \<Rightarrow> ret (- 1)
         | Some p \<Rightarrow>
             bnd (filestat f) (\<lambda>(k, sto).
             bnd (case sto of None \<Rightarrow> ret () | Some st \<Rightarrow> ustore_stat p st) (\<lambda>_. ret k))))"

section \<open>Links\<close>

definition end_with :: "int \<Rightarrow> ('z log_st_scheme, int) kern" where
  "end_with r = bnd end_op (\<lambda>_. ret r)"

definition add_nlink :: "nat \<Rightarrow> int \<Rightarrow> ('z fs_st_scheme, unit) kern" where
  "add_nlink ip k = bnd (upd_ip ip (\<lambda>x. x\<lparr>i_nlink := s16 (u16 (i_nlink x + k))\<rparr>)) (\<lambda>_. iupdate ip)"

definition link_bad :: "nat \<Rightarrow> ('z fs_st_scheme, int) kern" where
  "link_bad ip =
     bnd (ilock (Some ip)) (\<lambda>_.
     bnd (add_nlink ip (- 1)) (\<lambda>_.
     bnd (iunlockput (Some ip)) (\<lambda>_.
     end_with (- 1))))"

definition sys_link :: "'z fs_st_scheme devsw \<Rightarrow> ('z fs_st_scheme, int) kern" where
  "sys_link dv =
     bnd (argstr 0) (\<lambda>ro.
     case ro of None \<Rightarrow> ret (- 1) | Some old \<Rightarrow>
     bnd (argstr 1) (\<lambda>rn.
     case rn of None \<Rightarrow> ret (- 1) | Some new \<Rightarrow>
     bnd begin_op (\<lambda>_.
     bnd (namei dv old) (\<lambda>ipo.
     case ipo of
       None \<Rightarrow> end_with (- 1)
     | Some ip \<Rightarrow>
         bnd (ilock (Some ip)) (\<lambda>_.
         bnd (ip_at ip) (\<lambda>x.
         if i_type x = T_DIR then bnd (iunlockput (Some ip)) (\<lambda>_. end_with (- 1))
         else bnd (add_nlink ip 1) (\<lambda>_.
              bnd (iunlock (Some ip)) (\<lambda>_.
              bnd (nameiparent dv new name_buf) (\<lambda>(dpo, name).
              case dpo of
                None \<Rightarrow> link_bad ip
              | Some dp \<Rightarrow>
                  bnd (ilock (Some dp)) (\<lambda>_.
                  bnd (ip_at dp) (\<lambda>d.
                  bnd (ip_at ip) (\<lambda>x.
                  bnd (if i_dev d \<noteq> i_dev x then ret (- 1) else dirlink dv dp name (i_inum x)) (\<lambda>r.
                  if r < 0 then bnd (iunlockput (Some dp)) (\<lambda>_. link_bad ip)
                  else bnd (iunlockput (Some dp)) (\<lambda>_.
                       bnd (iput ip) (\<lambda>_.
                       end_with 0)))))))))))))))"

function isdirempty_loop :: "'z fs_st_scheme devsw \<Rightarrow> nat \<Rightarrow> nat \<Rightarrow> nat \<Rightarrow> ('z fs_st_scheme, bool) kern" where
  "isdirempty_loop dv dp dsz off s =
     (if off < dsz
      then bnd (readi dv dp off sizeof_dirent) (\<lambda>(r, de).
           if r \<noteq> int sizeof_dirent then panic ''isdirempty: readi''
           else if de_inum de \<noteq> 0 then ret False
           else isdirempty_loop dv dp dsz (off + sizeof_dirent)) s
      else Ok True s)"
  by pat_completeness auto
termination
  by (relation "measure (\<lambda>(dv, dp, dsz, off, s). dsz - off)") (auto simp: sizeof_dirent_def)

declare isdirempty_loop.simps [simp del]

definition isdirempty :: "'z fs_st_scheme devsw \<Rightarrow> nat \<Rightarrow> ('z fs_st_scheme, bool) kern" where
  "isdirempty dv dp = bnd (ip_at dp) (\<lambda>x. isdirempty_loop dv dp (i_size x) (2 * sizeof_dirent))"

definition unlink_bad :: "nat \<Rightarrow> ('z fs_st_scheme, int) kern" where
  "unlink_bad dp = bnd (iunlockput (Some dp)) (\<lambda>_. end_with (- 1))"

definition sys_unlink :: "'z fs_st_scheme devsw \<Rightarrow> ('z fs_st_scheme, int) kern" where
  "sys_unlink dv =
     bnd (argstr 0) (\<lambda>ro.
     case ro of None \<Rightarrow> ret (- 1) | Some path \<Rightarrow>
     bnd begin_op (\<lambda>_.
     bnd (nameiparent dv path name_buf) (\<lambda>(dpo, name).
     case dpo of
       None \<Rightarrow> end_with (- 1)
     | Some dp \<Rightarrow>
         bnd (ilock (Some dp)) (\<lambda>_.
         if namecmp name dot = 0 \<or> namecmp name dotdot = 0 then unlink_bad dp
         else bnd (dirlookup dv dp name) (\<lambda>r.
              case r of
                None \<Rightarrow> unlink_bad dp
              | Some (ip, off) \<Rightarrow>
                  bnd (ilock (Some ip)) (\<lambda>_.
                  bnd (ip_at ip) (\<lambda>x.
                  if i_nlink x < 1 then panic ''unlink: nlink < 1''
                  else bnd (if i_type x = T_DIR then isdirempty dv ip else ret True) (\<lambda>ok.
                       if \<not> ok then bnd (iunlockput (Some ip)) (\<lambda>_. unlink_bad dp)
                       else bnd (writei dv dp off (replicate sizeof_dirent 0)) (\<lambda>n.
                            if n \<noteq> int sizeof_dirent then panic ''unlink: writei''
                            else bnd (if i_type x = T_DIR then add_nlink dp (- 1) else ret ()) (\<lambda>_.
                                 bnd (iunlockput (Some dp)) (\<lambda>_.
                                 bnd (add_nlink ip (- 1)) (\<lambda>_.
                                 bnd (iunlockput (Some ip)) (\<lambda>_.
                                 end_with 0)))))))))))))"

section \<open>Creating and opening\<close>

definition create_dots :: "'z fs_st_scheme devsw \<Rightarrow> nat \<Rightarrow> nat \<Rightarrow> ('z fs_st_scheme, unit) kern" where
  "create_dots dv dp ip =
     bnd (add_nlink dp 1) (\<lambda>_.
     bnd (ip_at ip) (\<lambda>x.
     bnd (dirlink dv ip dot (i_inum x)) (\<lambda>r1.
     if r1 < 0 then panic ''create dots''
     else bnd (ip_at dp) (\<lambda>d.
          bnd (dirlink dv ip dotdot (i_inum d)) (\<lambda>r2.
          if r2 < 0 then panic ''create dots'' else ret ())))))"

definition create ::
  "'z fs_st_scheme devsw \<Rightarrow> byte list \<Rightarrow> int \<Rightarrow> int \<Rightarrow> int \<Rightarrow> ('z fs_st_scheme, nat option) kern" where
  "create dv path ty maj mnr =
     bnd (nameiparent dv path name_buf) (\<lambda>(dpo, name).
     case dpo of
       None \<Rightarrow> ret None
     | Some dp \<Rightarrow>
         bnd (ilock (Some dp)) (\<lambda>_.
         bnd (dirlookup dv dp name) (\<lambda>r.
         case r of
           Some (ip, _) \<Rightarrow>
             bnd (iunlockput (Some dp)) (\<lambda>_.
             bnd (ilock (Some ip)) (\<lambda>_.
             bnd (ip_at ip) (\<lambda>x.
             if ty = T_FILE \<and> i_type x = T_FILE then ret (Some ip)
             else bnd (iunlockput (Some ip)) (\<lambda>_. ret None))))
         | None \<Rightarrow>
             bnd (ip_at dp) (\<lambda>d.
             bnd (ialloc (i_dev d) ty) (\<lambda>ip.
             bnd (ilock (Some ip)) (\<lambda>_.
             bnd (upd_ip ip (\<lambda>y. y\<lparr>i_major := maj, i_minor := mnr, i_nlink := 1\<rparr>)) (\<lambda>_.
             bnd (iupdate ip) (\<lambda>_.
             bnd (if ty = T_DIR then create_dots dv dp ip else ret ()) (\<lambda>_.
             bnd (ip_at ip) (\<lambda>x.
             bnd (dirlink dv dp name (i_inum x)) (\<lambda>r.
             if r < 0 then panic ''create: dirlink''
             else bnd (iunlockput (Some dp)) (\<lambda>_. ret (Some ip)))))))))))))"

definition flag :: "int \<Rightarrow> nat \<Rightarrow> bool" where
  "flag omode f \<longleftrightarrow> (word_of_int omode :: uint32) AND of_nat f \<noteq> 0"

text \<open>The inode \<open>sys_open\<close> works on, locked; on failure the transaction has been ended.\<close>

definition open_inode :: "'z fs_st_scheme devsw \<Rightarrow> byte list \<Rightarrow> int \<Rightarrow> ('z fs_st_scheme, nat option) kern" where
  "open_inode dv path omode =
     (if flag omode O_CREATE
      then bnd (create dv path T_FILE 0 0) (\<lambda>ipo.
           case ipo of None \<Rightarrow> bnd end_op (\<lambda>_. ret None) | Some ip \<Rightarrow> ret (Some ip))
      else bnd (namei dv path) (\<lambda>ipo.
           case ipo of
             None \<Rightarrow> bnd end_op (\<lambda>_. ret None)
           | Some ip \<Rightarrow>
               bnd (ilock (Some ip)) (\<lambda>_.
               bnd (ip_at ip) (\<lambda>x.
               if i_type x = T_DIR \<and> omode \<noteq> int O_RDONLY
               then bnd (iunlockput (Some ip)) (\<lambda>_. bnd end_op (\<lambda>_. ret None))
               else ret (Some ip)))))"

definition sys_open :: "'z file_st_scheme devsw \<Rightarrow> ('z file_st_scheme, int) kern" where
  "sys_open dv =
     bnd (argstr 0) (\<lambda>rp.
     case rp of None \<Rightarrow> ret (- 1) | Some path \<Rightarrow>
     bnd (argint 1) (\<lambda>ro.
     case ro of None \<Rightarrow> ret (- 1) | Some omode \<Rightarrow>
     bnd begin_op (\<lambda>_.
     bnd (open_inode dv path omode) (\<lambda>ipo.
     case ipo of
       None \<Rightarrow> ret (- 1)
     | Some ip \<Rightarrow>
         bnd filealloc (\<lambda>fo.
         case fo of
           None \<Rightarrow> bnd (iunlockput (Some ip)) (\<lambda>_. end_with (- 1))
         | Some f \<Rightarrow>
             bnd (fdalloc f) (\<lambda>fd.
             if fd < 0
             then bnd (fileclose f) (\<lambda>_. bnd (iunlockput (Some ip)) (\<lambda>_. end_with (- 1)))
             else bnd (iunlock (Some ip)) (\<lambda>_.
                  bnd end_op (\<lambda>_.
                  bnd (upd_file f (\<lambda>x. x\<lparr>f_type := FD_INODE, f_ip := Some ip, f_off := 0,
                         readable := \<not> flag omode O_WRONLY,
                         writable := (flag omode O_WRONLY \<or> flag omode O_RDWR)\<rparr>)) (\<lambda>_.
                  ret fd)))))))))"

definition sys_mkdir :: "'z fs_st_scheme devsw \<Rightarrow> ('z fs_st_scheme, int) kern" where
  "sys_mkdir dv =
     bnd begin_op (\<lambda>_.
     bnd (argstr 0) (\<lambda>rp.
     case rp of
       None \<Rightarrow> end_with (- 1)
     | Some path \<Rightarrow>
         bnd (create dv path T_DIR 0 0) (\<lambda>ipo.
         if ipo = None then end_with (- 1)
         else bnd (iunlockput ipo) (\<lambda>_. end_with 0))))"

definition sys_mknod :: "'z fs_st_scheme devsw \<Rightarrow> ('z fs_st_scheme, int) kern" where
  "sys_mknod dv =
     bnd begin_op (\<lambda>_.
     bnd (argstr 0) (\<lambda>rp.
     case rp of None \<Rightarrow> end_with (- 1) | Some path \<Rightarrow>
     bnd (argint 1) (\<lambda>r1.
     case r1 of None \<Rightarrow> end_with (- 1) | Some maj \<Rightarrow>
     bnd (argint 2) (\<lambda>r2.
     case r2 of None \<Rightarrow> end_with (- 1) | Some mnr \<Rightarrow>
     bnd (create dv path T_DEV (s16 (u16 maj)) (s16 (u16 mnr))) (\<lambda>ipo.
     if ipo = None then end_with (- 1)
     else bnd (iunlockput ipo) (\<lambda>_. end_with 0))))))"

definition sys_chdir :: "'z fs_st_scheme devsw \<Rightarrow> ('z fs_st_scheme, int) kern" where
  "sys_chdir dv =
     bnd myproc_nn (\<lambda>me.
     bnd begin_op (\<lambda>_.
     bnd (argstr 0) (\<lambda>rp.
     case rp of None \<Rightarrow> end_with (- 1) | Some path \<Rightarrow>
     bnd (namei dv path) (\<lambda>ipo.
     case ipo of
       None \<Rightarrow> end_with (- 1)
     | Some ip \<Rightarrow>
         bnd (ilock (Some ip)) (\<lambda>_.
         bnd (ip_at ip) (\<lambda>x.
         if i_type x \<noteq> T_DIR then bnd (iunlockput (Some ip)) (\<lambda>_. end_with (- 1))
         else bnd (iunlock (Some ip)) (\<lambda>_.
              bnd (getk (\<lambda>s. cwd (procs s me))) (\<lambda>c.
              bnd (with_ip c iput) (\<lambda>_.
              bnd end_op (\<lambda>_.
              bnd (upd_proc me (\<lambda>q. q\<lparr>cwd := Some ip\<rparr>)) (\<lambda>_.
              ret 0)))))))))))"

section \<open>exec and pipe\<close>

text \<open>The argument vector: \<open>n\<close> slots of \<open>argv\<close> left, the next pointer at \<open>uargv + 4 * i\<close>.\<close>

fun exec_argv :: "nat \<Rightarrow> nat \<Rightarrow> nat \<Rightarrow> ('z proc_st_scheme, byte list list option) kern" where
  "exec_argv 0 uargv i s = Ok None s"
| "exec_argv (Suc n) uargv i s =
     bnd (fetchint ((uargv + 4 * i) mod 2 ^ 32)) (\<lambda>r.
     case r of
       None \<Rightarrow> ret None
     | Some uarg \<Rightarrow>
         if uarg = 0 then ret (Some [])
         else bnd (fetchstr (u32 uarg)) (\<lambda>r.
              case r of
                None \<Rightarrow> ret None
              | Some a \<Rightarrow> bnd (exec_argv n uargv (i + 1)) (\<lambda>r. ret (map_option (\<lambda>as. a # as) r)))) s"

definition sys_exec :: "'z cons_st_scheme devsw \<Rightarrow> ('z cons_st_scheme, int) kern" where
  "sys_exec dv =
     bnd (argstr 0) (\<lambda>rp.
     case rp of None \<Rightarrow> ret (- 1) | Some path \<Rightarrow>
     bnd (argint 1) (\<lambda>ru.
     case ru of None \<Rightarrow> ret (- 1) | Some uargv \<Rightarrow>
     bnd (exec_argv MAXARG (u32 uargv) 0) (\<lambda>ra.
     case ra of None \<Rightarrow> ret (- 1) | Some argv \<Rightarrow> exec dv path argv)))"

definition sys_pipe :: "('z file_st_scheme, int) kern" where
  "sys_pipe =
     bnd (argptr 0 8) (\<lambda>rp.
     case rp of None \<Rightarrow> ret (- 1) | Some fd \<Rightarrow>
     bnd pipealloc (\<lambda>r.
     case r of None \<Rightarrow> ret (- 1) | Some (rfl, wfl) \<Rightarrow>
     bnd (fdalloc rfl) (\<lambda>fd0.
     if fd0 < 0
     then bnd (fileclose rfl) (\<lambda>_. bnd (fileclose wfl) (\<lambda>_. ret (- 1)))
     else bnd (fdalloc wfl) (\<lambda>fd1.
          if fd1 < 0
          then bnd (clear_fd (nat fd0)) (\<lambda>_. bnd (fileclose rfl) (\<lambda>_. bnd (fileclose wfl) (\<lambda>_. ret (- 1))))
          else bnd (ustore fd (enc32 (nat fd0))) (\<lambda>_.
               bnd (ustore (fd + 4) (enc32 (nat fd1))) (\<lambda>_.
               ret 0))))))"

end
