(* ===== verification/Trap.thy ===== *)
theory Trap
  imports Sysfile
begin

text \<open>
  The process calls of \<open>src/lab10xv6/xv6/sysproc.c\<close>, the dispatcher \<open>syscall\<close> of \<open>syscall.c\<close> and the
  trap handler of \<open>trap.c\<close>: the whole kernel as user programs and devices enter it.

  \<open>kio\<close> collects what the environment contributes to one entry: the environments of the
  routines that sleep (\<open>sws\<close>), the switches of \<open>yield\<close> and of \<open>exit\<close>, and the bytes waiting at the
  keyboard and the serial port.  Interrupt acknowledgement (\<open>lapiceoi\<close>) has no effect on the state;
  \<open>ideintr\<close> of the memory disk does nothing.
\<close>

section \<open>State\<close>

record kern_st = life_st +
  ticks :: uint32
  kbd_shift :: nat

record 's kio =
  sws :: "('s, unit) kern list"
  yield_sw :: "('s, unit) kern"
  exit_sw :: "('s, unit) kern"
  kbd_bytes :: "byte list"
  uart_bytes :: "byte list"
  cr2 :: uint32

section \<open>Process calls\<close>

definition sys_fork :: "('z file_st_scheme, int) kern" where
  "sys_fork = fork"

definition sys_exit :: "('z file_st_scheme, unit) kern \<Rightarrow> ('z file_st_scheme, int) kern" where
  "sys_exit sw = bnd (exit sw) (\<lambda>_. ret 0)"

definition sys_wait :: "('z proc_st_scheme, unit) kern list \<Rightarrow> ('z proc_st_scheme, int) kern" where
  "sys_wait envs = wait envs"

definition sys_kill :: "('z proc_st_scheme, int) kern" where
  "sys_kill = bnd (argint 0) (\<lambda>r. case r of None \<Rightarrow> ret (- 1) | Some n \<Rightarrow> kill n)"

definition sys_getpid :: "('z proc_st_scheme, int) kern" where
  "sys_getpid = bnd my_proc (\<lambda>p. ret (pid p))"

definition sys_sbrk :: "('z proc_st_scheme, int) kern" where
  "sys_sbrk =
     bnd (argint 0) (\<lambda>r.
     case r of
       None \<Rightarrow> ret (- 1)
     | Some n \<Rightarrow>
         bnd my_proc (\<lambda>p.
         bnd (growproc n) (\<lambda>k.
         if k < 0 then ret (- 1) else ret (s32 (psz p)))))"

text \<open>
  \<open>while(ticks - ticks0 < n)\<close>: the difference is \<open>uint\<close>, so \<open>n\<close> is converted and a negative \<open>n\<close> is a
  huge one.
\<close>

fun sys_sleep_loop ::
  "('z kern_st_scheme, unit) kern list \<Rightarrow> uint32 \<Rightarrow> int \<Rightarrow> ('z kern_st_scheme, int) kern" where
  "sys_sleep_loop envs ticks0 n s =
     bnd (getk ticks) (\<lambda>t.
     if unat (t - ticks0) < u32 n
     then bnd my_killed (\<lambda>k.
          if k then bnd (release TicksLock) (\<lambda>_. ret (- 1))
          else case envs of
                 [] \<Rightarrow> (\<lambda>_. Block ''sys_sleep'')
               | sw # envs' \<Rightarrow>
                   bnd (sleep sw TicksChan (Some TicksLock)) (\<lambda>_. sys_sleep_loop envs' ticks0 n))
     else bnd (release TicksLock) (\<lambda>_. ret 0)) s"

declare sys_sleep_loop.simps [simp del]

definition sys_sleep :: "('z kern_st_scheme, unit) kern list \<Rightarrow> ('z kern_st_scheme, int) kern" where
  "sys_sleep envs =
     bnd (argint 0) (\<lambda>r.
     case r of
       None \<Rightarrow> ret (- 1)
     | Some n \<Rightarrow>
         bnd (acquire TicksLock) (\<lambda>_.
         bnd (getk ticks) (\<lambda>ticks0.
         sys_sleep_loop envs ticks0 n)))"

definition sys_uptime :: "('z kern_st_scheme, int) kern" where
  "sys_uptime =
     bnd (acquire TicksLock) (\<lambda>_.
     bnd (getk ticks) (\<lambda>xticks.
     bnd (release TicksLock) (\<lambda>_. ret (sint xticks))))"

section \<open>Dispatch\<close>

definition syscalls ::
  "'z kern_st_scheme kio \<Rightarrow> int \<Rightarrow> ('z kern_st_scheme, int) kern option" where
  "syscalls io num =
     (let dv = devsw_table (sws io) in
      map_of [(1, sys_fork), (2, sys_exit (exit_sw io)), (3, sys_wait (sws io)), (4, sys_pipe),
        (5, sys_read (sws io) dv), (6, sys_kill), (7, sys_exec dv), (8, sys_fstat), (9, sys_chdir dv),
        (10, sys_dup), (11, sys_getpid), (12, sys_sbrk), (13, sys_sleep (sws io)), (14, sys_uptime),
        (15, sys_open dv), (16, sys_write (sws io) dv), (17, sys_mknod dv), (18, sys_unlink dv),
        (19, sys_link dv), (20, sys_mkdir dv), (21, sys_close)] num)"

definition syscall :: "'z kern_st_scheme kio \<Rightarrow> ('z kern_st_scheme, unit) kern" where
  "syscall io =
     bnd myproc_nn (\<lambda>me.
     bnd (getk (\<lambda>s. procs s me)) (\<lambda>pr.
     bnd (getk (\<lambda>s. sint (load32 (mem s) (tf pr + TF_EAX)))) (\<lambda>num.
     case (if num > 0 \<and> num < 22 then syscalls io num else None) of
       Some call \<Rightarrow>
         bnd call (\<lambda>r.
         bnd (getk (\<lambda>s. tf (procs s me))) (\<lambda>t.
         set_mem (\<lambda>m. store32 m (t + TF_EAX) (word_of_int r))))
     | None \<Rightarrow>
         bnd (cprintf (Some (bstr ''%d %s: unknown sys call %d'' @ [10]))
                [AInt (word_of_int (pid pr)), AStr (Some (takeWhile (\<lambda>b. b \<noteq> 0) (pname pr))),
                 AInt (word_of_int num)]) (\<lambda>_.
         set_mem (\<lambda>m. store32 m (tf pr + TF_EAX) (- 1))))))"

section \<open>Traps\<close>

definition T_SYSCALL :: nat where "T_SYSCALL = 64"
definition T_IRQ0 :: nat where "T_IRQ0 = 32"
definition IRQ_TIMER :: nat where "IRQ_TIMER = 0"
definition IRQ_KBD :: nat where "IRQ_KBD = 1"
definition IRQ_COM1 :: nat where "IRQ_COM1 = 4"
definition IRQ_IDE :: nat where "IRQ_IDE = 14"
definition IRQ_SPURIOUS :: nat where "IRQ_SPURIOUS = 31"

definition tf_word :: "nat \<Rightarrow> nat \<Rightarrow> ('z kmem_st_scheme, uint32) kern" where
  "tf_word t off = getk (\<lambda>s. load32 (mem s) (t + off))"

definition exit_if_killed :: "'z kern_st_scheme kio \<Rightarrow> ('z kern_st_scheme, unit) kern" where
  "exit_if_killed io = bnd my_killed (\<lambda>k. if k then exit (exit_sw io) else ret ())"

definition timer_tick :: "('z kern_st_scheme, unit) kern" where
  "timer_tick =
     bnd cpuid (\<lambda>c.
     if c = 0
     then bnd (acquire TicksLock) (\<lambda>_.
          bnd (modk (\<lambda>s. s\<lparr>ticks := ticks s + 1\<rparr>)) (\<lambda>_.
          bnd (wakeup TicksChan) (\<lambda>_.
          release TicksLock)))
     else ret ())"

definition kbd_interrupt :: "'z kern_st_scheme kio \<Rightarrow> ('z kern_st_scheme, unit) kern" where
  "kbd_interrupt io =
     bnd (getk kbd_shift) (\<lambda>sh.
     bnd (kbdintr (kbd_bytes io) sh) (\<lambda>sh'.
     modk (\<lambda>s. s\<lparr>kbd_shift := sh'\<rparr>)))"

definition user_mode :: "uint32 \<Rightarrow> bool" where
  "user_mode seg \<longleftrightarrow> seg AND 3 = of_nat DPL_USER"

definition bad_trap :: "'z kern_st_scheme kio \<Rightarrow> nat \<Rightarrow> ('z kern_st_scheme, unit) kern" where
  "bad_trap io t =
     bnd (tf_word t TF_TRAPNO) (\<lambda>tno.
     bnd (tf_word t TF_CS) (\<lambda>seg.
     bnd (tf_word t TF_EIP) (\<lambda>eip.
     bnd (tf_word t TF_ERR) (\<lambda>err.
     bnd myproc (\<lambda>po.
     if po = None \<or> seg AND 3 = 0
     then bnd cpuid (\<lambda>c.
          bnd (cprintf (Some (bstr ''unexpected trap %d from cpu %d eip %x (cr2=0x%x)'' @ [10]))
                 [AInt tno, AInt (of_nat c), AInt eip, AInt (cr2 io)]) (\<lambda>_.
          panic ''trap''))
     else bnd my_proc (\<lambda>pr.
          bnd cpuid (\<lambda>c.
          bnd (cprintf (Some (bstr ''pid %d %s: trap %d err %d on cpu %d eip 0x%x addr 0x%x--kill proc'' @ [10]))
                 [AInt (word_of_int (pid pr)), AStr (Some (takeWhile (\<lambda>b. b \<noteq> 0) (pname pr))), AInt tno, AInt err,
                  AInt (of_nat c), AInt eip, AInt (cr2 io)]) (\<lambda>_.
          bnd myproc_nn (\<lambda>me.
          upd_proc me (\<lambda>q. q\<lparr>killed := True\<rparr>))))))))))"

definition die_in_user :: "'z kern_st_scheme kio \<Rightarrow> uint32 \<Rightarrow> ('z kern_st_scheme, unit) kern" where
  "die_in_user io seg =
     bnd myproc (\<lambda>po.
     case po of
       None \<Rightarrow> ret ()
     | Some p \<Rightarrow> bnd (getk (\<lambda>s. killed (procs s p))) (\<lambda>k. if k \<and> user_mode seg then exit (exit_sw io) else ret ()))"

definition trap :: "'z kern_st_scheme kio \<Rightarrow> nat \<Rightarrow> ('z kern_st_scheme, unit) kern" where
  "trap io t =
     bnd (tf_word t TF_TRAPNO) (\<lambda>tw.
     bnd (tf_word t TF_CS) (\<lambda>seg.
     let tno = unat tw in
     if tno = T_SYSCALL
     then bnd (exit_if_killed io) (\<lambda>_.
          bnd myproc_nn (\<lambda>me.
          bnd (upd_proc me (\<lambda>q. q\<lparr>tf := t\<rparr>)) (\<lambda>_.
          bnd (syscall io) (\<lambda>_.
          exit_if_killed io))))
     else bnd (if tno = T_IRQ0 + IRQ_TIMER then timer_tick
               else if tno = T_IRQ0 + IRQ_IDE then ret ()
               else if tno = T_IRQ0 + IRQ_IDE + 1 then ret ()
               else if tno = T_IRQ0 + IRQ_KBD then kbd_interrupt io
               else if tno = T_IRQ0 + IRQ_COM1 then uartintr (uart_bytes io)
               else if tno = T_IRQ0 + 7 \<or> tno = T_IRQ0 + IRQ_SPURIOUS
               then bnd (tf_word t TF_EIP) (\<lambda>eip.
                    bnd cpuid (\<lambda>c.
                    cprintf (Some (bstr ''cpu%d: spurious interrupt at %x:%x'' @ [10]))
                      [AInt (of_nat c), AInt (seg AND 0xffff), AInt eip]))
               else bad_trap io t) (\<lambda>_.
          bnd (die_in_user io seg) (\<lambda>_.
          bnd myproc (\<lambda>po.
          bnd (case po of
                 None \<Rightarrow> ret ()
               | Some p \<Rightarrow>
                   bnd (getk (\<lambda>s. pstate (procs s p))) (\<lambda>st.
                   if st = RUNNING \<and> tno = T_IRQ0 + IRQ_TIMER then yield_cpu (yield_sw io) else ret ())) (\<lambda>_.
          die_in_user io seg))))))"

end
