(* ===== verification/FsSpec.thy ===== *)
theory FsSpec
  imports Fs
begin

text \<open>
  What the block and content layers of \<open>fs.c\<close> promise, over the block contents \<open>view\<close> of Bio.

  \<open>in_op s r\<close>: a file-system operation is running, with room for \<open>r\<close> more blocks in the log.
  \<open>opened s k b t\<close> is the state between \<open>bread\<close> and \<open>brelse\<close> of block \<open>k\<close>.  Over these, the free map is
  the set of block numbers \<open>used\<close>, and the content of a file is the byte list \<open>file_bytes\<close>; the
  locale \<open>free_map\<close> states the contract of the block allocator.
\<close>

section \<open>Inside an operation\<close>

definition in_op :: "'z log_st_scheme \<Rightarrow> nat \<Rightarrow> bool" where
  "in_op s r \<longleftrightarrow> cache_inv s \<and> heldb s = {} \<and> 1 \<le> outstanding s \<and> 0 \<le> lh_n s
     \<and> lh_n s + int r \<le> int LOGSIZE \<and> lh_n s + int r < lg_size s \<and> length (lh_block s) = LOGSIZE
     \<and> dirtyb s \<subseteq> set (take (nat (lh_n s)) (lh_block s))"

definition log_frame :: "'z log_st_scheme \<Rightarrow> 'z log_st_scheme \<Rightarrow> bool" where
  "log_frame s s' \<longleftrightarrow>
     s' = s\<lparr>procs := procs s', slocks := slocks s', bufs := bufs s', memdisk := memdisk s', writes := writes s',
            lh_n := lh_n s', lh_block := lh_block s'\<rparr>
   \<and> (\<forall>i. procs s' i = (procs s i)\<lparr>pstate := pstate (procs s' i)\<rparr>)
   \<and> (\<forall>n. slocks s' (InodeSleep n) = slocks s (InodeSleep n))"

lemma log_frame_eq:
  "log_frame s s' \<Longrightarrow> s' = s\<lparr>procs := procs s', slocks := slocks s', bufs := bufs s', memdisk := memdisk s',
     writes := writes s', lh_n := lh_n s', lh_block := lh_block s'\<rparr>"
  by (simp add: log_frame_def)

lemma log_frame_refl [simp]: "log_frame s s"
  by (simp add: log_frame_def)

lemma log_frame_trans:
  assumes "log_frame s t" and "log_frame t u"
  shows "log_frame s u"
proof -
  have "u = s\<lparr>procs := procs u, slocks := slocks u, bufs := bufs u, memdisk := memdisk u, writes := writes u,
      lh_n := lh_n u, lh_block := lh_block u\<rparr>"
    using log_frame_eq [OF assms(1)] log_frame_eq [OF assms(2)]
    by (cases s; cases t; cases u) simp
  moreover have "procs u i = (procs s i)\<lparr>pstate := pstate (procs u i)\<rparr>" for i
  proof -
    have "procs u i = (procs t i)\<lparr>pstate := pstate (procs u i)\<rparr>" "procs t i = (procs s i)\<lparr>pstate := pstate (procs t i)\<rparr>"
      using assms unfolding log_frame_def by blast+
    then show ?thesis by (cases "procs s i"; cases "procs t i"; cases "procs u i") simp
  qed
  ultimately show ?thesis using assms unfolding log_frame_def by simp
qed

lemma bio_log_frame: "bio_frame s t \<Longrightarrow> log_frame s t"
proof -
  assume f: "bio_frame s t"
  have "t = s\<lparr>procs := procs t, slocks := slocks t, bufs := bufs t, memdisk := memdisk t, writes := writes t,
      lh_n := lh_n t, lh_block := lh_block t\<rparr>"
    using bio_frame_eq [OF f] by (cases s; cases t) simp
  with f show ?thesis unfolding log_frame_def bio_frame_def by simp
qed

lemma log_frame_fields:
  assumes "log_frame s s'"
  shows "disksize s' = disksize s" "lg_size s' = lg_size s" "outstanding s' = outstanding s" "mem s' = mem s"
    "committing s' = committing s"
  by (subst log_frame_eq [OF assms], simp)+

lemma log_frame_fs:
  assumes "log_frame s s'"
  shows "sb s' = sb s" "inodes s' = inodes s"
  by (subst log_frame_eq [OF assms], simp)+

lemma dirty_room: "in_op s (Suc r) \<Longrightarrow> card (dirtyb s) < NBUF"
proof -
  assume a: "in_op s (Suc r)"
  then have "card (dirtyb s) \<le> card (set (take (nat (lh_n s)) (lh_block s)))"
    unfolding in_op_def by (intro card_mono) auto
  also have "\<dots> \<le> nat (lh_n s)" using card_length [of "take (nat (lh_n s)) (lh_block s)"] by simp
  also have "\<dots> < NBUF" using a by (auto simp: in_op_def NBUF_def LOGSIZE_def MAXOPBLOCKS_def)
  finally show ?thesis .
qed

section \<open>Opening a block\<close>

definition opened :: "'z log_st_scheme \<Rightarrow> nat \<Rightarrow> nat \<Rightarrow> 'z log_st_scheme \<Rightarrow> bool" where
  "opened s k b t \<longleftrightarrow> cache_inv t \<and> heldb t = {b} \<and> view t = view s \<and> dirtyb t = dirtyb s
     \<and> memdisk t = memdisk s \<and> blockno (bufs t b) = k \<and> data (bufs t b) = view s k \<and> settled t b \<and> bio_frame s t"

lemma open_block:
  assumes "in_op s (Suc r)" and "k < disksize s"
  obtains b t where "bread 1 k s = Ok b t" and "opened s k b t"
proof -
  have c: "cache_inv s" "heldb s = {}" using assms(1) by (simp_all add: in_op_def)
  with bread_ok [OF c(1) assms(2)] dirty_room [OF assms(1)] obtain b t where
    "bread 1 k s = Ok b t" "bstep b s t" "view t = view s" "dirtyb t = dirtyb s" "memdisk t = memdisk s"
    "heldb t = {b}" "blockno (bufs t b) = k" "data (bufs t b) = view s k" "settled t b" by auto
  with that show thesis by (auto simp: opened_def bstep_def)
qed

lemma bdata_opened: "opened s k b t \<Longrightarrow> bdata b t = Ok (view s k) t"
  by (simp add: bdata_def opened_def)

lemma close_block:
  assumes op: "in_op s r" and o: "opened s k b t"
  obtains u where "brelse b t = Ok () u" and "in_op u r" and "view u = view s" and "log_frame s u" and "memdisk u = memdisk s"
proof -
  have o': "cache_inv t" "b \<in> heldb t" "settled t b" "heldb t = {b}" using o by (simp_all add: opened_def)
  from brelse_spec [OF o'(1-3)] obtain u where
    u: "brelse b t = Ok () u" "bstep b t u" "heldb u = {}" "dirtyb u = dirtyb t" "view u = view t" "memdisk u = memdisk t"
    by (auto simp: o'(4))
  have f: "bio_frame s u" using o u(2) by (auto simp: opened_def bstep_def intro: bio_frame_trans)
  note g = bio_frame_log [OF f]
  have "in_op u r" using op u o bstepD(1) [OF u(2)] by (simp add: in_op_def g opened_def)
  with that [OF u(1)] u o bio_log_frame [OF f] show thesis by (simp add: opened_def)
qed

lemma absorb_nth: "absorb xs k i = i + length xs \<and> k \<notin> set xs \<or> (\<exists>j < length xs. absorb xs k i = i + j \<and> xs ! j = k)"
proof (induction xs arbitrary: i)
  case (Cons x xs)
  from Cons.IH [of "i + 1"] show ?case
  proof (elim disjE exE conjE)
    fix j assume "j < length xs" "absorb xs k (i + 1) = i + 1 + j" "xs ! j = k"
    then show ?case by (cases "x = k") (auto intro!: exI [of _ "Suc j"])
  qed auto
qed simp

text \<open>The header after \<open>log_write\<close>: the block is among the logged ones, and nothing was lost.\<close>

lemma log_append:
  assumes "0 \<le> n" and "n < int LOGSIZE" and "length bl = LOGSIZE"
    and i: "i = absorb (take (nat n) bl) k 0"
  defines "n' \<equiv> if int i = n then n + 1 else n"
  shows "insert k (set (take (nat n) bl)) \<subseteq> set (take (nat n') (bl[i := k]))" and "n \<le> n'" and "n' \<le> n + 1"
proof -
  have len: "length (take (nat n) bl) = nat n" using assms(1-3) by simp
  from absorb_nth [of "take (nat n) bl" k 0] i len
  consider "i = nat n" "k \<notin> set (take (nat n) bl)" | j where "i = j" "j < nat n" "bl ! j = k" by auto
  then show "insert k (set (take (nat n) bl)) \<subseteq> set (take (nat n') (bl[i := k]))"
  proof cases
    case 1
    then have n': "nat n' = Suc (nat n)" using assms(1) by (simp add: n'_def)
    have "take (nat n') (bl[i := k]) = take (nat n) bl @ [k]"
      using 1(1) assms(1-3) n' by (simp add: take_Suc_conv_app_nth)
    then show ?thesis by auto
  next
    case 2
    then have "bl[i := k] = bl" and n': "n' = n" using assms(1) by (auto simp: n'_def)
    moreover have "k \<in> set (take (nat n) bl)" using 2 len by (metis nth_mem nth_take)
    ultimately show ?thesis by auto
  qed
qed (simp_all add: n'_def)

lemma log_write_opened:
  assumes op: "in_op s (Suc r)" and t: "cache_inv t" "heldb t = {b}" "dirtyb t = dirtyb s" "bio_frame s t"
    and k: "blockno (bufs t b) = k"
  obtains u where "log_write b t = Ok () u" and "cache_inv u" and "heldb u = {b}" and "settled u b" and "view u = view t"
    and "memdisk u = memdisk t" and "log_frame s u" and "1 \<le> outstanding u" and "0 \<le> lh_n u"
    and "lh_n u + int r \<le> int LOGSIZE" and "lh_n u + int r < lg_size u" and "length (lh_block u) = LOGSIZE"
    and "dirtyb u \<subseteq> set (take (nat (lh_n u)) (lh_block u))"
proof -
  note g = bio_frame_log [OF t(4)]
  have p: "1 \<le> outstanding t" "0 \<le> lh_n t" "lh_n t + int (Suc r) \<le> int LOGSIZE" "lh_n t + int (Suc r) < lg_size t"
    "length (lh_block t) = LOGSIZE" "dirtyb t \<subseteq> set (take (nat (lh_n t)) (lh_block t))"
    using op t by (simp_all add: in_op_def g)
  define i where "i = absorb (take (nat (lh_n t)) (lh_block t)) k 0"
  define n' where "n' = (if int i = lh_n t then lh_n t + 1 else lh_n t)"
  define v where "v = t\<lparr>lh_block := (lh_block t)[i := k], lh_n := n'\<rparr>"
  have la: "insert k (set (take (nat (lh_n t)) (lh_block t))) \<subseteq> set (take (nat n') ((lh_block t)[i := k]))"
    "lh_n t \<le> n'" "n' \<le> lh_n t + 1"
    using log_append [of "lh_n t" "lh_block t" i k] p by (simp_all add: i_def n'_def)
  have v: "cache_inv v" "heldb v = {b}" "dirtyb v = dirtyb t" "view v = view t" "blockno (bufs v b) = k" "memdisk v = memdisk t"
    using t k by (simp_all add: v_def)
  from bdirty_spec [OF v(1), of b] v obtain u where
    u: "upd_buf b (\<lambda>x. x\<lparr>b_dirty := True\<rparr>) v = Ok () u" "bstep b v u" "heldb u = {b}" "dirtyb u = insert k (dirtyb t)"
      "view u = view t" "memdisk u = memdisk t" "bufs u b = (bufs v b)\<lparr>b_dirty := True\<rparr>" by auto
  note gu = bio_frame_log [OF bstepD(2) [OF u(2)]]
  have "log_write b t = Ok () u"
    using p u(1) k by (simp add: log_write_def Let_def i_def v_def n'_def)
  moreover have "log_frame s u"
  proof (rule log_frame_trans [OF log_frame_trans [OF bio_log_frame [OF t(4)]] bio_log_frame [OF bstepD(2) [OF u(2)]]])
    show "log_frame t v" by (simp add: log_frame_def v_def)
  qed
  ultimately show thesis
    using that u v p la bstepD(1) [OF u(2)] by (auto simp: gu v_def settled_def)
qed

text \<open>Modifying an open block through the log and releasing it.\<close>

definition put_block :: "nat \<Rightarrow> (byte list \<Rightarrow> byte list) \<Rightarrow> ('z log_st_scheme, unit) kern" where
  "put_block b f = bnd (bset b f) (\<lambda>_. bnd (log_write b) (\<lambda>_. brelse b))"

lemma put_block_opened:
  assumes op: "in_op s (Suc r)" and o: "opened s k b t" and len: "length (f (view s k)) = BSIZE"
  obtains u where "put_block b f t = Ok () u" and "in_op u r" and "view u = (view s)(k := f (view s k))"
    and "log_frame s u" and "memdisk u = memdisk s"
proof -
  have o': "cache_inv t" "b \<in> heldb t" "heldb t = {b}" "view t = view s" "dirtyb t = dirtyb s" "memdisk t = memdisk s"
    "blockno (bufs t b) = k" "data (bufs t b) = view s k" "bio_frame s t" using o by (simp_all add: opened_def)
  from bset_spec [OF o'(1,2), of f] len o' obtain v where
    v: "bset b f t = Ok () v" "bstep b t v" "heldb v = {b}" "dirtyb v = dirtyb s" "view v = (view s)(k := f (view s k))"
      "memdisk v = memdisk s" "bufs v b = (bufs t b)\<lparr>data := f (view s k)\<rparr>" by auto
  have fv: "bio_frame s v" by (rule bio_frame_trans [OF o'(9) bstepD(2) [OF v(2)]])
  have kv: "blockno (bufs v b) = k" using v(7) o'(7) by simp
  from log_write_opened [OF op bstepD(1) [OF v(2)] v(3,4) fv kv] obtain w where
    w: "log_write b v = Ok () w" "cache_inv w" "heldb w = {b}" "settled w b" "view w = view v" "memdisk w = memdisk v"
      "log_frame s w" "1 \<le> outstanding w" "0 \<le> lh_n w" "lh_n w + int r \<le> int LOGSIZE" "lh_n w + int r < lg_size w"
      "length (lh_block w) = LOGSIZE" "dirtyb w \<subseteq> set (take (nat (lh_n w)) (lh_block w))" by blast
  from brelse_spec [OF w(2) _ w(4)] w(3) obtain u where
    u: "brelse b w = Ok () u" "bstep b w u" "heldb u = {}" "dirtyb u = dirtyb w" "view u = view w" "memdisk u = memdisk w"
    by auto
  note g = bio_frame_log [OF bstepD(2) [OF u(2)]]
  have "in_op u r" unfolding in_op_def using u w bstepD(1) [OF u(2)] by (simp add: g)
  moreover have "put_block b f t = Ok () u" using v(1) w(1) u(1) by (simp add: put_block_def)
  moreover have "log_frame s u" by (rule log_frame_trans [OF w(7) bio_log_frame [OF bstepD(2) [OF u(2)]]])
  ultimately show thesis using that u v w by simp
qed

section \<open>The free map\<close>

text \<open>The bit of block \<open>b\<close> in the bitmap blocks.\<close>

definition used :: "(nat \<Rightarrow> byte list) \<Rightarrow> superblock \<Rightarrow> nat \<Rightarrow> bool" where
  "used v sbk b \<longleftrightarrow> \<not> bit_clear (v (BBLOCK b sbk)) (b mod BPB)"

definition map_ok :: "nat \<Rightarrow> (nat \<Rightarrow> byte list) \<Rightarrow> superblock \<Rightarrow> bool" where
  "map_ok dsz v sbk \<longleftrightarrow> sb_size sbk \<le> dsz \<and> (\<forall>b < sb_size sbk. BBLOCK b sbk < dsz \<and> length (v (BBLOCK b sbk)) = BSIZE)"

lemma BPB_pos [simp]: "0 < BPB"
  by (simp add: BPB_def BSIZE_def)

lemma BBLOCK_add: "b mod BPB = 0 \<Longrightarrow> bi < BPB \<Longrightarrow> BBLOCK (b + bi) sbk = BBLOCK b sbk \<and> (b + bi) mod BPB = bi"
  by (auto simp: BBLOCK_def mod_add_left_eq [symmetric] div_add1_eq)

lemma length_bits [simp]: "length (mark_bit bi bs) = length bs" "length (wipe_bit bi bs) = length bs"
  by (simp_all add: mark_bit_def wipe_bit_def)

lemma bmask_bit: "bit (bmask i) n \<longleftrightarrow> n = i mod 8"
proof -
  have "i mod 8 < 8" by simp
  then show ?thesis by (auto simp: bmask_def push_bit_of_1 bit_exp_iff)
qed

lemma and_bmask: "x AND bmask i = 0 \<longleftrightarrow> \<not> bit x (i mod 8)"
proof -
  have "x AND bmask i = 0 \<longleftrightarrow> (\<forall>n < 8. \<not> (bit x n \<and> n = i mod 8))"
    unfolding bmask_bit [symmetric] by (simp add: bit_eq_iff bit_and_iff)
  moreover have "i mod 8 < 8" by simp
  ultimately show ?thesis by blast
qed

lemma bit_clear_iff: "bit_clear bs bi \<longleftrightarrow> \<not> bit (bs ! (bi div 8)) (bi mod 8)"
  by (simp add: bit_clear_def and_bmask)

lemma bit_index: "bi < BPB \<Longrightarrow> length bs = BSIZE \<Longrightarrow> bi div 8 < length bs"
  by (simp add: BPB_def BSIZE_def less_mult_imp_div_less)

lemma mark_bit_clear:
  assumes "bi < BPB" and "bj < BPB" and "length bs = BSIZE"
  shows "bit_clear (mark_bit bi bs) bj \<longleftrightarrow> bj \<noteq> bi \<and> bit_clear bs bj"
proof -
  have "bj \<noteq> bi \<and> bj div 8 = bi div 8 \<longrightarrow> bj mod 8 \<noteq> bi mod 8" by (metis mod_mult_div_eq)
  then show ?thesis
    using bit_index [OF assms(1,3)] by (auto simp: bit_clear_iff mark_bit_def nth_list_update bit_or_iff bmask_bit)
qed

lemma wipe_bit_clear:
  assumes "bi < BPB" and "bj < BPB" and "length bs = BSIZE"
  shows "bit_clear (wipe_bit bi bs) bj \<longleftrightarrow> bj = bi \<or> bit_clear bs bj"
proof -
  have "bj mod 8 < 8" by simp
  then have "bit (NOT (bmask bi)) (bj mod 8) \<longleftrightarrow> bj mod 8 \<noteq> bi mod 8" by (simp add: bit_not_iff bmask_bit)
  moreover have "bj \<noteq> bi \<and> bj div 8 = bi div 8 \<longrightarrow> bj mod 8 \<noteq> bi mod 8" by (metis mod_mult_div_eq)
  ultimately show ?thesis
    using bit_index [OF assms(1,3)] by (auto simp: bit_clear_iff wipe_bit_def nth_list_update bit_and_iff)
qed

lemma used_upd_block:
  assumes "map_ok dsz v sbk" and "n < sb_size sbk" and "b < sb_size sbk"
  shows "used (v(BBLOCK n sbk := mark_bit (n mod BPB) (v (BBLOCK n sbk)))) sbk b \<longleftrightarrow> b = n \<or> used v sbk b"
    and "used (v(BBLOCK n sbk := wipe_bit (n mod BPB) (v (BBLOCK n sbk)))) sbk b \<longleftrightarrow> b \<noteq> n \<and> used v sbk b"
proof -
  have len: "length (v (BBLOCK n sbk)) = BSIZE" using assms by (simp add: map_ok_def)
  have same: "b = n" if "BBLOCK b sbk = BBLOCK n sbk" and "b mod BPB = n mod BPB"
    using that by (metis BBLOCK_def add_right_cancel mod_mult_div_eq)
  note m = mark_bit_clear [OF _ _ len, of "n mod BPB" "b mod BPB"] and w = wipe_bit_clear [OF _ _ len, of "n mod BPB" "b mod BPB"]
  show "used (v(BBLOCK n sbk := mark_bit (n mod BPB) (v (BBLOCK n sbk)))) sbk b \<longleftrightarrow> b = n \<or> used v sbk b"
    using m same by (auto simp: used_def)
  show "used (v(BBLOCK n sbk := wipe_bit (n mod BPB) (v (BBLOCK n sbk)))) sbk b \<longleftrightarrow> b \<noteq> n \<and> used v sbk b"
    using w same by (auto simp: used_def)
qed

section \<open>Allocating and freeing blocks\<close>

lemma bzero_spec:
  assumes "in_op s (Suc r)" and "k < disksize s"
  obtains u where "bzero 1 k s = Ok () u" and "in_op u r" and "view u = (view s)(k := replicate BSIZE 0)"
    and "log_frame s u" and "memdisk u = memdisk s"
proof -
  from open_block [OF assms] obtain b t where t: "bread 1 k s = Ok b t" "opened s k b t" .
  from put_block_opened [OF assms(1) t(2), of "\<lambda>_. replicate BSIZE 0"] obtain u where
    "put_block b (\<lambda>_. replicate BSIZE 0) t = Ok () u" "in_op u r" "view u = (view s)(k := replicate BSIZE 0)"
    "log_frame s u" "memdisk u = memdisk s" by auto
  with that t(1) show thesis by (simp add: bzero_def put_block_def)
qed

text \<open>The first free block from \<open>b\<close> on, if there is one.\<close>

definition first_free :: "(nat \<Rightarrow> byte list) \<Rightarrow> superblock \<Rightarrow> nat \<Rightarrow> nat option" where
  "first_free v sbk b = find (\<lambda>n. \<not> used v sbk n) [b..<sb_size sbk]"

lemma find_append: "find P (xs @ ys) = (case find P xs of None \<Rightarrow> find P ys | Some x \<Rightarrow> Some x)"
  by (induction xs) auto

lemma find_map: "find P (map f xs) = map_option f (find (\<lambda>x. P (f x)) xs)"
  by (induction xs) auto

lemma find_cong_set: "(\<And>x. x \<in> set xs \<Longrightarrow> P x = Q x) \<Longrightarrow> find P xs = find Q xs"
  by (induction xs) auto

lemma first_free_chunk:
  assumes "b mod BPB = 0" and "b < sb_size sbk"
  shows "first_free v sbk b = (case find (bit_clear (v (BBLOCK b sbk))) [0..<min BPB (sb_size sbk - b)] of
      Some bi \<Rightarrow> Some (b + bi) | None \<Rightarrow> first_free v sbk (b + BPB))"
proof -
  let ?m = "min BPB (sb_size sbk - b)"
  have split: "[b..<sb_size sbk] = map (\<lambda>i. i + b) [0..<?m] @ [b + BPB..<sb_size sbk]"
  proof (cases "b + BPB \<le> sb_size sbk")
    case True
    then have "[b..<sb_size sbk] = [b..<b + BPB] @ [b + BPB..<sb_size sbk]" using upt_add_eq_append [of b "b + BPB" "sb_size sbk - (b + BPB)"] by simp
    moreover have "[b..<b + BPB] = map (\<lambda>i. i + b) [0..<BPB]" by (simp add: map_add_upt add.commute)
    ultimately show ?thesis using True by (simp add: min_def)
  next
    case False
    then show ?thesis using assms(2) by (simp add: min_def map_add_upt)
  qed
  have "find (\<lambda>x. \<not> used v sbk (x + b)) [0..<?m] = find (bit_clear (v (BBLOCK b sbk))) [0..<?m]"
    by (rule find_cong_set) (use BBLOCK_add [OF assms(1)] in \<open>simp add: used_def add.commute\<close>)
  then show ?thesis
    unfolding first_free_def split by (simp add: find_append find_map add.commute split: option.split)
qed

definition allocated :: "nat \<Rightarrow> superblock \<Rightarrow> (nat \<Rightarrow> byte list) \<Rightarrow> nat \<Rightarrow> byte list" where
  "allocated n sbk v = (v(BBLOCK n sbk := mark_bit (n mod BPB) (v (BBLOCK n sbk))))(n := replicate BSIZE 0)"

lemma balloc_loop_spec:
  assumes "in_op s (Suc (Suc r))" and "map_ok (disksize s) (view s) sbk" and "b mod BPB = 0"
  shows "case first_free (view s) sbk b of
      None \<Rightarrow> balloc_loop 1 sbk b s = Panic ''balloc: out of blocks''
    | Some n \<Rightarrow> \<exists>u. balloc_loop 1 sbk b s = Ok n u \<and> in_op u r \<and> view u = allocated n sbk (view s)
        \<and> log_frame s u \<and> memdisk u = memdisk s"
  using assms
proof (induction "sb_size sbk - b" arbitrary: b s rule: less_induct)
  case less
  note unf = balloc_loop.simps [of 1 sbk b s]
  show ?case
  proof (cases "b < sb_size sbk")
    case False
    then show ?thesis using unf by (simp add: first_free_def)
  next
    case True
    have kd: "BBLOCK b sbk < disksize s" and len: "length (view s (BBLOCK b sbk)) = BSIZE"
      using less.prems(2) True by (simp_all add: map_ok_def)
    from open_block [OF less.prems(1) kd] obtain bp t where t: "bread 1 (BBLOCK b sbk) s = Ok bp t" "opened s (BBLOCK b sbk) bp t" .
    note ff = first_free_chunk [OF less.prems(3) True, of "view s"]
    show ?thesis
    proof (cases "find (bit_clear (view s (BBLOCK b sbk))) [0..<min BPB (sb_size sbk - b)]")
      case None
      from close_block [OF less.prems(1) t(2)] obtain u where
        u: "brelse bp t = Ok () u" "in_op u (Suc (Suc r))" "view u = view s" "log_frame s u" "memdisk u = memdisk s" .
      have "map_ok (disksize u) (view u) sbk" using less.prems(2) u by (simp add: log_frame_fields)
      moreover have "(b + BPB) mod BPB = 0" using less.prems(3) by simp
      moreover have "sb_size sbk - (b + BPB) < sb_size sbk - b" using True BPB_pos by linarith
      ultimately have ih: "case first_free (view u) sbk (b + BPB) of
          None \<Rightarrow> balloc_loop 1 sbk (b + BPB) u = Panic ''balloc: out of blocks''
        | Some n \<Rightarrow> \<exists>w. balloc_loop 1 sbk (b + BPB) u = Ok n w \<and> in_op w r \<and> view w = allocated n sbk (view u)
            \<and> log_frame u w \<and> memdisk w = memdisk u"
        by (intro less.hyps u(2))
      have "balloc_loop 1 sbk b s = balloc_loop 1 sbk (b + BPB) u"
        using unf True t(1) bdata_opened [OF t(2)] None u(1) by simp
      then show ?thesis using ih ff None u log_frame_trans [OF u(4)] by (auto split: option.splits)
    next
      case (Some bi)
      then have bi: "bi < BPB" "b + bi < sb_size sbk" using find_SomeD [OF Some] by auto
      note bb = BBLOCK_add [OF less.prems(3) bi(1), of sbk]
      from put_block_opened [OF less.prems(1) t(2), of "mark_bit bi"] len obtain u where
        u: "put_block bp (mark_bit bi) t = Ok () u" "in_op u (Suc r)"
          "view u = (view s)(BBLOCK b sbk := mark_bit bi (view s (BBLOCK b sbk)))" "log_frame s u" "memdisk u = memdisk s" by auto
      have "b + bi < disksize u" using bi(2) less.prems(2) u(4) by (simp add: map_ok_def log_frame_fields)
      from bzero_spec [OF u(2) this] obtain w where
        w: "bzero 1 (b + bi) u = Ok () w" "in_op w r" "view w = (view u)(b + bi := replicate BSIZE 0)" "log_frame u w" "memdisk w = memdisk u" .
      from u(1) obtain t1 t2 where pb: "bset bp (mark_bit bi) t = Ok () t1" "log_write bp t1 = Ok () t2" "brelse bp t2 = Ok () u"
        by (auto simp: put_block_def elim!: bnd_OkE)
      have "balloc_loop 1 sbk b s = Ok (b + bi) w"
        using unf True t(1) bdata_opened [OF t(2)] Some pb w(1) by simp
      then show ?thesis
        using ff Some w u log_frame_trans [OF u(4) w(4)] bb by (simp add: allocated_def)
    qed
  qed
qed

lemma balloc_spec:
  assumes "in_op s (Suc (Suc r))" and "map_ok (disksize s) (view s) (sb s)"
  shows "case first_free (view s) (sb s) 0 of
      None \<Rightarrow> balloc 1 s = Panic ''balloc: out of blocks''
    | Some n \<Rightarrow> \<exists>u. balloc 1 s = Ok n u \<and> in_op u r \<and> view u = allocated n (sb s) (view s)
        \<and> log_frame s u \<and> memdisk u = memdisk s"
proof -
  have eq: "balloc 1 s = balloc_loop 1 (sb s) 0 s" by (simp add: balloc_def)
  show ?thesis unfolding eq by (rule balloc_loop_spec [OF assms]) simp
qed

lemma bfree_spec:
  assumes "in_op s (Suc r)" and "map_ok (disksize s) (view s) (sb s)" and "b < sb_size (sb s)"
  shows "if used (view s) (sb s) b
    then \<exists>u. bfree 1 b s = Ok () u \<and> in_op u r \<and> log_frame s u \<and> memdisk u = memdisk s
       \<and> view u = (view s)(BBLOCK b (sb s) := wipe_bit (b mod BPB) (view s (BBLOCK b (sb s))))
    else bfree 1 b s = Panic ''freeing free block''"
proof -
  have kd: "BBLOCK b (sb s) < disksize s" and len: "length (view s (BBLOCK b (sb s))) = BSIZE"
    using assms(2,3) by (simp_all add: map_ok_def)
  from open_block [OF assms(1) kd] obtain bp t where t: "bread 1 (BBLOCK b (sb s)) s = Ok bp t" "opened s (BBLOCK b (sb s)) bp t" .
  note pre = t(1) bdata_opened [OF t(2)]
  show ?thesis
  proof (cases "used (view s) (sb s) b")
    case False
    then show ?thesis using pre by (simp add: bfree_def used_def Let_def)
  next
    case True
    from put_block_opened [OF assms(1) t(2), of "wipe_bit (b mod BPB)"] len obtain u where
      "put_block bp (wipe_bit (b mod BPB)) t = Ok () u" "in_op u r" "log_frame s u" "memdisk u = memdisk s"
      "view u = (view s)(BBLOCK b (sb s) := wipe_bit (b mod BPB) (view s (BBLOCK b (sb s))))" by auto
    with True pre show ?thesis by (simp add: bfree_def used_def Let_def put_block_def)
  qed
qed

section \<open>The contract of the block allocator\<close>

text \<open>
  \<open>room r s\<close>: the allocator's invariant, with space for \<open>r\<close> more logged blocks; \<open>meta\<close> are the blocks
  that clients never free.
\<close>

locale free_map =
  fixes alloc :: "('s, nat) kern" and free :: "nat \<Rightarrow> ('s, unit) kern"
    and inuse :: "'s \<Rightarrow> nat \<Rightarrow> bool" and meta :: "'s \<Rightarrow> nat \<Rightarrow> bool" and room :: "nat \<Rightarrow> 's \<Rightarrow> bool"
  assumes alloc_law: "room (Suc (Suc r)) s \<Longrightarrow> alloc s = Ok n u \<Longrightarrow>
      \<not> inuse s n \<and> room r u \<and> (\<forall>b. inuse u b \<longleftrightarrow> b = n \<or> inuse s b) \<and> meta u = meta s"
    and free_law: "room (Suc r) s \<Longrightarrow> inuse s b \<Longrightarrow> \<not> meta s b \<Longrightarrow>
      \<exists>u. free b s = Ok () u \<and> room r u \<and> (\<forall>c. inuse u c \<longleftrightarrow> c \<noteq> b \<and> inuse s c)"
    and meta_used: "room r s \<Longrightarrow> meta s b \<Longrightarrow> inuse s b"
begin

text \<open>No block is handed out twice, and a block handed out can be given back, which restores the map.\<close>

lemma alloc_twice:
  assumes "room (Suc (Suc (Suc (Suc r)))) s" and "alloc s = Ok n u" and "alloc u = Ok m v"
  shows "m \<noteq> n"
  using alloc_law [OF assms(1,2)] alloc_law [of "r" u m v] assms(3) by auto

lemma alloc_then_free:
  assumes "room (Suc (Suc (Suc r))) s" and "alloc s = Ok n u"
  shows "\<exists>v. free n u = Ok () v \<and> room r v \<and> inuse v = inuse s"
proof -
  from alloc_law [OF assms] have u: "\<not> inuse s n" "room (Suc r) u" "\<forall>b. inuse u b \<longleftrightarrow> b = n \<or> inuse s b" "meta u = meta s"
    by auto
  have "\<not> meta u n" using meta_used [OF assms(1), of n] u by auto
  with free_law [OF u(2), of n] u(3) obtain v where
    "free n u = Ok () v" "room r v" "\<forall>c. inuse v c \<longleftrightarrow> c \<noteq> n \<and> inuse u c" by auto
  with u(1,3) show ?thesis by (auto simp: fun_eq_iff)
qed

end

definition in_map :: "'z fs_st_scheme \<Rightarrow> nat \<Rightarrow> bool" where
  "in_map s b \<longleftrightarrow> b < sb_size (sb s) \<and> used (view s) (sb s) b"

definition map_block :: "'z fs_st_scheme \<Rightarrow> nat \<Rightarrow> bool" where
  "map_block s b \<longleftrightarrow> (\<exists>c < sb_size (sb s). b = BBLOCK c (sb s))"

definition map_room :: "nat \<Rightarrow> 'z fs_st_scheme \<Rightarrow> bool" where
  "map_room r s \<longleftrightarrow> in_op s r \<and> map_ok (disksize s) (view s) (sb s) \<and> (\<forall>b. map_block s b \<longrightarrow> in_map s b)"

lemma map_room_upd:
  assumes "map_room r s" and "in_op u r'" and "log_frame s u" and "\<And>b. b < sb_size (sb s) \<Longrightarrow> length (view u (BBLOCK b (sb s))) = BSIZE"
    and "\<And>b. map_block s b \<Longrightarrow> used (view u) (sb s) b"
  shows "map_room r' u" and "map_block u = map_block s"
proof -
  note g = log_frame_fs [OF assms(3)] log_frame_fields(1) [OF assms(3)]
  show "map_block u = map_block s" by (simp add: map_block_def [abs_def] g)
  then show "map_room r' u"
    using assms unfolding map_room_def map_ok_def by (auto simp: g in_map_def)
qed

lemma first_free_Some:
  assumes "first_free v sbk 0 = Some n"
  shows "n < sb_size sbk" and "\<not> used v sbk n" and "\<forall>m < n. used v sbk m"
proof -
  from assms obtain i where i: "i < length [0..<sb_size sbk]" "\<not> used v sbk ([0..<sb_size sbk] ! i)" "n = [0..<sb_size sbk] ! i"
    "\<forall>j < i. used v sbk ([0..<sb_size sbk] ! j)"
    by (auto simp: first_free_def find_Some_iff)
  then show "n < sb_size sbk" "\<not> used v sbk n" "\<forall>m < n. used v sbk m" by auto
qed

lemma balloc_effect:
  assumes room: "map_room (Suc (Suc r)) s" and ok: "balloc 1 s = Ok n u"
  shows "first_free (view s) (sb s) 0 = Some n" and "view u = allocated n (sb s) (view s)" and "map_room r u"
    and "in_map u b \<longleftrightarrow> b = n \<or> in_map s b" and "map_block u = map_block s" and "log_frame s u" and "\<not> map_block s n"
proof -
  have op: "in_op s (Suc (Suc r))" and mo: "map_ok (disksize s) (view s) (sb s)"
    using room by (simp_all add: map_room_def)
  note sp = balloc_spec [OF op mo]
  then show ff: "first_free (view s) (sb s) 0 = Some n" using ok by (auto split: option.splits)
  with sp ok have u: "in_op u r" "view u = allocated n (sb s) (view s)" "log_frame s u" by auto
  note n = first_free_Some [OF ff]
  show nm: "\<not> map_block s n" using room n(2) by (auto simp: map_room_def in_map_def)
  then have nb: "n \<noteq> BBLOCK c (sb s)" if "c < sb_size (sb s)" for c using that by (auto simp: map_block_def)
  have us: "used (view u) (sb s) c \<longleftrightarrow> c = n \<or> used (view s) (sb s) c" if "c < sb_size (sb s)" for c
    using used_upd_block(1) [OF mo n(1) that] nb [OF that] by (simp add: u(2) allocated_def used_def)
  have len: "length (view u (BBLOCK c (sb s))) = BSIZE" if "c < sb_size (sb s)" for c
    using mo that nb [OF that] n(1) by (simp add: u(2) allocated_def map_ok_def)
  have mb: "used (view u) (sb s) c" if "map_block s c" for c
    using room that us [of c] by (auto simp: map_room_def in_map_def)
  show "map_room r u" by (rule map_room_upd(1) [OF room u(1,3)]) (erule len, erule mb)
  show "map_block u = map_block s" by (rule map_room_upd(2) [OF room u(1,3)]) (erule len, erule mb)
  show "view u = allocated n (sb s) (view s)" "log_frame s u" by (rule u)+
  show "in_map u b \<longleftrightarrow> b = n \<or> in_map s b"
    using us n(1) by (auto simp: in_map_def log_frame_fs [OF u(3)])
qed

lemma bfree_effect:
  assumes room: "map_room (Suc r) s" and b: "in_map s b" "\<not> map_block s b"
  obtains u where "bfree 1 b s = Ok () u" and "map_room r u" and "\<And>c. in_map u c \<longleftrightarrow> c \<noteq> b \<and> in_map s c"
    and "log_frame s u" and "view u = (view s)(BBLOCK b (sb s) := wipe_bit (b mod BPB) (view s (BBLOCK b (sb s))))"
proof -
  have op: "in_op s (Suc r)" and mo: "map_ok (disksize s) (view s) (sb s)"
    using room by (simp_all add: map_room_def)
  have b': "b < sb_size (sb s)" "used (view s) (sb s) b" using b(1) by (simp_all add: in_map_def)
  from bfree_spec [OF op mo b'(1)] b'(2) obtain u where
    u: "bfree 1 b s = Ok () u" "in_op u r" "log_frame s u"
      "view u = (view s)(BBLOCK b (sb s) := wipe_bit (b mod BPB) (view s (BBLOCK b (sb s))))" by auto
  have us: "used (view u) (sb s) c \<longleftrightarrow> c \<noteq> b \<and> used (view s) (sb s) c" if "c < sb_size (sb s)" for c
    using used_upd_block(2) [OF mo b'(1) that] by (simp add: u(4))
  have len: "length (view u (BBLOCK c (sb s))) = BSIZE" if "c < sb_size (sb s)" for c
    using mo that b'(1) by (simp add: u(4) map_ok_def)
  have mb: "used (view u) (sb s) c" if "map_block s c" for c
    using room that us [of c] b(2) by (auto simp: map_room_def in_map_def)
  have "in_map u c \<longleftrightarrow> c \<noteq> b \<and> in_map s c" for c using us by (auto simp: in_map_def log_frame_fs [OF u(3)])
  moreover have "map_room r u" by (rule map_room_upd(1) [OF room u(2,3)]) (erule len, erule mb)
  ultimately show thesis using that u by blast
qed

interpretation blocks: free_map "balloc 1" "bfree 1" in_map map_block map_room
proof unfold_locales
  fix r n and s u :: "'z fs_st_scheme"
  assume "map_room (Suc (Suc r)) s" and "balloc 1 s = Ok n u"
  note e = balloc_effect [OF this]
  have "\<not> in_map s n" using first_free_Some(2) [OF e(1)] by (simp add: in_map_def)
  with e show "\<not> in_map s n \<and> map_room r u \<and> (\<forall>b. in_map u b \<longleftrightarrow> b = n \<or> in_map s b) \<and> map_block u = map_block s"
    by blast
next
  fix r b and s :: "'z fs_st_scheme"
  assume "map_room (Suc r) s" "in_map s b" "\<not> map_block s b"
  then obtain u where "bfree 1 b s = Ok () u" "map_room r u" "\<And>c. in_map u c \<longleftrightarrow> c \<noteq> b \<and> in_map s c"
    by (rule bfree_effect) blast
  then show "\<exists>u. bfree 1 b s = Ok () u \<and> map_room r u \<and> (\<forall>c. in_map u c \<longleftrightarrow> c \<noteq> b \<and> in_map s c)"
    by blast
next
  fix r b and s :: "'z fs_st_scheme"
  assume "map_room r s" "map_block s b"
  then show "in_map s b" by (simp add: map_room_def)
qed

text \<open>C4. Block allocation: balloc returns the first block whose bit is clear, marks exactly that bit and
  zeroes exactly that block, leaving every other block outside the bitmap as it was, and panics if and
  only if every block is in use.\<close>

theorem balloc_first_free:
  assumes "map_room (Suc (Suc r)) s"
  shows "if \<forall>b < sb_size (sb s). in_map s b then balloc 1 s = Panic ''balloc: out of blocks''
    else \<exists>n u. balloc 1 s = Ok n u \<and> \<not> in_map s n \<and> (\<forall>m < n. in_map s m) \<and> map_room r u
      \<and> (\<forall>b. in_map u b \<longleftrightarrow> b = n \<or> in_map s b) \<and> view u n = replicate BSIZE 0
      \<and> (\<forall>k. k \<noteq> n \<and> \<not> map_block s k \<longrightarrow> view u k = view s k)"
proof -
  have op: "in_op s (Suc (Suc r))" and mo: "map_ok (disksize s) (view s) (sb s)"
    using assms by (simp_all add: map_room_def)
  note sp = balloc_spec [OF op mo]
  show ?thesis
  proof (cases "first_free (view s) (sb s) 0")
    case None
    then have "\<forall>b < sb_size (sb s). in_map s b" by (auto simp: first_free_def find_None_iff in_map_def)
    with None sp show ?thesis by simp
  next
    case (Some n)
    with sp obtain u where u: "balloc 1 s = Ok n u" by auto
    note e = balloc_effect [OF assms u] and n = first_free_Some [OF Some]
    have "\<not> in_map s n" "\<forall>m < n. in_map s m" using n by (auto simp: in_map_def)
    moreover have "view u k = view s k" if "k \<noteq> n" "\<not> map_block s k" for k
    proof -
      have "k \<noteq> BBLOCK n (sb s)" using that(2) n(1) by (auto simp: map_block_def)
      with that(1) show ?thesis by (simp add: e(2) allocated_def)
    qed
    ultimately show ?thesis using n(1) u e by (auto simp: allocated_def)
  qed
qed

text \<open>C10. Freeing a block undoes allocating it: after balloc, bfree of the same block returns, the free map is
  again what it was, and freeing the block a second time is caught by a panic.\<close>

theorem balloc_bfree_roundtrip:
  assumes "map_room (Suc (Suc (Suc (Suc r)))) s" and "balloc 1 s = Ok n u"
  shows "\<exists>v. bfree 1 n u = Ok () v \<and> in_map v = in_map s \<and> bfree 1 n v = Panic ''freeing free block''"
proof -
  from blocks.alloc_then_free [OF assms] obtain v where
    v: "bfree 1 n u = Ok () v" "map_room (Suc r) v" "in_map v = in_map s" by blast
  note e = balloc_effect [OF assms]
  have "\<not> in_map v n" using first_free_Some(2) [OF e(1)] v(3) by (simp add: in_map_def)
  moreover have "sb v = sb s"
  proof -
    have "map_room (Suc (Suc r)) u" "in_map u n" "\<not> map_block u n" using e(3,5,7) e(4) [of n] by simp_all
    then obtain v' where "bfree 1 n u = Ok () v'" "log_frame u v'" by (rule bfree_effect)
    then show ?thesis using v(1) log_frame_fs(1) [OF e(6)] log_frame_fs(1) [of u v] by simp
  qed
  ultimately have "\<not> used (view v) (sb v) n" "n < sb_size (sb v)"
    using first_free_Some(1) [OF e(1)] by (simp_all add: in_map_def)
  moreover have "in_op v (Suc r)" "map_ok (disksize v) (view v) (sb v)" using v(2) by (simp_all add: map_room_def)
  ultimately have "bfree 1 n v = Panic ''freeing free block''" using bfree_spec [of v r n] by auto
  with v show ?thesis by blast
qed

section \<open>A small file system for the witnesses\<close>

definition small_sb :: superblock where
  "small_sb = \<lparr>sb_size = 1000, nblocks = 941, ninodes = 200, nlog = 30, logstart = 2, inodestart = 32, bmapstart = 58\<rparr>"

lemma small_sb_size: "sb_size small_sb = 1000"
  by (simp add: small_sb_def)

definition small_disk :: "nat \<Rightarrow> byte list" where
  "small_disk k = (if k = 58 then replicate 8 255 @ replicate 504 0 else replicate 512 0)"

lemma boot_fs_exists:
  assumes "\<forall>k < 1000. length (D k) = BSIZE"
  shows "\<exists>s :: fs_st. in_op s 10 \<and> view s = D \<and> disksize s = 1000 \<and> sb s = sbk \<and> inodes s = ino"
proof -
  define s0 :: fs_st where "s0 = (log_st.extend boot_log (fs_st.fields sbk ino))\<lparr>memdisk := D\<rparr>"
  have run: "running s0"
    by (simp add: s0_def running_def this_proc_def boot_log_def boot_bio_def fs_st.defs log_st.defs bio_st.defs)
  have b: "\<forall>i. \<not> b_valid (bufs s0 i) \<and> \<not> b_dirty (bufs s0 i) \<and> refcnt (bufs s0 i) = 0 \<and> dev (bufs s0 i) = 0"
    "disksize s0 = 1000" "memdisk s0 = D" "sb s0 = sbk" "inodes s0 = ino"
    by (simp_all add: s0_def boot_log_def boot_bio_def fs_st.defs log_st.defs bio_st.defs)
  from binit_inv [OF run b(1)] assms b(2,3) obtain s :: fs_st where
    s: "binit s0 = Ok () s" "cache_inv s" "view s = D" "heldb s = {}" "dirtyb s = {}" "disksize s = 1000" by auto
  have "bio_indep (sb :: fs_st \<Rightarrow> superblock)" "bio_indep (inodes :: fs_st \<Rightarrow> nat \<Rightarrow> inode)" by (simp_all add: bio_indep_def)
  let ?s = "s\<lparr>outstanding := 1, lh_n := 0, lg_size := 31, lh_block := replicate LOGSIZE 0, sb := sbk, inodes := ino\<rparr>"
  have "cache_inv ?s = cache_inv s" "view ?s = view s" "heldb ?s = heldb s" "dirtyb ?s = dirtyb s"
    by (simp_all add: cache_inv_def view_def [abs_def] dirtyb_def heldb_def running_def curpid_def this_proc_def cong: option.case_cong)
  with s have "in_op ?s 10 \<and> view ?s = D \<and> disksize ?s = 1000 \<and> sb ?s = sbk \<and> inodes ?s = ino"
    by (simp add: in_op_def LOGSIZE_def MAXOPBLOCKS_def)
  then show ?thesis by blast
qed

lemma small_used: "b < 1000 \<Longrightarrow> used small_disk small_sb b \<longleftrightarrow> b < 64"
proof -
  assume b: "b < 1000"
  then have bb: "BBLOCK b small_sb = 58" "b mod BPB = b" by (simp_all add: BBLOCK_def BPB_def BSIZE_def small_sb_def)
  have "bit (255 :: byte) i" if "i < 8" for i
  proof -
    have "255 = (mask 8 :: byte)" by (simp add: mask_eq_exp_minus_1)
    with that show ?thesis by (simp only: bit_mask_iff) simp
  qed
  then have "bit ((replicate 8 255 @ replicate 504 (0 :: byte)) ! (b div 8)) (b mod 8) \<longleftrightarrow> b div 8 < 8"
    using b by (simp add: nth_append)
  moreover have "b div 8 < 8 \<longleftrightarrow> b < 64" by auto
  ultimately show ?thesis by (simp add: used_def bb small_disk_def bit_clear_iff)
qed

lemma small_fs_exists: "\<exists>s :: fs_st. map_room 10 s \<and> view s = small_disk \<and> sb s = small_sb \<and> inodes s = ino \<and> disksize s = 1000"
proof -
  have "\<forall>k < 1000. length (small_disk k) = BSIZE" by (simp add: small_disk_def BSIZE_def)
  from boot_fs_exists [OF this] obtain s :: fs_st where
    s: "in_op s 10" "view s = small_disk" "disksize s = 1000" "sb s = small_sb" "inodes s = ino" by blast
  have bb: "BBLOCK b small_sb = 58" if "b < 1000" for b using that by (simp add: BBLOCK_def BPB_def BSIZE_def small_sb_def)
  have "map_ok 1000 small_disk small_sb"
    by (auto simp: map_ok_def bb small_sb_size small_disk_def BSIZE_def)
  moreover have "in_map s b" if "map_block s b" for b
  proof -
    from that obtain c where "c < 1000" "b = BBLOCK c small_sb" unfolding map_block_def s small_sb_size by blast
    then have "b = 58" by (simp only: bb)
    then show ?thesis by (simp add: in_map_def s small_sb_size small_used)
  qed
  ultimately have "map_room 10 s" using s by (simp add: map_room_def)
  with s show ?thesis by blast
qed

theorem balloc_first_free_witness:
  "\<exists>(s :: fs_st) u. view s = small_disk \<and> balloc 1 s = Ok 64 u \<and> view u 64 = replicate BSIZE 0 \<and> in_map u 64"
proof -
  obtain s :: fs_st where s: "map_room 10 s" "view s = small_disk" "sb s = small_sb" using small_fs_exists by blast
  have im: "in_map s b \<longleftrightarrow> b < 64" for b
    using small_used [of b] by (auto simp: in_map_def s small_sb_size)
  have room: "map_room (Suc (Suc 8)) s" using s(1) by simp
  have "\<not> (\<forall>b < sb_size (sb s). in_map s b)" 
  proof -
    have "(64 :: nat) < 1000" "\<not> (64 :: nat) < 64" by simp_all
    then show ?thesis unfolding im s(3) small_sb_size by blast
  qed
  from balloc_first_free [OF room, unfolded if_not_P [OF this], unfolded im] obtain n u where
    n: "balloc 1 s = Ok n u" "\<not> n < 64" "\<forall>m < n. m < 64" "view u n = replicate BSIZE 0" "\<forall>b. in_map u b \<longleftrightarrow> b = n \<or> b < 64"
    by blast
  have "n = 64" using n(2,3) by (metis linorder_neqE_nat less_irrefl)
  with n s(2) show ?thesis by auto
qed

theorem balloc_bfree_roundtrip_witness:
  "\<exists>(s :: fs_st) n u v. balloc 1 s = Ok n u \<and> bfree 1 n u = Ok () v \<and> bfree 1 n v = Panic ''freeing free block''"
proof -
  obtain s :: fs_st where s: "map_room 10 s" "view s = small_disk" "sb s = small_sb" using small_fs_exists by blast
  have op: "in_op s (Suc (Suc 8))" and mo: "map_ok (disksize s) (view s) (sb s)" using s(1) by (simp_all add: map_room_def)
  have "first_free (view s) (sb s) 0 \<noteq> None"
  proof -
    have "64 \<in> set [0..<sb_size small_sb]" "\<not> used small_disk small_sb 64"
      by (simp_all add: small_sb_size small_used)
    then show ?thesis unfolding first_free_def find_None_iff s(2,3) by blast
  qed
  then obtain n u where u: "balloc 1 s = Ok n u" using balloc_spec [OF op mo] by (auto split: option.splits)
  have "map_room (Suc (Suc (Suc (Suc 6)))) s" using s(1) by simp
  from balloc_bfree_roundtrip [OF this u] u show ?thesis by blast
qed

end
