(* ===== verification/FileData.thy ===== *)
theory FileData
  imports FsSpec
begin

text \<open>
  Inodes on disk and the content of files, \<open>iupdate\<close>, \<open>ilock\<close>, \<open>bmap\<close>, \<open>readi\<close> and \<open>writei\<close> of \<open>fs.c\<close>.

  \<open>blk v x bn\<close> is the block number that inode \<open>x\<close> has for its block \<open>bn\<close> when the disk blocks are \<open>v\<close>,
  direct or through the indirect block; \<open>file_byte v x i\<close> is byte \<open>i\<close> of the file.  The abstract file is
  the byte list \<open>map (file_byte v x) [0..<size]\<close>: \<open>readi\<close> reads slices of it, and \<open>writei\<close> inside the file
  overwrites a slice.
\<close>

section \<open>The content of a file\<close>

definition blk :: "(nat \<Rightarrow> byte list) \<Rightarrow> inode \<Rightarrow> nat \<Rightarrow> nat" where
  "blk v x bn = (if bn < NDIRECT then addrs x ! bn else get32 (v (addrs x ! NDIRECT)) (4 * (bn - NDIRECT)))"

definition file_byte :: "(nat \<Rightarrow> byte list) \<Rightarrow> inode \<Rightarrow> nat \<Rightarrow> byte" where
  "file_byte v x i = v (blk v x (i div BSIZE)) ! (i mod BSIZE)"

text \<open>The blocks below \<open>n\<close> are all allocated, on device 1, inside the disk.\<close>

definition has_blocks :: "nat \<Rightarrow> (nat \<Rightarrow> byte list) \<Rightarrow> inode \<Rightarrow> nat \<Rightarrow> bool" where
  "has_blocks dsz v x n \<longleftrightarrow> i_dev x = 1 \<and> n \<le> MAXFILE
     \<and> (\<forall>bn < n. blk v x bn \<noteq> 0 \<and> blk v x bn < dsz \<and> length (v (blk v x bn)) = BSIZE)
     \<and> (NDIRECT < n \<longrightarrow> addrs x ! NDIRECT \<noteq> 0 \<and> addrs x ! NDIRECT < dsz)"

lemma bmap_has_blocks:
  fixes s :: "'z fs_st_scheme"
  assumes op: "in_op s (Suc r)" and hb: "has_blocks (disksize s) (view s) (inodes s ip) n" and bn: "bn < n"
  obtains u where "bmap ip bn s = Ok (blk (view s) (inodes s ip) bn) u" and "in_op u (Suc r)" and "view u = view s" and "log_frame s u"
proof -
  let ?x = "inodes s ip"
  have d: "i_dev ?x = 1" "blk (view s) ?x bn \<noteq> 0" "bn < MAXFILE" using hb bn by (auto simp: has_blocks_def)
  show thesis
  proof (cases "bn < NDIRECT")
    case True
    with d have "bmap ip bn s = Ok (blk (view s) ?x bn) s" by (simp add: bmap_def ip_at_def blk_def)
    then show thesis using that op by simp
  next
    case False
    with hb bn have i: "addrs ?x ! NDIRECT \<noteq> 0" "addrs ?x ! NDIRECT < disksize s" by (auto simp: has_blocks_def)
    obtain b t where t: "bread 1 (addrs ?x ! NDIRECT) s = Ok b t" "opened s (addrs ?x ! NDIRECT) b t"
      by (rule open_block [OF op i(2)])
    obtain u where u: "brelse b t = Ok () u" "in_op u (Suc r)" "view u = view s" "log_frame s u"
      by (rule close_block [OF op t(2)])
    have "bn - NDIRECT < NINDIRECT" using False d(3) by (simp add: MAXFILE_def)
    then have "bmap ip bn s = Ok (blk (view s) ?x bn) u"
      using False d i t(1) bdata_opened [OF t(2)] u(1) by (simp add: bmap_def ip_at_def blk_def Let_def)
    then show thesis using that u by blast
  qed
qed

section \<open>Reading\<close>

lemma within_block:
  assumes "off mod BSIZE + i < BSIZE"
  shows "(off + i) div BSIZE = off div BSIZE" and "(off + i) mod BSIZE = off mod BSIZE + i"
proof -
  have i: "i < BSIZE" using assms by simp
  then show "(off + i) div BSIZE = off div BSIZE" using assms by (simp add: div_add1_eq [of off i])
  show "(off + i) mod BSIZE = off mod BSIZE + i" using assms mod_add_left_eq [of off BSIZE i] by simp
qed

lemma slice_bytes:
  assumes "length b = BSIZE" and "c \<le> BSIZE - off mod BSIZE" and "v (blk v x (off div BSIZE)) = b"
  shows "take c (drop (off mod BSIZE) b) = map (file_byte v x) [off..<off + c]"
proof (rule nth_equalityI)
  show "length (take c (drop (off mod BSIZE) b)) = length (map (file_byte v x) [off..<off + c])" using assms(1,2) by simp
  fix i assume "i < length (take c (drop (off mod BSIZE) b))"
  then have i: "i < c" "off mod BSIZE + i < BSIZE" using assms(1,2) by auto
  with within_block [OF i(2)] i assms(1,3) show "take c (drop (off mod BSIZE) b) ! i = map (file_byte v x) [off..<off + c] ! i"
    by (simp add: file_byte_def)
qed

lemma readi_loop_spec:
  fixes s :: "'z fs_st_scheme"
  assumes "in_op s (Suc r)" and "has_blocks (disksize s) (view s) (inodes s ip) n" and "off + left \<le> n * BSIZE"
  shows "\<exists>u. readi_loop ip off left s = Ok (map (file_byte (view s) (inodes s ip)) [off..<off + left]) u
    \<and> in_op u (Suc r) \<and> view u = view s \<and> log_frame s u"
  using assms
proof (induction ip off left s rule: readi_loop.induct)
  case (1 ip off left s)
  note op = "1.prems"(1) and hb = "1.prems"(2)
  let ?x = "inodes s ip" and ?c = "chunk off left"
  show ?case
  proof (cases "0 < left")
    case False
    then have "readi_loop ip off left s = Ok [] s" by (subst readi_loop.simps) simp
    with op False show ?thesis by simp
  next
    case True
    have bn: "off div BSIZE < n" using "1.prems"(3) True by (simp add: less_mult_imp_div_less)
    let ?k = "blk (view s) ?x (off div BSIZE)"
    have k: "?k < disksize s" "length (view s ?k) = BSIZE" "i_dev ?x = 1" using hb bn by (auto simp: has_blocks_def)
    obtain t where t: "bmap ip (off div BSIZE) s = Ok ?k t" "in_op t (Suc r)" "view t = view s" "log_frame s t"
      by (rule bmap_has_blocks [OF op hb bn])
    note ft = log_frame_fields(1) [OF t(4)] log_frame_fs(2) [OF t(4)]
    have kt: "?k < disksize t" using k(1) ft by simp
    obtain b w where w: "bread 1 ?k t = Ok b w" "opened t ?k b w" by (rule open_block [OF t(2) kt])
    obtain u where u: "brelse b w = Ok () u" "in_op u (Suc r)" "view u = view t" "log_frame t u"
      by (rule close_block [OF t(2) w(2)])
    note fu = log_frame_fields(1) [OF u(4)] log_frame_fs(2) [OF u(4)]
    have hu: "has_blocks (disksize u) (view u) (inodes u ip) n" using hb by (simp add: fu ft u(3) t(3))
    have le: "off + ?c + (left - ?c) \<le> n * BSIZE" using "1.prems"(3) chunk_bounds(2) [of off left] by simp
    from "1.IH" [OF True u(2) hu le] obtain z where
      z: "readi_loop ip (off + ?c) (left - ?c) u = Ok (map (file_byte (view s) ?x) [off + ?c..<off + left]) z"
        "in_op z (Suc r)" "view z = view s" "log_frame u z"
      using chunk_bounds(2) [of off left] by (auto simp: fu ft u(3) t(3))
    have "take ?c (drop (off mod BSIZE) (view s ?k)) = map (file_byte (view s) ?x) [off..<off + ?c]"
      by (rule slice_bytes [OF k(2)]) (simp_all add: chunk_def)
    moreover have "[off..<off + left] = [off..<off + ?c] @ [off + ?c..<off + left]"
      using upt_add_eq_append [of off "off + ?c" "left - ?c"] chunk_bounds(2) [of off left] by simp
    ultimately have "readi_loop ip off left s = Ok (map (file_byte (view s) ?x) [off..<off + left]) z"
      using True t(1) w(1) bdata_opened [OF w(2)] u(1) z(1) k(3)
      by (simp add: readi_loop.simps [of ip off left s] ip_at_def t(3))
    moreover have "log_frame s z" by (rule log_frame_trans [OF log_frame_trans [OF t(4) u(4)] z(4)])
    ultimately show ?thesis using z by simp
  qed
qed

section \<open>Writing inside a file\<close>

text \<open>Different blocks of a file are different blocks on disk, and none of them is its indirect block.\<close>

definition own_blocks :: "(nat \<Rightarrow> byte list) \<Rightarrow> inode \<Rightarrow> nat \<Rightarrow> bool" where
  "own_blocks v x n \<longleftrightarrow> inj_on (blk v x) {..<n} \<and> (NDIRECT < n \<longrightarrow> addrs x ! NDIRECT \<notin> blk v x ` {..<n})"

lemma blk_upd:
  assumes "own_blocks v x n" and "bn < n" and "m < n"
  shows "blk (v(blk v x bn := b)) x m = blk v x m"
proof (cases "m < NDIRECT")
  case False
  with assms have "addrs x ! NDIRECT \<noteq> blk v x bn" by (auto simp: own_blocks_def)
  then show ?thesis by (simp add: blk_def)
qed (simp add: blk_def)

lemma file_byte_upd:
  assumes own: "own_blocks v x n" and off: "off div BSIZE < n" and len: "length (v (blk v x (off div BSIZE))) = BSIZE"
    and ys: "off mod BSIZE + length ys \<le> BSIZE" and i: "i < n * BSIZE"
  shows "file_byte (v(blk v x (off div BSIZE) := bput (v (blk v x (off div BSIZE))) (off mod BSIZE) ys)) x i =
    (if off \<le> i \<and> i < off + length ys then ys ! (i - off) else file_byte v x i)"
proof -
  let ?bn = "off div BSIZE" and ?o = "off mod BSIZE"
  let ?b = "bput (v (blk v x ?bn)) ?o ys"
  have m: "i div BSIZE < n" using i by (simp add: less_mult_imp_div_less)
  have ib: "i mod BSIZE < BSIZE" by (simp add: BSIZE_def)
  have rd: "file_byte (v(blk v x ?bn := ?b)) x i = (if i div BSIZE = ?bn then ?b ! (i mod BSIZE) else file_byte v x i)"
    using own off m by (auto simp: file_byte_def blk_upd [OF own off m] own_blocks_def dest: inj_onD)
  show ?thesis
  proof (cases "i div BSIZE = ?bn")
    case True
    have eq: "i = ?bn * BSIZE + i mod BSIZE" "off = ?bn * BSIZE + ?o" using div_mult_mod_eq [of i BSIZE] div_mult_mod_eq [of off BSIZE] True by simp_all
    have "?o \<le> i mod BSIZE \<longleftrightarrow> off \<le> i" "i mod BSIZE < ?o + length ys \<longleftrightarrow> i < off + length ys" "i mod BSIZE - ?o = i - off"
      using eq by linarith+
    with rd True nth_bput [of ?o ys "v (blk v x ?bn)" "i mod BSIZE"] ys len ib show ?thesis
      by (simp add: file_byte_def)
  next
    case False
    have "\<not> (off \<le> i \<and> i < off + length ys)"
    proof
      assume a: "off \<le> i \<and> i < off + length ys"
      then have "?o + (i - off) < BSIZE" using ys by linarith
      from within_block(1) [OF this] a False show False by simp
    qed
    with rd False show ?thesis by auto
  qed
qed

lemma put_block_then:
  assumes "put_block b f t = Ok () u"
  shows "bnd (bset b f) (\<lambda>_. bnd (log_write b) (\<lambda>_. bnd (brelse b) (\<lambda>_. g))) t = g u"
  using assms by (auto simp: put_block_def bnd_def split: res.splits)

text \<open>The number of blocks that \<open>len\<close> bytes from \<open>off\<close> touch, each of which takes a slot of the log.\<close>

definition nblk :: "nat \<Rightarrow> nat \<Rightarrow> nat" where
  "nblk off len = (if len = 0 then 0 else (off + len - 1) div BSIZE - off div BSIZE + 1)"

lemma nblk_step:
  assumes "0 < len"
  shows "nblk off len = Suc (nblk (off + chunk off len) (len - chunk off len))"
proof (cases "len \<le> BSIZE - off mod BSIZE")
  case True
  then have "chunk off len = len" by (simp add: chunk_def)
  moreover have "(off + (len - 1)) div BSIZE = off div BSIZE"
    by (rule within_block) (use True assms in \<open>simp add: BSIZE_def\<close>)
  ultimately show ?thesis using assms by (simp add: nblk_def)
next
  case False
  then have c: "chunk off len = BSIZE - off mod BSIZE" by (simp add: chunk_def)
  have "off mod BSIZE < BSIZE" by (simp add: BSIZE_def)
  then have "off + chunk off len = (off div BSIZE + 1) * BSIZE" unfolding c distrib_right using div_mult_mod_eq [of off BSIZE] by linarith
  then have d: "(off + chunk off len) div BSIZE = off div BSIZE + 1" by (simp add: BSIZE_def)
  have "off div BSIZE + 1 \<le> (off + len - 1) div BSIZE"
    unfolding d [symmetric] using False c assms by (intro div_le_mono) simp
  then show ?thesis using False c d chunk_bounds(2) [of off len] assms by (simp add: nblk_def)
qed

definition wrote :: "nat \<Rightarrow> inode \<Rightarrow> nat \<Rightarrow> byte list \<Rightarrow> (nat \<Rightarrow> byte list) \<Rightarrow> (nat \<Rightarrow> byte list) \<Rightarrow> bool" where
  "wrote n x off src v v' \<longleftrightarrow>
     (\<forall>i < n * BSIZE. file_byte v' x i = (if off \<le> i \<and> i < off + length src then src ! (i - off) else file_byte v x i))
     \<and> (\<forall>m < n. blk v' x m = blk v x m) \<and> (\<forall>k. k \<notin> blk v x ` {..<n} \<longrightarrow> v' k = v k)
     \<and> (\<forall>m < n. length (v' (blk v x m)) = length (v (blk v x m)))"

lemma wrote_blocks:
  assumes "wrote n x off src v v'"
  shows "has_blocks dsz v x n \<Longrightarrow> has_blocks dsz v' x n" and "own_blocks v x n \<Longrightarrow> own_blocks v' x n"
proof -
  have b: "\<forall>m < n. blk v' x m = blk v x m" "\<forall>m < n. length (v' (blk v x m)) = length (v (blk v x m))"
    using assms by (simp_all add: wrote_def)
  then have im: "blk v' x ` {..<n} = blk v x ` {..<n}" by (intro image_cong) simp_all
  show "has_blocks dsz v x n \<Longrightarrow> has_blocks dsz v' x n" using b by (simp add: has_blocks_def)
  show "own_blocks v x n \<Longrightarrow> own_blocks v' x n" using b im by (auto simp: own_blocks_def inj_on_def)
qed

lemma wrote_trans:
  assumes "wrote n x off a v v'" and "wrote n x (off + length a) b v' v''"
  shows "wrote n x off (a @ b) v v''"
proof -
  have im: "blk v' x ` {..<n} = blk v x ` {..<n}" using assms(1) by (intro image_cong) (simp_all add: wrote_def)
  have "file_byte v'' x i = (if off \<le> i \<and> i < off + length (a @ b) then (a @ b) ! (i - off) else file_byte v x i)" if "i < n * BSIZE" for i
    using assms that by (auto simp: wrote_def nth_append)
  with assms im show ?thesis unfolding wrote_def by auto
qed

lemma wrote_chunk:
  assumes own: "own_blocks v x n" and off: "off div BSIZE < n" and len: "length (v (blk v x (off div BSIZE))) = BSIZE"
    and ys: "off mod BSIZE + length ys \<le> BSIZE"
  shows "wrote n x off ys v (v(blk v x (off div BSIZE) := bput (v (blk v x (off div BSIZE))) (off mod BSIZE) ys))"
  unfolding wrote_def using file_byte_upd [OF own off len ys] blk_upd [OF own off] off len ys by auto

lemma writei_loop_spec:
  fixes s :: "'z fs_st_scheme"
  assumes "in_op s (nblk off (length src) + r)" and "has_blocks (disksize s) (view s) (inodes s ip) n"
    and "own_blocks (view s) (inodes s ip) n" and "off + length src \<le> n * BSIZE"
  shows "\<exists>u. writei_loop ip off src s = Ok () u \<and> in_op u r \<and> log_frame s u
    \<and> wrote n (inodes s ip) off src (view s) (view u)"
  using assms
proof (induction ip off src s rule: writei_loop.induct)
  case (1 ip off src s)
  note hb = "1.prems"(2) and own = "1.prems"(3)
  let ?x = "inodes s ip" and ?c = "chunk off (length src)"
  show ?case
  proof (cases "0 < length src")
    case False
    then have "writei_loop ip off src s = Ok () s" by (subst writei_loop.simps) simp
    with "1.prems"(1) False show ?thesis by (auto simp: nblk_def wrote_def)
  next
    case True
    let ?k = "blk (view s) ?x (off div BSIZE)" and ?ys = "take ?c src" and ?r = "nblk (off + ?c) (length src - ?c) + r"
    have op: "in_op s (Suc ?r)" using "1.prems"(1) nblk_step [OF True, of off] by simp
    have "off < n * BSIZE" using "1.prems"(4) True by linarith
    then have bn: "off div BSIZE < n" by (rule less_mult_imp_div_less)
    have k: "?k < disksize s" "length (view s ?k) = BSIZE" "i_dev ?x = 1" using hb bn by (auto simp: has_blocks_def)
    obtain t where t: "bmap ip (off div BSIZE) s = Ok ?k t" "in_op t (Suc ?r)" "view t = view s" "log_frame s t"
      by (rule bmap_has_blocks [OF op hb bn])
    note ft = log_frame_fields(1) [OF t(4)] log_frame_fs(2) [OF t(4)]
    have kt: "?k < disksize t" using k(1) ft by simp
    obtain b w where w: "bread 1 ?k t = Ok b w" "opened t ?k b w" by (rule open_block [OF t(2) kt])
    have cl: "?c \<le> length src" "length ?ys = ?c" using chunk_bounds(2) [of off "length src"] by simp_all
    have len: "length (bput (view t ?k) (off mod BSIZE) ?ys) = BSIZE"
      using k(2) t(3) cl chunk_bounds(3) [of off "length src"] by simp
    obtain u where u: "put_block b (\<lambda>bs. bput bs (off mod BSIZE) ?ys) w = Ok () u" "in_op u ?r"
      "view u = (view t)(?k := bput (view t ?k) (off mod BSIZE) ?ys)" "log_frame t u"
      by (rule put_block_opened [OF t(2) w(2), where f = "\<lambda>bs. bput bs (off mod BSIZE) ?ys"]) (rule len)
    note fu = log_frame_fields(1) [OF u(4)] log_frame_fs(2) [OF u(4)]
    have wr: "wrote n ?x off ?ys (view s) (view u)"
      unfolding u(3) t(3) by (rule wrote_chunk [OF own bn k(2)]) (use cl chunk_bounds(3) [of off "length src"] in simp)
    have hu: "has_blocks (disksize u) (view u) (inodes u ip) n" "own_blocks (view u) (inodes u ip) n"
      using wrote_blocks [OF wr] hb own by (simp_all add: fu ft)
    have opu: "in_op u (nblk (off + ?c) (length (drop ?c src)) + r)" using u(2) by simp
    have le: "off + ?c + length (drop ?c src) \<le> n * BSIZE" using "1.prems"(4) cl by simp
    from "1.IH" [OF True opu hu le] obtain z where z: "writei_loop ip (off + ?c) (drop ?c src) u = Ok () z"
      "in_op z r" "log_frame u z" "wrote n (inodes u ip) (off + ?c) (drop ?c src) (view u) (view z)" by blast
    have "writei_loop ip off src s = writei_loop ip (off + ?c) (drop ?c src) u"
      using True t(1) w(1) k(3) put_block_then [OF u(1)]
      by (simp add: writei_loop.simps [of ip off src s] ip_at_def)
    moreover have "wrote n ?x off src (view s) (view z)"
      using wrote_trans [OF wr, of "drop ?c src" "view z"] z(4) cl by (simp add: fu ft)
    moreover have "log_frame s z" by (rule log_frame_trans [OF log_frame_trans [OF t(4) u(4)] z(3)])
    ultimately show ?thesis using z by simp
  qed
qed

section \<open>Files as byte lists\<close>

definition file_bytes :: "(nat \<Rightarrow> byte list) \<Rightarrow> inode \<Rightarrow> byte list" where
  "file_bytes v x = map (file_byte v x) [0..<i_size x]"

definition sized_blocks :: "nat \<Rightarrow> (nat \<Rightarrow> byte list) \<Rightarrow> inode \<Rightarrow> nat \<Rightarrow> bool" where
  "sized_blocks dsz v x n \<longleftrightarrow> has_blocks dsz v x n \<and> i_size x \<le> n * BSIZE"

lemma slice_file: "off + m \<le> i_size x \<Longrightarrow> map (file_byte v x) [off..<off + m] = take m (drop off (file_bytes v x))"
  by (simp add: file_bytes_def drop_map take_map take_upt drop_upt)

lemma sized_small: "sized_blocks dsz v x n \<Longrightarrow> i_size x < 2 ^ 32"
proof -
  assume "sized_blocks dsz v x n"
  then have "i_size x \<le> n * BSIZE" "n \<le> MAXFILE" by (auto simp: sized_blocks_def has_blocks_def)
  then have "i_size x \<le> MAXFILE * BSIZE" by (meson le_trans mult_le_mono1)
  then show ?thesis by (simp add: MAXFILE_def NDIRECT_def NINDIRECT_def BSIZE_def)
qed

lemma wrap_less: "off < 2 ^ 32 \<Longrightarrow> n < 2 ^ 32 \<Longrightarrow> (off + n) mod 2 ^ 32 < off \<longleftrightarrow> 2 ^ 32 \<le> off + n" for off n :: nat
proof -
  assume "off < 2 ^ 32" "n < 2 ^ 32"
  moreover have "(off + n) mod 2 ^ 32 = off + n - 2 ^ 32" if "2 ^ 32 \<le> off + n" "off + n < 2 ^ 32 + 2 ^ 32"
    using that by (simp add: le_mod_geq)
  ultimately show ?thesis by (cases "2 ^ 32 \<le> off + n") auto
qed

lemma readi_spec:
  fixes s :: "'z fs_st_scheme"
  assumes "in_op s (Suc r)" and "i_type (inodes s ip) \<noteq> T_DEV" and "sized_blocks (disksize s) (view s) (inodes s ip) nb"
    and "off < 2 ^ 32" and "n < 2 ^ 32"
  shows "\<exists>u. in_op u (Suc r) \<and> view u = view s \<and> log_frame s u \<and> readi dv ip off n s =
    (if i_size (inodes s ip) < off \<or> 2 ^ 32 \<le> off + n then Ok (- 1, []) u
     else Ok (int (length (take n (drop off (file_bytes (view s) (inodes s ip))))),
              take n (drop off (file_bytes (view s) (inodes s ip)))) u)"
proof -
  let ?x = "inodes s ip"
  note w = wrap_less [OF assms(4,5)]
  show ?thesis
  proof (cases "i_size ?x < off \<or> 2 ^ 32 \<le> off + n")
    case True
    with assms(2) w have "readi dv ip off n s = Ok (- 1, []) s" by (simp add: readi_def ip_at_def)
    with True assms(1) show ?thesis by auto
  next
    case False
    define m where "m = (if off + n > i_size ?x then i_size ?x - off else n)"
    have mm: "(off + n) mod 2 ^ 32 = off + n" using False by simp
    have le: "off + m \<le> i_size ?x" using False by (simp add: m_def)
    have sl: "map (file_byte (view s) ?x) [off..<off + m] = take n (drop off (file_bytes (view s) ?x))"
      unfolding slice_file [OF le] by (auto simp: m_def file_bytes_def)
    have hb: "has_blocks (disksize s) (view s) ?x nb" "off + m \<le> nb * BSIZE" using assms(3) le by (auto simp: sized_blocks_def)
    from readi_loop_spec [OF assms(1) hb] obtain u where
      u: "readi_loop ip off m s = Ok (map (file_byte (view s) ?x) [off..<off + m]) u" "in_op u (Suc r)" "view u = view s" "log_frame s u" by blast
    have "m = length (map (file_byte (view s) ?x) [off..<off + m])" by simp
    then have ml: "m = length (take n (drop off (file_bytes (view s) ?x)))" unfolding sl .
    have "readi dv ip off n s = bnd (readi_loop ip off m) (\<lambda>bs. ret (int m, bs)) s"
      using assms(2) False w unfolding readi_def ip_at_def bnd_def getk_def mm Let_def
      by (cases "off + n > i_size ?x") (simp_all add: m_def split: res.split)
    then have "readi dv ip off n s = Ok (int m, take n (drop off (file_bytes (view s) ?x))) u"
      using u(1) unfolding sl by simp
    with u(2-4) False show ?thesis unfolding ml [symmetric] by auto
  qed
qed

text \<open>C28. Reading a file: readi returns exactly the slice of the file's bytes from off, at most n of them and cut
  at the end of the file, and refuses an offset beyond the end or a sum that wraps; the disk contents
  and the log are left as they were.\<close>

theorem readi_slice:
  fixes s :: "'z fs_st_scheme"
  assumes "in_op s (Suc r)" and "i_type (inodes s ip) \<noteq> T_DEV" and "sized_blocks (disksize s) (view s) (inodes s ip) nb"
    and "off < 2 ^ 32" and "n < 2 ^ 32"
  shows "\<exists>u. in_op u (Suc r) \<and> view u = view s \<and> log_frame s u \<and> readi dv ip off n s =
    (if i_size (inodes s ip) < off \<or> 2 ^ 32 \<le> off + n then Ok (- 1, []) u
     else Ok (int (length (take n (drop off (file_bytes (view s) (inodes s ip))))),
              take n (drop off (file_bytes (view s) (inodes s ip)))) u)"
  using assms by (rule readi_spec)

lemma writei_spec:
  fixes s :: "'z fs_st_scheme"
  assumes "in_op s (nblk off (length src) + r)" and "i_type (inodes s ip) \<noteq> T_DEV"
    and "sized_blocks (disksize s) (view s) (inodes s ip) nb" and "own_blocks (view s) (inodes s ip) nb"
    and "off + length src \<le> i_size (inodes s ip)"
  shows "\<exists>u. writei dv ip off src s = Ok (int (length src)) u \<and> in_op u r \<and> log_frame s u
    \<and> file_bytes (view u) (inodes u ip) = bput (file_bytes (view s) (inodes s ip)) off src
    \<and> (\<forall>k. k \<notin> blk (view s) (inodes s ip) ` {..<nb} \<longrightarrow> view u k = view s k)"
proof -
  let ?x = "inodes s ip" and ?n = "length src"
  have sm: "(off + ?n) mod 2 ^ 32 = off + ?n" using sized_small [OF assms(3)] assms(5) by simp
  have hb: "has_blocks (disksize s) (view s) ?x nb" "off + ?n \<le> nb * BSIZE" "i_size ?x \<le> nb * BSIZE" "nb \<le> MAXFILE"
    using assms(3,5) by (auto simp: sized_blocks_def has_blocks_def)
  from writei_loop_spec [OF assms(1) hb(1) assms(4) hb(2)] obtain u where
    u: "writei_loop ip off src s = Ok () u" "in_op u r" "log_frame s u" "wrote nb ?x off src (view s) (view u)" by blast
  note fu = log_frame_fs(2) [OF u(3)]
  have "off + ?n \<le> MAXFILE * BSIZE" using hb(2,4) by (meson le_trans mult_le_mono1)
  then have run: "writei dv ip off src s = Ok (int ?n) u"
    using assms(2,5) u(1) unfolding writei_def ip_at_def bnd_def getk_def sm Let_def by (simp add: fu)
  have "file_bytes (view u) ?x = bput (file_bytes (view s) ?x) off src"
  proof (rule nth_equalityI)
    show "length (file_bytes (view u) ?x) = length (bput (file_bytes (view s) ?x) off src)"
      using assms(5) by (simp add: file_bytes_def)
    fix i assume "i < length (file_bytes (view u) ?x)"
    then have i: "i < i_size ?x" "i < nb * BSIZE" using hb(3) by (simp_all add: file_bytes_def)
    then show "file_bytes (view u) ?x ! i = bput (file_bytes (view s) ?x) off src ! i"
      using u(4) assms(5) nth_bput [of off src "file_bytes (view s) ?x" i] by (simp add: file_bytes_def wrote_def)
  qed
  with run u fu show ?thesis by (auto simp: wrote_def)
qed

text \<open>C29. Writing inside a file: with room in the log for the blocks it touches, writei overwrites exactly the
  given slice of the file's bytes and changes no block that is not the file's.\<close>

theorem writei_overwrites:
  fixes s :: "'z fs_st_scheme"
  assumes "in_op s (nblk off (length src) + r)" and "i_type (inodes s ip) \<noteq> T_DEV"
    and "sized_blocks (disksize s) (view s) (inodes s ip) nb" and "own_blocks (view s) (inodes s ip) nb"
    and "off + length src \<le> i_size (inodes s ip)"
  shows "\<exists>u. writei dv ip off src s = Ok (int (length src)) u \<and> in_op u r \<and> log_frame s u
    \<and> file_bytes (view u) (inodes u ip) = bput (file_bytes (view s) (inodes s ip)) off src
    \<and> (\<forall>k. k \<notin> blk (view s) (inodes s ip) ` {..<nb} \<longrightarrow> view u k = view s k)"
  using assms by (rule writei_spec)

section \<open>A small file for the witnesses\<close>

definition tiny_inode :: inode where
  "tiny_inode = \<lparr>i_dev = 1, i_inum = 2, i_ref = 1, i_valid = True, i_type = T_FILE, i_major = 0, i_minor = 0,
     i_nlink = 1, i_size = 5, addrs = 60 # replicate 12 0\<rparr>"

definition tiny_disk :: "nat \<Rightarrow> byte list" where
  "tiny_disk k = (if k = 60 then [1, 2, 3, 4, 5] @ replicate 507 0 else replicate 512 0)"

lemma tiny_blocks: "sized_blocks 1000 tiny_disk tiny_inode 1" "own_blocks tiny_disk tiny_inode 1"
  by (simp_all add: sized_blocks_def has_blocks_def own_blocks_def blk_def tiny_inode_def tiny_disk_def NDIRECT_def
      MAXFILE_def NINDIRECT_def BSIZE_def inj_on_def)

lemma tiny_bytes: "file_bytes tiny_disk tiny_inode = [1, 2, 3, 4, 5]"
  by (simp add: file_bytes_def file_byte_def blk_def tiny_inode_def tiny_disk_def NDIRECT_def BSIZE_def upt_rec)

lemma tiny_fs_exists:
  "\<exists>s :: fs_st. in_op s 10 \<and> view s = tiny_disk \<and> disksize s = 1000 \<and> inodes s = (\<lambda>_. tiny_inode)"
proof -
  have "\<forall>k < 1000. length (tiny_disk k) = BSIZE" by (simp add: tiny_disk_def BSIZE_def)
  from boot_fs_exists [OF this, of undefined "\<lambda>_. tiny_inode"] show ?thesis by blast
qed

theorem readi_slice_witness:
  "\<exists>(s :: fs_st) u. view s = tiny_disk \<and> readi (\<lambda>_. None) 0 3 10 s = Ok (2, [4, 5]) u \<and> view u = view s"
proof -
  obtain s :: fs_st where s: "in_op s (Suc 9)" "view s = tiny_disk" "disksize s = 1000" "inodes s = (\<lambda>_. tiny_inode)"
    using tiny_fs_exists by auto
  have b: "sized_blocks (disksize s) (view s) (inodes s 0) 1" using tiny_blocks(1) s by simp
  have ty: "i_type (inodes s 0) \<noteq> T_DEV" "i_size (inodes s 0) = 5" by (simp_all add: s tiny_inode_def T_FILE_def T_DEV_def)
  have "(3 :: nat) < 2 ^ 32" "(10 :: nat) < 2 ^ 32" by simp_all
  from readi_slice [OF s(1) ty(1) b this, of "\<lambda>_. None"] show ?thesis using s ty(2) tiny_bytes by auto
qed

theorem writei_overwrites_witness:
  "\<exists>(s :: fs_st) u. view s = tiny_disk \<and> writei (\<lambda>_. None) 0 1 [7, 8] s = Ok 2 u
     \<and> file_bytes (view u) (inodes u 0) = [1, 7, 8, 4, 5]"
proof -
  obtain s :: fs_st where s: "in_op s 10" "view s = tiny_disk" "disksize s = 1000" "inodes s = (\<lambda>_. tiny_inode)"
    using tiny_fs_exists by auto
  have "nblk 1 (length [7, 8 :: byte]) = 1" by (simp add: nblk_def BSIZE_def)
  then have op: "in_op s (nblk 1 (length [7, 8 :: byte]) + 9)" using s(1) by simp
  have b: "sized_blocks (disksize s) (view s) (inodes s 0) 1" "own_blocks (view s) (inodes s 0) 1" using tiny_blocks s by simp_all
  have ty: "i_type (inodes s 0) \<noteq> T_DEV" "1 + length [7, 8 :: byte] \<le> i_size (inodes s 0)"
    by (simp_all add: s tiny_inode_def T_FILE_def T_DEV_def)
  have "bput (file_bytes (view s) (inodes s 0)) 1 [7, 8] = [1, 7, 8, 4, 5]" by (simp add: s tiny_bytes bput_def)
  with writei_overwrites [OF op ty(1) b ty(2), of "\<lambda>_. None"] s(2) show ?thesis by auto
qed

end
