(* ===== verification/Inodes.thy ===== *)
theory Inodes
  imports FsSpec
begin

text \<open>
  Inodes on disk: \<open>iupdate\<close> writes the 64 bytes of \<open>struct dinode\<close> that \<open>ilock\<close> reads back.

  \<open>enc_inode x\<close> is the reference encoding.  \<open>put_inode\<close>, the field-by-field copy of \<open>iupdate\<close>, puts exactly
  these bytes at the inode's offset, and \<open>dec_inode\<close>, the copy of \<open>ilock\<close>, inverts it for every inode whose
  fields fit their C types.
\<close>

section \<open>Fields in byte lists\<close>

lemma bput_bput:
  assumes "k + length xs + length ys \<le> length bs"
  shows "bput (bput bs k xs) (k + length xs) ys = bput bs k (xs @ ys)"
  using assms by (simp add: bput_def ac_simps)

lemma nth_bput_in: "k + length ys \<le> length bs \<Longrightarrow> i < length ys \<Longrightarrow> bput bs k ys ! (k + i) = ys ! i"
  by (simp add: nth_bput)

lemma nth_bput_out: "k + length ys \<le> length bs \<Longrightarrow> i < length bs \<Longrightarrow> i < k \<or> k + length ys \<le> i \<Longrightarrow> bput bs k ys ! i = bs ! i"
  by (auto simp: nth_bput)

lemma get_bput_in:
  assumes "k + length ys \<le> length bs"
  shows "j + 2 \<le> length ys \<Longrightarrow> get16 (bput bs k ys) (k + j) = get16 ys j"
    and "j + 4 \<le> length ys \<Longrightarrow> get32 (bput bs k ys) (k + j) = get32 ys j"
  using nth_bput_in [OF assms, of j] nth_bput_in [OF assms, of "j + 1"] nth_bput_in [OF assms, of "j + 2"]
    nth_bput_in [OF assms, of "j + 3"]
  by (simp_all add: get16_def get32_def add.assoc)

lemma get_bput_out:
  assumes "k + length ys \<le> length bs"
  shows "j + 2 \<le> length bs \<Longrightarrow> j + 2 \<le> k \<or> k + length ys \<le> j \<Longrightarrow> get16 (bput bs k ys) j = get16 bs j"
    and "j + 4 \<le> length bs \<Longrightarrow> j + 4 \<le> k \<or> k + length ys \<le> j \<Longrightarrow> get32 (bput bs k ys) j = get32 bs j"
  using nth_bput_out [OF assms, of j] nth_bput_out [OF assms, of "j + 1"] nth_bput_out [OF assms, of "j + 2"]
    nth_bput_out [OF assms, of "j + 3"]
  by (auto simp: get16_def get32_def)

lemma get_append:
  "get16 (xs @ ys) (length xs + j) = get16 ys j" "get32 (xs @ ys) (length xs + j) = get32 ys j"
  by (simp_all add: get16_def get32_def nth_append)

lemma get16_enc16: "v < 2 ^ 16 \<Longrightarrow> get16 (enc16 v @ ys) 0 = v"
proof -
  assume "v < 2 ^ 16"
  then have "v mod 256 + 256 * (v div 256 mod 256) = v" by simp
  then show ?thesis by (simp add: get16_def enc16_def unat_of_nat)
qed

lemma get32_enc32_app: "v < 2 ^ 32 \<Longrightarrow> get32 (enc32 v @ ys) 0 = v"
  using get32_enc32 [of v] by (simp add: get32_def nth_append enc32_def)

lemma length_enc16 [simp]: "length (enc16 v) = 2"
  by (simp add: enc16_def)

section \<open>The encoding of an inode\<close>

definition enc_addrs :: "nat list \<Rightarrow> byte list" where
  "enc_addrs xs = concat (map enc32 xs)"

definition enc_inode :: "inode \<Rightarrow> byte list" where
  "enc_inode x = enc16 (u16 (i_type x)) @ enc16 (u16 (i_major x)) @ enc16 (u16 (i_minor x)) @ enc16 (u16 (i_nlink x))
     @ enc32 (i_size x) @ enc_addrs (addrs x)"

text \<open>The fields fit their types: \<open>short\<close>, \<open>uint\<close> and an array of 13 block numbers.\<close>

definition fits16 :: "int \<Rightarrow> bool" where
  "fits16 i \<longleftrightarrow> - (2 ^ 15) \<le> i \<and> i < 2 ^ 15"

definition inode_fits :: "inode \<Rightarrow> bool" where
  "inode_fits x \<longleftrightarrow> fits16 (i_type x) \<and> fits16 (i_major x) \<and> fits16 (i_minor x) \<and> fits16 (i_nlink x) \<and> i_size x < 2 ^ 32
     \<and> length (addrs x) = NDIRECT + 1 \<and> (\<forall>a \<in> set (addrs x). a < 2 ^ 32)"

lemma s16_u16: "fits16 i \<Longrightarrow> s16 (u16 i) = i" and u16_less: "u16 i < 2 ^ 16"
proof -
  show "u16 i < 2 ^ 16" by (simp add: u16_def nat_less_iff)
  assume f: "fits16 i"
  show "s16 (u16 i) = i"
  proof (cases "0 \<le> i")
    case True
    with f have "i mod 2 ^ 16 = i" by (intro mod_pos_pos_trivial) (auto simp: fits16_def)
    with True f show ?thesis by (simp add: s16_def u16_def fits16_def nat_less_iff)
  next
    case False
    have "i mod 2 ^ 16 = (i + 2 ^ 16) mod 2 ^ 16" by simp
    also have "\<dots> = i + 2 ^ 16" using False f by (intro mod_pos_pos_trivial) (auto simp: fits16_def)
    finally have "i mod 2 ^ 16 = i + 2 ^ 16" .
    with False f show ?thesis by (simp add: s16_def u16_def fits16_def nat_less_iff)
  qed
qed

lemma length_enc_addrs [simp]: "length (enc_addrs xs) = 4 * length xs"
  by (induction xs) (simp_all add: enc_addrs_def)

lemma get32_enc_addrs:
  "i < length xs \<Longrightarrow> \<forall>a \<in> set xs. a < 2 ^ 32 \<Longrightarrow> get32 (enc_addrs xs) (4 * i) = xs ! i"
proof (induction xs arbitrary: i)
  case (Cons x xs)
  have e: "enc_addrs (x # xs) = enc32 x @ enc_addrs xs" by (simp add: enc_addrs_def)
  show ?case
  proof (cases i)
    case 0
    then show ?thesis using Cons.prems(2) get32_enc32_app [of x "enc_addrs xs"] by (simp add: e)
  next
    case (Suc j)
    then show ?thesis using Cons.IH [of j] Cons.prems get_append(2) [of "enc32 x" "enc_addrs xs" "4 * j"] by (simp add: e)
  qed
qed simp

lemma put_addrs_bput:
  "k + 4 * length xs \<le> length bs \<Longrightarrow> put_addrs bs k xs = bput bs k (enc_addrs xs)"
proof (induction xs arbitrary: bs k)
  case Nil
  then show ?case by (simp add: enc_addrs_def bput_def)
next
  case (Cons x xs)
  have e: "enc_addrs (x # xs) = enc32 x @ enc_addrs xs" by (simp add: enc_addrs_def)
  show ?case using Cons bput_bput [of k "enc32 x" "enc_addrs xs" bs] by (simp add: e put32_def)
qed

lemma length_enc_inode: "length (addrs x) = NDIRECT + 1 \<Longrightarrow> length (enc_inode x) = 64"
  by (simp add: enc_inode_def NDIRECT_def)

lemma put_inode_bput:
  assumes "length (addrs x) = NDIRECT + 1" and "k + 64 \<le> length bs"
  shows "put_inode x k bs = bput bs k (enc_inode x)"
proof -
  let ?e = "\<lambda>i. enc16 (u16 i)"
  have l: "4 * length (addrs x) = 52" using assms(1) by (simp add: NDIRECT_def)
  have b: "put16 (bput bs k ys) (k + length ys) v = bput bs k (ys @ enc16 v)" if "length ys \<le> 62" for ys v
    using that assms(2) bput_bput [of k ys "enc16 v" bs] by (simp add: put16_def)
  have "put16 (put16 (put16 (put16 bs k (u16 (i_type x))) (k + 2) (u16 (i_major x))) (k + 4) (u16 (i_minor x))) (k + 6) (u16 (i_nlink x))
      = bput bs k (?e (i_type x) @ ?e (i_major x) @ ?e (i_minor x) @ ?e (i_nlink x))" (is "_ = bput bs k ?h")
    using b [of "?e (i_type x)"] b [of "?e (i_type x) @ ?e (i_major x)"] b [of "?e (i_type x) @ ?e (i_major x) @ ?e (i_minor x)"]
    by (simp add: put16_def)
  moreover have "put32 (bput bs k ?h) (k + 8) (i_size x) = bput bs k (?h @ enc32 (i_size x))"
    using bput_bput [of k ?h "enc32 (i_size x)" bs] assms(2) by (simp add: put32_def)
  moreover have "put_addrs (bput bs k (?h @ enc32 (i_size x))) (k + 12) (addrs x) = bput bs k ((?h @ enc32 (i_size x)) @ enc_addrs (addrs x))"
    using bput_bput [of k "?h @ enc32 (i_size x)" "enc_addrs (addrs x)" bs] assms(2) l
      put_addrs_bput [of "k + 12" "addrs x" "bput bs k (?h @ enc32 (i_size x))"] by simp
  ultimately show ?thesis by (simp add: put_inode_def enc_inode_def)
qed

section \<open>Round trip\<close>

lemma dec_enc_inode:
  assumes f: "inode_fits x"
  shows "get16 (enc_inode x) 0 = u16 (i_type x)" and "get16 (enc_inode x) 2 = u16 (i_major x)"
    and "get16 (enc_inode x) 4 = u16 (i_minor x)" and "get16 (enc_inode x) 6 = u16 (i_nlink x)"
    and "get32 (enc_inode x) 8 = i_size x" and "i < NDIRECT + 1 \<Longrightarrow> get32 (enc_inode x) (12 + 4 * i) = addrs x ! i"
proof -
  let ?e = "\<lambda>i. enc16 (u16 i)"
  let ?t4 = "enc32 (i_size x) @ enc_addrs (addrs x)"
  let ?t3 = "?e (i_nlink x) @ ?t4" and ?h = "?e (i_type x) @ ?e (i_major x) @ ?e (i_minor x) @ ?e (i_nlink x)"
  have e: "enc_inode x = ?e (i_type x) @ ?e (i_major x) @ ?e (i_minor x) @ ?t3" by (simp add: enc_inode_def)
  show "get16 (enc_inode x) 0 = u16 (i_type x)" unfolding e by (rule get16_enc16 [OF u16_less])
  show "get16 (enc_inode x) 2 = u16 (i_major x)"
    unfolding e using get_append(1) [of "?e (i_type x)" _ 0] get16_enc16 [OF u16_less] by simp
  show "get16 (enc_inode x) 4 = u16 (i_minor x)"
    unfolding e using get_append(1) [of "?e (i_type x) @ ?e (i_major x)" _ 0] get16_enc16 [OF u16_less] by simp
  show "get16 (enc_inode x) 6 = u16 (i_nlink x)"
    unfolding e using get_append(1) [of "?e (i_type x) @ ?e (i_major x) @ ?e (i_minor x)" _ 0] get16_enc16 [OF u16_less] by simp
  show "get32 (enc_inode x) 8 = i_size x"
    unfolding e using get_append(2) [of ?h _ 0] get32_enc32_app [of "i_size x"] f by (simp add: inode_fits_def)
  show "get32 (enc_inode x) (12 + 4 * i) = addrs x ! i" if "i < NDIRECT + 1"
    unfolding e using get_append(2) [of "?h @ enc32 (i_size x)" "enc_addrs (addrs x)" "4 * i"] get32_enc_addrs [of i "addrs x"] f that
    by (simp add: inode_fits_def)
qed

lemma dec_put_inode:
  assumes f: "inode_fits x" and k: "k + 64 \<le> length bs"
  shows "dec_inode (put_inode x k bs) k x = x"
proof -
  have l: "length (addrs x) = NDIRECT + 1" using f by (simp add: inode_fits_def)
  note E = dec_enc_inode [OF f] and len = length_enc_inode [OF l]
  have kb: "k + length (enc_inode x) \<le> length bs" using k len by simp
  note G = get_bput_in [OF kb, folded put_inode_bput [OF l k], unfolded len]
  have "map (\<lambda>i. get32 (put_inode x k bs) (k + 12 + 4 * i)) [0..<NDIRECT + 1] = map ((!) (addrs x)) [0..<NDIRECT + 1]"
    using G(2) [of "12 + 4 * _"] E(6) by (intro map_cong refl) (simp add: NDIRECT_def add.assoc)
  also have "map ((!) (addrs x)) [0..<NDIRECT + 1] = addrs x" unfolding l [symmetric] by (rule map_nth)
  finally show ?thesis
    using G(1) [of 0] G(1) [of 2] G(1) [of 4] G(1) [of 6] G(2) [of 8] E(1-5) f
    by (simp add: dec_inode_def s16_u16 inode_fits_def del: upt_Suc)
qed

lemma dec_inode_other:
  assumes l: "length (addrs x) = NDIRECT + 1" and k: "k + 64 \<le> length bs" and j: "j + 64 \<le> length bs" "j + 64 \<le> k \<or> k + 64 \<le> j"
  shows "dec_inode (put_inode x k bs) j y = dec_inode bs j y"
proof -
  note len = length_enc_inode [OF l]
  have kb: "k + length (enc_inode x) \<le> length bs" using k len by simp
  note G = get_bput_out [OF kb, folded put_inode_bput [OF l k], unfolded len]
  have "map (\<lambda>i. get32 (put_inode x k bs) (j + 12 + 4 * i)) [0..<NDIRECT + 1] = map (\<lambda>i. get32 bs (j + 12 + 4 * i)) [0..<NDIRECT + 1]"
    by (intro map_cong refl G(2)) (use j in \<open>auto simp: NDIRECT_def\<close>)
  moreover have "get16 (put_inode x k bs) j = get16 bs j" "get16 (put_inode x k bs) (j + 2) = get16 bs (j + 2)"
    "get16 (put_inode x k bs) (j + 4) = get16 bs (j + 4)" "get16 (put_inode x k bs) (j + 6) = get16 bs (j + 6)"
    "get32 (put_inode x k bs) (j + 8) = get32 bs (j + 8)"
    by (rule G; use j in auto)+
  ultimately show ?thesis by (simp only: dec_inode_def)
qed

lemma doff_bounds: "doff i + 64 \<le> BSIZE" and doff_apart: "i mod IPB \<noteq> j mod IPB \<Longrightarrow> doff i + 64 \<le> doff j \<or> doff j + 64 \<le> doff i"
proof -
  have "i mod IPB < 8" by (simp add: IPB_def BSIZE_def)
  then show "doff i + 64 \<le> BSIZE" by (simp add: doff_def BSIZE_def)
  assume "i mod IPB \<noteq> j mod IPB"
  then show "doff i + 64 \<le> doff j \<or> doff j + 64 \<le> doff i" unfolding doff_def by linarith
qed

text \<open>\<open>iupdate\<close> writes the encoded inode into its slot of the inode block.\<close>

lemma iupdate_spec:
  fixes s :: "'z fs_st_scheme"
  assumes op: "in_op s (Suc r)" and x: "length (addrs (inodes s ip)) = NDIRECT + 1" "i_dev (inodes s ip) = 1"
    and ib: "IBLOCK (i_inum (inodes s ip)) (sb s) < disksize s" "length (view s (IBLOCK (i_inum (inodes s ip)) (sb s))) = BSIZE"
  obtains u where "iupdate ip s = Ok () u" and "in_op u r" and "log_frame s u"
    and "view u = (view s)(IBLOCK (i_inum (inodes s ip)) (sb s) :=
      put_inode (inodes s ip) (doff (i_inum (inodes s ip))) (view s (IBLOCK (i_inum (inodes s ip)) (sb s))))"
    and "length (view u (IBLOCK (i_inum (inodes s ip)) (sb s))) = BSIZE"
proof -
  let ?x = "inodes s ip"
  let ?n = "i_inum ?x"
  let ?k = "IBLOCK ?n (sb s)"
  have d: "doff ?n + 64 \<le> length (view s ?k)" using doff_bounds [of ?n] ib(2) by simp
  have lp: "length (put_inode ?x (doff ?n) (view s ?k)) = BSIZE"
    unfolding put_inode_bput [OF x(1) d] using d ib(2) length_enc_inode [OF x(1)] by simp
  obtain b t where t: "bread 1 ?k s = Ok b t" "opened s ?k b t" by (rule open_block [OF op ib(1)])
  obtain u where u: "put_block b (put_inode ?x (doff ?n)) t = Ok () u" "in_op u r"
    "view u = (view s)(?k := put_inode ?x (doff ?n) (view s ?k))" "log_frame s u"
    by (rule put_block_opened [OF op t(2), where f = "put_inode ?x (doff ?n)"]) (rule lp)
  have "iupdate ip s = Ok () u" using t(1) x(2) u(1) by (simp add: iupdate_def ip_at_def put_block_def)
  then show thesis using that u lp by simp
qed

text \<open>C30. Inodes survive the trip to disk: after iupdate the inode block decodes, as ilock decodes it, to the
  inode in memory, and every other inode on disk decodes to what it was; no other block changes.\<close>

theorem iupdate_stores:
  fixes s :: "'z fs_st_scheme"
  assumes op: "in_op s (Suc r)" and x: "inode_fits (inodes s ip)" "i_dev (inodes s ip) = 1"
    and ib: "IBLOCK (i_inum (inodes s ip)) (sb s) < disksize s" "length (view s (IBLOCK (i_inum (inodes s ip)) (sb s))) = BSIZE"
  shows "\<exists>u. iupdate ip s = Ok () u \<and> in_op u r \<and> log_frame s u
    \<and> dec_inode (view u (IBLOCK (i_inum (inodes s ip)) (sb s))) (doff (i_inum (inodes s ip))) (inodes s ip) = inodes s ip
    \<and> (\<forall>j y. j \<noteq> i_inum (inodes s ip) \<longrightarrow> dec_inode (view u (IBLOCK j (sb s))) (doff j) y = dec_inode (view s (IBLOCK j (sb s))) (doff j) y)
    \<and> (\<forall>k. k \<noteq> IBLOCK (i_inum (inodes s ip)) (sb s) \<longrightarrow> view u k = view s k)"
proof -
  let ?x = "inodes s ip"
  let ?n = "i_inum ?x"
  let ?k = "IBLOCK ?n (sb s)"
  have l: "length (addrs ?x) = NDIRECT + 1" using x(1) by (simp add: inode_fits_def)
  have d: "doff i + 64 \<le> length (view s ?k)" for i using doff_bounds [of i] ib(2) by simp
  obtain u where u: "iupdate ip s = Ok () u" "in_op u r" "log_frame s u"
    "view u = (view s)(?k := put_inode ?x (doff ?n) (view s ?k))" by (rule iupdate_spec [OF op l x(2) ib])
  have "dec_inode (view u (IBLOCK j (sb s))) (doff j) y = dec_inode (view s (IBLOCK j (sb s))) (doff j) y" if "j \<noteq> ?n" for j y
  proof (cases "IBLOCK j (sb s) = ?k")
    case True
    then have "j div IPB = ?n div IPB" by (simp add: IBLOCK_def)
    with that have "j mod IPB \<noteq> ?n mod IPB" by (metis div_mult_mod_eq)
    then have "dec_inode (put_inode ?x (doff ?n) (view s ?k)) (doff j) y = dec_inode (view s ?k) (doff j) y"
      by (intro dec_inode_other [OF l d d]) (rule doff_apart)
    with True show ?thesis by (simp add: u(4))
  qed (simp add: u(4))
  moreover have "dec_inode (view u ?k) (doff ?n) ?x = ?x" unfolding u(4) using dec_put_inode [OF x(1) d] by simp
  ultimately show ?thesis using u by (intro exI [of _ u]) auto
qed

theorem iupdate_stores_witness:
  "\<exists>(s :: fs_st) u x. iupdate 0 s = Ok () u \<and> inodes s 0 = x \<and> i_nlink x = - 3 \<and> dec_inode (view u 32) 128 x = x"
proof -
  define x where "x = \<lparr>i_dev = 1, i_inum = 2, i_ref = 1, i_valid = True, i_type = T_FILE, i_major = 0, i_minor = 0,
     i_nlink = - 3, i_size = 5, addrs = 60 # replicate 12 0\<rparr>"
  obtain s :: fs_st where s: "map_room 10 s" "view s = small_disk" "sb s = small_sb" "inodes s = (\<lambda>_. x)" "disksize s = 1000"
    using small_fs_exists by blast
  have op: "in_op s (Suc 9)" using s(1) by (simp add: map_room_def)
  have k: "IBLOCK (i_inum (inodes s 0)) (sb s) = 32" "doff (i_inum (inodes s 0)) = 128"
    by (simp_all add: s x_def IBLOCK_def small_sb_def IPB_def BSIZE_def doff_def)
  have "inode_fits (inodes s 0)" "i_dev (inodes s 0) = 1"
    by (simp_all add: s x_def inode_fits_def fits16_def T_FILE_def NDIRECT_def)
  moreover have "IBLOCK (i_inum (inodes s 0)) (sb s) < disksize s" "length (view s (IBLOCK (i_inum (inodes s 0)) (sb s))) = BSIZE"
    unfolding k by (simp_all add: s small_disk_def BSIZE_def)
  ultimately obtain u where "iupdate 0 s = Ok () u" "dec_inode (view u 32) 128 (inodes s 0) = inodes s 0"
    using iupdate_stores [OF op, of 0] unfolding k by blast
  moreover have "inodes s 0 = x" "i_nlink x = - 3" by (simp_all add: s x_def)
  ultimately show ?thesis by metis
qed

end
