(* ===== verification/VmSpec.thy ===== *)
theory VmSpec
  imports Vm
begin

text \<open>
  What the page-table code of \<open>vm.c\<close> guarantees.

  \<open>pte_of m pd va\<close> reads the entry for \<open>va\<close> through the directory at \<open>pd\<close> (0 when there is no
  page table), so \<open>translate\<close> is a function of it.  \<open>pt_ok s pd xs\<close> is the invariant of a page
  directory beside a free list \<open>xs\<close>: the directory and the page tables it names are managed
  pages, pairwise distinct and not free.  \<open>walkpgdir\<close> keeps it and never changes \<open>pte_of\<close>;
  storing into the entry it returns changes \<open>pte_of\<close> for exactly one page.  From these two
  facts follow what \<open>mappages\<close> does to \<open>translate\<close> and that its loop ends.
\<close>

section \<open>Arithmetic of entries\<close>

lemma mask12: "(0xFFF :: uint32) = mask 12"
  by (simp add: mask_eq_exp_minus_1)

definition flags_only :: "uint32 \<Rightarrow> bool" where
  "flags_only f \<longleftrightarrow> f AND NOT 0xFFF = 0"

lemma flags_bits: "flags_only f \<Longrightarrow> bit f n \<Longrightarrow> n < 12"
proof (rule ccontr)
  assume f: "flags_only f" and b: "bit f n" and n: "\<not> n < 12"
  have "n < 32" using b by (rule bit_imp_le_length [where 'a = 32, simplified])
  with b n have "bit (f AND NOT 0xFFF) n" by (simp only: mask12) (simp add: bit_simps)
  with f show False by (simp add: flags_only_def)
qed

lemma aligned_bits:
  assumes "x mod PGSIZE = 0" and "bit (of_nat x :: uint32) n"
  shows "12 \<le> n"
proof (rule ccontr)
  assume "\<not> 12 \<le> n"
  with assms(2) have "bit (take_bit 12 (of_nat x :: uint32)) n" by (simp add: bit_take_bit_iff)
  moreover have "take_bit 12 (of_nat x :: uint32) = of_nat (take_bit 12 x)" by (simp add: take_bit_of_nat)
  moreover have "take_bit 12 x = 0" using assms(1) by (simp add: take_bit_eq_mod PGSIZE_def)
  ultimately show False by simp
qed

lemma PTE_ADDR_mk:
  assumes "x mod PGSIZE = 0" and "x < 2 ^ 32" and "flags_only f"
  shows "PTE_ADDR (of_nat x OR f) = x"
proof -
  have "(of_nat x OR f) AND NOT 0xFFF = (of_nat x :: uint32)"
  proof (rule bit_word_eqI)
    fix n assume "n < LENGTH(32)"
    then show "bit ((of_nat x OR f) AND NOT 0xFFF) n = bit (of_nat x :: uint32) n"
      using aligned_bits [OF assms(1), of n] flags_bits [OF assms(3), of n]
      by (simp only: mask12) (auto simp: bit_or_iff bit_and_iff bit_not_iff bit_mask_iff)
  qed
  then show ?thesis using assms(2) by (simp add: PTE_ADDR_def unat_of_nat)
qed

lemma flags_perm [simp]:
  "flags_only PTE_P" "flags_only PTE_W" "flags_only PTE_U"
  "flags_only f \<Longrightarrow> flags_only g \<Longrightarrow> flags_only (f OR g)"
  by (simp_all add: flags_only_def PTE_P_def PTE_W_def PTE_U_def bit.conj_disj_distrib2)

lemma present_or [simp]: "(x OR PTE_P) AND PTE_P \<noteq> 0"
proof -
  have "bit ((x OR PTE_P) AND PTE_P) 0" by (simp add: PTE_P_def bit_simps)
  then show ?thesis by auto
qed

lemma present_mid [simp]: "(x OR PTE_P OR y) AND PTE_P \<noteq> 0"
  using present_or [of "x OR y"] by (simp add: ac_simps)

section \<open>Termination\<close>

text \<open>The distance in bytes from \<open>a\<close> forward to \<open>lst\<close> around the 32-bit address space.\<close>

definition dist :: "nat \<Rightarrow> nat \<Rightarrow> nat" where
  "dist a lst = (if a \<le> lst then lst - a else lst + 2 ^ 32 - a)"

lemma page_step:
  assumes "a mod PGSIZE = 0" and "a < 2 ^ 32"
  obtains "a + PGSIZE < 2 ^ 32" "(a + PGSIZE) mod 2 ^ 32 = a + PGSIZE"
  | "a + PGSIZE = 2 ^ 32" "(a + PGSIZE) mod 2 ^ 32 = 0"
proof -
  have "(2 ^ 32 :: nat) mod PGSIZE = 0" by (simp add: PGSIZE_def)
  from pages_apart [OF assms(1) this] assms(2) have "a + PGSIZE < 2 ^ 32 \<or> a + PGSIZE = 2 ^ 32" by linarith
  then show thesis using that by (metis mod_less mod_self)
qed

lemma page_step_aligned:
  assumes "a mod PGSIZE = 0" and "a < 2 ^ 32"
  shows "((a + PGSIZE) mod 2 ^ 32) mod PGSIZE = 0"
  using assms by (cases rule: page_step) (simp_all add: assms(1))

lemma dist_step:
  assumes "a mod PGSIZE = 0" and "a < 2 ^ 32" and "lst mod PGSIZE = 0" and "lst < 2 ^ 32" and "a \<noteq> lst"
  shows "dist ((a + PGSIZE) mod 2 ^ 32) lst + PGSIZE \<le> dist a lst"
  using assms(1,2)
proof (cases rule: page_step)
  case 1
  with pages_apart [OF assms(1,3,5)] assms(4,5) show ?thesis unfolding 1(2) by (auto simp: dist_def)
next
  case 2
  have "dist 0 lst + PGSIZE \<le> dist a lst"
    using 2(1) pages_apart [OF assms(1,3,5)] assms(4,5) unfolding dist_def by auto
  then show ?thesis by (simp only: 2(2))
qed

lemma walkpgdir_returns: "walkpgdir pd va al s \<noteq> Block c"
  by (auto simp: walkpgdir_def kalloc_def Let_def set_mem_def bnd_def split: res.splits if_splits)

lemma mappages_loop_returns:
  fixes s :: "'z kmem_st_scheme"
  assumes "a mod PGSIZE = 0" and "a < 2 ^ 32" and "lst mod PGSIZE = 0" and "lst < 2 ^ 32" and "dist a lst < f * PGSIZE"
  shows "mappages_loop f pd a lst pa perm s \<noteq> Block c"
  using assms
proof (induction f arbitrary: a pa s)
  case (Suc f)
  let ?a = "(a + PGSIZE) mod 2 ^ 32"
  have "mappages_loop f pd ?a lst pb perm u \<noteq> Block c" if "a \<noteq> lst" for pb and u :: "'z kmem_st_scheme"
  proof (rule Suc.IH)
    show "dist ?a lst < f * PGSIZE" using dist_step [OF Suc.prems(1-4) that] Suc.prems(5) by simp
  qed (use Suc.prems page_step_aligned in simp_all)
  then show ?case
    using walkpgdir_returns [of pd a True s c] by (auto simp: bnd_def set_mem_def split: res.splits)
qed simp

text \<open>The endless-looking loop of mappages stops: whatever the range, also one that wraps around the
  address space, and whatever the page tables hold, mappages returns or panics within the 2^20 steps
  of the model, one for each page of the address space.\<close>

lemma mappages_returns:
  assumes "va < 2 ^ 32"
  shows "\<not> (\<exists>c. mappages pd va sz pa perm s = Block c)"
proof -
  let ?l = "PGROUNDDOWN ((va + sz + (2 ^ 32 - 1)) mod 2 ^ 32)"
  have a: "PGROUNDDOWN va mod PGSIZE = 0" "?l mod PGSIZE = 0" by (simp_all only: PGROUNDDOWN_aligned)
  have b: "PGROUNDDOWN va < 2 ^ 32" "?l < 2 ^ 32"
    using assms PGROUNDDOWN_bounds(1) [of va] PGROUNDDOWN_bounds(1) [of "(va + sz + (2 ^ 32 - 1)) mod 2 ^ 32"]
      mod_less_divisor [of "2 ^ 32" "va + sz + (2 ^ 32 - 1)"] by linarith+
  have "dist (PGROUNDDOWN va) ?l < 2 ^ 20 * PGSIZE"
    using b by (auto simp: dist_def PGSIZE_def)
  note r = mappages_loop_returns [OF a(1) b(1) a(2) b(2) this]
  show ?thesis unfolding mappages_def by (simp only: r not_ex simp_thms)
qed

theorem mappages_returns_witness:
  "\<not> (\<exists>c. mappages 0x80200000 0xFFFFF000 0x2000 0 0
      \<lparr>mem = (\<lambda>_. 0), freelist = 0, use_lock = True, kend = 0x80100000\<rparr> = Block c)"
  by (rule mappages_returns) simp

lemma PGADDR_dir: "d < 1024 \<Longrightarrow> PGADDR d 0 0 = d * 2 ^ 22"
proof -
  assume "d < 1024"
  then have "d * 2 ^ 22 < 2 ^ LENGTH(32)" by simp
  then have "unat (of_nat (d * 2 ^ 22) :: uint32) = d * 2 ^ 22" by (simp only: unat_of_nat mod_less)
  then show ?thesis by (simp add: PGADDR_def push_bit_eq_mult)
qed

text \<open>When a directory entry is empty, \<open>deallocuvm\<close> goes on with the first page of the next one.\<close>

lemma next_dir:
  assumes "a < KERNBASE" and "a mod PGSIZE = 0"
  defines "a' \<equiv> (PGADDR (PDX a + 1) 0 0 + (2 ^ 32 - PGSIZE) + PGSIZE) mod 2 ^ 32"
  shows "a' = (PDX a + 1) * 2 ^ 22" and "a' mod PGSIZE = 0" and "a + PGSIZE \<le> a'" and "a' \<le> KERNBASE"
proof -
  have d: "PDX a = a div 2 ^ 22" "PDX a < 512" using assms(1) by (simp_all add: PDX_def KERNBASE_def)
  have "PGADDR (PDX a + 1) 0 0 + (2 ^ 32 - PGSIZE) + PGSIZE = (PDX a + 1) * 2 ^ 22 + 2 ^ 32"
    using PGADDR_dir [of "PDX a + 1"] d(2) by (simp add: PGSIZE_def)
  then show a': "a' = (PDX a + 1) * 2 ^ 22" unfolding a'_def using d(2) by (simp only: mod_add_self2) simp
  show al: "a' mod PGSIZE = 0" unfolding a' by (simp add: PGSIZE_def)
  have "a < a'" unfolding a' d(1) using div_mult_mod_eq [of a "2 ^ 22"] mod_less_divisor [of "2 ^ 22" a] by (simp add: algebra_simps)
  with pages_apart [OF assms(2) al] show "a + PGSIZE \<le> a'" by linarith
  show "a' \<le> KERNBASE" unfolding a' using d(2) by (simp add: KERNBASE_def)
qed

lemma kfree_returns: "kfree v s \<noteq> Block c"
  by (simp add: kfree_def Let_def)

lemma deallocuvm_loop_returns:
  fixes s :: "'z kmem_st_scheme"
  assumes "a mod PGSIZE = 0" and "oldsz \<le> KERNBASE" and "a \<le> KERNBASE" and "oldsz - a + PGSIZE \<le> f * PGSIZE"
  shows "deallocuvm_loop f pd a oldsz s \<noteq> Block c"
  using assms
proof (induction f arbitrary: a s)
  case (Suc f)
  show ?case
  proof (cases "a < oldsz")
    case True
    let ?b = "(PGADDR (PDX a + 1) 0 0 + (2 ^ 32 - PGSIZE) + PGSIZE) mod 2 ^ 32"
    have ak: "a < KERNBASE" using True Suc.prems(2) by simp
    note n = next_dir [OF ak Suc.prems(1)]
    have IH: "deallocuvm_loop f pd a' oldsz u \<noteq> Block c"
      if "a' mod PGSIZE = 0" "a + PGSIZE \<le> a'" "a' \<le> KERNBASE" for a' and u :: "'z kmem_st_scheme"
    proof (rule Suc.IH [OF that(1) Suc.prems(2) that(3)])
      show "oldsz - a' + PGSIZE \<le> f * PGSIZE" using that(2) Suc.prems(4) True by (cases f) (simp_all add: PGSIZE_def)
    qed
    have "KERNBASE mod PGSIZE = 0" by (simp add: page_consts)
    with pages_apart [OF Suc.prems(1), of KERNBASE] ak have le: "a + PGSIZE \<le> KERNBASE" by linarith
    then have ml: "(a + PGSIZE) mod 2 ^ 32 = a + PGSIZE" by (simp add: KERNBASE_def)
    have i1: "deallocuvm_loop f pd ?b oldsz u \<noteq> Block c" and i2: "deallocuvm_loop f pd ((a + PGSIZE) mod 2 ^ 32) oldsz u \<noteq> Block c"
      for u :: "'z kmem_st_scheme"
      by (rule IH [OF n(2-4)]) (rule IH, use ml le Suc.prems(1) in simp_all)
    show ?thesis
      using walkpgdir_returns [of pd a False s c] i1 i2 True
      by (auto simp: bnd_def kfree_returns set_mem_def simp del: One_nat_def split: res.splits if_splits)
  qed simp
qed (simp add: PGSIZE_def)

text \<open>Releasing user memory stops: for every process size below the kernel, deallocuvm returns or panics
  whatever the page tables hold, also when it skips over empty directory entries.\<close>

lemma deallocuvm_returns:
  assumes "oldsz \<le> KERNBASE"
  shows "\<not> (\<exists>c. deallocuvm pd oldsz newsz s = Block c)"
proof (cases "newsz \<ge> oldsz")
  case False
  then have "newsz + PGSIZE \<le> 2 ^ 32" using assms by (simp add: page_consts)
  note b = PGROUNDUP_bounds [OF this]
  have "KERNBASE mod PGSIZE = 0" by (simp add: page_consts)
  with pages_apart [OF PGROUNDUP_aligned [of newsz], of KERNBASE] b False assms have "PGROUNDUP newsz \<le> KERNBASE" by linarith
  moreover have "oldsz - PGROUNDUP newsz + PGSIZE \<le> (2 ^ 20 + 1) * PGSIZE" using assms by (simp add: page_consts)
  ultimately have "deallocuvm_loop (2 ^ 20 + 1) pd (PGROUNDUP newsz) oldsz s \<noteq> Block c" for c
    by (intro deallocuvm_loop_returns [OF PGROUNDUP_aligned assms])
  with False show ?thesis by (auto simp: deallocuvm_def bnd_def simp del: One_nat_def split: res.splits)
qed (simp add: deallocuvm_def)

lemma deallocuvm_returns_witness:
  "\<not> (\<exists>c. deallocuvm 0x80200000 0x5000 0x1000
      \<lparr>mem = (\<lambda>_. 0), freelist = 0, use_lock = True, kend = 0x80100000\<rparr> = Block c)"
  by (rule deallocuvm_returns) (simp add: KERNBASE_def)

section \<open>The invariant of a page directory\<close>

definition pde_at :: "mem \<Rightarrow> nat \<Rightarrow> nat \<Rightarrow> uint32" where
  "pde_at m pd i = load32 m (pd + 4 * i)"

definition table_at :: "mem \<Rightarrow> nat \<Rightarrow> nat \<Rightarrow> nat" where
  "table_at m pd i = P2V (PTE_ADDR (pde_at m pd i))"

definition has_table :: "mem \<Rightarrow> nat \<Rightarrow> nat \<Rightarrow> bool" where
  "has_table m pd i \<longleftrightarrow> i < NPDENTRIES \<and> pde_at m pd i AND PTE_P \<noteq> 0"

definition pte_of :: "mem \<Rightarrow> nat \<Rightarrow> nat \<Rightarrow> uint32" where
  "pte_of m pd va =
     (if has_table m pd (PDX va) then load32 m (table_at m pd (PDX va) + 4 * PTX va) else 0)"

definition pt_ok :: "'z kmem_st_scheme \<Rightarrow> nat \<Rightarrow> nat list \<Rightarrow> bool" where
  "pt_ok s pd xs \<longleftrightarrow>
     free_pages s xs \<and> page_ok s pd \<and> pd \<notin> set xs
     \<and> (\<forall>i. has_table (mem s) pd i \<longrightarrow>
          page_ok s (table_at (mem s) pd i) \<and> table_at (mem s) pd i \<noteq> pd \<and> table_at (mem s) pd i \<notin> set xs)
     \<and> inj_on (table_at (mem s) pd) (Collect (has_table (mem s) pd))"

lemma PDX_less [simp]: "PDX va < NPDENTRIES"
  by (simp add: PDX_def NPDENTRIES_def)

lemma PTX_less [simp]: "PTX va < 1024"
  by (simp add: PTX_def)

lemma entry_inside: "i < 1024 \<Longrightarrow> 4 * i + 4 \<le> PGSIZE"
  by (simp add: PGSIZE_def)

lemma same_page:
  assumes "va < 2 ^ 32" and "wa < 2 ^ 32"
  shows "PDX va = PDX wa \<and> PTX va = PTX wa \<longleftrightarrow> va div PGSIZE = wa div PGSIZE"
proof -
  have "PDX x = x div PGSIZE div 1024" if "x < 2 ^ 32" for x
    using that by (simp add: PDX_def PGSIZE_def div_mult2_eq [symmetric])
  moreover have "PTX x = x div PGSIZE mod 1024" for x by (simp add: PTX_def PGSIZE_def)
  ultimately show ?thesis using assms by (metis div_mult_mod_eq)
qed

lemma translate_pte:
  "translate m pd va = (if pte_of m pd va AND PTE_P = 0 then None
     else Some (PTE_ADDR (pte_of m pd va) + va mod PGSIZE))"
  by (simp add: translate_def pte_of_def has_table_def pde_at_def table_at_def Let_def)

section \<open>Walking\<close>

text \<open>\<open>off_pages P m m'\<close>: the memories agree outside the pages of \<open>P\<close>.\<close>

definition off_pages :: "nat set \<Rightarrow> mem \<Rightarrow> mem \<Rightarrow> bool" where
  "off_pages P m m' \<longleftrightarrow> (\<forall>y. (\<forall>p \<in> P. y < p \<or> p + PGSIZE \<le> y) \<longrightarrow> m' y = m y)"

definition tables :: "mem \<Rightarrow> nat \<Rightarrow> nat set" where
  "tables m pd = insert pd (table_at m pd ` Collect (has_table m pd))"

definition aligned :: "nat set \<Rightarrow> bool" where
  "aligned P \<longleftrightarrow> (\<forall>p \<in> P. p mod PGSIZE = 0)"

lemma off_pages_load:
  assumes "off_pages P m m'" and "aligned P" and "q mod PGSIZE = 0" and "q \<notin> P" and "k + 4 \<le> PGSIZE"
  shows "load32 m' (q + k) = load32 m (q + k)"
proof (rule load32_cong)
  fix i :: nat assume i: "i < 4"
  have "q + k + i < p \<or> p + PGSIZE \<le> q + k + i" if "p \<in> P" for p
  proof -
    have "p + PGSIZE \<le> q \<or> q + PGSIZE \<le> p"
      by (rule pages_apart) (use assms that in \<open>auto simp: aligned_def\<close>)
    with i assms(5) show ?thesis by auto
  qed
  with assms(1) show "m' (q + k + i) = m (q + k + i)" by (simp add: off_pages_def)
qed

lemma off_pages_trans:
  "off_pages P m m' \<Longrightarrow> off_pages Q m' m'' \<Longrightarrow> P \<subseteq> Q \<Longrightarrow> off_pages Q m m''"
  unfolding off_pages_def by (metis subsetD)

lemma off_pages_mono: "off_pages P m m' \<Longrightarrow> P \<subseteq> Q \<Longrightarrow> off_pages Q m m'"
  unfolding off_pages_def by (metis subsetD)

lemma off_pages_store: "k + 4 \<le> PGSIZE \<Longrightarrow> off_pages {p} m (store32 m (p + k) v)"
  by (auto simp: off_pages_def intro!: store32_other)

lemma off_pages_memset: "off_pages {p} m (memset m p c PGSIZE)"
  by (auto simp: off_pages_def memset_apply)

lemma load32_store32_other: "b + 4 \<le> a \<or> a + 4 \<le> b \<Longrightarrow> load32 (store32 m a v) b = load32 m b"
  by (rule load32_cong) (auto intro!: store32_other)

lemma load32_zeroed: "k + 4 \<le> PGSIZE \<Longrightarrow> load32 (memset m p 0 PGSIZE) (p + k) = 0"
  by (simp add: load32_def memset_apply)

lemma free_pages_mem:
  assumes "free_pages s xs" and "off_pages P (mem s) m'" and "aligned P" and "P \<inter> set xs = {}"
  shows "free_pages (s\<lparr>mem := m'\<rparr>) xs"
proof -
  have "load32 m' x = load32 (mem s) x" if "x \<in> set xs" for x
  proof -
    have "x mod PGSIZE = 0" "x \<notin> P" using assms that by (auto simp: free_pages_def page_ok_def)
    from off_pages_load [OF assms(2,3) this, of 0] show ?thesis by (simp add: PGSIZE_def)
  qed
  then have "threaded m' (freelist s) xs = threaded (mem s) (freelist s) xs" by (rule threaded_cong)
  with assms(1) show ?thesis by (auto simp: free_pages_def page_ok_def)
qed

lemma has_table_less: "has_table m pd i \<Longrightarrow> i < 1024"
  by (simp add: has_table_def NPDENTRIES_def)

lemma pt_okD:
  assumes "pt_ok s pd xs"
  shows "free_pages s xs" "page_ok s pd" "pd \<notin> set xs" "pd mod PGSIZE = 0"
    and "has_table (mem s) pd i \<Longrightarrow> page_ok s (table_at (mem s) pd i)"
    and "has_table (mem s) pd i \<Longrightarrow> table_at (mem s) pd i mod PGSIZE = 0"
    and "has_table (mem s) pd i \<Longrightarrow> table_at (mem s) pd i \<noteq> pd"
    and "has_table (mem s) pd i \<Longrightarrow> table_at (mem s) pd i \<notin> set xs"
    and "has_table (mem s) pd i \<Longrightarrow> has_table (mem s) pd j \<Longrightarrow> i \<noteq> j \<Longrightarrow> table_at (mem s) pd i \<noteq> table_at (mem s) pd j"
    and "aligned (tables (mem s) pd)" and "tables (mem s) pd \<inter> set xs = {}"
  using assms by (auto simp: pt_ok_def page_ok_def tables_def aligned_def dest: inj_onD)

lemma walk_present:
  assumes "has_table (mem s) pd (PDX va)"
  shows "walkpgdir pd va al s = Ok (table_at (mem s) pd (PDX va) + 4 * PTX va) s"
  using assms by (simp add: walkpgdir_def has_table_def pde_at_def table_at_def)

lemma walk_absent: "\<not> has_table (mem s) pd (PDX va) \<Longrightarrow> walkpgdir pd va False s = Ok 0 s"
  by (simp add: walkpgdir_def has_table_def pde_at_def)

lemma walk_full: "\<not> has_table (mem s) pd (PDX va) \<Longrightarrow> free_pages s [] \<Longrightarrow> walkpgdir pd va True s = Ok 0 s"
  by (simp add: walkpgdir_def has_table_def pde_at_def kalloc_Nil)

text \<open>\<open>grows\<close>: what the mapping routines may do to the memory: use up free pages as page tables and
  write into the directory and its tables.\<close>

definition grows :: "'z kmem_st_scheme \<Rightarrow> nat \<Rightarrow> nat list \<Rightarrow> 'z kmem_st_scheme \<Rightarrow> nat list \<Rightarrow> bool" where
  "grows s pd xs s' xs' \<longleftrightarrow>
     pt_ok s' pd xs' \<and> (\<exists>ys. xs = ys @ xs')
     \<and> tables (mem s) pd \<subseteq> tables (mem s') pd \<and> tables (mem s') pd \<union> set xs' = tables (mem s) pd \<union> set xs
     \<and> off_pages (tables (mem s') pd) (mem s) (mem s') \<and> s' = s\<lparr>mem := mem s', freelist := freelist s'\<rparr>"

lemma grows_refl: "pt_ok s pd xs \<Longrightarrow> grows s pd xs s xs"
  by (simp add: grows_def off_pages_def)

lemma grows_trans:
  assumes "grows s pd xs s1 xs1" and "grows s1 pd xs1 s2 xs2"
  shows "grows s pd xs s2 xs2"
proof -
  have "off_pages (tables (mem s2) pd) (mem s) (mem s2)"
    using off_pages_trans [of "tables (mem s1) pd" "mem s" "mem s1" "tables (mem s2) pd" "mem s2"] assms
    by (auto simp: grows_def)
  moreover have "s2 = s\<lparr>mem := mem s2, freelist := freelist s2\<rparr>"
  proof -
    have "s2 = (s\<lparr>mem := mem s1, freelist := freelist s1\<rparr>)\<lparr>mem := mem s2, freelist := freelist s2\<rparr>"
      using assms unfolding grows_def by metis
    then show ?thesis by simp
  qed
  moreover have "\<exists>ys. xs = ys @ xs2" using assms by (auto simp: grows_def)
  moreover have "set xs1 \<subseteq> set xs" using assms by (auto simp: grows_def)
  ultimately show ?thesis using assms unfolding grows_def by blast
qed

lemma V2P_page:
  assumes "page_ok s x"
  shows "V2P x mod PGSIZE = 0" and "V2P x < 2 ^ 32" and "P2V (V2P x) = x"
proof -
  have x: "KERNBASE \<le> x" "x < 2 ^ 32" "x mod PGSIZE = 0" using assms by (auto simp: page_ok_def page_consts)
  then show "V2P x mod PGSIZE = 0"
    by (simp add: V2P_kern) (auto simp: page_consts mod_eq_0_iff_dvd intro: dvd_diff_nat)
  show "V2P x < 2 ^ 32" "P2V (V2P x) = x" using x by (simp_all add: V2P_kern P2V_V2P P2V_def)
qed

lemma frame_page_entry:
  assumes "page_ok s x" and "flags_only f"
  shows "P2V (PTE_ADDR (of_nat (V2P x) OR f)) = x"
  using V2P_page [OF assms(1)] PTE_ADDR_mk [OF V2P_page(1,2) [OF assms(1)] assms(2)] by simp

lemma pde_page:
  assumes "page_ok s x"
  shows "P2V (PTE_ADDR (of_nat (V2P x) OR PTE_P OR PTE_W OR PTE_U)) = x"
  using frame_page_entry [OF assms, of "PTE_P OR PTE_W OR PTE_U"] by simp

lemma new_table:
  fixes s :: "'z kmem_st_scheme"
  assumes ok: "pt_ok s pd (x # xs)" and nt: "\<not> has_table (mem s) pd j" and j: "j < 1024"
  defines "m' \<equiv> store32 (memset (mem s) x 0 PGSIZE) (pd + 4 * j) (of_nat (V2P x) OR PTE_P OR PTE_W OR PTE_U)"
  shows "i < 1024 \<Longrightarrow> pde_at m' pd i = (if i = j then of_nat (V2P x) OR PTE_P OR PTE_W OR PTE_U else pde_at (mem s) pd i)"
    and "has_table m' pd i \<longleftrightarrow> i = j \<or> has_table (mem s) pd i"
    and "table_at m' pd j = x"
    and "has_table (mem s) pd i \<Longrightarrow> table_at m' pd i = table_at (mem s) pd i"
    and "off_pages {pd, x} (mem s) m'"
    and "pte_of m' pd = pte_of (mem s) pd"
proof -
  note D = pt_okD [OF ok]
  have x: "page_ok s x" "x mod PGSIZE = 0" "x \<noteq> pd" using D(1,3) by (auto simp: free_pages_def page_ok_def)
  let ?m1 = "memset (mem s) x 0 PGSIZE"
  have off1: "off_pages {x} (mem s) ?m1" by (rule off_pages_memset)
  have off2: "off_pages {pd} ?m1 m'" unfolding m'_def by (rule off_pages_store) (rule entry_inside [OF j])
  show off: "off_pages {pd, x} (mem s) m'"
    by (rule off_pages_trans [OF off_pages_mono [OF off1] off_pages_mono [OF off2] subset_refl]) auto
  show pde: "pde_at m' pd i = (if i = j then of_nat (V2P x) OR PTE_P OR PTE_W OR PTE_U else pde_at (mem s) pd i)" if "i < 1024" for i
  proof (cases "i = j")
    case True then show ?thesis by (simp add: m'_def pde_at_def)
  next
    case False
    then have "pd + 4 * i + 4 \<le> pd + 4 * j \<or> pd + 4 * j + 4 \<le> pd + 4 * i" by linarith
    then have "pde_at m' pd i = load32 ?m1 (pd + 4 * i)" by (simp only: m'_def pde_at_def load32_store32_other)
    also have "\<dots> = pde_at (mem s) pd i"
      using off_pages_load [OF off1 _ D(4) _ entry_inside [OF that]] x by (simp add: aligned_def pde_at_def)
    finally show ?thesis using False by simp
  qed
  show ht: "has_table m' pd i \<longleftrightarrow> i = j \<or> has_table (mem s) pd i" for i
    using pde [of i] j present_mid [of "of_nat (V2P x)" "PTE_W OR PTE_U"]
    by (cases "i = j") (auto simp: has_table_def NPDENTRIES_def)
  show tj: "table_at m' pd j = x" using pde [OF j] pde_page [OF x(1)] by (simp add: table_at_def)
  show ti: "table_at m' pd i = table_at (mem s) pd i" if "has_table (mem s) pd i" for i
    using pde [OF has_table_less [OF that]] that nt by (auto simp: table_at_def)
  show "pte_of m' pd = pte_of (mem s) pd"
  proof
    fix va
    consider "PDX va = j" | "PDX va \<noteq> j" "has_table (mem s) pd (PDX va)" | "PDX va \<noteq> j" "\<not> has_table (mem s) pd (PDX va)" by blast
    then show "pte_of m' pd va = pte_of (mem s) pd va"
    proof cases
      case 1
      have "load32 m' (x + 4 * PTX va) = load32 ?m1 (x + 4 * PTX va)"
        by (rule off_pages_load [OF off2]) (use x D(4) in \<open>simp_all add: aligned_def entry_inside\<close>)
      then show ?thesis using 1 nt ht tj load32_zeroed [OF entry_inside, of "PTX va"] by (simp add: pte_of_def)
    next
      case 2
      have "load32 m' (table_at (mem s) pd (PDX va) + 4 * PTX va) = load32 (mem s) (table_at (mem s) pd (PDX va) + 4 * PTX va)"
        by (rule off_pages_load [OF off]) (use x D(4) D(6-8) [OF 2(2)] in \<open>auto simp: aligned_def entry_inside\<close>)
      then show ?thesis using 2 ht ti by (simp add: pte_of_def)
    next
      case 3 then show ?thesis using ht by (simp add: pte_of_def)
    qed
  qed
qed

lemma walk_alloc:
  fixes s :: "'z kmem_st_scheme"
  assumes ok: "pt_ok s pd (x # xs)" and nt: "\<not> has_table (mem s) pd (PDX va)"
  obtains s' where "walkpgdir pd va True s = Ok (table_at (mem s') pd (PDX va) + 4 * PTX va) s'"
    and "grows s pd (x # xs) s' xs" and "has_table (mem s') pd (PDX va)" and "pte_of (mem s') pd = pte_of (mem s) pd"
proof -
  define m' where "m' = store32 (memset (mem s) x 0 PGSIZE) (pd + 4 * PDX va) (of_nat (V2P x) OR PTE_P OR PTE_W OR PTE_U)"
  define s' where "s' = s\<lparr>mem := m', freelist := unat (load32 (mem s) x)\<rparr>"
  have j: "PDX va < 1024" using PDX_less [of va] by (simp only: NPDENTRIES_def)
  note N = new_table [OF ok nt j, folded m'_def] and D = pt_okD [OF ok]
  have x: "x \<noteq> 0" "page_ok s x" "x \<notin> set xs" "x \<noteq> pd" "x mod PGSIZE = 0"
    using D(1,3) by (auto simp: free_pages_def page_ok_def page_consts)
  note f = kalloc_Cons [OF D(1)]
  have "free_pages (s\<lparr>freelist := unat (load32 (mem s) x)\<rparr>\<lparr>mem := m'\<rparr>) xs"
    by (rule free_pages_mem [OF f(2), of "{pd, x}"]) (use N(5) x D(3,4) in \<open>simp_all add: aligned_def\<close>)
  then have fr: "free_pages s' xs" by (simp add: s'_def free_pages_def page_ok_def)
  have pk: "page_ok s' = page_ok s" by (simp add: s'_def page_ok_def fun_eq_iff)
  have m: "mem s' = m'" by (simp add: s'_def)
  have tab: "tables m' pd = insert x (tables (mem s) pd)"
    using N(3,4) by (auto simp: tables_def N(2) image_def)
  have tne: "table_at (mem s) pd i \<noteq> x" if "has_table (mem s) pd i" for i using D(8) [OF that] by auto
  have "inj_on (table_at m' pd) (Collect (has_table m' pd))"
    by (rule inj_onI) (use N(2-4) tne D(9) in \<open>auto; metis\<close>)
  then have ok': "pt_ok s' pd xs"
    unfolding pt_ok_def pk m using fr D x N(2-4) by auto
  have "grows s pd (x # xs) s' xs"
    unfolding grows_def m tab using ok' off_pages_mono [OF N(5), of "insert x (tables (mem s) pd)"]
    by (auto simp: s'_def tables_def)
  moreover have "walkpgdir pd va True s = Ok (x + 4 * PTX va) s'"
    using nt x(1) f(1) by (simp add: walkpgdir_def has_table_def pde_at_def set_mem_def s'_def m'_def)
  ultimately show thesis using that N(2,3,6) m by simp
qed

lemma store_pte:
  fixes s :: "'z kmem_st_scheme" and e :: uint32
  assumes ok: "pt_ok s pd xs" and ht: "has_table (mem s) pd (PDX va)" and va: "va < 2 ^ 32"
  defines "s' \<equiv> s\<lparr>mem := store32 (mem s) (table_at (mem s) pd (PDX va) + 4 * PTX va) e\<rparr>"
  shows "grows s pd xs s' xs"
    and "w < 2 ^ 32 \<Longrightarrow> pte_of (mem s') pd w = (if w div PGSIZE = va div PGSIZE then e else pte_of (mem s) pd w)"
proof -
  let ?t = "table_at (mem s) pd (PDX va)"
  let ?m = "store32 (mem s) (?t + 4 * PTX va) e"
  note D = pt_okD [OF ok]
  have off: "off_pages {?t} (mem s) ?m" by (rule off_pages_store) (simp add: entry_inside)
  have al: "aligned {?t}" using D(6) [OF ht] by (simp add: aligned_def)
  have pde: "pde_at ?m pd i = pde_at (mem s) pd i" if "i < 1024" for i
    unfolding pde_at_def by (rule off_pages_load [OF off al D(4)]) (use D(7) [OF ht] entry_inside [OF that] in auto)
  then have hs: "has_table ?m pd = has_table (mem s) pd" by (auto simp: has_table_def NPDENTRIES_def fun_eq_iff)
  have ts: "table_at ?m pd i = table_at (mem s) pd i" if "i < 1024" for i using pde [OF that] by (simp add: table_at_def)
  then have img: "table_at ?m pd ` Collect (has_table (mem s) pd) = table_at (mem s) pd ` Collect (has_table (mem s) pd)"
    by (intro image_cong) (auto dest: has_table_less)
  then have tab: "tables ?m pd = tables (mem s) pd" by (simp add: tables_def hs)
  have inj: "inj_on (table_at ?m pd) (Collect (has_table (mem s) pd))"
    using ok ts has_table_less unfolding pt_ok_def by (auto intro!: inj_onI dest: inj_onD)
  have fr: "free_pages (s\<lparr>mem := ?m\<rparr>) xs"
    by (rule free_pages_mem [OF D(1) off al]) (use D(8) [OF ht] in simp)
  have pk: "page_ok (s\<lparr>mem := ?m\<rparr>) = page_ok s" by (simp add: page_ok_def fun_eq_iff)
  have "pt_ok (s\<lparr>mem := ?m\<rparr>) pd xs"
    unfolding pt_ok_def using fr D inj ts has_table_less by (auto simp: pk hs)
  moreover have "?t \<in> tables (mem s) pd" using ht by (simp add: tables_def)
  ultimately show "grows s pd xs s' xs"
    unfolding grows_def s'_def using off_pages_mono [OF off, of "tables (mem s) pd"] by (simp add: tab)
  have other: "load32 ?m (table_at (mem s) pd (PDX w) + 4 * PTX w) = load32 (mem s) (table_at (mem s) pd (PDX w) + 4 * PTX w)"
    if h: "has_table (mem s) pd (PDX w)" and n: "\<not> (PDX w = PDX va \<and> PTX w = PTX va)"
  proof (cases "PDX w = PDX va")
    case True
    with n have "?t + 4 * PTX w + 4 \<le> ?t + 4 * PTX va \<or> ?t + 4 * PTX va + 4 \<le> ?t + 4 * PTX w" by linarith
    then show ?thesis unfolding True by (rule load32_store32_other)
  next
    case False
    show ?thesis by (rule off_pages_load [OF off al D(6) [OF h]]) (use D(9) [OF h ht False] in \<open>simp_all add: entry_inside\<close>)
  qed
  show "pte_of (mem s') pd w = (if w div PGSIZE = va div PGSIZE then e else pte_of (mem s) pd w)" if w: "w < 2 ^ 32"
  proof (cases "w div PGSIZE = va div PGSIZE")
    case True
    with same_page [OF w va] have "PDX w = PDX va" "PTX w = PTX va" by auto
    with True ht ts [of "PDX va"] show ?thesis by (simp add: pte_of_def s'_def hs has_table_less)
  next
    case False
    with same_page [OF w va] have "\<not> (PDX w = PDX va \<and> PTX w = PTX va)" by auto
    with other False ts [of "PDX w"] show ?thesis by (auto simp: pte_of_def s'_def hs has_table_less)
  qed
qed

section \<open>Mapping\<close>

lemma table_pos: "pt_ok s pd xs \<Longrightarrow> has_table (mem s) pd i \<Longrightarrow> table_at (mem s) pd i + k \<noteq> 0"
  using pt_okD(5) [of s pd xs i] by (auto simp: page_ok_def page_consts)

lemma walk_cases:
  fixes s :: "'z kmem_st_scheme"
  assumes ok: "pt_ok s pd xs"
  obtains (full) "xs = []" "walkpgdir pd va True s = Ok 0 s"
  | (entry) s' xs' where "walkpgdir pd va True s = Ok (table_at (mem s') pd (PDX va) + 4 * PTX va) s'"
      and "grows s pd xs s' xs'" and "has_table (mem s') pd (PDX va)" and "pte_of (mem s') pd = pte_of (mem s) pd"
proof (cases "has_table (mem s) pd (PDX va)")
  case True
  from entry [OF walk_present [OF True] grows_refl [OF ok] True refl] show thesis .
next
  case False
  show thesis
  proof (cases xs)
    case Nil
    with full walk_full [OF False] pt_okD(1) [OF ok] show thesis by simp
  next
    case (Cons x ys)
    from walk_alloc [OF ok [unfolded Cons] False] entry Cons show thesis by metis
  qed
qed

lemma page_of_iff: "a mod PGSIZE = 0 \<Longrightarrow> v div PGSIZE = a div PGSIZE \<longleftrightarrow> a \<le> v \<and> v < a + PGSIZE"
proof -
  assume "a mod PGSIZE = 0"
  then obtain k where k: "a = PGSIZE * k" by (auto simp: mod_eq_0_iff_dvd dvd_def)
  have "v div PGSIZE = k \<longleftrightarrow> PGSIZE * k \<le> v \<and> v < PGSIZE * k + PGSIZE"
    by (auto simp: PGSIZE_def)
  then show ?thesis by (simp add: k PGSIZE_def)
qed

lemma PGROUNDDOWN_page: "a mod PGSIZE = 0 \<Longrightarrow> a \<le> v \<Longrightarrow> v < a + PGSIZE \<Longrightarrow> PGROUNDDOWN v = a"
  using page_of_iff [of a v] div_mult_mod_eq [of v PGSIZE] div_mult_mod_eq [of a PGSIZE]
  by (simp add: PGROUNDDOWN_def)

lemma PGROUNDDOWN_ge: "a mod PGSIZE = 0 \<Longrightarrow> a \<le> v \<Longrightarrow> a \<le> PGROUNDDOWN v"
  using pages_apart [of a "PGROUNDDOWN v"] PGROUNDDOWN_bounds [of v] PGROUNDDOWN_aligned [of v] by fastforce

definition map_entry :: "nat \<Rightarrow> nat \<Rightarrow> uint32 \<Rightarrow> nat \<Rightarrow> uint32" where
  "map_entry a pa perm v = of_nat (pa + (PGROUNDDOWN v - a)) OR perm OR PTE_P"

definition maps_to :: "mem \<Rightarrow> mem \<Rightarrow> nat \<Rightarrow> nat \<Rightarrow> nat \<Rightarrow> nat \<Rightarrow> uint32 \<Rightarrow> bool" where
  "maps_to m m' pd a c pa perm \<longleftrightarrow>
     (\<forall>v < 2 ^ 32. pte_of m' pd v = (if a \<le> v \<and> v < c then map_entry a pa perm v else pte_of m pd v))"

lemma mappages_loop_spec:
  fixes s :: "'z kmem_st_scheme"
  assumes "pt_ok s pd xs" and "a mod PGSIZE = 0" and "lst mod PGSIZE = 0" and "a \<le> lst" and "lst < 2 ^ 32"
    and "lst - a < f * PGSIZE" and "pa + (lst - a) < 2 ^ 32"
    and "\<forall>v. a \<le> v \<and> v < lst + PGSIZE \<longrightarrow> pte_of (mem s) pd v AND PTE_P = 0"
  shows "\<exists>r c s' xs'. mappages_loop f pd a lst pa perm s = Ok r s' \<and> grows s pd xs s' xs'
    \<and> maps_to (mem s) (mem s') pd a c pa perm
    \<and> (r = 0 \<and> c = lst + PGSIZE \<or> r = - 1 \<and> xs' = [] \<and> a \<le> c \<and> c \<le> lst)"
  using assms
proof (induction f arbitrary: a pa s xs)
  case (Suc f)
  note a = Suc.prems(2) and ok = Suc.prems(1)
  have a32: "a < 2 ^ 32" using Suc.prems(4,5) by simp
  show ?case
  proof (rule walk_cases [OF ok, of a])
    assume "xs = []" "walkpgdir pd a True s = Ok 0 s"
    then have "mappages_loop (Suc f) pd a lst pa perm s = Ok (- 1) s" by simp
    moreover have "grows s pd xs s []" using grows_refl [OF ok] \<open>xs = []\<close> by simp
    moreover have "maps_to (mem s) (mem s) pd a a pa perm" by (auto simp: maps_to_def)
    ultimately show ?thesis using Suc.prems(4) by blast
  next
    fix s1 :: "'z kmem_st_scheme" and xs1
    assume w: "walkpgdir pd a True s = Ok (table_at (mem s1) pd (PDX a) + 4 * PTX a) s1" and g: "grows s pd xs s1 xs1"
      and h: "has_table (mem s1) pd (PDX a)" and e: "pte_of (mem s1) pd = pte_of (mem s) pd"
    let ?p = "table_at (mem s1) pd (PDX a) + 4 * PTX a"
    define s2 where "s2 = s1\<lparr>mem := store32 (mem s1) ?p (of_nat pa OR perm OR PTE_P)\<rparr>"
    have ok1: "pt_ok s1 pd xs1" using g by (simp add: grows_def)
    have np: "load32 (mem s1) ?p AND PTE_P = 0"
      using Suc.prems(8) Suc.prems(4) fun_cong [OF e, of a] h by (auto simp: pte_of_def PGSIZE_def)
    note st = store_pte [OF ok1 h a32, where e = "of_nat pa OR perm OR PTE_P", folded s2_def]
    have g2: "grows s pd xs s2 xs1" by (rule grows_trans [OF g st(1)])
    have e2: "pte_of (mem s2) pd v = (if a \<le> v \<and> v < a + PGSIZE then of_nat pa OR perm OR PTE_P else pte_of (mem s) pd v)" if "v < 2 ^ 32" for v
      using st(2) [OF that] by (simp add: page_of_iff [OF a] e)
    have step: "mappages_loop (Suc f) pd a lst pa perm s =
        (if a = lst then Ok 0 s2 else mappages_loop f pd ((a + PGSIZE) mod 2 ^ 32) lst ((pa + PGSIZE) mod 2 ^ 32) perm s2)"
    proof -
      define q where "q = ?p"
      have "q \<noteq> 0" "walkpgdir pd a True s = Ok q s1" "load32 (mem s1) q AND PTE_P = 0"
        "s2 = s1\<lparr>mem := store32 (mem s1) q (of_nat pa OR perm OR PTE_P)\<rparr>"
        using w np table_pos [OF ok1 h, of "4 * PTX a"] unfolding q_def s2_def by blast+
      then show ?thesis by (simp add: set_mem_def)
    qed
    show ?thesis
    proof (cases "a = lst")
      case True
      have "maps_to (mem s) (mem s2) pd a (lst + PGSIZE) pa perm"
        unfolding maps_to_def map_entry_def using e2 PGROUNDDOWN_page [OF a] True by simp
      with g2 step True show ?thesis by auto
    next
      case False
      with Suc.prems(4) pages_apart [OF a Suc.prems(3)] have le: "a + PGSIZE \<le> lst" by linarith
      then have ml: "(a + PGSIZE) mod 2 ^ 32 = a + PGSIZE" "(pa + PGSIZE) mod 2 ^ 32 = pa + PGSIZE"
        using Suc.prems(5,7) by (intro mod_less; linarith)+
      have ok2: "pt_ok s2 pd xs1" using g2 by (simp add: grows_def)
      have un: "\<forall>v. a + PGSIZE \<le> v \<and> v < lst + PGSIZE \<longrightarrow> pte_of (mem s2) pd v AND PTE_P = 0"
      proof (intro allI impI)
        fix v assume v: "a + PGSIZE \<le> v \<and> v < lst + PGSIZE"
        have "lst + PGSIZE \<le> 2 ^ 32" by (rule page_step [OF Suc.prems(3,5)]) simp_all
        with v e2 [of v] Suc.prems(8) show "pte_of (mem s2) pd v AND PTE_P = 0" by auto
      qed
      have "\<exists>r c s' xs'. mappages_loop f pd (a + PGSIZE) lst (pa + PGSIZE) perm s2 = Ok r s' \<and> grows s2 pd xs1 s' xs'
          \<and> maps_to (mem s2) (mem s') pd (a + PGSIZE) c (pa + PGSIZE) perm
          \<and> (r = 0 \<and> c = lst + PGSIZE \<or> r = - 1 \<and> xs' = [] \<and> a + PGSIZE \<le> c \<and> c \<le> lst)"
        by (rule Suc.IH [OF ok2 _ Suc.prems(3) le Suc.prems(5) _ _ un]) (use a le Suc.prems(6,7) in auto)
      then obtain r c s' xs' where R: "mappages_loop f pd (a + PGSIZE) lst (pa + PGSIZE) perm s2 = Ok r s'"
        "grows s2 pd xs1 s' xs'" "maps_to (mem s2) (mem s') pd (a + PGSIZE) c (pa + PGSIZE) perm"
        "r = 0 \<and> c = lst + PGSIZE \<or> r = - 1 \<and> xs' = [] \<and> a + PGSIZE \<le> c \<and> c \<le> lst" by blast
      have c: "a + PGSIZE \<le> c" using R(4) le by auto
      have "maps_to (mem s) (mem s') pd a c pa perm" unfolding maps_to_def
      proof (intro allI impI)
        fix v :: nat assume v: "v < 2 ^ 32"
        consider "a + PGSIZE \<le> v" | "a \<le> v" "v < a + PGSIZE" | "v < a" by linarith
        then show "pte_of (mem s') pd v = (if a \<le> v \<and> v < c then map_entry a pa perm v else pte_of (mem s) pd v)"
        proof cases
          case 1
          with PGROUNDDOWN_ge [of "a + PGSIZE" v] a have "map_entry (a + PGSIZE) (pa + PGSIZE) perm v = map_entry a pa perm v"
            by (simp add: map_entry_def)
          with 1 R(3) v e2 [OF v] show ?thesis by (simp add: maps_to_def)
        next
          case 2
          with R(3) v e2 [OF v] c PGROUNDDOWN_page [OF a 2] show ?thesis by (simp add: maps_to_def map_entry_def)
        next
          case 3
          with R(3) v e2 [OF v] show ?thesis by (simp add: maps_to_def)
        qed
      qed
      with R grows_trans [OF g2 R(2)] step False ml show ?thesis
        by (intro exI [of _ r] exI [of _ c] exI [of _ s'] exI [of _ xs']) auto
    qed
  qed
qed simp

lemma mappages_one:
  assumes "a mod PGSIZE = 0" and "a < 2 ^ 32"
  shows "mappages pd a PGSIZE pa perm = mappages_loop (2 ^ 20) pd a a pa perm"
proof -
  have "a + PGSIZE \<le> 2 ^ 32" using assms by (rule page_step) simp_all
  moreover have "a + PGSIZE + (2 ^ 32 - 1) = (a + PGSIZE - 1) + 2 ^ 32" by (simp add: PGSIZE_def)
  ultimately have "(a + PGSIZE + (2 ^ 32 - 1)) mod 2 ^ 32 = a + PGSIZE - 1"
    by (simp only: mod_add_self2) (simp add: PGSIZE_def)
  moreover have "PGROUNDDOWN (a + PGSIZE - 1) = a" "PGROUNDDOWN a = a"
    by (rule PGROUNDDOWN_page [OF assms(1)]; simp add: PGSIZE_def)+
  ultimately show ?thesis by (simp only: mappages_def)
qed

lemma mappages_room:
  fixes s :: "'z kmem_st_scheme"
  assumes "pt_ok s pd (x # xs)" and "a mod PGSIZE = 0" and "a < 2 ^ 32"
  shows "mappages pd a PGSIZE pa perm s \<noteq> Ok (- 1) s'"
proof (rule walk_cases [OF assms(1), of a])
  fix s1 :: "'z kmem_st_scheme" and xs1
  assume w: "walkpgdir pd a True s = Ok (table_at (mem s1) pd (PDX a) + 4 * PTX a) s1" and g: "grows s pd (x # xs) s1 xs1"
    and h: "has_table (mem s1) pd (PDX a)"
  define q where "q = table_at (mem s1) pd (PDX a) + 4 * PTX a"
  have "pt_ok s1 pd xs1" using g by (simp add: grows_def)
  then have "q \<noteq> 0" "walkpgdir pd a True s = Ok q s1" using w table_pos [OF _ h] unfolding q_def by blast+
  then have "mappages_loop (Suc (2 ^ 20 - 1)) pd a a pa perm s \<noteq> Ok (- 1) s'"
    by (simp only: mappages_loop.simps) (simp add: set_mem_def)
  then show ?thesis unfolding mappages_one [OF assms(2,3)] by simp
qed simp

lemma PTE_FLAGS_mk:
  assumes "x mod PGSIZE = 0" and "flags_only f"
  shows "PTE_FLAGS (of_nat x OR f) = f"
proof (rule bit_word_eqI)
  fix n assume "n < LENGTH(32)"
  then show "bit (PTE_FLAGS (of_nat x OR f)) n = bit f n"
    using aligned_bits [OF assms(1), of n] flags_bits [OF assms(2), of n]
    unfolding PTE_FLAGS_def mask12 by (auto simp: bit_or_iff bit_and_iff bit_mask_iff)
qed

lemma map_entry_reads:
  assumes "pa mod PGSIZE = 0" and "a mod PGSIZE = 0" and "a \<le> v" and "pa + (v - a) < 2 ^ 32" and "flags_only perm"
  shows "map_entry a pa perm v AND PTE_P \<noteq> 0" and "PTE_ADDR (map_entry a pa perm v) + v mod PGSIZE = pa + (v - a)"
    and "PTE_FLAGS (map_entry a pa perm v) = perm OR PTE_P"
proof -
  let ?x = "pa + (PGROUNDDOWN v - a)"
  have ge: "a \<le> PGROUNDDOWN v" by (rule PGROUNDDOWN_ge [OF assms(2,3)])
  have x: "?x mod PGSIZE = 0" "?x < 2 ^ 32"
    using assms(1,2,4) ge PGROUNDDOWN_aligned [of v] PGROUNDDOWN_bounds(1) [of v]
    by (auto simp: mod_eq_0_iff_dvd intro!: dvd_add dvd_diff_nat)
  have eq: "map_entry a pa perm v = of_nat ?x OR (perm OR PTE_P)" by (simp add: map_entry_def)
  show "map_entry a pa perm v AND PTE_P \<noteq> 0" using present_or [of "of_nat ?x OR perm"] by (simp add: map_entry_def ac_simps)
  have "PTE_ADDR (map_entry a pa perm v) = ?x" unfolding eq by (rule PTE_ADDR_mk [OF x]) (simp add: assms(5))
  moreover have "PGROUNDDOWN v + v mod PGSIZE = v" by (simp add: PGROUNDDOWN_def)
  ultimately show "PTE_ADDR (map_entry a pa perm v) + v mod PGSIZE = pa + (v - a)" using ge assms(3) by simp
  show "PTE_FLAGS (map_entry a pa perm v) = perm OR PTE_P" unfolding eq by (rule PTE_FLAGS_mk [OF x(1)]) (simp add: assms(5))
qed

lemma translate_None: "translate m pd v = None \<longleftrightarrow> pte_of m pd v AND PTE_P = 0"
  by (simp add: translate_pte)

lemma pte_of_page: "v div PGSIZE = w div PGSIZE \<Longrightarrow> pte_of m pd v = pte_of m pd w"
proof -
  assume eq: "v div PGSIZE = w div PGSIZE"
  have "PDX x = x div PGSIZE div 1024 mod 1024" "PTX x = x div PGSIZE mod 1024" for x
    by (simp_all add: PDX_def PTX_def PGSIZE_def div_mult2_eq [symmetric])
  with eq show ?thesis by (simp add: pte_of_def)
qed

lemma rounded_unmapped:
  assumes "0 < sz" and "\<forall>v. va \<le> v \<and> v < va + sz \<longrightarrow> translate m pd v = None"
    and v: "PGROUNDDOWN va \<le> v" "v < PGROUNDDOWN (va + sz - 1) + PGSIZE"
  shows "pte_of m pd v AND PTE_P = 0"
proof -
  let ?a = "PGROUNDDOWN va" and ?l = "PGROUNDDOWN (va + sz - 1)"
  have al: "?a mod PGSIZE = 0" "?l mod PGSIZE = 0" by (simp_all only: PGROUNDDOWN_aligned)
  note b = PGROUNDDOWN_bounds [of va] PGROUNDDOWN_bounds [of "va + sz - 1"]
  consider "v < va" | "va \<le> v" "v < va + sz" | "va + sz \<le> v" by linarith
  then obtain w where w: "va \<le> w" "w < va + sz" "v div PGSIZE = w div PGSIZE"
  proof cases
    case 1
    have "v div PGSIZE = ?a div PGSIZE" using page_of_iff [OF al(1), of v] v(1) b(2) 1 by simp
    moreover have "va div PGSIZE = ?a div PGSIZE" using page_of_iff [OF al(1), of va] b(1,2) by simp
    ultimately show thesis using assms(1) by (intro that [of va]) simp_all
  next
    case 2
    then show thesis by (intro that [of v]) simp_all
  next
    case 3
    have "v div PGSIZE = ?l div PGSIZE" using page_of_iff [OF al(2), of v] v(2) b(3) 3 by simp
    moreover have "(va + sz - 1) div PGSIZE = ?l div PGSIZE" using page_of_iff [OF al(2), of "va + sz - 1"] b(3,4) by simp
    ultimately show thesis using assms(1) by (intro that [of "va + sz - 1"]) simp_all
  qed
  with assms(2) pte_of_page [OF w(3)] show ?thesis by (simp add: translate_None [symmetric])
qed

lemma maps_to_translate:
  assumes "maps_to m m' pd a c pa perm" and "c = l + PGSIZE" and "pa mod PGSIZE = 0" and "a mod PGSIZE = 0" and "l mod PGSIZE = 0"
    and "a \<le> l" and "pa + (l - a) < 2 ^ 32" and "flags_only perm" and "v < 2 ^ 32"
  shows "if a \<le> v \<and> v < l + PGSIZE
      then translate m' pd v = Some (pa + (v - a)) \<and> PTE_FLAGS (pte_of m' pd v) = perm OR PTE_P
      else translate m' pd v = translate m pd v"
proof (cases "a \<le> v \<and> v < l + PGSIZE")
  case True
  have "(pa + (l - a)) mod PGSIZE = 0"
    using assms(3-6) by (auto simp: mod_eq_0_iff_dvd intro!: dvd_add dvd_diff_nat)
  then have "pa + (l - a) + PGSIZE \<le> 2 ^ 32" by (rule page_step [OF _ assms(7)]) simp_all
  with True have "pa + (v - a) < 2 ^ 32" by linarith
  from map_entry_reads [OF assms(3,4) _ this assms(8)] True assms(1,2,9) show ?thesis
    by (simp add: maps_to_def translate_pte)
next
  case False
  with assms(1,2,9) have "pte_of m' pd v = pte_of m pd v" by (auto simp: maps_to_def)
  with False show ?thesis by (simp only: translate_pte if_False)
qed

text \<open>C25. Mapping a range: on a sound page directory, for an unmapped range that does not wrap, mappages
  either runs out of pages for page tables and returns -1, or returns 0 and then every address of the
  pages of the range translates to the matching physical address with exactly the given permissions,
  while every other address translates as before.  Only the directory, its page tables and free pages
  are written, and the directory is sound again.\<close>

theorem mappages_translate:
  fixes s :: "'z kmem_st_scheme"
  assumes "pt_ok s pd xs" and "0 < sz" and "va + sz \<le> 2 ^ 32" and "pa mod PGSIZE = 0" and "pa + (PGROUNDDOWN (va + sz - 1) - PGROUNDDOWN va) < 2 ^ 32"
    and "flags_only perm" and "\<forall>v. va \<le> v \<and> v < va + sz \<longrightarrow> translate (mem s) pd v = None"
  shows "\<exists>r s' xs'. mappages pd va sz pa perm s = Ok r s' \<and> grows s pd xs s' xs' \<and>
    (if r = 0
     then \<forall>v < 2 ^ 32. if PGROUNDDOWN va \<le> v \<and> v < PGROUNDDOWN (va + sz - 1) + PGSIZE
            then translate (mem s') pd v = Some (pa + (v - PGROUNDDOWN va)) \<and> PTE_FLAGS (pte_of (mem s') pd v) = perm OR PTE_P
            else translate (mem s') pd v = translate (mem s) pd v
     else r = - 1 \<and> xs' = [])"
proof -
  let ?a = "PGROUNDDOWN va" and ?l = "PGROUNDDOWN (va + sz - 1)"
  have eqm: "(va + sz + (2 ^ 32 - 1)) mod 2 ^ 32 = va + sz - 1"
  proof -
    have "va + sz + (2 ^ 32 - 1) = va + sz - 1 + 2 ^ 32" using assms(2) by simp
    then show ?thesis using assms(2,3) by (simp only: mod_add_self2) simp
  qed
  have al: "?a mod PGSIZE = 0" "?l mod PGSIZE = 0" by (simp_all only: PGROUNDDOWN_aligned)
  note b = PGROUNDDOWN_bounds [of va] PGROUNDDOWN_bounds [of "va + sz - 1"]
  have le: "?a \<le> ?l" using PGROUNDDOWN_ge [OF al(1), of "va + sz - 1"] b assms(2) by linarith
  have lt: "?l < 2 ^ 32" using b assms(2,3) by linarith
  have "?l - ?a < 2 ^ 20 * PGSIZE" using lt by (simp add: PGSIZE_def)
  moreover note assms(5)
  moreover have "\<forall>v. ?a \<le> v \<and> v < ?l + PGSIZE \<longrightarrow> pte_of (mem s) pd v AND PTE_P = 0"
    using rounded_unmapped [OF assms(2,7)] by blast
  ultimately obtain r c s' xs' where
    R: "mappages_loop (2 ^ 20) pd ?a ?l pa perm s = Ok r s'" "grows s pd xs s' xs'" "maps_to (mem s) (mem s') pd ?a c pa perm"
      "r = 0 \<and> c = ?l + PGSIZE \<or> r = - 1 \<and> xs' = []"
    using mappages_loop_spec [OF assms(1) al le lt, of "2 ^ 20" pa perm] by blast
  have m: "mappages pd va sz pa perm s = Ok r s'" unfolding mappages_def eqm by (rule R(1))
  have "if ?a \<le> v \<and> v < ?l + PGSIZE
      then translate (mem s') pd v = Some (pa + (v - ?a)) \<and> PTE_FLAGS (pte_of (mem s') pd v) = perm OR PTE_P
      else translate (mem s') pd v = translate (mem s) pd v" if "r = 0" "v < 2 ^ 32" for v
    using maps_to_translate [OF R(3) _ assms(4) al le assms(5,6) that(2)] R(4) that(1) by auto
  with m R(2,4) show ?thesis by (intro exI [of _ r] exI [of _ s'] exI [of _ xs']) auto
qed

definition two_pages :: kmem_st where
  "two_pages = \<lparr>mem = (\<lambda>_. 0), freelist = 0x80301000, use_lock = True, kend = 0x80200000\<rparr>"

lemma two_pages_ok: "pt_ok two_pages 0x80300000 [0x80301000]"
proof -
  have z: "load32 (\<lambda>_. 0) a = 0" for a by (simp add: load32_def)
  then have "\<not> has_table (\<lambda>_. 0) pd i" for pd i by (simp add: has_table_def pde_at_def)
  with z show ?thesis
    by (simp add: pt_ok_def two_pages_def free_pages_def page_ok_def page_consts inj_on_def)
qed

theorem mappages_translate_witness:
  "\<exists>s'. mappages 0x80300000 0x1000 0x1000 0x100000 PTE_W two_pages = Ok 0 s' \<and> translate (mem s') 0x80300000 0x1005 = Some 0x100005"
proof -
  have un: "translate (mem two_pages) 0x80300000 v = None" for v
    by (simp add: translate_def two_pages_def load32_def)
  have rd: "PGROUNDDOWN 0x1000 = 0x1000" "PGROUNDDOWN (0x1000 + 0x1000 - 1) = 0x1000" "(0x100000 :: nat) mod PGSIZE = 0"
    by (simp_all add: PGROUNDDOWN_def PGSIZE_def)
  have h: "0 < (0x1000 :: nat)" "0x1000 + 0x1000 \<le> (2 ^ 32 :: nat)"
    "0x100000 + (PGROUNDDOWN (0x1000 + 0x1000 - 1) - PGROUNDDOWN 0x1000) < 2 ^ 32" unfolding rd by simp_all
  have un': "\<forall>v. 0x1000 \<le> v \<and> v < 0x1000 + 0x1000 \<longrightarrow> translate (mem two_pages) 0x80300000 v = None" using un by blast
  obtain r s' and xs' :: "nat list" where R: "mappages 0x80300000 0x1000 0x1000 0x100000 PTE_W two_pages = Ok r s'"
    "if r = 0 then \<forall>v < 2 ^ 32. if 0x1000 \<le> v \<and> v < 0x1000 + PGSIZE
        then translate (mem s') 0x80300000 v = Some (0x100000 + (v - 0x1000)) \<and> PTE_FLAGS (pte_of (mem s') 0x80300000 v) = PTE_W OR PTE_P
        else translate (mem s') 0x80300000 v = translate (mem two_pages) 0x80300000 v
     else r = - 1 \<and> xs' = []"
    using mappages_translate [OF two_pages_ok h(1,2) rd(3) h(3) flags_perm(2) un', unfolded rd] by blast
  moreover have "mappages 0x80300000 0x1000 PGSIZE 0x100000 PTE_W two_pages \<noteq> Ok (- 1) s'"
    by (rule mappages_room [OF two_pages_ok]) (simp_all add: PGSIZE_def)
  ultimately have "r = 0" by (auto simp: PGSIZE_def split: if_splits)
  with R show ?thesis by (auto simp: PGSIZE_def dest!: spec [of _ "0x1005"])
qed

end
