(* ===== verification/UserMem.thy ===== *)
theory UserMem
  imports VmSpec
begin

text \<open>
  The user part of an address space, \<open>allocuvm\<close> and \<open>deallocuvm\<close> of \<open>vm.c\<close>.

  \<open>user_ok s pd xs M\<close>: below \<open>KERNBASE\<close> exactly the addresses of \<open>M\<close> are mapped, to managed pages
  that are neither free nor page tables, different virtual pages to different physical pages.
  \<open>owned\<close> collects all pages a process and the free list account for: growing and shrinking
  conserve it, so no page is lost or handed out twice.
\<close>

definition frame :: "mem \<Rightarrow> nat \<Rightarrow> nat \<Rightarrow> nat" where
  "frame m pd v = P2V (PTE_ADDR (pte_of m pd v))"

definition user_byte :: "mem \<Rightarrow> nat \<Rightarrow> nat \<Rightarrow> byte" where
  "user_byte m pd v = m (frame m pd v + v mod PGSIZE)"

definition user_ok :: "'z kmem_st_scheme \<Rightarrow> nat \<Rightarrow> nat list \<Rightarrow> nat set \<Rightarrow> bool" where
  "user_ok s pd xs M \<longleftrightarrow>
     pt_ok s pd xs \<and> KERNBASE < kend s
     \<and> (\<forall>v < KERNBASE. pte_of (mem s) pd v AND PTE_P \<noteq> 0 \<longleftrightarrow> v \<in> M)
     \<and> (\<forall>v \<in> M. v < KERNBASE \<and> page_ok s (frame (mem s) pd v) \<and> frame (mem s) pd v \<notin> tables (mem s) pd
          \<and> frame (mem s) pd v \<notin> set xs)
     \<and> (\<forall>v \<in> M. \<forall>w \<in> M. frame (mem s) pd v = frame (mem s) pd w \<longrightarrow> v div PGSIZE = w div PGSIZE)"

definition owned :: "'z kmem_st_scheme \<Rightarrow> nat \<Rightarrow> nat list \<Rightarrow> nat set \<Rightarrow> nat set" where
  "owned s pd xs M = set xs \<union> tables (mem s) pd \<union> frame (mem s) pd ` M"

definition below :: "nat \<Rightarrow> nat set" where
  "below n = {v. PGROUNDDOWN v < n}"

definition page_at :: "nat \<Rightarrow> nat set" where
  "page_at a = {v. v div PGSIZE = a div PGSIZE}"

section \<open>Frames of memory updates\<close>

lemma off_pages_byte:
  assumes "off_pages P m m'" and "aligned P" and "q mod PGSIZE = 0" and "q \<notin> P" and "k < PGSIZE"
  shows "m' (q + k) = m (q + k)"
proof -
  have "q + k < p \<or> p + PGSIZE \<le> q + k" if "p \<in> P" for p
  proof -
    have "p + PGSIZE \<le> q \<or> q + PGSIZE \<le> p"
      by (rule pages_apart) (use assms that in \<open>auto simp: aligned_def\<close>)
    with assms(5) show ?thesis by auto
  qed
  with assms(1) show ?thesis by (simp add: off_pages_def)
qed

text \<open>Writing to pages that are not page tables leaves the address space as it is.\<close>

lemma pt_frame:
  assumes off: "off_pages P m m'" and al: "aligned P" "aligned (tables m pd)" and dj: "P \<inter> tables m pd = {}"
  shows "has_table m' pd = has_table m pd" and "has_table m pd i \<Longrightarrow> table_at m' pd i = table_at m pd i"
    and "tables m' pd = tables m pd" and "pte_of m' pd = pte_of m pd"
proof -
  have pd: "pd mod PGSIZE = 0" "pd \<notin> P" using al(2) dj by (auto simp: aligned_def tables_def)
  have pde: "pde_at m' pd i = pde_at m pd i" if "i < 1024" for i
    unfolding pde_at_def by (rule off_pages_load [OF off al(1) pd]) (rule entry_inside [OF that])
  show ht: "has_table m' pd = has_table m pd"
    by (rule ext) (use pde in \<open>auto simp: has_table_def NPDENTRIES_def\<close>)
  show ts: "table_at m' pd i = table_at m pd i" if "has_table m pd i" for i
    using pde [OF has_table_less [OF that]] by (simp add: table_at_def)
  then show "tables m' pd = tables m pd" by (simp add: tables_def ht)
  have "load32 m' (table_at m pd i + 4 * PTX v) = load32 m (table_at m pd i + 4 * PTX v)" if "has_table m pd i" for i v
  proof (rule off_pages_load [OF off al(1)])
    show "table_at m pd i mod PGSIZE = 0" "table_at m pd i \<notin> P"
      using that al(2) dj by (auto simp: aligned_def tables_def)
    show "4 * PTX v + 4 \<le> PGSIZE" by (simp add: entry_inside)
  qed
  then show "pte_of m' pd = pte_of m pd" by (auto simp: fun_eq_iff pte_of_def ht ts)
qed

lemma pt_ok_frame:
  fixes s :: "'z kmem_st_scheme"
  assumes ok: "pt_ok s pd xs" and off: "off_pages P (mem s) (mem s')" and al: "aligned P" and dj: "P \<inter> tables (mem s) pd = {}"
    and fr: "free_pages s' xs'" and pk: "page_ok s' = page_ok s" and tx: "tables (mem s) pd \<inter> set xs' = {}"
  shows "pt_ok s' pd xs'"
proof -
  note D = pt_okD [OF ok] and F = pt_frame [OF off al pt_okD(10) [OF ok] dj]
  have in_t: "pd \<in> tables (mem s) pd" "has_table (mem s) pd i \<Longrightarrow> table_at (mem s) pd i \<in> tables (mem s) pd" for i
    by (simp_all add: tables_def)
  have "inj_on (table_at (mem s') pd) (Collect (has_table (mem s) pd))"
    using D(9) F(2) by (auto intro!: inj_onI) (metis)
  with D(2) D(5) D(7) F fr tx in_t show ?thesis unfolding pt_ok_def pk F(1) by auto
qed

lemma user_okD:
  assumes "user_ok s pd xs M"
  shows "pt_ok s pd xs" and "v < KERNBASE \<Longrightarrow> pte_of (mem s) pd v AND PTE_P \<noteq> 0 \<longleftrightarrow> v \<in> M"
    and "v \<in> M \<Longrightarrow> v < KERNBASE" and "v \<in> M \<Longrightarrow> page_ok s (frame (mem s) pd v)"
    and "v \<in> M \<Longrightarrow> frame (mem s) pd v mod PGSIZE = 0"
    and "v \<in> M \<Longrightarrow> frame (mem s) pd v \<notin> tables (mem s) pd" and "v \<in> M \<Longrightarrow> frame (mem s) pd v \<notin> set xs"
    and "v \<in> M \<Longrightarrow> w \<in> M \<Longrightarrow> frame (mem s) pd v = frame (mem s) pd w \<Longrightarrow> v div PGSIZE = w div PGSIZE"
    and "KERNBASE < kend s"
  using assms unfolding user_ok_def page_ok_def by blast+

text \<open>What every change of a process' memory keeps of the pages in \<open>N\<close>.\<close>

definition same_bytes :: "mem \<Rightarrow> mem \<Rightarrow> nat \<Rightarrow> nat set \<Rightarrow> bool" where
  "same_bytes m m' pd N \<longleftrightarrow> (\<forall>v \<in> N. frame m' pd v = frame m pd v \<and> user_byte m' pd v = user_byte m pd v)"

lemma same_bytes_trans:
  "same_bytes m m' pd N \<Longrightarrow> same_bytes m' m'' pd N' \<Longrightarrow> N' \<subseteq> N \<Longrightarrow> same_bytes m m'' pd N'"
  unfolding same_bytes_def by (metis subsetD)

lemma same_bytes_mono: "same_bytes m m' pd N \<Longrightarrow> N' \<subseteq> N \<Longrightarrow> same_bytes m m' pd N'"
  unfolding same_bytes_def by blast

lemma same_bytesI:
  assumes "off_pages P m m'" and "aligned P"
    and "\<And>v. v \<in> N \<Longrightarrow> pte_of m' pd v = pte_of m pd v \<and> frame m pd v mod PGSIZE = 0 \<and> frame m pd v \<notin> P"
  shows "same_bytes m m' pd N"
  unfolding same_bytes_def
proof
  fix v assume v: "v \<in> N"
  have "v mod PGSIZE < PGSIZE" by (simp add: PGSIZE_def)
  with off_pages_byte [OF assms(1,2)] assms(3) [OF v]
  show "frame m' pd v = frame m pd v \<and> user_byte m' pd v = user_byte m pd v"
    by (simp add: frame_def user_byte_def)
qed

section \<open>Releasing a page\<close>

lemma frame_page: "v \<in> page_at a \<Longrightarrow> frame m pd v = frame m pd a"
  using pte_of_page [of v a m pd] by (simp add: page_at_def frame_def)

lemma mapped_has_table: "pte_of m pd v AND PTE_P \<noteq> 0 \<Longrightarrow> has_table m pd (PDX v)"
  by (auto simp: pte_of_def split: if_splits)

lemma user_ok_upd:
  fixes s :: "'z kmem_st_scheme"
  assumes u: "user_ok s pd xs M" and ok: "pt_ok s' pd xs'" and ke: "kend s' = kend s"
    and N: "N \<subseteq> M" and pr: "\<And>v. v < KERNBASE \<Longrightarrow> pte_of (mem s') pd v AND PTE_P \<noteq> 0 \<longleftrightarrow> v \<in> N"
    and fr: "\<And>v. v \<in> N \<Longrightarrow> frame (mem s') pd v = frame (mem s) pd v"
    and nt: "\<And>v. v \<in> N \<Longrightarrow> frame (mem s) pd v \<notin> tables (mem s') pd \<union> set xs'"
  shows "user_ok s' pd xs' N"
  unfolding user_ok_def
proof (intro conjI ok allI ballI impI)
  have pk: "page_ok s' = page_ok s" using ke by (simp add: page_ok_def fun_eq_iff)
  fix v assume v: "v \<in> N"
  then have vM: "v \<in> M" using N by blast
  show "v < KERNBASE" "page_ok s' (frame (mem s') pd v)" using user_okD(3,4) [OF u vM] fr [OF v] pk by simp_all
  show "frame (mem s') pd v \<notin> tables (mem s') pd" "frame (mem s') pd v \<notin> set xs'" using nt [OF v] fr [OF v] by auto
  fix w assume w: "w \<in> N" and eq: "frame (mem s') pd v = frame (mem s') pd w"
  then show "v div PGSIZE = w div PGSIZE" using user_okD(8) [OF u vM, of w] N fr [OF v] fr [OF w] by auto
qed (use pr user_okD(9) [OF u] ke in auto)

lemma release_page:
  fixes s :: "'z kmem_st_scheme"
  assumes u: "user_ok s pd xs M" and a: "a \<in> M"
  defines "q \<equiv> table_at (mem s) pd (PDX a) + 4 * PTX a" and "p \<equiv> frame (mem s) pd a"
  obtains s' where "bnd (kfree p) (\<lambda>_. set_mem (\<lambda>m. store32 m q 0)) s = Ok () s'"
    and "user_ok s' pd (p # xs) (M - page_at a)" and "same_bytes (mem s) (mem s') pd (M - page_at a)"
    and "owned s' pd (p # xs) (M - page_at a) = owned s pd xs M"
proof -
  note D = user_okD [OF u] and T = pt_okD [OF user_okD(1) [OF u]]
  have a32: "a < 2 ^ 32" using D(3) [OF a] by (simp add: KERNBASE_def)
  from kfree_spec [OF T(1) D(4) [OF a] D(7) [OF a]] obtain m where
    m: "kfree p s = Ok () (s\<lparr>mem := m, freelist := p\<rparr>)" "free_pages (s\<lparr>mem := m, freelist := p\<rparr>) (p # xs)"
      "\<forall>x. x < p \<or> p + PGSIZE \<le> x \<longrightarrow> m x = mem s x" by (auto simp: p_def)
  define s1 where "s1 = s\<lparr>mem := m, freelist := p\<rparr>"
  have s1: "mem s1 = m" "page_ok s1 = page_ok s" by (simp_all add: s1_def page_ok_def fun_eq_iff)
  have off: "off_pages {p} (mem s) m" using m(3) by (simp add: off_pages_def)
  have al: "aligned {p}" using D(5) [OF a] by (simp add: aligned_def p_def)
  have dj: "{p} \<inter> tables (mem s) pd = {}" using D(6) [OF a] by (simp add: p_def)
  note F = pt_frame [OF off al T(10) dj]
  have ht: "has_table (mem s) pd (PDX a)" using mapped_has_table D(2) [OF D(3) [OF a]] a by blast
  have ok1: "pt_ok s1 pd (p # xs)"
    by (rule pt_ok_frame [OF D(1) _ al dj]) (use off m(2) s1 T(11) dj in \<open>auto simp: s1_def [symmetric]\<close>)
  have ht1: "has_table (mem s1) pd (PDX a)" "table_at (mem s1) pd (PDX a) + 4 * PTX a = q"
    using ht F(1) F(2) [OF ht] by (simp_all add: s1 q_def)
  define s' where "s' = s1\<lparr>mem := store32 (mem s1) q 0\<rparr>"
  note st = store_pte [OF ok1 ht1(1) a32, where e = 0, unfolded ht1(2), folded s'_def]
  have pte': "pte_of (mem s') pd v = (if v \<in> page_at a then 0 else pte_of (mem s) pd v)" if "v < 2 ^ 32" for v
    using st(2) [OF that] by (simp add: page_at_def F(4) s1)
  have ok': "pt_ok s' pd (p # xs)" using st(1) by (simp add: grows_def)
  have tab: "tables (mem s') pd = tables (mem s) pd"
    using st(1) pt_okD(11) [OF ok'] pt_okD(11) [OF ok1] F(3) by (auto simp: grows_def s1)
  have run: "bnd (kfree p) (\<lambda>_. set_mem (\<lambda>m. store32 m q 0)) s = Ok () s'"
    using m(1) by (simp add: set_mem_def s1_def s'_def)
  have v32: "v < 2 ^ 32" if "v \<in> M" for v using D(3) [OF that] by (simp add: KERNBASE_def)
  have pt_same: "pte_of (mem s') pd v = pte_of (mem s) pd v" if "v \<in> M - page_at a" for v
    using pte' [OF v32] that by simp
  have ne: "frame (mem s) pd v \<noteq> p" if "v \<in> M - page_at a" for v
    using D(8) [of v a] that a by (auto simp: p_def page_at_def)
  have off': "off_pages (insert p (tables (mem s) pd)) (mem s) (mem s')"
  proof (rule off_pages_trans [OF off])
    have "off_pages (tables (mem s) pd) (mem s1) (mem s')" using st(1) tab by (simp add: grows_def)
    then show "off_pages (insert p (tables (mem s) pd)) m (mem s')" unfolding s1 by (rule off_pages_mono) blast
  qed blast
  have ke: "kend s' = kend s" by (simp add: s'_def s1_def)
  have "user_ok s' pd (p # xs) (M - page_at a)"
  proof (rule user_ok_upd [OF u ok' ke])
    fix v :: nat assume v: "v < KERNBASE"
    then have "v < 2 ^ 32" by (simp add: KERNBASE_def)
    then show "pte_of (mem s') pd v AND PTE_P \<noteq> 0 \<longleftrightarrow> v \<in> M - page_at a" using pte' D(2) [OF v] by simp
  next
    fix v assume v: "v \<in> M - page_at a"
    show "frame (mem s') pd v = frame (mem s) pd v" using pt_same [OF v] by (simp add: frame_def)
    show "frame (mem s) pd v \<notin> tables (mem s') pd \<union> set (p # xs)" using ne [OF v] D(6,7) [of v] v tab by auto
  qed simp
  moreover have sb: "same_bytes (mem s) (mem s') pd (M - page_at a)"
  proof (rule same_bytesI [OF off'])
    show "aligned (insert p (tables (mem s) pd))" using al T(10) by (simp add: aligned_def)
    fix v assume "v \<in> M - page_at a"
    with pt_same ne D(5,6) show "pte_of (mem s') pd v = pte_of (mem s) pd v \<and> frame (mem s) pd v mod PGSIZE = 0
        \<and> frame (mem s) pd v \<notin> insert p (tables (mem s) pd)" by auto
  qed
  moreover have "owned s' pd (p # xs) (M - page_at a) = owned s pd xs M"
  proof -
    have "frame (mem s') pd ` (M - page_at a) = frame (mem s) pd ` (M - page_at a)"
      using sb by (intro image_cong) (auto simp: same_bytes_def)
    moreover have "insert p (frame (mem s) pd ` (M - page_at a)) = frame (mem s) pd ` M"
      using a frame_page [of _ a "mem s" pd] by (auto simp: p_def image_iff)
    ultimately show ?thesis by (auto simp: owned_def tab)
  qed
  ultimately show thesis using that run by blast
qed

section \<open>deallocuvm\<close>

definition range_pages :: "nat \<Rightarrow> nat \<Rightarrow> nat set" where
  "range_pages a n = {v. a \<le> v \<and> PGROUNDDOWN v < n}"

lemma user_page_closed:
  assumes "user_ok s pd xs M" and "v \<in> page_at w" and "v \<in> M" and "w < KERNBASE"
  shows "w \<in> M"
  using assms user_okD(2) [OF assms(1), of v] user_okD(2) [OF assms(1,4)] user_okD(3) [OF assms(1,3)]
    pte_of_page [of v w "mem s" pd] by (simp add: page_at_def)

lemma range_pages_step:
  assumes "a mod PGSIZE = 0" and "a < n"
  shows "range_pages a n = page_at a \<union> range_pages (a + PGSIZE) n"
proof -
  have "v \<in> page_at a \<longleftrightarrow> a \<le> v \<and> v < a + PGSIZE" for v using page_of_iff [OF assms(1)] by (simp add: page_at_def)
  moreover have "PGROUNDDOWN v = a" if "a \<le> v" "v < a + PGSIZE" for v using PGROUNDDOWN_page [OF assms(1) that] .
  ultimately show ?thesis using assms(2) by (auto simp: range_pages_def)
qed

lemma no_table_skip:
  assumes u: "user_ok s pd xs M" and a: "a < KERNBASE" and nt: "\<not> has_table (mem s) pd (PDX a)"
    and v: "v \<in> M" "a \<le> v"
  shows "(PDX a + 1) * 2 ^ 22 \<le> v"
proof (rule ccontr)
  assume "\<not> (PDX a + 1) * 2 ^ 22 \<le> v"
  moreover have d: "PDX a = a div 2 ^ 22" "PDX v = v div 2 ^ 22"
    using a user_okD(3) [OF u v(1)] by (simp_all add: PDX_def KERNBASE_def)
  ultimately have "v div 2 ^ 22 < PDX a + 1" by (simp add: less_mult_imp_div_less)
  moreover have "a div 2 ^ 22 \<le> v div 2 ^ 22" using v(2) by (rule div_le_mono)
  ultimately have "PDX v = PDX a" using d by simp
  with nt have "pte_of (mem s) pd v = 0" by (simp add: pte_of_def)
  with user_okD(2) [OF u user_okD(3) [OF u v(1)]] v(1) show False by simp
qed

lemma deallocuvm_loop_spec:
  fixes s :: "'z kmem_st_scheme"
  assumes "user_ok s pd xs M" and "a mod PGSIZE = 0" and "n \<le> KERNBASE" and "a \<le> KERNBASE"
    and "n - a + PGSIZE \<le> f * PGSIZE"
  shows "\<exists>s' xs'. deallocuvm_loop f pd a n s = Ok () s' \<and> user_ok s' pd xs' (M - range_pages a n)
    \<and> same_bytes (mem s) (mem s') pd (M - range_pages a n)
    \<and> owned s' pd xs' (M - range_pages a n) = owned s pd xs M"
  using assms
proof (induction f arbitrary: a s xs M)
  case (Suc f)
  note u = Suc.prems(1) and a = Suc.prems(2)
  show ?case
  proof (cases "a < n")
    case False
    have "PGROUNDDOWN v \<ge> a" if "a \<le> v" for v by (rule PGROUNDDOWN_ge [OF a that])
    with False have "range_pages a n = {}" by (fastforce simp: range_pages_def)
    with False u show ?thesis by (auto simp: same_bytes_def)
  next
    case True
    have ak: "a < KERNBASE" using True Suc.prems(3) by simp
    have kb: "KERNBASE mod PGSIZE = 0" by (simp add: page_consts)
    from pages_apart [OF a kb] ak have le: "a + PGSIZE \<le> KERNBASE" by linarith
    then have ml: "(a + PGSIZE) mod 2 ^ 32 = a + PGSIZE" by (simp add: KERNBASE_def)
    have fuel: "n - a' + PGSIZE \<le> f * PGSIZE" if "a + PGSIZE \<le> a'" for a'
      using that Suc.prems(5) True by (cases f) (simp_all add: PGSIZE_def)
    show ?thesis
    proof (cases "has_table (mem s) pd (PDX a)")
      case nt: False
      define b where "b = (PGADDR (PDX a + 1) 0 0 + (2 ^ 32 - PGSIZE) + PGSIZE) mod 2 ^ 32"
      note nd = next_dir [OF ak a, folded b_def]
      have "a \<le> v \<Longrightarrow> b \<le> v" if "v \<in> M" for v using no_table_skip [OF u ak nt that] nd(1) by simp
      moreover have "b \<le> v \<Longrightarrow> a \<le> v" for v using nd(3) by simp
      ultimately have M: "M - range_pages a n = M - range_pages b n" by (auto simp: range_pages_def)
      have "deallocuvm_loop (Suc f) pd a n s = deallocuvm_loop f pd b n s"
        using True walk_absent [OF nt] by (simp add: b_def)
      with Suc.IH [OF u nd(2) Suc.prems(3) nd(4) fuel [OF nd(3)]] M show ?thesis by simp
    next
      case ht: True
      define q where "q = table_at (mem s) pd (PDX a) + 4 * PTX a"
      have w: "walkpgdir pd a False s = Ok q s" using walk_present [OF ht] by (simp add: q_def)
      have q: "q \<noteq> 0" unfolding q_def by (rule table_pos [OF user_okD(1) [OF u] ht])
      have e: "load32 (mem s) q = pte_of (mem s) pd a" using ht by (simp add: pte_of_def q_def)
      have al: "(a + PGSIZE) mod PGSIZE = 0" using a by simp
      note rs = range_pages_step [OF a True]
      show ?thesis
      proof (cases "a \<in> M")
        case False
        then have "pte_of (mem s) pd a AND PTE_P = 0" using user_okD(2) [OF u ak] by blast
        then have "deallocuvm_loop (Suc f) pd a n s = deallocuvm_loop f pd (a + PGSIZE) n s"
          using True w q e ml by simp
        moreover have "M - range_pages a n = M - range_pages (a + PGSIZE) n"
          using user_page_closed [OF u _ _ ak] False unfolding rs by blast
        ultimately show ?thesis using Suc.IH [OF u al Suc.prems(3) le fuel [OF order_refl]] by simp
      next
        case aM: True
        let ?p = "frame (mem s) pd a"
        obtain s1 where s1: "bnd (kfree ?p) (\<lambda>_. set_mem (\<lambda>m. store32 m q 0)) s = Ok () s1"
          "user_ok s1 pd (?p # xs) (M - page_at a)" "same_bytes (mem s) (mem s1) pd (M - page_at a)"
          "owned s1 pd (?p # xs) (M - page_at a) = owned s pd xs M"
          using release_page [OF u aM] unfolding q_def by blast
        have pr: "pte_of (mem s) pd a AND PTE_P \<noteq> 0" using user_okD(2) [OF u ak] aM by blast
        have "PTE_ADDR (pte_of (mem s) pd a) \<noteq> 0"
          using user_okD(4) [OF u aM] user_okD(9) [OF u] by (auto simp: frame_def P2V_def page_ok_def KERNBASE_def)
        then have "deallocuvm_loop (Suc f) pd a n s = deallocuvm_loop f pd (a + PGSIZE) n s1"
          using True w q e ml pr s1(1) by (simp add: frame_def)
        moreover have "M - range_pages a n = M - page_at a - range_pages (a + PGSIZE) n" unfolding rs by blast
        moreover note Suc.IH [OF s1(2) al Suc.prems(3) le fuel [OF order_refl]]
        ultimately show ?thesis using s1(3,4) same_bytes_trans [OF s1(3)] by (metis Diff_subset)
      qed
    qed
  qed
qed (simp add: PGSIZE_def)

lemma below_iff: "n + PGSIZE \<le> 2 ^ 32 \<Longrightarrow> v \<in> below n \<longleftrightarrow> v < PGROUNDUP n"
proof -
  assume n: "n + PGSIZE \<le> 2 ^ 32"
  note b = PGROUNDUP_bounds [OF n] PGROUNDDOWN_bounds [of v]
  from pages_apart [OF PGROUNDDOWN_aligned [of v] PGROUNDUP_aligned [of n]] b
  show ?thesis unfolding below_def mem_Collect_eq by linarith
qed

lemma PGROUNDUP_kern: "n \<le> KERNBASE \<Longrightarrow> PGROUNDUP n \<le> KERNBASE" and kern_room: "n \<le> KERNBASE \<Longrightarrow> n + PGSIZE \<le> 2 ^ 32"
proof -
  assume n: "n \<le> KERNBASE"
  then show r: "n + PGSIZE \<le> 2 ^ 32" by (simp add: page_consts)
  have "KERNBASE mod PGSIZE = 0" by (simp add: page_consts)
  with pages_apart [OF PGROUNDUP_aligned [of n], of KERNBASE] PGROUNDUP_bounds [OF r] n
  show "PGROUNDUP n \<le> KERNBASE" by linarith
qed

lemma deallocuvm_spec:
  fixes s :: "'z kmem_st_scheme"
  assumes "user_ok s pd xs M" and "oldsz \<le> KERNBASE" and "newsz < oldsz"
  shows "\<exists>s' xs'. deallocuvm pd oldsz newsz s = Ok newsz s' \<and> user_ok s' pd xs' (M - range_pages (PGROUNDUP newsz) oldsz)
    \<and> same_bytes (mem s) (mem s') pd (M - range_pages (PGROUNDUP newsz) oldsz)
    \<and> owned s' pd xs' (M - range_pages (PGROUNDUP newsz) oldsz) = owned s pd xs M"
proof -
  have "newsz \<le> KERNBASE" using assms(2,3) by simp
  note k = PGROUNDUP_kern [OF this]
  have "oldsz - PGROUNDUP newsz + PGSIZE \<le> (2 ^ 20 + 1) * PGSIZE" using assms(2) by (simp add: page_consts)
  from deallocuvm_loop_spec [OF assms(1) PGROUNDUP_aligned assms(2) k this] obtain s' xs' where
    "deallocuvm_loop (2 ^ 20 + 1) pd (PGROUNDUP newsz) oldsz s = Ok () s'"
    "user_ok s' pd xs' (M - range_pages (PGROUNDUP newsz) oldsz)"
    "same_bytes (mem s) (mem s') pd (M - range_pages (PGROUNDUP newsz) oldsz)"
    "owned s' pd xs' (M - range_pages (PGROUNDUP newsz) oldsz) = owned s pd xs M" by blast
  with assms(3) show ?thesis by (auto simp: deallocuvm_def simp del: One_nat_def)
qed

section \<open>Adding a page\<close>

lemma user_ok_frame:
  fixes s :: "'z kmem_st_scheme"
  assumes u: "user_ok s pd xs M" and off: "off_pages P (mem s) (mem s')" and al: "aligned P"
    and dj: "P \<inter> (tables (mem s) pd \<union> frame (mem s) pd ` M) = {}" and fr: "free_pages s' xs'" and ke: "kend s' = kend s"
    and nx: "set xs' \<inter> (tables (mem s) pd \<union> frame (mem s) pd ` M) = {}"
  shows "user_ok s' pd xs' M" and "same_bytes (mem s) (mem s') pd M" and "tables (mem s') pd = tables (mem s) pd"
    and "pte_of (mem s') pd = pte_of (mem s) pd"
proof -
  note D = user_okD [OF u]
  have dt: "P \<inter> tables (mem s) pd = {}" using dj by blast
  note F = pt_frame [OF off al pt_okD(10) [OF D(1)] dt]
  show "tables (mem s') pd = tables (mem s) pd" "pte_of (mem s') pd = pte_of (mem s) pd" by (rule F)+
  have pk: "page_ok s' = page_ok s" using ke by (simp add: page_ok_def fun_eq_iff)
  have "pt_ok s' pd xs'" by (rule pt_ok_frame [OF D(1) off al dt fr pk]) (use nx in blast)
  then show "user_ok s' pd xs' M"
    by (rule user_ok_upd [OF u _ ke subset_refl]) (use D F nx in \<open>auto simp: frame_def\<close>)
  show "same_bytes (mem s) (mem s') pd M"
    by (rule same_bytesI [OF off al]) (use D(5) F(4) dj in auto)
qed

lemma free_spare:
  fixes s :: "'z kmem_st_scheme"
  assumes u: "user_ok s pd xs M" and x: "page_ok s x" "x \<notin> owned s pd xs M"
  obtains s' where "kfree x s = Ok () s'" and "user_ok s' pd (x # xs) M" and "same_bytes (mem s) (mem s') pd M"
    and "owned s' pd (x # xs) M = insert x (owned s pd xs M)"
proof -
  note D = user_okD [OF u] and T = pt_okD [OF user_okD(1) [OF u]]
  from kfree_spec [OF T(1) x(1)] x(2) obtain m where m: "kfree x s = Ok () (s\<lparr>mem := m, freelist := x\<rparr>)"
    "free_pages (s\<lparr>mem := m, freelist := x\<rparr>) (x # xs)" "\<forall>y. y < x \<or> x + PGSIZE \<le> y \<longrightarrow> m y = mem s y"
    by (auto simp: owned_def)
  define s' where "s' = s\<lparr>mem := m, freelist := x\<rparr>"
  have off: "off_pages {x} (mem s) (mem s')" using m(3) by (simp add: off_pages_def s'_def)
  have al: "aligned {x}" using x(1) by (simp add: aligned_def page_ok_def)
  have fr: "free_pages s' (x # xs)" and ke: "kend s' = kend s" using m(2) by (simp_all add: s'_def)
  have dj: "{x} \<inter> (tables (mem s) pd \<union> frame (mem s) pd ` M) = {}" using x(2) by (auto simp: owned_def)
  have nx: "set (x # xs) \<inter> (tables (mem s) pd \<union> frame (mem s) pd ` M) = {}" using dj T(11) D(7) by auto
  note F = user_ok_frame [OF u off al dj fr ke nx]
  have "frame (mem s') pd ` M = frame (mem s) pd ` M" by (simp add: frame_def F(4))
  then have "owned s' pd (x # xs) M = insert x (owned s pd xs M)" by (auto simp: owned_def F(3))
  with that m(1) F(1,2) show thesis by (simp add: s'_def)
qed

lemma take_page:
  fixes s :: "'z kmem_st_scheme"
  assumes u: "user_ok s pd (x # xs) M"
  defines "s' \<equiv> s\<lparr>freelist := unat (load32 (mem s) x), mem := memset (mem s) x 0 PGSIZE\<rparr>"
  shows "bnd kalloc (\<lambda>p. if p = 0 then f else bnd (set_mem (\<lambda>m. memset m p 0 PGSIZE)) (\<lambda>_. g p)) s = g x s'"
    and "user_ok s' pd xs M" and "same_bytes (mem s) (mem s') pd M" and "page_ok s' x"
    and "insert x (owned s' pd xs M) = owned s pd (x # xs) M" and "x \<notin> owned s' pd xs M"
    and "k < PGSIZE \<Longrightarrow> mem s' (x + k) = 0"
proof -
  note D = user_okD [OF u] and T = pt_okD [OF user_okD(1) [OF u]]
  have x: "page_ok s x" "x \<notin> set xs" "x \<noteq> 0" "x mod PGSIZE = 0" using T(1) by (auto simp: free_pages_def page_ok_def page_consts)
  note k = kalloc_Cons [OF T(1)]
  show "bnd kalloc (\<lambda>p. if p = 0 then f else bnd (set_mem (\<lambda>m. memset m p 0 PGSIZE)) (\<lambda>_. g p)) s = g x s'"
    using k(1) x(3) by (simp add: set_mem_def s'_def)
  show "page_ok s' x" using x(1) by (simp add: s'_def page_ok_def)
  show "k < PGSIZE \<Longrightarrow> mem s' (x + k) = 0" by (simp add: s'_def memset_apply)
  have off: "off_pages {x} (mem s) (mem s')" by (simp add: s'_def off_pages_memset)
  have al: "aligned {x}" using x(4) by (simp add: aligned_def)
  have "free_pages ((s\<lparr>freelist := unat (load32 (mem s) x)\<rparr>)\<lparr>mem := mem s'\<rparr>) xs"
    by (rule free_pages_mem [OF k(2) _ al]) (use off x(2) in simp_all)
  then have fr: "free_pages s' xs" and ke: "kend s' = kend s" by (simp_all add: s'_def)
  have dj: "{x} \<inter> (tables (mem s) pd \<union> frame (mem s) pd ` M) = {}" using T(11) D(7) by auto
  have nx: "set xs \<inter> (tables (mem s) pd \<union> frame (mem s) pd ` M) = {}" using T(11) D(7) by auto
  note F = user_ok_frame [OF u off al dj fr ke nx]
  show "user_ok s' pd xs M" "same_bytes (mem s) (mem s') pd M" by (rule F)+
  have "frame (mem s') pd ` M = frame (mem s) pd ` M" by (simp add: frame_def F(4))
  then show "insert x (owned s' pd xs M) = owned s pd (x # xs) M" "x \<notin> owned s' pd xs M"
    using dj x(2) by (auto simp: owned_def F(3))
qed

lemma page_at_kern:
  assumes "a mod PGSIZE = 0" and "a < KERNBASE"
  shows "v \<in> page_at a \<longleftrightarrow> a \<le> v \<and> v < a + PGSIZE" and "v \<in> page_at a \<Longrightarrow> v < KERNBASE" and "a + PGSIZE \<le> KERNBASE"
proof -
  show p: "v \<in> page_at a \<longleftrightarrow> a \<le> v \<and> v < a + PGSIZE" using page_of_iff [OF assms(1)] by (simp add: page_at_def)
  have "KERNBASE mod PGSIZE = 0" by (simp add: page_consts)
  with pages_apart [OF assms(1), of KERNBASE] assms(2) show "a + PGSIZE \<le> KERNBASE" by linarith
  with p show "v \<in> page_at a \<Longrightarrow> v < KERNBASE" by simp
qed

text \<open>Adding one page with the entry \<open>e\<close> for the physical page \<open>x\<close>.\<close>

lemma user_ok_add:
  fixes s :: "'z kmem_st_scheme"
  assumes u: "user_ok s pd xs M" and ok': "pt_ok s' pd xs'" and ke: "kend s' = kend s"
    and tx: "tables (mem s') pd \<union> set xs' = tables (mem s) pd \<union> set xs"
    and a: "a mod PGSIZE = 0" "a < KERNBASE" "a \<notin> M" and x: "page_ok s x" "x \<notin> owned s pd xs M"
    and e: "e AND PTE_P \<noteq> 0" "P2V (PTE_ADDR e) = x"
    and pt: "\<And>v. v < KERNBASE \<Longrightarrow> pte_of (mem s') pd v = (if v \<in> page_at a then e else pte_of (mem s) pd v)"
  shows "user_ok s' pd xs' (M \<union> page_at a)" and "owned s' pd xs' (M \<union> page_at a) = insert x (owned s pd xs M)"
proof -
  note D = user_okD [OF u] and pg = page_at_kern [OF a(1,2)]
  have pk: "page_ok s' = page_ok s" using ke by (simp add: page_ok_def fun_eq_iff)
  have dj: "v \<notin> page_at a" if "v \<in> M" for v using user_page_closed [OF u _ that a(2)] a(3) by blast
  have fr: "frame (mem s') pd v = frame (mem s) pd v" if "v \<in> M" for v
    using pt [OF D(3) [OF that]] dj [OF that] by (simp add: frame_def)
  have fx: "frame (mem s') pd v = x" if "v \<in> page_at a" for v using pt [OF pg(2) [OF that]] that e(2) by (simp add: frame_def)
  have xo: "x \<notin> tables (mem s') pd \<union> set xs'" "x \<notin> frame (mem s) pd ` M" using x(2) unfolding tx by (auto simp: owned_def)
  have nt: "frame (mem s) pd v \<notin> tables (mem s') pd \<union> set xs'" if "v \<in> M" for v
    unfolding tx using D(6,7) [OF that] by blast
  show "user_ok s' pd xs' (M \<union> page_at a)" unfolding user_ok_def
  proof (intro conjI allI impI ballI)
    fix v assume "v < KERNBASE"
    then show "pte_of (mem s') pd v AND PTE_P \<noteq> 0 \<longleftrightarrow> v \<in> M \<union> page_at a" using pt D(2) e(1) by simp
  next
    fix v assume v: "v \<in> M \<union> page_at a"
    then show "v < KERNBASE" "page_ok s' (frame (mem s') pd v)" "frame (mem s') pd v \<notin> tables (mem s') pd" "frame (mem s') pd v \<notin> set xs'"
      using D(3,4) [of v] fr [of v] fx [of v] nt [of v] xo x(1) pk pg(2) by auto
    fix w assume "w \<in> M \<union> page_at a" and eq: "frame (mem s') pd v = frame (mem s') pd w"
    then consider "v \<in> M" "w \<in> M" | "v \<in> page_at a" "w \<in> page_at a"
      using v fr fx xo(2) by (metis UnE imageI)
    then show "v div PGSIZE = w div PGSIZE"
    proof cases
      case 1
      with D(8) [OF 1] fr [OF 1(1)] fr [OF 1(2)] eq show ?thesis by simp
    qed (simp add: page_at_def)
  qed (use ok' ke D(9) in simp_all)
  have "a \<in> page_at a" by (simp add: page_at_def)
  then have "frame (mem s') pd ` page_at a = {x}" using fx by (auto simp: image_iff)
  moreover have "frame (mem s') pd ` M = frame (mem s) pd ` M" using fr by simp
  ultimately show "owned s' pd xs' (M \<union> page_at a) = insert x (owned s pd xs M)" unfolding owned_def image_Un using tx by blast
qed

lemma map_user_page:
  fixes s :: "'z kmem_st_scheme"
  assumes u: "user_ok s pd xs M" and x: "page_ok s x" "x \<notin> owned s pd xs M"
    and a: "a mod PGSIZE = 0" "a < KERNBASE" "a \<notin> M" and perm: "flags_only perm"
  obtains (ok) s' xs' where "mappages pd a PGSIZE (V2P x) perm s = Ok 0 s'" and "user_ok s' pd xs' (M \<union> page_at a)"
      and "same_bytes (mem s) (mem s') pd M" and "\<And>v. v \<in> page_at a \<Longrightarrow> user_byte (mem s') pd v = mem s (x + v mod PGSIZE)"
      and "owned s' pd xs' (M \<union> page_at a) = insert x (owned s pd xs M)"
  | (full) s' xs' where "mappages pd a PGSIZE (V2P x) perm s = Ok (- 1) s'" and "user_ok s' pd xs' M"
      and "same_bytes (mem s) (mem s') pd M" and "owned s' pd xs' M = owned s pd xs M" and "page_ok s' x"
proof -
  note D = user_okD [OF u] and pg = page_at_kern [OF a(1,2)]
  have k32: "v < 2 ^ 32" if "v < KERNBASE" for v :: nat using that by (simp add: KERNBASE_def)
  have un: "\<forall>v. a \<le> v \<and> v < a + PGSIZE \<longrightarrow> pte_of (mem s) pd v AND PTE_P = 0"
  proof (intro allI impI)
    fix v assume "a \<le> v \<and> v < a + PGSIZE"
    then have v: "v \<in> page_at a" by (simp add: pg(1))
    then have "v \<notin> M" using user_page_closed [OF u v _ a(2)] a(3) by blast
    with D(2) [OF pg(2) [OF v]] show "pte_of (mem s) pd v AND PTE_P = 0" by blast
  qed
  have 0: "a - a < 2 ^ 20 * PGSIZE" "V2P x + (a - a) < 2 ^ 32" using V2P_page(2) [OF x(1)] by (simp_all add: PGSIZE_def)
  from mappages_loop_spec [OF D(1) a(1) a(1) order_refl k32 [OF a(2)] 0 un] obtain r c s' xs' where
    R: "mappages_loop (2 ^ 20) pd a a (V2P x) perm s = Ok r s'" "grows s pd xs s' xs'"
      "maps_to (mem s) (mem s') pd a c (V2P x) perm" "r = 0 \<and> c = a + PGSIZE \<or> r = - 1 \<and> c = a" by force
  have run: "mappages pd a PGSIZE (V2P x) perm s = Ok r s'" using R(1) by (simp only: mappages_one [OF a(1) k32 [OF a(2)]])
  have ok': "pt_ok s' pd xs'" and tx: "tables (mem s') pd \<union> set xs' = tables (mem s) pd \<union> set xs"
    and off: "off_pages (tables (mem s') pd) (mem s) (mem s')" and s': "s' = s\<lparr>mem := mem s', freelist := freelist s'\<rparr>"
    using R(2) by (simp_all add: grows_def)
  have ke: "kend s' = kend s" by (subst s') simp
  note al = pt_okD(10) [OF ok']
  have pt: "pte_of (mem s') pd v = (if v \<in> page_at a \<and> r = 0 then of_nat (V2P x) OR (perm OR PTE_P) else pte_of (mem s) pd v)"
    if "v < KERNBASE" for v
    using R(3,4) k32 [OF that] pg(1) [of v] PGROUNDDOWN_page [OF a(1), of v] by (auto simp: maps_to_def map_entry_def)
  have dj: "v \<notin> page_at a" if "v \<in> M" for v using user_page_closed [OF u _ that a(2)] a(3) by blast
  have ptM: "pte_of (mem s') pd v = pte_of (mem s) pd v" if "v \<in> M" for v using pt [OF D(3) [OF that]] dj [OF that] by simp
  have nt: "frame (mem s) pd v \<notin> tables (mem s') pd \<union> set xs'" if "v \<in> M" for v
    unfolding tx using D(6,7) [OF that] by blast
  have sb: "same_bytes (mem s) (mem s') pd M"
    by (rule same_bytesI [OF off al]) (use ptM D(5) nt in blast)
  consider "r = - 1" | "r = 0" using R(4) by blast
  then show thesis
  proof cases
    case 1
    have "user_ok s' pd xs' M"
      by (rule user_ok_upd [OF u ok' ke subset_refl]) (use pt 1 D(2) nt ptM in \<open>simp_all add: frame_def\<close>)
    moreover have "owned s' pd xs' M = owned s pd xs M"
      unfolding owned_def using tx ptM by (auto simp: image_iff frame_def)
    ultimately show thesis using full run 1 sb x(1) ke by (simp add: page_ok_def)
  next
    case 2
    let ?e = "of_nat (V2P x) OR (perm OR PTE_P)"
    have e: "?e AND PTE_P \<noteq> 0" "P2V (PTE_ADDR ?e) = x"
      using present_or [of "of_nat (V2P x) OR perm"] frame_page_entry [OF x(1), of "perm OR PTE_P"] perm by (simp_all add: ac_simps)
    have pt2: "pte_of (mem s') pd v = (if v \<in> page_at a then ?e else pte_of (mem s) pd v)" if "v < KERNBASE" for v
      using pt [OF that] 2 by simp
    have "x \<notin> tables (mem s') pd" using x(2) tx by (auto simp: owned_def)
    then have "user_byte (mem s') pd v = mem s (x + v mod PGSIZE)" if "v \<in> page_at a" for v
      using off_pages_byte [OF off al, of x "v mod PGSIZE"] x(1) pt2 [OF pg(2) [OF that]] that e(2)
      by (simp add: user_byte_def frame_def page_ok_def PGSIZE_def)
    with ok run 2 sb user_ok_add [OF u ok' ke tx a x e pt2] show thesis by simp
  qed
qed

section \<open>allocuvm\<close>

definition grown :: "'z kmem_st_scheme \<Rightarrow> nat list \<Rightarrow> nat \<Rightarrow> nat \<Rightarrow> nat \<Rightarrow> 'z kmem_st_scheme \<Rightarrow> nat list \<Rightarrow> bool" where
  "grown s xs pd a n s' xs' \<longleftrightarrow>
     user_ok s' pd xs' ({..<a} \<union> below n) \<and> same_bytes (mem s) (mem s') pd {..<a}
     \<and> (\<forall>v \<in> below n. a \<le> v \<longrightarrow> user_byte (mem s') pd v = 0)
     \<and> owned s' pd xs' ({..<a} \<union> below n) = owned s pd xs {..<a}"

definition undone :: "'z kmem_st_scheme \<Rightarrow> nat list \<Rightarrow> nat \<Rightarrow> nat \<Rightarrow> nat \<Rightarrow> 'z kmem_st_scheme \<Rightarrow> nat list \<Rightarrow> bool" where
  "undone s xs pd a c s' xs' \<longleftrightarrow>
     user_ok s' pd xs' {..<c} \<and> same_bytes (mem s) (mem s') pd {..<c}
     \<and> owned s' pd xs' {..<c} = owned s pd xs {..<a}"

lemma below_upto: "a mod PGSIZE = 0 \<Longrightarrow> n \<le> a \<Longrightarrow> below n \<subseteq> {..<a}"
proof
  fix v assume a: "a mod PGSIZE = 0" "n \<le> a" and v: "v \<in> below n"
  then have "PGROUNDDOWN v < a" by (simp add: below_def)
  with pages_apart [OF PGROUNDDOWN_aligned [of v] a(1)] PGROUNDDOWN_bounds [of v] show "v \<in> {..<a}" by simp
qed

lemma below_page: "a mod PGSIZE = 0 \<Longrightarrow> a < n \<Longrightarrow> {..<a} \<union> below n = {..<a + PGSIZE} \<union> below n"
  using PGROUNDDOWN_page [of a] by (auto simp: below_def not_less)

lemma upto_page: "a mod PGSIZE = 0 \<Longrightarrow> {..<a} \<union> page_at a = {..<a + PGSIZE}"
proof -
  assume "a mod PGSIZE = 0"
  then have "page_at a = {a..<a + PGSIZE}" unfolding page_at_def by (simp only: page_of_iff set_eq_iff mem_Collect_eq atLeastLessThan_iff) simp
  then show ?thesis by auto
qed

text \<open>The routines of vm.c write only the memory and the head of the free list.\<close>

definition vm_indep :: "('z kmem_st_scheme \<Rightarrow> 'b) \<Rightarrow> bool" where
  "vm_indep f \<longleftrightarrow> (\<forall>s m x. f (s\<lparr>mem := m\<rparr>) = f s \<and> f (s\<lparr>freelist := x\<rparr>) = f s)"

lemma vm_indep_kend [simp]: "vm_indep kend"
  by (simp add: vm_indep_def)

lemma kmem_indep:
  assumes "vm_indep f"
  shows "keeps f (kfree x)" "keeps f kalloc" "keeps f (set_mem g)"
  using assms by (auto simp: keeps_def kfree_def kalloc_def set_mem_def vm_indep_def Let_def split: if_splits)

lemma walkpgdir_indep: "vm_indep f \<Longrightarrow> keeps f (walkpgdir pd v al)"
proof -
  assume f: "vm_indep f"
  have "keeps f (bnd kalloc (\<lambda>pgtab. if pgtab = 0 then ret 0
           else bnd (set_mem (\<lambda>m. memset m pgtab 0 PGSIZE)) (\<lambda>_.
                bnd (set_mem (\<lambda>m. store32 m q (of_nat (V2P pgtab) OR PTE_P OR PTE_W OR PTE_U))) (\<lambda>_.
                ret (pgtab + 4 * PTX v)))))" for q
    by (intro keeps_intro kmem_indep [OF f])
  then show ?thesis by (auto simp: keeps_def walkpgdir_def Let_def split: if_splits)
qed

lemma mappages_loop_indep: "vm_indep (f :: 'z kmem_st_scheme \<Rightarrow> 'b) \<Longrightarrow> keeps f (mappages_loop k pd a lst pa perm)"
proof (induction k arbitrary: a pa)
  case (Suc k)
  have "keeps f (bnd (walkpgdir pd a True) (\<lambda>pte.
     if pte = 0 then ret (- 1)
     else bnd (getk (\<lambda>s. load32 (mem s) pte)) (\<lambda>e.
          if e AND PTE_P \<noteq> 0 then panic ''remap''
          else bnd (set_mem (\<lambda>m. store32 m pte (of_nat pa OR perm OR PTE_P))) (\<lambda>_.
               if a = lst then ret 0
               else mappages_loop k pd ((a + PGSIZE) mod 2 ^ 32) lst ((pa + PGSIZE) mod 2 ^ 32) perm))))"
    by (intro keeps_intro kmem_indep walkpgdir_indep Suc)
  then show ?case by (simp add: keeps_def)
qed (simp add: keeps_def)

lemma deallocuvm_loop_indep: "vm_indep (f :: 'z kmem_st_scheme \<Rightarrow> 'b) \<Longrightarrow> keeps f (deallocuvm_loop k pd a n)"
proof (induction k arbitrary: a)
  case (Suc k)
  have "keeps f (bnd (walkpgdir pd a False) (\<lambda>pte.
           if pte = 0
           then deallocuvm_loop k pd
                  ((PGADDR (PDX a + 1) 0 0 + (2 ^ 32 - PGSIZE) + PGSIZE) mod 2 ^ 32) n
           else bnd (getk (\<lambda>s. load32 (mem s) pte)) (\<lambda>e.
                bnd (if e AND PTE_P \<noteq> 0
                     then if PTE_ADDR e = 0 then panic ''kfree''
                          else bnd (kfree (P2V (PTE_ADDR e))) (\<lambda>_. set_mem (\<lambda>m. store32 m pte 0))
                     else ret ()) (\<lambda>_.
                deallocuvm_loop k pd ((a + PGSIZE) mod 2 ^ 32) n))))"
    by (intro keeps_intro kmem_indep walkpgdir_indep Suc)
  then show ?case by (simp add: keeps_def)
qed (simp add: keeps_def)

lemma deallocuvm_indep: "vm_indep f \<Longrightarrow> keeps f (deallocuvm pd n k)"
  unfolding deallocuvm_def by (intro keeps_intro deallocuvm_loop_indep)

lemma allocuvm_loop_indep:
  assumes f: "vm_indep (f :: 'z kmem_st_scheme \<Rightarrow> 'b)" and "allocuvm_loop pd a oldsz newsz s = Ok r s'"
  shows "f s' = f s"
  using assms(2)
proof (induction pd a oldsz newsz s arbitrary: r s' rule: allocuvm_loop.induct)
  case (1 pd a oldsz newsz s)
  show ?case
  proof (cases "a < newsz")
    case True
    have IH: "keeps f (allocuvm_loop pd (a + PGSIZE) oldsz newsz :: ('z kmem_st_scheme, nat) kern)"
      using "1.IH" [OF True, of 1 0] by (simp add: keeps_def)
    have "keeps f (bnd kalloc (\<lambda>p.
           if p = 0 then bnd (deallocuvm pd newsz oldsz) (\<lambda>_. ret 0)
           else bnd (set_mem (\<lambda>m. memset m p 0 PGSIZE)) (\<lambda>_.
                bnd (mappages pd a PGSIZE (V2P p) (PTE_W OR PTE_U)) (\<lambda>r.
                if r < 0
                then bnd (deallocuvm pd newsz oldsz) (\<lambda>_. bnd (kfree p) (\<lambda>_. ret 0))
                else allocuvm_loop pd (a + PGSIZE) oldsz newsz))))"
      unfolding mappages_def by (intro keeps_intro kmem_indep [OF f] mappages_loop_indep [OF f] deallocuvm_indep [OF f] IH)
    with True "1.prems" show ?thesis by (auto simp: keeps_def allocuvm_loop.simps [of pd a oldsz newsz s])
  qed (use "1.prems" in \<open>simp add: allocuvm_loop.simps [of pd a oldsz newsz s]\<close>)
qed

lemma allocuvm_indep: "vm_indep f \<Longrightarrow> keeps f (allocuvm pd n k)"
  using allocuvm_loop_indep [of f] unfolding allocuvm_def by (intro keeps_intro) (auto simp: keeps_def)

lemma undo_alloc:
  fixes s :: "'z kmem_st_scheme"
  assumes u: "user_ok s pd xs {..<a}" and c: "PGROUNDUP oldsz \<le> a" "a < newsz" "newsz < KERNBASE" "oldsz < newsz"
  obtains s' xs' where "deallocuvm pd newsz oldsz s = Ok oldsz s'" and "undone s xs pd a (PGROUNDUP oldsz) s' xs'"
proof -
  have "{..<a} - range_pages (PGROUNDUP oldsz) newsz = {..<PGROUNDUP oldsz}"
  proof -
    have "PGROUNDDOWN v < newsz" if "v < a" for v using that c(2) PGROUNDDOWN_bounds(1) [of v] by simp
    then show ?thesis using c(1) by (auto simp: range_pages_def)
  qed
  with deallocuvm_spec [OF u less_imp_le [OF c(3)] c(4)] that show thesis unfolding undone_def by auto
qed

lemma undone_spare:
  fixes s :: "'z kmem_st_scheme"
  assumes "undone s xs pd a c s' xs'" and x: "page_ok s' x" "x \<notin> owned s pd xs {..<a}"
  obtains s'' where "kfree x s' = Ok () s''" and "user_ok s'' pd (x # xs') {..<c}" and "same_bytes (mem s) (mem s'') pd {..<c}"
    and "owned s'' pd (x # xs') {..<c} = insert x (owned s pd xs {..<a})"
proof -
  have d: "user_ok s' pd xs' {..<c}" "same_bytes (mem s) (mem s') pd {..<c}" "owned s' pd xs' {..<c} = owned s pd xs {..<a}"
    using assms(1) by (simp_all add: undone_def)
  with free_spare [OF d(1) x(1)] x(2) same_bytes_trans [OF d(2)] that show thesis by (metis subset_refl)
qed

lemma grown_step:
  fixes s :: "'z kmem_st_scheme"
  assumes g: "grown s1 ys pd (a + PGSIZE) n s' xs'" and sb: "same_bytes (mem s) (mem s1) pd {..<a}"
    and z: "\<And>v. v \<in> page_at a \<Longrightarrow> user_byte (mem s1) pd v = 0" and ow: "owned s1 pd ys {..<a + PGSIZE} = owned s pd xs {..<a}"
    and al: "a mod PGSIZE = 0" and an: "a < n"
  shows "grown s xs pd a n s' xs'"
proof -
  have sb1: "same_bytes (mem s1) (mem s') pd {..<a + PGSIZE}" using g by (simp add: grown_def)
  have "user_byte (mem s') pd v = 0" if "v \<in> below n" "a \<le> v" for v
  proof (cases "v < a + PGSIZE")
    case True
    with that(2) page_of_iff [OF al, of v] have "user_byte (mem s1) pd v = 0" by (intro z) (simp add: page_at_def)
    with sb1 True show ?thesis by (simp add: same_bytes_def)
  qed (use g that in \<open>simp add: grown_def\<close>)
  with g sb same_bytes_trans [OF sb same_bytes_mono [OF sb1]] ow show ?thesis
    unfolding grown_def below_page [OF al an] by auto
qed

lemma allocuvm_loop_spec:
  fixes s :: "'z kmem_st_scheme"
  assumes "user_ok s pd xs {..<a}" and "a mod PGSIZE = 0" and "PGROUNDUP oldsz \<le> a" and "oldsz \<le> PGROUNDUP oldsz" and "newsz < KERNBASE"
  shows "\<exists>r s' xs'. allocuvm_loop pd a oldsz newsz s = Ok r s'
    \<and> (r = newsz \<and> grown s xs pd a newsz s' xs' \<or> r = 0 \<and> undone s xs pd a (PGROUNDUP oldsz) s' xs')"
  using assms
proof (induction pd a oldsz newsz s arbitrary: xs rule: allocuvm_loop.induct)
  case (1 pd a oldsz newsz s)
  note u = "1.prems"(1) and al = "1.prems"(2) and c = "1.prems"(3) and nk = "1.prems"(5)
  let ?c = "PGROUNDUP oldsz"
  show ?case
  proof (cases "a < newsz")
    case False
    with below_upto [OF al, of newsz] have b: "{..<a} \<union> below newsz = {..<a}" "\<forall>v \<in> below newsz. \<not> a \<le> v" by auto
    then have "grown s xs pd a newsz s xs" unfolding grown_def b(1) using u by (simp add: same_bytes_def)
    with False show ?thesis by (auto simp: allocuvm_loop.simps [of pd a oldsz newsz s])
  next
    case True
    have on: "oldsz < newsz" using True c "1.prems"(4) by simp
    have ak: "a < KERNBASE" using True nk by simp
    note loop = allocuvm_loop.simps [of pd a oldsz newsz s]
    show ?thesis
    proof (cases xs)
      case Nil
      then have k: "kalloc s = Ok 0 s" using kalloc_Nil pt_okD(1) [OF user_okD(1) [OF u]] by simp
      obtain s' xs' where "deallocuvm pd newsz oldsz s = Ok oldsz s'" "undone s xs pd a ?c s' xs'"
        by (rule undo_alloc [OF u c True nk on])
      with True k show ?thesis by (auto simp: loop)
    next
      case (Cons x ys)
      define s2 where "s2 = s\<lparr>freelist := unat (load32 (mem s) x), mem := memset (mem s) x 0 PGSIZE\<rparr>"
      note tk = take_page [OF u [unfolded Cons], folded s2_def]
      have perm: "flags_only (PTE_W OR PTE_U)" by simp
      have aM: "a \<notin> {..<a}" by simp
      have run: "allocuvm_loop pd a oldsz newsz s = bnd (mappages pd a PGSIZE (V2P x) (PTE_W OR PTE_U)) (\<lambda>r.
          if r < 0 then bnd (deallocuvm pd newsz oldsz) (\<lambda>_. bnd (kfree x) (\<lambda>_. ret 0))
          else allocuvm_loop pd (a + PGSIZE) oldsz newsz) s2"
        using True by (simp add: loop tk(1))
      from tk(2,4,6) al ak aM perm show ?thesis
      proof (cases rule: map_user_page)
        case (ok s3 ys')
        have u3: "user_ok s3 pd ys' {..<a + PGSIZE}" using ok(2) by (simp only: upto_page [OF al])
        have "PGROUNDUP oldsz \<le> a + PGSIZE" "(a + PGSIZE) mod PGSIZE = 0" using c al by simp_all
        moreover have "(1 :: nat) \<noteq> 0" "\<not> (0 :: int) < 0" by simp_all
        ultimately have P: "(1 :: nat) \<noteq> 0" "\<not> (0 :: int) < 0" "(a + PGSIZE) mod PGSIZE = 0" "PGROUNDUP oldsz \<le> a + PGSIZE" by blast+
        from "1.IH" [OF True P(1,2) u3 P(3,4) "1.prems"(4,5)] obtain r s' xs' where R: "allocuvm_loop pd (a + PGSIZE) oldsz newsz s3 = Ok r s'"
          "r = newsz \<and> grown s3 ys' pd (a + PGSIZE) newsz s' xs' \<or> r = 0 \<and> undone s3 ys' pd (a + PGSIZE) ?c s' xs'" by blast
        have ow: "owned s3 pd ys' {..<a + PGSIZE} = owned s pd xs {..<a}"
          using ok(5) tk(5) Cons by (simp add: upto_page [OF al])
        have sb: "same_bytes (mem s) (mem s3) pd {..<a}" by (rule same_bytes_trans [OF tk(3) ok(3) subset_refl])
        have z: "user_byte (mem s3) pd v = 0" if "v \<in> page_at a" for v using ok(4) [OF that] tk(7) by (simp add: PGSIZE_def)
        have "grown s xs pd a newsz s' xs'" if "grown s3 ys' pd (a + PGSIZE) newsz s' xs'"
          by (rule grown_step [OF that sb _ ow al True]) (erule z)
        moreover have "undone s xs pd a ?c s' xs'" if "undone s3 ys' pd (a + PGSIZE) ?c s' xs'"
          using that same_bytes_trans [OF sb, of "mem s'" "{..<?c}"] c ow by (auto simp: undone_def)
        ultimately show ?thesis using R ok(1) run by auto
      next
        case (full s3 ys')
        obtain s4 zs where d: "deallocuvm pd newsz oldsz s3 = Ok oldsz s4" "undone s3 ys' pd a ?c s4 zs"
          by (rule undo_alloc [OF full(2) c True nk on])
        have "page_ok s4 x"
        proof -
          have "kend s4 = kend s3" by (rule keepsD [OF deallocuvm_indep d(1)]) simp
          then show ?thesis using full(5) by (simp add: page_ok_def)
        qed
        moreover have "x \<notin> owned s3 pd ys' {..<a}" using full(4) tk(6) by simp
        ultimately obtain s5 where s5: "kfree x s4 = Ok () s5" "user_ok s5 pd (x # zs) {..<?c}" "same_bytes (mem s3) (mem s5) pd {..<?c}"
          "owned s5 pd (x # zs) {..<?c} = insert x (owned s3 pd ys' {..<a})"
          using undone_spare [OF d(2)] by blast
        have "same_bytes (mem s) (mem s5) pd {..<?c}"
          using same_bytes_trans [OF same_bytes_trans [OF tk(3) full(3) subset_refl] s5(3)] c by auto
        then have "undone s xs pd a ?c s5 (x # zs)" using s5 full(4) tk(5) Cons by (simp add: undone_def)
        with run full(1) d(1) s5(1) show ?thesis by auto
      qed
    qed
  qed
qed

section \<open>The contract of user memory\<close>

text \<open>
  What the process code relies on.  \<open>acct s n P\<close>: the process has memory of size \<open>n\<close>, and \<open>P\<close> is the set of
  pages it shares with the free list; \<open>byte_at\<close> reads user memory.
\<close>

locale user_space =
  fixes grow :: "nat \<Rightarrow> nat \<Rightarrow> ('s, nat) kern"
    and shrink :: "nat \<Rightarrow> nat \<Rightarrow> ('s, nat) kern"
    and acct :: "'s \<Rightarrow> nat \<Rightarrow> nat set \<Rightarrow> bool"
    and byte_at :: "'s \<Rightarrow> nat \<Rightarrow> byte"
    and lim :: nat
  assumes grow_ok: "acct s n P \<Longrightarrow> n \<le> m \<Longrightarrow> m < lim \<Longrightarrow> \<exists>r s'. grow n m s = Ok r s'
      \<and> (\<forall>v \<in> below n. byte_at s' v = byte_at s v)
      \<and> (r = m \<and> acct s' m P \<and> (\<forall>v \<in> below m - below n. byte_at s' v = 0) \<or> r = 0 \<and> acct s' n P)"
    and shrink_ok: "acct s n P \<Longrightarrow> m \<le> n \<Longrightarrow> n \<le> lim \<Longrightarrow> \<exists>s'. shrink n m s = Ok m s'
      \<and> acct s' m P \<and> (\<forall>v \<in> below m. byte_at s' v = byte_at s v)"
begin

text \<open>Growing and shrinking back gives the same memory, whether or not there was room to grow.\<close>

lemma grow_shrink:
  assumes "acct s n P" and "n \<le> m" and "m < lim" and "grow n m s = Ok r s1" and "0 < r"
  shows "\<exists>s'. shrink r n s1 = Ok n s' \<and> acct s' n P \<and> (\<forall>v \<in> below n. byte_at s' v = byte_at s v)"
proof -
  from grow_ok [OF assms(1-3)] assms(4,5) have r: "r = m" "acct s1 m P" "\<forall>v \<in> below n. byte_at s1 v = byte_at s v" by auto
  with shrink_ok [OF r(2) assms(2)] assms(3) show ?thesis by fastforce
qed

end

definition accounts :: "nat \<Rightarrow> 'z kmem_st_scheme \<Rightarrow> nat \<Rightarrow> nat set \<Rightarrow> bool" where
  "accounts pd s n P \<longleftrightarrow> (\<exists>xs. user_ok s pd xs (below n) \<and> owned s pd xs (below n) = P)"

lemma below_round: "n \<le> KERNBASE \<Longrightarrow> below n = {..<PGROUNDUP n}"
  using below_iff [OF kern_room] by auto

lemma accounts_grow:
  fixes s :: "'z kmem_st_scheme"
  assumes "accounts pd s n P" and "n \<le> m" and "m < KERNBASE"
  shows "\<exists>r s'. allocuvm pd n m s = Ok r s' \<and> (\<forall>v \<in> below n. user_byte (mem s') pd v = user_byte (mem s) pd v)
    \<and> (r = m \<and> accounts pd s' m P \<and> (\<forall>v \<in> below m - below n. user_byte (mem s') pd v = 0) \<or> r = 0 \<and> accounts pd s' n P)"
proof -
  let ?c = "PGROUNDUP n"
  have n: "n \<le> KERNBASE" using assms(2,3) by simp
  note bn = below_round [OF n] and c = PGROUNDUP_bounds(1) [OF kern_room [OF n]]
  from assms(1) obtain xs where u: "user_ok s pd xs {..<?c}" and P: "owned s pd xs {..<?c} = P" by (auto simp: accounts_def bn)
  from allocuvm_loop_spec [OF u PGROUNDUP_aligned order_refl c assms(3)] obtain r s' xs' where
    R: "allocuvm_loop pd ?c n m s = Ok r s'" "r = m \<and> grown s xs pd ?c m s' xs' \<or> r = 0 \<and> undone s xs pd ?c ?c s' xs'" by blast
  have run: "allocuvm pd n m s = Ok r s'" using assms(2,3) R(1) by (simp add: allocuvm_def)
  have "{..<?c} \<union> below m = below m" unfolding bn [symmetric] using assms(2) by (auto simp: below_def)
  with R(2) P have "same_bytes (mem s) (mem s') pd {..<?c}"
    "r = m \<and> accounts pd s' m P \<and> (\<forall>v \<in> below m. ?c \<le> v \<longrightarrow> user_byte (mem s') pd v = 0) \<or> r = 0 \<and> accounts pd s' n P"
    by (auto simp: grown_def undone_def accounts_def bn)
  with run show ?thesis unfolding bn same_bytes_def by (intro exI [of _ r] exI [of _ s']) auto
qed

lemma accounts_shrink:
  fixes s :: "'z kmem_st_scheme"
  assumes "accounts pd s n P" and "m \<le> n" and "n \<le> KERNBASE"
  shows "\<exists>s'. deallocuvm pd n m s = Ok m s' \<and> accounts pd s' m P
    \<and> (\<forall>v \<in> below m. user_byte (mem s') pd v = user_byte (mem s) pd v)"
proof (cases "m = n")
  case True
  with assms(1) show ?thesis by (simp add: deallocuvm_def)
next
  case False
  with assms(2) have mn: "m < n" by simp
  have bm: "v \<in> below m \<longleftrightarrow> v < PGROUNDUP m" for v using mn assms(3) by (intro below_iff kern_room) simp
  have "below n - range_pages (PGROUNDUP m) n = below n - {v. PGROUNDUP m \<le> v \<and> v \<in> below n}"
    by (simp add: range_pages_def below_def)
  also have "{v. PGROUNDUP m \<le> v \<and> v \<in> below n} = below n - below m"
    by (simp only: set_eq_iff Diff_iff mem_Collect_eq bm not_less conj_commute simp_thms)
  also have "below n - (below n - below m) = below n \<inter> below m" by blast
  also have "\<dots> = below m" using mn by (auto simp: below_def)
  finally have "below n - range_pages (PGROUNDUP m) n = below m" .
  moreover from assms(1) obtain xs where "user_ok s pd xs (below n)" "owned s pd xs (below n) = P" by (auto simp: accounts_def)
  ultimately obtain s' xs' where "deallocuvm pd n m s = Ok m s'" "user_ok s' pd xs' (below m)"
    "same_bytes (mem s) (mem s') pd (below m)" "owned s' pd xs' (below m) = P"
    using deallocuvm_spec [OF _ assms(3) mn, of s pd xs "below n"] by auto
  then show ?thesis unfolding accounts_def same_bytes_def by blast
qed

interpretation uvm: user_space "allocuvm pd" "deallocuvm pd" "accounts pd" "\<lambda>s. user_byte (mem s) pd" KERNBASE for pd
  by (unfold_locales, (rule accounts_grow; assumption), (rule accounts_shrink; assumption))

text \<open>C5. Growing a process is all or nothing: allocuvm either gives it every page up to the new size, filled
  with zeros, or returns 0 with its memory as before; either way its old bytes are unchanged, its pages
  are distinct pages that nobody else uses, and every page is still accounted for: in the process, as a
  page table or on the free list.\<close>

theorem allocuvm_all_or_nothing:
  assumes "accounts pd s oldsz P" and "oldsz \<le> newsz" and "newsz < KERNBASE"
  shows "\<exists>r s'. allocuvm pd oldsz newsz s = Ok r s'
    \<and> (\<forall>v \<in> below oldsz. user_byte (mem s') pd v = user_byte (mem s) pd v)
    \<and> (r = newsz \<and> accounts pd s' newsz P \<and> (\<forall>v \<in> below newsz - below oldsz. user_byte (mem s') pd v = 0)
       \<or> r = 0 \<and> accounts pd s' oldsz P)"
  by (rule uvm.grow_ok [OF assms])

text \<open>C26. Growing a process and shrinking it back to its old size returns it to the memory it had, with every
  page back where it can be allocated again.\<close>

theorem allocuvm_deallocuvm_roundtrip:
  assumes "accounts pd s n P" and "n \<le> m" and "m < KERNBASE" and "allocuvm pd n m s = Ok r s1" and "0 < r"
  shows "\<exists>s'. deallocuvm pd r n s1 = Ok n s' \<and> accounts pd s' n P
    \<and> (\<forall>v \<in> below n. user_byte (mem s') pd v = user_byte (mem s) pd v)"
  by (rule uvm.grow_shrink [OF assms])

section \<open>A small memory for the witnesses\<close>

definition three_mem :: mem where
  "three_mem = store32 (\<lambda>_. 0) 0x80301000 0x80302000"

lemma three_mem_user:
  assumes "mem s = three_mem" and "freelist s = 0x80301000" and "kend s = 0x80200000"
  shows "user_ok s 0x80300000 [0x80301000, 0x80302000] {}"
proof -
  have z: "load32 three_mem a = 0" if "a + 4 \<le> 0x80301000 \<or> 0x80301004 \<le> a" for a
  proof -
    have "load32 three_mem a = load32 (\<lambda>_. 0) a" unfolding three_mem_def using that by (intro load32_store32_other) auto
    then show ?thesis by (simp add: load32_def)
  qed
  have nt: "\<not> has_table three_mem 0x80300000 i" for i
    using z [of "0x80300000 + 4 * i"] by (auto simp: has_table_def pde_at_def NPDENTRIES_def)
  have "threaded three_mem 0x80301000 [0x80301000, 0x80302000]" using z [of "0x80302000"] by (simp add: three_mem_def)
  then have fr: "free_pages s [0x80301000, 0x80302000]"
    unfolding free_pages_def assms by (simp only:) (simp add: page_ok_def page_consts assms)
  have "pt_ok s 0x80300000 [0x80301000, 0x80302000]"
    unfolding pt_ok_def using fr nt assms by (simp add: page_ok_def page_consts inj_on_def)
  moreover have "pte_of (mem s) 0x80300000 v = 0" for v using nt assms by (simp add: pte_of_def)
  ultimately show ?thesis using assms by (simp add: user_ok_def KERNBASE_def)
qed

lemma below_0 [simp]: "below 0 = {}"
  by (simp add: below_def)

text \<open>With two free pages, one for the data and one for a page table, a first page can be had.\<close>

lemma first_page:
  fixes s :: "'z kmem_st_scheme"
  assumes u: "user_ok s pd (x # y # ys) {}"
  shows "\<exists>s'. allocuvm pd 0 0x1000 s = Ok 0x1000 s'"
proof -
  define s2 where "s2 = s\<lparr>freelist := unat (load32 (mem s) x), mem := memset (mem s) x 0 PGSIZE\<rparr>"
  note tk = take_page [OF u, folded s2_def]
  have a: "(0 :: nat) mod PGSIZE = 0" "(0 :: nat) < KERNBASE" "0 \<notin> ({} :: nat set)" "flags_only (PTE_W OR PTE_U)"
    by (simp_all add: KERNBASE_def)
  from tk(2,4,6) a obtain s3 where "mappages pd 0 PGSIZE (V2P x) (PTE_W OR PTE_U) s2 = Ok 0 s3"
  proof (cases rule: map_user_page)
    case (full s' xs')
    with mappages_room [OF user_okD(1) [OF tk(2)], of 0] show thesis by (simp add: PGSIZE_def)
  qed
  moreover have "PGROUNDUP 0 = 0" by (simp add: PGROUNDUP_def PGSIZE_def)
  ultimately show ?thesis
    by (simp add: allocuvm_def KERNBASE_def allocuvm_loop.simps [of _ 0] tk(1)) (simp add: allocuvm_loop.simps PGSIZE_def)
qed

definition three_pages :: kmem_st where
  "three_pages = \<lparr>mem = three_mem, freelist = 0x80301000, use_lock = True, kend = 0x80200000\<rparr>"

lemma three_pages_user: "user_ok three_pages 0x80300000 [0x80301000, 0x80302000] {}"
  by (rule three_mem_user) (simp_all add: three_pages_def)

lemmas three_pages_alloc = first_page [OF three_pages_user]

theorem allocuvm_all_or_nothing_witness:
  "\<exists>s' P. allocuvm 0x80300000 0 0x1000 three_pages = Ok 0x1000 s' \<and> accounts 0x80300000 s' 0x1000 P
     \<and> (\<forall>v \<in> below 0x1000. user_byte (mem s') 0x80300000 v = 0)"
proof -
  have "accounts 0x80300000 three_pages 0 (owned three_pages 0x80300000 [0x80301000, 0x80302000] {})"
    unfolding accounts_def below_0 using three_pages_user by blast
  moreover have "(0 :: nat) \<le> 0x1000" "0x1000 < KERNBASE" by (simp_all add: KERNBASE_def)
  ultimately show ?thesis using allocuvm_all_or_nothing [of "0x80300000" three_pages 0 _ "0x1000"] three_pages_alloc by fastforce
qed

theorem allocuvm_deallocuvm_roundtrip_witness:
  "\<exists>s1 s'. allocuvm 0x80300000 0 0x1000 three_pages = Ok 0x1000 s1 \<and> deallocuvm 0x80300000 0x1000 0 s1 = Ok 0 s'
     \<and> accounts 0x80300000 s' 0 (owned three_pages 0x80300000 [0x80301000, 0x80302000] {})"
proof -
  have "accounts 0x80300000 three_pages 0 (owned three_pages 0x80300000 [0x80301000, 0x80302000] {})"
    unfolding accounts_def below_0 using three_pages_user by blast
  moreover have "(0 :: nat) \<le> 0x1000" "0x1000 < KERNBASE" "(0 :: nat) < 0x1000" by (simp_all add: KERNBASE_def)
  moreover obtain s1 where "allocuvm 0x80300000 0 0x1000 three_pages = Ok 0x1000 s1" using three_pages_alloc by blast
  ultimately show ?thesis using allocuvm_deallocuvm_roundtrip by blast
qed

end
