(* ===== verification/ProcMem.thy ===== *)
theory ProcMem
  imports UserMem Proc
begin

text \<open>
  Changing the size of the running process, \<open>growproc\<close> of \<open>proc.c\<close> (the system call \<open>sbrk\<close>), as a
  client of the contract of user memory in UserMem.
\<close>

lemma accounts_cong:
  assumes "mem s' = mem s" and "freelist s' = freelist s" and "kend s' = kend s"
  shows "accounts pd s' n P \<longleftrightarrow> accounts pd s n P"
proof -
  have pk: "page_ok s' = page_ok s" using assms by (simp add: page_ok_def fun_eq_iff)
  have "free_pages s' xs = free_pages s xs" for xs using assms pk by (simp add: free_pages_def)
  then have "pt_ok s' pd xs = pt_ok s pd xs" for xs by (simp add: pt_ok_def pk assms(1))
  then show ?thesis by (simp add: accounts_def user_ok_def owned_def pk assms)
qed

lemma vm_indep_fields [simp]:
  "vm_indep procs" "vm_indep cpus" "vm_indep locks" "vm_indep ncpu" "vm_indep lapicid" "vm_indep hw_if"
  by (simp_all add: vm_indep_def)

lemma switchuvm_spec:
  assumes at: "cpu_at s c" and ok: "kstack (procs s p) \<noteq> 0" "pgdir (procs s p) \<noteq> 0"
  obtains s' where "switchuvm (Some p) s = Ok () s'" and "quiet c s s'" and "cr3 s' = V2P (pgdir (procs s p))"
    and "procs s' = procs s" and "mem s' = mem s" and "freelist s' = freelist s" and "kend s' = kend s"
proof -
  let ?t = "\<lparr>esp0 = kstack (procs s p) + KSTACKSIZE, ss0 = 8 * SEG_KDATA, iomb = 0xFFFF\<rparr>"
  define s1 where "s1 = (upd_cpu c (\<lambda>cp. cp\<lparr>ts := ?t\<rparr>) (pushed c s))\<lparr>cr3 := V2P (pgdir (procs s p))\<rparr>"
  note P = pushcli_spec [OF at]
  have my: "mycpu (pushed c s) = Ok c (pushed c s)" by (rule mycpu_off [OF P(2)]) (simp add: pushed_def)
  have "find_cpu (cpus s1) (lapicid s) [0..<ncpu s] = find_cpu (cpus s) (lapicid s) [0..<ncpu s]"
    by (rule find_cpu_cong) (simp add: s1_def upd_cpu_def pushed_def)
  then have at1: "cpu_at s1 c" "0 < ncli (cpus s1 c)"
    using at by (simp_all add: cpu_at_def) (simp_all add: s1_def upd_cpu_def pushed_def)
  note Q = popcli_spec [OF at1]
  have run: "switchuvm (Some p) s = Ok () (popped c s1)"
    using ok Q(1) my by (simp add: switchuvm_def P(1) s1_def)
  have "quiet c s (popped c s1)"
    using Q(2) at by (auto simp: quiet_def popped_def s1_def upd_cpu_def pushed_def cpu_at_def fun_eq_iff)
  with run show thesis
    by (rule that) (simp_all add: popped_def s1_def upd_cpu_def pushed_def)
qed

text \<open>What \<open>growproc\<close> leaves when it succeeds with the new size \<open>n\<close>.\<close>

definition resized :: "nat \<Rightarrow> nat \<Rightarrow> nat \<Rightarrow> nat set \<Rightarrow> 'z proc_st_scheme \<Rightarrow> 'z proc_st_scheme \<Rightarrow> bool" where
  "resized c p n P s s' \<longleftrightarrow> quiet c s s' \<and> procs s' = (procs s)(p := (procs s p)\<lparr>psz := n\<rparr>)
     \<and> accounts (pgdir (procs s p)) s' n P
     \<and> (\<forall>v \<in> below (min n (psz (procs s p))). user_byte (mem s') (pgdir (procs s p)) v = user_byte (mem s) (pgdir (procs s p)) v)"

definition unchanged :: "nat \<Rightarrow> nat \<Rightarrow> nat set \<Rightarrow> 'z proc_st_scheme \<Rightarrow> 'z proc_st_scheme \<Rightarrow> bool" where
  "unchanged c p P s s' \<longleftrightarrow> quiet c s s' \<and> procs s' = procs s \<and> accounts (pgdir (procs s p)) s' (psz (procs s p)) P
     \<and> (\<forall>v \<in> below (psz (procs s p)). user_byte (mem s') (pgdir (procs s p)) v = user_byte (mem s) (pgdir (procs s p)) v)"

lemma same_locks_vm:
  fixes s :: "'z proc_st_scheme"
  assumes "keeps cpus m" and "keeps locks m" and "keeps hw_if m" and "keeps lapicid m" and "keeps ncpu m" and "m s = Ok r s'"
  shows "same_locks s s'"
  using keepsD [OF assms(1,6)] keepsD [OF assms(2,6)] keepsD [OF assms(3,6)] keepsD [OF assms(4,6)] keepsD [OF assms(5,6)]
  by (simp add: same_locks_def)

lemma finish_resize:
  fixes s t :: "'z proc_st_scheme"
  assumes q: "quiet c s t" and ps: "procs t = procs s" and ac: "accounts (pgdir (procs s p)) t n P"
    and bs: "\<forall>v \<in> below (min n (psz (procs s p))). user_byte (mem t) (pgdir (procs s p)) v = user_byte (mem s) (pgdir (procs s p)) v"
    and ok: "kstack (procs s p) \<noteq> 0" "pgdir (procs s p) \<noteq> 0"
  obtains s' where "bnd (upd_proc p (\<lambda>q. q\<lparr>psz := n\<rparr>)) (\<lambda>_. bnd (switchuvm (Some p)) (\<lambda>_. ret 0)) t = Ok (0 :: int) s'"
    and "resized c p n P s s'"
proof -
  let ?t = "t\<lparr>procs := (procs t)(p := (procs t p)\<lparr>psz := n\<rparr>)\<rparr>"
  have "cpu_at t c" using q by (simp only: quiet_def)
  then have at: "cpu_at ?t c" by (simp add: cpu_at_def)
  obtain s' where s': "switchuvm (Some p) ?t = Ok () s'" "quiet c ?t s'" "procs s' = procs ?t"
    "mem s' = mem ?t" "freelist s' = freelist ?t" "kend s' = kend ?t"
    by (rule switchuvm_spec [OF at, of p]) (use ok ps in simp_all)
  have "quiet c s ?t" by (rule quiet_same_locks [OF q]) (simp add: same_locks_def)
  then have "quiet c s s'" by (rule quiet_trans) (rule s'(2))
  moreover have "accounts (pgdir (procs s p)) s' n P" using ac s' by (simp add: accounts_cong [of s' t])
  ultimately have "resized c p n P s s'" using s' ps bs by (simp add: resized_def)
  with s'(1) show thesis by (intro that) (simp_all add: upd_proc_def)
qed

lemma vm_quiet:
  fixes t :: "'z proc_st_scheme"
  assumes "quiet c s t"
  shows "allocuvm pd n k t = Ok r u \<Longrightarrow> quiet c s u \<and> procs u = procs t"
    and "deallocuvm pd n k t = Ok r u \<Longrightarrow> quiet c s u \<and> procs u = procs t"
proof -
  assume a: "allocuvm pd n k t = Ok r u"
  have "same_locks t u" by (rule same_locks_vm [where m = "allocuvm pd n k"]) (simp_all add: allocuvm_indep a)
  with assms a show "quiet c s u \<and> procs u = procs t" by (auto intro: quiet_same_locks keepsD [OF allocuvm_indep])
next
  assume a: "deallocuvm pd n k t = Ok r u"
  have "same_locks t u" by (rule same_locks_vm [where m = "deallocuvm pd n k"]) (simp_all add: deallocuvm_indep a)
  with assms a show "quiet c s u \<and> procs u = procs t" by (auto intro: quiet_same_locks keepsD [OF deallocuvm_indep])
qed

text \<open>A process that runs on processor \<open>c\<close> in slot \<open>p\<close>, its memory accounted for by \<open>P\<close>.\<close>

definition runs :: "nat \<Rightarrow> nat \<Rightarrow> nat set \<Rightarrow> 'z proc_st_scheme \<Rightarrow> bool" where
  "runs c p P s \<longleftrightarrow> cpu_at s c \<and> cproc (cpus s c) = Some p \<and> kstack (procs s p) \<noteq> 0 \<and> pgdir (procs s p) \<noteq> 0
     \<and> psz (procs s p) < KERNBASE \<and> accounts (pgdir (procs s p)) s (psz (procs s p)) P"

lemma runs_noted:
  fixes s :: "'z proc_st_scheme"
  assumes "runs c p P s"
  obtains t where "myproc_nn s = Ok p t" and "quiet c s t" and "procs t = procs s" and "mem t = mem s"
    and "accounts (pgdir (procs s p)) t (psz (procs s p)) P"
proof -
  let ?t = "popped c (pushed c s)"
  have at: "cpu_at s c" "cproc (cpus s c) = Some p" "accounts (pgdir (procs s p)) s (psz (procs s p)) P"
    using assms by (simp_all add: runs_def)
  note M = myproc_spec [OF at(1)]
  have "myproc_nn s = Ok p ?t" using M(1) at(2) by (simp add: myproc_nn_def bnd_def)
  moreover have "procs ?t = procs s" "mem ?t = mem s" "freelist ?t = freelist s" "kend ?t = kend s"
    by (simp_all add: popped_def pushed_def)
  ultimately show thesis using that M(2) at(3) accounts_cong [of ?t s] by simp
qed

text \<open>The new size that \<open>growproc\<close> computes: \<open>sz + n\<close> modulo \<open>2^32\<close>.\<close>

lemma new_size:
  assumes "sz < KERNBASE" and "- (2 ^ 31) \<le> n" and "n < 2 ^ 31"
  shows "nat ((int sz + n) mod 2 ^ 32) = (if int sz + n < 0 then nat (int sz + n + 2 ^ 32) else nat (int sz + n))"
proof (cases "int sz + n < 0")
  case True
  have "(int sz + n) mod 2 ^ 32 = (int sz + n + 2 ^ 32) mod 2 ^ 32" by simp
  also have "\<dots> = int sz + n + 2 ^ 32" using True assms by (intro mod_pos_pos_trivial) auto
  finally show ?thesis using True by simp
next
  case False
  then have "(int sz + n) mod 2 ^ 32 = int sz + n" using assms by (intro mod_pos_pos_trivial) (auto simp: KERNBASE_def)
  with False show ?thesis by simp
qed

lemma growproc_grow:
  fixes s :: "'z proc_st_scheme"
  assumes r: "runs c p P s" and n: "0 < n" "n < 2 ^ 31"
  shows "\<exists>r s'. growproc n s = Ok r s' \<and> (r = 0 \<and> resized c p (nat (int (psz (procs s p)) + n)) P s s' \<or> r = - 1 \<and> unchanged c p P s s')"
proof -
  let ?pr = "procs s p" and ?m = "nat (int (psz (procs s p)) + n)"
  have w: "kstack ?pr \<noteq> 0" "pgdir ?pr \<noteq> 0" "psz ?pr < KERNBASE" using r by (simp_all add: runs_def)
  obtain t where t: "myproc_nn s = Ok p t" "quiet c s t" "procs t = procs s" "mem t = mem s" "accounts (pgdir ?pr) t (psz ?pr) P"
    by (rule runs_noted [OF r])
  have new: "nat ((int (psz ?pr) + n) mod 4294967296) = ?m" using new_size [OF w(3), of n] n by simp
  have le: "psz ?pr \<le> ?m" and m0: "?m \<noteq> 0" using n by simp_all
  have run: "growproc n s = bnd (allocuvm (pgdir ?pr) (psz ?pr) ?m) (\<lambda>sz. if sz = 0 then ret (- 1)
      else bnd (upd_proc p (\<lambda>q. q\<lparr>psz := sz\<rparr>)) (\<lambda>_. bnd (switchuvm (Some p)) (\<lambda>_. ret 0))) t"
    using t(1,3) n(1) by (simp add: growproc_def new Let_def)
  show ?thesis
  proof (cases "?m < KERNBASE")
    case False
    then have "growproc n s = Ok (- 1) t" unfolding run by (simp add: allocuvm_def)
    with t show ?thesis by (auto simp: unchanged_def)
  next
    case True
    from uvm.grow_ok [OF t(5) le True] obtain k u where u: "allocuvm (pgdir ?pr) (psz ?pr) ?m t = Ok k u"
      "\<forall>v \<in> below (psz ?pr). user_byte (mem u) (pgdir ?pr) v = user_byte (mem t) (pgdir ?pr) v"
      "k = ?m \<and> accounts (pgdir ?pr) u ?m P \<or> k = 0 \<and> accounts (pgdir ?pr) u (psz ?pr) P" by blast
    have q: "quiet c s u" "procs u = procs s" using vm_quiet(1) [OF t(2) u(1)] t(3) by simp_all
    from u(3) show ?thesis
    proof (elim disjE conjE)
      assume k: "k = ?m" and ac: "accounts (pgdir ?pr) u ?m P"
      have "\<forall>v \<in> below (min ?m (psz ?pr)). user_byte (mem u) (pgdir ?pr) v = user_byte (mem s) (pgdir ?pr) v"
        using u(2) le t(4) by (simp add: min_def)
      from finish_resize [OF q ac this w(1,2)] obtain s' where
        "bnd (upd_proc p (\<lambda>q. q\<lparr>psz := ?m\<rparr>)) (\<lambda>_. bnd (switchuvm (Some p)) (\<lambda>_. ret 0)) u = Ok (0 :: int) s'" "resized c p ?m P s s'" .
      then show ?thesis using u(1) k m0 unfolding run by auto
    next
      assume "k = 0" "accounts (pgdir ?pr) u (psz ?pr) P"
      with u q t(4) show ?thesis unfolding run by (auto simp: unchanged_def)
    qed
  qed
qed

lemma growproc_shrink:
  fixes s :: "'z proc_st_scheme"
  assumes r: "runs c p P s" and n: "n < 0" "- int (psz (procs s p)) \<le> n"
  obtains u where "growproc n s = (if int (psz (procs s p)) + n = 0 then Ok (- 1) u
      else bnd (upd_proc p (\<lambda>q. q\<lparr>psz := nat (int (psz (procs s p)) + n)\<rparr>)) (\<lambda>_. bnd (switchuvm (Some p)) (\<lambda>_. ret 0)) u)"
    and "quiet c s u" and "procs u = procs s" and "accounts (pgdir (procs s p)) u (nat (int (psz (procs s p)) + n)) P"
    and "\<forall>v \<in> below (nat (int (psz (procs s p)) + n)). user_byte (mem u) (pgdir (procs s p)) v = user_byte (mem s) (pgdir (procs s p)) v"
proof -
  let ?pr = "procs s p" and ?m = "nat (int (psz (procs s p)) + n)"
  have w: "psz ?pr < KERNBASE" using r by (simp_all add: runs_def)
  obtain t where t: "myproc_nn s = Ok p t" "quiet c s t" "procs t = procs s" "mem t = mem s" "accounts (pgdir ?pr) t (psz ?pr) P"
    by (rule runs_noted [OF r])
  have "- (2 ^ 31) \<le> n" using n(2) w by (simp add: KERNBASE_def)
  with new_size [OF w this] n have new: "nat ((int (psz ?pr) + n) mod 4294967296) = ?m" by simp
  have "?m \<le> psz ?pr" using n by simp
  from uvm.shrink_ok [OF t(5) this] w obtain u where u: "deallocuvm (pgdir ?pr) (psz ?pr) ?m t = Ok ?m u"
    "accounts (pgdir ?pr) u ?m P" "\<forall>v \<in> below ?m. user_byte (mem u) (pgdir ?pr) v = user_byte (mem t) (pgdir ?pr) v" by auto
  have "growproc n s = (if int (psz ?pr) + n = 0 then Ok (- 1) u
      else bnd (upd_proc p (\<lambda>q. q\<lparr>psz := ?m\<rparr>)) (\<lambda>_. bnd (switchuvm (Some p)) (\<lambda>_. ret 0)) u)"
    using t(1,3) n u(1) by (simp add: growproc_def new Let_def)
  with that vm_quiet(2) [OF t(2) u(1)] u t(3,4) show thesis by simp
qed


definition sbrk_state :: proc_st where
  "sbrk_state = boot_procs\<lparr>mem := three_mem, freelist := 0x80301000, cpus := (\<lambda>i. (cpus boot_procs i)\<lparr>cproc := Some 0\<rparr>),
     procs := (\<lambda>_. (procs boot_procs 0)\<lparr>pgdir := 0x80300000, kstack := 0x80310000\<rparr>)\<rparr>"

lemma sbrk_state_runs:
  "runs 0 0 (owned sbrk_state 0x80300000 [0x80301000, 0x80302000] {}) sbrk_state" (is ?r)
  "\<exists>s'. growproc 0x1000 sbrk_state = Ok 0 s'
     \<and> resized 0 0 0x1000 (owned sbrk_state 0x80300000 [0x80301000, 0x80302000] {}) sbrk_state s'"
proof -
  have u: "user_ok sbrk_state 0x80300000 [0x80301000, 0x80302000] {}"
    by (rule three_mem_user) (simp_all add: sbrk_state_def boot_procs_def)
  have f: "pgdir (procs sbrk_state 0) = 0x80300000" "psz (procs sbrk_state 0) = 0" "kstack (procs sbrk_state 0) = 0x80310000"
    "cproc (cpus sbrk_state 0) = Some 0" by (simp_all add: sbrk_state_def boot_procs_def)
  have at: "cpu_at sbrk_state 0" by (simp add: sbrk_state_def boot_procs_def cpu_at_def)
  have "accounts 0x80300000 sbrk_state 0 (owned sbrk_state 0x80300000 [0x80301000, 0x80302000] {})"
    unfolding accounts_def below_0 using u by blast
  with at show r: ?r by (simp add: runs_def f KERNBASE_def)
  obtain t where t: "myproc_nn sbrk_state = Ok 0 t" "procs t = procs sbrk_state"
    by (rule runs_noted [OF r])
  have "t = popped 0 (pushed 0 sbrk_state)" using t(1) myproc_spec(1) [OF at] f(4) by (simp add: myproc_nn_def bnd_def)
  then have "user_ok t 0x80300000 [0x80301000, 0x80302000] {}"
    by (intro three_mem_user) (simp_all add: popped_def pushed_def sbrk_state_def boot_procs_def)
  from first_page [OF this] obtain u where "allocuvm 0x80300000 0 0x1000 t = Ok 0x1000 u" by blast
  then have "growproc 0x1000 sbrk_state \<noteq> Ok (- 1) s'" for s'
    using t f by (auto simp: growproc_def Let_def upd_proc_def bnd_def split: res.splits)
  with growproc_grow [OF r, of "0x1000"] show "\<exists>s'. growproc 0x1000 sbrk_state = Ok 0 s'
      \<and> resized 0 0 0x1000 (owned sbrk_state 0x80300000 [0x80301000, 0x80302000] {}) sbrk_state s'"
    by (auto simp: f)
qed


text \<open>Shrinking a process to size 0 goes wrong: growproc frees all its pages but takes the new size 0 for
  the failure value of deallocuvm, returns -1 and leaves the recorded size as it was.\<close>

lemma growproc_to_zero:
  fixes s :: "'z proc_st_scheme"
  assumes "runs c p P s" and "0 < psz (procs s p)"
  shows "\<exists>s'. growproc (- int (psz (procs s p))) s = Ok (- 1) s' \<and> psz (procs s' p) = psz (procs s p)
    \<and> accounts (pgdir (procs s p)) s' 0 P"
proof -
  have n: "- int (psz (procs s p)) < 0" using assms(2) by simp
  show ?thesis by (rule growproc_shrink [OF assms(1) n order_refl]) auto
qed

theorem growproc_to_zero_witness:
  "\<exists>(s :: proc_st) s'. psz (procs s 0) = 0x1000 \<and> growproc (- 0x1000) s = Ok (- 1) s' \<and> psz (procs s' 0) = 0x1000"
proof -
  let ?P = "owned sbrk_state 0x80300000 [0x80301000, 0x80302000] {}"
  obtain s1 where "resized 0 0 0x1000 ?P sbrk_state s1" using sbrk_state_runs(2) by blast
  then have q: "quiet 0 sbrk_state s1" "procs s1 0 = (procs sbrk_state 0)\<lparr>psz := 0x1000\<rparr>" "accounts 0x80300000 s1 0x1000 ?P"
    by (simp_all add: resized_def sbrk_state_def boot_procs_def)
  have "cpu_at s1 0" "cproc (cpus s1 0) = Some 0"
    using q(1) by (simp_all only: quiet_def) (simp_all add: sbrk_state_def boot_procs_def)
  with q have "runs 0 0 ?P s1" by (simp add: runs_def sbrk_state_def boot_procs_def KERNBASE_def)
  from growproc_to_zero [OF this] q(2) obtain s' where
    "growproc (- 0x1000) s1 = Ok (- 1) s'" "psz (procs s' 0) = 0x1000" "psz (procs s1 0) = 0x1000" by auto
  then show ?thesis by blast
qed

end
