(* ===== verification/ConsoleSpec.thy ===== *)
theory ConsoleSpec
  imports Console
begin

text \<open>
  The line discipline of the console.

  The input ring with its three wrapping counters refines a pair of byte lists: the bytes of finished
  lines that nobody has read yet, \<open>committed\<close>, and the line being typed, \<open>editing\<close>.  \<open>discipline\<close> says what
  a key does to the pair.  On the way the cursor is shown to stay on the screen, so that echoing a
  character never panics.
\<close>

section \<open>The screen\<close>

definition cons_ready :: "'z cons_st_scheme \<Rightarrow> bool" where
  "cons_ready s \<longleftrightarrow> \<not> panicked s \<and> cur_pos s < 24 * 80"

definition screen_frame :: "'z cons_st_scheme \<Rightarrow> 'z cons_st_scheme \<Rightarrow> bool" where
  "screen_frame s s' \<longleftrightarrow> s' = s\<lparr>crt := crt s', cur_pos := cur_pos s', uart_out := uart_out s'\<rparr>"

lemma screen_frame_eq: "screen_frame s s' \<Longrightarrow> s' = s\<lparr>crt := crt s', cur_pos := cur_pos s', uart_out := uart_out s'\<rparr>"
  by (simp add: screen_frame_def)

lemma screen_frame_refl [simp]: "screen_frame s s"
  by (simp add: screen_frame_def)

lemma screen_frame_trans:
  assumes "screen_frame s t" and "screen_frame t u"
  shows "screen_frame s u"
  using assms unfolding screen_frame_def by (cases s; cases t; cases u) simp

lemma screen_frame_fields:
  assumes "screen_frame s s'"
  shows "input s' = input s" "panicked s' = panicked s" "same_locks s s'" "procs s' = procs s" "cpus s' = cpus s"
  by (subst screen_frame_eq [OF assms], simp add: same_locks_def)+

lemma cga_advance_le:
  assumes "pos < 24 * 80"
  shows "cga_advance c pos \<le> 24 * 80"
proof -
  have "pos div 80 < 24" using assms by (simp add: less_mult_imp_div_less)
  then have "pos + (80 - pos mod 80) \<le> 24 * 80" using div_mult_mod_eq [of pos 80] mod_less_divisor [of 80 pos] by linarith
  with assms show ?thesis by (auto simp: cga_advance_def)
qed

text \<open>What \<open>cgaputc\<close> leaves: the cursor moved on, and the cells outside the 25 lines untouched.\<close>

lemma cgaputc_spec:
  assumes "cur_pos s < 24 * 80"
  obtains s' where "cgaputc c s = Ok () s'" and "screen_frame s s'" and "cur_pos s' < 24 * 80"
    and "\<And>i. 24 * 80 \<le> i \<Longrightarrow> crt s' i = crt s i"
proof -
  define pos where "pos = cga_advance c (cur_pos s)"
  define pos' where "pos' = (if pos div 80 \<ge> 24 then pos - 80 else pos)"
  have le: "pos \<le> 24 * 80" unfolding pos_def by (rule cga_advance_le [OF assms])
  have lt: "pos' < 24 * 80" using le by (auto simp: pos'_def not_le less_eq_div_iff_mult_less_eq)
  define m1 where "m1 = (if c \<noteq> 10 \<and> c \<noteq> BACKSPACE then (crt s)(cur_pos s := (word_of_int c AND 0xff) OR 0x0700) else crt s)"
  define m2 where "m2 = (if pos div 80 \<ge> 24 then cga_scroll pos' m1 else m1)"
  let ?s = "s\<lparr>cur_pos := pos', crt := m2(pos' := 0x0720)\<rparr>"
  have "cgaputc c s = Ok () ?s"
    using le by (auto simp: cgaputc_def Let_def m2_def m1_def pos'_def pos_def)
  moreover have "m2 i = crt s i" if "24 * 80 \<le> i" for i
    using that assms by (auto simp: m2_def m1_def cga_scroll_def)
  ultimately show thesis using that [of ?s] lt by (simp add: screen_frame_def)
qed

lemma consputc_spec:
  assumes "cons_ready s"
  obtains s' where "consputc c s = Ok () s'" and "screen_frame s s'" and "cons_ready s'"
proof -
  have u: "\<exists>t. (if c = BACKSPACE then bnd (uartputc 8) (\<lambda>_. bnd (uartputc 32) (\<lambda>_. uartputc 8)) else uartputc c) s = Ok () t
      \<and> screen_frame s t \<and> cur_pos t = cur_pos s"
    by (simp add: uartputc_def screen_frame_def)
  then obtain t where t: "(if c = BACKSPACE then bnd (uartputc 8) (\<lambda>_. bnd (uartputc 32) (\<lambda>_. uartputc 8)) else uartputc c) s = Ok () t"
    "screen_frame s t" "cur_pos t = cur_pos s" by blast
  from cgaputc_spec [of t c] t(3) assms obtain s' where s': "cgaputc c t = Ok () s'" "screen_frame t s'" "cur_pos s' < 24 * 80"
    by (auto simp: cons_ready_def)
  have fr: "screen_frame s s'" by (rule screen_frame_trans [OF t(2) s'(2)])
  have "consputc c s = bnd (if c = BACKSPACE then bnd (uartputc 8) (\<lambda>_. bnd (uartputc 32) (\<lambda>_. uartputc 8)) else uartputc c)
      (\<lambda>_. cgaputc c) s"
    using assms by (simp add: consputc_def cons_ready_def bnd_def)
  also have "\<dots> = cgaputc c t" by (rule bnd_Ok) (rule t(1))
  finally have "consputc c s = Ok () s'" using s'(1) by simp
  moreover have "cons_ready s'" using assms s'(3) screen_frame_fields(2) [OF fr] by (simp add: cons_ready_def)
  ultimately show thesis using that fr by blast
qed

section \<open>The input ring\<close>

definition ring_bytes :: "input_buf \<Rightarrow> uint32 \<Rightarrow> uint32 \<Rightarrow> byte list" where
  "ring_bytes b i j = map (\<lambda>k. in_buf b (slot (i + of_nat k))) [0..<unat (j - i)]"

definition committed :: "input_buf \<Rightarrow> byte list" where
  "committed b = ring_bytes b (in_r b) (in_w b)"

definition editing :: "input_buf \<Rightarrow> byte list" where
  "editing b = ring_bytes b (in_w b) (in_e b)"

definition input_ok :: "input_buf \<Rightarrow> bool" where
  "input_ok b \<longleftrightarrow> unat (in_w b - in_r b) + unat (in_e b - in_w b) \<le> INPUT_BUF \<and> 10 \<notin> set (editing b)"

lemma slot_add: "slot (a + of_nat k) = (unat a + k) mod INPUT_BUF"
proof -
  have "unat (a + of_nat k :: uint32) = (unat a + k) mod 2 ^ 32"
    by (simp add: unat_word_ariths unat_of_nat mod_simps)
  moreover have "INPUT_BUF dvd 2 ^ 32" by (simp add: INPUT_BUF_def)
  ultimately show ?thesis by (simp add: slot_def mod_mod_cancel)
qed

lemma slot_ne:
  assumes "k < d" and "d < INPUT_BUF"
  shows "slot (a + of_nat k) \<noteq> slot (a + of_nat d)"
proof
  assume "slot (a + of_nat k) = slot (a + of_nat d)"
  then have "(unat a + d) mod INPUT_BUF = (unat a + k) mod INPUT_BUF" by (simp only: slot_add)
  then have "INPUT_BUF dvd (unat a + d) - (unat a + k)"
    using assms(1) by (subst mod_eq_dvd_iff_nat [symmetric]) auto
  then have "INPUT_BUF dvd d - k" by simp
  then show False using assms by (auto dest: dvd_imp_le)
qed

lemma length_ring [simp]: "length (ring_bytes b i j) = unat (j - i)"
  by (simp add: ring_bytes_def)

lemma unat_split:
  assumes "unat (j - i :: uint32) + unat (k - j) \<le> INPUT_BUF"
  shows "unat (k - i) = unat (j - i) + unat (k - j)"
proof -
  have "k - i = (j - i) + (k - j)" by simp
  then have "unat (k - i) = (unat (j - i) + unat (k - j)) mod 2 ^ 32" by (simp only: unat_word_ariths) simp
  with assms show ?thesis by (simp add: INPUT_BUF_def)
qed

lemma ring_append:
  assumes "unat (j - i) + unat (k - j) \<le> INPUT_BUF"
  shows "ring_bytes b i k = ring_bytes b i j @ ring_bytes b j k"
proof (rule nth_equalityI)
  show "length (ring_bytes b i k) = length (ring_bytes b i j @ ring_bytes b j k)" using unat_split [OF assms] by simp
  fix n assume "n < length (ring_bytes b i k)"
  then have n: "n < unat (k - i)" by simp
  show "ring_bytes b i k ! n = (ring_bytes b i j @ ring_bytes b j k) ! n"
  proof (cases "n < unat (j - i)")
    case True
    with n show ?thesis by (simp add: ring_bytes_def nth_append)
  next
    case False
    have "j + of_nat (n - unat (j - i)) = i + of_nat n" using False by (simp add: of_nat_diff)
    with False n unat_split [OF assms] show ?thesis by (simp add: ring_bytes_def nth_append add.commute)
  qed
qed

lemma ring_one: "ring_bytes b j (j + 1) = [in_buf b (slot j)]"
  by (simp add: ring_bytes_def)

lemma unat_next:
  assumes "unat (j - i :: uint32) < INPUT_BUF"
  shows "unat (j + 1 - i) = Suc (unat (j - i))"
  using unat_split [of j i "j + 1"] assms by simp

lemma ring_snoc:
  assumes "unat (j - i :: uint32) < INPUT_BUF"
  shows "ring_bytes b i (j + 1) = ring_bytes b i j @ [in_buf b (slot j)]"
  using ring_append [of j i "j + 1" b] assms ring_one [of b j] by simp

lemma ring_upd:
  assumes "unat (j - i :: uint32) \<le> unat (p - i)" and "unat (p - i) < INPUT_BUF"
  shows "ring_bytes (b\<lparr>in_buf := (in_buf b)(slot p := c)\<rparr>) i j = ring_bytes b i j"
proof -
  have "slot (i + of_nat k) \<noteq> slot p" if "k < unat (j - i)" for k
    using slot_ne [of k "unat (p - i)" i] that assms by simp
  then show ?thesis by (simp add: ring_bytes_def)
qed

lemma ring_cong: "in_buf b' = in_buf b \<Longrightarrow> ring_bytes b' i j = ring_bytes b i j"
  by (simp add: ring_bytes_def)

lemma input_total: "input_ok b \<Longrightarrow> unat (in_e b - in_r b) = length (committed b) + length (editing b)"
  using unat_split [of "in_w b" "in_r b" "in_e b"] by (simp add: input_ok_def committed_def editing_def)

lemma editing_empty: "editing b = [] \<longleftrightarrow> in_e b = in_w b"
proof -
  have "editing b = [] \<longleftrightarrow> unat (in_e b - in_w b) = 0" by (simp add: editing_def ring_bytes_def)
  then show ?thesis by (simp add: unat_eq_0)
qed

text \<open>The three changes of the ring: a character typed, a character rubbed out, the line handed over.\<close>

lemma add_char_ring:
  assumes ok: "input_ok b" and room: "unat (in_e b - in_r b) < INPUT_BUF"
  shows "committed (add_char c b) = committed b" and "editing (add_char c b) = editing b @ [c]"
    and "unat (in_w (add_char c b) - in_r (add_char c b)) + unat (in_e (add_char c b) - in_w (add_char c b)) \<le> INPUT_BUF"
proof -
  note t = input_total [OF ok]
  have lt: "unat (in_e b - in_w b) < INPUT_BUF" using t room by (simp add: editing_def committed_def)
  let ?b = "b\<lparr>in_buf := (in_buf b)(slot (in_e b) := c)\<rparr>"
  have "ring_bytes ?b (in_r b) (in_w b) = ring_bytes b (in_r b) (in_w b)"
    by (rule ring_upd) (use t room in \<open>simp_all add: committed_def\<close>)
  then show "committed (add_char c b) = committed b"
    using ring_cong [of "add_char c b" ?b] by (simp add: committed_def add_char_def)
  have "ring_bytes ?b (in_w b) (in_e b) = ring_bytes b (in_w b) (in_e b)"
    by (rule ring_upd) (use lt in simp_all)
  then show "editing (add_char c b) = editing b @ [c]"
    using ring_snoc [OF lt, of ?b] ring_cong [of "add_char c b" ?b] by (simp add: editing_def add_char_def)
  show "unat (in_w (add_char c b) - in_r (add_char c b)) + unat (in_e (add_char c b) - in_w (add_char c b)) \<le> INPUT_BUF"
    using t room unat_next [OF lt] by (simp add: add_char_def committed_def editing_def)
qed

lemma rub_out_ring:
  assumes ok: "input_ok b" and ne: "in_e b \<noteq> in_w b"
  shows "committed (rub_out b) = committed b" and "editing b = editing (rub_out b) @ [in_buf b (slot (in_e b - 1))]"
    and "input_ok (rub_out b)"
proof -
  have "unat (in_e b - in_w b) \<noteq> 0" using ne by (simp add: unat_eq_0)
  moreover have "unat (in_e b - 1 - in_w b) = unat (in_e b - in_w b) - 1"
  proof -
    have eq: "in_e b - 1 - in_w b = in_e b - in_w b - 1" by simp
    show ?thesis unfolding eq by (rule unat_minus_one) (use ne in simp)
  qed
  ultimately have u: "unat (in_e b - in_w b) = Suc (unat (in_e b - 1 - in_w b))" by simp
  have lt: "unat (in_e b - 1 - in_w b) < INPUT_BUF" using ok u by (simp add: input_ok_def)
  show c: "committed (rub_out b) = committed b" by (simp add: committed_def rub_out_def ring_bytes_def)
  show e: "editing b = editing (rub_out b) @ [in_buf b (slot (in_e b - 1))]"
    using ring_snoc [OF lt, of b] ring_cong [of "rub_out b" b] by (simp add: editing_def rub_out_def)
  show "input_ok (rub_out b)" using ok e u unfolding input_ok_def by (simp add: rub_out_def)
qed

lemma commit_ring:
  assumes "unat (in_w b - in_r b) + unat (in_e b - in_w b) \<le> INPUT_BUF"
  shows "committed (b\<lparr>in_w := in_e b\<rparr>) = committed b @ editing b" and "editing (b\<lparr>in_w := in_e b\<rparr>) = []"
    and "input_ok (b\<lparr>in_w := in_e b\<rparr>)"
proof -
  show "committed (b\<lparr>in_w := in_e b\<rparr>) = committed b @ editing b"
    using ring_append [OF assms, of b] ring_cong [of "b\<lparr>in_w := in_e b\<rparr>" b] by (simp add: committed_def editing_def)
  show e: "editing (b\<lparr>in_w := in_e b\<rparr>) = []" by (simp add: editing_empty)
  show "input_ok (b\<lparr>in_w := in_e b\<rparr>)"
    unfolding input_ok_def e using unat_split [OF assms] assms by simp
qed

section \<open>The line discipline\<close>

definition discipline :: "int \<Rightarrow> byte list \<times> byte list \<Rightarrow> byte list \<times> byte list" where
  "discipline c le = (case le of (L, E) \<Rightarrow>
     if c = 21 then (L, [])
     else if c = 8 \<or> c = 127 then (L, butlast E)
     else if c \<noteq> 0 \<and> length L + length E < INPUT_BUF
     then let c' = (if c = 13 then 10 else c); E' = E @ [word_of_int c'] in
          if c' = 10 \<or> c' = 4 \<or> length L + length E' = INPUT_BUF then (L @ E', []) else (L, E')
     else (L, E))"

definition lines :: "input_buf \<Rightarrow> byte list \<times> byte list" where
  "lines b = (committed b, editing b)"

definition cons_frame :: "'z cons_st_scheme \<Rightarrow> 'z cons_st_scheme \<Rightarrow> bool" where
  "cons_frame s s' \<longleftrightarrow> s' = s\<lparr>input := input s', crt := crt s', cur_pos := cur_pos s', uart_out := uart_out s'\<rparr>"

lemma cons_frame_trans:
  assumes "cons_frame s t" and "cons_frame t u"
  shows "cons_frame s u"
  using assms unfolding cons_frame_def by (cases s; cases t; cases u) simp

lemma screen_cons_frame: "screen_frame s t \<Longrightarrow> cons_frame s t"
  unfolding screen_frame_def cons_frame_def by (cases s; cases t) simp

lemma cons_frame_input [simp]: "cons_frame s (s\<lparr>input := b\<rparr>)"
  by (simp add: cons_frame_def)

lemma cons_frame_locks:
  assumes "cons_frame s t"
  shows "same_locks s t" "procs t = procs s"
  by (subst assms [unfolded cons_frame_def], simp add: same_locks_def)+

lemma echo:
  assumes "cons_ready s"
  obtains s' where "bnd (upd_input f) (\<lambda>_. consputc c) s = Ok () s'" and "input s' = f (input s)" and "cons_ready s'" and "cons_frame s s'"
proof -
  have "cons_ready (s\<lparr>input := f (input s)\<rparr>)" using assms by (simp add: cons_ready_def)
  then obtain s' where s': "consputc c (s\<lparr>input := f (input s)\<rparr>) = Ok () s'" "screen_frame (s\<lparr>input := f (input s)\<rparr>) s'" "cons_ready s'"
    by (rule consputc_spec)
  have "cons_frame s s'" by (rule cons_frame_trans [OF cons_frame_input screen_cons_frame [OF s'(2)]])
  with that s' screen_frame_fields(1) [OF s'(2)] show thesis by (simp add: upd_input_def)
qed

lemma kill_line_spec:
  assumes "input_ok (input s)" and "cons_ready s" and "length (editing (input s)) < n"
  shows "\<exists>s'. kill_line n s = Ok () s' \<and> input_ok (input s') \<and> lines (input s') = (committed (input s), [])
    \<and> cons_ready s' \<and> cons_frame s s'"
  using assms
proof (induction n arbitrary: s)
  case (Suc n)
  note ok = Suc.prems(1)
  show ?case
  proof (cases "in_e (input s) = in_w (input s)")
    case True
    then have "kill_line (Suc n) s = Ok () s" by simp
    moreover have "editing (input s) = []" using True by (simp add: editing_empty)
    ultimately show ?thesis using Suc.prems by (simp add: lines_def cons_frame_def)
  next
    case False
    note r = rub_out_ring [OF ok False]
    have "in_buf (input s) (slot (in_e (input s) - 1)) \<noteq> 10" using ok r(2) by (auto simp: input_ok_def)
    then have step: "kill_line (Suc n) s = bnd (bnd (upd_input rub_out) (\<lambda>_. consputc BACKSPACE)) (\<lambda>_. kill_line n) s"
      using False by (simp add: bnd_assoc)
    obtain t where t: "bnd (upd_input rub_out) (\<lambda>_. consputc BACKSPACE) s = Ok () t" "input t = rub_out (input s)" "cons_ready t" "cons_frame s t"
      by (rule echo [OF Suc.prems(2)])
    have "length (editing (input t)) < n" using Suc.prems(3) r(2) t(2) by simp
    with Suc.IH [of t] t r obtain s' where "kill_line n t = Ok () s'" "input_ok (input s')" "lines (input s') = (committed (input s), [])"
      "cons_ready s'" "cons_frame t s'" by auto
    then show ?thesis unfolding step using t(1) cons_frame_trans [OF t(4)] by auto
  qed
qed simp

lemma lock_frame_cons [simp]:
  "input (acquired l c s) = input s" "input (released l c s) = input s"
  "cons_ready (acquired l c s) = cons_ready s" "cons_ready (released l c s) = cons_ready s"
  "cons_ready (s\<lparr>procs := ps\<rparr>) = cons_ready s"
  by (simp_all add: cons_ready_def acquired_def released_def pushed_def popped_def)

lemma wakeup_cons:
  fixes s :: "'z cons_st_scheme"
  assumes "cpu_at s c" and "0 < ncli (cpus s c)" and "\<not> locked (locks s PtableLock)"
  obtains s' where "wakeup ch s = Ok () s'" and "deep c s s'" and "input s' = input s" and "cons_ready s' = cons_ready s"
proof -
  let ?t = "(acquired PtableLock c s)\<lparr>procs := woken ch (procs s)\<rparr>"
  have "same_locks (acquired PtableLock c s) ?t" by (simp add: same_locks_def)
  note r = release_after [OF assms(1,3) this]
  have "wakeup ch s = Ok () (released PtableLock c ?t)"
    using assms(3) r(1) by (simp add: wakeup_unfold acquire_spec [OF assms(1)] wakeup1_spec)
  moreover have "intena (cpus (released PtableLock c ?t) c) = intena (cpus s c)"
    using assms(2) by (simp add: released_def popped_def acquired_def pushed_def)
  ultimately show thesis using that r(2) by (auto simp: deep_def)
qed

text \<open>The state in which \<open>consoleintr\<close> handles a character.\<close>

definition listening :: "nat \<Rightarrow> 'z cons_st_scheme \<Rightarrow> bool" where
  "listening c s \<longleftrightarrow> cpu_at s c \<and> 0 < ncli (cpus s c) \<and> \<not> locked (locks s PtableLock) \<and> cons_ready s \<and> input_ok (input s)"

lemma listening_deep:
  "listening c s \<Longrightarrow> deep c s s' \<Longrightarrow> cons_ready s' \<Longrightarrow> input_ok (input s') \<Longrightarrow> listening c s'"
  by (auto simp: listening_def deep_def quiet_def)

lemma cons_frame_deep: "listening c s \<Longrightarrow> cons_frame s t \<Longrightarrow> deep c s t"
  by (auto simp: listening_def intro: deep_same_locks [OF deep_refl] cons_frame_locks)

lemma typed_char:
  fixes s :: "'z cons_st_scheme"
  assumes l: "listening c s" and k: "0 \<le> k" "k < 256"
    and key: "k \<noteq> 21" "\<not> (k = 8 \<or> k = 127)" "k \<noteq> 0 \<and> unat (in_e (input s) - in_r (input s)) < INPUT_BUF"
  shows "\<exists>s'. intr_char k s = Ok () s' \<and> listening c s' \<and> deep c s s' \<and> lines (input s') = discipline k (lines (input s))"
proof -
  have ok: "input_ok (input s)" and rd: "cons_ready s" using l by (simp_all add: listening_def)
  note tot = input_total [OF ok]
  define q where "q = (if k = 13 then 10 else k)"
  define b where "b = add_char (word_of_int q) (input s)"
  have room: "unat (in_e (input s) - in_r (input s)) < INPUT_BUF" using key by simp
  note a = add_char_ring [OF ok room, of "word_of_int q", folded b_def]
  obtain t where t: "bnd (upd_input (add_char (word_of_int q))) (\<lambda>_. consputc q) s = Ok () t" "input t = b" "cons_ready t" "cons_frame s t"
    unfolding b_def by (rule echo [OF rd])
  note d = cons_frame_deep [OF l t(4)]
  let ?full = "length (committed (input s)) + Suc (length (editing (input s))) = INPUT_BUF"
  have fe: "in_e b = in_r b + of_nat INPUT_BUF \<longleftrightarrow> ?full"
  proof -
    have "unat (in_e b - in_r b) = length (committed (input s)) + Suc (length (editing (input s)))"
      using unat_split [OF a(3)] arg_cong [OF a(1), of length] arg_cong [OF a(2), of length] by (simp add: committed_def editing_def)
    moreover have "in_e b = in_r b + of_nat INPUT_BUF \<longleftrightarrow> in_e b - in_r b = of_nat INPUT_BUF" by (auto simp: algebra_simps)
    moreover have "\<dots> \<longleftrightarrow> unat (in_e b - in_r b) = INPUT_BUF" by (simp add: word_unat_eq_iff INPUT_BUF_def)
    ultimately show ?thesis by simp
  qed
  have run: "intr_char k s = (if q = 10 \<or> q = 4 \<or> ?full then bnd (upd_input (\<lambda>x. x\<lparr>in_w := in_e x\<rparr>)) (\<lambda>_. wakeup InputChan) t else Ok () t)"
    using key t(1,2) fe unfolding intr_char_def q_def [symmetric]
    by (simp add: Let_def q_def [symmetric] bnd_assoc [symmetric])
  have dis: "discipline k (lines (input s)) = (if q = 10 \<or> q = 4 \<or> ?full then (committed (input s) @ editing (input s) @ [word_of_int q], [])
      else (committed (input s), editing (input s) @ [word_of_int q]))"
    using key tot by (simp add: discipline_def lines_def Let_def q_def [symmetric])
  show ?thesis
  proof (cases "q = 10 \<or> q = 4 \<or> ?full")
    case False
    have "(word_of_int q :: byte) \<noteq> 10"
    proof
      assume "(word_of_int q :: byte) = 10"
      then have "uint (word_of_int q :: byte) = 10" by simp
      then have "q mod 256 = 10" by (simp add: uint_word_of_int)
      with k False show False by (auto simp: q_def split: if_splits)
    qed
    then have "input_ok b" using a(2,3) ok by (simp add: input_ok_def)
    with False run dis t d a listening_deep [OF l d t(3)] show ?thesis by (auto simp: lines_def)
  next
    case True
    note cr = commit_ring [OF a(3)]
    let ?u = "t\<lparr>input := b\<lparr>in_w := in_e b\<rparr>\<rparr>"
    have du: "deep c s ?u" by (rule deep_same_locks [OF d]) (simp add: same_locks_def)
    have lu: "listening c ?u" using listening_deep [OF l du] t(3) cr(3) by (simp add: cons_ready_def)
    obtain s' where s': "wakeup InputChan ?u = Ok () s'" "deep c ?u s'" "input s' = input ?u" "cons_ready s' = cons_ready ?u"
      using lu by (auto simp: listening_def intro: wakeup_cons [of ?u c InputChan])
    have "intr_char k s = Ok () s'" using run True s'(1) t(2) by (simp add: upd_input_def)
    moreover have "listening c s'" using listening_deep [OF lu s'(2)] s'(3,4) lu by (simp add: listening_def)
    moreover have "lines (input s') = discipline k (lines (input s))"
      unfolding dis using True s'(3) cr a by (simp add: lines_def)
    ultimately show ?thesis using deep_trans [OF du s'(2)] by blast
  qed
qed

lemma intr_char_spec:
  fixes s :: "'z cons_st_scheme"
  assumes l: "listening c s" and k: "0 \<le> k" "k < 256"
  shows "\<exists>s'. intr_char k s = Ok () s' \<and> listening c s' \<and> deep c s s' \<and> lines (input s') = discipline k (lines (input s))"
proof -
  have ok: "input_ok (input s)" and rd: "cons_ready s" using l by (simp_all add: listening_def)
  note tot = input_total [OF ok]
  consider "k = 21" | "k \<noteq> 21" "k = 8 \<or> k = 127" | "k \<noteq> 21" "\<not> (k = 8 \<or> k = 127)" "k \<noteq> 0 \<and> unat (in_e (input s) - in_r (input s)) < INPUT_BUF"
    | "k \<noteq> 21" "\<not> (k = 8 \<or> k = 127)" "\<not> (k \<noteq> 0 \<and> unat (in_e (input s) - in_r (input s)) < INPUT_BUF)" by blast
  then show ?thesis
  proof cases
    case 1
    have "length (editing (input s)) < INPUT_BUF + 1" using ok by (simp add: input_ok_def editing_def)
    from kill_line_spec [OF ok rd this] obtain s' where s': "kill_line (INPUT_BUF + 1) s = Ok () s'" "input_ok (input s')"
      "lines (input s') = (committed (input s), [])" "cons_ready s'" "cons_frame s s'" by blast
    note d = cons_frame_deep [OF l s'(5)]
    from s' listening_deep [OF l d s'(4,2)] d 1 show ?thesis by (simp add: intr_char_def discipline_def lines_def)
  next
    case 2
    show ?thesis
    proof (cases "in_e (input s) = in_w (input s)")
      case True
      then have "editing (input s) = []" by (simp add: editing_empty)
      with 2 True l show ?thesis using cons_frame_deep [OF l, of s] by (auto simp: intr_char_def discipline_def lines_def cons_frame_def)
    next
      case False
      note r = rub_out_ring [OF ok False]
      obtain s' where s': "bnd (upd_input rub_out) (\<lambda>_. consputc BACKSPACE) s = Ok () s'" "input s' = rub_out (input s)" "cons_ready s'" "cons_frame s s'"
        by (rule echo [OF rd])
      note d = cons_frame_deep [OF l s'(4)]
      have "intr_char k s = Ok () s'" using 2 False s'(1) by (auto simp: intr_char_def)
      moreover have "lines (input s') = discipline k (lines (input s))"
        using 2 r(1,2) s'(2) by (simp add: discipline_def lines_def)
      ultimately show ?thesis using listening_deep [OF l d s'(3)] r(3) s'(2) d by simp
    qed
  next
    case 3
    from typed_char [OF l k 3] show ?thesis .
  next
    case 4
    then have "intr_char k s = Ok () s" by (auto simp: intr_char_def)
    moreover have "discipline k (lines (input s)) = lines (input s)" using 4 tot by (auto simp: discipline_def lines_def)
    ultimately show ?thesis using l cons_frame_deep [OF l, of s] by (simp add: cons_frame_def)
  qed
qed

lemma intr_chars:
  fixes s :: "'z cons_st_scheme"
  assumes "listening c s" and "\<forall>k \<in> set ks. 0 \<le> k \<and> k < 256"
  shows "\<exists>s'. for_each intr_char ks s = Ok () s' \<and> listening c s' \<and> deep c s s' \<and> lines (input s') = fold discipline ks (lines (input s))"
  using assms
proof (induction ks arbitrary: s)
  case Nil
  then show ?case by (auto simp: listening_def intro: deep_refl)
next
  case (Cons k ks)
  from intr_char_spec [OF Cons.prems(1), of k] Cons.prems(2) obtain t where
    t: "intr_char k s = Ok () t" "listening c t" "deep c s t" "lines (input t) = discipline k (lines (input s))" by auto
  from Cons.IH [OF t(2)] Cons.prems(2) t deep_trans [OF t(3)] show ?case by fastforce
qed

text \<open>C31. The line discipline: however the ring's counters have wrapped, consoleintr does to the unread finished
  lines and the line being typed exactly what the keys mean (control-U empties the line, backspace and
  delete take its last character back, return, newline and control-D hand it over, as does a full
  buffer, and a key that does not fit is dropped); it echoes without panicking and leaves all locks as
  it found them.\<close>

theorem consoleintr_discipline:
  fixes s :: "'z cons_st_scheme"
  assumes "cpu_at s c" and "\<not> locked (locks s ConsLock)" and "\<not> locked (locks s PtableLock)"
    and "cons_ready s" and "input_ok (input s)" and "\<forall>k \<in> set keys. 0 \<le> k \<and> k < 256 \<and> k \<noteq> 16"
  shows "\<exists>s'. consoleintr keys s = Ok () s' \<and> quiet c s s' \<and> cons_ready s' \<and> input_ok (input s')
    \<and> lines (input s') = fold discipline keys (lines (input s))"
proof -
  let ?a = "acquired ConsLock c s"
  have "listening c ?a"
    using assms cpu_at_acquired [OF assms(1), of ConsLock] by (simp add: listening_def) (simp add: acquired_def pushed_def cpu_at_def)
  moreover have f: "filter (\<lambda>k. k \<noteq> 16) keys = keys" "16 \<notin> set keys" using assms(6) by (auto simp: filter_id_conv)
  ultimately obtain t where t: "for_each intr_char keys ?a = Ok () t" "listening c t" "deep c ?a t" "lines (input t) = fold discipline keys (lines (input s))"
    using intr_chars [of c ?a keys] assms(6) by auto
  note r = release_deep [OF assms(1,2) t(3)]
  have "consoleintr keys s = Ok () (released ConsLock c t)"
    using f t(1) r(1) assms(2) by (simp add: consoleintr_def acquire_spec [OF assms(1)])
  with r(2) t show ?thesis by (auto simp: listening_def)
qed

text \<open>The cursor stays on the screen: from any position in the first 24 lines, cgaputc of any character returns
  with the cursor in the first 24 lines again, scrolling if need be, and writes no cell outside them.\<close>

lemma cgaputc_on_screen:
  assumes "cur_pos s < 24 * 80"
  shows "\<exists>s'. cgaputc ch s = Ok () s' \<and> cur_pos s' < 24 * 80 \<and> (\<forall>i \<ge> 24 * 80. crt s' i = crt s i)"
  by (rule cgaputc_spec [OF assms, of ch]) blast

section \<open>Reading lines\<close>

text \<open>What a read of \<open>n\<close> bytes takes from the finished lines; \<open>None\<close> when it has to wait for more.\<close>

fun take_line :: "nat \<Rightarrow> bool \<Rightarrow> byte list \<Rightarrow> (byte list \<times> byte list) option" where
  "take_line 0 got L = Some ([], L)"
| "take_line (Suc n) got [] = None"
| "take_line (Suc n) got (c # L) =
     (if c = 4 then Some ([], if got then c # L else L)
      else if c = 10 then Some ([c], L)
      else map_option (\<lambda>(r, L'). (c # r, L')) (take_line n True L))"

lemma ring_cons:
  assumes "i \<noteq> (j :: uint32)" and "unat (j - i) \<le> INPUT_BUF"
  shows "ring_bytes b i j = in_buf b (slot i) # ring_bytes b (i + 1) j" and "unat (j - i) = Suc (unat (j - (i + 1)))"
proof -
  have eq: "j - (i + 1) = (j - i) - 1" by simp
  have u: "unat (j - (i + 1)) = unat (j - i) - 1" unfolding eq by (rule unat_minus_one) (use assms(1) in simp)
  have nz: "unat (j - i) \<noteq> 0" using assms(1) by (simp add: unat_eq_0)
  show "unat (j - i) = Suc (unat (j - (i + 1)))" using u nz by simp
  have "unat (i + 1 - i) + unat (j - (i + 1)) \<le> INPUT_BUF" using u nz assms(2) by simp
  from ring_append [OF this, of b] ring_one [of b i] show "ring_bytes b i j = in_buf b (slot i) # ring_bytes b (i + 1) j" by simp
qed

lemma take_one:
  assumes "input_ok b" and "in_r b \<noteq> in_w b"
  shows "committed b = in_buf b (slot (in_r b)) # committed (b\<lparr>in_r := in_r b + 1\<rparr>)" and "editing (b\<lparr>in_r := in_r b + 1\<rparr>) = editing b"
    and "input_ok (b\<lparr>in_r := in_r b + 1\<rparr>)"
proof -
  have le: "unat (in_w b - in_r b) \<le> INPUT_BUF" using assms(1) by (simp add: input_ok_def)
  note r = ring_cons [OF assms(2) le]
  show "committed b = in_buf b (slot (in_r b)) # committed (b\<lparr>in_r := in_r b + 1\<rparr>)"
    using r(1) [of b] ring_cong [of "b\<lparr>in_r := in_r b + 1\<rparr>" b] by (simp add: committed_def)
  show e: "editing (b\<lparr>in_r := in_r b + 1\<rparr>) = editing b" by (simp add: editing_def ring_bytes_def)
  show "input_ok (b\<lparr>in_r := in_r b + 1\<rparr>)" using assms(1) r(2) unfolding input_ok_def e by simp
qed

lemma committed_empty: "committed b = [] \<longleftrightarrow> in_r b = in_w b"
proof -
  have "committed b = [] \<longleftrightarrow> unat (in_w b - in_r b) = 0" by (simp add: committed_def ring_bytes_def)
  then show ?thesis by (auto simp: unat_eq_0)
qed

text \<open>Reading the console: a read that the finished lines can serve returns without waiting; it takes bytes up
  to and including the first newline, at most n of them, stops before a control-D unless that is the
  first byte, in which case it consumes it and returns nothing, and leaves the line being typed alone.\<close>

lemma consoleread_takes_line:
  assumes "input_ok (input s)" and "take_line n got (committed (input s)) = Some (bs, L)"
  shows "\<exists>s'. consoleread_loop sws n got s = Ok (Some bs) s' \<and> s' = s\<lparr>input := input s'\<rparr> \<and> input_ok (input s')
    \<and> lines (input s') = (L, editing (input s))"
  using assms
proof (induction n arbitrary: got s bs L)
  case 0
  then show ?case by (simp add: consoleread_loop.simps [of sws 0 got s] lines_def)
next
  case (Suc n)
  let ?b = "input s"
  have ne: "in_r ?b \<noteq> in_w ?b" using Suc.prems(2) committed_empty [of ?b] by auto
  note t = take_one [OF Suc.prems(1) ne]
  let ?c = "in_buf ?b (slot (in_r ?b))" and ?b1 = "?b\<lparr>in_r := in_r ?b + 1\<rparr>"
  let ?s = "s\<lparr>input := ?b1\<rparr>"
  note loop = consoleread_loop.simps [of sws "Suc n" got s]
  consider "?c = 4" | "?c \<noteq> 4" "?c = 10" | "?c \<noteq> 4" "?c \<noteq> 10" by blast
  then show ?case
  proof cases
    case 1
    with Suc.prems(2) t(1) have r: "bs = []" "L = (if got then committed ?b else committed ?b1)" by auto
    have "consoleread_loop sws (Suc n) got s = Ok (Some []) (if got then s else ?s)"
      using ne 1 by (simp add: loop upd_input_def Let_def)
    then show ?thesis using r t Suc.prems(1) by (cases got) (simp_all add: lines_def)
  next
    case 2
    with Suc.prems(2) t(1) have r: "bs = [?c]" "L = committed ?b1" by auto
    have "consoleread_loop sws (Suc n) got s = Ok (Some [?c]) ?s"
      unfolding loop using ne 2(2) by (simp add: upd_input_def Let_def)
    then show ?thesis using r t by (simp add: lines_def)
  next
    case 3
    with Suc.prems(2) t(1) obtain bs' where r: "take_line n True (committed (input ?s)) = Some (bs', L)" "bs = ?c # bs'" by auto
    from Suc.IH [OF _ r(1)] t(3) obtain s' where s': "consoleread_loop sws n True ?s = Ok (Some bs') s'" "s' = ?s\<lparr>input := input s'\<rparr>"
      "input_ok (input s')" "lines (input s') = (L, editing ?b1)" by auto
    have "consoleread_loop sws (Suc n) got s = Ok (Some bs) s'"
      using ne 3 s'(1) r(2) by (simp add: loop upd_input_def Let_def)
    moreover have "s' = s\<lparr>input := input s'\<rparr>" by (subst s'(2)) simp
    ultimately show ?thesis using s'(3,4) t(2) by simp
  qed
qed

section \<open>A booted console for the witnesses\<close>

text \<open>The counters are about to wrap; two finished bytes and one more are in the ring.\<close>

definition boot_input :: input_buf where
  "boot_input = \<lparr>in_buf = (\<lambda>_. 0)(127 := 104, 0 := 10, 1 := 105), in_r = - 1, in_w = 1, in_e = 2\<rparr>"

definition boot_cons :: cons_st where
  "boot_cons = file_st.extend (pipe_st.extend (boot_pipe 0) (file_st.fields (\<lambda>_. \<lparr>f_type = FD_NONE, f_ref = 0, readable = False,
       writable = False, f_pipe = 0, f_ip = None, f_off = 0\<rparr>)))
     (cons_st.fields True False boot_input (\<lambda>_. 0) 0 True [])"

lemma boot_cons_simps:
  "cpu_at boot_cons 0" "\<not> locked (locks boot_cons l)" "input boot_cons = boot_input" "cons_ready boot_cons"
  by (simp_all add: boot_cons_def file_st.defs pipe_st.defs cons_st.defs boot_pipe_def fs_st.defs log_st.defs boot_log_def
      boot_bio_def bio_st.defs cpu_at_def cons_ready_def)

lemma boot_input_lines: "committed boot_input = [104, 10]" "editing boot_input = [105]" "input_ok boot_input"
proof -
  have m: "(- 1 :: uint32) = 4294967295" by simp
  have u: "unat (- 1 :: uint32) = 4294967295" unfolding m by (simp only: unat_numeral) simp
  have s: "slot (- 1) = 127" "slot 0 = 0" "slot 1 = 1" unfolding slot_def u by (simp_all add: INPUT_BUF_def)
  show "committed boot_input = [104, 10]" by (simp add: committed_def ring_bytes_def boot_input_def upt_rec s)
  show e: "editing boot_input = [105]" by (simp add: editing_def ring_bytes_def boot_input_def s)
  show "input_ok boot_input" unfolding input_ok_def e by (simp add: boot_input_def INPUT_BUF_def)
qed

theorem consoleintr_discipline_witness:
  "\<exists>s'. consoleintr [8, 111, 107, 13] boot_cons = Ok () s' \<and> lines (input s') = ([104, 10, 111, 107, 10], [])"
proof -
  have "fold discipline [8, 111, 107, 13] ([104, 10], [105]) = ([104, 10, 111, 107, 10], [])"
    by (simp add: discipline_def INPUT_BUF_def)
  then show ?thesis
    using consoleintr_discipline [of boot_cons 0 "[8, 111, 107, 13]"] boot_input_lines
    by (auto simp: boot_cons_simps lines_def)
qed

lemma cgaputc_on_screen_witness:
  "\<exists>s'. cgaputc 10 (boot_cons\<lparr>cur_pos := 1919\<rparr>) = Ok () s' \<and> cur_pos s' < 24 * 80"
  using cgaputc_on_screen [of "boot_cons\<lparr>cur_pos := 1919\<rparr>" 10] by auto

theorem consoleread_takes_line_witness:
  "\<exists>s'. consoleread_loop [] 5 False boot_cons = Ok (Some [104, 10]) s' \<and> lines (input s') = ([], [105])"
proof -
  have "take_line 5 False (committed (input boot_cons)) = Some ([104, 10], [])"
  proof -
    have five: "(5 :: nat) = Suc (Suc 3)" by simp
    show ?thesis unfolding boot_cons_simps boot_input_lines five take_line.simps by simp
  qed
  from consoleread_takes_line [OF _ this, of "[]"] show ?thesis using boot_input_lines by (auto simp: boot_cons_simps)
qed

end
