(* ===== verification/Kbd.thy ===== *)
theory Kbd
  imports ConsoleSpec
begin

text \<open>
  The keyboard driver \<open>kbd.c\<close> keeps to its types: \<open>shift\<close> stays within its seven flags, and every
  value \<open>kbdgetc\<close> returns for a scan code is a byte, as \<open>consoleintr\<close> expects.
\<close>

section \<open>Seven bits\<close>

lemma seven_bits: "x < 128 \<longleftrightarrow> take_bit 7 x = (x :: nat)"
  by (auto simp: take_bit_nat_eq_self_iff)

lemma small_ops:
  assumes "x < 128" and "y < 128"
  shows "x OR y < 128" and "x XOR y < (128 :: nat)"
  using assms unfolding seven_bits by (simp_all add: take_bit_or take_bit_xor)

lemma flag_values: "SHIFT < 128" "CTL < 128" "ALT < 128" "CAPSLOCK < 128" "NUMLOCK < 128" "SCROLLLOCK < 128" "E0ESC < 128"
  by (simp_all add: SHIFT_def CTL_def ALT_def CAPSLOCK_def NUMLOCK_def SCROLLLOCK_def E0ESC_def)

lemma codes_small: "shiftcode d < 128" "togglecode d < 128" "and_not x y \<le> x"
  by (simp_all add: shiftcode_def togglecode_def and_not_def flag_values)

section \<open>The key maps hold bytes\<close>

lemma nth0_byte: "\<forall>x \<in> set xs. x < 256 \<Longrightarrow> nth0 xs d < 256"
  by (simp add: nth0_def)

lemma if_byte: "a < 256 \<Longrightarrow> b < 256 \<Longrightarrow> (if p then a else b) < (256 :: nat)"
  by simp

lemma ctl_byte: "ctl x < 256"
  by (simp add: ctl_def)

lemma keypad_byte:
  assumes "e < 256" and "v < 256"
  shows "keypad e v d < 256"
proof -
  have "(case map_of ps d of Some k \<Rightarrow> k | None \<Rightarrow> 0) < 256" if "\<forall>q \<in> set ps. snd q < 256" for ps :: "(nat \<times> nat) list"
    using that by (induction ps) auto
  with assms show ?thesis unfolding keypad_def by simp
qed

lemma charcode_byte: "charcode k d < 256"
proof -
  have "normalmap d < 256" unfolding normalmap_def by (intro if_byte nth0_byte keypad_byte) simp_all
  moreover have "shiftmap d < 256" unfolding shiftmap_def by (intro if_byte nth0_byte keypad_byte) simp_all
  moreover have "ctlmap d < 256" unfolding ctlmap_def
    by (intro if_byte nth0_byte keypad_byte) (simp_all add: ctl_byte)
  ultimately show ?thesis by (simp add: charcode_def)
qed

lemma kbdgetc_typed:
  assumes "sh < 128" and "kbdgetc st d sh = (c, sh')"
  shows "sh' < 128" and "c = - 1 \<or> 0 \<le> c \<and> c < 256" and "st AND 1 \<noteq> 0 \<Longrightarrow> 0 \<le> c"
proof -
  define d2 where "d2 = (if sh AND E0ESC \<noteq> 0 then unat d OR 0x80 else unat d)"
  define s1 where "s1 = (if sh AND E0ESC \<noteq> 0 then and_not sh E0ESC else sh)"
  define s2 where "s2 = (s1 OR shiftcode d2) XOR togglecode d2"
  define c0 where "c0 = charcode (s2 AND (CTL OR SHIFT)) d2"
  define c1 where "c1 = (if s2 AND CAPSLOCK \<noteq> 0
      then if 97 \<le> c0 \<and> c0 \<le> 122 then c0 - 32 else if 65 \<le> c0 \<and> c0 \<le> 90 then c0 + 32 else c0 else c0)"
  define e where "e = (if sh AND E0ESC \<noteq> 0 then unat d else unat d AND 0x7F)"
  have s1: "s1 < 128" using assms(1) codes_small(3) [of sh E0ESC] by (simp add: s1_def)
  then have s2: "s2 < 128" unfolding s2_def by (intro small_ops codes_small)
  have c1: "c1 < 256" using charcode_byte [of "s2 AND (CTL OR SHIFT)" d2] by (auto simp: c1_def c0_def [symmetric])
  have k: "kbdgetc st d sh = (if st AND 1 = 0 then (- 1, sh) else if unat d = 0xE0 then (0, sh OR E0ESC)
      else if unat d \<ge> 0x80 then (0, and_not sh (shiftcode e OR E0ESC)) else (int c1, s2))"
    unfolding kbdgetc_def Let_def e_def d2_def s1_def s2_def c0_def c1_def by (rule refl)
  have "and_not sh (shiftcode e OR E0ESC) < 128" using assms(1) codes_small(3) [of sh] by (rule le_less_trans [rotated])
  moreover have "sh OR E0ESC < 128" using assms(1) by (intro small_ops flag_values)
  ultimately show "sh' < 128" using assms s2 by (auto simp: k split: if_splits)
  show "c = - 1 \<or> 0 \<le> c \<and> c < 256" "st AND 1 \<noteq> 0 \<Longrightarrow> 0 \<le> c" using assms(2) c1 by (auto simp: k split: if_splits)
qed



end
