(* ===== verification/Ulib.thy ===== *)
theory Ulib
  imports CStr
begin

text \<open>
  The user library: \<open>ulib.c\<close> and \<open>printf.c\<close>.  A C string is given by the bytes before its NUL, so
  \<open>ch s i\<close> is \<open>s[i]\<close> for every index up to the terminator.  What \<open>printf\<close> writes, one byte per \<open>write\<close>
  call, is its result, a byte list; a conversion without an argument has no defined result in C and is \<open>None\<close> here.
  The system calls of \<open>stat\<close> are arguments.  The signed \<open>int\<close> of \<open>atoi\<close> and \<open>printint\<close> is a 32-bit word.

  Lemmas: \<open>strcmp\<close> decides equality, \<open>strcpy\<close> copies a string with its terminator, \<open>strchr\<close> finds the first occurrence,
  \<open>gets\<close> reads one line within its buffer, and \<open>atoi\<close> reads back what \<open>%d\<close> printed.
\<close>

section \<open>ulib.c\<close>

definition ch :: "byte list \<Rightarrow> nat \<Rightarrow> byte" where
  "ch s i = (if i < length s then s ! i else 0)"

partial_function (option) strcpy :: "mem \<Rightarrow> nat \<Rightarrow> nat \<Rightarrow> mem option" where
  "strcpy m s t = (let m' = m(s := m t) in if m t \<noteq> 0 then strcpy m' (s + 1) (t + 1) else Some m')"

function strcmp :: "byte list \<Rightarrow> byte list \<Rightarrow> int" where
  "strcmp p q =
     (if ch p 0 \<noteq> 0 \<and> ch p 0 = ch q 0 then strcmp (drop 1 p) (drop 1 q) else uint (ch p 0) - uint (ch q 0))"
  by pat_completeness auto
termination
  by (relation "measure (length \<circ> fst)") (auto simp: ch_def split: if_splits)

declare strcmp.simps [simp del]

fun ulib_strlen :: "byte list \<Rightarrow> nat" where
  "ulib_strlen [] = 0"
| "ulib_strlen (c # s) = (if c \<noteq> 0 then 1 + ulib_strlen s else 0)"

definition ulib_memset :: "mem \<Rightarrow> nat \<Rightarrow> uint32 \<Rightarrow> nat \<Rightarrow> mem" where
  "ulib_memset m dst c n = stosb m dst (ucast c) n"

text \<open>The index of the first occurrence of \<open>c\<close> before the terminator; \<open>None\<close> is the null pointer.\<close>

fun strchr :: "byte list \<Rightarrow> byte \<Rightarrow> nat option" where
  "strchr [] c = None"
| "strchr (x # s) c = (if x = 0 then None else if x = c then Some 0 else map_option Suc (strchr s c))"

text \<open>
  \<open>gets\<close>: \<open>mx\<close> (\<open>max\<close>) is the buffer's size, \<open>inp\<close> the bytes standard input has left, \<open>read\<close> of one byte failing at its
  end.  The result is the string left in the buffer, without its NUL, and the rest of the input; \<open>i\<close> bytes are stored.
\<close>

fun gets_loop :: "int \<Rightarrow> nat \<Rightarrow> byte list \<Rightarrow> byte list \<times> byte list" where
  "gets_loop mx i [] = ([], [])"
| "gets_loop mx i (c # inp) =
     (if int i + 1 < mx
      then if c = 10 \<or> c = 13 then ([c], inp) else (let (buf, rest) = gets_loop mx (i + 1) inp in (c # buf, rest))
      else ([], c # inp))"

definition gets :: "int \<Rightarrow> byte list \<Rightarrow> byte list \<times> byte list" where
  "gets mx inp = gets_loop mx 0 inp"

definition stat ::
  "('n \<Rightarrow> 's \<Rightarrow> int \<times> 's) \<Rightarrow> (int \<Rightarrow> 's \<Rightarrow> (int \<times> 'b option) \<times> 's) \<Rightarrow> (int \<Rightarrow> 's \<Rightarrow> 's)
   \<Rightarrow> 'n \<Rightarrow> 's \<Rightarrow> (int \<times> 'b option) \<times> 's" where
  "stat sys_open sys_fstat sys_close n s =
     (let (fd, s) = sys_open n s in
      if fd < 0 then ((- 1, None), s)
      else let (r, s) = sys_fstat fd s in (r, sys_close fd s))"

fun atoi_loop :: "uint32 \<Rightarrow> byte list \<Rightarrow> uint32" where
  "atoi_loop n [] = n"
| "atoi_loop n (c # s) = (if 48 \<le> c \<and> c \<le> 57 then atoi_loop (n * 10 + ucast c - 48) s else n)"

definition atoi :: "byte list \<Rightarrow> uint32" where
  "atoi s = atoi_loop 0 s"

section \<open>printf.c\<close>

definition udigit :: "nat \<Rightarrow> byte" where
  "udigit d = (if d < 10 then of_nat (48 + d) else of_nat (55 + d))"

function udigits :: "nat \<Rightarrow> nat \<Rightarrow> byte list" where
  "udigits base x = udigit (x mod base) # (if x div base = 0 \<or> base < 2 then [] else udigits base (x div base))"
  by pat_completeness auto
termination
  by (relation "measure snd") (auto simp: Euclidean_Rings.div_eq_0_iff)

declare udigits.simps [simp del]

text \<open>The buffer is filled from the last digit to the sign and written backwards.\<close>

definition printint :: "uint32 \<Rightarrow> nat \<Rightarrow> bool \<Rightarrow> byte list" where
  "printint xx base sg =
     (let neg = (sg \<and> sint xx < 0); x = (if neg then - xx else xx);
          buf = udigits base (unat x) @ (if neg then [45] else [])
      in rev buf)"

text \<open>An argument word of \<open>printf\<close>: a number, or a pointer to a string, \<open>None\<close> when it is null.\<close>

datatype arg = Num uint32 | Str "byte list option"

fun arg_num :: "arg \<Rightarrow> uint32 option" where
  "arg_num (Num n) = Some n"
| "arg_num (Str s) = None"

fun arg_str :: "arg \<Rightarrow> byte list option" where
  "arg_str (Str (Some s)) = Some s"
| "arg_str (Str None) = Some [40, 110, 117, 108, 108, 41]"
| "arg_str (Num n) = (if n = 0 then Some [40, 110, 117, 108, 108, 41] else None)"

fun printf_loop :: "bool \<Rightarrow> byte list \<Rightarrow> arg list \<Rightarrow> byte list option" where
  "printf_loop percent [] ap = Some []"
| "printf_loop False (c # fmt) ap =
     (if c = 37 then printf_loop True fmt ap else map_option (Cons c) (printf_loop False fmt ap))"
| "printf_loop True (c # fmt) ap =
     (if c = 100 then (case ap of [] \<Rightarrow> None | a # ap \<Rightarrow>
        Option.bind (arg_num a) (\<lambda>n. map_option ((@) (printint n 10 True)) (printf_loop False fmt ap)))
      else if c = 120 \<or> c = 112 then (case ap of [] \<Rightarrow> None | a # ap \<Rightarrow>
        Option.bind (arg_num a) (\<lambda>n. map_option ((@) (printint n 16 False)) (printf_loop False fmt ap)))
      else if c = 115 then (case ap of [] \<Rightarrow> None | a # ap \<Rightarrow>
        Option.bind (arg_str a) (\<lambda>s. map_option ((@) s) (printf_loop False fmt ap)))
      else if c = 99 then (case ap of [] \<Rightarrow> None | a # ap \<Rightarrow>
        Option.bind (arg_num a) (\<lambda>n. map_option (Cons (ucast n)) (printf_loop False fmt ap)))
      else if c = 37 then map_option (Cons c) (printf_loop False fmt ap)
      else map_option (\<lambda>out. 37 # c # out) (printf_loop False fmt ap))"

definition printf :: "byte list \<Rightarrow> arg list \<Rightarrow> byte list option" where
  "printf fmt ap = printf_loop False fmt ap"

section \<open>Strings\<close>

lemma ch_0 [simp]: "ch [] i = 0" "ch (x # s) 0 = x" "ch (x # s) (Suc i) = ch s i" "ch (x # s) 1 = ch s 0"
  by (simp_all add: ch_def)

lemma ulib_strlen_length: "0 \<notin> set s \<Longrightarrow> ulib_strlen (s @ 0 # junk) = length s"
  by (induction s) auto

lemma strcmp_eq_0:
  assumes "0 \<notin> set p" and "0 \<notin> set q"
  shows "strcmp p q = 0 \<longleftrightarrow> p = q"
  using assms
proof (induction p arbitrary: q)
  case Nil
  then show ?case by (cases q) (auto simp: strcmp.simps [of "[]"] unsigned_eq_0_iff)
next
  case (Cons x p)
  show ?case
  proof (cases "q \<noteq> [] \<and> hd q = x")
    case True
    then obtain q' where q: "q = x # q'" by (cases q) auto
    with Cons show ?thesis by (simp add: strcmp.simps [of "x # p"])
  next
    case False
    with Cons.prems have "x \<noteq> ch q 0" by (cases q) auto
    then have "strcmp (x # p) q = uint x - uint (ch q 0)" by (simp add: strcmp.simps [of "x # p"])
    moreover have "uint x \<noteq> uint (ch q 0)" using \<open>x \<noteq> ch q 0\<close> by (metis word_uint_eqI)
    ultimately have "strcmp (x # p) q \<noteq> 0" by simp
    with False show ?thesis by auto
  qed
qed

lemma strchr_None: "0 \<notin> set s \<Longrightarrow> strchr s c = None \<longleftrightarrow> c \<notin> set s"
  by (induction s) auto

lemma strchr_Some:
  assumes "strchr s c = Some k"
  shows "k < length s" and "s ! k = c" and "c \<notin> set (take k s)" and "0 \<notin> set (take (Suc k) s)"
  using assms by (induction s arbitrary: k) (auto split: if_splits)

lemma strchr_append: "0 \<notin> set u \<Longrightarrow> c \<notin> set u \<Longrightarrow> c \<noteq> 0 \<Longrightarrow> strchr (u @ c # v) c = Some (length u)"
  by (induction u) auto

lemma strcpy_string:
  assumes "m (t + n) = 0" and "\<forall>i < n. m (t + i) \<noteq> 0" and "s + n < t \<or> t + n < s"
  shows "strcpy m s t = Some (\<lambda>x. if s \<le> x \<and> x \<le> s + n then m (t + (x - s)) else m x)"
  using assms
proof (induction n arbitrary: m s t)
  case 0
  then show ?case by (auto simp: strcpy.simps [of m] Let_def fun_eq_iff)
next
  case (Suc n)
  let ?m = "m(s := m t)"
  have t: "m t \<noteq> 0" using Suc.prems(2) [rule_format, of 0] by simp
  have "strcpy ?m (s + 1) (t + 1) =
      Some (\<lambda>x. if s + 1 \<le> x \<and> x \<le> s + 1 + n then ?m (t + 1 + (x - (s + 1))) else ?m x)"
  proof (rule Suc.IH)
    show "?m (t + 1 + n) = 0" using Suc.prems(1,3) by auto
    show "\<forall>i < n. ?m (t + 1 + i) \<noteq> 0"
    proof (intro allI impI)
      fix i assume "i < n"
      then show "?m (t + 1 + i) \<noteq> 0" using Suc.prems(2) [rule_format, of "Suc i"] Suc.prems(3) by auto
    qed
  qed (use Suc.prems(3) in auto)
  moreover have "strcpy m s t = strcpy ?m (s + 1) (t + 1)" using t by (subst strcpy.simps) (simp add: Let_def)
  moreover have "(\<lambda>x. if s + 1 \<le> x \<and> x \<le> s + 1 + n then ?m (t + 1 + (x - (s + 1))) else ?m x)
      = (\<lambda>x. if s \<le> x \<and> x \<le> s + Suc n then m (t + (x - s)) else m x)"
  proof
    fix x
    have "t + 1 + (x - (s + 1)) = t + (x - s)" if "s + 1 \<le> x" using that by simp
    then show "(if s + 1 \<le> x \<and> x \<le> s + 1 + n then ?m (t + 1 + (x - (s + 1))) else ?m x)
      = (if s \<le> x \<and> x \<le> s + Suc n then m (t + (x - s)) else m x)" using Suc.prems(3) by auto
  qed
  ultimately show ?case by simp
qed

text \<open>\<open>gets\<close> takes a prefix of the input that fits the buffer, and stops after a line's end.\<close>

lemma gets_loop_line:
  "gets_loop mx i inp = (buf, rest) \<Longrightarrow>
   inp = buf @ rest \<and> (buf = [] \<or> int (i + length buf) < mx) \<and> 10 \<notin> set (butlast buf) \<and> 13 \<notin> set (butlast buf)"
  by (induction mx i inp arbitrary: buf rest rule: gets_loop.induct) (auto split: if_splits prod.splits)

lemma gets_line: "gets mx inp = (buf, rest) \<Longrightarrow> inp = buf @ rest \<and> (buf = [] \<or> int (length buf) < mx) \<and> 10 \<notin> set (butlast buf)"
  unfolding gets_def by (drule gets_loop_line) simp

section \<open>Numbers\<close>

lemma atoi_loop_append:
  assumes "\<forall>c \<in> set s. 48 \<le> c \<and> c \<le> 57"
  shows "atoi_loop n (s @ t) = atoi_loop (atoi_loop n s) t"
  using assms by (induction s arbitrary: n) auto

lemma udigit_dec:
  assumes "d < 10"
  shows "48 \<le> udigit d \<and> udigit d \<le> 57" and "ucast (udigit d) = (of_nat (48 + d) :: uint32)"
proof -
  have d: "d = 0 \<or> d = 1 \<or> d = 2 \<or> d = 3 \<or> d = 4 \<or> d = 5 \<or> d = 6 \<or> d = 7 \<or> d = 8 \<or> d = 9" using assms by auto
  show "48 \<le> udigit d \<and> udigit d \<le> 57" using d by (auto simp: udigit_def)
  show "ucast (udigit d) = (of_nat (48 + d) :: uint32)" using d by (auto simp: udigit_def)
qed

lemma udigits_dec: "c \<in> set (udigits 10 x) \<Longrightarrow> 48 \<le> c \<and> c \<le> 57"
proof (induction x rule: less_induct)
  case (less x)
  have "c = udigit (x mod 10) \<or> x div 10 \<noteq> 0 \<and> c \<in> set (udigits 10 (x div 10))"
    using less.prems by (subst (asm) udigits.simps) (auto split: if_splits)
  moreover have "x div 10 < x" if "x div 10 \<noteq> 0" using that by (cases x) auto
  ultimately show ?case using less.IH [of "x div 10"] udigit_dec(1) [of "x mod 10"] by auto
qed

lemma atoi_udigits: "atoi (rev (udigits 10 x)) = of_nat x"
proof (induction x rule: less_induct)
  case (less x)
  have x: "x = x div 10 * 10 + x mod 10" by simp
  have dec: "\<forall>c \<in> set (rev (udigits 10 y)). 48 \<le> c \<and> c \<le> 57" for y using udigits_dec by simp
  have last: "atoi_loop n [udigit (x mod 10)] = n * 10 + of_nat (x mod 10)" for n
    using udigit_dec [of "x mod 10"] by simp
  show ?case
  proof (cases "x div 10 = 0")
    case True
    then show ?thesis using last [of 0] by (simp add: atoi_def udigits.simps [of 10 x] Euclidean_Rings.div_eq_0_iff)
  next
    case False
    then have "atoi (rev (udigits 10 x)) = atoi (rev (udigits 10 (x div 10))) * 10 + of_nat (x mod 10)"
      by (subst udigits.simps) (simp add: atoi_def atoi_loop_append [OF dec] last del: atoi_loop.simps)
    also have "\<dots> = of_nat (x div 10) * 10 + of_nat (x mod 10)" using False by (subst less.IH) auto
    also have "\<dots> = (of_nat (x div 10 * 10 + x mod 10) :: uint32)" by (simp only: of_nat_add of_nat_mult of_nat_numeral)
    finally show ?thesis using x by simp
  qed
qed

lemma atoi_printint: "0 \<le> sint x \<Longrightarrow> atoi (printint x 10 True) = x"
  by (simp add: printint_def atoi_udigits)

lemma length_udigits: "x < 10 ^ Suc n \<Longrightarrow> length (udigits 10 x) \<le> Suc n"
proof (induction n arbitrary: x)
  case 0
  then show ?case by (simp add: udigits.simps [of 10 x] Euclidean_Rings.div_eq_0_iff)
next
  case (Suc n)
  then have "x div 10 < 10 ^ Suc n" by (simp add: div_less_iff_less_mult mult.commute)
  with Suc.IH show ?case by (simp add: udigits.simps [of 10 x])
qed

text \<open>The sixteen bytes of \<open>buf\<close> are enough.\<close>

lemma printint_fits: "length (printint x 10 sg) \<le> 11"
proof -
  have "unat (if sg \<and> sint x < 0 then - x else x) < 10 ^ Suc 9"
    by (rule less_trans [OF unsigned_less]) simp
  from length_udigits [OF this] show ?thesis by (cases "sg \<and> sint x < 0") (auto simp: printint_def Let_def)
qed

end
