(* ===== verification/Grep.thy ===== *)
theory Grep
  imports Ulib
begin

text \<open>
  \<open>grep.c\<close>: the regular-expression matcher, and the loop that cuts the input into lines through a buffer of 1024 bytes.
  Patterns and lines are C strings given by the bytes before their NUL.  \<open>read\<close> is an argument of the loop: from the
  state of the descriptor and the number of bytes asked for, the bytes read (none at the end of the file or on an
  error) and the next state.  The bytes the loop writes to standard output are its result.

  The matcher is shown to decide the language of the pattern, given denotationally, and the loop to print exactly
  the matching lines of a file whose lines fit the buffer.
\<close>

section \<open>The matcher\<close>

function matchhere :: "byte list \<Rightarrow> byte list \<Rightarrow> bool" and matchstar :: "byte \<Rightarrow> byte list \<Rightarrow> byte list \<Rightarrow> bool" where
  "matchhere re tx =
     (if ch re 0 = 0 then True
      else if ch re 1 = 42 then matchstar (ch re 0) (drop 2 re) tx
      else if ch re 0 = 36 \<and> ch re 1 = 0 then ch tx 0 = 0
      else if ch tx 0 \<noteq> 0 \<and> (ch re 0 = 46 \<or> ch re 0 = ch tx 0) then matchhere (drop 1 re) (drop 1 tx)
      else False)"
| "matchstar c re tx =
     (if matchhere re tx then True
      else if ch tx 0 \<noteq> 0 \<and> (ch tx 0 = c \<or> c = 46) then matchstar c re (drop 1 tx)
      else False)"
  by pat_completeness auto
termination
proof (relation "measures [\<lambda>x. case x of Inl (re, tx) \<Rightarrow> length re | Inr (c, re, tx) \<Rightarrow> length re,
    \<lambda>x. case x of Inl (re, tx) \<Rightarrow> length tx | Inr (c, re, tx) \<Rightarrow> length tx,
    \<lambda>x. case x of Inl _ \<Rightarrow> 0 | Inr _ \<Rightarrow> 1]")
qed (auto simp: ch_def split: if_splits)

declare matchhere.simps [simp del] matchstar.simps [simp del]

function match_any :: "byte list \<Rightarrow> byte list \<Rightarrow> bool" where
  "match_any re tx =
     (if matchhere re tx then True else if ch tx 0 \<noteq> 0 then match_any re (drop 1 tx) else False)"
  by pat_completeness auto
termination
  by (relation "measure (length \<circ> snd)") (auto simp: ch_def split: if_splits)

declare match_any.simps [simp del]

definition match :: "byte list \<Rightarrow> byte list \<Rightarrow> bool" where
  "match re tx = (if ch re 0 = 94 then matchhere (drop 1 re) tx else match_any re tx)"

section \<open>The loop over the input\<close>

definition cstr_at :: "byte list \<Rightarrow> nat \<Rightarrow> byte list" where
  "cstr_at buf p = takeWhile (\<lambda>c. c \<noteq> 0) (drop p buf)"

text \<open>The inner loop, from the pointer \<open>p\<close> into the buffer: the buffer, \<open>p\<close> and the output it ends with.\<close>

function grep_lines :: "byte list \<Rightarrow> byte list \<Rightarrow> nat \<Rightarrow> byte list \<times> nat \<times> byte list" where
  "grep_lines pattern buf p =
     (case strchr (drop p buf) 10 of
        None \<Rightarrow> (buf, p, [])
      | Some k \<Rightarrow>
          let q = p + k;
              buf = buf[q := 0];
              hit = match pattern (cstr_at buf p);
              buf = (if hit then buf[q := 10] else buf);
              out = (if hit then take (q + 1 - p) (drop p buf) else []);
              (buf, p, out') = grep_lines pattern buf (q + 1)
          in (buf, p, out @ out'))"
  by pat_completeness auto
termination
  by (relation "measure (\<lambda>(pattern, buf, p). length buf - p)") (auto dest: strchr_Some(1))

declare grep_lines.simps [simp del]

partial_function (option) grep_loop ::
  "('f \<Rightarrow> nat \<Rightarrow> byte list \<times> 'f) \<Rightarrow> byte list \<Rightarrow> byte list \<Rightarrow> nat \<Rightarrow> 'f \<Rightarrow> (byte list \<times> 'f) option" where
  "grep_loop read pattern buf m fd =
     (let (got, fd) = read fd (1024 - m - 1) in
      if got = [] then Some ([], fd)
      else let buf = bput buf m got;
               m = m + length got;
               buf = buf[m := 0];
               (buf, p, out) = grep_lines pattern buf 0;
               m = (if p = 0 then 0 else m);
               (buf, m) = (if m > 0 then (bput buf 0 (take (m - p) (drop p buf)), m - p) else (buf, m))
           in Option.bind (grep_loop read pattern buf m fd) (\<lambda>(out', fd). Some (out @ out', fd)))"

definition grep ::
  "('f \<Rightarrow> nat \<Rightarrow> byte list \<times> 'f) \<Rightarrow> byte list \<Rightarrow> 'f \<Rightarrow> (byte list \<times> 'f) option" where
  "grep read pattern fd = grep_loop read pattern (replicate 1024 0) 0 fd"

text \<open>
  \<open>main\<close>: without a file name the standard input is searched; \<open>open\<close> gives the descriptor's state or fails, and
  a failure ends the program after a message.  The output is everything written, messages included.
\<close>

fun grep_files ::
  "(byte list \<Rightarrow> 'f option) \<Rightarrow> ('f \<Rightarrow> nat \<Rightarrow> byte list \<times> 'f) \<Rightarrow> byte list \<Rightarrow> byte list list \<Rightarrow> byte list option" where
  "grep_files opn read pattern [] = Some []"
| "grep_files opn read pattern (name # names) =
     (case opn name of
        None \<Rightarrow> printf [103, 114, 101, 112, 58, 32, 99, 97, 110, 110, 111, 116, 32, 111, 112, 101, 110, 32, 37, 115, 10] [Str (Some name)]
      | Some fd \<Rightarrow> Option.bind (grep read pattern fd) (\<lambda>(out, _). map_option ((@) out) (grep_files opn read pattern names)))"

definition grep_main ::
  "(byte list \<Rightarrow> 'f option) \<Rightarrow> ('f \<Rightarrow> nat \<Rightarrow> byte list \<times> 'f) \<Rightarrow> 'f \<Rightarrow> byte list list \<Rightarrow> byte list option" where
  "grep_main opn read stdin argv =
     (if length argv \<le> 1
      then printf [117, 115, 97, 103, 101, 58, 32, 103, 114, 101, 112, 32, 112, 97, 116, 116, 101, 114, 110, 32, 91, 102, 105, 108, 101, 32, 46, 46, 46, 93, 10] []
      else let pattern = argv ! 1 in
        if length argv \<le> 2 then map_option fst (grep read pattern stdin)
        else grep_files opn read pattern (drop 2 argv))"

section \<open>What a pattern means\<close>

text \<open>
  A pattern is a sequence of atoms, each taken once or starred, that may be anchored at the end by a final \<open>$\<close> and
  at the start by a leading \<open>^\<close>.  An atom is a byte, the dot standing for any.
\<close>

datatype item = Once byte | Star byte

definition atom_fits :: "byte \<Rightarrow> byte \<Rightarrow> bool" where
  "atom_fits a c \<longleftrightarrow> a = 46 \<or> a = c"

fun items :: "byte list \<Rightarrow> item list \<times> bool" where
  "items [] = ([], False)"
| "items [a] = (if a = 36 then ([], True) else ([Once a], False))"
| "items (a # b # re) =
     (if b = 42 then let (its, e) = items re in (Star a # its, e) else let (its, e) = items (b # re) in (Once a # its, e))"

fun lang :: "item list \<Rightarrow> byte list set" where
  "lang [] = {[]}"
| "lang (Once a # its) = {c # w | c w. atom_fits a c \<and> w \<in> lang its}"
| "lang (Star a # its) = {u @ w | u w. (\<forall>c \<in> set u. atom_fits a c) \<and> w \<in> lang its}"

text \<open>\<open>finds its e tx\<close>: a prefix of the text is in the language, all of it if the end is anchored.\<close>

definition finds :: "item list \<Rightarrow> bool \<Rightarrow> byte list \<Rightarrow> bool" where
  "finds its e tx \<longleftrightarrow> (\<exists>u v. tx = u @ v \<and> u \<in> lang its \<and> (e \<longrightarrow> v = []))"

lemma finds_Once: "finds (Once a # its) e tx \<longleftrightarrow> (\<exists>c t. tx = c # t \<and> atom_fits a c \<and> finds its e t)"
proof
  assume "finds (Once a # its) e tx"
  then obtain u v where u: "tx = u @ v" "u \<in> lang (Once a # its)" "e \<longrightarrow> v = []" unfolding finds_def by blast
  then obtain c w where "u = c # w" "atom_fits a c" "w \<in> lang its" by auto
  with u have "tx = c # w @ v" "atom_fits a c" "w \<in> lang its" "e \<longrightarrow> v = []" by simp_all
  then show "\<exists>c t. tx = c # t \<and> atom_fits a c \<and> finds its e t" unfolding finds_def by blast
next
  assume "\<exists>c t. tx = c # t \<and> atom_fits a c \<and> finds its e t"
  then obtain c w v where "tx = c # w @ v" "atom_fits a c" "w \<in> lang its" "e \<longrightarrow> v = []"
    unfolding finds_def by blast
  then show "finds (Once a # its) e tx" unfolding finds_def by (intro exI [of _ "c # w"] exI [of _ v]) simp
qed

lemma finds_Star:
  "finds (Star a # its) e tx \<longleftrightarrow>
     finds its e tx \<or> (\<exists>c t. tx = c # t \<and> atom_fits a c \<and> finds (Star a # its) e t)"
proof
  assume "finds (Star a # its) e tx"
  then obtain x v where x: "tx = x @ v" "x \<in> lang (Star a # its)" "e \<longrightarrow> v = []" unfolding finds_def by blast
  then obtain u w where "x = u @ w" "\<forall>c \<in> set u. atom_fits a c" "w \<in> lang its" by auto
  with x have t: "tx = u @ w @ v" "\<forall>c \<in> set u. atom_fits a c" "w \<in> lang its" "e \<longrightarrow> v = []" by simp_all
  show "finds its e tx \<or> (\<exists>c t. tx = c # t \<and> atom_fits a c \<and> finds (Star a # its) e t)"
  proof (cases u)
    case Nil
    with t show ?thesis by (auto simp: finds_def)
  next
    case (Cons c u')
    with t have "finds (Star a # its) e (u' @ w @ v)"
      unfolding finds_def by (intro exI [of _ "u' @ w"] exI [of _ v]) auto
    with Cons t show ?thesis by auto
  qed
next
  assume "finds its e tx \<or> (\<exists>c t. tx = c # t \<and> atom_fits a c \<and> finds (Star a # its) e t)"
  then show "finds (Star a # its) e tx"
  proof
    assume "finds its e tx"
    then obtain u v where "tx = u @ v" "u \<in> lang its" "e \<longrightarrow> v = []" by (auto simp: finds_def)
    moreover from this have "[] @ u \<in> lang (Star a # its)" unfolding lang.simps by force
    ultimately show ?thesis unfolding finds_def by auto
  next
    assume "\<exists>c t. tx = c # t \<and> atom_fits a c \<and> finds (Star a # its) e t"
    then obtain c x v where x: "tx = c # x @ v" "atom_fits a c" "x \<in> lang (Star a # its)" "e \<longrightarrow> v = []"
      unfolding finds_def by blast
    then obtain u w where "x = u @ w" "\<forall>c \<in> set u. atom_fits a c" "w \<in> lang its" by auto
    with x have "\<forall>x \<in> set (c # u). atom_fits a x" "w \<in> lang its" "tx = ((c # u) @ w) @ v" by simp_all
    moreover from this have "(c # u) @ w \<in> lang (Star a # its)" unfolding lang.simps by blast
    ultimately show ?thesis unfolding finds_def using x(4) by blast
  qed
qed

lemma matchstar_finds:
  assumes "\<And>t. 0 \<notin> set t \<Longrightarrow> matchhere re t \<longleftrightarrow> finds its e t" and "0 \<notin> set tx"
  shows "matchstar a re tx \<longleftrightarrow> finds (Star a # its) e tx"
  using assms(2)
proof (induction tx)
  case Nil
  then show ?case by (simp add: matchstar.simps finds_Star [of _ _ _ "[]"] assms(1))
next
  case (Cons c tx)
  have "matchstar a re (c # tx) \<longleftrightarrow> matchhere re (c # tx) \<or> (c = a \<or> a = 46) \<and> matchstar a re tx"
    using Cons.prems by (subst matchstar.simps) auto
  with Cons assms(1) [of "c # tx"] show ?case by (auto simp: finds_Star [of a its e "c # tx"] atom_fits_def)
qed

lemma matchhere_finds:
  assumes "0 \<notin> set re" and "0 \<notin> set tx"
  shows "matchhere re tx \<longleftrightarrow> finds (fst (items re)) (snd (items re)) tx"
  using assms
proof (induction re arbitrary: tx rule: items.induct)
  case 1
  then show ?case by (simp add: matchhere.simps finds_def)
next
  case (2 a)
  then have "matchhere [a] tx \<longleftrightarrow> (if a = 36 then tx = [] else \<exists>c t. tx = c # t \<and> atom_fits a c)"
    by (cases tx) (auto simp: matchhere.simps [of "[a]"] matchhere.simps [of "[]"] atom_fits_def)
  then show ?case by (auto simp: finds_Once) (auto simp: finds_def)
next
  case (3 a b re)
  show ?case
  proof (cases "b = 42")
    case True
    have "matchhere (a # b # re) tx \<longleftrightarrow> matchstar a re tx"
      using True 3 by (subst matchhere.simps) simp
    also have "\<dots> \<longleftrightarrow> finds (Star a # fst (items re)) (snd (items re)) tx"
      using True 3 by (intro matchstar_finds) auto
    finally show ?thesis using True by (simp add: split_beta)
  next
    case False
    have "matchhere (a # b # re) tx \<longleftrightarrow> (\<exists>c t. tx = c # t \<and> atom_fits a c \<and> matchhere (b # re) t)"
      using False 3 by (cases tx) (auto simp: matchhere.simps [of "a # b # re"] atom_fits_def)
    also have "\<dots> \<longleftrightarrow> (\<exists>c t. tx = c # t \<and> atom_fits a c \<and> finds (fst (items (b # re))) (snd (items (b # re))) t)"
      using False 3 by auto
    finally show ?thesis using False by (simp add: split_beta finds_Once)
  qed
qed

lemma match_any_suffix: "0 \<notin> set tx \<Longrightarrow> match_any re tx \<longleftrightarrow> (\<exists>l t. tx = l @ t \<and> matchhere re t)"
proof (induction tx)
  case Nil
  then show ?case by (simp add: match_any.simps)
next
  case (Cons c tx)
  then have "match_any re (c # tx) \<longleftrightarrow> matchhere re (c # tx) \<or> match_any re tx"
    by (subst match_any.simps) auto
  also have "\<dots> \<longleftrightarrow> matchhere re (c # tx) \<or> (\<exists>l t. tx = l @ t \<and> matchhere re t)" using Cons by simp
  also have "\<dots> \<longleftrightarrow> (\<exists>l t. c # tx = l @ t \<and> matchhere re t)"
    by (metis append_Cons append_Nil append_eq_Cons_conv)
  finally show ?case .
qed

text \<open>The language of a whole pattern: the texts with an occurrence of it.\<close>

definition pattern_lang :: "byte list \<Rightarrow> byte list set" where
  "pattern_lang re =
     (let start = (re \<noteq> [] \<and> hd re = 94); (its, e) = items (if start then tl re else re)
      in {l @ u @ v | l u v. u \<in> lang its \<and> (start \<longrightarrow> l = []) \<and> (e \<longrightarrow> v = [])})"

lemma match_pattern_lang:
  assumes "0 \<notin> set re" and "0 \<notin> set tx"
  shows "match re tx \<longleftrightarrow> tx \<in> pattern_lang re"
proof (cases "re \<noteq> [] \<and> hd re = 94")
  case True
  then obtain re' where re: "re = 94 # re'" by (cases re) auto
  obtain its e where i: "items re' = (its, e)" by fastforce
  have "match re tx \<longleftrightarrow> finds its e tx" using matchhere_finds [of re' tx] assms re i by (simp add: match_def)
  then show ?thesis by (auto simp: re i pattern_lang_def finds_def)
next
  case False
  obtain its e where i: "items re = (its, e)" by fastforce
  have h: "matchhere re t \<longleftrightarrow> finds its e t" if "0 \<notin> set t" for t using matchhere_finds [of re t] assms(1) that i by simp
  have "match re tx \<longleftrightarrow> match_any re tx" using False by (cases re) (auto simp: match_def)
  also have "\<dots> \<longleftrightarrow> (\<exists>l t. tx = l @ t \<and> finds its e t)"
    unfolding match_any_suffix [OF assms(2)] using assms(2) h by (metis Un_iff set_append)
  also have "\<dots> \<longleftrightarrow> tx \<in> {l @ u @ v | l u v. u \<in> lang its \<and> (e \<longrightarrow> v = [])}" unfolding finds_def by blast
  also have "\<dots> \<longleftrightarrow> tx \<in> pattern_lang re"
  proof -
    have "(re \<noteq> [] \<and> hd re = 94) = False" using False by simp
    then show ?thesis unfolding pattern_lang_def by (simp only: i Let_def if_False split HOL.simp_thms)
  qed
  finally show ?thesis .
qed

section \<open>Lines\<close>

text \<open>The lines of a text, each with its newline, and what follows the last newline.\<close>

fun split_lines :: "byte list \<Rightarrow> byte list list \<times> byte list" where
  "split_lines [] = ([], [])"
| "split_lines (c # s) =
     (if c = 10 then ([10] # fst (split_lines s), snd (split_lines s))
      else case split_lines s of ([], r) \<Rightarrow> ([], c # r) | (l # ls, r) \<Rightarrow> ((c # l) # ls, r))"

definition hits :: "byte list \<Rightarrow> byte list \<Rightarrow> byte list" where
  "hits re s = concat (filter (\<lambda>l. match re (butlast l)) (fst (split_lines s)))"

definition lines_fit :: "nat \<Rightarrow> byte list \<Rightarrow> bool" where
  "lines_fit n s \<longleftrightarrow> (\<forall>l \<in> set (fst (split_lines s)). length l \<le> n) \<and> length (snd (split_lines s)) \<le> n"

lemma split_lines_none: "10 \<notin> set s \<Longrightarrow> split_lines s = ([], s)"
  by (induction s) auto

lemma split_lines_line:
  "10 \<notin> set u \<Longrightarrow> split_lines (u @ 10 # v) = ((u @ [10]) # fst (split_lines v), snd (split_lines v))"
  by (induction u) auto

lemma split_lines_partial: "10 \<notin> set (snd (split_lines s))"
proof (induction s)
  case (Cons c s)
  then show ?case by (cases "split_lines s"; cases "fst (split_lines s)") auto
qed simp

lemma split_lines_append:
  "fst (split_lines (s @ t)) = fst (split_lines s) @ fst (split_lines (snd (split_lines s) @ t))"
  "snd (split_lines (s @ t)) = snd (split_lines (snd (split_lines s) @ t))"
proof (induction "length s" arbitrary: s rule: less_induct)
  case less
  {
    case 1
    show ?case
    proof (cases "10 \<in> set s")
      case True
      then obtain u v where s: "s = u @ 10 # v" "10 \<notin> set u" by (meson split_list_first)
      then show ?thesis using less [of v] by (simp add: split_lines_line)
    qed (simp add: split_lines_none)
  next
    case 2
    show ?case
    proof (cases "10 \<in> set s")
      case True
      then obtain u v where s: "s = u @ 10 # v" "10 \<notin> set u" by (meson split_list_first)
      then show ?thesis using less [of v] by (simp add: split_lines_line)
    qed (simp add: split_lines_none)
  }
qed

lemma length_partial: "length (snd (split_lines s)) \<le> length s"
  and set_partial: "set (snd (split_lines s)) \<subseteq> set s"
proof (induction s)
  case (Cons c s)
  { case 1 then show ?case using Cons by (cases "split_lines s"; cases "fst (split_lines s)") auto }
  { case 2 then show ?case using Cons by (cases "split_lines s"; cases "fst (split_lines s)") auto }
qed simp_all

lemma partial_consumes: "10 \<in> set s \<Longrightarrow> length (snd (split_lines s)) < length s"
proof -
  assume "10 \<in> set s"
  then obtain u v where s: "s = u @ 10 # v" "10 \<notin> set u" by (meson split_list_first)
  then show ?thesis using length_partial [of v] by (simp add: split_lines_line)
qed

lemma hits_append: "hits re (s @ t) = hits re s @ hits re (snd (split_lines s) @ t)"
  by (simp add: hits_def split_lines_append(1) [of s t])

lemma lines_fit_append: "lines_fit n (s @ t) \<Longrightarrow> lines_fit n (snd (split_lines s) @ t)"
  by (simp add: lines_fit_def split_lines_append [of s t])

text \<open>A text longer than the bound whose lines fit has a newline within the bound.\<close>

lemma lines_fit_newline:
  assumes "lines_fit n s" and "n < length s"
  shows "10 \<in> set (take n s)"
proof (cases "10 \<in> set s")
  case True
  then obtain u v where s: "s = u @ 10 # v" "10 \<notin> set u" by (meson split_list_first)
  with assms(1) have "length u < n" by (simp add: lines_fit_def split_lines_line)
  with s show ?thesis by (simp add: take_Cons')
next
  case False
  with assms show ?thesis by (simp add: lines_fit_def split_lines_none)
qed

section \<open>The buffer\<close>

lemma strchr_stop: "0 \<notin> set s \<Longrightarrow> strchr (s @ 0 # junk) c = strchr s c"
  by (induction s) auto

lemma grep_lines_spec:
  assumes "buf = pre @ s @ 0 # junk" and "length pre = p" and "0 \<notin> set s"
  shows "\<exists>pre'. grep_lines re buf p = (pre' @ snd (split_lines s) @ 0 # junk, length pre', hits re s)
    \<and> length pre' + length (snd (split_lines s)) = p + length s"
  using assms
proof (induction "length s" arbitrary: s pre buf p rule: less_induct)
  case less
  have buf: "drop p buf = s @ 0 # junk" using less.prems by simp
  show ?case
  proof (cases "10 \<in> set s")
    case False
    then have "strchr (drop p buf) 10 = None" using less.prems(3) by (simp add: buf strchr_stop strchr_None)
    then have "grep_lines re buf p = (buf, p, [])" by (simp add: grep_lines.simps)
    with False less.prems show ?thesis by (auto simp: split_lines_none hits_def)
  next
    case True
    then obtain u v where s: "s = u @ 10 # v" "10 \<notin> set u" by (meson split_list_first)
    let ?x = "if match re u then 10 else 0"
    have k: "strchr (drop p buf) 10 = Some (length u)"
      using less.prems(3) s by (simp add: buf strchr_stop strchr_append)
    have b0: "buf[p + length u := 0] = pre @ u @ 0 # v @ 0 # junk"
      using less.prems by (simp add: s list_update_append)
    have u: "cstr_at (pre @ u @ 0 # v @ 0 # junk) p = u"
      using less.prems(2,3) by (auto simp: cstr_at_def s takeWhile_append)
    have b1: "(pre @ u @ 0 # v @ 0 # junk)[p + length u := 10] = pre @ u @ 10 # v @ 0 # junk"
      using less.prems(2) by (simp add: list_update_append)
    have step: "grep_lines re buf p =
        (let (b, q, out) = grep_lines re ((pre @ u @ [?x]) @ v @ 0 # junk) (p + length u + 1)
         in (b, q, (if match re u then u @ [10] else []) @ out))"
      using less.prems(2) by (subst grep_lines.simps) (simp add: k b0 u b1 Let_def split_beta)
    obtain pre' where "grep_lines re ((pre @ u @ [?x]) @ v @ 0 # junk) (p + length u + 1)
        = (pre' @ snd (split_lines v) @ 0 # junk, length pre', hits re v)"
      "length pre' + length (snd (split_lines v)) = p + length u + 1 + length v"
      using less.hyps [of v "(pre @ u @ [?x]) @ v @ 0 # junk" "pre @ u @ [?x]" "p + length u + 1"] less.prems(2,3) s by auto
    then show ?thesis unfolding step using s by (auto simp: split_lines_line hits_def)
  qed
qed

text \<open>\<open>read\<close> of a file: the next bytes, as many as asked for and left (\<open>readi\<close>).\<close>

definition read_file :: "byte list \<Rightarrow> nat \<Rightarrow> byte list \<times> byte list" where
  "read_file rest n = (take n rest, drop n rest)"

lemma grep_loop_spec:
  assumes "buf = part @ junk" and "length buf = 1024" and "m = length part"
    and "10 \<notin> set part" and "0 \<notin> set (part @ rest)" and "lines_fit 1023 (part @ rest)"
  shows "grep_loop read_file re buf m rest = Some (hits re (part @ rest), [])"
  using assms
proof (induction "length rest" arbitrary: buf part junk m rest rule: less_induct)
  case less
  show ?case
  proof (cases "rest = []")
    case True
    with less.prems show ?thesis
      by (subst grep_loop.simps) (simp add: read_file_def hits_def split_lines_none)
  next
    case False
    have m: "m < 1023"
    proof (rule ccontr)
      assume "\<not> m < 1023"
      with less.prems(3) False have "1023 < length (part @ rest)" by (cases rest) auto
      then have "10 \<in> set (take 1023 (part @ rest))" by (rule lines_fit_newline [OF less.prems(6)])
      with \<open>\<not> m < 1023\<close> less.prems(3,4) show False by (auto dest: in_set_takeD)
    qed
    define got where "got = take (1023 - m) rest"
    define rest' where "rest' = drop (1023 - m) rest"
    have got: "got \<noteq> []" "rest = got @ rest'" "length got \<le> 1023 - m" using m False by (auto simp: got_def rest'_def)
    define m2 where "m2 = m + length got"
    define junk2 where "junk2 = drop (length got + 1) junk"
    have b: "(bput buf m got)[m2 := 0] = [] @ (part @ got) @ 0 # junk2"
    proof -
      have j: "length got < length junk" using less.prems m got by auto
      then obtain x where x: "drop (length got) junk = x # junk2"
        unfolding junk2_def by (metis Cons_nth_drop_Suc Suc_eq_plus1)
      show ?thesis using less.prems j by (simp add: bput_def m2_def x list_update_append)
    qed
    have nz: "0 \<notin> set (part @ got)" using less.prems(5) got(2) by auto
    obtain pre where g: "grep_lines re ([] @ (part @ got) @ 0 # junk2) 0
        = (pre @ snd (split_lines (part @ got)) @ 0 # junk2, length pre, hits re (part @ got))"
      "length pre + length (snd (split_lines (part @ got))) = length (part @ got)"
      using grep_lines_spec [OF refl _ nz, where pre = "[]" and p = 0 and junk = junk2 and re = re] by auto
    define s where "s = snd (split_lines (part @ got))"
    have g': "grep_lines re (part @ got @ 0 # junk2) 0 = (pre @ s @ 0 # junk2, length pre, hits re (part @ got))"
      using g(1) by (simp add: s_def)
    define part2 where "part2 = (if pre = [] then [] else s)"
    define buf2 where "buf2 = (if pre = [] then s @ 0 # junk2 else bput (pre @ s @ 0 # junk2) 0 s)"
    have m2: "m2 = length pre + length s" "m2 > 0" using less.prems(3) g(2) got(1) by (auto simp: m2_def s_def)
    have fst: "read_file rest (1023 - m) = (got, rest')" by (simp add: read_file_def got_def rest'_def)
    have step: "grep_loop read_file re buf m rest = Option.bind (grep_loop read_file re buf2 (length part2) rest')
        (\<lambda>(out, fd). Some (hits re (part @ got) @ out, fd))"
      by (subst grep_loop.simps, simp add: fst got(1) Let_def m2_def [symmetric] b g')
        (simp add: buf2_def part2_def m2)
    have blank: "rest' = []" if "pre = []"
    proof (rule ccontr)
      assume r: "rest' \<noteq> []"
      then have "length got = 1023 - m" by (auto simp: got_def rest'_def)
      then have l: "length (part @ got) = 1023" using m less.prems(3) by simp
      have "1023 < length (part @ rest)" using r l got(2) by (cases rest') auto
      then have "10 \<in> set (take 1023 (part @ rest))" by (rule lines_fit_newline [OF less.prems(6)])
      then have "10 \<in> set (part @ got)" using l got(2) by simp
      from partial_consumes [OF this] show False using g(2) that by simp
    qed
    have len: "length buf = length (pre @ s @ 0 # junk2)"
      using arg_cong [OF b, of length] g(2) less.prems m got(3) by (simp add: s_def m2_def)
    have buf2: "buf2 = part2 @ drop (length part2) buf2" "length buf2 = 1024"
      using len less.prems(2) by (auto simp: buf2_def part2_def bput_def)
    have set_s: "set s \<subseteq> set (part @ got)" unfolding s_def by (rule set_partial)
    have "grep_loop read_file re buf2 (length part2) rest' = Some (hits re (part2 @ rest'), [])"
    proof (rule less.hyps [OF _ buf2 refl])
      show "length rest' < length rest" using got(1,2) by simp
      show "10 \<notin> set part2" using split_lines_partial by (simp add: part2_def s_def)
      show "0 \<notin> set (part2 @ rest')" using set_s less.prems(5) got(2) by (auto simp: part2_def)
      have "lines_fit 1023 (s @ rest')"
        unfolding s_def by (rule lines_fit_append) (use less.prems(6) got(2) in simp)
      moreover have "lines_fit 1023 []" by (simp add: lines_fit_def)
      ultimately show "lines_fit 1023 (part2 @ rest')" using blank by (cases "pre = []") (simp_all add: part2_def)
    qed
    moreover have "hits re (part @ rest) = hits re (part @ got) @ hits re (part2 @ rest')"
    proof -
      have "hits re (part @ rest) = hits re (part @ got) @ hits re (s @ rest')"
        unfolding s_def using hits_append [of re "part @ got" rest'] got(2) by simp
      moreover have "hits re (s @ rest') = hits re (part2 @ rest')"
        using blank split_lines_partial [of "part @ got"]
        by (cases "pre = []") (simp_all add: part2_def hits_def s_def [symmetric] split_lines_none)
      ultimately show ?thesis by simp
    qed
    ultimately show ?thesis by (simp add: step)
  qed
qed

section \<open>Properties\<close>



end
