(* ===== verification/Sh.thy ===== *)
theory Sh
  imports Ulib
begin

text \<open>
  The shell \<open>sh.c\<close>: the scanner and the recursive-descent parser over the command line.  The line is the C string
  \<open>s\<close>, given by the bytes before its NUL; the pointers \<open>ps\<close>, \<open>q\<close>, \<open>eq\<close> are indices into it and \<open>es\<close> is its length.
  A command carries the pointers of its words until \<open>nulterminate\<close> has cut the line into strings.

  \<open>parseline\<close>, \<open>parsepipe\<close>, \<open>parseexec\<close> and \<open>parseblock\<close> call each other; they take fuel, and \<open>parsecmd\<close> starts them with
  enough of it for every line, as shown in \<open>ShSpec\<close>.  A syntax error ends the shell's child through \<open>panic\<close>: it is a value.
\<close>

section \<open>Commands\<close>

datatype 'w cmd =
    EXEC "'w list"
  | REDIR "'w cmd" 'w int int
  | PIPE "'w cmd" "'w cmd"
  | LIST "'w cmd" "'w cmd"
  | BACK "'w cmd"

type_synonym word_at = "nat \<times> nat"

datatype 'a parse = Parsed 'a nat | Syntax string | Leftovers "byte list" | NoFuel

fun pbind :: "'a parse \<Rightarrow> ('a \<Rightarrow> nat \<Rightarrow> 'b parse) \<Rightarrow> 'b parse" where
  "pbind (Parsed a ps) f = f a ps"
| "pbind (Syntax e) f = Syntax e"
| "pbind (Leftovers r) f = Leftovers r"
| "pbind NoFuel f = NoFuel"

text \<open>The constructors, each a zeroed allocation with its fields set; the allocation is taken to succeed, as in the code.\<close>

definition execcmd :: "'w cmd" where
  [simp]: "execcmd = EXEC []"

definition redircmd :: "'w cmd \<Rightarrow> 'w \<Rightarrow> int \<Rightarrow> int \<Rightarrow> 'w cmd" where
  [simp]: "redircmd subcmd f mode fd = REDIR subcmd f mode fd"

definition pipecmd :: "'w cmd \<Rightarrow> 'w cmd \<Rightarrow> 'w cmd" where
  [simp]: "pipecmd left right = PIPE left right"

definition listcmd :: "'w cmd \<Rightarrow> 'w cmd \<Rightarrow> 'w cmd" where
  [simp]: "listcmd left right = LIST left right"

definition backcmd :: "'w cmd \<Rightarrow> 'w cmd" where
  [simp]: "backcmd subcmd = BACK subcmd"

definition MAXARGS :: nat where "MAXARGS = 10"

definition O_RDONLY :: int where "O_RDONLY = 0"

definition O_WRONLY :: int where "O_WRONLY = 1"

definition O_CREATE :: int where "O_CREATE = 0x200"

section \<open>Scanning\<close>

definition whitespace :: "byte list" where "whitespace = [32, 9, 13, 10, 11]"

definition symbols :: "byte list" where "symbols = [60, 124, 62, 38, 59, 40, 41]"

definition is_space :: "byte \<Rightarrow> bool" where "is_space c \<longleftrightarrow> strchr whitespace c \<noteq> None"

definition is_symbol :: "byte \<Rightarrow> bool" where "is_symbol c \<longleftrightarrow> strchr symbols c \<noteq> None"

function skip_while :: "(byte \<Rightarrow> bool) \<Rightarrow> byte list \<Rightarrow> nat \<Rightarrow> nat" where
  "skip_while P s p = (if p < length s \<and> P (s ! p) then skip_while P s (p + 1) else p)"
  by pat_completeness auto
termination
  by (relation "measure (\<lambda>(P, s, p). length s - p)") auto

declare skip_while.simps [simp del]

definition gettoken :: "byte list \<Rightarrow> nat \<Rightarrow> byte \<times> word_at \<times> nat" where
  "gettoken s ps =
     (let q = skip_while is_space s ps;
          c = ch s q;
          (tok, eq) =
            (if c = 0 then (c, q)
             else if c = 124 \<or> c = 40 \<or> c = 41 \<or> c = 59 \<or> c = 38 \<or> c = 60 then (c, q + 1)
             else if c = 62 then if ch s (q + 1) = 62 then (43, q + 2) else (c, q + 1)
             else (97, skip_while (\<lambda>c. \<not> is_space c \<and> \<not> is_symbol c) s q))
      in (tok, (q, eq), skip_while is_space s eq))"

definition peek :: "byte list \<Rightarrow> nat \<Rightarrow> byte list \<Rightarrow> bool \<times> nat" where
  "peek s ps toks =
     (let p = skip_while is_space s ps in (ch s p \<noteq> 0 \<and> strchr toks (ch s p) \<noteq> None, p))"

text \<open>Where the scanner gets.\<close>

lemma skip_while_eq: "skip_while P s p = p + length (takeWhile P (drop p s))"
proof (induction P s p rule: skip_while.induct)
  case (1 P s p)
  show ?case
  proof (cases "p < length s")
    case True
    then have "drop p s = s ! p # drop (p + 1) s" by (simp add: Cons_nth_drop_Suc)
    with True 1 show ?thesis by (subst skip_while.simps) auto
  qed (simp add: skip_while.simps [of P s p])
qed

lemma skip_while_ge: "p \<le> skip_while P s p"
  by (simp add: skip_while_eq)

lemma skip_while_le: "p \<le> length s \<Longrightarrow> skip_while P s p \<le> length s"
  using length_takeWhile_le [of P "drop p s"] by (simp add: skip_while_eq)

lemma ch_nonzero: "ch s p \<noteq> 0 \<Longrightarrow> p < length s"
  by (simp add: ch_def split: if_splits)

lemma skip_while_moves: "p < length s \<Longrightarrow> P (s ! p) \<Longrightarrow> p < skip_while P s p"
  by (subst skip_while.simps) (simp add: less_le_trans [OF _ skip_while_ge])

lemma skip_while_end: "skip_while P s p < length s \<Longrightarrow> \<not> P (s ! skip_while P s p)"
proof (induction P s p rule: skip_while.induct)
  case (1 P s p)
  then show ?case by (cases "p < length s \<and> P (s ! p)") (auto simp: skip_while.simps [of P s p] simp del: skip_while.simps)
qed

lemma space_symbol:
  "is_space c \<longleftrightarrow> c = 32 \<or> c = 9 \<or> c = 13 \<or> c = 10 \<or> c = 11"
  "is_symbol c \<longleftrightarrow> c = 60 \<or> c = 124 \<or> c = 62 \<or> c = 38 \<or> c = 59 \<or> c = 40 \<or> c = 41"
  by (auto simp: is_space_def is_symbol_def whitespace_def symbols_def)

lemma gettoken_advances:
  assumes "gettoken s ps = (tok, (q, e), ps')"
  shows "ps \<le> ps'" and "ps \<le> length s \<Longrightarrow> ps' \<le> length s" and "ch s (skip_while is_space s ps) \<noteq> 0 \<Longrightarrow> ps < ps'"
    and "tok = 97 \<Longrightarrow> ps < ps'"
proof -
  define c where "c = ch s q"
  have q: "q = skip_while is_space s ps" using assms by (auto simp: gettoken_def Let_def split: prod.splits)
  have ps': "ps' = skip_while is_space s e" using assms by (auto simp: gettoken_def Let_def split: prod.splits)
  have w: "q < skip_while (\<lambda>c. \<not> is_space c \<and> \<not> is_symbol c) s q" if "c \<noteq> 0" "\<not> is_symbol c"
  proof (rule skip_while_moves)
    show l: "q < length s" using that(1) by (simp add: c_def ch_nonzero)
    show "\<not> is_space (s ! q) \<and> \<not> is_symbol (s ! q)"
      using that(2) l skip_while_end [of is_space s ps] by (simp add: q c_def ch_def)
  qed
  have e: "q \<le> e \<and> (c \<noteq> 0 \<longrightarrow> q < e) \<and> (q \<le> length s \<longrightarrow> e \<le> length s) \<and> (tok = 97 \<longrightarrow> c \<noteq> 0)"
    using assms w skip_while_le [of q s "\<lambda>c. \<not> is_space c \<and> \<not> is_symbol c"] ch_nonzero [of s q] ch_nonzero [of s "q + 1"]
    unfolding gettoken_def Let_def q [symmetric] c_def [symmetric]
    by (auto simp: space_symbol split: if_splits)
  have "ps \<le> q" "e \<le> ps'" unfolding q ps' by (rule skip_while_ge)+
  then show "ps \<le> ps'" "ch s (skip_while is_space s ps) \<noteq> 0 \<Longrightarrow> ps < ps'" "tok = 97 \<Longrightarrow> ps < ps'"
    using e by (auto simp: q [symmetric] c_def)
  show "ps' \<le> length s" if "ps \<le> length s"
    using e skip_while_le [OF that, of is_space] skip_while_le [of e s is_space] by (auto simp: q [symmetric] ps')
qed

lemma peek_advances:
  assumes "peek s ps toks = (b, ps')"
  shows "ps \<le> ps'" and "ps \<le> length s \<Longrightarrow> ps' \<le> length s" and "b \<Longrightarrow> ch s ps' \<noteq> 0"
    and "ps' = skip_while is_space s ps"
  using assms skip_while_ge [of ps is_space s] skip_while_le [of ps s is_space] by (auto simp: peek_def Let_def)

text \<open>After a successful \<open>peek\<close>, \<open>gettoken\<close> consumes.\<close>

lemma peek_gettoken:
  assumes "peek s ps toks = (True, ps')" and "gettoken s ps' = (tok, w, ps'')"
  shows "ps < ps''" and "ps \<le> length s \<Longrightarrow> ps'' \<le> length s" and "ps < length s"
proof -
  obtain q e where w: "w = (q, e)" by fastforce
  have c: "ch s ps' \<noteq> 0" "ps \<le> ps'" using peek_advances [OF assms(1)] by auto
  have "skip_while is_space s ps' = ps'"
  proof -
    have "ps' < length s" using c(1) by (rule ch_nonzero)
    with peek_advances(4) [OF assms(1)] skip_while_end [of is_space s ps] show ?thesis by (subst skip_while.simps) auto
  qed
  with gettoken_advances [OF assms(2) [unfolded w]] c show "ps < ps''" by simp
  show "ps'' \<le> length s" if "ps \<le> length s"
    using gettoken_advances(2) [OF assms(2) [unfolded w]] peek_advances(2) [OF assms(1) that] by simp
  show "ps < length s" using ch_nonzero [OF c(1)] c(2) by simp
qed

lemma peek_gettoken_measure:
  assumes "(True, p1) = peek s ps toks" and "(tok, r1) = gettoken s p1" and "(w1, p2) = r1"
  shows "length s - p2 < length s - ps"
proof -
  have "gettoken s p1 = (tok, w1, p2)" using assms by simp
  from peek_gettoken [OF assms(1) [symmetric] this] show ?thesis by auto
qed

lemma peek_gettoken2_measure:
  assumes "(True, p1) = peek s ps toks" and "(tok, r1) = gettoken s p1" and "(w1, p2) = r1"
    and "(tok2, r2) = gettoken s p2" and "(w2, p3) = r2"
  shows "length s - p3 < length s - ps"
proof -
  obtain q e where w: "w2 = (q, e)" by fastforce
  have "gettoken s p2 = (tok2, (q, e), p3)" using assms(4,5) w by simp
  then have "p2 \<le> p3" by (rule gettoken_advances(1))
  with peek_gettoken_measure [OF assms(1,2,3)] show ?thesis by simp
qed

section \<open>Parsing\<close>

function parseredirs :: "word_at cmd \<Rightarrow> byte list \<Rightarrow> nat \<Rightarrow> word_at cmd parse" where
  "parseredirs cmd s ps =
     (case peek s ps [60, 62] of
        (False, ps) \<Rightarrow> Parsed cmd ps
      | (True, ps) \<Rightarrow>
          (case gettoken s ps of (tok, _, ps) \<Rightarrow>
             (case gettoken s ps of (tok2, w, ps) \<Rightarrow>
               if tok2 \<noteq> 97 then Syntax ''missing file for redirection''
               else if tok = 60 then parseredirs (redircmd cmd w O_RDONLY 0) s ps
               else if tok = 62 then parseredirs (redircmd cmd w (O_WRONLY + O_CREATE) 1) s ps
               else if tok = 43 then parseredirs (redircmd cmd w (O_WRONLY + O_CREATE) 1) s ps
               else parseredirs cmd s ps)))"
  by pat_completeness auto
termination
  by (relation "measure (\<lambda>(cmd, s, ps). length s - ps)")
    (simp_all only: in_measure split wf_measure, (rule peek_gettoken2_measure, assumption+)+)

declare parseredirs.simps [simp del]

text \<open>The argument being added to the \<open>execcmd\<close> that the redirections read so far wrap.\<close>

fun add_arg :: "word_at cmd \<Rightarrow> word_at \<Rightarrow> word_at cmd" where
  "add_arg (EXEC ws) w = EXEC (ws @ [w])"
| "add_arg (REDIR c f m fd) w = REDIR (add_arg c w) f m fd"
| "add_arg c w = c"

function parseargs :: "word_at cmd \<Rightarrow> nat \<Rightarrow> byte list \<Rightarrow> nat \<Rightarrow> word_at cmd parse" where
  "parseargs cmd argc s ps =
     (case peek s ps [124, 41, 38, 59] of
        (True, ps) \<Rightarrow> Parsed cmd ps
      | (False, ps) \<Rightarrow>
          (case gettoken s ps of (tok, w, ps) \<Rightarrow>
             if tok = 0 then Parsed cmd ps
             else if tok \<noteq> 97 then Syntax ''syntax''
             else if argc + 1 \<ge> MAXARGS then Syntax ''too many args''
             else pbind (parseredirs (add_arg cmd w) s ps) (\<lambda>cmd ps. parseargs cmd (argc + 1) s ps)))"
  by pat_completeness auto
termination
  by (relation "measure (\<lambda>(cmd, argc, s, ps). MAXARGS - argc)") auto

declare parseargs.simps [simp del]

function parseback :: "word_at cmd \<Rightarrow> byte list \<Rightarrow> nat \<Rightarrow> word_at cmd \<times> nat" where
  "parseback cmd s ps =
     (case peek s ps [38] of
        (False, ps) \<Rightarrow> (cmd, ps)
      | (True, ps) \<Rightarrow> (case gettoken s ps of (_, _, ps) \<Rightarrow> parseback (backcmd cmd) s ps))"
  by pat_completeness auto
termination
  by (relation "measure (\<lambda>(cmd, s, ps). length s - ps)")
    (simp_all only: in_measure split wf_measure, (rule peek_gettoken_measure, assumption+)+)

declare parseback.simps [simp del]

fun parseline :: "nat \<Rightarrow> byte list \<Rightarrow> nat \<Rightarrow> word_at cmd parse"
  and parsepipe :: "nat \<Rightarrow> byte list \<Rightarrow> nat \<Rightarrow> word_at cmd parse"
  and parseexec :: "nat \<Rightarrow> byte list \<Rightarrow> nat \<Rightarrow> word_at cmd parse"
  and parseblock :: "nat \<Rightarrow> byte list \<Rightarrow> nat \<Rightarrow> word_at cmd parse" where
  "parseline 0 s ps = NoFuel"
| "parseline (Suc n) s ps =
     pbind (parsepipe n s ps) (\<lambda>cmd ps.
       (case parseback cmd s ps of (cmd, ps) \<Rightarrow>
         (case peek s ps [59] of
            (False, ps) \<Rightarrow> Parsed cmd ps
          | (True, ps) \<Rightarrow>
              (case gettoken s ps of (_, _, ps) \<Rightarrow>
                 pbind (parseline n s ps) (\<lambda>right ps. Parsed (listcmd cmd right) ps)))))"
| "parsepipe 0 s ps = NoFuel"
| "parsepipe (Suc n) s ps =
     pbind (parseexec n s ps) (\<lambda>cmd ps.
       case peek s ps [124] of
         (False, ps) \<Rightarrow> Parsed cmd ps
       | (True, ps) \<Rightarrow>
           (case gettoken s ps of (_, _, ps) \<Rightarrow>
              pbind (parsepipe n s ps) (\<lambda>right ps. Parsed (pipecmd cmd right) ps)))"
| "parseexec 0 s ps = NoFuel"
| "parseexec (Suc n) s ps =
     (case peek s ps [40] of
        (True, ps) \<Rightarrow> parseblock n s ps
      | (False, ps) \<Rightarrow> pbind (parseredirs execcmd s ps) (\<lambda>cmd ps. parseargs cmd 0 s ps))"
| "parseblock 0 s ps = NoFuel"
| "parseblock (Suc n) s ps =
     (case peek s ps [40] of
        (False, ps) \<Rightarrow> Syntax ''parseblock''
      | (True, ps) \<Rightarrow>
          (case gettoken s ps of (_, _, ps) \<Rightarrow>
             pbind (parseline n s ps) (\<lambda>cmd ps.
               case peek s ps [41] of
                 (False, ps) \<Rightarrow> Syntax ''syntax - missing )''
               | (True, ps) \<Rightarrow> (case gettoken s ps of (_, _, ps) \<Rightarrow> parseredirs cmd s ps))))"

text \<open>
  \<open>nulterminate\<close> writes a NUL at the end of every word.  At the end of the line there is one already, and the
  update of the list beyond its last element changes nothing.
\<close>

fun nulterminate :: "word_at cmd \<Rightarrow> byte list \<Rightarrow> byte list" where
  "nulterminate (EXEC ws) s = fold (\<lambda>(q, eq) s. s[eq := 0]) ws s"
| "nulterminate (REDIR c (q, eq) m fd) s = (nulterminate c s)[eq := 0]"
| "nulterminate (PIPE l r) s = nulterminate r (nulterminate l s)"
| "nulterminate (LIST l r) s = nulterminate r (nulterminate l s)"
| "nulterminate (BACK c) s = nulterminate c s"

definition parsecmd :: "byte list \<Rightarrow> (word_at cmd \<times> byte list) parse" where
  "parsecmd s =
     pbind (parseline (4 * length s + 4) s 0) (\<lambda>cmd ps.
       case peek s ps [] of (_, ps) \<Rightarrow>
         if ps \<noteq> length s then Leftovers (drop ps s) else Parsed (cmd, nulterminate cmd s) ps)"

text \<open>The string a word points at in the line, once it is cut.\<close>

definition word_string :: "byte list \<Rightarrow> word_at \<Rightarrow> byte list" where
  "word_string s w = takeWhile (\<lambda>c. c \<noteq> 0) (drop (fst w) s)"

end
