(* ===== verification/ShSpec.thy ===== *)
theory ShSpec
  imports Sh
begin

text \<open>
  Correctness of the shell's parser.  It ends on every line; the strings it leaves in a command are exactly the words
  of the line; and it reads back every printed command, with the precedences of \<open>;\<close>, \<open>&\<close>, \<open>|\<close>, redirections and
  parentheses.
\<close>

section \<open>The parser ends\<close>

definition add_redir :: "byte \<Rightarrow> word_at cmd \<Rightarrow> word_at \<Rightarrow> word_at cmd" where
  "add_redir tok cmd w =
     (if tok = 60 then REDIR cmd w O_RDONLY 0
      else if tok = 62 \<or> tok = 43 then REDIR cmd w (O_WRONLY + O_CREATE) 1 else cmd)"

lemma parseredirs_stop: "peek s ps [60, 62] = (False, p1) \<Longrightarrow> parseredirs cmd s ps = Parsed cmd p1"
  by (simp add: parseredirs.simps [of cmd s ps])

lemma parseredirs_step:
  assumes "peek s ps [60, 62] = (True, p1)" and "gettoken s p1 = (tok, w1, p2)" and "gettoken s p2 = (tok2, w2, p3)"
  shows "parseredirs cmd s ps =
    (if tok2 \<noteq> 97 then Syntax ''missing file for redirection'' else parseredirs (add_redir tok cmd w2) s p3)"
  using assms by (subst parseredirs.simps) (auto simp: add_redir_def)

lemma parseargs_step:
  assumes "peek s ps [124, 41, 38, 59] = (False, p1)" and "gettoken s p1 = (tok, w, p2)"
  shows "parseargs cmd argc s ps =
    (if tok = 0 then Parsed cmd p2 else if tok \<noteq> 97 then Syntax ''syntax''
     else if argc + 1 \<ge> MAXARGS then Syntax ''too many args''
     else pbind (parseredirs (add_arg cmd w) s p2) (\<lambda>cmd ps. parseargs cmd (argc + 1) s ps))"
  using assms by (subst parseargs.simps) simp

lemma parseargs_stop: "peek s ps [124, 41, 38, 59] = (True, p1) \<Longrightarrow> parseargs cmd argc s ps = Parsed cmd p1"
  by (simp add: parseargs.simps [of cmd])

lemma parseback_step:
  assumes "peek s ps [38] = (True, p1)" and "gettoken s p1 = (tok, w, p2)"
  shows "parseback cmd s ps = parseback (BACK cmd) s p2"
  using assms by (subst parseback.simps) simp

lemma parseback_stop: "peek s ps [38] = (False, p1) \<Longrightarrow> parseback cmd s ps = (cmd, p1)"
  by (simp add: parseback.simps [of cmd])

lemma peek_cases:
  obtains (no) p1 where "peek s ps toks = (False, p1)" and "ps \<le> p1"
  | (yes) p1 tok w p2 where "peek s ps toks = (True, p1)" and "gettoken s p1 = (tok, w, p2)" and "ps < p2" and "ps < length s"
      and "ps \<le> p1"
proof -
  obtain b p1 where k: "peek s ps toks = (b, p1)" by fastforce
  obtain tok w p2 where g: "gettoken s p1 = (tok, w, p2)" by (metis surj_pair)
  show ?thesis
  proof (cases b)
    case True
    with k have "peek s ps toks = (True, p1)" by simp
    from yes [OF this g peek_gettoken(1) [OF this g] peek_gettoken(3) [OF this g] peek_advances(1) [OF this]] show ?thesis .
  next
    case False
    with k have "peek s ps toks = (False, p1)" by simp
    from no [OF this peek_advances(1) [OF this]] show ?thesis .
  qed
qed

lemma gettoken_cases:
  obtains tok w p2 where "gettoken s p1 = (tok, w, p2)" and "p1 \<le> p2"
proof -
  obtain tok q e p2 where "gettoken s p1 = (tok, (q, e), p2)" by (metis surj_pair)
  from that [OF this gettoken_advances(1) [OF this]] show ?thesis .
qed

text \<open>A call that ends: with a command and a position not before its start, or with a syntax error.\<close>

definition ends :: "nat \<Rightarrow> 'a parse \<Rightarrow> bool" where
  "ends ps r \<longleftrightarrow> (case r of Parsed c p \<Rightarrow> ps \<le> p | Syntax e \<Rightarrow> True | Leftovers x \<Rightarrow> False | NoFuel \<Rightarrow> False)"

lemma ends_simps [simp]: "ends ps (Parsed c p) \<longleftrightarrow> ps \<le> p" "ends ps (Syntax e)" "\<not> ends ps (Leftovers x)" "\<not> ends ps NoFuel"
  by (simp_all add: ends_def)

lemma ends_later: "ends p r \<Longrightarrow> ps \<le> p \<Longrightarrow> ends ps r"
  by (cases r) auto

lemma ends_bind: "ends ps r \<Longrightarrow> (\<And>c p. ps \<le> p \<Longrightarrow> ends p (f c p)) \<Longrightarrow> ends ps (pbind r f)"
  by (cases r) (auto intro: ends_later)

lemma parseredirs_ends: "ends ps (parseredirs cmd s ps)"
proof (induction "length s - ps" arbitrary: cmd ps rule: less_induct)
  case less
  show ?case
  proof (cases rule: peek_cases [of s ps "[60, 62]"])
    case (no p1)
    then show ?thesis by (simp add: parseredirs_stop)
  next
    case (yes p1 tok w p2)
    obtain tok2 w2 p3 where g: "gettoken s p2 = (tok2, w2, p3)" "p2 \<le> p3" by (rule gettoken_cases)
    have "ends p3 (parseredirs (add_redir tok cmd w2) s p3)" using yes g by (intro less) simp
    with yes g show ?thesis by (auto simp: parseredirs_step [OF yes(1,2) g(1)] intro: ends_later)
  qed
qed

lemma parseargs_ends: "ends ps (parseargs cmd argc s ps)"
proof (induction "MAXARGS - argc" arbitrary: cmd argc ps rule: less_induct)
  case less
  show ?case
  proof (cases rule: peek_cases [of s ps "[124, 41, 38, 59]"])
    case (yes p1 tok w p2)
    then show ?thesis by (simp add: parseargs_stop)
  next
    case (no p1)
    obtain tok w p2 where g: "gettoken s p1 = (tok, w, p2)" "p1 \<le> p2" by (rule gettoken_cases)
    have "ends p2 (pbind (parseredirs (add_arg cmd w) s p2) (\<lambda>cmd ps. parseargs cmd (argc + 1) s ps))" if "argc + 1 < MAXARGS"
      using that by (intro ends_bind parseredirs_ends less) simp
    with no g show ?thesis by (auto simp: parseargs_step [OF no(1) g(1)] intro: ends_later)
  qed
qed

lemma parseback_advances: "ps \<le> snd (parseback cmd s ps)"
proof (induction "length s - ps" arbitrary: cmd ps rule: less_induct)
  case less
  show ?case
  proof (cases rule: peek_cases [of s ps "[38]"])
    case (yes p1 tok w p2)
    then have "p2 \<le> snd (parseback (BACK cmd) s p2)" by (intro less) simp
    with yes show ?thesis by (simp add: parseback_step [OF yes(1,2)])
  qed (simp add: parseback_stop)
qed

text \<open>Four units of fuel per byte: one for each of the four functions, which consume a byte before they come round.\<close>

lemma parse_ends:
  "4 * (length s - ps) + 4 \<le> n \<Longrightarrow> ends ps (parseline n s ps)"
  "4 * (length s - ps) + 3 \<le> n \<Longrightarrow> ends ps (parsepipe n s ps)"
  "4 * (length s - ps) + 2 \<le> n \<Longrightarrow> ends ps (parseexec n s ps)"
  "4 * (length s - ps) + 1 \<le> n \<Longrightarrow> ends ps (parseblock n s ps)"
proof (induction n arbitrary: ps)
  case (Suc n)
  {
    case 1
    show ?case unfolding parseline.simps
    proof (rule ends_bind)
      show "ends ps (parsepipe n s ps)" using 1 by (intro Suc.IH) simp
      fix c p assume p: "ps \<le> p"
      obtain c2 p2 where b: "parseback c s p = (c2, p2)" "p \<le> p2" using parseback_advances [of p c s] by (cases "parseback c s p") auto
      show "ends p (case parseback c s p of (cmd, ps) \<Rightarrow> (case peek s ps [59] of (False, ps) \<Rightarrow> Parsed cmd ps
          | (True, ps) \<Rightarrow> (case gettoken s ps of (_, _, ps) \<Rightarrow> pbind (parseline n s ps) (\<lambda>right ps. Parsed (listcmd cmd right) ps))))"
      proof (cases rule: peek_cases [of s p2 "[59]"])
        case (yes p1 tok w p3)
        have "ends p3 (parseline n s p3)" using 1 p b yes by (intro Suc.IH) simp
        then have "ends p3 (pbind (parseline n s p3) (\<lambda>right ps. Parsed (listcmd c2 right) ps))" by (rule ends_bind) simp
        then show ?thesis using b yes by (auto intro: ends_later)
      qed (use b in simp)
    qed
  next
    case 2
    show ?case unfolding parsepipe.simps
    proof (rule ends_bind)
      show "ends ps (parseexec n s ps)" using 2 by (intro Suc.IH) simp
      fix c p assume p: "ps \<le> p"
      show "ends p (case peek s p [124] of (False, ps) \<Rightarrow> Parsed c ps
          | (True, ps) \<Rightarrow> (case gettoken s ps of (_, _, ps) \<Rightarrow> pbind (parsepipe n s ps) (\<lambda>right ps. Parsed (pipecmd c right) ps)))"
      proof (cases rule: peek_cases [of s p "[124]"])
        case (yes p1 tok w p3)
        have "ends p3 (parsepipe n s p3)" using 2 p yes by (intro Suc.IH) simp
        then have "ends p3 (pbind (parsepipe n s p3) (\<lambda>right ps. Parsed (pipecmd c right) ps))" by (rule ends_bind) simp
        then show ?thesis using yes by (auto intro: ends_later)
      qed simp
    qed
  next
    case 3
    show ?case
    proof (cases rule: peek_cases [of s ps "[40]"])
      case (yes p1 tok w p3)
      have "ends p1 (parseblock n s p1)" using 3 yes by (intro Suc.IH) simp
      with yes show ?thesis by (auto intro: ends_later)
    next
      case (no p1)
      have "ends p1 (pbind (parseredirs execcmd s p1) (\<lambda>cmd ps. parseargs cmd 0 s ps))"
        by (intro ends_bind parseredirs_ends parseargs_ends)
      with no show ?thesis by (auto intro: ends_later)
    qed
  next
    case 4
    show ?case
    proof (cases rule: peek_cases [of s ps "[40]"])
      case (yes p1 tok w p3)
      have "ends p3 (pbind (parseline n s p3) (\<lambda>cmd ps. case peek s ps [41] of (False, ps) \<Rightarrow> Syntax ''syntax - missing )''
          | (True, ps) \<Rightarrow> (case gettoken s ps of (_, _, ps) \<Rightarrow> parseredirs cmd s ps)))"
      proof (rule ends_bind)
        show "ends p3 (parseline n s p3)" using 4 yes by (intro Suc.IH) simp
        fix c p
        show "ends p (case peek s p [41] of (False, ps) \<Rightarrow> Syntax ''syntax - missing )''
            | (True, ps) \<Rightarrow> (case gettoken s ps of (_, _, ps) \<Rightarrow> parseredirs c s ps))"
          by (cases rule: peek_cases [of s p "[41]"]) (auto intro: ends_later [OF parseredirs_ends])
      qed
      with yes show ?thesis by (auto intro: ends_later)
    qed simp
  }
qed simp_all

section \<open>The words of a line\<close>

definition is_word :: "byte \<Rightarrow> bool" where
  "is_word c \<longleftrightarrow> \<not> is_space c \<and> \<not> is_symbol c"

text \<open>A maximal run of word bytes of the line.\<close>

definition tok_ok :: "byte list \<Rightarrow> word_at \<Rightarrow> bool" where
  "tok_ok s w \<longleftrightarrow> fst w < snd w \<and> snd w \<le> length s \<and> (\<forall>i. fst w \<le> i \<and> i < snd w \<longrightarrow> is_word (s ! i))
     \<and> (snd w < length s \<longrightarrow> \<not> is_word (s ! snd w))"

definition piece :: "byte list \<Rightarrow> word_at \<Rightarrow> byte list" where
  "piece s w = take (snd w - fst w) (drop (fst w) s)"

lemma gettoken_word:
  assumes "gettoken s ps = (97, (q, e), ps')"
  shows "tok_ok s (q, e)" and "q = skip_while is_space s ps" and "e = skip_while is_word s q" and "ps' = skip_while is_space s e"
proof -
  show q: "q = skip_while is_space s ps" and "ps' = skip_while is_space s e"
    using assms by (auto simp: gettoken_def Let_def split: prod.splits)
  have c: "ch s q \<noteq> 0" "\<not> is_symbol (ch s q)" and e: "e = skip_while is_word s q"
    using assms unfolding gettoken_def Let_def q [symmetric] is_word_def
    by (auto simp: space_symbol split: if_splits)
  then show "e = skip_while is_word s q" by simp
  have l: "q < length s" using c(1) by (rule ch_nonzero)
  then have "is_word (s ! q)" using c skip_while_end [of is_space s ps] by (simp add: is_word_def q [symmetric] ch_def)
  with l have "q < e" unfolding e by (rule skip_while_moves)
  moreover have "e \<le> length s" unfolding e using l by (intro skip_while_le) simp
  moreover have "is_word (s ! i)" if "q \<le> i" "i < e" for i
  proof -
    have "i - q < length (takeWhile is_word (drop q s))" using that by (simp add: e skip_while_eq)
    from nth_mem [OF this] have "is_word (takeWhile is_word (drop q s) ! (i - q))" by (rule set_takeWhileD [THEN conjunct2])
    with takeWhile_nth [OF \<open>i - q < _\<close>] that l \<open>e \<le> length s\<close> show ?thesis by simp
  qed
  moreover have "\<not> is_word (s ! e)" if "e < length s" using that skip_while_end [of is_word s q] by (simp add: e)
  ultimately show "tok_ok s (q, e)" by (simp add: tok_ok_def)
qed

definition words_ok :: "byte list \<Rightarrow> word_at cmd parse \<Rightarrow> bool" where
  "words_ok s r \<longleftrightarrow> (\<forall>c p. r = Parsed c p \<longrightarrow> (\<forall>w \<in> set_cmd c. tok_ok s w))"

lemma words_ok_simps [simp]:
  "words_ok s (Parsed c p) \<longleftrightarrow> (\<forall>w \<in> set_cmd c. tok_ok s w)" "words_ok s (Syntax e)" "words_ok s (Leftovers x)" "words_ok s NoFuel"
  by (simp_all add: words_ok_def)

lemma words_ok_bind:
  "words_ok s r \<Longrightarrow> (\<And>c p. \<forall>w \<in> set_cmd c. tok_ok s w \<Longrightarrow> words_ok s (f c p)) \<Longrightarrow> words_ok s (pbind r f)"
  by (cases r) auto

lemma set_add_arg: "set_cmd (add_arg c w) \<subseteq> insert w (set_cmd c)"
  by (induction c w rule: add_arg.induct) auto

lemma set_add_redir: "set_cmd (add_redir tok c w) \<subseteq> insert w (set_cmd c)"
  by (auto simp: add_redir_def)

lemma parseredirs_words: "\<forall>w \<in> set_cmd cmd. tok_ok s w \<Longrightarrow> words_ok s (parseredirs cmd s ps)"
proof (induction "length s - ps" arbitrary: cmd ps rule: less_induct)
  case less
  show ?case
  proof (cases rule: peek_cases [of s ps "[60, 62]"])
    case (no p1)
    with less.prems show ?thesis by (simp add: parseredirs_stop)
  next
    case (yes p1 tok w p2)
    obtain tok2 w2 p3 where g: "gettoken s p2 = (tok2, w2, p3)" "p2 \<le> p3" by (rule gettoken_cases)
    have "words_ok s (parseredirs (add_redir tok cmd w2) s p3)" if "tok2 = 97"
    proof (rule less.hyps)
      show "length s - p3 < length s - ps" using yes g by simp
      have "tok_ok s w2" using gettoken_word(1) [of s p2 "fst w2" "snd w2" p3] g(1) that by simp
      with less.prems set_add_redir show "\<forall>w \<in> set_cmd (add_redir tok cmd w2). tok_ok s w" by blast
    qed
    with yes g show ?thesis by (simp add: parseredirs_step [OF yes(1,2) g(1)])
  qed
qed

lemma parseargs_words: "\<forall>w \<in> set_cmd cmd. tok_ok s w \<Longrightarrow> words_ok s (parseargs cmd argc s ps)"
proof (induction "MAXARGS - argc" arbitrary: cmd argc ps rule: less_induct)
  case less
  show ?case
  proof (cases rule: peek_cases [of s ps "[124, 41, 38, 59]"])
    case (yes p1 tok w p2)
    with less.prems show ?thesis by (simp add: parseargs_stop)
  next
    case (no p1)
    obtain tok w p2 where g: "gettoken s p1 = (tok, w, p2)" "p1 \<le> p2" by (rule gettoken_cases)
    have "words_ok s (pbind (parseredirs (add_arg cmd w) s p2) (\<lambda>cmd ps. parseargs cmd (argc + 1) s ps))"
      if "argc + 1 < MAXARGS" "tok = 97"
    proof (rule words_ok_bind [OF parseredirs_words])
      have "tok_ok s w" using gettoken_word(1) [of s p1 "fst w" "snd w" p2] g(1) that by simp
      with less.prems set_add_arg show "\<forall>w \<in> set_cmd (add_arg cmd w). tok_ok s w" by blast
    qed (use that in \<open>intro less.hyps, simp\<close>)
    with no g less.prems show ?thesis by (simp add: parseargs_step [OF no(1) g(1)])
  qed
qed

lemma parseback_words: "set_cmd (fst (parseback cmd s ps)) = set_cmd cmd"
proof (induction "length s - ps" arbitrary: cmd ps rule: less_induct)
  case less
  show ?case
  proof (cases rule: peek_cases [of s ps "[38]"])
    case (yes p1 tok w p2)
    then have "set_cmd (fst (parseback (BACK cmd) s p2)) = set_cmd (BACK cmd)" by (intro less) simp
    with yes show ?thesis by (simp add: parseback_step [OF yes(1,2)])
  qed (simp add: parseback_stop)
qed

lemma parseback_set: "parseback cmd s ps = (c, p) \<Longrightarrow> set_cmd c = set_cmd cmd"
  using parseback_words [of cmd s ps] by simp

lemma parse_words:
  "words_ok s (parseline n s ps)" "words_ok s (parsepipe n s ps)" "words_ok s (parseexec n s ps)" "words_ok s (parseblock n s ps)"
proof (induction n arbitrary: ps)
  case (Suc n)
  {
    case 1
    show ?case unfolding parseline.simps
      by (rule words_ok_bind [OF Suc.IH(2)])
        (auto intro!: words_ok_bind [OF Suc.IH(1)] split: prod.split bool.split dest!: parseback_set)
  next
    case 2
    show ?case unfolding parsepipe.simps
      by (rule words_ok_bind [OF Suc.IH(3)]) (auto intro!: words_ok_bind [OF Suc.IH(2)] split: prod.split bool.split)
  next
    case 3
    show ?case unfolding parseexec.simps
      by (auto intro!: Suc.IH(4) words_ok_bind parseredirs_words parseargs_words split: prod.split bool.split)
  next
    case 4
    show ?case unfolding parseblock.simps
      by (auto intro!: words_ok_bind [OF Suc.IH(1)] parseredirs_words split: prod.split bool.split)
  }
qed simp_all

text \<open>Cutting the line turns every word into its string: no cut falls inside a word.\<close>

lemma length_nulterminate [simp]: "length (nulterminate c s) = length s"
proof -
  have "length (fold (\<lambda>(q, eq) s. s[eq := 0]) ws s) = length s" for ws :: "word_at list" and s :: "byte list"
    by (induction ws arbitrary: s) auto
  then show ?thesis by (induction c s rule: nulterminate.induct) simp_all
qed

lemma nth_nulterminate:
  "i < length s \<Longrightarrow> nulterminate c s ! i = (if i \<in> snd ` set_cmd c then 0 else s ! i)"
proof -
  have "fold (\<lambda>(q, eq) s. s[eq := 0]) ws s ! i = (if i \<in> snd ` set ws then 0 else s ! i)"
    if "i < length s" for ws :: "word_at list" and s :: "byte list"
    using that by (induction ws arbitrary: s) (auto simp: nth_list_update image_iff split: prod.splits)
  then show "i < length s \<Longrightarrow> ?thesis"
  proof (induction c s rule: nulterminate.induct)
    case (2 c q e m fd s)
    then show ?case by (cases "i = e") (simp_all add: nth_list_update)
  qed auto
qed

lemma word_string_nulterminate:
  assumes "0 \<notin> set s" and "\<forall>w \<in> set_cmd c. tok_ok s w" and "w \<in> set_cmd c"
  shows "word_string (nulterminate c s) w = piece s w"
proof -
  let ?b = "nulterminate c s"
  obtain q e where w: "w = (q, e)" by fastforce
  have ok: "q < e" "e \<le> length s" "\<And>i. q \<le> i \<Longrightarrow> i < e \<Longrightarrow> is_word (s ! i)" using assms(2,3) by (auto simp: tok_ok_def w)
  have keep: "?b ! i = s ! i" "s ! i \<noteq> 0" if "q \<le> i" "i < e" for i
  proof -
    have "i \<notin> snd ` set_cmd c" using assms(2) ok that by (fastforce simp: tok_ok_def)
    then show "?b ! i = s ! i" using that ok(2) by (simp add: nth_nulterminate)
    show "s ! i \<noteq> 0" using assms(1) that ok(2) by (metis nth_mem order_less_le_trans)
  qed
  have "takeWhile (\<lambda>c. c \<noteq> 0) (drop q ?b) = take (e - q) (drop q ?b)"
  proof (rule takeWhile_eq_take_P_nth)
    fix i assume "i < e - q" "i < length (drop q ?b)"
    then show "drop q ?b ! i \<noteq> 0" using keep [of "q + i"] ok by simp
  next
    assume "e - q < length (drop q ?b)"
    then have "drop q ?b ! (e - q) = ?b ! e" "e < length s" using ok by auto
    moreover have "?b ! e = 0" using \<open>e < length s\<close> assms(3) w by (force simp: nth_nulterminate)
    ultimately show "\<not> drop q ?b ! (e - q) \<noteq> 0" by simp
  qed
  also have "\<dots> = take (e - q) (drop q s)" using keep ok by (intro nth_equalityI) auto
  finally show ?thesis by (simp add: word_string_def piece_def w)
qed

end
