(* ===== verification/ShPrint.thy ===== *)
theory ShPrint
  imports ShSpec "HOL-Library.Sublist"
begin

text \<open>
  Printing commands, and the parser reading back what is printed.  \<open>pr k\<close> prints at a precedence level: 0 an operand of
  \<open>|\<close>, 1 a pipeline, 2 pipelines followed by \<open>&\<close>, 3 a whole line; a command of a higher level is put in parentheses.
\<close>

section \<open>Printing\<close>

definition pr_args :: "byte list list \<Rightarrow> byte list" where
  "pr_args args = concat (map (Cons 32) args)"

definition pr_redir :: "byte list \<Rightarrow> int \<Rightarrow> byte list" where
  "pr_redir f fd = [32, if fd = 0 then 60 else 62, 32] @ f"

fun pr :: "nat \<Rightarrow> byte list cmd \<Rightarrow> byte list" where
  "pr k (EXEC args) = pr_args args"
| "pr k (REDIR c f m fd) = pr 0 c @ pr_redir f fd"
| "pr k (PIPE l r) = (let t = pr 0 l @ [32, 124] @ pr 1 r in if k < 1 then [32, 40] @ t @ [32, 41] else t)"
| "pr k (BACK c) = (let t = pr 2 c @ [32, 38] in if k < 2 then [32, 40] @ t @ [32, 41] else t)"
| "pr k (LIST l r) = (let t = pr 2 l @ [32, 59] @ pr 3 r in if k < 3 then [32, 40] @ t @ [32, 41] else t)"

definition word_ok :: "byte list \<Rightarrow> bool" where
  "word_ok a \<longleftrightarrow> a \<noteq> [] \<and> (\<forall>c \<in> set a. is_word c \<and> c \<noteq> 0)"

definition redir_ok :: "int \<Rightarrow> int \<Rightarrow> bool" where
  "redir_ok m fd \<longleftrightarrow> m = O_RDONLY \<and> fd = 0 \<or> m = O_WRONLY + O_CREATE \<and> fd = 1"

fun cmd_ok :: "byte list cmd \<Rightarrow> bool" where
  "cmd_ok (EXEC args) \<longleftrightarrow> length args < MAXARGS \<and> (\<forall>a \<in> set args. word_ok a)"
| "cmd_ok (REDIR c f m fd) \<longleftrightarrow> cmd_ok c \<and> word_ok f \<and> redir_ok m fd"
| "cmd_ok (PIPE l r) \<longleftrightarrow> cmd_ok l \<and> cmd_ok r"
| "cmd_ok (BACK c) \<longleftrightarrow> cmd_ok c"
| "cmd_ok (LIST l r) \<longleftrightarrow> cmd_ok l \<and> cmd_ok r"

section \<open>What the parser sees\<close>

abbreviation trim :: "byte list \<Rightarrow> byte list" where
  "trim t \<equiv> dropWhile is_space t"

definition sees :: "byte list \<Rightarrow> nat \<Rightarrow> byte list \<Rightarrow> bool" where
  "sees s ps t \<longleftrightarrow> ps \<le> length s \<and> trim (drop ps s) = trim t"

definition first :: "byte list \<Rightarrow> byte" where
  "first t = ch (trim t) 0"

lemma first_simps [simp]: "first (32 # t) = first t" "\<not> is_space c \<Longrightarrow> first (c # t) = c" "first [] = 0"
  by (simp_all add: first_def space_symbol)

lemma sees_blank [simp]: "sees s ps (32 # t) \<longleftrightarrow> sees s ps t"
  by (simp add: sees_def space_symbol)

lemma drop_skip: "drop (skip_while P s ps) s = dropWhile P (drop ps s)"
  by (simp add: skip_while_eq dropWhile_eq_drop add.commute)

lemma sees_skip:
  assumes "ps \<le> length s" and "drop ps s = t"
  shows "sees s (skip_while is_space s ps) t"
  using assms by (simp add: sees_def drop_skip skip_while_le dropWhile_idem)

lemma ch_drop: "ch s p = ch (drop p s) 0"
  by (simp add: ch_def)

lemma sees_start:
  assumes "sees s ps t"
  shows "drop (skip_while is_space s ps) s = trim t" and "skip_while is_space s ps \<le> length s"
    and "ch s (skip_while is_space s ps) = first t"
proof -
  show d: "drop (skip_while is_space s ps) s = trim t" using assms by (simp add: sees_def drop_skip)
  show "skip_while is_space s ps \<le> length s" using assms by (simp add: sees_def skip_while_le)
  show "ch s (skip_while is_space s ps) = first t" by (subst ch_drop) (simp add: d first_def)
qed

lemma peek_sees:
  assumes "sees s ps t"
  obtains p where "peek s ps toks = (first t \<noteq> 0 \<and> strchr toks (first t) \<noteq> None, p)" and "sees s p t"
proof -
  let ?p = "skip_while is_space s ps"
  have "sees s ?p t" using assms by (simp add: sees_def drop_skip skip_while_le dropWhile_idem)
  moreover have "peek s ps toks = (first t \<noteq> 0 \<and> strchr toks (first t) \<noteq> None, ?p)"
    using sees_start(3) [OF assms] by (simp add: peek_def Let_def)
  ultimately show ?thesis using that by blast
qed

lemma gettoken_symbol:
  assumes "sees s ps (c # t)" and "is_symbol c" and "c = 62 \<longrightarrow> ch t 0 \<noteq> 62"
  obtains w p where "gettoken s ps = (c, w, p)" and "sees s p t"
proof -
  let ?q = "skip_while is_space s ps"
  have sp: "\<not> is_space c" "c \<noteq> 0" using assms(2) by (auto simp: space_symbol)
  then have d: "drop ?q s = c # t" "ch s ?q = c" using sees_start [OF assms(1)] by auto
  then have l: "?q < length s" using ch_nonzero [of s ?q] sp by simp
  have d1: "drop (?q + 1) s = t" using d(1) by (metis Suc_eq_plus1 drop_Suc list.sel(3) tl_drop)
  have "gettoken s ps = (c, (?q, ?q + 1), skip_while is_space s (?q + 1))"
    using assms(2,3) d(2) ch_drop [of s "?q + 1"] d1 by (auto simp: gettoken_def Let_def space_symbol)
  moreover have "sees s (skip_while is_space s (?q + 1)) t" using l d1 by (intro sees_skip) auto
  ultimately show ?thesis using that by blast
qed

lemma gettoken_end:
  assumes "sees s ps t" and "first t = 0"
  obtains w p where "gettoken s ps = (0, w, p)" and "sees s p t"
proof -
  let ?q = "skip_while is_space s ps"
  have "gettoken s ps = (0, (?q, ?q), skip_while is_space s ?q)"
    using sees_start(3) [OF assms(1)] assms(2) by (simp add: gettoken_def Let_def)
  moreover have "sees s (skip_while is_space s ?q) t"
    using sees_start(1,2) [OF assms(1)] by (simp add: sees_def drop_skip skip_while_le dropWhile_idem)
  ultimately show ?thesis using that by blast
qed

definition lead :: "byte list \<Rightarrow> bool" where
  "lead t \<longleftrightarrow> t = [] \<or> hd t = 32"

lemma lead_nonword: "lead t \<Longrightarrow> t = [] \<or> \<not> is_word (hd t)"
  by (auto simp: lead_def is_word_def space_symbol)

lemma gettoken_sees_word:
  assumes "sees s ps (a @ t)" and "word_ok a" and "lead t"
  obtains w p where "gettoken s ps = (97, w, p)" and "piece s w = a" and "sees s p t"
proof -
  let ?q = "skip_while is_space s ps"
  let ?e = "skip_while is_word s ?q"
  obtain x a' where a: "a = x # a'" "is_word x" "x \<noteq> 0" using assms(2) by (cases a) (auto simp: word_ok_def)
  have d: "drop ?q s = a @ t" "ch s ?q = x" and ql: "?q \<le> length s"
    using sees_start [OF assms(1)] a by (auto simp: is_word_def)
  have tw: "takeWhile is_word (a @ t) = a" "dropWhile is_word (a @ t) = t"
    using assms(2) lead_nonword [OF assms(3)] by (cases t; auto simp: word_ok_def takeWhile_append dropWhile_append)+
  have e: "?e = ?q + length a" by (simp add: skip_while_eq [of is_word] d tw)
  have "gettoken s ps = (97, (?q, ?e), skip_while is_space s ?e)"
    using d(2) a(2,3) unfolding gettoken_def Let_def is_word_def by (auto simp: space_symbol)
  moreover have "piece s (?q, ?e) = a" by (simp add: piece_def e d)
  moreover have "sees s (skip_while is_space s ?e) t"
    using ql by (intro sees_skip) (auto simp: drop_skip [of is_word] d tw skip_while_le)
  ultimately show ?thesis using that by blast
qed

section \<open>Reading redirections and arguments\<close>

definition reads :: "word_at cmd parse \<Rightarrow> byte list \<Rightarrow> byte list cmd \<Rightarrow> byte list \<Rightarrow> bool" where
  "reads r s c t \<longleftrightarrow> (\<exists>c' p. r = Parsed c' p \<and> sees s p t \<and> map_cmd (piece s) c' = c)"

type_synonym redirs = "(byte list \<times> int) list"

definition pr_redirs :: "redirs \<Rightarrow> byte list" where
  "pr_redirs rs = concat (map (\<lambda>(f, fd). pr_redir f fd) rs)"

definition wrap :: "byte list cmd \<Rightarrow> redirs \<Rightarrow> byte list cmd" where
  "wrap c rs = foldl (\<lambda>c (f, fd). REDIR c f (if fd = 0 then O_RDONLY else O_WRONLY + O_CREATE) fd) c rs"

definition redirs_ok :: "redirs \<Rightarrow> bool" where
  "redirs_ok rs \<longleftrightarrow> (\<forall>(f, fd) \<in> set rs. word_ok f \<and> (fd = 0 \<or> fd = 1))"

lemma redirs_simps [simp]:
  "pr_redirs [] = []" "pr_redirs ((f, fd) # rs) = pr_redir f fd @ pr_redirs rs"
  "wrap c [] = c" "wrap c ((f, fd) # rs) = wrap (REDIR c f (if fd = 0 then O_RDONLY else O_WRONLY + O_CREATE) fd) rs"
  "redirs_ok []" "redirs_ok ((f, fd) # rs) \<longleftrightarrow> word_ok f \<and> (fd = 0 \<or> fd = 1) \<and> redirs_ok rs"
  by (auto simp: pr_redirs_def wrap_def redirs_ok_def)

lemma lead_simps [simp]: "lead []" "lead (32 # t)" "lead x \<Longrightarrow> lead y \<Longrightarrow> lead (x @ y)"
  by (auto simp: lead_def hd_append)

lemma lead_print [simp]: "lead (pr_args args)" "lead (pr_redir f fd)" "lead (pr_redirs rs)" "lead (pr k c)"
proof -
  show a: "lead (pr_args args)" for args by (cases args) (auto simp: pr_args_def)
  show r: "lead (pr_redir f fd)" for f fd by (simp add: pr_redir_def)
  show "lead (pr_redirs rs)" by (induction rs) (auto simp: r)
  show "lead (pr k c)" by (induction k c rule: pr.induct) (auto simp: a r Let_def)
qed

lemma first_word:
  assumes "word_ok a"
  shows "first (a @ t) = hd a" and "is_word (hd a)" and "hd a \<noteq> 0"
  using assms by (cases a; auto simp: word_ok_def is_word_def)+

lemma first_redirs: "first (pr_redirs rs @ t) = first t \<or> first (pr_redirs rs @ t) = 60 \<or> first (pr_redirs rs @ t) = 62"
  by (cases rs) (auto simp: pr_redir_def space_symbol split: if_splits)

lemma parseredirs_none:
  assumes "sees s ps t" and "first t \<noteq> 60" and "first t \<noteq> 62"
  obtains p where "parseredirs c s ps = Parsed c p" and "sees s p t"
proof -
  obtain p where "peek s ps [60, 62] = (first t \<noteq> 0 \<and> strchr [60, 62] (first t) \<noteq> None, p)" "sees s p t"
    by (rule peek_sees [OF assms(1)])
  with assms(2,3) that show ?thesis by (auto simp: parseredirs_stop)
qed

lemma parseredirs_sees:
  assumes "sees s ps (pr_redirs rs @ t)" and "redirs_ok rs" and "lead t" and "first t \<noteq> 60" and "first t \<noteq> 62"
  shows "reads (parseredirs c s ps) s (wrap (map_cmd (piece s) c) rs) t"
  using assms
proof (induction rs arbitrary: c ps)
  case Nil
  obtain p where "parseredirs c s ps = Parsed c p" "sees s p t" by (rule parseredirs_none [of s ps t c]) (use Nil in auto)
  then show ?case by (simp add: reads_def)
next
  case (Cons r rs)
  obtain f fd where r: "r = (f, fd)" by fastforce
  define k :: byte where "k = (if fd = 0 then 60 else 62)"
  have k: "is_symbol k" "\<not> is_space k" "k \<noteq> 0" "k = 60 \<or> k = 62" by (auto simp: k_def space_symbol)
  have inp: "sees s ps (k # 32 # f @ pr_redirs rs @ t)" using Cons.prems(1) by (simp add: r pr_redir_def k_def)
  obtain p1 where p1: "peek s ps [60, 62] = (True, p1)" "sees s p1 (k # 32 # f @ pr_redirs rs @ t)"
    by (rule peek_sees [OF inp, of "[60, 62]"]) (use k in auto)
  obtain w p2 where p2: "gettoken s p1 = (k, w, p2)" "sees s p2 (32 # f @ pr_redirs rs @ t)"
    by (rule gettoken_symbol [OF p1(2) k(1)]) auto
  obtain w2 p3 where p3: "gettoken s p2 = (97, w2, p3)" "piece s w2 = f" "sees s p3 (pr_redirs rs @ t)"
    by (rule gettoken_sees_word [of s p2 f "pr_redirs rs @ t"])
      (use p2 Cons.prems in \<open>auto simp: r\<close>)
  have "reads (parseredirs (add_redir k c w2) s p3) s (wrap (map_cmd (piece s) (add_redir k c w2)) rs) t"
    using Cons.prems p3(3) by (intro Cons.IH) (auto simp: r)
  moreover have "map_cmd (piece s) (add_redir k c w2) = REDIR (map_cmd (piece s) c) f (if fd = 0 then O_RDONLY else O_WRONLY + O_CREATE) fd"
    using Cons.prems(2) p3(2) by (auto simp: add_redir_def k_def r)
  ultimately show ?case by (simp add: parseredirs_step [OF p1(1) p2(1) p3(1)] r)
qed

abbreviation after_exec :: "byte set" where
  "after_exec \<equiv> {0, 124, 41, 38, 59}"

lemma parseargs_stop_sees:
  assumes "sees s ps t" and "first t \<in> after_exec"
  obtains p where "parseargs c argc s ps = Parsed c p" and "sees s p t"
proof -
  obtain p1 where p1: "peek s ps [124, 41, 38, 59] = (first t \<noteq> 0 \<and> strchr [124, 41, 38, 59] (first t) \<noteq> None, p1)" "sees s p1 t"
    by (rule peek_sees [OF assms(1)])
  show ?thesis
  proof (cases "first t = 0")
    case True
    obtain w p2 where "gettoken s p1 = (0, w, p2)" "sees s p2 t" by (rule gettoken_end [OF p1(2) True])
    with p1(1) True that show ?thesis by (simp add: parseargs_step)
  next
    case False
    with p1(1) assms(2) have "peek s ps [124, 41, 38, 59] = (True, p1)" by auto
    with p1(2) that show ?thesis by (simp add: parseargs_stop)
  qed
qed

lemma parseargs_sees:
  assumes "sees s ps (pr_args args @ pr_redirs rs @ t)" and "args \<noteq> []" and "\<forall>a \<in> set args. word_ok a"
    and "argc + length args < MAXARGS" and "redirs_ok rs" and "lead t" and "first t \<in> after_exec"
  shows "reads (parseargs (EXEC ws) argc s ps) s (wrap (EXEC (map (piece s) ws @ args)) rs) t"
  using assms
proof (induction args arbitrary: ws argc ps)
  case (Cons a args)
  let ?t = "pr_args args @ pr_redirs rs @ t"
  have a: "word_ok a" using Cons.prems by simp
  have inp: "sees s ps (a @ ?t)" using Cons.prems(1) by (simp add: pr_args_def)
  obtain p1 where p1: "peek s ps [124, 41, 38, 59] = (False, p1)" "sees s p1 (a @ ?t)"
    by (rule peek_sees [OF inp, of "[124, 41, 38, 59]"]) (use first_word [OF a] in \<open>auto simp: is_word_def space_symbol\<close>)
  obtain w p2 where p2: "gettoken s p1 = (97, w, p2)" "piece s w = a" "sees s p2 ?t"
    by (rule gettoken_sees_word [OF p1(2) a]) (use Cons.prems(6) in auto)
  have step: "parseargs (EXEC ws) argc s ps =
      pbind (parseredirs (EXEC (ws @ [w])) s p2) (\<lambda>cmd ps. parseargs cmd (argc + 1) s ps)"
    using Cons.prems(4) by (simp add: parseargs_step [OF p1(1) p2(1)])
  show ?case
  proof (cases "args = []")
    case True
    have "reads (parseredirs (EXEC (ws @ [w])) s p2) s (wrap (map_cmd (piece s) (EXEC (ws @ [w]))) rs) t"
      using True p2(3) Cons.prems by (intro parseredirs_sees) (auto simp: pr_args_def)
    then obtain c' p3 where c': "parseredirs (EXEC (ws @ [w])) s p2 = Parsed c' p3" "sees s p3 t"
      "map_cmd (piece s) c' = wrap (EXEC (map (piece s) ws @ [a])) rs"
      using p2(2) by (auto simp: reads_def)
    obtain p4 where "parseargs c' (argc + 1) s p3 = Parsed c' p4" "sees s p4 t"
      by (rule parseargs_stop_sees [OF c'(2) Cons.prems(7)])
    with c' True show ?thesis by (simp add: step reads_def)
  next
    case False
    then obtain b args' where args: "args = b # args'" by (cases args) auto
    then have b: "word_ok b" using Cons.prems(3) by simp
    have "first ?t = hd b" using first_word(1) [OF b] by (simp add: args pr_args_def)
    then obtain p3 where p3: "parseredirs (EXEC (ws @ [w])) s p2 = Parsed (EXEC (ws @ [w])) p3" "sees s p3 ?t"
      using parseredirs_none [OF p2(3), of "EXEC (ws @ [w])"] first_word(2) [OF b] by (auto simp: is_word_def space_symbol)
    have "reads (parseargs (EXEC (ws @ [w])) (argc + 1) s p3) s (wrap (EXEC (map (piece s) (ws @ [w]) @ args)) rs) t"
      using False Cons.prems p3(2) by (intro Cons.IH) auto
    then show ?thesis using p2(2) by (simp add: step p3(1))
  qed
qed simp

section \<open>Reading commands, level by level\<close>

abbreviation after_pipe :: "byte set" where
  "after_pipe \<equiv> {0, 41, 38, 59}"

abbreviation after_line :: "byte set" where
  "after_line \<equiv> {0, 41}"

definition readsE :: "byte list cmd \<Rightarrow> bool" where
  "readsE c \<longleftrightarrow> (\<forall>n s ps rs t. 4 * length (pr 0 c) + 2 \<le> n \<longrightarrow> sees s ps (pr 0 c @ pr_redirs rs @ t) \<longrightarrow> redirs_ok rs
     \<longrightarrow> lead t \<longrightarrow> first t \<in> after_exec \<longrightarrow> reads (parseexec n s ps) s (wrap c rs) t)"

definition readsP :: "byte list cmd \<Rightarrow> bool" where
  "readsP c \<longleftrightarrow> (\<forall>n s ps t. 4 * length (pr 1 c) + 3 \<le> n \<longrightarrow> sees s ps (pr 1 c @ t) \<longrightarrow> lead t \<longrightarrow> first t \<in> after_pipe
     \<longrightarrow> reads (parsepipe n s ps) s c t)"

definition readsB :: "byte list cmd \<Rightarrow> bool" where
  "readsB c \<longleftrightarrow> (\<forall>n s ps t. 4 * length (pr 2 c) + 3 \<le> n \<longrightarrow> sees s ps (pr 2 c @ t) \<longrightarrow> lead t \<longrightarrow> first t \<in> after_pipe
     \<longrightarrow> (\<exists>b q c' q'. parsepipe n s ps = Parsed b q \<and> parseback b s q = parseback c' s q' \<and> sees s q' t
            \<and> map_cmd (piece s) c' = c))"

definition readsL :: "byte list cmd \<Rightarrow> bool" where
  "readsL c \<longleftrightarrow> (\<forall>n s ps t. 4 * length (pr 3 c) + 4 \<le> n \<longrightarrow> sees s ps (pr 3 c @ t) \<longrightarrow> lead t \<longrightarrow> first t \<in> after_line
     \<longrightarrow> reads (parseline n s ps) s c t)"

lemma peek_sees_no:
  assumes "sees s ps t" and "strchr toks (first t) = None"
  obtains p where "peek s ps toks = (False, p)" and "sees s p t"
  by (rule peek_sees [OF assms(1), of toks]) (use assms(2) that in simp)

lemma peek_sees_yes:
  assumes "sees s ps (c # t)" and "is_symbol c" and "strchr toks c \<noteq> None" and "c \<noteq> 62"
  obtains p w p2 where "peek s ps toks = (True, p)" and "sees s p (c # t)" and "gettoken s p = (c, w, p2)" and "sees s p2 t"
proof -
  have c: "\<not> is_space c" "c \<noteq> 0" using assms(2) by (auto simp: space_symbol)
  obtain p where p: "peek s ps toks = (True, p)" "sees s p (c # t)"
    by (rule peek_sees [OF assms(1), of toks]) (use assms(3) c in simp)
  obtain w p2 where "gettoken s p = (c, w, p2)" "sees s p2 t" by (rule gettoken_symbol [OF p(2) assms(2)]) (use assms(4) in auto)
  with p that show ?thesis by blast
qed

lemma E_EXEC:
  assumes "cmd_ok (EXEC args)"
  shows "readsE (EXEC args)"
  unfolding readsE_def
proof (intro allI impI)
  fix n s ps rs t
  assume n: "4 * length (pr 0 (EXEC args)) + 2 \<le> n" and sees: "sees s ps (pr 0 (EXEC args) @ pr_redirs rs @ t)"
    and rs: "redirs_ok rs" and t: "lead t" "first t \<in> after_exec"
  obtain m where m: "n = Suc m" using n by (cases n) auto
  let ?t = "pr_args args @ pr_redirs rs @ t"
  have w: "first ?t = first (pr_redirs rs @ t) \<or> is_word (first ?t)"
    using assms first_word by (cases args) (auto simp: pr_args_def)
  have "first ?t \<noteq> 40" using w first_redirs [of rs t] t(2) by (auto simp: is_word_def space_symbol)
  then obtain p1 where p1: "peek s ps [40] = (False, p1)" "sees s p1 ?t"
    using peek_sees_no [of s ps ?t "[40]"] sees by auto
  have e: "parseexec n s ps = pbind (parseredirs (EXEC []) s p1) (\<lambda>cmd ps. parseargs cmd 0 s ps)"
    by (simp add: m p1(1))
  show "reads (parseexec n s ps) s (wrap (EXEC args) rs) t"
  proof (cases "args = []")
    case True
    have "reads (parseredirs (EXEC []) s p1) s (wrap (map_cmd (piece s) (EXEC [])) rs) t"
      using True p1(2) rs t by (intro parseredirs_sees) (auto simp: pr_args_def)
    then obtain c' p2 where c': "parseredirs (EXEC []) s p1 = Parsed c' p2" "sees s p2 t" "map_cmd (piece s) c' = wrap (EXEC []) rs"
      by (auto simp: reads_def)
    obtain p3 where "parseargs c' 0 s p2 = Parsed c' p3" "sees s p3 t" by (rule parseargs_stop_sees [OF c'(2) t(2)])
    with c' True show ?thesis by (simp add: e reads_def)
  next
    case False
    then obtain a as where a: "args = a # as" "word_ok a" using assms by (cases args) auto
    then have "first ?t = hd a" using first_word(1) [OF a(2)] by (simp add: pr_args_def)
    then obtain p2 where p2: "parseredirs (EXEC []) s p1 = Parsed (EXEC []) p2" "sees s p2 ?t"
      using parseredirs_none [OF p1(2), of "EXEC []"] first_word(2) [OF a(2)] by (auto simp: is_word_def space_symbol)
    have "reads (parseargs (EXEC []) 0 s p2) s (wrap (EXEC (map (piece s) [] @ args)) rs) t"
      using p2(2) False assms rs t by (intro parseargs_sees) auto
    then show ?thesis by (simp add: e p2(1))
  qed
qed

lemma E_REDIR:
  assumes "readsE c" and "word_ok f" and "redir_ok m fd"
  shows "readsE (REDIR c f m fd)"
  unfolding readsE_def
proof (intro allI impI)
  fix n s ps rs t
  assume a: "4 * length (pr 0 (REDIR c f m fd)) + 2 \<le> n" "sees s ps (pr 0 (REDIR c f m fd) @ pr_redirs rs @ t)"
    "redirs_ok rs" "lead t" "first t \<in> after_exec"
  have "reads (parseexec n s ps) s (wrap c ((f, fd) # rs)) t"
    using a assms(2,3) by (intro assms(1) [unfolded readsE_def, rule_format]) (auto simp: redir_ok_def)
  moreover have "wrap c ((f, fd) # rs) = wrap (REDIR c f m fd) rs" using assms(3) by (auto simp: redir_ok_def)
  ultimately show "reads (parseexec n s ps) s (wrap (REDIR c f m fd) rs) t" by simp
qed

lemma E_block:
  assumes "readsL c" and "pr 0 c = [32, 40] @ pr 3 c @ [32, 41]"
  shows "readsE c"
  unfolding readsE_def
proof (intro allI impI)
  fix n s ps rs t
  assume n: "4 * length (pr 0 c) + 2 \<le> n" and sees: "sees s ps (pr 0 c @ pr_redirs rs @ t)"
    and rs: "redirs_ok rs" and t: "lead t" "first t \<in> after_exec"
  let ?t = "pr 3 c @ 32 # 41 # pr_redirs rs @ t"
  obtain m where m: "n = Suc (Suc m)" "4 * length (pr 3 c) + 4 \<le> m"
    using n assms(2) by (cases n; cases "n - 1") auto
  obtain p1 w1 p2 where p1: "peek s ps [40] = (True, p1)" "sees s p1 (40 # ?t)"
    by (rule peek_sees_yes [of s ps 40 ?t "[40]"]) (use sees assms(2) in \<open>auto simp: space_symbol\<close>)
  obtain p3 w3 p4 where p3: "peek s p1 [40] = (True, p3)" "gettoken s p3 = (40, w3, p4)" "sees s p4 ?t"
    by (rule peek_sees_yes [of s p1 40 ?t "[40]"]) (use p1(2) in \<open>auto simp: space_symbol\<close>)
  have "reads (parseline m s p4) s c (32 # 41 # pr_redirs rs @ t)"
    using m(2) p3(3) by (intro assms(1) [unfolded readsL_def, rule_format]) (auto simp: space_symbol)
  then obtain c' p5 where c': "parseline m s p4 = Parsed c' p5" "sees s p5 (41 # pr_redirs rs @ t)" "map_cmd (piece s) c' = c"
    by (auto simp: reads_def)
  obtain p6 w6 p7 where p6: "peek s p5 [41] = (True, p6)" "gettoken s p6 = (41, w6, p7)" "sees s p7 (pr_redirs rs @ t)"
    by (rule peek_sees_yes [OF c'(2), of "[41]"]) (auto simp: space_symbol)
  have "reads (parseredirs c' s p7) s (wrap (map_cmd (piece s) c') rs) t"
    using p6(3) rs t by (intro parseredirs_sees) auto
  then show "reads (parseexec n s ps) s (wrap c rs) t" by (simp add: m(1) p1(1) p3 c' p6)
qed

lemma P_of_E:
  assumes "readsE c" and "pr 1 c = pr 0 c"
  shows "readsP c"
  unfolding readsP_def
proof (intro allI impI)
  fix n s ps t
  assume n: "4 * length (pr 1 c) + 3 \<le> n" and sees: "sees s ps (pr 1 c @ t)" and t: "lead t" "first t \<in> after_pipe"
  obtain m where m: "n = Suc m" "4 * length (pr 0 c) + 2 \<le> m" using n assms(2) by (cases n) auto
  have "reads (parseexec m s ps) s (wrap c []) t"
    using m(2) sees t assms(2) by (intro assms(1) [unfolded readsE_def, rule_format]) auto
  then obtain c' p where c': "parseexec m s ps = Parsed c' p" "sees s p t" "map_cmd (piece s) c' = c"
    by (auto simp: reads_def)
  obtain p1 where "peek s p [124] = (False, p1)" "sees s p1 t"
    by (rule peek_sees_no [OF c'(2), of "[124]"]) (use t in auto)
  with c' show "reads (parsepipe n s ps) s c t" by (simp add: m(1) reads_def)
qed

lemma P_PIPE:
  assumes "readsE l" and "readsP r"
  shows "readsP (PIPE l r)"
  unfolding readsP_def
proof (intro allI impI)
  fix n s ps t
  assume n: "4 * length (pr 1 (PIPE l r)) + 3 \<le> n" and sees: "sees s ps (pr 1 (PIPE l r) @ t)"
    and t: "lead t" "first t \<in> after_pipe"
  let ?t = "pr 1 r @ t"
  obtain m where m: "n = Suc m" "4 * length (pr 0 l) + 2 \<le> m" "4 * length (pr 1 r) + 3 \<le> m"
    using n by (cases n) auto
  have "reads (parseexec m s ps) s (wrap l []) (32 # 124 # ?t)"
    using m(2) sees by (intro assms(1) [unfolded readsE_def, rule_format]) (auto simp: space_symbol)
  then obtain l' p where l': "parseexec m s ps = Parsed l' p" "sees s p (124 # ?t)" "map_cmd (piece s) l' = l"
    by (auto simp: reads_def)
  obtain p1 w1 p2 where p1: "peek s p [124] = (True, p1)" "gettoken s p1 = (124, w1, p2)" "sees s p2 ?t"
    by (rule peek_sees_yes [OF l'(2), of "[124]"]) (auto simp: space_symbol)
  have "reads (parsepipe m s p2) s r t"
    using m(3) p1(3) t by (intro assms(2) [unfolded readsP_def, rule_format]) auto
  with l' p1 show "reads (parsepipe n s ps) s (PIPE l r) t" by (auto simp: m(1) reads_def)
qed

lemma B_of_P:
  assumes "readsP c" and "pr 2 c = pr 1 c"
  shows "readsB c"
  using assms unfolding readsP_def readsB_def reads_def by metis

lemma B_BACK:
  assumes "readsB c"
  shows "readsB (BACK c)"
  unfolding readsB_def
proof (intro allI impI)
  fix n s ps t
  assume n: "4 * length (pr 2 (BACK c)) + 3 \<le> n" and sees: "sees s ps (pr 2 (BACK c) @ t)"
    and t: "lead t" "first t \<in> after_pipe"
  have "\<exists>b q c' q'. parsepipe n s ps = Parsed b q \<and> parseback b s q = parseback c' s q' \<and> sees s q' (32 # 38 # t)
      \<and> map_cmd (piece s) c' = c"
    using n sees by (intro assms [unfolded readsB_def, rule_format]) (auto simp: space_symbol)
  then obtain b q c' q' where b: "parsepipe n s ps = Parsed b q" "parseback b s q = parseback c' s q'"
    "sees s q' (38 # t)" "map_cmd (piece s) c' = c" by auto
  obtain p1 w1 p2 where p1: "peek s q' [38] = (True, p1)" "gettoken s p1 = (38, w1, p2)" "sees s p2 t"
    by (rule peek_sees_yes [OF b(3), of "[38]"]) (auto simp: space_symbol)
  have "parseback b s q = parseback (BACK c') s p2" using b(2) parseback_step [OF p1(1,2)] by simp
  moreover have "map_cmd (piece s) (BACK c') = BACK c" using b(4) by simp
  ultimately show "\<exists>b q c' q'. parsepipe n s ps = Parsed b q \<and> parseback b s q = parseback c' s q' \<and> sees s q' t
      \<and> map_cmd (piece s) c' = BACK c" using b(1) p1(3) by blast
qed

lemma parseline_after_back:
  assumes "parsepipe m s ps = Parsed b q" and "parseback b s q = parseback c' s q'" and "sees s q' t" and "first t \<noteq> 38"
  obtains p where "sees s p t" and "parseline (Suc m) s ps =
    (case peek s p [59] of (False, ps) \<Rightarrow> Parsed c' ps
     | (True, ps) \<Rightarrow> (case gettoken s ps of (_, _, ps) \<Rightarrow> pbind (parseline m s ps) (\<lambda>right ps. Parsed (listcmd c' right) ps)))"
proof -
  obtain p where "peek s q' [38] = (False, p)" "sees s p t"
    by (rule peek_sees_no [OF assms(3), of "[38]"]) (use assms(4) in auto)
  with assms(1,2) that show ?thesis by (simp add: parseback_stop)
qed

lemma L_of_B:
  assumes "readsB c" and "pr 3 c = pr 2 c"
  shows "readsL c"
  unfolding readsL_def
proof (intro allI impI)
  fix n s ps t
  assume n: "4 * length (pr 3 c) + 4 \<le> n" and sees: "sees s ps (pr 3 c @ t)" and t: "lead t" "first t \<in> after_line"
  obtain m where m: "n = Suc m" "4 * length (pr 2 c) + 3 \<le> m" using n assms(2) by (cases n) auto
  have "\<exists>b q c' q'. parsepipe m s ps = Parsed b q \<and> parseback b s q = parseback c' s q' \<and> sees s q' t \<and> map_cmd (piece s) c' = c"
    using m(2) sees t assms(2) by (intro assms(1) [unfolded readsB_def, rule_format]) auto
  then obtain b q c' q' where b: "parsepipe m s ps = Parsed b q" "parseback b s q = parseback c' s q'" "sees s q' t"
    "map_cmd (piece s) c' = c" by blast
  obtain p where p: "sees s p t" "parseline (Suc m) s ps =
    (case peek s p [59] of (False, ps) \<Rightarrow> Parsed c' ps
     | (True, ps) \<Rightarrow> (case gettoken s ps of (_, _, ps) \<Rightarrow> pbind (parseline m s ps) (\<lambda>right ps. Parsed (listcmd c' right) ps)))"
    by (rule parseline_after_back [OF b(1,2,3)]) (use t in auto)
  obtain p2 where "peek s p [59] = (False, p2)" "sees s p2 t" by (rule peek_sees_no [OF p(1), of "[59]"]) (use t in auto)
  with p(2) b(4) show "reads (parseline n s ps) s c t" by (simp add: m(1) reads_def)
qed

lemma L_LIST:
  assumes "readsB l" and "readsL r"
  shows "readsL (LIST l r)"
  unfolding readsL_def
proof (intro allI impI)
  fix n s ps t
  assume n: "4 * length (pr 3 (LIST l r)) + 4 \<le> n" and sees: "sees s ps (pr 3 (LIST l r) @ t)"
    and t: "lead t" "first t \<in> after_line"
  let ?t = "pr 3 r @ t"
  obtain m where m: "n = Suc m" "4 * length (pr 2 l) + 3 \<le> m" "4 * length (pr 3 r) + 4 \<le> m" using n by (cases n) auto
  have "\<exists>b q c' q'. parsepipe m s ps = Parsed b q \<and> parseback b s q = parseback c' s q' \<and> sees s q' (32 # 59 # ?t)
      \<and> map_cmd (piece s) c' = l"
    using m(2) sees by (intro assms(1) [unfolded readsB_def, rule_format]) (auto simp: space_symbol)
  then obtain b q l' q' where b: "parsepipe m s ps = Parsed b q" "parseback b s q = parseback l' s q'" "sees s q' (59 # ?t)"
    "map_cmd (piece s) l' = l" by auto
  obtain p where p: "sees s p (59 # ?t)" "parseline (Suc m) s ps =
    (case peek s p [59] of (False, ps) \<Rightarrow> Parsed l' ps
     | (True, ps) \<Rightarrow> (case gettoken s ps of (_, _, ps) \<Rightarrow> pbind (parseline m s ps) (\<lambda>right ps. Parsed (listcmd l' right) ps)))"
    by (rule parseline_after_back [OF b(1,2,3)]) (auto simp: space_symbol)
  obtain p1 w1 p2 where p1: "peek s p [59] = (True, p1)" "gettoken s p1 = (59, w1, p2)" "sees s p2 ?t"
    by (rule peek_sees_yes [OF p(1), of "[59]"]) (auto simp: space_symbol)
  have "reads (parseline m s p2) s r t" using m(3) p1(3) t by (intro assms(2) [unfolded readsL_def, rule_format]) auto
  with p(2) p1 b(4) show "reads (parseline n s ps) s (LIST l r) t" by (auto simp: m(1) reads_def)
qed

lemma levels_of_E:
  assumes "readsE c" and "pr 1 c = pr 0 c" and "pr 2 c = pr 1 c" and "pr 3 c = pr 2 c"
  shows "readsE c \<and> readsP c \<and> readsB c \<and> readsL c"
  using assms P_of_E B_of_P L_of_B by blast

lemma reads_back:
  "cmd_ok c \<Longrightarrow> readsE c \<and> readsP c \<and> readsB c \<and> readsL c"
proof (induction c)
  case (EXEC args)
  then have "readsE (EXEC args)" by (rule E_EXEC)
  then show ?case by (rule levels_of_E) simp_all
next
  case (REDIR c f m fd)
  then have "readsE (REDIR c f m fd)" by (intro E_REDIR) auto
  then show ?case by (rule levels_of_E) simp_all
next
  case (PIPE l r)
  then have p: "readsP (PIPE l r)" by (intro P_PIPE) auto
  then have b: "readsB (PIPE l r)" by (rule B_of_P) simp
  then have l: "readsL (PIPE l r)" by (rule L_of_B) simp
  then have "readsE (PIPE l r)" by (rule E_block) simp
  with p b l show ?case by simp
next
  case (LIST l r)
  then have l: "readsL (LIST l r)" by (intro L_LIST) auto
  then have e: "readsE (LIST l r)" by (rule E_block) simp
  then have p: "readsP (LIST l r)" by (rule P_of_E) simp
  then have "readsB (LIST l r)" by (rule B_of_P) simp
  with l e p show ?case by simp
next
  case (BACK c)
  then have b: "readsB (BACK c)" by (intro B_BACK) auto
  then have l: "readsL (BACK c)" by (rule L_of_B) simp
  then have e: "readsE (BACK c)" by (rule E_block) simp
  then have "readsP (BACK c)" by (rule P_of_E) simp
  with b l e show ?case by simp
qed

lemma print_nonzero: "cmd_ok c \<Longrightarrow> 0 \<notin> set (pr k c)"
  by (induction k c rule: pr.induct) (auto simp: Let_def pr_args_def pr_redir_def word_ok_def)

lemma parsecmd_eq:
  assumes "parseline (4 * length s + 4) s 0 = Parsed c p" and "skip_while is_space s p = length s"
  shows "parsecmd s = Parsed (c, nulterminate c s) (length s)"
  using assms by (simp add: parsecmd_def peek_def Let_def)

lemma parsecmd_print:
  assumes "cmd_ok c"
  shows "\<exists>c' buf. parsecmd (pr 3 c) = Parsed (c', buf) (length (pr 3 c)) \<and> map_cmd (word_string buf) c' = c"
proof -
  let ?s = "pr 3 c"
  have "reads (parseline (4 * length ?s + 4) ?s 0) ?s c []"
    using reads_back [OF assms] by (intro readsL_def [THEN iffD1, rule_format]) (auto simp: sees_def)
  then obtain c' p where c': "parseline (4 * length ?s + 4) ?s 0 = Parsed c' p" "sees ?s p []" "map_cmd (piece ?s) c' = c"
    by (auto simp: reads_def)
  have ok: "\<forall>w \<in> set_cmd c'. tok_ok ?s w" using parse_words(1) [of ?s "4 * length ?s + 4" 0] c'(1) by simp
  have "skip_while is_space ?s p = length ?s"
    using sees_start(1,2) [OF c'(2)] by simp
  from parsecmd_eq [OF c'(1) this] c'(3) show ?thesis
    using word_string_nulterminate [OF print_nonzero [OF assms] ok] by (auto cong: cmd.map_cong_simp)
qed

section \<open>Properties\<close>

text \<open>C33. The shell reads back what it is given: for every command, printed with the fewest parentheses that the
  precedences of \<open>;\<close>, \<open>&\<close>, \<open>|\<close> and the redirections allow, parsecmd ends, accepts the line and yields that command, each of its
  words and file names a NUL-terminated string in the cut line.\<close>

theorem parsecmd_reads_back:
  assumes "cmd_ok c"
  shows "\<exists>c' buf. parsecmd (pr 3 c) = Parsed (c', buf) (length (pr 3 c)) \<and> map_cmd (word_string buf) c' = c"
  by (rule parsecmd_print [OF assms])

theorem parsecmd_reads_back_witness:
  "\<exists>c' buf p. parsecmd [32, 97, 32, 124, 32, 40, 32, 98, 32, 59, 32, 99, 32, 41, 32, 62, 32, 100, 32, 38]
      = Parsed (c', buf) p
    \<and> map_cmd (word_string buf) c' = BACK (PIPE (EXEC [[97]]) (REDIR (LIST (EXEC [[98]]) (EXEC [[99]])) [100] 0x201 1))"
  using parsecmd_reads_back [of "BACK (PIPE (EXEC [[97]]) (REDIR (LIST (EXEC [[98]]) (EXEC [[99]])) [100] 0x201 1))"]
  by (simp add: MAXARGS_def word_ok_def is_word_def space_symbol redir_ok_def O_WRONLY_def O_CREATE_def pr_args_def pr_redir_def) blast

text \<open>C34. The shell's parser ends on every line: it reports a syntax error or the part of the line it cannot read, or accepts the whole line, and then every
  word and file name of the command is a maximal run of word bytes of the line and, after nulterminate, a
  string with exactly these bytes: no cut falls into another word.\<close>

theorem parsecmd_total:
  assumes "0 \<notin> set s"
  shows "(\<exists>e. parsecmd s = Syntax e) \<or> (\<exists>x. parsecmd s = Leftovers x \<and> suffix x s) \<or> (\<exists>c buf. parsecmd s = Parsed (c, buf) (length s)
    \<and> (\<forall>w \<in> set_cmd c. tok_ok s w \<and> word_string buf w = piece s w))"
proof (cases "parseline (4 * length s + 4) s 0")
  case (Parsed c p)
  have ok: "\<forall>w \<in> set_cmd c. tok_ok s w" using parse_words(1) [of s "4 * length s + 4" 0] Parsed by simp
  show ?thesis
  proof (cases "skip_while is_space s p = length s")
    case True
    from parsecmd_eq [OF Parsed this] ok word_string_nulterminate [OF assms ok] show ?thesis by auto
  next
    case False
    with Parsed have "parsecmd s = Leftovers (drop (skip_while is_space s p) s)" by (simp add: parsecmd_def peek_def Let_def)
    then show ?thesis using suffix_drop by blast
  qed
next
  case NoFuel
  then show ?thesis using parse_ends(1) [of s 0 "4 * length s + 4"] by simp
next
  case (Leftovers x)
  then show ?thesis using parse_ends(1) [of s 0 "4 * length s + 4"] by simp
qed (simp add: parsecmd_def)

theorem parsecmd_total_witness:
  "(\<exists>e. parsecmd [108, 115, 59, 41] = Syntax e) \<or> (\<exists>x. parsecmd [108, 115, 59, 41] = Leftovers x) \<or> (\<exists>c buf. parsecmd [108, 115, 59, 41] = Parsed (c, buf) 4)"
  using parsecmd_total [of "[108, 115, 59, 41]"] by auto

end
