(* ===== verification/ShRun.thy ===== *)
theory ShRun
  imports ShPrint
begin

text \<open>
  The other half of \<open>sh.c\<close>: \<open>runcmd\<close>, \<open>getcmd\<close> and \<open>main\<close>.  What a process of the shell does to the outside is a list of
  events: the programs it executes with the descriptor table each is given, the messages it writes and its \<open>chdir\<close>s.
  Events of a child come where it is forked; a pipeline's and a background command's processes run concurrently, so the
  list says which programs run with which files, not how they interleave.

  A descriptor table has \<open>NOFILE\<close> entries and a new descriptor is the lowest free one, as in \<open>fdalloc\<close>.  Which \<open>open\<close>,
  \<open>exec\<close>, \<open>fork\<close> and \<open>chdir\<close> calls succeed is given by the environment.
\<close>

section \<open>Descriptors\<close>

datatype fdesc = Inherited nat | OpenFile "byte list" int | PipeRead nat | PipeWrite nat

type_synonym fdtab = "fdesc option list"

definition fd_close :: "nat \<Rightarrow> fdtab \<Rightarrow> fdtab" where
  "fd_close fd t = t[fd := None]"

fun fd_free :: "fdtab \<Rightarrow> nat option" where
  "fd_free [] = None"
| "fd_free (None # t) = Some 0"
| "fd_free (Some f # t) = map_option Suc (fd_free t)"

definition fd_new :: "fdesc \<Rightarrow> fdtab \<Rightarrow> int \<times> fdtab" where
  "fd_new f t = (case fd_free t of None \<Rightarrow> (- 1, t) | Some i \<Rightarrow> (int i, t[i := Some f]))"

definition fd_dup :: "nat \<Rightarrow> fdtab \<Rightarrow> int \<times> fdtab" where
  "fd_dup fd t = (if fd < length t then case t ! fd of Some f \<Rightarrow> fd_new f t | None \<Rightarrow> (- 1, t) else (- 1, t))"

text \<open>\<open>pipe\<close>: both ends or nothing.\<close>

definition fd_pipe :: "nat \<Rightarrow> fdtab \<Rightarrow> ((nat \<times> nat) \<times> fdtab) option" where
  "fd_pipe k t =
     (case fd_new (PipeRead k) t of (r, t1) \<Rightarrow>
        (case fd_new (PipeWrite k) t1 of (w, t2) \<Rightarrow> if r < 0 \<or> w < 0 then None else Some ((nat r, nat w), t2)))"

section \<open>Running a command\<close>

datatype event = Ran "byte list list" fdtab | Wrote "byte list option" | Chdir "byte list"

record sh_env =
  open_ok :: "byte list \<Rightarrow> int \<Rightarrow> bool"
  exec_ok :: "byte list \<Rightarrow> bool"
  fork_ok :: "nat \<Rightarrow> bool"
  chdir_ok :: "byte list \<Rightarrow> bool"

text \<open>The pipes made and the forks tried so far, by all processes of the shell.\<close>

type_synonym counts = "nat \<times> nat"

definition sh_panic :: "byte list \<Rightarrow> event list" where
  "sh_panic s = [Wrote (printf [37, 115, 10] [Str (Some s)])]"

text \<open>\<open>fork1() == 0\<close> in the child: \<open>child\<close> is what it then does; the parent goes on with \<open>parent\<close> or panics.\<close>

definition fork1 ::
  "sh_env \<Rightarrow> (counts \<Rightarrow> event list \<times> counts) \<Rightarrow> (counts \<Rightarrow> event list \<times> counts) \<Rightarrow> counts \<Rightarrow> event list \<times> counts" where
  "fork1 E child parent n =
     (let n' = (fst n, snd n + 1) in
      if \<not> fork_ok E (snd n) then (sh_panic [102, 111, 114, 107], n')
      else let (ev, n') = child n'; (ev', n') = parent n' in (ev @ ev', n'))"

fun runcmd :: "sh_env \<Rightarrow> byte list cmd \<Rightarrow> fdtab \<Rightarrow> counts \<Rightarrow> event list \<times> counts" where
  "runcmd E (EXEC argv) t n =
     (case argv of
        [] \<Rightarrow> ([], n)
      | path # _ \<Rightarrow>
          if exec_ok E path then ([Ran argv t], n)
          else ([Wrote (printf [101, 120, 101, 99, 32, 37, 115, 32, 102, 97, 105, 108, 101, 100, 10] [Str (Some path)])], n))"
| "runcmd E (REDIR c f mode fd) t n =
     (let t = fd_close (nat fd) t in
      case (if open_ok E f mode then fd_new (OpenFile f mode) t else (- 1, t)) of (r, t) \<Rightarrow>
        if r < 0
        then ([Wrote (printf [111, 112, 101, 110, 32, 37, 115, 32, 102, 97, 105, 108, 101, 100, 10] [Str (Some f)])], n)
        else runcmd E c t n)"
| "runcmd E (LIST l r) t n = fork1 E (runcmd E l t) (runcmd E r t) n"
| "runcmd E (PIPE l r) t n =
     (case fd_pipe (fst n) t of
        None \<Rightarrow> (sh_panic [112, 105, 112, 101], n)
      | Some ((p0, p1), t) \<Rightarrow>
          fork1 E (runcmd E l (fd_close p1 (fd_close p0 (snd (fd_dup p1 (fd_close 1 t))))))
            (fork1 E (runcmd E r (fd_close p1 (fd_close p0 (snd (fd_dup p0 (fd_close 0 t))))))
              (\<lambda>n. ([], n)))
            (fst n + 1, snd n))"
| "runcmd E (BACK c) t n = fork1 E (runcmd E c t) (\<lambda>n. ([], n)) n"

text \<open>The command of a parsed line, with its strings; a syntax error is a message of the child.\<close>

definition runline :: "sh_env \<Rightarrow> byte list \<Rightarrow> fdtab \<Rightarrow> counts \<Rightarrow> event list \<times> counts" where
  "runline E s t n =
     (case parsecmd s of
        Parsed (c, buf) _ \<Rightarrow> runcmd E (map_cmd (word_string buf) c) t n
      | Leftovers x \<Rightarrow> (Wrote (printf [108, 101, 102, 116, 111, 118, 101, 114, 115, 58, 32, 37, 115, 10] [Str (Some x)])
            # sh_panic [115, 121, 110, 116, 97, 120], n)
      | Syntax e \<Rightarrow> (sh_panic (map (\<lambda>c. of_nat (of_char c)) e), n)
      | NoFuel \<Rightarrow> ([], n))"

text \<open>\<open>getcmd\<close>: the prompt, and the next line, cut at a NUL, unless it is empty.\<close>

definition getcmd :: "byte list \<Rightarrow> (byte list \<times> byte list) option" where
  "getcmd inp =
     (case gets 100 inp of (buf, rest) \<Rightarrow>
        let s = takeWhile (\<lambda>c. c \<noteq> 0) buf in if ch s 0 = 0 then None else Some (s, rest))"

definition prompt :: event where
  "prompt = Wrote (printf [36, 32] [])"

lemma getcmd_consumes: "getcmd inp = Some (s, rest) \<Longrightarrow> length rest < length inp"
  using gets_line [of 100 inp] by (auto simp: getcmd_def ch_def Let_def split: prod.splits if_splits)

function sh_loop :: "sh_env \<Rightarrow> byte list \<Rightarrow> fdtab \<Rightarrow> counts \<Rightarrow> event list" where
  "sh_loop E inp t n =
     prompt # (case getcmd inp of
        None \<Rightarrow> []
      | Some (s, rest) \<Rightarrow>
          if ch s 0 = 99 \<and> ch s 1 = 100 \<and> ch s 2 = 32
          then let path = drop 3 (butlast s) in
               (if chdir_ok E path then [Chdir path]
                else [Wrote (printf [99, 97, 110, 110, 111, 116, 32, 99, 100, 32, 37, 115, 10] [Str (Some path)])])
               @ sh_loop E rest t n
          else let n' = (fst n, snd n + 1) in
               if fork_ok E (snd n)
               then let (ev, n') = runline E s t n' in ev @ sh_loop E rest t n'
               else sh_panic [102, 111, 114, 107])"
  by pat_completeness auto
termination
  by (relation "measure (\<lambda>(E, inp, t, n). length inp)") (auto dest: getcmd_consumes)

declare sh_loop.simps [simp del]

text \<open>\<open>main\<close> opens the console until the descriptors 0 to 2 are taken; the loop ends because each round takes one.\<close>

function open_console :: "sh_env \<Rightarrow> fdtab \<Rightarrow> fdtab" where
  "open_console E t =
     (if \<not> open_ok E [99, 111, 110, 115, 111, 108, 101] 2 then t
      else case fd_free t of
        None \<Rightarrow> t
      | Some fd \<Rightarrow> if fd \<ge> 3 then t else open_console E (t[fd := Some (OpenFile [99, 111, 110, 115, 111, 108, 101] 2)]))"
  by pat_completeness auto
termination
proof (relation "measure (\<lambda>(E, t). length (filter (\<lambda>x. x = None) t))")
  have "fd_free t = Some fd \<Longrightarrow> length (filter (\<lambda>x. x = None) (t[fd := Some f])) < length (filter (\<lambda>x. x = None) t)"
    for t :: fdtab and fd f
    by (induction t arbitrary: fd rule: fd_free.induct) auto
  then show "\<And>E t fd. \<lbrakk>\<not> \<not> open_ok E [99, 111, 110, 115, 111, 108, 101] 2; fd_free t = Some fd; \<not> 3 \<le> fd\<rbrakk>
    \<Longrightarrow> ((E, t[fd := Some (OpenFile [99, 111, 110, 115, 111, 108, 101] 2)]), E, t)
      \<in> measure (\<lambda>(E, t). length (filter (\<lambda>x. x = None) t))" by simp
qed simp

declare open_console.simps [simp del]

definition sh_main :: "sh_env \<Rightarrow> byte list \<Rightarrow> fdtab \<Rightarrow> event list" where
  "sh_main E inp t = sh_loop E inp (open_console E t) (0, 0)"

section \<open>What a command means\<close>

text \<open>The programs of a command with their standard input and output: pipe \<open>k\<close> joins the two sides of a pipeline.\<close>

fun wiring :: "byte list cmd \<Rightarrow> fdesc \<Rightarrow> fdesc \<Rightarrow> nat \<Rightarrow> (byte list list \<times> fdesc \<times> fdesc) list \<times> nat" where
  "wiring (EXEC argv) i ou k = (if argv = [] then [] else [(argv, i, ou)], k)"
| "wiring (REDIR c f mode fd) i ou k =
     (if fd = 0 then wiring c (OpenFile f mode) ou k else wiring c i (OpenFile f mode) k)"
| "wiring (LIST l r) i ou k = (let (xs, k) = wiring l i ou k; (ys, k) = wiring r i ou k in (xs @ ys, k))"
| "wiring (PIPE l r) i ou k =
     (let (xs, k') = wiring l i (PipeWrite k) (k + 1); (ys, k') = wiring r (PipeRead k) ou k' in (xs @ ys, k'))"
| "wiring (BACK c) i ou k = wiring c i ou k"

definition std :: "fdesc \<Rightarrow> fdesc \<Rightarrow> fdesc \<Rightarrow> nat \<Rightarrow> fdtab" where
  "std i ou e m = [Some i, Some ou, Some e] @ replicate m None"

definition all_ok :: "sh_env \<Rightarrow> bool" where
  "all_ok E \<longleftrightarrow> (\<forall>f m. open_ok E f m) \<and> (\<forall>f. exec_ok E f) \<and> (\<forall>n. fork_ok E n)"

definition piped :: "fdesc \<Rightarrow> fdesc \<Rightarrow> fdesc \<Rightarrow> nat \<Rightarrow> nat \<Rightarrow> fdtab" where
  "piped i ou e k m = [Some i, Some ou, Some e, Some (PipeRead k), Some (PipeWrite k)] @ replicate m None"

lemma fd_pipe_std: "fd_pipe k (std i ou e (Suc (Suc m))) =
    Some ((3, 4), piped i ou e k m)"
  by (simp add: fd_pipe_def fd_new_def std_def piped_def numeral_eq_Suc)

lemma std_redir:
  assumes "redir_ok mode fd"
  shows "fd_new f (fd_close (nat fd) (std i ou e m)) = (fd, if fd = 0 then std f ou e m else std i f e m)"
  using assms by (auto simp: redir_ok_def fd_new_def fd_close_def std_def)

lemma std_pipe:
  "fd_close 4 (fd_close 3 (snd (fd_dup 4 (fd_close 1 (piped i ou e k m))))) = std i (PipeWrite k) e (Suc (Suc m))"
  "fd_close 4 (fd_close 3 (snd (fd_dup 3 (fd_close 0 (piped i ou e k m))))) = std (PipeRead k) ou e (Suc (Suc m))"
  by (simp_all add: fd_dup_def fd_new_def fd_close_def std_def piped_def numeral_eq_Suc)

lemma runcmd_wiring_std:
  assumes "all_ok E" and "cmd_ok c"
  shows "\<exists>n'. runcmd E c (std i ou e (Suc (Suc m))) (k, n) =
    (map (\<lambda>(argv, i, ou). Ran argv (std i ou e (Suc (Suc m)))) (fst (wiring c i ou k)), snd (wiring c i ou k), n')"
  using assms(2)
proof (induction c arbitrary: i ou k n)
  case (EXEC argv)
  then show ?case using assms(1) by (cases argv) (auto simp: all_ok_def)
next
  case (REDIR c f mode fd)
  then show ?case using assms(1) std_redir [of mode fd] by (auto simp: all_ok_def redir_ok_def)
next
  case (PIPE l r)
  obtain xs k1 where x: "wiring l i (PipeWrite k) (k + 1) = (xs, k1)" by fastforce
  obtain ys k2 where y: "wiring r (PipeRead k) ou k1 = (ys, k2)" by fastforce
  from PIPE.IH(1) [of i "PipeWrite k" "k + 1" "n + 1"] PIPE.prems x obtain n1 where
    l: "runcmd E l (std i (PipeWrite k) e (Suc (Suc m))) (k + 1, n + 1) = (map (\<lambda>(argv, i, ou). Ran argv (std i ou e (Suc (Suc m)))) xs, k1, n1)"
    by auto
  from PIPE.IH(2) [of "PipeRead k" ou k1 "n1 + 1"] PIPE.prems y obtain n2 where
    r: "runcmd E r (std (PipeRead k) ou e (Suc (Suc m))) (k1, n1 + 1) = (map (\<lambda>(argv, i, ou). Ran argv (std i ou e (Suc (Suc m)))) ys, k2, n2)"
    by auto
  show ?case using assms(1) l r x y by (simp add: fd_pipe_std std_pipe std_pipe [unfolded One_nat_def] fork1_def all_ok_def)
next
  case (LIST l r)
  obtain xs k1 where x: "wiring l i ou k = (xs, k1)" by fastforce
  obtain ys k2 where y: "wiring r i ou k1 = (ys, k2)" by fastforce
  from LIST.IH(1) [of i ou k "n + 1"] LIST.prems x obtain n1 where
    l: "runcmd E l (std i ou e (Suc (Suc m))) (k, n + 1) = (map (\<lambda>(argv, i, ou). Ran argv (std i ou e (Suc (Suc m)))) xs, k1, n1)"
    by auto
  from LIST.IH(2) [of i ou k1 n1] LIST.prems y obtain n2 where
    r: "runcmd E r (std i ou e (Suc (Suc m))) (k1, n1) = (map (\<lambda>(argv, i, ou). Ran argv (std i ou e (Suc (Suc m)))) ys, k2, n2)"
    by auto
  show ?case using assms(1) l r x y by (simp add: fork1_def all_ok_def)
next
  case (BACK c)
  from BACK.IH [of i ou k "n + 1"] BACK.prems show ?case using assms(1) by (auto simp: fork1_def all_ok_def)
qed

lemma runline_print:
  assumes "all_ok E" and "cmd_ok c"
  shows "\<exists>n'. runline E (pr 3 c) (std i ou e (Suc (Suc m))) (k, n) =
    (map (\<lambda>(argv, i, ou). Ran argv (std i ou e (Suc (Suc m)))) (fst (wiring c i ou k)), snd (wiring c i ou k), n')"
proof -
  obtain c' buf where "parsecmd (pr 3 c) = Parsed (c', buf) (length (pr 3 c))" "map_cmd (word_string buf) c' = c"
    using parsecmd_print [OF assms(2)] by blast
  then show ?thesis using runcmd_wiring_std [OF assms] by (simp add: runline_def)
qed

section \<open>Properties\<close>

text \<open>C15. From the text of a line to running programs: when the shell's child, with descriptors 0 to 2 open and at least two
  more free, runs a printed command and no system call fails, exactly the programs of the command are executed,
  each with its arguments, its standard input and output connected to the files and pipes the command names,
  its error output unchanged, and no other descriptor open: every pipe end that a program does not use is closed.\<close>

theorem runline_wires_programs:
  assumes "all_ok E" and "cmd_ok c"
  shows "fst (runline E (pr 3 c) ([Some i, Some ou, Some e] @ replicate (m + 2) None) (k, n)) =
    map (\<lambda>(argv, i, ou). Ran argv ([Some i, Some ou, Some e] @ replicate (m + 2) None)) (fst (wiring c i ou k))"
  using runline_print [OF assms, of i ou e m k n] by (auto simp: std_def)

theorem runline_wires_programs_witness:
  "fst (runline \<lparr>open_ok = \<lambda>_ _. True, exec_ok = \<lambda>_. True, fork_ok = \<lambda>_. True, chdir_ok = \<lambda>_. True\<rparr>
      [32, 97, 32, 60, 32, 102, 32, 124, 32, 98] ([Some (Inherited 0), Some (Inherited 1), Some (Inherited 2)] @ replicate 13 None) (0, 0)) =
    [Ran [[97]] ([Some (OpenFile [102] 0), Some (PipeWrite 0), Some (Inherited 2)] @ replicate 13 None),
     Ran [[98]] ([Some (PipeRead 0), Some (Inherited 1), Some (Inherited 2)] @ replicate 13 None)]"
proof -
  let ?E = "\<lparr>open_ok = \<lambda>_ _. True, exec_ok = \<lambda>_. True, fork_ok = \<lambda>_. True, chdir_ok = \<lambda>_. True\<rparr>"
  let ?c = "PIPE (REDIR (EXEC [[97]]) [102] 0 0) (EXEC [[98]])"
  have p: "pr 3 ?c = [32, 97, 32, 60, 32, 102, 32, 124, 32, 98]" by (simp add: pr_args_def pr_redir_def)
  have "all_ok ?E" by (simp add: all_ok_def)
  moreover have "cmd_ok ?c" by (simp add: MAXARGS_def word_ok_def is_word_def space_symbol redir_ok_def O_RDONLY_def)
  ultimately show ?thesis
    using runline_wires_programs [of ?E ?c "Inherited 0" "Inherited 1" "Inherited 2" 11 0 0] by (simp only: p) simp
qed

end
