(* ===== verification/Umalloc.thy ===== *)
theory Umalloc
  imports Prelude
begin

text \<open>
  The user-level allocator \<open>umalloc.c\<close>.  The headers in memory are two maps from addresses to the fields \<open>ptr\<close> and \<open>size\<close>;
  addresses are in bytes and a header, the unit of sizes, has \<open>HSZ\<close> bytes.  \<open>base\<close> is the address of the static list
  head, \<open>freep\<close> the list pointer, 0 before the first call.  \<open>brk\<close> is the size of the process and \<open>lim\<close> what the kernel
  lets it grow to, for \<open>sbrk\<close>.  The loops over the circular list follow pointers and need not end on a list that is
  not sound, so they are partial functions into \<open>option\<close>.
\<close>

section \<open>The code\<close>

record ust =
  ptr :: "nat \<Rightarrow> nat"
  hsize :: "nat \<Rightarrow> nat"
  base :: nat
  freep :: nat
  brk :: nat
  lim :: nat

definition HSZ :: nat where "HSZ = 8"

definition set_ptr :: "nat \<Rightarrow> nat \<Rightarrow> ust \<Rightarrow> ust" where
  "set_ptr a v s = s\<lparr>ptr := (ptr s)(a := v)\<rparr>"

definition set_size :: "nat \<Rightarrow> nat \<Rightarrow> ust \<Rightarrow> ust" where
  "set_size a n s = s\<lparr>hsize := (hsize s)(a := n)\<rparr>"

partial_function (option) free_find :: "ust \<Rightarrow> nat \<Rightarrow> nat \<Rightarrow> nat option" where
  "free_find s bp p =
     (if bp > p \<and> bp < ptr s p then Some p
      else if p \<ge> ptr s p \<and> (bp > p \<or> bp < ptr s p) then Some p
      else free_find s bp (ptr s p))"

definition free_link :: "nat \<Rightarrow> nat \<Rightarrow> ust \<Rightarrow> ust" where
  "free_link bp p s =
     (let s = (if bp + HSZ * hsize s bp = ptr s p
               then set_ptr bp (ptr s (ptr s p)) (set_size bp (hsize s bp + hsize s (ptr s p)) s)
               else set_ptr bp (ptr s p) s);
          s = (if p + HSZ * hsize s p = bp
               then set_ptr p (ptr s bp) (set_size p (hsize s p + hsize s bp) s)
               else set_ptr p bp s)
      in s\<lparr>freep := p\<rparr>)"

definition free :: "nat \<Rightarrow> ust \<Rightarrow> ust option" where
  "free ap s = (let bp = ap - HSZ in Option.bind (free_find s bp (freep s)) (\<lambda>p. Some (free_link bp p s)))"

text \<open>
  \<open>sbrk\<close>, with its argument a 32-bit signed int: growing appends memory, shrinking below zero is granted by the kernel
  without any effect, as \<open>growproc\<close> does.
\<close>

definition sbrk :: "int \<Rightarrow> ust \<Rightarrow> nat option \<times> ust" where
  "sbrk n s =
     (if 0 \<le> n then if brk s + nat n \<le> lim s then (Some (brk s), s\<lparr>brk := brk s + nat n\<rparr>) else (None, s)
      else if int (brk s) + n < 0 then (Some (brk s), s)
      else (Some (brk s), s\<lparr>brk := nat (int (brk s) + n)\<rparr>))"

definition to_int :: "nat \<Rightarrow> int" where
  "to_int n = (let m = n mod 2 ^ 32 in if m < 2 ^ 31 then int m else int m - 2 ^ 32)"

definition morecore :: "nat \<Rightarrow> ust \<Rightarrow> (nat \<times> ust) option" where
  "morecore nu s =
     (let nu = (if nu < 4096 then 4096 else nu) in
      case sbrk (to_int (nu * HSZ)) s of
        (None, s) \<Rightarrow> Some (0, s)
      | (Some p, s) \<Rightarrow> Option.bind (free (p + HSZ) (set_size p nu s)) (\<lambda>s. Some (freep s, s)))"

definition take_block :: "nat \<Rightarrow> nat \<Rightarrow> nat \<Rightarrow> ust \<Rightarrow> nat \<times> ust" where
  "take_block nunits prevp p s =
     (let (p, s) =
        (if hsize s p = nunits then (p, set_ptr prevp (ptr s p) s)
         else let s = set_size p (hsize s p - nunits) s; p = p + HSZ * hsize s p in (p, set_size p nunits s))
      in (p + HSZ, s\<lparr>freep := prevp\<rparr>))"

partial_function (option) malloc_loop :: "nat \<Rightarrow> nat \<Rightarrow> nat \<Rightarrow> ust \<Rightarrow> (nat \<times> ust) option" where
  "malloc_loop nunits prevp p s =
     (if hsize s p \<ge> nunits then Some (take_block nunits prevp p s)
      else if p = freep s
      then Option.bind (morecore nunits s) (\<lambda>r. case r of (p, s) \<Rightarrow>
             if p = 0 then Some (0, s) else malloc_loop nunits p (ptr s p) s)
      else malloc_loop nunits p (ptr s p) s)"

definition units :: "nat \<Rightarrow> nat" where
  "units nbytes = ((nbytes + HSZ - 1) mod 2 ^ 32) div HSZ + 1"

definition malloc :: "nat \<Rightarrow> ust \<Rightarrow> (nat \<times> ust) option" where
  "malloc nbytes s =
     (let s = (if freep s = 0 then set_size (base s) 0 (set_ptr (base s) (base s) (s\<lparr>freep := base s\<rparr>)) else s)
      in malloc_loop (units nbytes) (freep s) (ptr s (freep s)) s)"

end
