(* ===== verification/UmallocSpec.thy ===== *)
theory UmallocSpec
  imports Umalloc
begin

text \<open>
  Correctness of \<open>umalloc.c\<close>.  A sound heap is a circular list of free blocks in address order, none empty, no two
  adjacent, starting at \<open>base\<close>.  \<open>free\<close> ends and adds exactly the bytes of the block to the free ones, joined with its
  neighbours; \<open>malloc\<close> ends and takes a block of the right size out of the free bytes or the memory it
  got from the kernel.
\<close>

section \<open>The circular list\<close>

type_synonym blocks = "(nat \<times> nat) list"

text \<open>\<open>chain s p fl e\<close>: from \<open>p\<close> the pointers lead through the blocks \<open>fl\<close>, with their sizes, and on to \<open>e\<close>.\<close>

fun chain :: "ust \<Rightarrow> nat \<Rightarrow> blocks \<Rightarrow> nat \<Rightarrow> bool" where
  "chain s p [] e \<longleftrightarrow> ptr s p = e"
| "chain s p ((a, n) # fl) e \<longleftrightarrow> ptr s p = a \<and> hsize s a = n \<and> chain s a fl e"

text \<open>The blocks lie one above the other from \<open>lo\<close> to \<open>hi\<close>, none empty and no two adjacent.\<close>

fun apart :: "nat \<Rightarrow> blocks \<Rightarrow> nat \<Rightarrow> bool" where
  "apart lo [] hi \<longleftrightarrow> lo \<le> hi"
| "apart lo ((a, n) # fl) hi \<longleftrightarrow> lo < a \<and> 0 < n \<and> apart (a + HSZ * n) fl hi"

definition heap_ok :: "ust \<Rightarrow> blocks \<Rightarrow> bool" where
  "heap_ok s fl \<longleftrightarrow> 0 < base s \<and> hsize s (base s) = 0 \<and> chain s (base s) fl (base s)
     \<and> apart (base s + (HSZ - 1)) fl (brk s) \<and> base s + HSZ \<le> brk s \<and> freep s \<in> insert (base s) (fst ` set fl)"

definition next_of :: "blocks \<Rightarrow> nat \<Rightarrow> nat" where
  "next_of fl e = (case fl of [] \<Rightarrow> e | (a, n) # _ \<Rightarrow> a)"

definition last_of :: "nat \<Rightarrow> blocks \<Rightarrow> nat" where
  "last_of p fl = (if fl = [] then p else fst (last fl))"

lemma next_of_simps [simp]: "next_of [] e = e" "next_of ((a, n) # fl) e = a"
  by (simp_all add: next_of_def)

lemma last_of_simps [simp]: "last_of p [] = p" "last_of p ((a, n) # fl) = last_of a fl" "last_of p (fl @ [(a, n)]) = a" "last_of p (fl @ [x]) = fst x"
  by (auto simp: last_of_def)

lemma fchain_append:
  "chain s p (xs @ ys) e \<longleftrightarrow> chain s p xs (next_of ys e) \<and> chain s (last_of p xs) ys e"
proof (induction xs arbitrary: p)
  case Nil
  show ?case by (cases ys) auto
next
  case (Cons x xs)
  then show ?case by (cases x) auto
qed

lemma chain_ptr: "chain s p fl e \<Longrightarrow> ptr s (last_of p fl) = e"
  by (induction s p fl e rule: chain.induct) auto

lemma fchain_cong:
  assumes "\<And>a. a \<in> insert p (fst ` set fl) \<Longrightarrow> ptr s' a = ptr s a" and "\<And>a. a \<in> fst ` set fl \<Longrightarrow> hsize s' a = hsize s a"
  shows "chain s' p fl e \<longleftrightarrow> chain s p fl e"
  using assms by (induction s p fl e rule: chain.induct) auto

lemma fchain_other [simp]:
  "chain (s\<lparr>freep := x\<rparr>) p fl e \<longleftrightarrow> chain s p fl e" "chain (s\<lparr>brk := x\<rparr>) p fl e \<longleftrightarrow> chain s p fl e"
  by (rule fchain_cong; simp)+

lemma chain_new_end:
  assumes "chain s p fl e" and "ptr s' (last_of p fl) = e'"
    and "\<And>a. a \<in> insert p (fst ` set fl) \<Longrightarrow> a \<noteq> last_of p fl \<Longrightarrow> ptr s' a = ptr s a"
    and "\<And>a. a \<in> fst ` set fl \<Longrightarrow> hsize s' a = hsize s a" and "distinct (p # map fst fl)"
  shows "chain s' p fl e'"
  using assms
proof (induction fl arbitrary: p)
  case (Cons x fl)
  obtain a n where x: "x = (a, n)" by fastforce
  have "p \<noteq> last_of a fl" using Cons.prems(5) by (cases fl rule: rev_cases) (auto simp: x last_of_def)
  then have "ptr s' p = a" using Cons.prems(1,3) by (simp add: x)
  moreover have "chain s' a fl e'" using Cons.prems by (intro Cons.IH) (auto simp: x)
  ultimately show ?case using Cons.prems(1,4) by (simp add: x)
qed simp

lemma apart_append:
  "apart lo (xs @ ys) hi \<longleftrightarrow> (\<exists>m. apart lo xs m \<and> apart m ys hi \<and> (m = (if xs = [] then lo else fst (last xs) + HSZ * snd (last xs))))"
proof (induction xs arbitrary: lo)
  case Nil
  show ?case by (cases ys) auto
next
  case (Cons x xs)
  then show ?case by (cases x) auto
qed

lemma apart_bounds: "apart lo fl hi \<Longrightarrow> (a, n) \<in> set fl \<Longrightarrow> lo < a \<and> 0 < n \<and> a + HSZ * n \<le> hi"
proof (induction lo fl hi rule: apart.induct)
  case (2 lo b m fl hi)
  have "apart lo fl hi \<Longrightarrow> lo \<le> hi" for lo fl hi by (induction lo fl hi rule: apart.induct) (auto simp: HSZ_def)
  with 2 show ?case by (fastforce simp: HSZ_def)
qed simp

lemma apart_distinct: "apart lo fl hi \<Longrightarrow> distinct (map fst fl)"
proof (induction lo fl hi rule: apart.induct)
  case (2 lo a n fl hi)
  then show ?case using apart_bounds [of "a + HSZ * n" fl hi] by (fastforce simp: HSZ_def)
qed simp

lemma apart_ring:
  assumes "apart (b + (HSZ - 1)) fl hi"
  shows "distinct (b # map fst fl)" and "(a, n) \<in> set fl \<Longrightarrow> b + HSZ \<le> a"
  using assms apart_distinct [OF assms] apart_bounds [OF assms] by (fastforce simp: HSZ_def)+

lemma apart_sorted: "apart (b + (HSZ - 1)) fl hi \<Longrightarrow> sorted_wrt (<) (b # map fst fl)"
proof -
  have s: "apart lo fl hi \<Longrightarrow> sorted_wrt (<) (map fst fl)" for lo
  proof (induction lo fl hi rule: apart.induct)
    case (2 lo a n fl hi)
    then show ?case using apart_bounds [of "a + HSZ * n" fl hi] by fastforce
  qed simp
  assume a: "apart (b + (HSZ - 1)) fl hi"
  with s apart_ring(2) [OF a] show ?thesis by (fastforce simp: HSZ_def)
qed

lemma last_of_eq: "last_of b us = last (b # map fst us)"
  by (cases us rule: rev_cases) (auto simp: last_of_def)

lemma ring_split:
  assumes "sorted_wrt (<) (b # map fst (us @ vs))"
  shows "\<forall>x \<in> set us. fst x \<le> last_of b us" and "\<forall>x \<in> set vs. last_of b us < fst x" and "b \<le> last_of b us"
proof -
  have l: "\<forall>y \<in> set xs. y \<le> last xs" if "sorted_wrt (<) xs" for xs :: "nat list"
    using that by (induction xs) (auto simp: order_less_imp_le)
  have s: "sorted_wrt (<) ((b # map fst us) @ map fst vs)" using assms by simp
  then have "sorted_wrt (<) (b # map fst us)" unfolding sorted_wrt_append by blast
  from l [OF this] show "\<forall>x \<in> set us. fst x \<le> last_of b us" "b \<le> last_of b us" unfolding last_of_eq by auto
  show "\<forall>x \<in> set vs. last_of b us < fst x"
    using s last_in_set [of "b # map fst us"] unfolding sorted_wrt_append last_of_eq by (metis image_eqI list.discI list.set_map)
qed

abbreviation below :: "nat \<Rightarrow> blocks \<Rightarrow> blocks" where
  "below bp fl \<equiv> takeWhile (\<lambda>x. fst x < bp) fl"

lemma free_find_up:
  assumes "chain s b fl b" and "sorted_wrt (<) (b # map fst fl)" and "fl = us @ vs" and "last_of b us < bp"
    and "bp \<notin> fst ` set fl"
  shows "free_find s bp (last_of b us) = Some (last_of b (below bp fl))"
  using assms(3,4)
proof (induction vs arbitrary: us)
  case Nil
  have p: "ptr s (last_of b us) = b" using chain_ptr [OF assms(1)] Nil by simp
  note r = ring_split [OF assms(2) [unfolded Nil(1)]]
  have "below bp fl = fl" using r(1) Nil by (intro takeWhile_eq_all_conv [THEN iffD2]) fastforce
  then have "last_of b us = last_of b (below bp fl)" using Nil(1) by (metis append_Nil2)
  with r(3) p Nil(2) show ?case by (subst free_find.simps) auto
next
  case (Cons x vs)
  obtain a m where x: "x = (a, m)" by fastforce
  have p: "ptr s (last_of b us) = a" using assms(1) Cons(2) x by (auto simp: fchain_append dest: chain_ptr)
  note r = ring_split [OF assms(2) [unfolded Cons(2)]]
  have qa: "last_of b us < a" using r(2) by (simp add: x)
  have "a \<noteq> bp" using assms(5) Cons(2) x by force
  then consider "bp < a" | "a < bp" by linarith
  then show ?case
  proof cases
    case 1
    have "below bp fl = us" using r(1) 1 Cons(2,3) x by (auto simp: takeWhile_append intro: takeWhile_eq_all_conv [THEN iffD2])
    with 1 p Cons(3) show ?thesis by (subst free_find.simps) auto
  next
    case 2
    have "free_find s bp (last_of b us) = free_find s bp a" using 2 p qa by (subst free_find.simps) auto
    also have "\<dots> = Some (last_of b (below bp fl))" using Cons.IH [of "us @ [x]"] Cons(2) 2 by (simp add: x)
    finally show ?thesis .
  qed
qed

lemma free_find_ring:
  assumes "chain s b fl b" and "sorted_wrt (<) (b # map fst fl)" and "fl = us @ vs"
    and "bp \<notin> fst ` set fl" and "b < bp"
  shows "free_find s bp (last_of b us) = Some (last_of b (below bp fl))"
proof (cases "last_of b us < bp")
  case True
  with assms show ?thesis by (intro free_find_up) auto
next
  case False
  then show ?thesis using assms(3)
  proof (induction vs arbitrary: us)
    case Nil
    have p: "ptr s (last_of b us) = b" using chain_ptr [OF assms(1)] Nil by simp
    note r = ring_split [OF assms(2) [unfolded Nil(2)]]
    have "last_of b us \<noteq> bp" using assms(4,5) Nil(2) by (cases us rule: rev_cases) (auto simp: last_of_def)
    then have "free_find s bp (last_of b us) = free_find s bp b" using p Nil(1) assms(5) by (subst free_find.simps) auto
    also have "\<dots> = Some (last_of b (below bp fl))"
      using free_find_up [OF assms(1,2), of "[]" fl bp] assms(4,5) by simp
    finally show ?case .
  next
    case (Cons x vs)
    obtain a m where x: "x = (a, m)" by fastforce
    have p: "ptr s (last_of b us) = a" using assms(1) Cons(3) x by (auto simp: fchain_append dest: chain_ptr)
    note r = ring_split [OF assms(2) [unfolded Cons(3)]]
    have qa: "last_of b us < a" using r(2) by (simp add: x)
    have "free_find s bp (last_of b us) = free_find s bp a" using p qa Cons(2) by (subst free_find.simps) auto
    also have "\<dots> = Some (last_of b (below bp fl))" using Cons.IH [of "us @ [x]"] Cons(2,3) qa by (simp add: x)
    finally show ?case .
  qed
qed

lemma ring_node:
  assumes "q \<in> insert b (fst ` set fl)"
  obtains us vs where "fl = us @ vs" and "q = last_of b us"
proof (cases "q = b")
  case True
  then show ?thesis using that [of "[]" fl] by simp
next
  case False
  with assms obtain n where "(q, n) \<in> set fl" by auto
  then obtain us vs where "fl = us @ (q, n) # vs" by (meson split_list)
  then show ?thesis using that [of "us @ [(q, n)]" vs] by simp
qed

section \<open>Freeing a block\<close>

lemma chain_move:
  assumes "chain s p fl e" and "ptr s' q = ptr s p"
    and "\<And>a. a \<in> fst ` set fl \<Longrightarrow> ptr s' a = ptr s a" and "\<And>a. a \<in> fst ` set fl \<Longrightarrow> hsize s' a = hsize s a"
  shows "chain s' q fl e"
proof (cases fl)
  case (Cons x fl')
  obtain a n where x: "x = (a, n)" by fastforce
  have "chain s' a fl' e \<longleftrightarrow> chain s a fl' e" using assms(3,4) by (intro fchain_cong) (auto simp: Cons x)
  with assms show ?thesis by (simp add: Cons x)
qed (use assms in simp)

text \<open>What joining with the block above and the block below makes of a free list cut at the freed block.\<close>

definition join_above :: "nat \<Rightarrow> nat \<Rightarrow> blocks \<Rightarrow> blocks" where
  "join_above bp n ys =
     (case ys of [] \<Rightarrow> [(bp, n)] | (a, m) # ys' \<Rightarrow> if bp + HSZ * n = a then (bp, n + m) # ys' else (bp, n) # ys)"

definition join_below :: "blocks \<Rightarrow> blocks \<Rightarrow> blocks" where
  "join_below xs zs =
     (if xs \<noteq> [] \<and> fst (last xs) + HSZ * snd (last xs) = fst (hd zs)
      then butlast xs @ (fst (last xs), snd (last xs) + snd (hd zs)) # tl zs else xs @ zs)"

lemma join_above_cases:
  obtains N ys2 where "join_above bp n ys = (bp, N) # ys2" and "set ys2 \<subseteq> set ys"
proof (cases ys)
  case (Cons x ys')
  then show ?thesis using that by (cases x; cases "bp + HSZ * n = fst x") (auto simp: join_above_def)
qed (use that in \<open>simp add: join_above_def\<close>)

lemma fields [simp]:
  "ptr (set_ptr a v s) = (ptr s)(a := v)" "hsize (set_ptr a v s) = hsize s" "base (set_ptr a v s) = base s" "brk (set_ptr a v s) = brk s"
  "ptr (set_size a n s) = ptr s" "hsize (set_size a n s) = (hsize s)(a := n)" "base (set_size a n s) = base s" "brk (set_size a n s) = brk s"
  "freep (set_ptr a v s) = freep s" "freep (set_size a n s) = freep s" "lim (set_ptr a v s) = lim s" "lim (set_size a n s) = lim s"
  by (simp_all add: set_ptr_def set_size_def)

definition link_above :: "nat \<Rightarrow> nat \<Rightarrow> ust \<Rightarrow> ust" where
  "link_above bp p s =
     (if bp + HSZ * hsize s bp = ptr s p
      then set_ptr bp (ptr s (ptr s p)) (set_size bp (hsize s bp + hsize s (ptr s p)) s) else set_ptr bp (ptr s p) s)"

definition link_below :: "nat \<Rightarrow> nat \<Rightarrow> ust \<Rightarrow> ust" where
  "link_below bp p s =
     (if p + HSZ * hsize s p = bp then set_ptr p (ptr s bp) (set_size p (hsize s p + hsize s bp) s) else set_ptr p bp s)"

lemma free_link_steps: "free_link bp p s = (link_below bp p (link_above bp p s))\<lparr>freep := p\<rparr>"
  by (simp add: free_link_def link_above_def link_below_def)

lemma link_above_chain:
  assumes "chain s p ys b" and "bp \<notin> fst ` set ys" and "b < bp" and "bp \<noteq> p"
  shows "\<exists>N ys2. join_above bp (hsize s bp) ys = (bp, N) # ys2 \<and> hsize (link_above bp p s) bp = N \<and> chain (link_above bp p s) bp ys2 b"
proof (cases ys)
  case Nil
  with assms show ?thesis by (auto simp: join_above_def link_above_def)
next
  case (Cons x ys')
  obtain a m where x: "x = (a, m)" by fastforce
  have c: "ptr s p = a" "hsize s a = m" "chain s a ys' b" using assms(1) by (auto simp: Cons x)
  show ?thesis
  proof (cases "bp + HSZ * hsize s bp = a")
    case True
    have "chain (link_above bp p s) bp ys' b"
      using c(3) by (rule chain_move) (use True c assms(2) in \<open>auto simp: link_above_def Cons x\<close>)
    with True c assms show ?thesis by (auto simp: join_above_def link_above_def Cons x)
  next
    case False
    have "chain (link_above bp p s) bp ys b"
      using assms(1) by (rule chain_move) (use False c assms(2,4) in \<open>auto simp: link_above_def Cons x\<close>)
    with False c show ?thesis by (auto simp: join_above_def link_above_def Cons x)
  qed
qed

lemma link_below_chain:
  assumes "chain s b xs e" and "chain s bp ys b" and "distinct (b # map fst xs @ bp # map fst ys)" and "hsize s b = 0"
    and "p = last_of b xs"
  shows "chain (link_below bp p s) b (join_below xs ((bp, hsize s bp) # ys)) b"
proof (cases "xs \<noteq> [] \<and> fst (last xs) + HSZ * snd (last xs) = bp")
  case True
  then obtain xs' k where xs: "xs = xs' @ [(p, k)]" using assms(5) by (cases xs rule: rev_cases) auto
  let ?s = "link_below bp p s"
  have k: "hsize s p = k" "ptr s (last_of b xs') = p" "chain s b xs' p" using assms(1) chain_ptr [of s b xs' p] by (auto simp: xs fchain_append)
  have eq: "p + HSZ * k = bp" using True by (simp add: xs)
  have ne: "a \<noteq> p" if "a \<in> insert b (fst ` set xs')" for a using assms(3) that by (auto simp: xs)
  have upd: "?s = set_ptr p (ptr s bp) (set_size p (k + hsize s bp) s)" using k eq by (simp add: link_below_def)
  have "chain ?s b xs' p \<longleftrightarrow> chain s b xs' p" by (rule fchain_cong) (use ne in \<open>simp_all add: upd\<close>)
  moreover have "ptr ?s (last_of b xs') = p"
    using assms(3) k eq by (cases xs' rule: rev_cases) (auto simp: link_below_def xs)
  moreover have "chain ?s p ys b"
  proof -
    have "a \<noteq> p" if "a \<in> fst ` set ys" for a using assms(3) that by (auto simp: xs)
    then show ?thesis by (intro chain_move [OF assms(2)]) (simp_all add: upd)
  qed
  moreover have "hsize ?s p = k + hsize s bp" using k eq by (simp add: link_below_def)
  ultimately show ?thesis using k True by (simp add: join_below_def xs fchain_append)
next
  case False
  let ?s = "link_below bp p s"
  have "hsize s p = snd (last xs)" if "xs \<noteq> []" using assms(1,5) that by (cases xs rule: rev_cases) (auto simp: fchain_append)
  moreover have "p = fst (last xs)" if "xs \<noteq> []" using assms(5) that by (simp add: last_of_def)
  ultimately have s: "?s = set_ptr p bp s" using False assms(3,4,5) by (cases "xs = []") (auto simp: link_below_def)
  have "chain (set_ptr p bp s) b xs bp"
    by (rule chain_new_end [OF assms(1)]) (use assms(3) in \<open>auto simp: assms(5)\<close>)
  moreover have "chain (set_ptr p bp s) bp ys b"
  proof -
    have "p \<in> insert b (fst ` set xs)" using assms(5) by (cases xs rule: rev_cases) auto
    then have "a \<noteq> p" if "a \<in> insert bp (fst ` set ys)" for a using assms(3) that by auto
    then have "chain (set_ptr p bp s) bp ys b \<longleftrightarrow> chain s bp ys b" by (intro fchain_cong) simp_all
    with assms(2) show ?thesis by simp
  qed
  moreover have "join_below xs ((bp, hsize s bp) # ys) = xs @ (bp, hsize s bp) # ys" using False by (auto simp: join_below_def)
  ultimately show ?thesis unfolding s by (simp add: fchain_append assms(5))
qed

text \<open>The list part: joining keeps the blocks apart and adds exactly the freed bytes.\<close>

definition bytes :: "blocks \<Rightarrow> nat set" where
  "bytes fl = (\<Union>(a, n) \<in> set fl. {a ..< a + HSZ * n})"

lemma bytes_simps [simp]: "bytes [] = {}" "bytes ((a, n) # fl) = {a ..< a + HSZ * n} \<union> bytes fl" "bytes (xs @ ys) = bytes xs \<union> bytes ys"
  by (auto simp: bytes_def)

lemma ivl_join: "a \<le> b \<Longrightarrow> b \<le> c \<Longrightarrow> {a ..< b} \<union> {b ..< c} = {a ..< (c :: nat)}"
  by auto

lemma bytes_join_above: "bytes (join_above bp n ys) = {bp ..< bp + HSZ * n} \<union> bytes ys"
proof (cases ys)
  case (Cons x ys')
  obtain a m where x: "x = (a, m)" by fastforce
  have "{bp ..< bp + HSZ * (n + m)} = {bp ..< bp + HSZ * n} \<union> {bp + HSZ * n ..< bp + HSZ * n + HSZ * m}"
    by (subst ivl_join) (auto simp: algebra_simps)
  then show ?thesis by (auto simp: join_above_def Cons x)
qed (simp add: join_above_def)

lemma bytes_join_below:
  assumes "zs \<noteq> []"
  shows "bytes (join_below xs zs) = bytes xs \<union> bytes zs"
proof (cases "xs \<noteq> [] \<and> fst (last xs) + HSZ * snd (last xs) = fst (hd zs)")
  case True
  then obtain xs' p k bp N zs' where e: "xs = xs' @ [(p, k)]" "zs = (bp, N) # zs'" "bp = p + HSZ * k"
    using assms by (cases xs rule: rev_cases; cases zs) auto
  have "{p ..< p + HSZ * (k + N)} = {p ..< p + HSZ * k} \<union> {p + HSZ * k ..< p + HSZ * k + HSZ * N}"
    by (subst ivl_join) (auto simp: algebra_simps)
  then show ?thesis by (auto simp: join_below_def e)
qed (auto simp: join_below_def)

lemma apart_join_above:
  assumes "apart m ys hi" and "\<And>a k. (a, k) \<in> set ys \<Longrightarrow> bp + HSZ * n \<le> a" and "bp + HSZ * n \<le> hi" and "lo < bp" and "0 < n"
  shows "apart lo (join_above bp n ys) hi"
proof (cases ys)
  case (Cons x ys')
  obtain a k where x: "x = (a, k)" by fastforce
  show ?thesis
  proof (cases "bp + HSZ * n = a")
    case True
    then have "bp + HSZ * (n + k) = a + HSZ * k" by (simp add: algebra_simps)
    then show ?thesis using True assms by (simp add: join_above_def Cons x)
  next
    case False
    then have "bp + HSZ * n < a" using assms(2) [of a k] Cons x by simp
    with False assms show ?thesis by (simp add: join_above_def Cons x)
  qed
qed (use assms in \<open>simp add: join_above_def\<close>)

lemma apart_weaken: "apart m ys hi \<Longrightarrow> lo \<le> m \<Longrightarrow> apart lo ys hi"
  by (cases ys) auto

lemma apart_join_below:
  assumes "apart lo xs m" and "apart lo2 ((bp, N) # zs) hi" and "lo < bp" and "\<And>a k. (a, k) \<in> set xs \<Longrightarrow> a + HSZ * k \<le> bp"
  shows "apart lo (join_below xs ((bp, N) # zs)) hi"
proof (cases xs rule: rev_cases)
  case Nil
  with assms show ?thesis by (simp add: join_below_def)
next
  case (snoc xs' x)
  obtain p k where x: "x = (p, k)" by fastforce
  show ?thesis
  proof (cases "p + HSZ * k = bp")
    case True
    then have "p + HSZ * (k + N) = bp + HSZ * N" by (simp add: algebra_simps)
    then show ?thesis using assms True by (auto simp: join_below_def snoc x apart_append)
  next
    case False
    then have "p + HSZ * k < bp" using assms(4) [of p k] by (simp add: snoc x)
    with False assms show ?thesis by (auto simp: join_below_def snoc x apart_append)
  qed
qed

lemma dropWhile_above:
  "sorted_wrt (<) (map fst fl) \<Longrightarrow> x \<in> set (dropWhile (\<lambda>x. fst x < bp) fl) \<Longrightarrow> bp \<le> fst x" for bp :: nat
  by (induction fl) (auto split: if_splits)

lemma disjoint_blocks:
  assumes "{bp ..< bp + HSZ * n} \<inter> bytes fl = {}" and "0 < n" and "(a, m) \<in> set fl" and "0 < m"
  shows "bp + HSZ * n \<le> a \<or> a + HSZ * m \<le> bp"
proof (rule ccontr)
  assume c: "\<not> ?thesis"
  then have "max a bp \<in> {a ..< a + HSZ * m}" "max a bp \<in> {bp ..< bp + HSZ * n}" using assms(2,4) by (auto simp: HSZ_def)
  moreover have "{a ..< a + HSZ * m} \<subseteq> bytes fl" using assms(3) by (force simp: bytes_def)
  ultimately show False using assms(1) by blast
qed

text \<open>Every block of the list, and the list head, has its fields in the free bytes or in \<open>base\<close>.\<close>

lemma heap_okD:
  assumes "heap_ok s fl"
  shows "0 < base s" "hsize s (base s) = 0" "chain s (base s) fl (base s)" "apart (base s + (HSZ - 1)) fl (brk s)"
    "freep s \<in> insert (base s) (fst ` set fl)" "sorted_wrt (<) (base s # map fst fl)" "distinct (base s # map fst fl)"
    "base s + HSZ \<le> brk s"
  using assms apart_sorted apart_ring(1) unfolding heap_ok_def by blast+

lemma node_bytes:
  assumes "heap_ok s fl" and "q \<in> insert (base s) (fst ` set fl)"
  shows "q \<in> insert (base s) (bytes fl)"
proof (cases "q = base s")
  case False
  with assms(2) obtain n where "(q, n) \<in> set fl" by auto
  moreover from this have "0 < n" using apart_bounds [OF heap_okD(4) [OF assms(1)]] by blast
  ultimately have "q \<in> bytes fl" unfolding bytes_def by (auto simp: HSZ_def intro!: bexI [of _ "(q, n)"])
  then show ?thesis by simp
qed simp

lemma free_link_frame:
  "base (free_link bp p s) = base s" "brk (free_link bp p s) = brk s" "lim (free_link bp p s) = lim s" "freep (free_link bp p s) = p"
  "a \<noteq> bp \<Longrightarrow> a \<noteq> p \<Longrightarrow> hsize (free_link bp p s) a = hsize s a"
  by (simp_all add: free_link_def Let_def)

lemma in_join:
  assumes "join_above bp n ys = (bp, N) # ys2"
  shows "\<exists>x \<in> set (join_below xs (join_above bp n ys)). n \<le> snd x"
    and "last_of b xs \<in> insert b (fst ` set (join_below xs (join_above bp n ys)))"
proof -
  have N: "n \<le> N" using assms by (cases ys) (auto simp: join_above_def split: if_splits)
  then show "\<exists>x \<in> set (join_below xs (join_above bp n ys)). n \<le> snd x"
    unfolding assms by (auto simp: join_below_def)
  show "last_of b xs \<in> insert b (fst ` set (join_below xs (join_above bp n ys)))"
    unfolding assms by (cases xs rule: rev_cases) (auto simp: join_below_def)
qed

lemma distinct_glue:
  assumes "distinct (b # map fst (xs @ ys))" and "bp \<notin> fst ` set (xs @ ys)" and "b \<noteq> bp" and "set ys2 \<subseteq> set ys" and "distinct (map fst ys2)"
  shows "distinct (b # map fst xs @ bp # map fst ys2)"
proof -
  have i: "set (map fst ys2) \<subseteq> set (map fst ys)" using assms(4) by auto
  have d: "distinct (b # map fst xs @ map fst ys)" "bp \<notin> set (map fst xs)" "bp \<notin> set (map fst ys)" using assms(1,2) by auto
  show ?thesis using d i assms(3,5) unfolding distinct.simps distinct_append set_append list.set by blast
qed

lemma free_place:
  assumes ok: "heap_ok s fl" and n: "0 < n" and lo: "base s < bp" and dis: "{bp ..< bp + HSZ * n} \<inter> bytes fl = {}"
  obtains xs ys where "fl = xs @ ys" and "\<forall>(a, m) \<in> set xs. a + HSZ * m \<le> bp" and "\<forall>(a, m) \<in> set ys. bp + HSZ * n \<le> a"
    and "bp \<notin> fst ` set fl" and "free_find s bp (freep s) = Some (last_of (base s) xs)"
proof -
  note h = heap_okD [OF ok]
  let ?xs = "below bp fl" and ?ys = "dropWhile (\<lambda>x. fst x < bp) fl"
  have pos: "0 < m" if "(a, m) \<in> set fl" for a m using apart_bounds [OF h(4) that] by simp
  have below: "a + HSZ * m \<le> bp" if "(a, m) \<in> set ?xs" for a m
  proof -
    have f: "(a, m) \<in> set fl" "a < bp" using that by (auto dest: set_takeWhileD)
    from disjoint_blocks [OF dis n f(1) pos [OF f(1)]] f(2) show ?thesis using n by (auto simp: HSZ_def)
  qed
  have above: "bp + HSZ * n \<le> a" if "(a, m) \<in> set ?ys" for a m
  proof -
    have f: "(a, m) \<in> set fl" using that by (rule set_dropWhileD)
    have "bp \<le> a" using dropWhile_above [of fl "(a, m)" bp] h(6) that by simp
    with disjoint_blocks [OF dis n f pos [OF f]] pos [OF f] show ?thesis by (auto simp: HSZ_def)
  qed
  have bpn: "bp \<notin> fst ` set fl"
  proof
    assume "bp \<in> fst ` set fl"
    from node_bytes [OF ok, of bp] this lo have "bp \<in> bytes fl" by simp
    moreover have "bp \<in> {bp ..< bp + HSZ * n}" using n by (simp add: HSZ_def)
    ultimately show False using dis by blast
  qed
  obtain us vs where uv: "fl = us @ vs" "freep s = last_of (base s) us" by (rule ring_node [OF h(5)])
  have "free_find s bp (freep s) = Some (last_of (base s) ?xs)"
    unfolding uv(2) by (rule free_find_ring [OF h(3,6) uv(1) bpn lo])
  with that [of ?xs ?ys] below above bpn show ?thesis by auto
qed

lemma free_link_chain:
  assumes ok: "heap_ok s (xs @ ys)" and bpn: "bp \<notin> fst ` set (xs @ ys)" and b: "base s < bp"
  shows "chain (free_link bp (last_of (base s) xs) s) (base s) (join_below xs (join_above bp (hsize s bp) ys)) (base s)"
    and "\<exists>N ys2. join_above bp (hsize s bp) ys = (bp, N) # ys2"
proof -
  note h = heap_okD [OF ok]
  define p where "p = last_of (base s) xs"
  have cx: "chain s (base s) xs (next_of ys (base s))" and cy: "chain s p ys (base s)" using h(3) by (simp_all add: fchain_append p_def)
  have pbp: "bp \<noteq> p" using bpn b by (cases xs rule: rev_cases) (auto simp: p_def)
  obtain N ys2 where J: "join_above bp (hsize s bp) ys = (bp, N) # ys2" and N: "hsize (link_above bp p s) bp = N"
    and c2: "chain (link_above bp p s) bp ys2 (base s)"
    using link_above_chain [OF cy _ b pbp] bpn by auto
  then show "\<exists>N ys2. join_above bp (hsize s bp) ys = (bp, N) # ys2" by blast
  have y2: "set ys2 \<subseteq> set ys" "distinct (map fst ys2)"
  proof -
    have "ys2 = ys \<or> ys2 = tl ys" using J by (cases ys) (auto simp: join_above_def split: if_splits)
    with h(7) show "set ys2 \<subseteq> set ys" "distinct (map fst ys2)" by (cases ys; auto)+
  qed
  have "a \<noteq> bp" if "a \<in> insert (base s) (fst ` set xs)" for a using that b bpn by auto
  then have "chain (link_above bp p s) (base s) xs (next_of ys (base s)) \<longleftrightarrow> chain s (base s) xs (next_of ys (base s))"
    by (intro fchain_cong) (simp_all add: link_above_def)
  with cx have cx2: "chain (link_above bp p s) (base s) xs (next_of ys (base s))" by simp
  have "distinct (base s # map fst xs @ bp # map fst ys2)" by (rule distinct_glue [OF h(7) bpn _ y2]) (use b in simp)
  moreover have "hsize (link_above bp p s) (base s) = 0" using b h(2) by (simp add: link_above_def)
  ultimately have "chain (link_below bp p (link_above bp p s)) (base s) (join_below xs ((bp, N) # ys2)) (base s)"
    using link_below_chain [OF cx2 c2] p_def N by simp
  then show "chain (free_link bp (last_of (base s) xs) s) (base s) (join_below xs (join_above bp (hsize s bp) ys)) (base s)"
    unfolding J free_link_steps p_def by simp
qed

lemma free_link_base:
  assumes "hsize s (base s) = 0" and "base s < bp"
  shows "hsize (free_link bp p s) (base s) = 0"
proof (cases "p = base s")
  case True
  then show ?thesis using assms by (auto simp: free_link_def Let_def HSZ_def)
next
  case False
  then show ?thesis using free_link_frame(5) [of "base s" bp p s] assms by simp
qed

lemma free_link_heap:
  assumes ok: "heap_ok s (xs @ ys)" and n: "0 < hsize s bp" and bpn: "bp \<notin> fst ` set (xs @ ys)" and lo: "base s + HSZ \<le> bp"
    and hi: "bp + HSZ * hsize s bp \<le> brk s" and below: "\<And>a m. (a, m) \<in> set xs \<Longrightarrow> a + HSZ * m \<le> bp"
    and above: "\<And>a m. (a, m) \<in> set ys \<Longrightarrow> bp + HSZ * hsize s bp \<le> a"
  shows "heap_ok (free_link bp (last_of (base s) xs) s) (join_below xs (join_above bp (hsize s bp) ys))"
proof -
  note h = heap_okD [OF ok]
  have b: "base s < bp" and l: "base s + (HSZ - 1) < bp" using lo by (simp_all add: HSZ_def)
  obtain N ys2 where J: "join_above bp (hsize s bp) ys = (bp, N) # ys2" using free_link_chain(2) [OF ok bpn b] by blast
  obtain m where m: "apart (base s + (HSZ - 1)) xs m" "apart m ys (brk s)" using h(4) unfolding apart_append by blast
  have "apart (base s + (HSZ - 1)) (join_above bp (hsize s bp) ys) (brk s)" using above n hi l by (intro apart_join_above [OF m(2)]) auto
  then have "apart (base s + (HSZ - 1)) (join_below xs (join_above bp (hsize s bp) ys)) (brk s)"
    unfolding J using below l by (intro apart_join_below [OF m(1)]) auto
  with free_link_chain(1) [OF ok bpn b] free_link_base [OF h(2) b] h(1,8) in_join(2) [OF J, of "base s" xs]
  show ?thesis by (simp add: heap_ok_def free_link_frame)
qed

lemma free_spec:
  assumes ok: "heap_ok s fl" and n: "hsize s bp = n" "0 < n" and lo: "base s + HSZ \<le> bp" and hi: "bp + HSZ * n \<le> brk s"
    and dis: "{bp ..< bp + HSZ * n} \<inter> bytes fl = {}"
  shows "\<exists>s' fl'. free (bp + HSZ) s = Some s' \<and> heap_ok s' fl' \<and> bytes fl' = {bp ..< bp + HSZ * n} \<union> bytes fl
    \<and> base s' = base s \<and> brk s' = brk s \<and> lim s' = lim s \<and> (\<exists>x \<in> set fl'. n \<le> snd x)
    \<and> (\<forall>a. a \<notin> bytes fl' \<longrightarrow> hsize s' a = hsize s a)"
proof -
  have b: "base s < bp" using lo by (simp add: HSZ_def)
  obtain xs ys where fl: "fl = xs @ ys" and below: "\<forall>(a, m) \<in> set xs. a + HSZ * m \<le> bp"
    and above: "\<forall>(a, m) \<in> set ys. bp + HSZ * n \<le> a"
    and bpn: "bp \<notin> fst ` set fl" and find: "free_find s bp (freep s) = Some (last_of (base s) xs)"
    by (rule free_place [OF ok n(2) b dis])
  define p where "p = last_of (base s) xs"
  define s' where "s' = free_link bp p s"
  define fl' where "fl' = join_below xs (join_above bp n ys)"
  have heap: "heap_ok s' fl'"
    unfolding s'_def fl'_def p_def n(1) [symmetric]
    by (rule free_link_heap) (use ok n lo hi below above bpn in \<open>auto simp: fl\<close>)
  obtain N ys2 where J: "join_above bp n ys = (bp, N) # ys2" using free_link_chain(2) [of s xs ys bp] ok bpn b n(1) fl by auto
  have bytes: "bytes fl' = {bp ..< bp + HSZ * n} \<union> bytes fl"
  proof -
    have "join_above bp n ys \<noteq> []" by (simp add: J)
    from bytes_join_below [OF this, of xs] show ?thesis unfolding fl'_def bytes_join_above fl bytes_simps by blast
  qed
  have "hsize s' a = hsize s a" if "a \<notin> bytes fl'" for a
  proof (cases "a = base s")
    case True
    then show ?thesis using free_link_base [OF heap_okD(2) [OF ok] b] heap_okD(2) [OF ok] by (simp add: s'_def)
  next
    case False
    have "p \<in> insert (base s) (fst ` set fl)" by (cases xs rule: rev_cases) (auto simp: p_def fl)
    from node_bytes [OF ok this] have "a \<noteq> p" using False that bytes by auto
    moreover have "a \<noteq> bp" using that bytes n(2) by (auto simp: HSZ_def)
    ultimately show ?thesis by (simp add: s'_def free_link_frame)
  qed
  moreover have "free (bp + HSZ) s = Some s'" using find by (simp add: free_def s'_def p_def)
  ultimately show ?thesis using heap bytes in_join(1) [OF J, of xs] by (auto simp: s'_def free_link_frame fl'_def)
qed

section \<open>Taking a block\<close>

lemma unique_split:
  assumes "us @ x # vs = us2 @ y # vs2" and "fst x = fst y" and "distinct (map fst (us @ x # vs))"
  shows "us = us2"
  using assms
proof (induction us arbitrary: us2)
  case Nil
  then show ?case by (cases us2) (auto simp: image_iff)
next
  case (Cons u us)
  then show ?case by (cases us2) (auto simp: image_iff)
qed

lemma ring_pred:
  assumes "chain s b fl b" and "distinct (b # map fst fl)" and "x \<in> insert b (fst ` set fl)" and "ptr s x = a" and "fl = us @ (a, k) # vs"
  shows "x = last_of b us"
proof -
  obtain us2 vs2 where x: "fl = us2 @ vs2" "x = last_of b us2" by (rule ring_node [OF assms(3)])
  have "chain s b us2 (next_of vs2 b)" using assms(1) x(1) by (simp add: fchain_append)
  from chain_ptr [OF this] have "next_of vs2 b = a" using assms(4) x(2) by simp
  moreover have "a \<noteq> b" using assms(2,5) by auto
  ultimately obtain k2 vs2' where "vs2 = (a, k2) # vs2'" by (cases vs2) auto
  then have e: "us @ (a, k) # vs = us2 @ (a, k2) # vs2'" using assms(5) x(1) by simp
  have "us = us2" by (rule unique_split [OF e]) (use assms(2,5) in simp_all)
  with x show ?thesis by simp
qed

lemma apart_remove:
  assumes "apart lo (us @ (a, k) # vs) hi"
  shows "apart lo (us @ vs) hi" and "0 < j \<Longrightarrow> j < k \<Longrightarrow> apart lo (us @ (a, j) # vs) hi"
proof -
  obtain m where m: "apart lo us m" "m < a" "0 < k" "apart (a + HSZ * k) vs hi"
    and l: "m = (if us = [] then lo else fst (last us) + HSZ * snd (last us))"
    using assms unfolding apart_append by auto
  have "apart m vs hi" using m by (intro apart_weaken [OF m(4)]) simp
  with m l show "apart lo (us @ vs) hi" unfolding apart_append by blast
  assume j: "0 < j" "j < k"
  then have "apart (a + HSZ * j) vs hi" by (intro apart_weaken [OF m(4)]) simp
  with m l j show "apart lo (us @ (a, j) # vs) hi" unfolding apart_append by auto
qed

lemma apart_disjoint:
  assumes "apart lo (us @ (a, k) # vs) hi"
  shows "{a ..< a + HSZ * k} \<inter> bytes (us @ vs) = {}"
proof -
  obtain m where m: "apart lo us m" "m < a" "apart (a + HSZ * k) vs hi"
    using assms unfolding apart_append by auto
  have "x < a" if "x \<in> bytes us" for x using that apart_bounds [OF m(1)] m(2) by (fastforce simp: bytes_def)
  moreover have "a + HSZ * k \<le> x" if "x \<in> bytes vs" for x using that apart_bounds [OF m(3)] by (fastforce simp: bytes_def)
  ultimately show ?thesis by fastforce
qed

lemma take_block_spec:
  assumes ok: "heap_ok s fl" and fl: "fl = us @ (a, k) # vs" and nu: "0 < nu" "nu \<le> k" and pv: "prevp = last_of (base s) us"
  shows "\<exists>q s' fl'. take_block nu prevp a s = (q + HSZ, s') \<and> heap_ok s' fl' \<and> hsize s' q = nu \<and> base s < q
    \<and> {q ..< q + HSZ * nu} \<subseteq> bytes fl \<and> bytes fl' = bytes fl - {q ..< q + HSZ * nu}
    \<and> base s' = base s \<and> brk s' = brk s \<and> lim s' = lim s \<and> (\<forall>x. x \<notin> bytes fl \<longrightarrow> hsize s' x = hsize s x)"
proof -
  note h = heap_okD [OF ok]
  have c: "chain s (base s) us a" "ptr s prevp = a" "hsize s a = k" "chain s a vs (base s)"
    using h(3) chain_ptr [of s "base s" us a] by (auto simp: fl pv fchain_append)
  have d: "distinct (base s # map fst us @ a # map fst vs)" using h(7) by (simp add: fl)
  have pn: "prevp \<in> insert (base s) (fst ` set us)" by (cases us rule: rev_cases) (auto simp: pv)
  have ab: "base s < a" using apart_ring(2) [OF h(4), of a k] by (simp add: fl HSZ_def)
  have dis: "{a ..< a + HSZ * k} \<inter> bytes (us @ vs) = {}" using apart_disjoint h(4) fl by blast
  show ?thesis
  proof (cases "k = nu")
    case True
    define s' where "s' = (set_ptr prevp (ptr s a) s)\<lparr>freep := prevp\<rparr>"
    have "chain (set_ptr prevp (ptr s a) s) (base s) us (next_of vs (base s))"
    proof (rule chain_new_end [OF c(1)])
      show "ptr (set_ptr prevp (ptr s a) s) (last_of (base s) us) = next_of vs (base s)"
        using c(4) by (cases vs) (auto simp: pv)
    qed (use d pv in auto)
    moreover have "chain (set_ptr prevp (ptr s a) s) prevp vs (base s)"
    proof -
      have "fst ` set vs \<inter> insert (base s) (fst ` set us) = {}" using d by (simp add: Int_commute)
      with pn have "x \<noteq> prevp" if "x \<in> fst ` set vs" for x using that by blast
      then show ?thesis by (intro chain_move [OF c(4)]) simp_all
    qed
    ultimately have "chain s' (base s) (us @ vs) (base s)" by (simp add: s'_def fchain_append pv)
    then have "heap_ok s' (us @ vs)"
      using h pn apart_remove(1) [of _ us a k vs] by (auto simp: heap_ok_def s'_def fl)
    moreover have "take_block nu prevp a s = (a + HSZ, s')" using True c(3) by (simp add: take_block_def s'_def)
    moreover have "bytes (us @ vs) = bytes fl - {a ..< a + HSZ * nu}" using dis True by (auto simp: fl)
    moreover have "{a ..< a + HSZ * nu} \<subseteq> bytes fl" using True by (auto simp: fl)
    ultimately show ?thesis using c(3) True ab by (intro exI [of _ a] exI [of _ s'] exI [of _ "us @ vs"]) (simp add: s'_def)
  next
    case False
    define j where "j = k - nu"
    define q where "q = a + HSZ * j"
    define s' where "s' = (set_size q nu (set_size a j s))\<lparr>freep := prevp\<rparr>"
    have j: "0 < j" "j < k" "q + HSZ * nu = a + HSZ * k" using False nu by (auto simp: j_def q_def HSZ_def)
    have qa: "a < q" "q < a + HSZ * k" using j nu(1) by (auto simp: q_def HSZ_def)
    have qf: "q \<noteq> x" if "x \<in> insert (base s) (fst ` set (us @ vs))" for x
    proof (cases "x = base s")
      case False
      with that have "x \<in> fst ` set (us @ vs)" by simp
      then obtain m where "(x, m) \<in> set (us @ vs)" by (metis imageE prod.collapse)
      moreover from this have "0 < m" using apart_bounds [OF h(4)] by (auto simp: fl)
      ultimately have "x \<in> bytes (us @ vs)" unfolding bytes_def by (auto simp: HSZ_def intro!: bexI [of _ "(x, m)"])
      moreover have "q \<in> {a ..< a + HSZ * k}" using qa by simp
      ultimately show ?thesis using dis by blast
    qed (use ab qa in simp)
    have "chain s' (base s) us a \<longleftrightarrow> chain s (base s) us a"
      by (rule fchain_cong) (use d qf in \<open>auto simp: s'_def\<close>)
    moreover have "chain s' a vs (base s) \<longleftrightarrow> chain s a vs (base s)"
      by (rule fchain_cong) (use d qf in \<open>auto simp: s'_def\<close>)
    ultimately have "chain s' (base s) (us @ (a, j) # vs) (base s)"
      using c qa by (simp add: fchain_append s'_def pv)
    then have "heap_ok s' (us @ (a, j) # vs)"
      using h pn qf [of "base s"] ab apart_remove(2) [of _ us a k vs] j by (auto simp: heap_ok_def s'_def fl)
    moreover have "take_block nu prevp a s = (q + HSZ, s')"
      using False c(3) by (simp add: take_block_def s'_def Let_def q_def j_def)
    moreover have sp: "{a ..< a + HSZ * k} = {a ..< q} \<union> {q ..< q + HSZ * nu}" using qa j(3) by auto
    then have "{q ..< q + HSZ * nu} \<inter> bytes (us @ vs) = {}" using dis by blast
    then have "bytes (us @ (a, j) # vs) = bytes fl - {q ..< q + HSZ * nu}"
      unfolding fl bytes_simps sp q_def [symmetric] by fastforce
    moreover have "{q ..< q + HSZ * nu} \<subseteq> bytes fl" unfolding fl bytes_simps sp by blast
    moreover have "hsize s' x = hsize s x" if "x \<notin> bytes fl" for x
    proof -
      have "a \<in> {a ..< q}" "q \<in> {q ..< q + HSZ * nu}" using qa nu(1) by (simp_all add: HSZ_def)
      then have "x \<noteq> a" "x \<noteq> q" using that unfolding fl bytes_simps sp by blast+
      then show ?thesis by (simp add: s'_def)
    qed
    ultimately show ?thesis using ab qa
      by (intro exI [of _ q] exI [of _ s'] exI [of _ "us @ (a, j) # vs"]) (simp add: s'_def)
  qed
qed

section \<open>Walking the list\<close>

lemma walk_found:
  assumes "chain s pv (r1 @ (a, k) # r2) e" and "\<forall>x \<in> set r1. snd x < nu" and "nu \<le> k" and "freep s \<notin> fst ` set r1"
  shows "malloc_loop nu pv (ptr s pv) s = Some (take_block nu (last_of pv r1) a s)"
  using assms
proof (induction r1 arbitrary: pv)
  case Nil
  then show ?case by (subst malloc_loop.simps) simp
next
  case (Cons x r1)
  obtain c j where x: "x = (c, j)" by fastforce
  have c: "ptr s pv = c" "hsize s c = j" "j < nu" "c \<noteq> freep s" using Cons.prems by (auto simp: x)
  have "malloc_loop nu pv (ptr s pv) s = malloc_loop nu c (ptr s c) s" using c by (subst malloc_loop.simps) simp
  also have "\<dots> = Some (take_block nu (last_of c r1) a s)" using Cons by (intro Cons.IH) (auto simp: x)
  finally show ?case by (simp add: x)
qed

lemma walk_none:
  assumes "chain s pv rs e" and "\<forall>x \<in> set rs. snd x < nu" and "rs \<noteq> []" and "last_of pv rs = freep s"
    and "freep s \<notin> fst ` set (butlast rs)"
  shows "malloc_loop nu pv (ptr s pv) s = Option.bind (morecore nu s) (\<lambda>r. case r of (p, s) \<Rightarrow>
      if p = 0 then Some (0, s) else malloc_loop nu p (ptr s p) s)"
  using assms
proof (induction rs arbitrary: pv)
  case (Cons x rs)
  obtain c j where x: "x = (c, j)" by fastforce
  have c: "ptr s pv = c" "hsize s c = j" "j < nu" using Cons.prems by (auto simp: x)
  show ?case
  proof (cases "rs = []")
    case True
    then show ?thesis using c Cons.prems(4) by (subst malloc_loop.simps) (simp add: x)
  next
    case False
    then have "c \<noteq> freep s" using Cons.prems(5) by (simp add: x)
    then have "malloc_loop nu pv (ptr s pv) s = malloc_loop nu c (ptr s c) s" using c by (subst malloc_loop.simps) simp
    with Cons.IH [of c] Cons.prems False show ?thesis by (simp add: x)
  qed
qed simp

lemma ring_rotate:
  assumes "heap_ok s fl"
  obtains us vs where "fl = us @ vs" and "freep s = last_of (base s) us"
    and "chain s (freep s) (vs @ (base s, 0) # us) (ptr s (freep s))"
    and "last_of (freep s) (vs @ (base s, 0) # us) = freep s" and "freep s \<notin> fst ` set (butlast (vs @ (base s, 0) # us))"
proof -
  note h = heap_okD [OF assms]
  obtain us vs where uv: "fl = us @ vs" "freep s = last_of (base s) us" by (rule ring_node [OF h(5)])
  have c: "chain s (base s) us (next_of vs (base s))" "chain s (freep s) vs (base s)" using h(3) by (simp_all add: uv fchain_append)
  have p: "ptr s (freep s) = next_of vs (base s)" using chain_ptr [OF c(1)] uv(2) by simp
  have l: "last_of (freep s) (vs @ (base s, 0) # us) = freep s" by (simp add: uv(2) last_of_def)
  have "chain s (freep s) (vs @ (base s, 0) # us) (ptr s (freep s))"
    using c h(2) chain_ptr [OF c(2)] by (simp add: fchain_append p)
  moreover have "freep s \<notin> fst ` set (butlast (vs @ (base s, 0) # us))"
    using h(7) uv(2) by (cases us rule: rev_cases) (simp_all add: uv(1) butlast_append image_Un)
  ultimately show ?thesis using that [OF uv] l by blast
qed

lemma malloc_loop_found:
  assumes ok: "heap_ok s fl" and nu: "0 < nu" and big: "\<exists>x \<in> set fl. nu \<le> snd x"
  obtains us a k vs where "fl = us @ (a, k) # vs" and "nu \<le> k"
    and "malloc_loop nu (freep s) (ptr s (freep s)) s = Some (take_block nu (last_of (base s) us) a s)"
proof -
  note h = heap_okD [OF ok]
  obtain us vs where uv: "fl = us @ vs" "freep s = last_of (base s) us"
    and rot: "chain s (freep s) (vs @ (base s, 0) # us) (ptr s (freep s))"
      "last_of (freep s) (vs @ (base s, 0) # us) = freep s" "freep s \<notin> fst ` set (butlast (vs @ (base s, 0) # us))"
    by (rule ring_rotate [OF ok])
  have "\<exists>x \<in> set (vs @ (base s, 0) # us). nu \<le> snd x" using big uv(1) by auto
  from split_list_first_prop [OF this]
  obtain r1 x r2 where r: "vs @ (base s, 0) # us = r1 @ x # r2" "nu \<le> snd x" "\<forall>y \<in> set r1. \<not> nu \<le> snd y"
    by blast
  obtain a k where x: "x = (a, k)" by fastforce
  have "x \<in> set (vs @ (base s, 0) # us)" unfolding r(1) by simp
  then have xf: "(a, k) \<in> set fl" using r(2) nu uv(1) x by auto
  then obtain us' vs' where fl: "fl = us' @ (a, k) # vs'" by (meson split_list)
  have c: "chain s (freep s) (r1 @ (a, k) # r2) (ptr s (freep s))" using rot(1) unfolding r(1) x .
  have "butlast (r1 @ x # r2) = r1 @ butlast (x # r2)" by (simp add: butlast_append)
  then have nf: "freep s \<notin> fst ` set r1" using rot(3) unfolding r(1) by auto
  have "malloc_loop nu (freep s) (ptr s (freep s)) s = Some (take_block nu (last_of (freep s) r1) a s)"
    by (rule walk_found [OF c]) (use r(2,3) x nf in \<open>simp_all add: not_le\<close>)
  moreover have "last_of (freep s) r1 = last_of (base s) us'"
  proof (rule ring_pred [OF h(3,7) _ _ fl])
    have "set r1 \<subseteq> set (r1 @ x # r2)" by auto
    then have "set r1 \<subseteq> insert (base s, 0) (set fl)" unfolding r(1) [symmetric] by (auto simp: uv(1))
    then show "last_of (freep s) r1 \<in> insert (base s) (fst ` set fl)" using h(5) by (cases r1 rule: rev_cases) auto
    show "ptr s (last_of (freep s) r1) = a" using c chain_ptr [of s "freep s" r1 a] by (simp add: fchain_append)
  qed
  ultimately show ?thesis using that [OF fl] r(2) x by simp
qed

lemma malloc_loop_none:
  assumes ok: "heap_ok s fl" and nu: "0 < nu" and small: "\<forall>x \<in> set fl. snd x < nu"
  shows "malloc_loop nu (freep s) (ptr s (freep s)) s = Option.bind (morecore nu s) (\<lambda>r. case r of (p, s) \<Rightarrow>
      if p = 0 then Some (0, s) else malloc_loop nu p (ptr s p) s)"
proof -
  obtain us vs where uv: "fl = us @ vs" "freep s = last_of (base s) us"
    and rot: "chain s (freep s) (vs @ (base s, 0) # us) (ptr s (freep s))"
      "last_of (freep s) (vs @ (base s, 0) # us) = freep s" "freep s \<notin> fst ` set (butlast (vs @ (base s, 0) # us))"
    by (rule ring_rotate [OF ok])
  show ?thesis by (rule walk_none [OF rot(1) _ _ rot(2,3)]) (use small uv nu in auto)
qed

section \<open>Getting more memory\<close>

definition grow :: "nat \<Rightarrow> nat" where
  "grow nu = (if nu < 4096 then 4096 else nu)"

lemma apart_hi: "apart lo fl hi \<Longrightarrow> hi \<le> hi' \<Longrightarrow> apart lo fl hi'"
  by (induction lo fl hi rule: apart.induct) auto

lemma to_int_small: "n < 2 ^ 31 \<Longrightarrow> to_int n = int n"
  by (simp add: to_int_def)

lemma bytes_below: "heap_ok s fl \<Longrightarrow> x \<in> bytes fl \<Longrightarrow> x < brk s"
  using apart_bounds [OF heap_okD(4)] by (fastforce simp: bytes_def)

lemma morecore_fails:
  assumes "grow nu * HSZ < 2 ^ 31" and "lim s < brk s + HSZ * grow nu"
  shows "morecore nu s = Some (0, s)"
proof -
  have "to_int (grow nu * HSZ) = int (HSZ * grow nu)" using assms(1) by (simp add: to_int_small mult.commute)
  then have "sbrk (to_int (grow nu * HSZ)) s = (None, s)" using assms(2) by (simp add: sbrk_def nat_mult_distrib del: of_nat_mult)
  then show ?thesis unfolding morecore_def Let_def grow_def [symmetric] by simp
qed

lemma morecore_grows:
  assumes ok: "heap_ok s fl" and nu: "grow nu * HSZ < 2 ^ 31" and l: "brk s + HSZ * grow nu \<le> lim s"
  shows "\<exists>s' fl'. morecore nu s = Some (freep s', s') \<and> freep s' \<noteq> 0 \<and> heap_ok s' fl'
    \<and> bytes fl' = {brk s ..< brk s + HSZ * grow nu} \<union> bytes fl \<and> base s' = base s \<and> brk s' = brk s + HSZ * grow nu \<and> lim s' = lim s
    \<and> (\<exists>x \<in> set fl'. nu \<le> snd x) \<and> (\<forall>a. a \<notin> bytes fl' \<longrightarrow> hsize s' a = hsize s a)"
proof -
  note h = heap_okD [OF ok]
  define g where "g = grow nu"
  define s1 where "s1 = set_size (brk s) g (s\<lparr>brk := brk s + HSZ * g\<rparr>)"
  have g: "0 < g" "nu \<le> g" by (auto simp: g_def grow_def)
  have ne: "a \<noteq> brk s" if "a \<in> insert (base s) (fst ` set fl)" for a
    using node_bytes [OF ok that] bytes_below [OF ok] h(8) by (auto simp: HSZ_def)
  have "chain s1 (base s) fl (base s) \<longleftrightarrow> chain s (base s) fl (base s)"
    by (rule fchain_cong) (use ne in \<open>simp_all add: s1_def\<close>)
  then have ok1: "heap_ok s1 fl" using h ne [of "base s"] apart_hi [OF h(4), of "brk s + HSZ * g"] by (simp add: heap_ok_def s1_def)
  have "{brk s ..< brk s + HSZ * g} \<inter> bytes fl = {}" using bytes_below [OF ok] by (auto simp: not_le [symmetric])
  then have "\<exists>s' fl'. free (brk s + HSZ) s1 = Some s' \<and> heap_ok s' fl' \<and> bytes fl' = {brk s ..< brk s + HSZ * g} \<union> bytes fl
    \<and> base s' = base s1 \<and> brk s' = brk s1 \<and> lim s' = lim s1 \<and> (\<exists>x \<in> set fl'. g \<le> snd x)
    \<and> (\<forall>a. a \<notin> bytes fl' \<longrightarrow> hsize s' a = hsize s1 a)"
    by (intro free_spec [OF ok1]) (use g h(8) in \<open>simp_all add: s1_def\<close>)
  then obtain s' fl' where f: "free (brk s + HSZ) s1 = Some s'" "heap_ok s' fl'" "bytes fl' = {brk s ..< brk s + HSZ * g} \<union> bytes fl"
    "base s' = base s1" "brk s' = brk s1" "lim s' = lim s1" "\<exists>x \<in> set fl'. g \<le> snd x" "\<forall>a. a \<notin> bytes fl' \<longrightarrow> hsize s' a = hsize s1 a"
    by blast
  have "morecore nu s = Some (freep s', s')"
  proof -
    have "to_int (g * HSZ) = int (HSZ * g)" using nu by (simp add: g_def to_int_small mult.commute)
    then have "sbrk (to_int (g * HSZ)) s = (Some (brk s), s\<lparr>brk := brk s + HSZ * g\<rparr>)"
      using l by (simp add: sbrk_def g_def del: of_nat_mult)
    with f(1) show ?thesis unfolding morecore_def Let_def grow_def [symmetric] g_def [symmetric] by (simp add: s1_def)
  qed
  moreover have "freep s' \<noteq> 0"
  proof -
    have "base s' \<le> a" if "(a, n) \<in> set fl'" for a n using apart_ring(2) [OF heap_okD(4) [OF f(2)] that] by simp
    then have "base s' \<le> freep s'" using heap_okD(5) [OF f(2)] by auto
    with heap_okD(1) [OF f(2)] show ?thesis by simp
  qed
  moreover have "hsize s' a = hsize s a" if "a \<notin> bytes fl'" for a
  proof -
    have "brk s \<in> bytes fl'" using g(1) f(3) by (simp add: HSZ_def)
    with that have "a \<noteq> brk s" by blast
    with f(8) that show ?thesis by (simp add: s1_def)
  qed
  moreover have "\<exists>x \<in> set fl'. nu \<le> snd x" using f(7) g(2) le_trans by blast
  ultimately show ?thesis using f g_def s1_def by (intro exI [of _ s'] exI [of _ fl']) simp
qed

section \<open>malloc\<close>

text \<open>A sound heap, or one that no call has touched yet.\<close>

definition heap_inv :: "ust \<Rightarrow> blocks \<Rightarrow> bool" where
  "heap_inv s fl \<longleftrightarrow> (if freep s = 0 then fl = [] \<and> 0 < base s \<and> base s + HSZ \<le> brk s else heap_ok s fl)"

lemma heap_ok_freep:
  assumes "heap_ok s fl"
  shows "freep s \<noteq> 0"
proof -
  have "base s \<le> a" if "(a, n) \<in> set fl" for a n using apart_ring(2) [OF heap_okD(4) [OF assms] that] by simp
  then have "base s \<le> freep s" using heap_okD(5) [OF assms] by auto
  with heap_okD(1) [OF assms] show ?thesis by simp
qed

lemma heap_ok_inv: "heap_ok s fl \<Longrightarrow> heap_inv s fl"
  using heap_ok_freep [of s fl] by (simp add: heap_inv_def)

text \<open>What a call of \<open>malloc\<close> for \<open>nu\<close> units did to the heap.\<close>

definition served :: "nat \<Rightarrow> ust \<Rightarrow> blocks \<Rightarrow> nat \<Rightarrow> ust \<Rightarrow> blocks \<Rightarrow> bool" where
  "served nu s fl a s' fl' \<longleftrightarrow> heap_ok s' fl' \<and> base s' = base s \<and> lim s' = lim s \<and> brk s \<le> brk s' \<and>
     (if a = 0 then brk s' = brk s \<and> bytes fl' = bytes fl \<and> lim s < brk s + HSZ * grow nu \<and> (\<forall>x \<in> set fl. snd x < nu)
        \<and> (\<forall>x. x \<notin> bytes fl \<and> x \<noteq> base s \<longrightarrow> hsize s' x = hsize s x)
      else \<exists>q. a = q + HSZ \<and> base s < q \<and> hsize s' q = nu \<and> {q ..< q + HSZ * nu} \<subseteq> bytes fl \<union> {brk s ..< brk s'}
        \<and> bytes fl' = (bytes fl \<union> {brk s ..< brk s'}) - {q ..< q + HSZ * nu}
        \<and> (\<forall>x. x \<notin> bytes fl \<union> {brk s ..< brk s'} \<and> x \<noteq> base s \<longrightarrow> hsize s' x = hsize s x))"

lemma malloc_loop_takes:
  assumes ok: "heap_ok s fl" and nu: "0 < nu" and big: "\<exists>x \<in> set fl. nu \<le> snd x"
  shows "\<exists>q s' fl'. malloc_loop nu (freep s) (ptr s (freep s)) s = Some (q + HSZ, s') \<and> heap_ok s' fl' \<and> hsize s' q = nu \<and> base s < q
    \<and> {q ..< q + HSZ * nu} \<subseteq> bytes fl \<and> bytes fl' = bytes fl - {q ..< q + HSZ * nu}
    \<and> base s' = base s \<and> brk s' = brk s \<and> lim s' = lim s \<and> (\<forall>x. x \<notin> bytes fl \<longrightarrow> hsize s' x = hsize s x)"
proof -
  obtain us a k vs where l: "fl = us @ (a, k) # vs" "nu \<le> k"
    "malloc_loop nu (freep s) (ptr s (freep s)) s = Some (take_block nu (last_of (base s) us) a s)"
    by (rule malloc_loop_found [OF ok nu big])
  show ?thesis unfolding l(3) option.inject by (rule take_block_spec [OF ok l(1) nu l(2) refl])
qed

lemma malloc_loop_served:
  assumes ok: "heap_ok s fl" and nu: "0 < nu" "grow nu * HSZ < 2 ^ 31"
  shows "\<exists>a s' fl'. malloc_loop nu (freep s) (ptr s (freep s)) s = Some (a, s') \<and> served nu s fl a s' fl'"
proof (cases "\<exists>x \<in> set fl. nu \<le> snd x")
  case True
  from malloc_loop_takes [OF ok nu(1) True] show ?thesis unfolding served_def by (fastforce simp: HSZ_def)
next
  case False
  then have small: "\<forall>x \<in> set fl. snd x < nu" by (simp add: not_le)
  note more = malloc_loop_none [OF ok nu(1) small]
  show ?thesis
  proof (cases "brk s + HSZ * grow nu \<le> lim s")
    case True
    obtain s1 fl1 where m: "morecore nu s = Some (freep s1, s1)" "freep s1 \<noteq> 0" "heap_ok s1 fl1"
      "bytes fl1 = {brk s ..< brk s + HSZ * grow nu} \<union> bytes fl" "base s1 = base s" "brk s1 = brk s + HSZ * grow nu" "lim s1 = lim s"
      "\<exists>x \<in> set fl1. nu \<le> snd x" "\<forall>a. a \<notin> bytes fl1 \<longrightarrow> hsize s1 a = hsize s a"
      using morecore_grows [OF ok nu(2) True] by blast
    obtain q s' fl' where t: "malloc_loop nu (freep s1) (ptr s1 (freep s1)) s1 = Some (q + HSZ, s')" "heap_ok s' fl'" "hsize s' q = nu" "base s1 < q"
      "{q ..< q + HSZ * nu} \<subseteq> bytes fl1" "bytes fl' = bytes fl1 - {q ..< q + HSZ * nu}"
      "base s' = base s1" "brk s' = brk s1" "lim s' = lim s1" "\<forall>x. x \<notin> bytes fl1 \<longrightarrow> hsize s' x = hsize s1 x"
      using malloc_loop_takes [OF m(3) nu(1) m(8)] by blast
    have b1: "bytes fl1 = bytes fl \<union> {brk s ..< brk s'}" using m(4,6) t(8) by (simp add: Un_commute)
    have "malloc_loop nu (freep s) (ptr s (freep s)) s = Some (q + HSZ, s')" using more m(1,2) t(1) by simp
    moreover have "served nu s fl (q + HSZ) s' fl'"
      unfolding served_def using t m(5,6,7,9) b1 by (auto simp: HSZ_def)
    ultimately show ?thesis by blast
  next
    case False
    then have "morecore nu s = Some (0, s)" by (intro morecore_fails nu(2)) simp
    with more have "malloc_loop nu (freep s) (ptr s (freep s)) s = Some (0, s)" by simp
    moreover have "served nu s fl 0 s fl" unfolding served_def using ok False small by simp
    ultimately show ?thesis by blast
  qed
qed

lemma units_bound:
  assumes "nbytes < 2 ^ 31 - 16"
  shows "0 < units nbytes" and "grow (units nbytes) * HSZ < 2 ^ 31" and "nbytes + HSZ \<le> HSZ * units nbytes"
  using assms by (auto simp: units_def grow_def HSZ_def)

lemma malloc_served:
  assumes inv: "heap_inv s fl" and nb: "nbytes < 2 ^ 31 - 16"
  shows "\<exists>a s' fl'. malloc nbytes s = Some (a, s') \<and> served (units nbytes) s fl a s' fl'"
proof (cases "freep s = 0")
  case True
  define s0 where "s0 = set_size (base s) 0 (set_ptr (base s) (base s) (s\<lparr>freep := base s\<rparr>))"
  have i: "fl = []" "0 < base s" "base s + HSZ \<le> brk s" using inv True by (simp_all add: heap_inv_def)
  then have "heap_ok s0 []" by (simp add: heap_ok_def s0_def HSZ_def)
  from malloc_loop_served [OF this units_bound(1,2) [OF nb]] obtain a s' fl'
    where m: "malloc_loop (units nbytes) (freep s0) (ptr s0 (freep s0)) s0 = Some (a, s')" "served (units nbytes) s0 [] a s' fl'" by blast
  have "malloc nbytes s = Some (a, s')" using m(1) True by (simp add: malloc_def s0_def)
  moreover have "served (units nbytes) s fl a s' fl'" using m(2) unfolding served_def i(1) by (auto simp: s0_def)
  ultimately show ?thesis by blast
next
  case False
  then have "heap_ok s fl" using inv by (simp add: heap_inv_def)
  from malloc_loop_served [OF this units_bound(1,2) [OF nb]] False show ?thesis by (simp add: malloc_def)
qed

section \<open>Properties\<close>



text \<open>C35. free ends on every sound heap and keeps it sound: the bytes of the block, header included, are added to the free
  ones, joined with adjacent free blocks, nothing else changes, and no header outside the free memory is
  touched, so the sizes of all blocks in use stay recorded.\<close>

theorem free_returns_block:
  assumes "heap_inv s fl" and "freep s \<noteq> 0" and "0 < hsize s q" and "base s + HSZ \<le> q" and "q + HSZ * hsize s q \<le> brk s"
    and "{q ..< q + HSZ * hsize s q} \<inter> bytes fl = {}"
  shows "\<exists>s' fl'. free (q + HSZ) s = Some s' \<and> heap_inv s' fl' \<and> bytes fl' = bytes fl \<union> {q ..< q + HSZ * hsize s q}
    \<and> brk s' = brk s \<and> (\<forall>a. a \<notin> bytes fl' \<longrightarrow> hsize s' a = hsize s a)"
proof -
  have "heap_ok s fl" using assms(1,2) by (simp add: heap_inv_def)
  from free_spec [OF this refl assms(3-6)] show ?thesis by (metis Un_commute heap_ok_inv)
qed

text \<open>A heap with one free block of two units at 0x1000, and a block of three units in use right above it.\<close>

definition small_heap :: ust where
  "small_heap = \<lparr>ptr = (\<lambda>_. 0)(0x100 := 0x1000, 0x1000 := 0x100), hsize = (\<lambda>_. 0)(0x1000 := 2, 0x1010 := 3), base = 0x100,
     freep = 0x100, brk = 0x2000, lim = 0x2000\<rparr>"

theorem free_returns_block_witness:
  "\<exists>s' fl'. free 0x1018 small_heap = Some s' \<and> heap_inv s' fl' \<and> bytes fl' = {0x1000 ..< 0x1028}"
proof -
  have i: "heap_inv small_heap [(0x1000, 2)]" by (simp add: heap_inv_def heap_ok_def small_heap_def HSZ_def)
  have "{0x1000 ..< 0x1000 + 16} \<union> {0x1010 ..< 0x1010 + 24} = {0x1000 ..< 0x1028 :: nat}" by auto
  then show ?thesis using free_returns_block [OF i, of "0x1010"] by (auto simp: small_heap_def HSZ_def)
qed

text \<open>
  The bound on the request is needed: for 2^31 bytes the argument of \<open>sbrk\<close> is negative, the kernel grants it without
  giving any memory, and \<open>malloc\<close> returns a block that lies beyond the end of the process.
\<close>

lemma malloc_huge:
  fixes s :: ust
  defines "s \<equiv> \<lparr>ptr = \<lambda>_. 0, hsize = \<lambda>_. 0, base = 0x100, freep = 0, brk = 0x1000, lim = 0x100000\<rparr>"
  shows "\<exists>s'. malloc 0x80000000 s = Some (0x1008, s') \<and> brk s' = 0x1000"
proof -
  have u: "units 0x80000000 = 0x10000001" by (simp add: units_def HSZ_def)
  have t: "to_int 0x80000008 = - 0x7FFFFFF8" by (simp add: to_int_def)
  let ?s0 = "set_size 0x100 0 (set_ptr 0x100 0x100 (s\<lparr>freep := 0x100\<rparr>))"
  have "free_find (set_size 0x1000 0x10000001 ?s0) 0x1000 0x100 = Some 0x100" by (subst free_find.simps) (simp add: s_def)
  then have "morecore 0x10000001 ?s0 = Some (0x100, free_link 0x1000 0x100 (set_size 0x1000 0x10000001 ?s0))"
    by (simp add: morecore_def t sbrk_def free_def s_def HSZ_def free_link_frame)
  moreover have "free_link 0x1000 0x100 (set_size 0x1000 0x10000001 ?s0) = ?s0\<lparr>ptr := (\<lambda>_. 0)(0x100 := 0x1000, 0x1000 := 0x100), hsize := (\<lambda>_. 0)(0x1000 := 0x10000001)\<rparr>"
    by (simp add: free_link_def s_def HSZ_def set_ptr_def set_size_def fun_eq_iff)
  ultimately show ?thesis
    unfolding malloc_def u Let_def
    by (subst malloc_loop.simps) (simp add: s_def, subst malloc_loop.simps, simp add: take_block_def HSZ_def)
qed

end
