(* ===== verification/Integrate.thy ===== *)
theory Integrate
  imports Complex_Main Ulib
begin

text \<open>
  The integration programs of the assignment: \<open>serial.c\<close>, and \<open>thread.c\<close>, which cuts the range into one piece per thread and
  adds the areas up under a mutex.  A \<open>double\<close> is an exact real or \<open>None\<close>, which stands for NaN: rounding is left out, but
  0/0 is not.  The fields that \<open>scanf\<close> reads are arguments of \<open>getValidInput\<close>.

  Threads run step by step in any order: \<open>lock\<close>, load of \<open>total\<close>, store, \<open>unlock\<close>.  For every interleaving the printed
  total is what the serial program computes, unless some thread has no step to do, when it is NaN.
\<close>

section \<open>Functions and input\<close>

type_synonym dbl = "real option"

definition dadd :: "dbl \<Rightarrow> dbl \<Rightarrow> dbl" where
  "dadd x y = (case (x, y) of (Some a, Some b) \<Rightarrow> Some (a + b) | _ \<Rightarrow> None)"

definition gaussian :: "real \<Rightarrow> real" where
  "gaussian x = exp (- (x * x) / 2) / sqrt (2 * pi)"

definition chargeDecay :: "real \<Rightarrow> real" where
  "chargeDecay x = (if x < 0 then 0 else if x < 1 then 1 - exp (- 5 * x) else exp (- (x - 1)))"

definition getValidInput :: "nat \<Rightarrow> byte list \<Rightarrow> real \<Rightarrow> real \<Rightarrow> nat \<Rightarrow> (real \<Rightarrow> real) option" where
  "getValidInput numRead funcName start fin numSteps =
     (let func = (if strcmp funcName [115, 105, 110] = 0 then Some sin
                  else if strcmp funcName [103, 97, 117, 115, 115] = 0 then Some gaussian
                  else if strcmp funcName [100, 101, 99, 97, 121] = 0 then Some chargeDecay else None)
      in if numRead = 4 \<and> fin \<ge> start \<and> numSteps > 0 then func else None)"

section \<open>The trapezoid rule\<close>

fun trap_loop :: "(real \<Rightarrow> real) \<Rightarrow> real \<Rightarrow> real \<Rightarrow> nat \<Rightarrow> nat \<Rightarrow> real \<Rightarrow> real" where
  "trap_loop func start dx i 0 acc = acc"
| "trap_loop func start dx i (Suc n) acc =
     (let smallx = start + real i * dx; bigx = start + real (i + 1) * dx
      in trap_loop func start dx (i + 1) n (acc + (func smallx + func bigx) / 2))"

text \<open>With no steps \<open>dx\<close> is NaN or infinite and \<open>sum * dx\<close>, with a zero sum, is NaN.\<close>

definition integrateTrap :: "(real \<Rightarrow> real) \<Rightarrow> real \<Rightarrow> real \<Rightarrow> nat \<Rightarrow> dbl" where
  "integrateTrap func rangeStart rangeEnd numSteps =
     (let rangeSize = rangeEnd - rangeStart; dx = rangeSize / real numSteps
      in if numSteps = 0 then None else Some (trap_loop func rangeStart dx 0 numSteps 0 * dx))"

text \<open>The program: a line for each query up to the first invalid one.\<close>

fun serial_main :: "(nat \<times> byte list \<times> real \<times> real \<times> nat) list \<Rightarrow> (byte list \<times> real \<times> real \<times> dbl) list" where
  "serial_main [] = []"
| "serial_main ((numRead, funcName, rangeStart, rangeEnd, numSteps) # inputs) =
     (case getValidInput numRead funcName rangeStart rangeEnd numSteps of
        None \<Rightarrow> []
      | Some func \<Rightarrow> (funcName, rangeStart, rangeEnd, integrateTrap func rangeStart rangeEnd numSteps) # serial_main inputs)"

section \<open>The threads\<close>

definition THREADS :: nat where "THREADS = 7"

record thread_args =
  t_start :: real
  t_end :: real
  t_steps :: nat

text \<open>The loop that fills \<open>threadArgs\<close>, for \<open>nt\<close> threads of which \<open>m\<close> are left, from thread \<open>i\<close> on.\<close>

fun split_range :: "nat \<Rightarrow> real \<Rightarrow> nat \<Rightarrow> nat \<Rightarrow> real \<Rightarrow> nat \<Rightarrow> thread_args list" where
  "split_range nt totalRange numSteps i currentStart 0 = []"
| "split_range nt totalRange numSteps i currentStart (Suc m) =
     (let steps = numSteps div nt + (if i < numSteps mod nt then 1 else 0);
          currentEnd = currentStart + totalRange * real steps / real numSteps
      in \<lparr>t_start = currentStart, t_end = currentEnd, t_steps = steps\<rparr> # split_range nt totalRange numSteps (i + 1) currentEnd m)"

definition thread_work :: "nat \<Rightarrow> real \<Rightarrow> real \<Rightarrow> nat \<Rightarrow> thread_args list" where
  "thread_work nt rangeStart rangeEnd numSteps = split_range nt (rangeEnd - rangeStart) numSteps 0 rangeStart nt"

definition area_of :: "(real \<Rightarrow> real) \<Rightarrow> thread_args \<Rightarrow> dbl" where
  "area_of func a = integrateTrap func (t_start a) (t_end a) (t_steps a)"

text \<open>A thread has computed its area, holds the mutex, has loaded the total, has stored the new one, or is done.\<close>

datatype phase = Computed | Locked | Loaded dbl | Stored | Done

record tstate =
  total :: dbl
  mutex :: "nat option"
  phases :: "phase list"

definition threads_start :: "nat \<Rightarrow> tstate" where
  "threads_start n = \<lparr>total = Some 0, mutex = None, phases = replicate n Computed\<rparr>"

inductive tstep :: "dbl list \<Rightarrow> tstate \<Rightarrow> tstate \<Rightarrow> bool" for areas :: "dbl list" where
  lock: "i < length (phases s) \<Longrightarrow> phases s ! i = Computed \<Longrightarrow> mutex s = None
    \<Longrightarrow> tstep areas s (s\<lparr>mutex := Some i, phases := (phases s)[i := Locked]\<rparr>)"
| load: "i < length (phases s) \<Longrightarrow> phases s ! i = Locked \<Longrightarrow> tstep areas s (s\<lparr>phases := (phases s)[i := Loaded (total s)]\<rparr>)"
| store: "i < length (phases s) \<Longrightarrow> phases s ! i = Loaded v
    \<Longrightarrow> tstep areas s (s\<lparr>total := dadd v (areas ! i), phases := (phases s)[i := Stored]\<rparr>)"
| unlock: "i < length (phases s) \<Longrightarrow> phases s ! i = Stored
    \<Longrightarrow> tstep areas s (s\<lparr>mutex := None, phases := (phases s)[i := Done]\<rparr>)"

text \<open>\<open>main\<close> joins all threads: it prints the total of a state in which all are done.\<close>

definition joined :: "tstate \<Rightarrow> bool" where
  "joined s \<longleftrightarrow> (\<forall>p \<in> set (phases s). p = Done)"

section \<open>Cutting the range\<close>

lemma trap_loop_sum:
  "trap_loop f a dx i n acc = acc + (\<Sum>k = i ..< i + n. (f (a + real k * dx) + f (a + real (k + 1) * dx)) / 2)"
proof (induction n arbitrary: i acc)
  case (Suc n)
  let ?g = "\<lambda>k. (f (a + real k * dx) + f (a + real (k + 1) * dx)) / 2"
  have "sum ?g {i ..< i + Suc n} = ?g i + sum ?g {i + 1 ..< i + 1 + n}"
    by (subst sum.atLeast_Suc_lessThan) simp_all
  moreover have "trap_loop f a dx i (Suc n) acc = trap_loop f a dx (i + 1) n (acc + ?g i)" by simp
  ultimately show ?case unfolding Suc.IH by simp
qed simp

definition trap :: "(real \<Rightarrow> real) \<Rightarrow> real \<Rightarrow> real \<Rightarrow> nat \<Rightarrow> nat \<Rightarrow> real" where
  "trap f a dx j n = (\<Sum>k = j ..< j + n. (f (a + real k * dx) + f (a + real (k + 1) * dx)) / 2) * dx"

lemma trap_add: "trap f a dx j m + trap f a dx (j + m) n = trap f a dx j (m + n)"
proof -
  have "sum g {j ..< j + m} + sum g {j + m ..< j + m + n} = sum g {j ..< j + (m + n)}" for g :: "nat \<Rightarrow> real"
    by (simp add: sum.atLeastLessThan_concat add.assoc)
  then show ?thesis unfolding trap_def distrib_right [symmetric] by simp
qed

lemma integrateTrap_trap: "0 < n \<Longrightarrow> integrateTrap f a b n = Some (trap f a ((b - a) / real n) 0 n)"
  by (simp add: integrateTrap_def trap_loop_sum trap_def Let_def)

text \<open>A piece of \<open>m\<close> steps that starts after \<open>j\<close> steps is that part of the whole sum.\<close>

lemma integrateTrap_piece:
  assumes "0 < m"
  shows "integrateTrap f (a + real j * dx) (a + real j * dx + real m * dx) m = Some (trap f a dx j m)"
proof -
  have d: "real m * dx / real m = dx" using assms by simp
  have "(\<Sum>k = 0 ..< m. (f (a + real j * dx + real k * dx) + f (a + real j * dx + real (k + 1) * dx)) / 2)
      = (\<Sum>k = 0 ..< m. (f (a + real (k + j) * dx) + f (a + real (k + j + 1) * dx)) / 2)"
    by (intro sum.cong refl) (simp add: algebra_simps)
  also have "\<dots> = (\<Sum>k = j ..< j + m. (f (a + real k * dx) + f (a + real (k + 1) * dx)) / 2)"
    using sum.shift_bounds_nat_ivl [of "\<lambda>k. (f (a + real k * dx) + f (a + real (k + 1) * dx)) / 2" 0 j m] by (simp add: add.commute)
  finally show ?thesis using assms d by (simp add: integrateTrap_trap trap_def)
qed

definition steps_of :: "nat \<Rightarrow> nat \<Rightarrow> nat \<Rightarrow> nat" where
  "steps_of nt n i = n div nt + (if i < n mod nt then 1 else 0)"

lemma steps_total: "0 < nt \<Longrightarrow> (\<Sum>i < nt. steps_of nt n i) = n"
proof -
  assume nt: "0 < nt"
  have "{i. i < nt \<and> i < n mod nt} = {..< n mod nt}" using mod_less_divisor [OF nt, of n] by auto
  then have "{..< nt} \<inter> {i. i < n mod nt} = {..< n mod nt}" by auto
  then have "(\<Sum>i < nt. if i < n mod nt then 1 else 0) = n mod nt" by (simp add: sum.If_cases)
  then show ?thesis by (simp add: steps_of_def sum.distrib)
qed

lemma split_range_areas:
  assumes "0 < n" and "a = st + real (\<Sum>j < i. steps_of nt n j) * (R / real n)"
  shows "map (area_of f) (split_range nt R n i a m) =
    map (\<lambda>k. if steps_of nt n k = 0 then None else Some (trap f st (R / real n) (\<Sum>j < k. steps_of nt n j) (steps_of nt n k))) [i ..< i + m]"
  using assms(2)
proof (induction m arbitrary: i a)
  case (Suc m)
  define s where "s = steps_of nt n i"
  define dx where "dx = R / real n"
  define e where "e = a + R * real s / real n"
  have e: "e = a + real s * dx" by (simp add: e_def dx_def)
  have "e = st + real (\<Sum>j < i + 1. steps_of nt n j) * dx" using Suc.prems by (simp add: e s_def dx_def algebra_simps)
  note IH = Suc.IH [OF this [unfolded dx_def]]
  have "area_of f \<lparr>t_start = a, t_end = e, t_steps = s\<rparr> = (if s = 0 then None else Some (trap f st dx (\<Sum>j < i. steps_of nt n j) s))"
    using integrateTrap_piece [of s f st "\<Sum>j < i. steps_of nt n j" dx] Suc.prems
    by (auto simp: area_of_def e dx_def integrateTrap_def)
  moreover have "split_range nt R n i a (Suc m) = \<lparr>t_start = a, t_end = e, t_steps = s\<rparr> # split_range nt R n (i + 1) e m"
    by (simp add: Let_def s_def steps_of_def e_def)
  moreover have "[i ..< i + Suc m] = i # [i + 1 ..< i + 1 + m]" by (simp add: upt_conv_Cons)
  ultimately show ?case using IH by (simp add: s_def dx_def)
qed simp

section \<open>Adding up under the mutex\<close>

definition total_of :: "dbl list \<Rightarrow> nat set \<Rightarrow> dbl" where
  "total_of areas S = (if \<exists>i \<in> S. areas ! i = None then None else Some (\<Sum>i \<in> S. the (areas ! i)))"

lemma total_of_insert:
  assumes "finite S" and "i \<notin> S"
  shows "total_of areas (insert i S) = dadd (total_of areas S) (areas ! i)"
  using assms by (auto simp: total_of_def dadd_def split: option.split)

definition added :: "phase list \<Rightarrow> nat set" where
  "added ps = {i. i < length ps \<and> (ps ! i = Stored \<or> ps ! i = Done)}"

definition critical :: "phase \<Rightarrow> bool" where
  "critical p \<longleftrightarrow> p \<noteq> Computed \<and> p \<noteq> Done"

definition threads_ok :: "dbl list \<Rightarrow> tstate \<Rightarrow> bool" where
  "threads_ok areas s \<longleftrightarrow> length (phases s) = length areas \<and> total s = total_of areas (added (phases s))
     \<and> (\<forall>i < length (phases s). critical (phases s ! i) \<longleftrightarrow> mutex s = Some i)
     \<and> (\<forall>i < length (phases s). \<forall>v. phases s ! i = Loaded v \<longrightarrow> v = total s)
     \<and> (\<forall>i. mutex s = Some i \<longrightarrow> i < length (phases s))"

lemma added_update:
  assumes "i < length ps"
  shows "added (ps[i := p]) = (if p = Stored \<or> p = Done then insert i (added ps) else added ps - {i})"
  using assms by (auto simp: added_def nth_list_update)

lemma tstep_ok:
  assumes "tstep areas s s'" and "threads_ok areas s"
  shows "threads_ok areas s'"
  using assms
proof (induction rule: tstep.induct)
  case (lock i s)
  then have "i \<notin> added (phases s)" by (simp add: added_def)
  with lock show ?case by (auto simp: threads_ok_def added_update nth_list_update critical_def)
next
  case (load i s)
  then have "i \<notin> added (phases s)" by (simp add: added_def)
  with load show ?case by (auto simp: threads_ok_def added_update nth_list_update critical_def)
next
  case (store i s v)
  have i: "i \<notin> added (phases s)" "finite (added (phases s))" using store by (auto simp: added_def)
  have v: "v = total s" "mutex s = Some i" using store by (auto simp: threads_ok_def critical_def)
  have "phases s ! j \<noteq> Loaded w" if "j < length (phases s)" "j \<noteq> i" for j w
    using that store.prems v(2) by (auto simp: threads_ok_def critical_def)
  then show ?case using store i v
    by (auto simp: threads_ok_def added_update nth_list_update critical_def total_of_insert)
next
  case (unlock i s)
  then have i: "insert i (added (phases s)) = added (phases s)" by (auto simp: added_def)
  have "mutex s = Some i" using unlock by (auto simp: threads_ok_def critical_def)
  then show ?case using unlock i by (auto simp: threads_ok_def added_update nth_list_update critical_def)
qed

lemma threads_start_ok: "threads_ok areas (threads_start (length areas))"
proof -
  have "added (replicate n Computed) = {}" for n by (auto simp: added_def)
  then show ?thesis by (auto simp: threads_ok_def threads_start_def critical_def total_of_def)
qed

lemma threads_reachable_ok:
  "(tstep areas)\<^sup>*\<^sup>* (threads_start (length areas)) s \<Longrightarrow> threads_ok areas s"
  by (induction rule: rtranclp_induct) (auto intro: threads_start_ok tstep_ok)

lemma threads_progress:
  assumes "threads_ok areas s" and "\<not> joined s"
  shows "\<exists>s'. tstep areas s s'"
proof -
  obtain i where i: "i < length (phases s)" "phases s ! i \<noteq> Done" using assms(2) by (auto simp: joined_def in_set_conv_nth)
  show ?thesis
  proof (cases "mutex s")
    case None
    then have "phases s ! i = Computed" using assms(1) i by (auto simp: threads_ok_def critical_def)
    with i None show ?thesis by (blast intro: tstep.lock)
  next
    case (Some j)
    then have j: "j < length (phases s)" "critical (phases s ! j)" using assms(1) by (auto simp: threads_ok_def)
    then consider "phases s ! j = Locked" | v where "phases s ! j = Loaded v" | "phases s ! j = Stored"
      by (cases "phases s ! j") (auto simp: critical_def)
    then show ?thesis using j(1) by cases (blast intro: tstep.load tstep.store tstep.unlock)+
  qed
qed

lemma joined_total:
  assumes "threads_ok areas s" and "joined s"
  shows "total s = total_of areas {..< length areas}"
proof -
  have "added (phases s) = {..< length areas}" using assms by (auto simp: added_def threads_ok_def joined_def)
  with assms(1) show ?thesis by (simp add: threads_ok_def)
qed

text \<open>The areas of the pieces add up to the area of the whole.\<close>

lemma trap_pieces: "(\<Sum>k < m. trap f st dx (\<Sum>j < k. steps_of nt n j) (steps_of nt n k)) = trap f st dx 0 (\<Sum>j < m. steps_of nt n j)"
proof (induction m)
  case 0
  then show ?case by (simp add: trap_def)
next
  case (Suc m)
  then show ?case by (simp add: trap_add [of f st dx 0, simplified])
qed

lemma work_areas:
  assumes "0 < n"
  shows "map (area_of f) (thread_work nt a b n) =
    map (\<lambda>k. if steps_of nt n k = 0 then None else Some (trap f a ((b - a) / real n) (\<Sum>j < k. steps_of nt n j) (steps_of nt n k))) [0 ..< nt]"
  unfolding thread_work_def by (subst split_range_areas [OF assms, where st = a]) simp_all

lemma work_total:
  assumes "0 < n" and "0 < nt"
  shows "total_of (map (area_of f) (thread_work nt a b n)) {..< nt} = (if nt \<le> n then integrateTrap f a b n else None)"
proof (cases "nt \<le> n")
  case True
  then have "0 < n div nt" using assms(2) by (simp add: div_greater_zero_iff)
  then have pos: "0 < steps_of nt n k" for k by (simp add: steps_of_def)
  have "total_of (map (area_of f) (thread_work nt a b n)) {..< nt} =
      Some (\<Sum>k < nt. trap f a ((b - a) / real n) (\<Sum>j < k. steps_of nt n j) (steps_of nt n k))"
  proof -
    define g where "g k = trap f a ((b - a) / real n) (\<Sum>j < k. steps_of nt n j) (steps_of nt n k)" for k
    have "map (area_of f) (thread_work nt a b n) = map (\<lambda>k. Some (g k)) [0 ..< nt]"
      using pos unfolding work_areas [OF assms(1)] g_def by simp
    then show ?thesis by (simp add: total_of_def g_def [symmetric])
  qed
  also have "\<dots> = Some (trap f a ((b - a) / real n) 0 n)" by (simp only: trap_pieces steps_total [OF assms(2)])
  finally show ?thesis using True integrateTrap_trap [OF assms(1)] by simp
next
  case False
  then have "n div nt = 0" "n mod nt = n" by auto
  then have "steps_of nt n n = 0" by (simp add: steps_of_def)
  moreover have "n < nt" using False by simp
  ultimately have "map (area_of f) (thread_work nt a b n) ! n = None" unfolding work_areas [OF assms(1)] by simp
  with False show ?thesis by (auto simp: total_of_def)
qed

section \<open>Properties\<close>



end
