(* ===== verification/Children.thy ===== *)
theory Children
  imports Integrate "HOL-Library.Multiset"
begin

text \<open>
  \<open>process.c\<close> and \<open>processThread.c\<close>: the parent forks a child per query and keeps to a number of children with a semaphore
  that the \<open>SIGCHLD\<close> handler posts.  The handler may run between any two steps of the parent, and children end in any
  order, so the program is a step relation.  A query is a line of input that \<open>getValidInput\<close> accepts; \<open>None\<close> is one it
  refuses, and the end of the input counts as such a line.  Each \<open>fork\<close> may fail.

  Shown: never more children than slots, no deadlock, and at the exit every query up to the first invalid line has been
  answered exactly once, unless its fork failed.
\<close>

section \<open>The parent\<close>

datatype pphase = Waiting | Reading | Draining | Exited

record 'q pstate =
  numFree :: nat
  pphase :: pphase
  queries :: "'q option list"
  running :: "'q list"
  zombies :: nat
  answered :: "'q list"
  refused :: "'q list"

definition MAX_CHILDREN :: nat where "MAX_CHILDREN = 10"

definition parent_start :: "nat \<Rightarrow> 'q option list \<Rightarrow> 'q pstate" where
  "parent_start mx qs = \<lparr>numFree = mx, pphase = Waiting, queries = qs, running = [], zombies = 0, answered = [], refused = []\<rparr>"

definition refuses :: "'q option list \<Rightarrow> bool" where
  "refuses qs \<longleftrightarrow> qs = [] \<or> hd qs = None"

text \<open>One round of the loop of \<open>handleChildExit\<close>: a zombie is reaped and its slot posted.\<close>

definition reap_one :: "'q pstate \<Rightarrow> 'q pstate" where
  "reap_one s = s\<lparr>zombies := zombies s - 1, numFree := numFree s + 1\<rparr>"

inductive pstep :: "'q pstate \<Rightarrow> 'q pstate \<Rightarrow> bool" where
  sem_wait: "pphase s = Waiting \<Longrightarrow> 0 < numFree s \<Longrightarrow> pstep s (s\<lparr>numFree := numFree s - 1, pphase := Reading\<rparr>)"
| bad_input: "pphase s = Reading \<Longrightarrow> refuses (queries s) \<Longrightarrow> pstep s (s\<lparr>pphase := Draining\<rparr>)"
| fork_fails: "pphase s = Reading \<Longrightarrow> queries s = Some q # qs
    \<Longrightarrow> pstep s (s\<lparr>numFree := numFree s + 1, pphase := Waiting, queries := qs, refused := refused s @ [q]\<rparr>)"
| fork_child: "pphase s = Reading \<Longrightarrow> queries s = Some q # qs
    \<Longrightarrow> pstep s (s\<lparr>pphase := Waiting, queries := qs, running := running s @ [q]\<rparr>)"
| child_exits: "running s = us @ q # vs
    \<Longrightarrow> pstep s (s\<lparr>running := us @ vs, zombies := zombies s + 1, answered := answered s @ [q]\<rparr>)"
| handler: "pphase s \<noteq> Exited \<Longrightarrow> 0 < zombies s \<Longrightarrow> pstep s (reap_one s)"
| drain: "pphase s = Draining \<Longrightarrow> 0 < zombies s \<Longrightarrow> pstep s (reap_one s)"
| no_children: "pphase s = Draining \<Longrightarrow> running s = [] \<Longrightarrow> zombies s = 0 \<Longrightarrow> pstep s (s\<lparr>pphase := Exited\<rparr>)"

section \<open>The children of processThread.c\<close>

definition PT_THREADS :: nat where "PT_THREADS = 4"

definition PT_MAX_CHILDREN :: nat where "PT_MAX_CHILDREN = 4"

text \<open>What a child may print: the total of its threads once they are joined.\<close>

definition child_prints :: "(real \<Rightarrow> real) \<Rightarrow> real \<Rightarrow> real \<Rightarrow> nat \<Rightarrow> dbl \<Rightarrow> bool" where
  "child_prints f a b n out \<longleftrightarrow>
     (let areas = map (area_of f) (thread_work PT_THREADS a b n)
      in \<exists>s. (tstep areas)\<^sup>*\<^sup>* (threads_start PT_THREADS) s \<and> joined s \<and> out = total s)"

section \<open>The invariant\<close>

fun valid_part :: "'q option list \<Rightarrow> 'q list" where
  "valid_part (Some q # qs) = q # valid_part qs"
| "valid_part _ = []"

definition held :: "pphase \<Rightarrow> nat" where
  "held p = (if p = Waiting then 0 else 1)"

definition parent_ok :: "nat \<Rightarrow> 'q option list \<Rightarrow> 'q pstate \<Rightarrow> bool" where
  "parent_ok mx qs0 s \<longleftrightarrow> numFree s + length (running s) + zombies s + held (pphase s) = mx
     \<and> mset (answered s) + mset (refused s) + mset (running s) + mset (valid_part (queries s)) = mset (valid_part qs0)
     \<and> (pphase s = Draining \<or> pphase s = Exited \<longrightarrow> refuses (queries s))
     \<and> (pphase s = Exited \<longrightarrow> running s = [] \<and> zombies s = 0)"

lemma valid_part_refuses: "refuses qs \<Longrightarrow> valid_part qs = []"
  by (cases qs rule: valid_part.cases) (auto simp: refuses_def)

lemma pstep_ok: "pstep s s' \<Longrightarrow> parent_ok mx qs0 s \<Longrightarrow> parent_ok mx qs0 s'"
proof (induction rule: pstep.induct)
  case (child_exits s us q vs)
  then show ?case by (auto simp: parent_ok_def held_def ac_simps)
qed (auto simp: parent_ok_def held_def reap_one_def)

lemma parent_reachable_ok: "pstep\<^sup>*\<^sup>* (parent_start mx qs0) s \<Longrightarrow> parent_ok mx qs0 s"
proof (induction rule: rtranclp_induct)
  case base
  show ?case by (simp add: parent_ok_def parent_start_def held_def)
qed (rule pstep_ok)

lemma parent_progress:
  assumes "parent_ok mx qs0 s" and "0 < mx" and "pphase s \<noteq> Exited"
  shows "\<exists>s'. pstep s s'"
proof -
  have kids: "\<exists>s'. pstep s s'" if "running s \<noteq> [] \<or> 0 < zombies s"
  proof (cases "running s")
    case Nil
    then show ?thesis using that assms(3) by (blast intro: pstep.handler)
  next
    case (Cons q vs)
    then show ?thesis using pstep.child_exits [of s "[]" q vs] by auto
  qed
  show ?thesis
  proof (cases "pphase s")
    case Waiting
    then have "0 < numFree s \<or> running s \<noteq> [] \<or> 0 < zombies s" using assms(1,2) by (auto simp: parent_ok_def held_def)
    then show ?thesis
    proof
      assume "0 < numFree s"
      with Waiting show ?thesis using pstep.sem_wait [of s] by auto
    qed (rule kids)
  next
    case Reading
    then show ?thesis
    proof (cases "queries s" rule: valid_part.cases)
      case (1 q qs)
      with Reading show ?thesis by (blast intro: pstep.fork_child)
    qed (use Reading pstep.bad_input [of s] in \<open>auto simp: refuses_def\<close>)
  next
    case Draining
    then show ?thesis
    proof (cases "running s \<noteq> [] \<or> 0 < zombies s")
      case False
      with Draining show ?thesis using pstep.no_children [of s] by auto
    qed (rule kids)
  qed (use assms(3) in simp)
qed

section \<open>Properties\<close>



lemma child_prints_integral:
  assumes "0 < n" and "child_prints f a b n out"
  shows "out = (if PT_THREADS \<le> n then integrateTrap f a b n else None)"
proof -
  obtain s where s: "(tstep (map (area_of f) (thread_work PT_THREADS a b n)))\<^sup>*\<^sup>* (threads_start PT_THREADS) s" "joined s" "out = total s"
    using assms(2) unfolding child_prints_def Let_def by blast
  have l: "length (map (area_of f) (thread_work PT_THREADS a b n)) = PT_THREADS" unfolding work_areas [OF assms(1)] by simp
  have "threads_ok (map (area_of f) (thread_work PT_THREADS a b n)) s" by (rule threads_reachable_ok) (use s(1) l in simp)
  from joined_total [OF this s(2)] have "total s = total_of (map (area_of f) (thread_work PT_THREADS a b n)) {..< PT_THREADS}" unfolding l .
  with work_total [OF assms(1), of PT_THREADS f a b] s(3) show ?thesis by (simp add: PT_THREADS_def)
qed

end
