(* ===== verification/DirSpec.thy ===== *)
theory DirSpec
  imports FileData Inodes Dir
begin

text \<open>
  Directories as maps from names to inode numbers: what \<open>dirlookup\<close> and \<open>dirlink\<close> of \<open>fs.c\<close> do to the bytes of a
  directory file.

  The bytes of a directory are a sequence of 16-byte entries; a name is the string of its first \<open>DIRSIZ\<close> bytes
  (\<open>nm\<close>).  \<open>dir_map bs\<close> is the directory as a partial map: the number in the first entry in use with the name.
\<close>

section \<open>Directory contents\<close>

definition nm :: "byte list \<Rightarrow> byte list" where
  "nm name = cstrn (cs name) DIRSIZ"

definition entry :: "byte list \<Rightarrow> nat \<Rightarrow> byte list" where
  "entry bs k = take sizeof_dirent (drop (sizeof_dirent * k) bs)"

definition nents :: "byte list \<Rightarrow> nat" where
  "nents bs = length bs div sizeof_dirent"

definition entry_is :: "byte list \<Rightarrow> byte list \<Rightarrow> nat \<Rightarrow> bool" where
  "entry_is bs key k \<longleftrightarrow> de_inum (entry bs k) \<noteq> 0 \<and> nm (de_name (entry bs k)) = key"

definition dir_slot :: "byte list \<Rightarrow> byte list \<Rightarrow> nat option" where
  "dir_slot bs key = find (entry_is bs key) [0..<nents bs]"

definition dir_map :: "byte list \<Rightarrow> byte list \<Rightarrow> nat option" where
  "dir_map bs key = map_option (\<lambda>k. de_inum (entry bs k)) (dir_slot bs key)"

text \<open>The slot that \<open>dirlink\<close> uses: the first free one, or the end.\<close>

definition free_slot :: "byte list \<Rightarrow> nat" where
  "free_slot bs = (case find (\<lambda>k. de_inum (entry bs k) = 0) [0..<nents bs] of Some k \<Rightarrow> k | None \<Rightarrow> nents bs)"

definition dir_at :: "'z fs_st_scheme \<Rightarrow> nat \<Rightarrow> byte list" where
  "dir_at s dp = file_bytes (view s) (inodes s dp)"

text \<open>A directory that the process works on, in an operation with room for \<open>r\<close> blocks in the log.\<close>

definition dir_ok :: "'z fs_st_scheme \<Rightarrow> nat \<Rightarrow> nat \<Rightarrow> nat \<Rightarrow> bool" where
  "dir_ok s dp nb r \<longleftrightarrow> in_op s r \<and> i_type (inodes s dp) = T_DIR \<and> sized_blocks (disksize s) (view s) (inodes s dp) nb
     \<and> i_size (inodes s dp) mod sizeof_dirent = 0"

lemma dir_ok_frame:
  assumes "dir_ok s dp nb r" and "in_op u r" and "view u = view s" and "log_frame s u"
  shows "dir_ok u dp nb r" and "dir_at u dp = dir_at s dp"
  using assms by (simp_all add: dir_ok_def dir_at_def log_frame_fields log_frame_fs)

lemma dir_length:
  assumes "dir_ok s dp nb r"
  shows "length (dir_at s dp) = i_size (inodes s dp)" and "i_size (inodes s dp) = sizeof_dirent * nents (dir_at s dp)"
    and "sizeof_dirent * nents (dir_at s dp) < 2 ^ 32"
proof -
  show l: "length (dir_at s dp) = i_size (inodes s dp)" by (simp add: dir_at_def file_bytes_def)
  show e: "i_size (inodes s dp) = sizeof_dirent * nents (dir_at s dp)"
    using assms by (simp add: dir_ok_def nents_def l minus_mod_eq_mult_div [symmetric])
  show "sizeof_dirent * nents (dir_at s dp) < 2 ^ 32"
    unfolding e [symmetric] using assms by (intro sized_small) (auto simp: dir_ok_def)
qed

lemma read_entry:
  fixes s :: "'z fs_st_scheme"
  assumes d: "dir_ok s dp nb (Suc r)" and k: "k < nents (dir_at s dp)"
  obtains u where "readi dv dp (sizeof_dirent * k) sizeof_dirent s = Ok (int sizeof_dirent, entry (dir_at s dp) k) u"
    and "dir_ok u dp nb (Suc r)" and "view u = view s" and "log_frame s u"
proof -
  let ?o = "sizeof_dirent * k"
  note len = dir_length [OF d]
  have "sizeof_dirent * (k + 1) \<le> sizeof_dirent * nents (dir_at s dp)" using k by (intro mult_le_mono2) simp
  then have le: "?o + sizeof_dirent \<le> i_size (inodes s dp)" unfolding len(2) by simp
  have h: "in_op s (Suc r)" "i_type (inodes s dp) \<noteq> T_DEV" "sized_blocks (disksize s) (view s) (inodes s dp) nb"
    using d by (simp_all add: dir_ok_def T_DIR_def T_DEV_def)
  have o: "?o < 2 ^ 32" "sizeof_dirent < 2 ^ 32" "?o + sizeof_dirent < 2 ^ 32" using le len(2,3) by (simp_all add: sizeof_dirent_def)
  from readi_spec [OF h o(1,2), of dv] le o(3) obtain u where
    u: "in_op u (Suc r)" "view u = view s" "log_frame s u"
      "readi dv dp ?o sizeof_dirent s = Ok (int (length (entry (dir_at s dp) k)), entry (dir_at s dp) k) u"
    unfolding entry_def dir_at_def by auto
  moreover have "length (entry (dir_at s dp) k) = sizeof_dirent" using le by (simp add: entry_def len(1))
  ultimately show thesis using that dir_ok_frame(1) [OF d] by simp
qed

section \<open>Lookup\<close>

lemma find_upt_step: "k < n \<Longrightarrow> find P [k..<n] = (if P k then Some k else find P [Suc k..<n])"
  by (simp add: upt_rec)

lemma dirlookup_loop_spec:
  fixes s :: "'z fs_st_scheme"
  assumes "dir_ok s dp nb (Suc r)" and "k \<le> nents (dir_at s dp)"
  shows "\<exists>u. dir_ok u dp nb (Suc r) \<and> view u = view s \<and> log_frame s u
    \<and> dirlookup_loop dv dp name (i_size (inodes s dp)) (sizeof_dirent * k) s =
      (case find (entry_is (dir_at s dp) (nm name)) [k..<nents (dir_at s dp)] of
         None \<Rightarrow> Ok None u
       | Some j \<Rightarrow> bnd (iget 1 (de_inum (entry (dir_at s dp) j))) (\<lambda>ip. ret (Some (ip, sizeof_dirent * j))) u)"
  using assms
proof (induction "nents (dir_at s dp) - k" arbitrary: k s)
  case 0
  then have "k = nents (dir_at s dp)" by simp
  with 0 dir_length(2) [OF "0.prems"(1)] show ?case by (intro exI [of _ s]) (simp add: dirlookup_loop.simps)
next
  case (Suc m)
  let ?b = "dir_at s dp" and ?sz = "i_size (inodes s dp)"
  have k: "k < nents ?b" using Suc.hyps(2) by simp
  have off: "sizeof_dirent * k < ?sz" unfolding dir_length(2) [OF Suc.prems(1)] using k by (simp add: sizeof_dirent_def)
  have nx: "sizeof_dirent * k + sizeof_dirent = sizeof_dirent * Suc k" by simp
  obtain t where t: "readi dv dp (sizeof_dirent * k) sizeof_dirent s = Ok (int sizeof_dirent, entry ?b k) t"
    "dir_ok t dp nb (Suc r)" "view t = view s" "log_frame s t" by (rule read_entry [OF Suc.prems(1) k])
  have same: "dir_at t dp = ?b" "i_size (inodes t dp) = ?sz" "i_dev (inodes t dp) = 1"
    using t(2-4) by (simp_all add: dir_at_def log_frame_fs dir_ok_def sized_blocks_def has_blocks_def)
  show ?case
  proof (cases "entry_is ?b (nm name) k")
    case True
    then have "dirlookup_loop dv dp name ?sz (sizeof_dirent * k) s =
        bnd (iget 1 (de_inum (entry ?b k))) (\<lambda>ip. ret (Some (ip, sizeof_dirent * k))) t"
      using off t(1) same(3)
      by (subst dirlookup_loop.simps) (simp add: entry_is_def namecmp_eq nm_def ip_at_def)
    with True t(2-4) show ?thesis by (auto simp: find_upt_step [OF k])
  next
    case False
    then have step: "dirlookup_loop dv dp name ?sz (sizeof_dirent * k) s = dirlookup_loop dv dp name ?sz (sizeof_dirent * Suc k) t"
      using off t(1)
      by (subst dirlookup_loop.simps) (auto simp: entry_is_def namecmp_eq nm_def nx)
    have h: "m = nents (dir_at t dp) - Suc k" "Suc k \<le> nents (dir_at t dp)" using Suc.hyps(2) k unfolding same(1) by simp_all
    from Suc.hyps(1) [OF h(1) t(2) h(2)] obtain u where u: "dir_ok u dp nb (Suc r)" "view u = view t" "log_frame t u"
      "dirlookup_loop dv dp name ?sz (sizeof_dirent * Suc k) t =
        (case find (entry_is ?b (nm name)) [Suc k..<nents ?b] of None \<Rightarrow> Ok None u
         | Some j \<Rightarrow> bnd (iget 1 (de_inum (entry ?b j))) (\<lambda>ip. ret (Some (ip, sizeof_dirent * j))) u)"
      unfolding same by blast
    with step False t(3) log_frame_trans [OF t(4) u(3)] show ?thesis
      unfolding find_upt_step [OF k] by (intro exI [of _ u]) simp
  qed
qed

lemma dirlookup_slot:
  fixes s :: "'z fs_st_scheme"
  assumes "dir_ok s dp nb (Suc r)"
  obtains u where "dir_ok u dp nb (Suc r)" and "view u = view s" and "log_frame s u"
    and "dirlookup dv dp name s = (case dir_slot (dir_at s dp) (nm name) of
         None \<Rightarrow> Ok None u
       | Some j \<Rightarrow> bnd (iget 1 (de_inum (entry (dir_at s dp) j))) (\<lambda>ip. ret (Some (ip, sizeof_dirent * j))) u)"
proof -
  from dirlookup_loop_spec [OF assms, of 0 dv name] obtain u where
    u: "dir_ok u dp nb (Suc r)" "view u = view s" "log_frame s u"
      "dirlookup_loop dv dp name (i_size (inodes s dp)) 0 s = (case dir_slot (dir_at s dp) (nm name) of
         None \<Rightarrow> Ok None u
       | Some j \<Rightarrow> bnd (iget 1 (de_inum (entry (dir_at s dp) j))) (\<lambda>ip. ret (Some (ip, sizeof_dirent * j))) u)"
    unfolding dir_slot_def by (simp only: mult_0_right le0) blast
  moreover have "dirlookup dv dp name s = dirlookup_loop dv dp name (i_size (inodes s dp)) 0 s"
    using assms by (simp add: dirlookup_def ip_at_def dir_ok_def)
  ultimately show thesis by (intro that) simp_all
qed

section \<open>The inode cache\<close>

text \<open>What \<open>iget\<close> does to the cache entry it returns.\<close>

definition got :: "nat \<Rightarrow> nat \<Rightarrow> inode \<Rightarrow> inode \<Rightarrow> bool" where
  "got d inum x y \<longleftrightarrow> (if i_ref x > 0 then i_dev x = d \<and> i_inum x = inum \<and> y = x\<lparr>i_ref := i_ref x + 1\<rparr>
     else i_ref x = 0 \<and> y = x\<lparr>i_dev := d, i_inum := inum, i_ref := 1, i_valid := False\<rparr>)"

definition set_ip :: "nat \<Rightarrow> inode \<Rightarrow> 'z fs_st_scheme \<Rightarrow> 'z fs_st_scheme" where
  "set_ip ip y s = s\<lparr>inodes := (inodes s)(ip := y)\<rparr>"

lemma iget_spec:
  assumes "\<exists>i < NINODE. i_ref (inodes s i) = 0"
  obtains ip y where "iget d inum s = Ok ip (set_ip ip y s)" and "ip < NINODE" and "got d inum (inodes s ip) y"
    and "\<forall>i < NINODE. i_ref (inodes s i) > 0 \<and> i_dev (inodes s i) = d \<and> i_inum (inodes s i) = inum \<longrightarrow> i_ref (inodes s ip) > 0"
proof (cases "find (\<lambda>i. i_ref (inodes s i) > 0 \<and> i_dev (inodes s i) = d \<and> i_inum (inodes s i) = inum) [0..<NINODE]")
  case None
  obtain ip where ip: "find (\<lambda>i. i_ref (inodes s i) = 0) [0..<NINODE] = Some ip"
    using assms by (cases "find (\<lambda>i. i_ref (inodes s i) = 0) [0..<NINODE]") (auto simp: find_None_iff)
  then have "ip < NINODE" "i_ref (inodes s ip) = 0" by (auto simp: find_Some_iff)
  with None [unfolded find_None_iff] None ip show ?thesis
    by (intro that [of ip "(inodes s ip)\<lparr>i_dev := d, i_inum := inum, i_ref := 1, i_valid := False\<rparr>"])
      (simp_all add: iget_def upd_ip_def got_def set_ip_def)
next
  case (Some ip)
  then have "ip < NINODE" "i_ref (inodes s ip) > 0" "i_dev (inodes s ip) = d" "i_inum (inodes s ip) = inum"
    by (auto simp: find_Some_iff)
  with Some show ?thesis
    by (intro that [of ip "(inodes s ip)\<lparr>i_ref := i_ref (inodes s ip) + 1\<rparr>"])
      (simp_all add: iget_def upd_ip_def got_def set_ip_def)
qed

lemma set_ip_simps [simp]:
  "view (set_ip ip y s) = view s" "in_op (set_ip ip y s) r = in_op s r" "disksize (set_ip ip y s) = disksize s"
  "sb (set_ip ip y s) = sb s" "inodes (set_ip ip y s) = (inodes s)(ip := y)" "slocks (set_ip ip y s) = slocks s"
  by (simp_all add: set_ip_def in_op_def cache_inv_def view_def [abs_def] dirtyb_def heldb_def running_def curpid_def
      this_proc_def cong: option.case_cong)

section \<open>Writing at the end of a file\<close>

text \<open>The inode block of the file is on the disk and is none of the file's blocks.\<close>

definition ino_apart :: "'z fs_st_scheme \<Rightarrow> nat \<Rightarrow> nat \<Rightarrow> bool" where
  "ino_apart s ip nb \<longleftrightarrow> length (addrs (inodes s ip)) = NDIRECT + 1
     \<and> IBLOCK (i_inum (inodes s ip)) (sb s) < disksize s \<and> length (view s (IBLOCK (i_inum (inodes s ip)) (sb s))) = BSIZE
     \<and> IBLOCK (i_inum (inodes s ip)) (sb s) \<notin> blk (view s) (inodes s ip) ` {..<nb}
     \<and> (NDIRECT < nb \<longrightarrow> IBLOCK (i_inum (inodes s ip)) (sb s) \<noteq> addrs (inodes s ip) ! NDIRECT)"

lemma blk_size [simp]: "blk v (x\<lparr>i_size := n\<rparr>) = blk v x" "file_byte v (x\<lparr>i_size := n\<rparr>) = file_byte v x"
  by (simp_all add: blk_def file_byte_def fun_eq_iff)

lemma file_byte_other:
  assumes "k \<notin> blk v x ` {..<n}" and "NDIRECT < n \<longrightarrow> k \<noteq> addrs x ! NDIRECT" and "i < n * BSIZE"
  shows "file_byte (v(k := b)) x i = file_byte v x i"
proof -
  have n: "i div BSIZE < n" using assms(3) by (simp add: less_mult_imp_div_less)
  then have "blk (v(k := b)) x (i div BSIZE) = blk v x (i div BSIZE)" using assms(2) by (auto simp: blk_def)
  moreover have "blk v x (i div BSIZE) \<noteq> k" using assms(1) n by auto
  ultimately show ?thesis by (simp add: file_byte_def)
qed

lemma file_bytes_wrote:
  assumes "wrote n x off src v v'" and "off \<le> i_size x" and "sz = max (i_size x) (off + length src)" and "sz \<le> n * BSIZE"
  shows "map (file_byte v' x) [0..<sz] = bput (file_bytes v x) off src"
proof (rule nth_equalityI)
  show "length (map (file_byte v' x) [0..<sz]) = length (bput (file_bytes v x) off src)"
    using assms(2,3) by (auto simp: bput_def file_bytes_def)
  fix i assume "i < length (map (file_byte v' x) [0..<sz])"
  then have i: "i < sz" "i < n * BSIZE" using assms(4) by simp_all
  then show "map (file_byte v' x) [0..<sz] ! i = bput (file_bytes v x) off src ! i"
    using assms(1-3) by (auto simp: wrote_def bput_def file_bytes_def nth_append)
qed

lemma writei_grows:
  fixes s :: "'z fs_st_scheme"
  assumes op: "in_op s (nblk off (length src) + Suc r)" and ty: "i_type (inodes s ip) \<noteq> T_DEV"
    and sz: "sized_blocks (disksize s) (view s) (inodes s ip) nb" and own: "own_blocks (view s) (inodes s ip) nb"
    and ia: "ino_apart s ip nb" and off: "off \<le> i_size (inodes s ip)" "i_size (inodes s ip) < off + length src"
      "off + length src \<le> nb * BSIZE"
  obtains u where "writei dv ip off src s = Ok (int (length src)) u" and "in_op u r"
    and "inodes u = (inodes s)(ip := (inodes s ip)\<lparr>i_size := off + length src\<rparr>)"
    and "file_bytes (view u) (inodes u ip) = bput (file_bytes (view s) (inodes s ip)) off src"
    and "\<forall>k. k \<notin> blk (view s) (inodes s ip) ` {..<nb} \<longrightarrow> k \<noteq> IBLOCK (i_inum (inodes s ip)) (sb s) \<longrightarrow> view u k = view s k"
proof -
  let ?x = "inodes s ip" and ?n = "length src"
  let ?y = "?x\<lparr>i_size := off + ?n\<rparr>" and ?K = "IBLOCK (i_inum ?x) (sb s)"
  have hb: "has_blocks (disksize s) (view s) ?x nb" "nb \<le> MAXFILE" using sz by (auto simp: sized_blocks_def has_blocks_def)
  have mx: "off + ?n \<le> MAXFILE * BSIZE" using off(3) hb(2) by (meson le_trans mult_le_mono1)
  then have sm: "(off + ?n) mod 2 ^ 32 = off + ?n" by (simp add: MAXFILE_def NDIRECT_def NINDIRECT_def BSIZE_def)
  from writei_loop_spec [OF op hb(1) own off(3)] obtain t where
    t: "writei_loop ip off src s = Ok () t" "in_op t (Suc r)" "log_frame s t" "wrote nb ?x off src (view s) (view t)" by blast
  note ft = log_frame_fs [OF t(3)] log_frame_fields(1) [OF t(3)]
  have K: "view t ?K = view s ?K" using t(4) ia by (simp add: wrote_def ino_apart_def)
  let ?t = "set_ip ip ?y t"
  have h: "in_op ?t (Suc r)" "length (addrs (inodes ?t ip)) = NDIRECT + 1" "i_dev (inodes ?t ip) = 1"
    "IBLOCK (i_inum (inodes ?t ip)) (sb ?t) < disksize ?t" "length (view ?t (IBLOCK (i_inum (inodes ?t ip)) (sb ?t))) = BSIZE"
    using t(2) ia hb K by (simp_all add: ft ino_apart_def has_blocks_def)
  obtain u where u: "iupdate ip ?t = Ok () u" "in_op u r" "log_frame ?t u"
    "view u = (view ?t)(?K := put_inode ?y (doff (i_inum ?x)) (view ?t ?K))"
    by (rule iupdate_spec [OF h]) (simp add: ft)
  have iu: "inodes u = (inodes s)(ip := ?y)" using log_frame_fs(2) [OF u(3)] by (simp add: ft)
  have "src \<noteq> []" using off by auto
  then have "writei dv ip off src s = Ok (int ?n) u"
    using ty off t(1) u(1) mx unfolding writei_def ip_at_def bnd_def getk_def sm Let_def
    by (simp add: ft upd_ip_def set_ip_def)
  moreover have "file_bytes (view u) (inodes u ip) = bput (file_bytes (view s) ?x) off src"
  proof -
    have a: "?K \<notin> blk (view t) ?x ` {..<nb}" "NDIRECT < nb \<longrightarrow> ?K \<noteq> addrs ?x ! NDIRECT"
      using ia t(4) by (auto simp: ino_apart_def wrote_def)
    have "map (file_byte (view u) ?x) [0..<off + ?n] = map (file_byte (view t) ?x) [0..<off + ?n]"
      using off(3) file_byte_other [OF a] by (simp add: u(4))
    also have "\<dots> = bput (file_bytes (view s) ?x) off src" by (rule file_bytes_wrote [OF t(4)]) (use off in simp_all)
    finally show ?thesis by (simp add: iu file_bytes_def)
  qed
  moreover have "\<forall>k. k \<notin> blk (view s) ?x ` {..<nb} \<longrightarrow> k \<noteq> ?K \<longrightarrow> view u k = view s k"
    using t(4) by (simp add: u(4) wrote_def)
  ultimately show thesis using that u(2) iu by blast
qed

section \<open>Adding an entry\<close>

lemma empty_dirent_spec:
  fixes s :: "'z fs_st_scheme"
  assumes "dir_ok s dp nb (Suc r)" and "k \<le> nents (dir_at s dp)"
  shows "\<exists>u. dir_ok u dp nb (Suc r) \<and> view u = view s \<and> log_frame s u
    \<and> empty_dirent dv dp (i_size (inodes s dp)) (sizeof_dirent * k) s =
      Ok (sizeof_dirent * (case find (\<lambda>k. de_inum (entry (dir_at s dp) k) = 0) [k..<nents (dir_at s dp)] of
            Some j \<Rightarrow> j | None \<Rightarrow> nents (dir_at s dp))) u"
  using assms
proof (induction "nents (dir_at s dp) - k" arbitrary: k s)
  case 0
  then have "k = nents (dir_at s dp)" by simp
  with 0 dir_length(2) [OF "0.prems"(1)] show ?case by (intro exI [of _ s]) (simp add: empty_dirent.simps)
next
  case (Suc m)
  let ?b = "dir_at s dp" and ?sz = "i_size (inodes s dp)"
  have k: "k < nents ?b" using Suc.hyps(2) by simp
  have off: "sizeof_dirent * k < ?sz" unfolding dir_length(2) [OF Suc.prems(1)] using k by (simp add: sizeof_dirent_def)
  have nx: "sizeof_dirent * k + sizeof_dirent = sizeof_dirent * Suc k" by simp
  obtain t where t: "readi dv dp (sizeof_dirent * k) sizeof_dirent s = Ok (int sizeof_dirent, entry ?b k) t"
    "dir_ok t dp nb (Suc r)" "view t = view s" "log_frame s t" by (rule read_entry [OF Suc.prems(1) k])
  have same: "dir_at t dp = ?b" "i_size (inodes t dp) = ?sz" using t(2-4) by (simp_all add: dir_at_def log_frame_fs)
  show ?case
  proof (cases "de_inum (entry ?b k) = 0")
    case True
    then have "empty_dirent dv dp ?sz (sizeof_dirent * k) s = Ok (sizeof_dirent * k) t"
      using off t(1) by (subst empty_dirent.simps) simp
    with True t(2-4) show ?thesis by (auto simp: find_upt_step [OF k])
  next
    case False
    then have step: "empty_dirent dv dp ?sz (sizeof_dirent * k) s = empty_dirent dv dp ?sz (sizeof_dirent * Suc k) t"
      using off t(1) by (subst empty_dirent.simps) (simp add: nx)
    have h: "m = nents (dir_at t dp) - Suc k" "Suc k \<le> nents (dir_at t dp)" using Suc.hyps(2) k unfolding same(1) by simp_all
    from Suc.hyps(1) [OF h(1) t(2) h(2)] obtain u where u: "dir_ok u dp nb (Suc r)" "view u = view t" "log_frame t u"
      "empty_dirent dv dp ?sz (sizeof_dirent * Suc k) t =
        Ok (sizeof_dirent * (case find (\<lambda>k. de_inum (entry ?b k) = 0) [Suc k..<nents ?b] of Some j \<Rightarrow> j | None \<Rightarrow> nents ?b)) u"
      unfolding same by blast
    with step False t(3) log_frame_trans [OF t(4) u(3)] show ?thesis
      unfolding find_upt_step [OF k] by (intro exI [of _ u]) simp
  qed
qed

lemma free_slot_facts:
  shows "free_slot bs \<le> nents bs" and "free_slot bs < nents bs \<Longrightarrow> de_inum (entry bs (free_slot bs)) = 0"
  by (auto simp: free_slot_def find_Some_iff split: option.split)

lemma entry_bput:
  assumes "length bs = sizeof_dirent * n" and "k \<le> n" and "length e = sizeof_dirent"
  shows "nents (bput bs (sizeof_dirent * k) e) = max n (Suc k)"
    and "j < max n (Suc k) \<Longrightarrow> entry (bput bs (sizeof_dirent * k) e) j = (if j = k then e else entry bs j)"
proof -
  have n: "sizeof_dirent * k \<le> length bs" using assms(1,2) by simp
  have e: "length (bput bs (sizeof_dirent * k) e) = sizeof_dirent * max n (Suc k)"
    using assms by (simp add: bput_def sizeof_dirent_def max_def)
  then show "nents (bput bs (sizeof_dirent * k) e) = max n (Suc k)" by (simp add: nents_def sizeof_dirent_def)
  assume j: "j < max n (Suc k)"
  consider "j < k" | "j = k" | "k < j" by linarith
  then show "entry (bput bs (sizeof_dirent * k) e) j = (if j = k then e else entry bs j)"
  proof cases
    case 1
    then have "sizeof_dirent * j + sizeof_dirent \<le> sizeof_dirent * k" by (simp add: sizeof_dirent_def)
    with 1 n assms(3) show ?thesis by (simp add: entry_def bput_def drop_take)
  next
    case 2
    with n assms(3) show ?thesis by (simp add: entry_def bput_def)
  next
    case 3
    then have "drop (sizeof_dirent * j) (bput bs (sizeof_dirent * k) e) = drop (sizeof_dirent * j) bs"
      using n assms(3) by (simp add: bput_def sizeof_dirent_def)
    with 3 show ?thesis by (simp add: entry_def)
  qed
qed

lemma find_upt_ext: "k \<le> n \<Longrightarrow> \<not> P k \<Longrightarrow> find P [0..<max n (Suc k)] = find P [0..<n]"
proof (cases "k = n")
  case True
  assume "\<not> P k"
  with True show ?thesis by (simp add: find_append split: option.split)
next
  case False
  assume "k \<le> n"
  with False have "max n (Suc k) = n" by simp
  then show ?thesis by simp
qed

lemma dir_map_added:
  assumes bs: "length bs = sizeof_dirent * nents bs" and i: "inum < 2 ^ 16" "inum \<noteq> 0" and none: "dir_map bs (nm name) = None"
  shows "dir_map (bput bs (sizeof_dirent * free_slot bs) (enc_dirent inum name)) = (dir_map bs)(nm name \<mapsto> inum)"
proof (rule ext)
  fix key
  let ?k = "free_slot bs" and ?e = "enc_dirent inum name" and ?n = "nents bs"
  let ?c = "bput bs (sizeof_dirent * ?k) ?e"
  note E = dirent_roundtrip [OF i(1), of name]
  have e: "length ?e = sizeof_dirent" "de_inum ?e = inum" "nm (de_name ?e) = nm name"
    using E [of name] E [of "de_name ?e"] by (auto simp: namecmp_eq nm_def)
  note F = free_slot_facts [of bs]
  note B = entry_bput [OF bs F(1) e(1)]
  have off: "\<not> entry_is bs key' ?k" if "?k < ?n" for key' using F(2) that by (simp add: entry_is_def)
  have slot: "dir_slot ?c key = (if key = nm name then Some ?k else dir_slot bs key)"
  proof (cases "key = nm name")
    case True
    have "\<not> entry_is bs (nm name) j" if "j < ?n" for j
      using none that by (auto simp: dir_map_def dir_slot_def find_None_iff)
    moreover have "j < ?n" if "j < max ?n (Suc ?k)" "j \<noteq> ?k" for j using that F(1) by auto
    ultimately have "entry_is ?c key j \<longleftrightarrow> j = ?k" if "j < max ?n (Suc ?k)" for j
      using B(2) [OF that] e i(2) that True unfolding entry_is_def by metis
    then have "dir_slot ?c key = Some ?k"
      unfolding dir_slot_def B(1) by (auto simp: find_Some_iff intro!: exI [of _ ?k])
    with True show ?thesis by simp
  next
    case False
    have "find (entry_is ?c key) [0..<max ?n (Suc ?k)] = find (\<lambda>j. j \<noteq> ?k \<and> entry_is bs key j) [0..<max ?n (Suc ?k)]"
      using B(2) False e by (intro find_cong_set) (auto simp: entry_is_def)
    also have "\<dots> = find (\<lambda>j. j \<noteq> ?k \<and> entry_is bs key j) [0..<?n]" by (rule find_upt_ext [OF F(1)]) simp
    also have "\<dots> = find (entry_is bs key) [0..<?n]" using off by (intro find_cong_set) auto
    finally show ?thesis using False by (simp add: dir_slot_def B(1))
  qed
  show "dir_map ?c key = ((dir_map bs)(nm name \<mapsto> inum)) key"
  proof (cases "key = nm name")
    case True
    then show ?thesis using slot B(2) [of ?k] e by (simp add: dir_map_def)
  next
    case False
    have "entry ?c j = entry bs j" if "dir_slot bs key = Some j" for j
    proof -
      from that have "j < ?n" "entry_is bs key j" by (auto simp: dir_slot_def find_Some_iff)
      then show ?thesis using B(2) [of j] off by auto
    qed
    with False slot show ?thesis by (cases "dir_slot bs key") (simp_all add: dir_map_def)
  qed
qed

lemma in_op_mono: "in_op s (Suc r) \<Longrightarrow> in_op s r"
  by (auto simp: in_op_def)

lemma nblk_entry: "nblk (sizeof_dirent * k) sizeof_dirent = 1"
proof -
  have "sizeof_dirent * k mod BSIZE = 16 * (k mod 32)" using mult_mod_right [of 16 k 32] by (simp add: sizeof_dirent_def BSIZE_def)
  moreover have "k mod 32 \<le> 31" using mod_less_divisor [of 32 k] by linarith
  ultimately have "(sizeof_dirent * k + 15) div BSIZE = sizeof_dirent * k div BSIZE" by (intro within_block) (simp add: BSIZE_def)
  then show ?thesis by (simp add: nblk_def sizeof_dirent_def add.commute)
qed

lemma write_entry:
  fixes s :: "'z fs_st_scheme"
  assumes d: "dir_ok s dp nb (Suc (Suc r))" and own: "own_blocks (view s) (inodes s dp) nb" and ia: "ino_apart s dp nb"
    and k: "k \<le> nents (dir_at s dp)" "sizeof_dirent * Suc k \<le> nb * BSIZE" and e: "length e = sizeof_dirent"
  obtains u where "writei dv dp (sizeof_dirent * k) e s = Ok (int sizeof_dirent) u" and "in_op u r"
    and "dir_at u dp = bput (dir_at s dp) (sizeof_dirent * k) e" and "\<forall>ip. ip \<noteq> dp \<longrightarrow> inodes u ip = inodes s ip"
    and "\<forall>j. j \<notin> blk (view s) (inodes s dp) ` {..<nb} \<longrightarrow> j \<noteq> IBLOCK (i_inum (inodes s dp)) (sb s) \<longrightarrow> view u j = view s j"
proof -
  let ?o = "sizeof_dirent * k" and ?sz = "i_size (inodes s dp)"
  note len = dir_length [OF d]
  have h: "i_type (inodes s dp) \<noteq> T_DEV" "sized_blocks (disksize s) (view s) (inodes s dp) nb"
    using d by (simp_all add: dir_ok_def T_DIR_def T_DEV_def)
  have op: "in_op s (nblk ?o (length e) + Suc r)" using d e nblk_entry [of k] by (simp add: dir_ok_def)
  have o: "?o \<le> ?sz" using k(1) unfolding len(2) by simp
  show thesis
  proof (cases "?o + sizeof_dirent \<le> ?sz")
    case True
    then have "?o + length e \<le> ?sz" using e by simp
    from writei_spec [OF op h own this, of dv] obtain u where
      u: "writei dv dp ?o e s = Ok (int (length e)) u" "in_op u (Suc r)" "log_frame s u"
        "file_bytes (view u) (inodes u dp) = bput (file_bytes (view s) (inodes s dp)) ?o e"
        "\<forall>k. k \<notin> blk (view s) (inodes s dp) ` {..<nb} \<longrightarrow> view u k = view s k" by blast
    show thesis by (rule that [of u]) (use u e log_frame_fs(2) [OF u(3)] in \<open>simp_all add: in_op_mono dir_at_def\<close>)
  next
    case False
    then have b: "?sz < ?o + length e" "?o + length e \<le> nb * BSIZE" using k(2) e by simp_all
    obtain u where u: "writei dv dp ?o e s = Ok (int (length e)) u" "in_op u r"
      "inodes u = (inodes s)(dp := (inodes s dp)\<lparr>i_size := ?o + length e\<rparr>)"
      "file_bytes (view u) (inodes u dp) = bput (file_bytes (view s) (inodes s dp)) ?o e"
      "\<forall>k. k \<notin> blk (view s) (inodes s dp) ` {..<nb} \<longrightarrow> k \<noteq> IBLOCK (i_inum (inodes s dp)) (sb s) \<longrightarrow> view u k = view s k"
      by (rule writei_grows [OF op h own ia o b, of dv])
    show thesis by (rule that [of u]) (use u e in \<open>simp_all add: dir_at_def\<close>)
  qed
qed

section \<open>Properties\<close>


text \<open>A name that is there: the inode is got and put again.\<close>

lemma iput_only_ref:
  fixes s :: "'z fs_st_scheme"
  assumes "running s" and "\<not> slocked (slocks s (InodeSleep ip))"
    and "\<not> (i_valid (inodes s ip) \<and> i_nlink (inodes s ip) = 0 \<and> i_ref (inodes s ip) = 1)"
  obtains u where "iput ip s = Ok () u" and "view u = view s"
    and "inodes u = (inodes s)(ip := (inodes s ip)\<lparr>i_ref := i_ref (inodes s ip) - 1\<rparr>)"
proof -
  let ?s = "s\<lparr>slocks := (slocks s)(InodeSleep ip := \<lparr>slocked = False, spid = 0\<rparr>),
      procs := woken (SleeplockChan (InodeSleep ip)) (procs s)\<rparr>"
  let ?u = "?s\<lparr>inodes := (inodes s)(ip := (inodes s ip)\<lparr>i_ref := i_ref (inodes s ip) - 1\<rparr>)\<rparr>"
  have "acquiresleep (InodeSleep ip) s = Ok () (s\<lparr>slocks := (slocks s)(InodeSleep ip := \<lparr>slocked = True, spid = curpid s\<rparr>)\<rparr>)"
    using assms(1,2) by (simp add: acquiresleep_spec)
  moreover have "releasesleep (InodeSleep ip) (s\<lparr>slocks := (slocks s)(InodeSleep ip := \<lparr>slocked = True, spid = curpid s\<rparr>)\<rparr>) = Ok () ?s"
    by (simp add: releasesleep_spec)
  ultimately have "iput ip s = Ok () ?u"
    using assms(3) unfolding iput_def ip_at_def upd_ip_def by (simp del: de_Morgan_conj)
  moreover have "view ?u = view s" by (simp add: view_def [abs_def] cong: option.case_cong)
  ultimately show thesis using that by simp
qed

text \<open>Locks of the inode cache: an entry that is not in use is not locked.\<close>

definition icache_ok :: "'z fs_st_scheme \<Rightarrow> bool" where
  "icache_ok s \<longleftrightarrow> (\<exists>i < NINODE. i_ref (inodes s i) = 0)
     \<and> (\<forall>i < NINODE. i_ref (inodes s i) = 0 \<longrightarrow> \<not> slocked (slocks s (InodeSleep i)))"

text \<open>C37. Linking a name that is there already returns -1 and changes nothing on disk and no reference count, unless the
  name stands for the locked directory itself: there dirlink waits for a lock that its own process holds.\<close>

theorem dirlink_refuses:
  fixes s :: "'z fs_st_scheme"
  assumes d: "dir_ok s dp nb (Suc r)" and ic: "icache_ok s"
    and there: "dir_map (dir_at s dp) (nm name) = Some n"
    and lk: "\<forall>i < NINODE. i_ref (inodes s i) > 0 \<and> i_dev (inodes s i) = 1 \<and> i_inum (inodes s i) = n
      \<longrightarrow> slocked (slocks s (InodeSleep i)) = (n = i_inum (inodes s dp))"
    and dp: "dp < NINODE" "i_ref (inodes s dp) > 0"
  shows "if n = i_inum (inodes s dp) then dirlink dv dp name inum s = Block ''sleep lock''
    else \<exists>u. dirlink dv dp name inum s = Ok (- 1) u \<and> view u = view s \<and> (\<forall>i. i_ref (inodes u i) = i_ref (inodes s i))"
proof -
  from there obtain j where j: "dir_slot (dir_at s dp) (nm name) = Some j" "de_inum (entry (dir_at s dp) j) = n"
    by (auto simp: dir_map_def)
  obtain t where t: "dir_ok t dp nb (Suc r)" "view t = view s" "log_frame s t"
    "dirlookup dv dp name s = bnd (iget 1 n) (\<lambda>ip. ret (Some (ip, sizeof_dirent * j))) t"
    by (rule dirlookup_slot [OF d, of dv name]) (simp add: j)
  have st: "inodes t = inodes s" "slocks t (InodeSleep i) = slocks s (InodeSleep i)" for i
    using log_frame_fs [OF t(3)] t(3) by (simp_all add: log_frame_def)
  have rt: "running t" using t(1) by (simp add: dir_ok_def in_op_def cache_inv_def)
  have "\<exists>i < NINODE. i_ref (inodes t i) = 0" using ic by (simp add: icache_ok_def st)
  from iget_spec [OF this, of 1 n] obtain ip y where
    g: "iget 1 n t = Ok ip (set_ip ip y t)" "ip < NINODE" "got 1 n (inodes t ip) y"
      "\<forall>i < NINODE. i_ref (inodes t i) > 0 \<and> i_dev (inodes t i) = 1 \<and> i_inum (inodes t i) = n \<longrightarrow> i_ref (inodes t ip) > 0" by blast
  have link: "dirlink dv dp name inum s = bnd (iput ip) (\<lambda>_. ret (- 1)) (set_ip ip y t)"
    using t(4) g(1) by (simp add: dirlink_def)
  have rs: "running (set_ip ip y t)" using rt by (simp add: set_ip_def running_def this_proc_def cong: option.case_cong)
  show ?thesis
  proof (cases "n = i_inum (inodes s dp)")
    case True
    have "i_dev (inodes s dp) = 1" using d by (simp add: dir_ok_def sized_blocks_def has_blocks_def)
    then have "i_ref (inodes s ip) > 0" using g(4) dp True by (auto simp: st)
    then have "slocked (slocks (set_ip ip y t) (InodeSleep ip))" using g(2,3) lk True by (simp add: got_def st)
    then show ?thesis using link True rs by (simp add: iput_def acquiresleep_spec)
  next
    case False
    have un: "\<not> slocked (slocks (set_ip ip y t) (InodeSleep ip))"
      using g(2,3) lk ic False by (auto simp: got_def st icache_ok_def split: if_splits)
    have nt: "\<not> (i_valid (inodes (set_ip ip y t) ip) \<and> i_nlink (inodes (set_ip ip y t) ip) = 0 \<and> i_ref (inodes (set_ip ip y t) ip) = 1)"
      using g(3) by (auto simp: got_def split: if_splits)
    obtain u where u: "iput ip (set_ip ip y t) = Ok () u" "view u = view (set_ip ip y t)"
      "inodes u = (inodes (set_ip ip y t))(ip := (inodes (set_ip ip y t) ip)\<lparr>i_ref := i_ref (inodes (set_ip ip y t) ip) - 1\<rparr>)"
      by (rule iput_only_ref [OF rs un nt])
    have "i_ref (inodes u i) = i_ref (inodes s i)" for i using g(3) by (auto simp: u(3) st got_def split: if_splits)
    with u link False show ?thesis by (simp add: t(2))
  qed
qed

section \<open>A small directory for the witnesses\<close>

definition tiny_dir :: inode where
  "tiny_dir = \<lparr>i_dev = 1, i_inum = 3, i_ref = 1, i_valid = True, i_type = T_DIR, i_major = 0, i_minor = 0,
     i_nlink = 1, i_size = 32, addrs = 60 # replicate 12 0\<rparr>"

definition tiny_cache :: "nat \<Rightarrow> inode" where
  "tiny_cache i = (if i = 0 then tiny_dir else tiny_dir\<lparr>i_inum := 9, i_ref := 0\<rparr>)"

definition dir_img :: "byte list" where
  "dir_img = [3, 0, 46, 0, 0, 0, 0, 0, 0, 0, 0, 0, 0, 0, 0, 0, 5, 0, 97, 0, 0, 0, 0, 0, 0, 0, 0, 0, 0, 0, 0, 0]"

definition dir_disk :: "nat \<Rightarrow> byte list" where
  "dir_disk k = (if k = 60 then dir_img @ replicate 480 0 else replicate 512 0)"

lemma dir_img_entries:
  "length dir_img = 32" "nents dir_img = 2"
  "entry dir_img 0 = [3, 0, 46, 0, 0, 0, 0, 0, 0, 0, 0, 0, 0, 0, 0, 0]" "entry dir_img 1 = [5, 0, 97, 0, 0, 0, 0, 0, 0, 0, 0, 0, 0, 0, 0, 0]"
  by (simp_all add: dir_img_def nents_def entry_def sizeof_dirent_def)

lemma dir_bytes: "file_bytes dir_disk tiny_dir = dir_img"
proof -
  have "file_byte dir_disk tiny_dir i = dir_img ! i" if "i < 32" for i
    using that by (simp add: file_byte_def blk_def tiny_dir_def dir_disk_def NDIRECT_def BSIZE_def nth_append dir_img_entries)
  then show ?thesis by (intro nth_equalityI) (simp_all add: file_bytes_def tiny_dir_def dir_img_entries)
qed

lemma nm_tiny: "nm [98] = [98]" "nm [97] = [97]" "nm [46, 0, 0, 0, 0, 0, 0, 0, 0, 0, 0, 0, 0, 0] = [46]" "nm [97, 0, 0, 0, 0, 0, 0, 0, 0, 0, 0, 0, 0, 0] = [97]"
proof -
  have "[0..<14] = [0, 1, 2, 3, 4, 5, 6, 7, 8, 9, 10, 11, 12, 13 :: nat]" by (simp add: upt_rec)
  then show "nm [98] = [98]" "nm [97] = [97]" "nm [46, 0, 0, 0, 0, 0, 0, 0, 0, 0, 0, 0, 0, 0] = [46]"
    "nm [97, 0, 0, 0, 0, 0, 0, 0, 0, 0, 0, 0, 0, 0] = [97]"
    by (simp_all add: nm_def cstrn_def cs_def DIRSIZ_def)
qed

lemma entry_is_tiny: "entry_is dir_img key 0 \<longleftrightarrow> key = [46]" "entry_is dir_img key 1 \<longleftrightarrow> key = [97]"
  "de_inum (entry dir_img 0) = 3" "de_inum (entry dir_img 1) = 5"
  unfolding entry_is_def dir_img_entries by (auto simp: de_inum_def get16_def de_name_def DIRSIZ_def nm_tiny)

lemma dir_tiny: "dir_map dir_img [97] = Some 5" "dir_map dir_img [98] = None" "free_slot dir_img = 2"
proof -
  have "[0..<2] = [0, 1 :: nat]" by (simp add: upt_rec)
  then show "dir_map dir_img [97] = Some 5" "dir_map dir_img [98] = None" "free_slot dir_img = 2"
    unfolding dir_map_def dir_slot_def free_slot_def dir_img_entries by (simp_all add: entry_is_tiny [unfolded One_nat_def])
qed

lemma dir_fs_exists:
  "\<exists>s :: fs_st. dir_ok s 0 1 10 \<and> view s = dir_disk \<and> disksize s = 1000 \<and> sb s = small_sb \<and> inodes s = tiny_cache"
proof -
  have "\<forall>k < 1000. length (dir_disk k) = BSIZE" by (simp add: dir_disk_def BSIZE_def dir_img_entries)
  from boot_fs_exists [OF this, of small_sb tiny_cache] obtain s :: fs_st where
    s: "in_op s 10" "view s = dir_disk" "disksize s = 1000" "sb s = small_sb" "inodes s = tiny_cache" by blast
  moreover have "sized_blocks 1000 dir_disk tiny_dir 1"
    by (simp add: sized_blocks_def has_blocks_def blk_def tiny_dir_def dir_disk_def NDIRECT_def MAXFILE_def NINDIRECT_def
        BSIZE_def dir_img_entries)
  ultimately have "dir_ok s 0 1 10" by (simp add: dir_ok_def tiny_cache_def) (simp add: tiny_dir_def sizeof_dirent_def)
  with s show ?thesis by blast
qed


theorem dirlink_refuses_witness:
  "\<exists>s :: fs_st. (\<exists>u. dirlink (\<lambda>_. None) 0 [97] 7 s = Ok (- 1) u) \<and> dir_map (dir_at s 0) [97] = Some 5"
proof -
  obtain s :: fs_st where s: "dir_ok s 0 1 (Suc 9)" "view s = dir_disk" "inodes s = tiny_cache"
    using dir_fs_exists by auto
  define t where "t = s\<lparr>slocks := (\<lambda>l. case l of InodeSleep i \<Rightarrow> \<lparr>slocked = (i = 0), spid = 1\<rparr> | _ \<Rightarrow> slocks s l)\<rparr>"
  have t: "dir_ok t 0 1 (Suc 9)" "view t = dir_disk" "inodes t = tiny_cache"
    using s by (simp_all add: t_def dir_ok_def in_op_def cache_inv_def view_def [abs_def] dirtyb_def heldb_def running_def curpid_def
        this_proc_def cong: option.case_cong)
  have ip: "inodes t 0 = tiny_dir" by (simp add: t(3) tiny_cache_def)
  have at: "dir_at t 0 = dir_img" by (simp add: dir_at_def t(2) ip dir_bytes)
  have lk: "slocked (slocks t (InodeSleep i)) \<longleftrightarrow> i = 0" for i by (simp add: t_def)
  have h: "icache_ok t" "dir_map (dir_at t 0) (nm [97]) = Some 5"
    "\<forall>i < NINODE. i_ref (inodes t i) > 0 \<and> i_dev (inodes t i) = 1 \<and> i_inum (inodes t i) = 5
      \<longrightarrow> slocked (slocks t (InodeSleep i)) = (5 = i_inum (inodes t 0))"
    "0 < NINODE" "i_ref (inodes t 0) > 0"
    by (auto simp: icache_ok_def lk t(3) at dir_tiny nm_tiny tiny_cache_def tiny_dir_def NINODE_def intro!: exI [of _ "1 :: nat"])
  have "5 \<noteq> i_inum (inodes t 0)" by (simp add: ip tiny_dir_def)
  with dirlink_refuses [OF t(1) h, of "\<lambda>_. None" 7] show ?thesis by (intro exI [of _ t]) (auto simp: at dir_tiny)
qed

end
