(* ===== verification/Mkfs.thy ===== *)
theory Mkfs
  imports DirSpec "HOL-Library.Monad_Syntax"
begin

text \<open>
  The program \<open>src/lab10xv6/xv6/mkfs.c\<close>, which builds the disk image that the kernel boots from.

  The image is a file of the host: \<open>img\<close> gives its sectors and \<open>nsects\<close> their number; reading beyond the end
  fails, writing there extends it.  An exit with an error and a failed \<open>assert\<close> are \<open>None\<close>.  A \<open>struct dinode\<close> in
  memory holds its numbers in Intel byte order; the fields of the record are the numbers these bytes stand
  for, so that \<open>xint\<close> and \<open>xshort\<close>, which go between the two, do not show.  A host file is the list of the pieces
  that \<open>read\<close> returns, or \<open>None\<close> when it cannot be opened.
\<close>

definition NINODES :: nat where "NINODES = 200"
definition nbitmap :: nat where "nbitmap = FSSIZE div (BSIZE * 8) + 1"
definition ninodeblocks :: nat where "ninodeblocks = NINODES div IPB + 1"
definition mk_nlog :: nat where "mk_nlog = LOGSIZE"
definition nmeta :: nat where "nmeta = 2 + mk_nlog + ninodeblocks + nbitmap"

definition mk_sb :: superblock where
  "mk_sb = \<lparr>sb_size = FSSIZE, nblocks = FSSIZE - nmeta, ninodes = NINODES, nlog = mk_nlog, logstart = 2,
     inodestart = 2 + mk_nlog, bmapstart = 2 + mk_nlog + ninodeblocks\<rparr>"

record mkst =
  img :: "nat \<Rightarrow> byte list"
  nsects :: nat
  freeinode :: nat
  freeblock :: nat

definition wsect :: "nat \<Rightarrow> byte list \<Rightarrow> mkst \<Rightarrow> mkst" where
  "wsect sec b st = st\<lparr>img := (img st)(sec := b), nsects := max (nsects st) (sec + 1)\<rparr>"

definition rsect :: "nat \<Rightarrow> mkst \<Rightarrow> byte list option" where
  "rsect sec st = (if sec < nsects st then Some (img st sec) else None)"

text \<open>The fields of \<open>struct inode\<close> that are not on disk are left alone by \<open>dec_inode\<close>; here they are blank.\<close>

definition blank :: inode where
  "blank = \<lparr>i_dev = 1, i_inum = 0, i_ref = 0, i_valid = True, i_type = 0, i_major = 0, i_minor = 0, i_nlink = 0,
     i_size = 0, addrs = replicate (NDIRECT + 1) 0\<rparr>"

definition winode :: "nat \<Rightarrow> inode \<Rightarrow> mkst \<Rightarrow> mkst option" where
  "winode inum din st = do {
     b \<leftarrow> rsect (IBLOCK inum mk_sb) st;
     Some (wsect (IBLOCK inum mk_sb) (put_inode din (doff inum) b) st) }"

definition rinode :: "nat \<Rightarrow> mkst \<Rightarrow> inode option" where
  "rinode inum st = do {
     b \<leftarrow> rsect (IBLOCK inum mk_sb) st;
     Some (dec_inode b (doff inum) blank) }"

definition mk_ialloc :: "int \<Rightarrow> mkst \<Rightarrow> (nat \<times> mkst) option" where
  "mk_ialloc ty st = do {
     let inum = freeinode st;
     st \<leftarrow> winode inum (blank\<lparr>i_type := ty, i_nlink := 1\<rparr>) (st\<lparr>freeinode := inum + 1\<rparr>);
     Some (inum, st) }"

fun mark_loop :: "nat \<Rightarrow> byte list" where
  "mark_loop 0 = replicate BSIZE 0"
| "mark_loop (Suc i) = mark_bit i (mark_loop i)"

definition mk_balloc :: "nat \<Rightarrow> mkst \<Rightarrow> mkst option" where
  "mk_balloc n st = (if n < BSIZE * 8 then Some (wsect (bmapstart mk_sb) (mark_loop n) st) else None)"

section \<open>Appending to a file\<close>

text \<open>The block of the file for \<open>fbn\<close>, taken from the free ones when there is none.\<close>

definition mk_block :: "nat \<Rightarrow> inode \<Rightarrow> mkst \<Rightarrow> (nat \<times> inode \<times> mkst) option" where
  "mk_block fbn din st =
     (if fbn < NDIRECT
      then if addrs din ! fbn = 0
           then Some (freeblock st, din\<lparr>addrs := (addrs din)[fbn := freeblock st]\<rparr>, st\<lparr>freeblock := freeblock st + 1\<rparr>)
           else Some (addrs din ! fbn, din, st)
      else do {
        let (din, st) = (if addrs din ! NDIRECT = 0
                         then (din\<lparr>addrs := (addrs din)[NDIRECT := freeblock st]\<rparr>, st\<lparr>freeblock := freeblock st + 1\<rparr>)
                         else (din, st));
        ind \<leftarrow> rsect (addrs din ! NDIRECT) st;
        if get32 ind (4 * (fbn - NDIRECT)) = 0
        then Some (freeblock st, din, wsect (addrs din ! NDIRECT) (put32 ind (4 * (fbn - NDIRECT)) (freeblock st))
                                        (st\<lparr>freeblock := freeblock st + 1\<rparr>))
        else Some (get32 ind (4 * (fbn - NDIRECT)), din, st) })"

function iappend_loop :: "inode \<Rightarrow> nat \<Rightarrow> byte list \<Rightarrow> mkst \<Rightarrow> (inode \<times> nat \<times> mkst) option" where
  "iappend_loop din off p st =
     (if 0 < length p
      then if off div BSIZE < MAXFILE
           then do {
             (x, din, st) \<leftarrow> mk_block (off div BSIZE) din st;
             let n1 = min (length p) ((off div BSIZE + 1) * BSIZE - off);
             b \<leftarrow> rsect x st;
             iappend_loop din (off + n1) (drop n1 p) (wsect x (bput b (off - off div BSIZE * BSIZE) (take n1 p)) st) }
           else None
      else Some (din, off, st))"
  by pat_completeness auto
termination
proof (relation "measure (\<lambda>(din, off, p, st). length p)", goal_cases)
  case (2 din off p st x y xa ya n1 b)
  have "off < (off div BSIZE + 1) * BSIZE" using dividend_less_div_times [of BSIZE off] by (simp add: BSIZE_def)
  with 2 show ?case by simp
qed simp

declare iappend_loop.simps [simp del]

definition iappend :: "nat \<Rightarrow> byte list \<Rightarrow> mkst \<Rightarrow> mkst option" where
  "iappend inum xp st = do {
     din \<leftarrow> rinode inum st;
     (din, off, st) \<leftarrow> iappend_loop din (i_size din) xp st;
     winode inum (din\<lparr>i_size := off\<rparr>) st }"

section \<open>The program\<close>

fun iappend_all :: "nat \<Rightarrow> byte list list \<Rightarrow> mkst \<Rightarrow> mkst option" where
  "iappend_all inum [] st = Some st"
| "iappend_all inum (b # bs) st = do { st \<leftarrow> iappend inum b st; iappend_all inum bs st }"

definition host_name :: "byte list \<Rightarrow> byte list" where
  "host_name arg = (if arg \<noteq> [] \<and> hd arg = 95 then tl arg else arg)"

definition add_file :: "nat \<Rightarrow> byte list \<times> byte list list option \<Rightarrow> mkst \<Rightarrow> mkst option" where
  "add_file rootino f st =
     (case f of (arg, fd) \<Rightarrow>
        if slash \<in> set arg then None
        else do {
          pieces \<leftarrow> fd;
          (inum, st) \<leftarrow> mk_ialloc T_FILE st;
          st \<leftarrow> iappend rootino (enc_dirent inum (host_name arg)) st;
          iappend_all inum pieces st })"

fun add_files :: "nat \<Rightarrow> (byte list \<times> byte list list option) list \<Rightarrow> mkst \<Rightarrow> mkst option" where
  "add_files rootino [] st = Some st"
| "add_files rootino (f # fs) st = do { st \<leftarrow> add_file rootino f st; add_files rootino fs st }"

definition sb_block :: "byte list" where
  "sb_block = bput (replicate BSIZE 0) 0 (concat (map enc32 [sb_size mk_sb, nblocks mk_sb, ninodes mk_sb, nlog mk_sb,
     logstart mk_sb, inodestart mk_sb, bmapstart mk_sb]))"

text \<open>The image after the loop that zeroes all sectors and the write of the superblock.\<close>

definition fresh_image :: mkst where
  "fresh_image = wsect 1 sb_block \<lparr>img = (\<lambda>_. replicate BSIZE 0), nsects = FSSIZE, freeinode = 1, freeblock = nmeta\<rparr>"

definition fix_root :: "nat \<Rightarrow> mkst \<Rightarrow> mkst option" where
  "fix_root rootino st = do {
     din \<leftarrow> rinode rootino st;
     winode rootino (din\<lparr>i_size := (i_size din div BSIZE + 1) * BSIZE\<rparr>) st }"

definition mkfs :: "(byte list \<times> byte list list option) list \<Rightarrow> mkst option" where
  "mkfs files = do {
     (rootino, st) \<leftarrow> mk_ialloc T_DIR fresh_image;
     if rootino = ROOTINO
     then do {
       st \<leftarrow> iappend rootino (enc_dirent rootino [46]) st;
       st \<leftarrow> iappend rootino (enc_dirent rootino [46, 46]) st;
       st \<leftarrow> add_files rootino files st;
       st \<leftarrow> fix_root rootino st;
       mk_balloc (freeblock st) st }
     else None }"

end
