(* ===== verification/MkfsSpec.thy ===== *)
theory MkfsSpec
  imports Mkfs
begin

text \<open>
  The image that \<open>mkfs\<close> builds, read with the kernel's own functions: \<open>dec_inode\<close> of \<open>ilock\<close>, \<open>file_bytes\<close> of \<open>readi\<close>,
  \<open>dir_map\<close> of \<open>dirlookup\<close> and the bitmap test \<open>used\<close> of \<open>balloc\<close>.

  \<open>mk_file st x n\<close>: inode \<open>x\<close> has exactly \<open>n\<close> blocks, all handed out, different from each other.  Blocks above
  \<open>freeblock\<close> are still zero.  \<open>iappend\<close> then appends to one file and leaves every other file alone.
\<close>

section \<open>Blocks of a file\<close>

definition owns :: "(nat \<Rightarrow> byte list) \<Rightarrow> inode \<Rightarrow> nat \<Rightarrow> nat set" where
  "owns v x n = blk v x ` {..<n} \<union> (if NDIRECT < n then {addrs x ! NDIRECT} else {})"

definition mk_img :: "mkst \<Rightarrow> bool" where
  "mk_img st \<longleftrightarrow> (\<forall>k. length (img st k) = BSIZE) \<and> (\<forall>k. freeblock st \<le> k \<longrightarrow> img st k = replicate BSIZE 0)
     \<and> nmeta \<le> freeblock st \<and> nsects st \<le> 2 ^ 32 \<and> nmeta \<le> nsects st"

definition mk_file :: "mkst \<Rightarrow> inode \<Rightarrow> nat \<Rightarrow> bool" where
  "mk_file st x n \<longleftrightarrow> length (addrs x) = NDIRECT + 1 \<and> n \<le> MAXFILE \<and> own_blocks (img st) x n
     \<and> owns (img st) x n \<subseteq> {nmeta..<freeblock st}
     \<and> (\<forall>bn. n \<le> bn \<and> bn < NDIRECT \<longrightarrow> addrs x ! bn = 0)
     \<and> (if n \<le> NDIRECT then addrs x ! NDIRECT = 0 else \<forall>bn. n \<le> bn \<and> bn < MAXFILE \<longrightarrow> blk (img st) x bn = 0)"

text \<open>The number of blocks that \<open>len\<close> bytes need, without and with the indirect block.\<close>

definition nb :: "nat \<Rightarrow> nat" where
  "nb len = (len + BSIZE - 1) div BSIZE"

definition cost :: "nat \<Rightarrow> nat" where
  "cost n = n + (if NDIRECT < n then 1 else 0)"

lemma cost_0 [simp]: "cost 0 = 0"
  by (simp add: cost_def)

lemma nmeta_pos: "0 < nmeta"
  by (simp add: nmeta_def)

lemma get32_zeroes: "k + 4 \<le> BSIZE \<Longrightarrow> get32 (replicate BSIZE 0) k = 0"
  by (simp add: get32_def)

lemma mk_block_old:
  assumes f: "mk_file st x n" and b: "bn < n" and s: "freeblock st \<le> nsects st"
  shows "mk_block bn x st = Some (blk (img st) x bn, x, st)"
proof -
  have "blk (img st) x bn \<in> owns (img st) x n" using b by (simp add: owns_def)
  then have z: "blk (img st) x bn \<noteq> 0" using f nmeta_pos by (auto simp: mk_file_def)
  show ?thesis
  proof (cases "bn < NDIRECT")
    case True
    with z show ?thesis by (simp add: mk_block_def blk_def)
  next
    case False
    then have "addrs x ! NDIRECT \<in> owns (img st) x n" using b by (simp add: owns_def)
    then have a: "addrs x ! NDIRECT \<noteq> 0" "addrs x ! NDIRECT < nsects st" using f s nmeta_pos by (auto simp: mk_file_def)
    with z False show ?thesis by (simp add: mk_block_def rsect_def blk_def)
  qed
qed

text \<open>The rest of the last block, after \<open>len\<close> bytes, is zero.\<close>

definition tail0 :: "(nat \<Rightarrow> byte list) \<Rightarrow> inode \<Rightarrow> nat \<Rightarrow> bool" where
  "tail0 v x len \<longleftrightarrow> (\<forall>i. len \<le> i \<and> i < nb len * BSIZE \<longrightarrow> file_byte v x i = 0)"

text \<open>A new block: the file gets the block \<open>k\<close>, everything else that was handed out stays as it is.\<close>

definition extends :: "mkst \<Rightarrow> inode \<Rightarrow> nat \<Rightarrow> nat \<Rightarrow> inode \<Rightarrow> mkst \<Rightarrow> bool" where
  "extends st x n k x' st' \<longleftrightarrow> mk_file st' x' (Suc n) \<and> mk_img st' \<and> blk (img st') x' n = k \<and> img st' k = replicate BSIZE 0
     \<and> (\<forall>m < n. blk (img st') x' m = blk (img st) x m) \<and> x' = x\<lparr>addrs := addrs x'\<rparr>
     \<and> freeblock st + cost (Suc n) = freeblock st' + cost n \<and> freeblock st \<le> freeblock st'
     \<and> owns (img st') x' (Suc n) \<subseteq> owns (img st) x n \<union> {freeblock st..<freeblock st'}
     \<and> (\<forall>j. j < freeblock st \<longrightarrow> (j \<notin> owns (img st) x n \<or> j \<in> blk (img st) x ` {..<n}) \<longrightarrow> img st' j = img st j)
     \<and> freeinode st' = freeinode st \<and> nsects st' = nsects st"

lemma inj_on_snoc:
  assumes "inj_on f {..<n}" and "\<forall>m < n. g m = f m" and "\<forall>m < n. f m \<noteq> g n"
  shows "inj_on g {..<Suc n}"
proof -
  have "inj_on g {..<n}" using assms(1,2) by (simp add: inj_on_def)
  moreover have "g n \<notin> g ` {..<n}" using assms(2,3) by auto
  ultimately show ?thesis by (simp add: lessThan_Suc)
qed

lemma mk_block_direct:
  assumes f: "mk_file st x n" and i: "mk_img st" and n: "n < NDIRECT"
  obtains x' st' where "mk_block n x st = Some (freeblock st, x', st')" and "extends st x n (freeblock st) x' st'"
proof -
  let ?b = "freeblock st"
  let ?x = "x\<lparr>addrs := (addrs x)[n := ?b]\<rparr>" and ?st = "st\<lparr>freeblock := ?b + 1\<rparr>"
  have l: "length (addrs x) = NDIRECT + 1" and z: "addrs x ! n = 0" using f n by (simp_all add: mk_file_def)
  have k: "blk (img st) ?x m = (if m = n then ?b else blk (img st) x m)" if "m \<le> n" for m
    using that n l by (simp add: blk_def nth_list_update)
  have im: "blk (img st) ?x ` {..<Suc n} = insert ?b (blk (img st) x ` {..<n})"
    using k by (auto simp: lessThan_Suc)
  have fresh: "\<forall>m < n. blk (img st) x m \<noteq> ?b" using f by (auto simp: mk_file_def owns_def)
  have "inj_on (blk (img st) x) {..<n}" using f by (simp add: mk_file_def own_blocks_def)
  then have "inj_on (blk (img st) ?x) {..<Suc n}" by (rule inj_on_snoc) (use fresh k in simp_all)
  then have own: "own_blocks (img st) ?x (Suc n)" using n by (simp add: own_blocks_def)
  have o: "owns (img st) ?x (Suc n) = insert ?b (owns (img st) x n)" using n im by (simp add: owns_def)
  have mf: "mk_file ?st ?x (Suc n)"
    using f own o i n l unfolding mk_file_def mk_img_def by (auto simp: nth_list_update MAXFILE_def)
  have "mk_block n x st = Some (?b, ?x, ?st)" using n z by (simp add: mk_block_def)
  moreover have "extends st x n ?b ?x ?st"
    using mf i k o n unfolding extends_def mk_img_def by (auto simp: cost_def)
  ultimately show thesis using that by blast
qed

lemma blk_put32:
  assumes "NDIRECT \<le> n" and "n < MAXFILE" and "m < MAXFILE" and "length (v (addrs x ! NDIRECT)) = BSIZE" and "b < 2 ^ 32"
  shows "blk (v(addrs x ! NDIRECT := put32 (v (addrs x ! NDIRECT)) (4 * (n - NDIRECT)) b)) x m = (if m = n then b else blk v x m)"
proof (cases "m < NDIRECT")
  case False
  have l: "4 * (n - NDIRECT) + 4 \<le> BSIZE" "4 * (m - NDIRECT) + 4 \<le> BSIZE"
    using assms(1-3) False by (simp_all add: MAXFILE_def NINDIRECT_def BSIZE_def NDIRECT_def)
  show ?thesis
  proof (cases "m = n")
    case True
    with False l assms(4,5) show ?thesis by (simp add: blk_def get32_put32)
  next
    case ne: False
    then have "4 * (m - NDIRECT) + 4 \<le> 4 * (n - NDIRECT) \<or> 4 * (n - NDIRECT) + 4 \<le> 4 * (m - NDIRECT)"
      using False assms(1) by linarith
    with ne False l assms(4) show ?thesis by (simp add: blk_def get32_put32_other)
  qed
qed (use assms(1) in \<open>simp add: blk_def\<close>)

text \<open>Both indirect cases end in the same state: the indirect block \<open>a\<close> of \<open>x'\<close> gets the entry for the new block \<open>b\<close>.\<close>

lemma indirect_entry:
  assumes x': "length (addrs x') = NDIRECT + 1" "addrs x' ! NDIRECT = a" "\<forall>m < NDIRECT. addrs x' ! m = addrs x ! m" "x' = x\<lparr>addrs := addrs x'\<rparr>"
    and n: "NDIRECT \<le> n" "n < MAXFILE" and a: "nmeta \<le> a" "a < b" "length (img st a) = BSIZE" and b: "b < 2 ^ 32"
    and old: "\<forall>m < n. blk (img st) x' m = blk (img st) x m" "\<forall>m < n. blk (img st) x m \<noteq> b"
      "\<forall>m. n \<le> m \<and> m < MAXFILE \<longrightarrow> blk (img st) x' m = 0" "a \<notin> blk (img st) x ` {..<n}"
    and f: "mk_file st x n"
  shows "own_blocks ((img st)(a := put32 (img st a) (4 * (n - NDIRECT)) b)) x' (Suc n)" (is "own_blocks ?v x' _")
    and "owns ((img st)(a := put32 (img st a) (4 * (n - NDIRECT)) b)) x' (Suc n) = insert b (insert a (blk (img st) x ` {..<n}))"
    and "\<forall>m < MAXFILE. blk ((img st)(a := put32 (img st a) (4 * (n - NDIRECT)) b)) x' m =
      (if m = n then b else if m < n then blk (img st) x m else 0)"
proof -
  have k: "blk ?v x' m = (if m = n then b else if m < n then blk (img st) x m else 0)" if "m < MAXFILE" for m
    using blk_put32 [OF n that, of "img st" x' b] x'(2) a(3) b old(1,3) that by auto
  then show "\<forall>m < MAXFILE. blk ?v x' m = (if m = n then b else if m < n then blk (img st) x m else 0)" by blast
  have im: "blk ?v x' ` {..<Suc n} = insert b (blk (img st) x ` {..<n})"
  proof -
    have "blk ?v x' ` {..<n} = blk (img st) x ` {..<n}" using k n(2) by (intro image_cong refl) simp
    moreover have "blk ?v x' n = b" using k n(2) by simp
    ultimately show ?thesis by (simp add: lessThan_Suc)
  qed
  then show "owns ?v x' (Suc n) = insert b (insert a (blk (img st) x ` {..<n}))" using n(1) x'(2) by (auto simp: owns_def)
  have "inj_on (blk (img st) x) {..<n}" using f by (simp add: mk_file_def own_blocks_def)
  then have "inj_on (blk ?v x') {..<Suc n}" by (rule inj_on_snoc) (use k n(2) old(2) in simp_all)
  moreover have "a \<notin> insert b (blk (img st) x ` {..<n})" using a(2) old(4) by simp
  ultimately show "own_blocks ?v x' (Suc n)" using im x'(2) n(1) by (simp add: own_blocks_def)
qed

lemma indirect_extends:
  assumes x': "length (addrs x') = NDIRECT + 1" "addrs x' ! NDIRECT = a" "\<forall>m < NDIRECT. addrs x' ! m = addrs x ! m" "x' = x\<lparr>addrs := addrs x'\<rparr>"
    and n: "NDIRECT \<le> n" "n < MAXFILE" and f: "mk_file st x n" and i: "mk_img st" and s: "b < nsects st"
    and ab: "n = NDIRECT \<and> a = freeblock st \<and> b = a + 1 \<or> NDIRECT < n \<and> a = addrs x ! NDIRECT \<and> b = freeblock st"
    and old: "\<forall>m < n. blk (img st) x' m = blk (img st) x m" "\<forall>m. n \<le> m \<and> m < MAXFILE \<longrightarrow> blk (img st) x' m = 0"
  shows "extends st x n b x' (wsect a (put32 (img st a) (4 * (n - NDIRECT)) b) (st\<lparr>freeblock := b + 1\<rparr>))"
    (is "extends st x n b x' ?st")
proof -
  have below: "owns (img st) x n \<subseteq> {nmeta..<freeblock st}" and le: "nmeta \<le> freeblock st" and l: "length (img st a) = BSIZE"
    using f i by (simp_all add: mk_file_def mk_img_def)
  have "a \<in> owns (img st) x n" if "NDIRECT < n" using ab that by (simp add: owns_def)
  with below le ab have a: "nmeta \<le> a" "a < b" by (auto simp: subset_iff)
  have b: "b < 2 ^ 32" "freeblock st \<le> b" using s i ab by (auto simp: mk_img_def)
  have "\<forall>m < n. blk (img st) x m < freeblock st" using below by (auto simp: owns_def)
  with b(2) have nb: "\<forall>m < n. blk (img st) x m \<noteq> b" by auto
  have na: "a \<notin> blk (img st) x ` {..<n}"
  proof (cases "NDIRECT < n")
    case True
    with ab f show ?thesis by (simp add: mk_file_def own_blocks_def)
  next
    case False
    with ab \<open>\<forall>m < n. blk (img st) x m < freeblock st\<close> show ?thesis by auto
  qed
  note E = indirect_entry [OF x' n a l b(1) old(1) nb old(2) na f]
  have o4: "4 * (n - NDIRECT) + 4 \<le> BSIZE" using n by (simp add: MAXFILE_def NINDIRECT_def BSIZE_def NDIRECT_def)
  define t where "t = ?st"
  have v: "img t = (img st)(a := put32 (img st a) (4 * (n - NDIRECT)) b)" "freeblock t = b + 1" "nsects t = nsects st"
    "freeinode t = freeinode st" using a s by (simp_all add: t_def wsect_def)
  have ow: "owns (img st) x n = blk (img st) x ` {..<n} \<union> (if NDIRECT < n then {a} else {})" using ab by (auto simp: owns_def)
  have "mk_file t x' (Suc n)"
    unfolding mk_file_def v using E x'(1) n a b(2) below le ab ow by (auto simp: subset_iff)
  moreover have "mk_img t" using i b l a o4 unfolding mk_img_def v by auto
  moreover have "owns (img t) x' (Suc n) \<subseteq> owns (img st) x n \<union> {freeblock st..<freeblock t}"
    unfolding v E(2) ow using ab by auto
  moreover have "img t j = img st j" if "j < freeblock st" "j \<notin> owns (img st) x n \<or> j \<in> blk (img st) x ` {..<n}" for j
    using that ab na unfolding v ow by auto
  moreover have "img t b = replicate BSIZE 0" using i b a unfolding v by (simp add: mk_img_def)
  moreover have "blk (img t) x' n = b" "\<forall>m < n. blk (img t) x' m = blk (img st) x m" unfolding v using E(3) n(2) by simp_all
  moreover have "freeblock st + cost (Suc n) = freeblock t + cost n" "freeblock st \<le> freeblock t"
    unfolding v using ab b n by (auto simp: cost_def)
  ultimately have "extends st x n b x' t" unfolding extends_def using x'(4) v(3,4) by blast
  then show ?thesis unfolding t_def .
qed

lemma mk_block_indirect:
  assumes f: "mk_file st x n" and i: "mk_img st" and n: "NDIRECT \<le> n" "n < MAXFILE"
    and s: "freeblock st + cost (Suc n) \<le> nsects st + cost n"
  obtains k x' st' where "mk_block n x st = Some (k, x', st')" and "extends st x n k x' st'"
proof -
  let ?b = "freeblock st" and ?o = "4 * (n - NDIRECT)"
  have l: "length (addrs x) = NDIRECT + 1" using f by (simp add: mk_file_def)
  have ol: "?o + 4 \<le> BSIZE" using n by (simp add: MAXFILE_def NINDIRECT_def BSIZE_def NDIRECT_def)
  show thesis
  proof (cases "n = NDIRECT")
    case True
    let ?x = "x\<lparr>addrs := (addrs x)[NDIRECT := ?b]\<rparr>"
    let ?st = "wsect ?b (put32 (img st ?b) ?o (?b + 1)) (st\<lparr>freeblock := ?b + 1 + 1\<rparr>)"
    have z: "img st ?b = replicate BSIZE 0" using i by (simp add: mk_img_def)
    have a0: "addrs x ! NDIRECT = 0" using f True by (simp add: mk_file_def)
    have zero: "\<forall>m. n \<le> m \<and> m < MAXFILE \<longrightarrow> blk (img st) ?x m = 0"
      using True l get32_zeroes by (auto simp: blk_def z MAXFILE_def NINDIRECT_def BSIZE_def NDIRECT_def)
    have s': "?b + 1 < nsects st" using s True by (simp add: cost_def)
    have "mk_block n x st = Some (?b + 1, ?x, ?st)"
      using True a0 l s' get32_zeroes [OF ol] by (simp add: mk_block_def rsect_def z)
    moreover have "extends st x n (?b + 1) ?x ?st"
      by (rule indirect_extends [OF _ _ _ _ n f i s']) (use True l zero in \<open>simp_all add: blk_def\<close>)
    ultimately show thesis using that by blast
  next
    case False
    let ?a = "addrs x ! NDIRECT"
    let ?st = "wsect ?a (put32 (img st ?a) ?o ?b) (st\<lparr>freeblock := ?b + 1\<rparr>)"
    have s': "?b < nsects st" using s False n by (simp add: cost_def)
    have "?a \<in> owns (img st) x n" using False n by (simp add: owns_def)
    then have a: "?a \<noteq> 0" "?a < nsects st" using f nmeta_pos s' by (auto simp: mk_file_def)
    have zero: "\<forall>m. n \<le> m \<and> m < MAXFILE \<longrightarrow> blk (img st) x m = 0" using f False n by (simp add: mk_file_def)
    then have "get32 (img st ?a) ?o = 0" using n by (auto simp: blk_def)
    with a n have "mk_block n x st = Some (?b, x, ?st)" by (simp add: mk_block_def rsect_def)
    moreover have "extends st x n ?b x ?st"
      by (rule indirect_extends [OF _ _ _ _ n f i s']) (use False l zero n in simp_all)
    ultimately show thesis using that by blast
  qed
qed

section \<open>Appending\<close>

lemma mk_block_new:
  assumes "mk_file st x n" and "mk_img st" and "n < MAXFILE" and "freeblock st + cost (Suc n) \<le> nsects st + cost n"
  obtains k x' st' where "mk_block n x st = Some (k, x', st')" and "extends st x n k x' st'"
proof (cases "n < NDIRECT")
  case True
  show thesis by (rule mk_block_direct [OF assms(1,2) True]) (rule that)
next
  case False
  then have "NDIRECT \<le> n" by simp
  show thesis by (rule mk_block_indirect [OF assms(1,2) \<open>NDIRECT \<le> n\<close> assms(3,4)]) (rule that)
qed

text \<open>The file \<open>x\<close> of \<open>off\<close> bytes has become \<open>x'\<close>, with the bytes \<open>p\<close> at its end.\<close>

definition appended :: "mkst \<Rightarrow> inode \<Rightarrow> nat \<Rightarrow> byte list \<Rightarrow> inode \<Rightarrow> mkst \<Rightarrow> bool" where
  "appended st x off p x' st' \<longleftrightarrow> mk_file st' x' (nb (off + length p)) \<and> mk_img st' \<and> x' = x\<lparr>addrs := addrs x'\<rparr>
     \<and> freeblock st + cost (nb (off + length p)) = freeblock st' + cost (nb off) \<and> freeblock st \<le> freeblock st'
     \<and> (\<forall>i < off + length p. file_byte (img st') x' i = (if i < off then file_byte (img st) x i else p ! (i - off)))
     \<and> (tail0 (img st) x off \<longrightarrow> tail0 (img st') x' (off + length p))
     \<and> owns (img st') x' (nb (off + length p)) \<subseteq> owns (img st) x (nb off) \<union> {freeblock st..<freeblock st'}
     \<and> (\<forall>j. j < freeblock st \<longrightarrow> j \<notin> owns (img st) x (nb off) \<longrightarrow> img st' j = img st j)
     \<and> freeinode st' = freeinode st \<and> nsects st' = nsects st"

lemma nb_split: "e < BSIZE \<Longrightarrow> nb (q * BSIZE + Suc e) = Suc q" "nb (q * BSIZE) = q"
proof -
  have B: "0 < BSIZE" by (simp add: BSIZE_def)
  then have "q * BSIZE + Suc e + BSIZE - 1 = e + (q + 1) * BSIZE" "q * BSIZE + BSIZE - 1 = (BSIZE - 1) + q * BSIZE" by simp_all
  then show "e < BSIZE \<Longrightarrow> nb (q * BSIZE + Suc e) = Suc q" "nb (q * BSIZE) = q"
    unfolding nb_def using B by (simp_all only: div_mult_self1 div_less)
qed

lemma nb_step:
  assumes "0 < c" and "off mod BSIZE + c \<le> BSIZE"
  shows "nb (off + c) = Suc (off div BSIZE)" and "nb off = off div BSIZE + (if off mod BSIZE = 0 then 0 else 1)"
proof -
  have off: "off = off div BSIZE * BSIZE + off mod BSIZE" "off mod BSIZE < BSIZE" by (simp_all add: BSIZE_def)
  have "off + c = off div BSIZE * BSIZE + Suc (off mod BSIZE + c - 1)" using assms(1) off(1) by linarith
  then show "nb (off + c) = Suc (off div BSIZE)" using nb_split(1) [of "off mod BSIZE + c - 1" "off div BSIZE"] assms by simp
  show "nb off = off div BSIZE + (if off mod BSIZE = 0 then 0 else 1)"
    using nb_split(1) [of "off mod BSIZE - 1" "off div BSIZE"] nb_split(2) [of "off div BSIZE"] off
    by (cases "off mod BSIZE") auto
qed

lemma nb_bound: "off \<le> nb off * BSIZE"
proof -
  have "off + BSIZE - 1 < ((off + BSIZE - 1) div BSIZE + 1) * BSIZE"
    using dividend_less_div_times [of BSIZE "off + BSIZE - 1"] by (simp add: BSIZE_def)
  then show ?thesis by (simp add: nb_def BSIZE_def)
qed

text \<open>Contents depend only on the blocks that a file owns.\<close>

lemma same_file:
  assumes "\<forall>k \<in> owns v x n. v' k = v k"
  shows "\<forall>m < n. blk v' x m = blk v x m" and "\<forall>i < n * BSIZE. file_byte v' x i = file_byte v x i"
    and "owns v' x n = owns v x n"
proof -
  have b: "blk v' x m = blk v x m" if "m < n" for m using assms that by (auto simp: blk_def owns_def)
  then show "\<forall>m < n. blk v' x m = blk v x m" by blast
  have "file_byte v' x i = file_byte v x i" if "i < n * BSIZE" for i
  proof -
    have m: "i div BSIZE < n" using that by (rule less_mult_imp_div_less)
    then have "blk v x (i div BSIZE) \<in> owns v x n" by (simp add: owns_def)
    with assms b [OF m] show ?thesis by (simp add: file_byte_def)
  qed
  then show "\<forall>i < n * BSIZE. file_byte v' x i = file_byte v x i" by blast
  have "blk v' x ` {..<n} = blk v x ` {..<n}" using b by (intro image_cong refl) simp
  then show "owns v' x n = owns v x n" by (simp add: owns_def)
qed

lemma get_block:
  assumes f: "mk_file st x (nb off)" and i: "mk_img st" and s: "freeblock st \<le> nsects st" and n: "off div BSIZE < MAXFILE"
    and room: "freeblock st + cost (Suc (off div BSIZE)) \<le> nsects st + cost (nb off)"
  obtains x' st' where "mk_block (off div BSIZE) x st = Some (blk (img st') x' (off div BSIZE), x', st')"
    and "mk_file st' x' (Suc (off div BSIZE))" and "mk_img st'" and "x' = x\<lparr>addrs := addrs x'\<rparr>"
    and "freeblock st + cost (Suc (off div BSIZE)) = freeblock st' + cost (nb off)" and "freeblock st \<le> freeblock st'"
    and "\<forall>i < off. file_byte (img st') x' i = file_byte (img st) x i"
    and "tail0 (img st) x off \<longrightarrow> (\<forall>i. off \<le> i \<and> i < Suc (off div BSIZE) * BSIZE \<longrightarrow> file_byte (img st') x' i = 0)"
    and "owns (img st') x' (Suc (off div BSIZE)) \<subseteq> owns (img st) x (nb off) \<union> {freeblock st..<freeblock st'}"
    and "\<forall>j. j < freeblock st \<longrightarrow> j \<notin> owns (img st) x (nb off) \<longrightarrow> img st' j = img st j"
    and "freeinode st' = freeinode st" and "nsects st' = nsects st"
proof (cases "off mod BSIZE = 0")
  case False
  have "off mod BSIZE < BSIZE" by (simp add: BSIZE_def)
  then have e: "nb off = Suc (off div BSIZE)" using nb_step(2) [of 1 off] False by simp
  then have "mk_block (off div BSIZE) x st = Some (blk (img st) x (off div BSIZE), x, st)" by (intro mk_block_old [OF f _ s]) simp
  with f i e show thesis by (intro that [of st x]) (simp_all add: tail0_def)
next
  case True
  have "0 < BSIZE" by (simp add: BSIZE_def)
  then have e: "nb off = off div BSIZE" using nb_step(2) [of 1 off] True by simp
  have off: "off = off div BSIZE * BSIZE" using True by (metis add.right_neutral div_mult_mod_eq)
  obtain k x' st' where k: "mk_block (off div BSIZE) x st = Some (k, x', st')" "extends st x (off div BSIZE) k x' st'"
    by (rule mk_block_new [OF f [unfolded e] i n room [unfolded e]])
  have same: "file_byte (img st') x' i = file_byte (img st) x i" if "i < off" for i
  proof -
    have m: "i div BSIZE < off div BSIZE" using that off by (metis less_mult_imp_div_less)
    then have b: "blk (img st) x (i div BSIZE) \<in> blk (img st) x ` {..<off div BSIZE}" by simp
    then have "blk (img st) x (i div BSIZE) < freeblock st" using f unfolding e by (auto simp: mk_file_def owns_def)
    with k(2) m b show ?thesis by (simp add: file_byte_def extends_def)
  qed
  have zero: "file_byte (img st') x' i = 0" if "off \<le> i" "i < Suc (off div BSIZE) * BSIZE" for i
  proof -
    have "i div BSIZE < Suc (off div BSIZE)" using that(2) by (rule less_mult_imp_div_less)
    moreover have "off div BSIZE \<le> i div BSIZE" using that(1) by (rule div_le_mono)
    ultimately have "i div BSIZE = off div BSIZE" by simp
    moreover have "i mod BSIZE < BSIZE" by (simp add: BSIZE_def)
    ultimately show ?thesis using k(2) by (simp add: file_byte_def extends_def)
  qed
  show thesis by (rule that [of st' x']) (use k same zero e in \<open>simp_all add: extends_def\<close>)
qed

lemma mk_file_write:
  assumes f: "mk_file st x n" and b: "bn < n" and l: "length ys = BSIZE"
  shows "mk_file (wsect (blk (img st) x bn) ys st) x n" and "owns (img (wsect (blk (img st) x bn) ys st)) x n = owns (img st) x n"
proof -
  let ?k = "blk (img st) x bn"
  let ?v = "(img st)(?k := ys)"
  have own: "own_blocks (img st) x n" using f by (simp add: mk_file_def)
  have "addrs x ! NDIRECT \<noteq> ?k" if "NDIRECT < n" using own b that by (auto simp: own_blocks_def)
  then have k: "blk ?v x m = blk (img st) x m" if "m < NDIRECT \<or> NDIRECT < n" for m using that by (auto simp: blk_def)
  then have "blk ?v x ` {..<n} = blk (img st) x ` {..<n}" by (intro image_cong refl) (metis lessThan_iff linorder_not_less order.strict_trans2)
  then have o: "owns ?v x n = owns (img st) x n" by (simp add: owns_def)
  then show "owns (img (wsect ?k ys st)) x n = owns (img st) x n" by (simp add: wsect_def)
  have "inj_on (blk ?v x) {..<n} \<longleftrightarrow> inj_on (blk (img st) x) {..<n}"
    by (rule inj_on_cong) (metis k lessThan_iff linorder_not_less order.strict_trans2)
  with own have "own_blocks ?v x n" using \<open>blk ?v x ` {..<n} = _\<close> by (simp add: own_blocks_def)
  with f o k show "mk_file (wsect ?k ys st) x n" by (auto simp: mk_file_def wsect_def)
qed

lemma append_chunk:
  assumes f: "mk_file st x (nb off)" and i: "mk_img st" and s: "freeblock st \<le> nsects st" and n: "off div BSIZE < MAXFILE"
    and ys: "0 < length ys" "off mod BSIZE + length ys \<le> BSIZE"
    and room: "freeblock st + cost (nb (off + length ys)) \<le> nsects st + cost (nb off)"
  obtains k x' st' where "mk_block (off div BSIZE) x st = Some (k, x', st')" and "k < nsects st'"
    and "appended st x off ys x' (wsect k (bput (img st' k) (off - off div BSIZE * BSIZE) ys) st')"
proof -
  note N = nb_step(1) [OF ys]
  obtain x' t where t: "mk_block (off div BSIZE) x st = Some (blk (img t) x' (off div BSIZE), x', t)"
    "mk_file t x' (Suc (off div BSIZE))" "mk_img t" "x' = x\<lparr>addrs := addrs x'\<rparr>"
    "freeblock st + cost (Suc (off div BSIZE)) = freeblock t + cost (nb off)" "freeblock st \<le> freeblock t"
    "\<forall>i < off. file_byte (img t) x' i = file_byte (img st) x i"
    "tail0 (img st) x off \<longrightarrow> (\<forall>i. off \<le> i \<and> i < Suc (off div BSIZE) * BSIZE \<longrightarrow> file_byte (img t) x' i = 0)"
    "owns (img t) x' (Suc (off div BSIZE)) \<subseteq> owns (img st) x (nb off) \<union> {freeblock st..<freeblock t}"
    "\<forall>j. j < freeblock st \<longrightarrow> j \<notin> owns (img st) x (nb off) \<longrightarrow> img t j = img st j"
    "freeinode t = freeinode st" "nsects t = nsects st"
    by (rule get_block [OF f i s n room [unfolded N]])
  let ?k = "blk (img t) x' (off div BSIZE)" and ?o = "off mod BSIZE"
  let ?b = "bput (img t ?k) ?o ys"
  have o: "off - off div BSIZE * BSIZE = ?o" by (simp add: minus_div_mult_eq_mod)
  have len: "length (img t ?k) = BSIZE" "length ?b = BSIZE" using t(3) ys by (simp_all add: mk_img_def)
  have kin: "?k \<in> owns (img t) x' (Suc (off div BSIZE))" by (simp add: owns_def)
  then have k: "nmeta \<le> ?k" "?k < freeblock t" using t(2) by (auto simp: mk_file_def)
  have kn: "?k < nsects t" using k t(5,12) room N by simp
  define u where "u = wsect ?k ?b t"
  have v: "img u = (img t)(?k := ?b)" "freeblock u = freeblock t" "nsects u = nsects st" "freeinode u = freeinode st"
    using kn t(11,12) by (simp_all add: u_def wsect_def)
  have own: "own_blocks (img t) x' (Suc (off div BSIZE))" using t(2) by (simp add: mk_file_def)
  have F: "mk_file u x' (Suc (off div BSIZE))" "owns (img u) x' (Suc (off div BSIZE)) = owns (img t) x' (Suc (off div BSIZE))"
    unfolding u_def by (rule mk_file_write [OF t(2) _ len(2)], simp)+
  have upd: "file_byte (img u) x' i = (if off \<le> i \<and> i < off + length ys then ys ! (i - off) else file_byte (img t) x' i)"
    if "i < Suc (off div BSIZE) * BSIZE" for i
    unfolding v by (intro file_byte_upd [OF own _ len(1) ys(2) that]) simp
  have le: "off + length ys \<le> Suc (off div BSIZE) * BSIZE" using nb_bound [of "off + length ys"] unfolding N .
  have bytes: "file_byte (img u) x' i = (if i < off then file_byte (img st) x i else ys ! (i - off))" if "i < off + length ys" for i
    using upd [of i] that le t(7) by auto
  have tail: "tail0 (img u) x' (off + length ys)" if "tail0 (img st) x off"
    unfolding tail0_def N using upd t(8) that by auto
  have "mk_img u" using t(3) k len unfolding mk_img_def v by (auto simp: t(12))
  moreover have "img u j = img st j" if "j < freeblock st" "j \<notin> owns (img st) x (nb off)" for j
  proof -
    have "j \<noteq> ?k" using kin t(9) that by auto
    with t(10) that show ?thesis by (simp add: v)
  qed
  ultimately have "appended st x off ys x' u" unfolding appended_def N v(2-4) using F bytes tail t(4-6,9) by simp
  then show thesis using that [OF t(1) kn] unfolding o u_def by blast
qed

lemma appended_trans:
  assumes "appended st x off a x1 st1" and "appended st1 x1 (off + length a) b x2 st2"
  shows "appended st x off (a @ b) x2 st2"
proof -
  let ?m = "nb (off + length a)"
  have l: "off + length a + length b = off + length (a @ b)" by simp
  note A = assms(1) [unfolded appended_def] and B = assms(2) [unfolded appended_def l]
  have fb: "freeblock st + cost (nb (off + length (a @ b))) = freeblock st2 + cost (nb off)" "freeblock st \<le> freeblock st2"
    using A B by linarith+
  have oa: "owns (img st1) x1 ?m \<subseteq> owns (img st) x (nb off) \<union> {freeblock st..<freeblock st1}" "freeblock st \<le> freeblock st1"
    and fa: "\<forall>j. j < freeblock st \<longrightarrow> j \<notin> owns (img st) x (nb off) \<longrightarrow> img st1 j = img st j" using A by blast+
  have ob: "owns (img st2) x2 (nb (off + length (a @ b))) \<subseteq> owns (img st1) x1 ?m \<union> {freeblock st1..<freeblock st2}"
    "freeblock st1 \<le> freeblock st2"
    and fbm: "\<forall>j. j < freeblock st1 \<longrightarrow> j \<notin> owns (img st1) x1 ?m \<longrightarrow> img st2 j = img st1 j" using B by blast+
  have "x2 = x\<lparr>addrs := addrs x2\<rparr>" using A B by (cases x; cases x1; cases x2) simp
  moreover have "file_byte (img st2) x2 i = (if i < off then file_byte (img st) x i else (a @ b) ! (i - off))"
    if "i < off + length (a @ b)" for i
    using A B that by (auto simp: nth_append)
  moreover have "owns (img st2) x2 (nb (off + length (a @ b))) \<subseteq> owns (img st) x (nb off) \<union> {freeblock st..<freeblock st2}"
    using oa ob by fastforce
  moreover have "img st2 j = img st j" if "j < freeblock st" "j \<notin> owns (img st) x (nb off)" for j
  proof -
    have "j \<notin> owns (img st1) x1 ?m" using oa(1) that by auto
    then show ?thesis using fa fbm that oa(2) by simp
  qed
  moreover have "tail0 (img st) x off \<longrightarrow> tail0 (img st2) x2 (off + length (a @ b))" using A B by blast
  moreover have "mk_file st2 x2 (nb (off + length (a @ b)))" "mk_img st2" "freeinode st2 = freeinode st" "nsects st2 = nsects st"
    using A B by simp_all
  ultimately show ?thesis unfolding appended_def using fb by blast
qed

lemma cost_mono: "a \<le> b \<Longrightarrow> cost (nb a) \<le> cost (nb b)"
proof -
  assume "a \<le> b"
  then have "nb a \<le> nb b" unfolding nb_def by (intro div_le_mono) simp
  then show ?thesis by (simp add: cost_def)
qed

lemma appended_nil:
  assumes "mk_file st x (nb off)" and "mk_img st"
  shows "appended st x off [] x st"
  using assms by (simp add: appended_def)

lemma iappend_loop_spec:
  assumes "mk_file st x (nb off)" and "mk_img st" and "freeblock st \<le> nsects st" and "off + length p \<le> MAXFILE * BSIZE"
    and "freeblock st + cost (nb (off + length p)) \<le> nsects st + cost (nb off)"
  shows "\<exists>x' st'. iappend_loop x off p st = Some (x', off + length p, st') \<and> appended st x off p x' st'"
  using assms
proof (induction x off p st rule: iappend_loop.induct)
  case (1 x off p st)
  note f = "1.prems"(1) and i = "1.prems"(2) and s = "1.prems"(3)
  show ?case
  proof (cases "0 < length p")
    case False
    then show ?thesis using appended_nil [OF f i] by (simp add: iappend_loop.simps)
  next
    case True
    define c where "c = min (length p) ((off div BSIZE + 1) * BSIZE - off)"
    have "off < MAXFILE * BSIZE" using "1.prems"(4) True by linarith
    then have n: "off div BSIZE < MAXFILE" by (rule less_mult_imp_div_less)
    have e: "(off div BSIZE + 1) * BSIZE - off = BSIZE - off mod BSIZE" using div_mult_mod_eq [of off BSIZE] by (simp only: distrib_right)
    have "off mod BSIZE < BSIZE" by (simp add: BSIZE_def)
    then have c: "0 < length (take c p)" "off mod BSIZE + length (take c p) \<le> BSIZE" "length (take c p) = c" "c \<le> length p"
      using True e by (auto simp: c_def)
    have m: "cost (nb (off + c)) \<le> cost (nb (off + length p))" using c(4) by (intro cost_mono) simp
    have room: "freeblock st + cost (nb (off + length (take c p))) \<le> nsects st + cost (nb off)"
      using "1.prems"(5) m c(3) by simp
    obtain k x' t where k: "mk_block (off div BSIZE) x st = Some (k, x', t)" "k < nsects t"
      "appended st x off (take c p) x' (wsect k (bput (img t k) (off - off div BSIZE * BSIZE) (take c p)) t)"
      by (rule append_chunk [OF f i s n c(1,2) room])
    let ?u = "wsect k (bput (img t k) (off - off div BSIZE * BSIZE) (take c p)) t"
    have r: "rsect k t = Some (img t k)" using k(2) by (simp add: rsect_def)
    have step: "iappend_loop x off p st = iappend_loop x' (off + c) (drop c p) ?u"
      using True n k(1) r by (simp add: iappend_loop.simps [of x off p st] Let_def c_def)
    have U: "mk_file ?u x' (nb (off + c))" "mk_img ?u" "nsects ?u = nsects st"
      "freeblock st + cost (nb (off + c)) = freeblock ?u + cost (nb off)"
      using k(3) c(3) by (simp_all add: appended_def)
    have "\<exists>x'' st'. iappend_loop x' (off + c) (drop c p) ?u = Some (x'', off + c + length (drop c p), st') \<and>
        appended ?u x' (off + c) (drop c p) x'' st'"
    proof (rule "1.IH" [OF True n k(1) refl refl c_def r U(1,2)])
      show "freeblock ?u \<le> nsects ?u" using U(3,4) room c(3) by simp
      show "off + c + length (drop c p) \<le> MAXFILE * BSIZE" using "1.prems"(4) c(4) by simp
      have "off + c + length (drop c p) = off + length p" using c(4) by simp
      then show "freeblock ?u + cost (nb (off + c + length (drop c p))) \<le> nsects ?u + cost (nb (off + c))"
        using "1.prems"(5) U(3,4) by simp
    qed
    then obtain x'' st' where "iappend_loop x' (off + c) (drop c p) ?u = Some (x'', off + c + length (drop c p), st')"
      "appended ?u x' (off + c) (drop c p) x'' st'" by blast
    moreover have "appended st x off (take c p @ drop c p) x'' st'"
      by (rule appended_trans [OF k(3)]) (use calculation(2) c(3) in simp)
    ultimately show ?thesis using step c(4) by auto
  qed
qed

section \<open>The files of an image\<close>

text \<open>The inode of a number, as \<open>ilock\<close> decodes it, and the content of its file.\<close>

definition ino :: "mkst \<Rightarrow> nat \<Rightarrow> inode" where
  "ino st i = dec_inode (img st (IBLOCK i mk_sb)) (doff i) blank"

definition content :: "mkst \<Rightarrow> nat \<Rightarrow> byte list" where
  "content st i = file_bytes (img st) (ino st i)"

abbreviation blocks_of :: "mkst \<Rightarrow> nat \<Rightarrow> nat set" where
  "blocks_of st i \<equiv> owns (img st) (ino st i) (nb (i_size (ino st i)))"

definition mk_ok :: "mkst \<Rightarrow> bool" where
  "mk_ok st \<longleftrightarrow> mk_img st \<and> freeblock st \<le> nsects st \<and> 1 \<le> freeinode st \<and> freeinode st \<le> 208
     \<and> (\<forall>i. 1 \<le> i \<and> i < freeinode st \<longrightarrow> mk_file st (ino st i) (nb (i_size (ino st i))) \<and> i_size (ino st i) \<le> MAXFILE * BSIZE
          \<and> tail0 (img st) (ino st i) (i_size (ino st i)))
     \<and> (\<forall>i j. 1 \<le> i \<and> i < freeinode st \<and> 1 \<le> j \<and> j < freeinode st \<and> i \<noteq> j \<longrightarrow> blocks_of st i \<inter> blocks_of st j = {})"

definition on_disk :: "inode \<Rightarrow> bool" where
  "on_disk x \<longleftrightarrow> x = blank\<lparr>i_type := i_type x, i_major := i_major x, i_minor := i_minor x, i_nlink := i_nlink x,
     i_size := i_size x, addrs := addrs x\<rparr>"

lemma on_disk_ino [simp]: "on_disk (ino st i)"
  by (simp add: on_disk_def ino_def dec_inode_def blank_def)

lemma on_disk_dec: "on_disk x \<Longrightarrow> dec_inode bs k x = dec_inode bs k blank"
proof -
  assume "on_disk x"
  then have "dec_inode bs k x = dec_inode bs k (blank\<lparr>i_type := i_type x, i_major := i_major x, i_minor := i_minor x,
      i_nlink := i_nlink x, i_size := i_size x, addrs := addrs x\<rparr>)" by (simp add: on_disk_def)
  then show ?thesis by (simp add: dec_inode_def)
qed

lemma layout: "nmeta = 59" "inodestart mk_sb = 32" "bmapstart mk_sb = 58" "sb_size mk_sb = 1000"
  by (simp_all add: nmeta_def mk_nlog_def ninodeblocks_def nbitmap_def mk_sb_def LOGSIZE_def MAXOPBLOCKS_def NINODES_def IPB_def
      BSIZE_def FSSIZE_def)

lemma IBLOCK_bound: "i < 208 \<Longrightarrow> IBLOCK i mk_sb < 58"
  by (simp add: IBLOCK_def layout IPB_def BSIZE_def less_mult_imp_div_less)

text \<open>The addresses of a file are block numbers, so its inode fits the format.\<close>

lemma mk_file_fits:
  assumes f: "mk_file st x n" and s: "freeblock st \<le> nsects st" "mk_img st"
    and t: "fits16 (i_type x)" "fits16 (i_major x)" "fits16 (i_minor x)" "fits16 (i_nlink x)" and z: "i_size x \<le> MAXFILE * BSIZE"
  shows "inode_fits x"
proof -
  have l: "length (addrs x) = NDIRECT + 1" using f by (simp add: mk_file_def)
  have "addrs x ! m < 2 ^ 32" if "m \<le> NDIRECT" for m
  proof (cases "m < n \<and> m < NDIRECT \<or> m = NDIRECT \<and> NDIRECT < n")
    case True
    then have "addrs x ! m \<in> owns (img st) x n" by (auto simp: owns_def blk_def)
    then have "addrs x ! m < freeblock st" using f by (auto simp: mk_file_def)
    then show ?thesis using s by (simp add: mk_img_def)
  next
    case False
    then have "addrs x ! m = 0" using f that by (cases "m = NDIRECT") (auto simp: mk_file_def)
    then show ?thesis by simp
  qed
  then have "\<forall>a \<in> set (addrs x). a < 2 ^ 32" using l by (auto simp: in_set_conv_nth)
  moreover have "i_size x < 2 ^ 32" using z by (simp add: MAXFILE_def NDIRECT_def NINDIRECT_def BSIZE_def)
  ultimately show ?thesis using l t by (simp add: inode_fits_def)
qed

lemma winode_spec:
  assumes i: "mk_img st" and n: "inum < 208" and x: "on_disk x" "inode_fits x"
  obtains st' where "winode inum x st = Some st'" and "ino st' inum = x" and "\<forall>j. j \<noteq> inum \<longrightarrow> ino st' j = ino st j"
    and "\<forall>k. 58 \<le> k \<or> k < 32 \<longrightarrow> img st' k = img st k" and "mk_img st'" and "freeblock st' = freeblock st"
    and "freeinode st' = freeinode st" and "nsects st' = nsects st"
proof -
  let ?k = "IBLOCK inum mk_sb" and ?b = "put_inode x (doff inum) (img st (IBLOCK inum mk_sb))"
  have k: "?k < 58" "32 \<le> ?k" using IBLOCK_bound [OF n] by (simp_all add: IBLOCK_def layout)
  have len: "length (img st j) = BSIZE" for j using i by (simp add: mk_img_def)
  have l: "length (addrs x) = NDIRECT + 1" using x by (simp add: inode_fits_def)
  have d: "doff j + 64 \<le> length (img st ?k)" for j using doff_bounds [of j] len by simp
  have lb: "length ?b = BSIZE" unfolding put_inode_bput [OF l d] using d [of inum] len length_enc_inode [OF l] by simp
  have kn: "?k < nsects st" using k i by (simp add: mk_img_def layout)
  define u where "u = wsect ?k ?b st"
  have v: "img u = (img st)(?k := ?b)" "freeblock u = freeblock st" "nsects u = nsects st" "freeinode u = freeinode st"
    using kn by (simp_all add: u_def wsect_def)
  have "winode inum x st = Some u" using kn by (simp add: winode_def rsect_def u_def)
  moreover have "ino u inum = x" using dec_put_inode [OF x(2) d] on_disk_dec [OF x(1)] by (simp add: ino_def v)
  moreover have "ino u j = ino st j" if "j \<noteq> inum" for j
  proof (cases "IBLOCK j mk_sb = ?k")
    case True
    then have "j div IPB = inum div IPB" by (simp add: IBLOCK_def)
    with that have "j mod IPB \<noteq> inum mod IPB" by (metis div_mult_mod_eq)
    then have "dec_inode ?b (doff j) blank = dec_inode (img st ?k) (doff j) blank"
      by (intro dec_inode_other [OF l d d]) (rule doff_apart)
    with True show ?thesis by (simp add: ino_def v)
  qed (simp add: ino_def v)
  moreover have "mk_img u" using i lb k unfolding mk_img_def v by (auto simp: layout)
  ultimately show thesis using that v k by auto
qed

lemma fits16_s16: "fits16 (s16 (get16 bs k))"
proof -
  have "unat (b :: byte) < 256" for b using unsigned_less [of b, where ?'a = nat] by simp
  from this [of "bs ! k"] this [of "bs ! (k + 1)"] have "get16 bs k < 2 ^ 16" by (simp add: get16_def)
  then show ?thesis by (simp add: fits16_def s16_def)
qed

lemma ino_fits16 [simp]: "fits16 (i_type (ino st i))" "fits16 (i_major (ino st i))" "fits16 (i_minor (ino st i))" "fits16 (i_nlink (ino st i))"
  by (simp_all add: ino_def dec_inode_def fits16_s16)

lemma mk_file_size [simp]: "mk_file st (x\<lparr>i_size := m\<rparr>) n = mk_file st x n" "owns v (x\<lparr>i_size := m\<rparr>) n = owns v x n"
  by (simp_all add: mk_file_def owns_def own_blocks_def)

lemma mk_file_cong:
  assumes f: "mk_file st x n" and v: "\<forall>k \<in> owns (img st) x n. img u k = img st k" and fb: "freeblock st \<le> freeblock u"
  shows "mk_file u x n"
proof -
  note S = same_file [OF v]
  have im: "blk (img u) x ` {..<n} = blk (img st) x ` {..<n}" using S(1) by (intro image_cong refl) simp
  have "inj_on (blk (img u) x) {..<n} \<longleftrightarrow> inj_on (blk (img st) x) {..<n}" using S(1) by (intro inj_on_cong) simp
  then have "own_blocks (img u) x n" using f im by (simp add: mk_file_def own_blocks_def)
  moreover have "blk (img u) x bn = blk (img st) x bn" if "NDIRECT < n" "n \<le> bn" for bn
    using v that by (simp add: blk_def owns_def)
  ultimately show ?thesis using f fb S(3) unfolding mk_file_def by auto
qed

text \<open>A change to the inode blocks and to blocks that no other file has.\<close>

lemma other_file:
  assumes ok: "mk_ok st" and j: "1 \<le> j" "j < freeinode st" and e: "ino u j = ino st j"
    and v: "\<forall>k \<in> blocks_of st j. img u k = img st k" and fb: "freeblock st \<le> freeblock u"
  shows "mk_file u (ino u j) (nb (i_size (ino u j)))" and "content u j = content st j" and "blocks_of u j = blocks_of st j"
    and "tail0 (img u) (ino u j) (i_size (ino u j))"
proof -
  have f: "mk_file st (ino st j) (nb (i_size (ino st j)))" using ok j by (simp add: mk_ok_def)
  show "mk_file u (ino u j) (nb (i_size (ino u j)))" unfolding e by (rule mk_file_cong [OF f v fb])
  note S = same_file [OF v]
  show "blocks_of u j = blocks_of st j" unfolding e by (rule S(3))
  have "tail0 (img st) (ino st j) (i_size (ino st j))" using ok j by (simp add: mk_ok_def)
  then show "tail0 (img u) (ino u j) (i_size (ino u j))" using S(2) by (simp add: tail0_def e)
  have "file_byte (img u) (ino st j) i = file_byte (img st) (ino st j) i" if "i < i_size (ino st j)" for i
    using S(2) that nb_bound [of "i_size (ino st j)"] by simp
  then show "content u j = content st j" by (simp add: content_def file_bytes_def e)
qed

lemma ino_frame:
  assumes "\<forall>k < 58. img u k = img st k" and "i < 208"
  shows "ino u i = ino st i"
  using assms(1) IBLOCK_bound [OF assms(2)] by (simp add: ino_def)

lemma mk_ok_replace:
  assumes ok: "mk_ok st" and i: "1 \<le> i" "i < freeinode st"
    and fi: "freeinode u = freeinode st" and fb: "freeblock st \<le> freeblock u" "freeblock u \<le> nsects u" and im: "mk_img u"
    and fu: "mk_file u (ino u i) (nb (i_size (ino u i)))" "i_size (ino u i) \<le> MAXFILE * BSIZE"
      "tail0 (img u) (ino u i) (i_size (ino u i))"
    and bu: "blocks_of u i \<subseteq> blocks_of st i \<union> {freeblock st..<freeblock u}"
    and eu: "\<And>j. j \<noteq> i \<Longrightarrow> 1 \<le> j \<Longrightarrow> j < freeinode st \<Longrightarrow> ino u j = ino st j"
    and other: "\<And>j. j \<noteq> i \<Longrightarrow> 1 \<le> j \<Longrightarrow> j < freeinode st \<Longrightarrow> \<forall>k \<in> blocks_of st j. img u k = img st k"
  shows "mk_ok u"
proof -
  have O: "mk_file u (ino u j) (nb (i_size (ino u j)))" "blocks_of u j = blocks_of st j" "i_size (ino u j) \<le> MAXFILE * BSIZE"
      "tail0 (img u) (ino u j) (i_size (ino u j))"
    if "1 \<le> j" "j < freeinode st" "j \<noteq> i" for j
    using other_file [OF ok that(1,2) eu other fb(1)] that eu [of j] ok by (auto simp: mk_ok_def)
  have sep: "blocks_of u i \<inter> blocks_of u j = {}" if "1 \<le> j" "j < freeinode st" "j \<noteq> i" for j
  proof -
    have "blocks_of st j \<subseteq> {nmeta..<freeblock st}" "blocks_of st i \<inter> blocks_of st j = {}" using ok i that by (auto simp: mk_ok_def mk_file_def)
    then show ?thesis using bu O(2) [OF that] by fastforce
  qed
  have "mk_file u (ino u j) (nb (i_size (ino u j))) \<and> i_size (ino u j) \<le> MAXFILE * BSIZE
      \<and> tail0 (img u) (ino u j) (i_size (ino u j))" if "1 \<le> j" "j < freeinode st" for j
    using that fu O(1,3,4) [of j] by (cases "j = i") auto
  moreover have "blocks_of u j \<inter> blocks_of u k = {}"
    if "1 \<le> j" "j < freeinode st" "1 \<le> k" "k < freeinode st" "j \<noteq> k" for j k
  proof (cases "j = i \<or> k = i")
    case True
    then show ?thesis using sep [of j] sep [of k] that by blast
  next
    case False
    then show ?thesis using that O(2) [of j] O(2) [of k] ok by (simp add: mk_ok_def)
  qed
  ultimately show ?thesis using fb im ok unfolding mk_ok_def fi by auto
qed

text \<open>File \<open>i\<close> has become \<open>new\<close> bytes long, with this content; nothing else has changed.\<close>

definition changed :: "mkst \<Rightarrow> nat \<Rightarrow> byte list \<Rightarrow> mkst \<Rightarrow> bool" where
  "changed st i bs u \<longleftrightarrow> mk_ok u \<and> content u i = bs \<and> i_size (ino u i) = length bs \<and> i_type (ino u i) = i_type (ino st i)
     \<and> (\<forall>j. 1 \<le> j \<and> j < freeinode st \<and> j \<noteq> i \<longrightarrow> ino u j = ino st j \<and> content u j = content st j)
     \<and> freeinode u = freeinode st \<and> nsects u = nsects st
     \<and> freeblock u + cost (nb (i_size (ino st i))) = freeblock st + cost (nb (length bs))
     \<and> (\<forall>k < 32. img u k = img st k)"

lemma append_changed:
  assumes ok: "mk_ok st" and i: "1 \<le> i" "i < freeinode st" and sz: "i_size (ino st i) + length p \<le> MAXFILE * BSIZE"
    and app: "appended st (ino st i) (i_size (ino st i)) p x' t" and tn: "freeblock t \<le> nsects t"
    and u: "ino u i = x'\<lparr>i_size := i_size (ino st i) + length p\<rparr>" "\<forall>j. j \<noteq> i \<longrightarrow> ino u j = ino t j"
      "\<forall>k. 58 \<le> k \<or> k < 32 \<longrightarrow> img u k = img t k" "mk_img u" "freeblock u = freeblock t" "freeinode u = freeinode t" "nsects u = nsects t"
  shows "changed st i (content st i @ p) u"
proof -
  let ?x = "ino st i" and ?sz = "i_size (ino st i)"
  let ?n = "?sz + length p" and ?y = "x'\<lparr>i_size := ?sz + length p\<rparr>"
  note A = app [unfolded appended_def]
  have x': "x' = ?x\<lparr>addrs := addrs x'\<rparr>" and fb: "freeblock st \<le> freeblock t" using A by blast+
  have st: "mk_img st" "freeinode st \<le> 208" "nmeta \<le> freeblock st" using ok by (auto simp: mk_ok_def mk_img_def)
  have f: "mk_file st ?x (nb ?sz)" and ft: "mk_file t ?y (nb ?n)" using ok i A by (simp_all add: mk_ok_def)
  have mine: "\<forall>k \<in> owns (img t) ?y (nb ?n). img u k = img t k" using ft u(3) by (auto simp: mk_file_def layout)
  note S = same_file [OF mine]
  have fu: "mk_file u ?y (nb ?n)" by (rule mk_file_cong [OF ft mine]) (simp add: u(5))
  have bu: "blocks_of u i \<subseteq> blocks_of st i \<union> {freeblock st..<freeblock u}" using A S(3) by (simp add: u(1,5))
  have low: "img t k = img st k" if "k < 58" for k
  proof -
    have "k < freeblock st" "k \<notin> blocks_of st i" using f that st(3) by (auto simp: mk_file_def layout)
    then show ?thesis using A by blast
  qed
  have eu: "ino u j = ino st j" if "j \<noteq> i" "j < 208" for j using u(2) that ino_frame [of t st j] low by simp
  have other: "\<forall>k \<in> blocks_of st j. img u k = img st k" if "1 \<le> j" "j < freeinode st" "j \<noteq> i" for j
  proof
    fix k assume k: "k \<in> blocks_of st j"
    have "mk_file st (ino st j) (nb (i_size (ino st j)))" "blocks_of st j \<inter> blocks_of st i = {}" using ok i that by (simp_all add: mk_ok_def)
    with k have "nmeta \<le> k" "k < freeblock st" "k \<notin> blocks_of st i" by (auto simp: mk_file_def)
    then show "img u k = img st k" using A u(3) by (simp add: layout)
  qed
  have fbu: "freeblock st \<le> freeblock u" using fb u(5) by simp
  note O = other_file [OF ok _ _ eu other fbu]
  have "content u i = content st i @ p"
  proof (rule nth_equalityI)
    show "length (content u i) = length (content st i @ p)" by (simp add: content_def file_bytes_def u(1))
    fix m assume "m < length (content u i)"
    then have m: "m < ?n" by (simp add: content_def file_bytes_def u(1))
    then have "file_byte (img u) ?y m = file_byte (img t) ?y m" using S(2) nb_bound [of ?n] by simp
    with A m show "content u i ! m = (content st i @ p) ! m" by (simp add: content_def file_bytes_def u(1) nth_append)
  qed
  moreover have "tail0 (img t) ?y ?n" using A ok i by (simp add: mk_ok_def tail0_def)
  then have "tail0 (img u) ?y ?n" using S(2) by (simp add: tail0_def)
  then have "mk_ok u"
    by (intro mk_ok_replace [OF ok i _ _ _ u(4)]) (use A u tn fu bu sz eu other fbu st(2) in auto)
  moreover have "length (content st i @ p) = ?n" by (simp add: content_def file_bytes_def)
  moreover have "i_type x' = i_type ?x" by (subst x') simp
  moreover have "ino u j = ino st j \<and> content u j = content st j" if "1 \<le> j \<and> j < freeinode st \<and> j \<noteq> i" for j
    using that eu [of j] O(2) [of j] st(2) by simp
  moreover have "freeinode u = freeinode st" "nsects u = nsects st" "\<forall>k < 32. img u k = img st k" using A u(3,6,7) low by simp_all
  moreover have "freeblock u + cost (nb ?sz) = freeblock st + cost (nb ?n)" using A u(5) by simp
  ultimately show ?thesis unfolding changed_def u(1) by simp
qed

lemma iappend_spec:
  assumes ok: "mk_ok st" and i: "1 \<le> i" "i < freeinode st" and sz: "i_size (ino st i) + length p \<le> MAXFILE * BSIZE"
    and room: "freeblock st + cost (nb (i_size (ino st i) + length p)) \<le> nsects st + cost (nb (i_size (ino st i)))"
  obtains u where "iappend i p st = Some u" and "changed st i (content st i @ p) u"
proof -
  let ?x = "ino st i" and ?sz = "i_size (ino st i)"
  let ?n = "?sz + length p"
  have im: "mk_img st" "freeblock st \<le> nsects st" "nmeta \<le> nsects st" and i208: "i < 208"
    and f: "mk_file st ?x (nb ?sz)" using ok i by (auto simp: mk_ok_def mk_img_def)
  have r: "rinode i st = Some ?x" using IBLOCK_bound [OF i208] im(3) by (simp add: rinode_def rsect_def ino_def layout)
  from iappend_loop_spec [OF f im(1,2) sz room] obtain x' t where
    t: "iappend_loop ?x ?sz p st = Some (x', ?n, t)" "appended st ?x ?sz p x' t" by blast
  note A = t(2) [unfolded appended_def]
  let ?y = "x'\<lparr>i_size := ?n\<rparr>"
  have x': "x' = ?x\<lparr>addrs := addrs x'\<rparr>" using A by blast
  have y: "?y = ?x\<lparr>addrs := addrs x', i_size := ?n\<rparr>" by (subst x') simp
  have tn: "freeblock t \<le> nsects t" "mk_img t" using A room by auto
  have ft: "mk_file t ?y (nb ?n)" using A by simp
  have od: "on_disk ?y" using on_disk_ino [of st i] unfolding y on_disk_def by (cases "ino st i") simp
  have fits: "inode_fits ?y"
    by (rule mk_file_fits [OF ft tn(1,2)]) (use sz in \<open>simp_all add: y del: mk_file_size\<close>)
  obtain u where u: "winode i ?y t = Some u" "ino u i = ?y" "\<forall>j. j \<noteq> i \<longrightarrow> ino u j = ino t j"
    "\<forall>k. 58 \<le> k \<or> k < 32 \<longrightarrow> img u k = img t k" "mk_img u" "freeblock u = freeblock t" "freeinode u = freeinode t" "nsects u = nsects t"
    by (rule winode_spec [OF tn(2) i208 od fits])
  have "iappend i p st = Some u" using r t(1) u(1) by (simp add: iappend_def)
  moreover have "changed st i (content st i @ p) u" by (rule append_changed [OF ok i sz t(2) tn(1) u(2-8)])
  ultimately show thesis by (rule that)
qed

text \<open>A new, empty file.\<close>

definition created :: "mkst \<Rightarrow> int \<Rightarrow> mkst \<Rightarrow> bool" where
  "created st ty u \<longleftrightarrow> mk_ok u \<and> freeinode u = freeinode st + 1 \<and> content u (freeinode st) = [] \<and> i_size (ino u (freeinode st)) = 0
     \<and> i_type (ino u (freeinode st)) = ty \<and> freeblock u = freeblock st \<and> nsects u = nsects st
     \<and> (\<forall>j. 1 \<le> j \<and> j < freeinode st \<longrightarrow> ino u j = ino st j \<and> content u j = content st j)
     \<and> (\<forall>k < 32. img u k = img st k)"

lemma nb_0 [simp]: "nb 0 = 0"
  by (simp add: nb_def BSIZE_def)

lemma empty_file:
  assumes "i_size x = 0" and "addrs x = replicate (NDIRECT + 1) 0"
  shows "mk_file u x 0" and "owns v x 0 = {}" and "tail0 v x 0"
proof -
  have "addrs x ! bn = 0" if "bn \<le> NDIRECT" for bn unfolding assms(2) using that by (intro nth_replicate) simp
  then show "mk_file u x 0" by (simp add: mk_file_def assms own_blocks_def owns_def)
qed (simp_all add: owns_def tail0_def)

lemma mk_ialloc_spec:
  assumes ok: "mk_ok st" and n: "freeinode st < 208" and ty: "fits16 ty"
  obtains u where "mk_ialloc ty st = Some (freeinode st, u)" and "created st ty u"
proof -
  let ?n = "freeinode st" and ?x = "blank\<lparr>i_type := ty, i_nlink := 1\<rparr>"
  let ?t = "st\<lparr>freeinode := freeinode st + 1\<rparr>"
  have it: "mk_img ?t" and fb: "freeblock st \<le> nsects st" and n1: "1 \<le> ?n" using ok by (simp_all add: mk_ok_def mk_img_def)
  have x: "on_disk ?x" "inode_fits ?x" using ty by (simp_all add: on_disk_def blank_def inode_fits_def fits16_def)
  obtain u where u: "winode ?n ?x ?t = Some u" "ino u ?n = ?x" "\<forall>j. j \<noteq> ?n \<longrightarrow> ino u j = ino ?t j"
    "\<forall>k. 58 \<le> k \<or> k < 32 \<longrightarrow> img u k = img ?t k" "mk_img u" "freeblock u = freeblock ?t" "freeinode u = freeinode ?t" "nsects u = nsects ?t"
    by (rule winode_spec [OF it n x])
  have same: "ino u j = ino st j" if "j \<noteq> ?n" for j using u(3) that by (simp add: ino_def)
  have other: "\<forall>k \<in> blocks_of st j. img u k = img st k" if "1 \<le> j" "j < ?n" for j
  proof
    fix k assume "k \<in> blocks_of st j"
    moreover have "blocks_of st j \<subseteq> {nmeta..<freeblock st}" using ok that by (simp add: mk_ok_def mk_file_def)
    ultimately have "nmeta \<le> k" by auto
    then show "img u k = img st k" using u(4) by (simp add: layout)
  qed
  have O: "mk_file u (ino u j) (nb (i_size (ino u j)))" "content u j = content st j" "blocks_of u j = blocks_of st j"
    "tail0 (img u) (ino u j) (i_size (ino u j))" if "1 \<le> j" "j < ?n" for j
    using other_file [OF ok that same other [OF that]] that u(6) by simp_all
  have E: "mk_file u ?x 0" "owns (img u) ?x 0 = {}" "tail0 (img u) ?x 0" "i_size ?x = 0"
    by (rule empty_file; simp add: blank_def)+ (simp add: blank_def)
  have "mk_file u (ino u j) (nb (i_size (ino u j))) \<and> i_size (ino u j) \<le> MAXFILE * BSIZE \<and> tail0 (img u) (ino u j) (i_size (ino u j))"
    if "1 \<le> j" "j < ?n + 1" for j
  proof (cases "j = ?n")
    case True
    with E u(2) show ?thesis by simp
  next
    case False
    then show ?thesis using O [of j] that same [of j] ok by (simp add: mk_ok_def)
  qed
  moreover have "blocks_of u j \<inter> blocks_of u k = {}" if "1 \<le> j" "j < ?n + 1" "1 \<le> k" "k < ?n + 1" "j \<noteq> k" for j k
  proof (cases "j = ?n \<or> k = ?n")
    case True
    then show ?thesis using E(2,4) u(2) by auto
  next
    case False
    then show ?thesis using O(3) [of j] O(3) [of k] that ok by (simp add: mk_ok_def)
  qed
  ultimately have "mk_ok u" unfolding mk_ok_def using u(5-8) n n1 fb by simp
  moreover have "mk_ialloc ty st = Some (?n, u)" using u(1) by (simp add: mk_ialloc_def)
  moreover have "content u ?n = []" using u(2) E(4) by (simp add: content_def file_bytes_def)
  ultimately show thesis using that u E(4) same O(2) by (simp add: created_def)
qed

section \<open>Directory images\<close>

lemma find_map_Suc: "find P (map Suc xs) = map_option Suc (find (\<lambda>k. P (Suc k)) xs)"
  by (induction xs) auto

lemma dir_map_Cons:
  assumes "length e = sizeof_dirent"
  shows "dir_map (e @ bs) key = (if de_inum e \<noteq> 0 \<and> nm (de_name e) = key then Some (de_inum e) else dir_map bs key)"
proof -
  have n: "nents (e @ bs) = Suc (nents bs)" using assms by (simp add: nents_def sizeof_dirent_def)
  have e0: "entry (e @ bs) 0 = e" and es: "entry (e @ bs) (Suc k) = entry bs k" for k
    using assms by (simp_all add: entry_def)
  have sh: "(\<lambda>k. entry_is (e @ bs) key (Suc k)) = entry_is bs key" by (simp add: fun_eq_iff entry_is_def es)
  have "dir_slot (e @ bs) key = (if entry_is (e @ bs) key 0 then Some 0 else map_option Suc (dir_slot bs key))"
    unfolding dir_slot_def n upt_conv_Cons [OF zero_less_Suc] map_Suc_upt [symmetric] find_map_Suc
    by (simp add: find_map_Suc sh)
  then show ?thesis by (auto simp: dir_map_def entry_is_def e0 es option.map_comp o_def)
qed

lemma dir_map_zeroes: "dir_map (replicate n 0) key = None"
proof -
  have "de_inum (entry (replicate n 0) k) = 0" if "k < nents (replicate n (0 :: byte))" for k
  proof -
    have "sizeof_dirent * Suc k \<le> n" using that by (simp add: nents_def sizeof_dirent_def)
    then show ?thesis by (simp add: de_inum_def get16_def entry_def sizeof_dirent_def)
  qed
  then show ?thesis by (simp add: dir_map_def dir_slot_def find_None_iff entry_is_def)
qed

definition ent_pair :: "byte list \<Rightarrow> byte list \<times> nat" where
  "ent_pair e = (nm (de_name e), de_inum e)"

lemma dir_map_image:
  assumes "\<forall>e \<in> set es. length e = sizeof_dirent \<and> de_inum e \<noteq> 0"
  shows "dir_map (concat es @ replicate n 0) = map_of (map ent_pair es)"
  using assms
proof (induction es)
  case Nil
  show ?case by (rule ext) (simp add: dir_map_zeroes)
next
  case (Cons e es)
  then show ?case by (intro ext) (simp add: dir_map_Cons ent_pair_def)
qed

lemma ent_pair_enc: "inum < 2 ^ 16 \<Longrightarrow> ent_pair (enc_dirent inum name) = (nm name, inum)"
  using dirent_roundtrip [of inum name "de_name (enc_dirent inum name)"] by (simp add: ent_pair_def namecmp_eq nm_def)

section \<open>The bitmap\<close>

lemma length_mark_loop [simp]: "length (mark_loop n) = BSIZE"
  by (induction n) (simp_all add: mark_bit_def)

lemma mark_loop_clear: "n \<le> BPB \<Longrightarrow> b < BPB \<Longrightarrow> bit_clear (mark_loop n) b \<longleftrightarrow> n \<le> b"
proof (induction n)
  case 0
  then have "b div 8 < BSIZE" by (simp add: BPB_def less_mult_imp_div_less)
  then show ?case by (simp add: bit_clear_def)
next
  case (Suc n)
  then show ?case using mark_bit_clear [of n b "mark_loop n"] by (auto simp: Suc_le_eq)
qed

section \<open>The program\<close>

lemma changed_refl: "mk_ok st \<Longrightarrow> changed st i (content st i) st"
  by (simp add: changed_def content_def file_bytes_def)

lemma changed_trans:
  assumes "changed st i a t" and "changed t i b u"
  shows "changed st i b u"
  using assms unfolding changed_def by auto

lemma size_content: "i_size (ino st i) = length (content st i)"
  by (simp add: content_def file_bytes_def)

lemma iappend_all_spec:
  assumes "mk_ok st" and "1 \<le> i" and "i < freeinode st" and "length (content st i @ concat ps) \<le> MAXFILE * BSIZE"
    and "freeblock st + cost (nb (length (content st i @ concat ps))) \<le> nsects st + cost (nb (length (content st i)))"
  shows "\<exists>u. iappend_all i ps st = Some u \<and> changed st i (content st i @ concat ps) u"
  using assms
proof (induction ps arbitrary: st)
  case Nil
  then show ?case using changed_refl [of st i] by simp
next
  case (Cons p ps)
  let ?c = "content st i"
  have m: "cost (nb (length ?c + length p)) \<le> cost (nb (length (?c @ concat (p # ps))))" by (intro cost_mono) simp
  obtain t where t: "iappend i p st = Some t" "changed st i (?c @ p) t"
    by (rule iappend_spec [OF Cons.prems(1-3), of p]) (use Cons.prems(4,5) m in \<open>simp_all add: size_content\<close>)
  have c: "content t i = ?c @ p" "mk_ok t" "freeinode t = freeinode st" "nsects t = nsects st"
    "freeblock t + cost (nb (length ?c)) = freeblock st + cost (nb (length (?c @ p)))"
    using t(2) by (simp_all add: changed_def size_content)
  from Cons.IH [of t] c Cons.prems(2-5) obtain u where
    u: "iappend_all i ps t = Some u" "changed t i ((?c @ p) @ concat ps) u" by auto
  then show ?case using t(1) changed_trans [OF t(2) u(2)] by simp
qed

text \<open>The image with the files \<open>fs\<close>, each a name and a content, in the order of their inode numbers.\<close>

definition root_ents :: "(byte list \<times> byte list) list \<Rightarrow> byte list list" where
  "root_ents fs = enc_dirent 1 [46] # enc_dirent 1 [46, 46] # map (\<lambda>(f, i). enc_dirent i (fst f)) (zip fs [2..<2 + length fs])"

definition need :: "(byte list \<times> byte list) list \<Rightarrow> nat" where
  "need fs = cost (nb (sizeof_dirent * (2 + length fs))) + (\<Sum>f\<leftarrow>fs. cost (nb (length (snd f))))"

definition built :: "mkst \<Rightarrow> (byte list \<times> byte list) list \<Rightarrow> bool" where
  "built st fs \<longleftrightarrow> mk_ok st \<and> nsects st = FSSIZE \<and> freeinode st = 2 + length fs \<and> freeblock st = nmeta + need fs
     \<and> i_type (ino st 1) = T_DIR \<and> content st 1 = concat (root_ents fs) \<and> img st 1 = sb_block
     \<and> (\<forall>k < length fs. i_type (ino st (k + 2)) = T_FILE \<and> content st (k + 2) = snd (fs ! k))"

lemma enc_dirent_length: "length (enc_dirent inum name) = sizeof_dirent"
  using dirent_roundtrip [of 0] by (simp add: enc_dirent_def sizeof_dirent_def pad_name_def Let_def DIRSIZ_def length_cstrn_le enc16_def)

lemma root_ents_snoc: "concat (root_ents (fs @ [f])) = concat (root_ents fs) @ enc_dirent (2 + length fs) (fst f)"
proof -
  have "[2..<2 + length (fs @ [f])] = [2..<2 + length fs] @ [2 + length fs]" using upt_Suc_append [of 2 "2 + length fs"] by simp
  then show ?thesis by (simp add: root_ents_def zip_append1 del: upt_Suc upt_Suc_append)
qed

lemma length_root: "length (concat (root_ents fs)) = sizeof_dirent * (2 + length fs)"
proof (induction fs rule: rev_induct)
  case Nil
  show ?case by (simp add: root_ents_def enc_dirent_length)
next
  case (snoc f fs)
  then show ?case unfolding root_ents_snoc by (simp add: enc_dirent_length)
qed

lemma add_file_spec:
  assumes b: "built st fs" and n: "length fs < 206" and arg: "slash \<notin> set arg" and sz: "length (concat ps) \<le> MAXFILE * BSIZE"
    and room: "nmeta + need (fs @ [(host_name arg, concat ps)]) \<le> FSSIZE"
  obtains u where "add_file 1 (arg, Some ps) st = Some u" and "built u (fs @ [(host_name arg, concat ps)])"
proof -
  let ?i = "2 + length fs" and ?f = "(host_name arg, concat ps)"
  let ?e = "enc_dirent ?i (host_name arg)"
  have ok: "mk_ok st" and fi: "freeinode st = ?i" and ns: "nsects st = FSSIZE" and fb: "freeblock st = nmeta + need fs"
    and root: "content st 1 = concat (root_ents fs)" using b by (simp_all add: built_def)
  have nd: "need (fs @ [?f]) + cost (nb (length (content st 1))) = need fs + cost (nb (length (content st 1 @ ?e))) + cost (nb (length (concat ps)))"
    using root length_root [of fs] by (simp add: need_def enc_dirent_length ac_simps)
  obtain t where t: "mk_ialloc T_FILE st = Some (?i, t)" "created st T_FILE t"
    by (rule mk_ialloc_spec [OF ok, of T_FILE]) (use n in \<open>simp_all add: fi T_FILE_def fits16_def\<close>)
  note T = t(2) [unfolded created_def fi]
  have ct: "content t 1 = content st 1" "ino t 1 = ino st 1" using T by simp_all
  have big: "length (content st 1 @ ?e) \<le> MAXFILE * BSIZE"
    using n unfolding root by (simp add: length_root enc_dirent_length sizeof_dirent_def MAXFILE_def NDIRECT_def NINDIRECT_def BSIZE_def)
  obtain v where v: "iappend 1 ?e t = Some v" "changed t 1 (content t 1 @ ?e) v"
    by (rule iappend_spec [of t 1 ?e]) (use T big nd room fb ns in \<open>simp_all add: size_content\<close>)
  note V = v(2) [unfolded changed_def]
  have cv: "content v ?i = []" "freeinode v = ?i + 1" using V T by simp_all
  have fv: "freeblock v + cost (nb (length (content st 1))) = freeblock st + cost (nb (length (content st 1 @ ?e)))"
    using V T ct by (simp add: size_content)
  have "\<exists>u. iappend_all ?i ps v = Some u \<and> changed v ?i (content v ?i @ concat ps) u"
    by (rule iappend_all_spec) (use V T cv fv nd room fb ns sz in simp_all)
  then obtain u where u: "iappend_all ?i ps v = Some u" "changed v ?i (concat ps) u" using cv by auto
  note U = u(2) [unfolded changed_def]
  have "add_file 1 (arg, Some ps) st = Some u" using arg t(1) v(1) u(1) by (simp add: add_file_def)
  moreover have "built u (fs @ [?f])" unfolding built_def
  proof (intro conjI allI impI)
    show "freeblock u = nmeta + need (fs @ [?f])" using U fv nd fb cv by (simp add: size_content)
    show "content u 1 = concat (root_ents (fs @ [?f]))" using U V ct root cv(2) unfolding root_ents_snoc by simp
    show "i_type (ino u 1) = T_DIR" using U V ct(2) cv(2) b by (simp add: built_def)
    show "img u 1 = sb_block" using U V T b by (simp add: built_def)
    fix k assume "k < length (fs @ [?f])"
    then consider "k < length fs" | "k = length fs" by fastforce
    then show "i_type (ino u (k + 2)) = T_FILE" "content u (k + 2) = snd ((fs @ [?f]) ! k)"
      by (cases; use U V T b in \<open>simp add: built_def nth_append\<close>)+
  qed (use U V T ns in simp_all)
  ultimately show thesis by (rule that)
qed

definition host_file :: "byte list \<times> byte list list option \<Rightarrow> byte list \<times> byte list" where
  "host_file f = (host_name (fst f), concat (the (snd f)))"

text \<open>What \<open>mkfs\<close> can put on a disk: names without a slash, files that open and are not too long, and room for it all.\<close>

definition fits :: "(byte list \<times> byte list list option) list \<Rightarrow> bool" where
  "fits files \<longleftrightarrow> (\<forall>f \<in> set files. slash \<notin> set (fst f) \<and> snd f \<noteq> None \<and> length (snd (host_file f)) \<le> MAXFILE * BSIZE)
     \<and> length files \<le> 206 \<and> nmeta + need (map host_file files) \<le> FSSIZE"

lemma need_mono: "need fs \<le> need (fs @ gs)"
proof -
  have "cost (nb (sizeof_dirent * (2 + length fs))) \<le> cost (nb (sizeof_dirent * (2 + length (fs @ gs))))" by (intro cost_mono) simp
  then show ?thesis by (simp add: need_def)
qed

lemma add_files_spec:
  assumes "built st fs" and "\<forall>f \<in> set files. slash \<notin> set (fst f) \<and> snd f \<noteq> None \<and> length (snd (host_file f)) \<le> MAXFILE * BSIZE"
    and "length fs + length files \<le> 206" and "nmeta + need (fs @ map host_file files) \<le> FSSIZE"
  shows "\<exists>u. add_files 1 files st = Some u \<and> built u (fs @ map host_file files)"
  using assms
proof (induction files arbitrary: st fs)
  case Nil
  then show ?case by simp
next
  case (Cons f files)
  obtain arg ps where f: "f = (arg, Some ps)" using Cons.prems(2) by (cases f) auto
  have hf: "host_file f = (host_name arg, concat ps)" by (simp add: f host_file_def)
  have "nmeta + need (fs @ [host_file f]) \<le> FSSIZE"
    using Cons.prems(4) need_mono [of "fs @ [host_file f]" "map host_file files"] by simp
  then obtain t where t: "add_file 1 f st = Some t" "built t (fs @ [host_file f])"
    using add_file_spec [OF Cons.prems(1), of arg ps] Cons.prems(2,3) unfolding hf f by (auto simp: hf f host_file_def)
  from Cons.IH [OF t(2)] Cons.prems(2-4) obtain u where "add_files 1 files t = Some u" "built u ((fs @ [host_file f]) @ map host_file files)"
    by auto
  then show ?case using t(1) by simp
qed

lemma fresh_image_ok: "mk_ok fresh_image" "freeinode fresh_image = 1" "freeblock fresh_image = nmeta" "nsects fresh_image = FSSIZE"
  "img fresh_image 1 = sb_block"
proof -
  have "length sb_block = BSIZE" by (simp add: sb_block_def enc32_def BSIZE_def)
  then show "mk_ok fresh_image" by (simp add: fresh_image_def wsect_def mk_ok_def mk_img_def layout FSSIZE_def)
qed (simp_all add: fresh_image_def wsect_def FSSIZE_def)

lemma empty_root:
  obtains st where "(case mk_ialloc T_DIR fresh_image of None \<Rightarrow> None | Some (r, st) \<Rightarrow> if r = ROOTINO then
      Option.bind (iappend r (enc_dirent r [46]) st) (\<lambda>st. iappend r (enc_dirent r [46, 46]) st) else None) = Some st"
    and "built st []"
proof -
  note F = fresh_image_ok
  have ty: "fits16 T_DIR" by (simp add: T_DIR_def fits16_def)
  obtain t where t: "mk_ialloc T_DIR fresh_image = Some (1, t)" "created fresh_image T_DIR t"
    by (rule mk_ialloc_spec [OF F(1) _ ty]) (use F(2) in simp_all)
  note T = t(2) [unfolded created_def F(2)]
  have small: "2 * sizeof_dirent \<le> MAXFILE * BSIZE" "nb sizeof_dirent = 1" "nb (2 * sizeof_dirent) = 1" "cost 1 = 1"
    by (simp_all add: sizeof_dirent_def MAXFILE_def NDIRECT_def NINDIRECT_def BSIZE_def nb_def cost_def)
  obtain v where v: "iappend 1 (enc_dirent 1 [46]) t = Some v" "changed t 1 (enc_dirent 1 [46]) v"
    by (rule iappend_spec [of t 1 "enc_dirent 1 [46]"])
      (use T F small in \<open>simp_all add: size_content enc_dirent_length layout FSSIZE_def\<close>)
  note V = v(2) [unfolded changed_def]
  obtain u where u: "iappend 1 (enc_dirent 1 [46, 46]) v = Some u" "changed v 1 (content v 1 @ enc_dirent 1 [46, 46]) u"
    by (rule iappend_spec [of v 1 "enc_dirent 1 [46, 46]"])
      (use V T F small in \<open>simp_all add: size_content enc_dirent_length layout FSSIZE_def mult_2 [symmetric]\<close>)
  note U = u(2) [unfolded changed_def]
  have "built u []"
    using U V T F small unfolding built_def
    by (simp add: size_content enc_dirent_length root_ents_def need_def mult_2 [symmetric] mult.commute)
  then show thesis using that t(1) v(1) u(1) by (simp add: ROOTINO_def)
qed

text \<open>The root directory is padded to whole blocks, with bytes that are zero already.\<close>

lemma fix_root_spec:
  assumes ok: "mk_ok st" and i: "1 \<le> i" "i < freeinode st" and sz: "i_size (ino st i) mod BSIZE \<noteq> 0"
  obtains u where "fix_root i st = Some u" and "mk_ok u" and "ino u i = (ino st i)\<lparr>i_size := nb (i_size (ino st i)) * BSIZE\<rparr>"
    and "content u i = content st i @ replicate (nb (i_size (ino st i)) * BSIZE - i_size (ino st i)) 0"
    and "\<forall>j. 1 \<le> j \<and> j < freeinode st \<and> j \<noteq> i \<longrightarrow> ino u j = ino st j \<and> content u j = content st j"
    and "\<forall>k. 58 \<le> k \<or> k < 32 \<longrightarrow> img u k = img st k" and "freeblock u = freeblock st" and "freeinode u = freeinode st"
proof -
  let ?x = "ino st i" and ?sz = "i_size (ino st i)"
  let ?n = "nb ?sz" and ?y = "?x\<lparr>i_size := nb ?sz * BSIZE\<rparr>"
  have B: "0 < BSIZE" "?sz mod BSIZE < BSIZE" by (simp_all add: BSIZE_def)
  have n: "?n = ?sz div BSIZE + 1" using nb_step(2) [of 1 ?sz] sz B by simp
  have st: "mk_img st" "freeblock st \<le> nsects st" "nmeta \<le> nsects st" "i < 208" using ok i by (auto simp: mk_ok_def mk_img_def)
  have f: "mk_file st ?x ?n" "tail0 (img st) ?x ?sz" using ok i by (simp_all add: mk_ok_def)
  have bd: "blocks_of st i \<subseteq> {nmeta..<freeblock st}" "?n * BSIZE \<le> MAXFILE * BSIZE" using f(1) by (simp_all add: mk_file_def)
  have r: "rinode i st = Some ?x" using IBLOCK_bound [OF st(4)] st(3) by (simp add: rinode_def rsect_def ino_def layout)
  have od: "on_disk ?y" using on_disk_ino [of st i] unfolding on_disk_def by (cases "ino st i") simp
  have fits: "inode_fits ?y" by (rule mk_file_fits [of st _ ?n]) (use f(1) st bd in simp_all)
  obtain u where u: "winode i ?y st = Some u" "ino u i = ?y" "\<forall>j. j \<noteq> i \<longrightarrow> ino u j = ino st j"
    "\<forall>k. 58 \<le> k \<or> k < 32 \<longrightarrow> img u k = img st k" "mk_img u" "freeblock u = freeblock st" "freeinode u = freeinode st" "nsects u = nsects st"
    by (rule winode_spec [OF st(1,4) od fits])
  have same: "\<forall>k \<in> blocks_of st j. img u k = img st k" if "1 \<le> j" "j < freeinode st" for j
  proof -
    have "blocks_of st j \<subseteq> {nmeta..<freeblock st}" using ok that by (simp add: mk_ok_def mk_file_def)
    then show ?thesis using u(4) by (auto simp: layout)
  qed
  note S = same_file [OF same [OF i]]
  have nn: "nb (i_size ?y) = ?n" using nb_split(2) by simp
  have "mk_ok u"
  proof (rule mk_ok_replace [OF ok i u(7) _ _ u(5)])
    show "mk_file u (ino u i) (nb (i_size (ino u i)))" unfolding u(2) nn mk_file_size
      by (rule mk_file_cong [OF f(1) same [OF i]]) (simp add: u(6))
    show "tail0 (img u) (ino u i) (i_size (ino u i))" unfolding u(2) tail0_def nn by auto
    show "blocks_of u i \<subseteq> blocks_of st i \<union> {freeblock st..<freeblock u}" unfolding u(2) nn using S(3) by simp
  qed (use u st bd same in \<open>auto simp: u(2)\<close>)
  moreover have "content u i = content st i @ replicate (?n * BSIZE - ?sz) 0"
  proof (rule nth_equalityI)
    have le: "?sz \<le> ?n * BSIZE" by (rule nb_bound)
    then show "length (content u i) = length (content st i @ replicate (?n * BSIZE - ?sz) 0)"
      by (simp add: content_def file_bytes_def u(2))
    fix m assume "m < length (content u i)"
    then have "m < ?n * BSIZE" by (simp add: content_def file_bytes_def u(2))
    then show "content u i ! m = (content st i @ replicate (?n * BSIZE - ?sz) 0) ! m"
      using S(2) f(2) le by (auto simp: content_def file_bytes_def u(2) nth_append tail0_def)
  qed
  moreover have "ino u j = ino st j \<and> content u j = content st j" if "1 \<le> j \<and> j < freeinode st \<and> j \<noteq> i" for j
    using other_file(2) [OF ok _ _ _ same, of j] that u(3,6) by simp
  moreover have "fix_root i st = Some u" using r u(1) n by (simp add: fix_root_def)
  ultimately show thesis using that u by blast
qed

lemma mk_balloc_spec:
  assumes ok: "mk_ok st" and n: "freeblock st \<le> FSSIZE"
  obtains u where "mk_balloc (freeblock st) st = Some u" and "mk_ok u" and "\<forall>b < FSSIZE. used (img u) mk_sb b \<longleftrightarrow> b < freeblock st"
    and "freeblock u = freeblock st" and "freeinode u = freeinode st" and "img u 1 = img st 1"
    and "\<forall>j. 1 \<le> j \<and> j < freeinode st \<longrightarrow> ino u j = ino st j \<and> content u j = content st j"
proof -
  let ?u = "wsect 58 (mark_loop (freeblock st)) st"
  have st: "mk_img st" "freeinode st \<le> 208" using ok by (simp_all add: mk_ok_def)
  have B: "BPB = 4096" by (simp add: BPB_def BSIZE_def)
  have v: "img ?u = (img st)(58 := mark_loop (freeblock st))" "freeblock ?u = freeblock st" "freeinode ?u = freeinode st" "nsects ?u = nsects st"
    using st(1) by (auto simp: wsect_def mk_img_def layout)
  have iu: "mk_img ?u" using st(1) unfolding mk_img_def v by (simp add: layout)
  have e: "ino ?u j = ino st j" if "j < freeinode st" for j
    using IBLOCK_bound [of j] that st(2) by (simp add: ino_def v)
  have same: "\<forall>k \<in> blocks_of st j. img ?u k = img st k" if "1 \<le> j" "j < freeinode st" for j
  proof -
    have "blocks_of st j \<subseteq> {nmeta..<freeblock st}" using ok that by (simp add: mk_ok_def mk_file_def)
    then show ?thesis unfolding v by (auto simp: layout)
  qed
  have fb: "freeblock st \<le> freeblock ?u" by (simp add: v)
  have O: "mk_file ?u (ino ?u j) (nb (i_size (ino ?u j)))" "content ?u j = content st j" "blocks_of ?u j = blocks_of st j"
    "tail0 (img ?u) (ino ?u j) (i_size (ino ?u j))" if "1 \<le> j" "j < freeinode st" for j
    by (rule other_file [OF ok that e [OF that(2)] same [OF that] fb])+
  have "mk_ok ?u" unfolding mk_ok_def v(2-4)
    using iu ok O e by (simp add: mk_ok_def)
  moreover have "used (img ?u) mk_sb b \<longleftrightarrow> b < freeblock st" if "b < FSSIZE" for b
    using that mark_loop_clear [of "freeblock st" b] n by (auto simp: used_def v BBLOCK_def layout B FSSIZE_def)
  moreover have "mk_balloc (freeblock st) st = Some ?u" using n by (simp add: mk_balloc_def layout FSSIZE_def BSIZE_def)
  ultimately show thesis using that [of ?u] v O(2) e by auto
qed

lemma root_ents_pairs:
  assumes "length fs \<le> 206"
  shows "\<forall>e \<in> set (root_ents fs). length e = sizeof_dirent \<and> de_inum e \<noteq> 0"
    and "map ent_pair (root_ents fs) = [(nm [46], ROOTINO), (nm [46, 46], ROOTINO)] @ zip (map (\<lambda>f. nm (fst f)) fs) [2..<2 + length fs]"
proof -
  let ?z = "zip fs [2..<2 + length fs]"
  have b: "2 \<le> i \<and> i < 2 ^ 16" if "(f, i) \<in> set ?z" for f i using set_zip_rightD [OF that] assms by auto
  have m: "map ent_pair (map (\<lambda>(f, i). enc_dirent i (fst f)) ?z) = map (\<lambda>(f, i). (nm (fst f), i)) ?z"
  proof (unfold map_map, rule map_cong [OF refl])
    fix p assume "p \<in> set ?z"
    then have "snd p < 2 ^ 16" using b [of "fst p" "snd p"] by simp
    from ent_pair_enc [OF this] show "(ent_pair \<circ> (\<lambda>(f, i). enc_dirent i (fst f))) p = (\<lambda>(f, i). (nm (fst f), i)) p"
      by (simp add: split_def)
  qed
  have "map (\<lambda>(f, i). (nm (fst f), i)) ?z = zip (map (\<lambda>f. nm (fst f)) fs) [2..<2 + length fs]"
    by (simp add: zip_map1 split_def)
  with m show "map ent_pair (root_ents fs) = [(nm [46], ROOTINO), (nm [46, 46], ROOTINO)] @ zip (map (\<lambda>f. nm (fst f)) fs) [2..<2 + length fs]"
    by (simp add: root_ents_def ent_pair_enc ROOTINO_def del: map_map upt_Suc)
  have d: "length (enc_dirent i name) = sizeof_dirent \<and> de_inum (enc_dirent i name) \<noteq> 0" if "i < 2 ^ 16" "0 < i" for i name
    using dirent_roundtrip [OF that(1), of name] that(2) by simp
  show "\<forall>e \<in> set (root_ents fs). length e = sizeof_dirent \<and> de_inum e \<noteq> 0"
  proof
    fix e assume "e \<in> set (root_ents fs)"
    then consider "e = enc_dirent 1 [46]" | "e = enc_dirent 1 [46, 46]" | f i where "(f, i) \<in> set ?z" "e = enc_dirent i (fst f)"
      unfolding root_ents_def set_simps set_map insert_iff image_iff by (elim disjE bexE) auto
    then show "length e = sizeof_dirent \<and> de_inum e \<noteq> 0"
    proof cases
      case (3 f i)
      then show ?thesis using b [of f i] d [of i "fst f"] by simp
    qed (use d [of 1] in simp_all)
  qed
qed

lemma mkfs_state:
  assumes f: "fits files" and r: "(2 + length files) mod 32 \<noteq> 0"
  obtains st n where "mkfs files = Some st" and "mk_ok st" and "freeinode st = 2 + length files" and "i_type (ino st 1) = T_DIR"
    and "content st 1 = concat (root_ents (map host_file files)) @ replicate n 0"
    and "\<forall>b < FSSIZE. used (img st) mk_sb b \<longleftrightarrow> b < freeblock st"
    and "\<forall>k < length files. i_type (ino st (k + 2)) = T_FILE \<and> content st (k + 2) = snd (map host_file files ! k)"
proof -
  let ?fs = "map host_file files"
  obtain s0 where s0: "(case mk_ialloc T_DIR fresh_image of None \<Rightarrow> None | Some (r, st) \<Rightarrow> if r = ROOTINO then
      Option.bind (iappend r (enc_dirent r [46]) st) (\<lambda>st. iappend r (enc_dirent r [46, 46]) st) else None) = Some s0" "built s0 []"
    by (rule empty_root)
  from add_files_spec [OF s0(2), of files] f obtain s1 where s1: "add_files 1 files s0 = Some s1" "built s1 ?fs"
    by (auto simp: fits_def)
  note B = s1(2) [unfolded built_def]
  have i: "(1 :: nat) \<le> 1" "1 < freeinode s1" "mk_ok s1" using B by simp_all
  have sz: "i_size (ino s1 1) = sizeof_dirent * (2 + length files)" using B by (simp add: size_content length_root)
  have m: "i_size (ino s1 1) mod BSIZE \<noteq> 0" using r mult_mod_right [of 16 "2 + length files" 32] unfolding sz by (simp add: sizeof_dirent_def BSIZE_def)
  obtain s2 where s2: "fix_root 1 s1 = Some s2" "mk_ok s2" "ino s2 1 = (ino s1 1)\<lparr>i_size := nb (i_size (ino s1 1)) * BSIZE\<rparr>"
    "content s2 1 = content s1 1 @ replicate (nb (i_size (ino s1 1)) * BSIZE - i_size (ino s1 1)) 0"
    "\<forall>j. 1 \<le> j \<and> j < freeinode s1 \<and> j \<noteq> 1 \<longrightarrow> ino s2 j = ino s1 j \<and> content s2 j = content s1 j"
    "freeblock s2 = freeblock s1" "freeinode s2 = freeinode s1"
    by (rule fix_root_spec [OF i(3,1,2) m])
  have fb: "freeblock s2 \<le> FSSIZE" using B f s2(6) by (simp add: fits_def)
  obtain u where u: "mk_balloc (freeblock s2) s2 = Some u" "mk_ok u" "\<forall>b < FSSIZE. used (img u) mk_sb b \<longleftrightarrow> b < freeblock s2"
    "freeblock u = freeblock s2" "freeinode u = freeinode s2"
    "\<forall>j. 1 \<le> j \<and> j < freeinode s2 \<longrightarrow> ino u j = ino s2 j \<and> content u j = content s2 j"
    by (rule mk_balloc_spec [OF s2(2) fb])
  have run: "mkfs files = Some u"
    using s0(1) s1(1) s2(1) u(1) by (auto simp: mkfs_def ROOTINO_def bind_eq_Some_conv split: option.splits if_splits prod.splits)
  have "i_type (ino u (k + 2)) = T_FILE \<and> content u (k + 2) = snd (?fs ! k)" if "k < length files" for k
    using that B s2(5,7) u(6) by simp
  moreover have "i_type (ino u 1) = T_DIR" "content u 1 = concat (root_ents ?fs) @ replicate (nb (i_size (ino s1 1)) * BSIZE - i_size (ino s1 1)) 0"
    using u(6) s2(3,4,7) B by simp_all
  ultimately show thesis using that [OF run u(2)] u(3-5) s2(7) B by simp
qed

section \<open>Properties\<close>



end
