(* ===== verification/Ide.thy ===== *)
theory Ide
  imports Bio
begin

text \<open>
  The disk driver \<open>src/lab10xv6/xv6/ide.c\<close>: a queue of buffers, linked through \<open>qnext\<close>, whose head is the request that the
  controller is working on.

  \<open>outb\<close> stores a byte in a port of the controller; a write to the command port makes it busy.  \<open>dev_done\<close> is the
  controller finishing its command on the sector that its ports name.  \<open>idewait\<close> polls until the controller is ready,
  which it is taken to become; whether it then reports an error is the argument \<open>err\<close>.  The regions under \<open>idelock\<close> are
  one step: \<open>iderw_submit\<close> is \<open>iderw\<close> up to its \<open>while\<close> loop, \<open>iderw_wait\<close> the test of the loop.

  Shown: requests are served first come, first served, and each leaves its buffer valid, clean and equal to its block.
\<close>

section \<open>The controller\<close>

record ide_st = bio_st +
  idequeue :: "nat option"
  havedisk1 :: bool
  ports :: "nat \<Rightarrow> nat"
  dev_out :: "byte list"
  dev_busy :: bool
  disks :: "nat \<Rightarrow> nat \<Rightarrow> byte list"

definition IDE_CMD_READ :: nat where "IDE_CMD_READ = 0x20"
definition IDE_CMD_WRITE :: nat where "IDE_CMD_WRITE = 0x30"
definition IDE_CMD_RDMUL :: nat where "IDE_CMD_RDMUL = 0xc4"
definition IDE_CMD_WRMUL :: nat where "IDE_CMD_WRMUL = 0xc5"
definition SECTOR_SIZE :: nat where "SECTOR_SIZE = 512"

definition outb :: "nat \<Rightarrow> nat \<Rightarrow> ('z ide_st_scheme, unit) kern" where
  "outb p v = modk (\<lambda>s. s\<lparr>ports := (ports s)(p := v mod 256), dev_busy := (p = 0x1f7 \<or> dev_busy s)\<rparr>)"

definition outsl :: "byte list \<Rightarrow> ('z ide_st_scheme, unit) kern" where
  "outsl bs = modk (\<lambda>s. s\<lparr>dev_out := bs\<rparr>)"

definition dev_lba :: "(nat \<Rightarrow> nat) \<Rightarrow> nat" where
  "dev_lba ps = ps 0x1f3 + 2 ^ 8 * ps 0x1f4 + 2 ^ 16 * ps 0x1f5 + 2 ^ 24 * (ps 0x1f6 mod 16)"

definition dev_drive :: "(nat \<Rightarrow> nat) \<Rightarrow> nat" where
  "dev_drive ps = ps 0x1f6 div 16 mod 2"

definition insl :: "'z ide_st_scheme \<Rightarrow> byte list" where
  "insl s = disks s (dev_drive (ports s)) (dev_lba (ports s))"

definition dev_done :: "'z ide_st_scheme \<Rightarrow> 'z ide_st_scheme" where
  "dev_done s =
     (let s = (if ports s 0x1f7 = IDE_CMD_WRITE
               then s\<lparr>disks := (disks s)(dev_drive (ports s) := (disks s (dev_drive (ports s)))(dev_lba (ports s) := dev_out s))\<rparr>
               else s)
      in s\<lparr>dev_busy := False\<rparr>)"

section \<open>The driver\<close>

text \<open>The fields that \<open>idestart\<close> joins with \<open>|\<close> in port \<open>0x1f6\<close> do not overlap, so they are added.\<close>

definition idewait :: "bool \<Rightarrow> bool \<Rightarrow> int" where
  "idewait err checkerr = (if checkerr \<and> err then - 1 else 0)"

fun probe :: "nat list \<Rightarrow> bool" where
  "probe [] = False"
| "probe (r # rs) = (r \<noteq> 0 \<or> probe rs)"

text \<open>\<open>ideinit\<close>: \<open>rs\<close> are the values that the status port gives for disk 1, of which at most 1000 are read.  Routing
  the interrupt (\<open>ioapicenable\<close>) is left out.\<close>

definition ideinit :: "nat list \<Rightarrow> ('z ide_st_scheme, unit) kern" where
  "ideinit rs =
     bnd (initlock IdeLock) (\<lambda>_.
     bnd (outb 0x1f6 (0xe0 + 2 ^ 4)) (\<lambda>_.
     bnd (modk (\<lambda>s. if probe (take 1000 rs) then s\<lparr>havedisk1 := True\<rparr> else s)) (\<lambda>_.
     outb 0x1f6 0xe0)))"

definition idestart :: "nat option \<Rightarrow> ('z ide_st_scheme, unit) kern" where
  "idestart bo =
     (case bo of
        None \<Rightarrow> panic ''idestart''
      | Some b \<Rightarrow>
          bnd (getk (\<lambda>s. bufs s b)) (\<lambda>x.
          if blockno x \<ge> FSSIZE then panic ''incorrect blockno''
          else let sector_per_block = BSIZE div SECTOR_SIZE;
                   sector = blockno x * sector_per_block;
                   read_cmd = (if sector_per_block = 1 then IDE_CMD_READ else IDE_CMD_RDMUL);
                   write_cmd = (if sector_per_block = 1 then IDE_CMD_WRITE else IDE_CMD_WRMUL)
               in if sector_per_block > 7 then panic ''idestart''
               else bnd (outb 0x3f6 0) (\<lambda>_.
                    bnd (outb 0x1f2 sector_per_block) (\<lambda>_.
                    bnd (outb 0x1f3 (sector mod 256)) (\<lambda>_.
                    bnd (outb 0x1f4 (sector div 2 ^ 8 mod 256)) (\<lambda>_.
                    bnd (outb 0x1f5 (sector div 2 ^ 16 mod 256)) (\<lambda>_.
                    bnd (outb 0x1f6 (0xe0 + 16 * (dev x mod 2) + sector div 2 ^ 24 mod 16)) (\<lambda>_.
                    if b_dirty x
                    then bnd (outb 0x1f7 write_cmd) (\<lambda>_. outsl (data x))
                    else outb 0x1f7 read_cmd))))))))"

text \<open>The processes that sleep on the buffer are woken; their \<open>iderw_wait\<close> succeeds from now on.\<close>

definition ideintr :: "bool \<Rightarrow> ('z ide_st_scheme, unit) kern" where
  "ideintr err =
     bnd (getk idequeue) (\<lambda>q.
     case q of
       None \<Rightarrow> ret ()
     | Some b \<Rightarrow>
         bnd (modk (\<lambda>s. s\<lparr>idequeue := qnext (bufs s b)\<rparr>)) (\<lambda>_.
         bnd (getk (\<lambda>s. b_dirty (bufs s b))) (\<lambda>d.
         bnd (if \<not> d \<and> idewait err True \<ge> 0
              then bnd (getk insl) (\<lambda>bs. upd_buf b (\<lambda>x. x\<lparr>data := bs\<rparr>))
              else ret ()) (\<lambda>_.
         bnd (upd_buf b (\<lambda>x. x\<lparr>b_valid := True, b_dirty := False\<rparr>)) (\<lambda>_.
         bnd (wakeup1 (BufChan b)) (\<lambda>_.
         bnd (getk idequeue) (\<lambda>q.
         if q \<noteq> None then idestart q else ret ())))))))"

text \<open>The walk \<open>pp = &(*pp)->qnext\<close>: the last buffer of the queue that starts with \<open>b\<close>.\<close>

partial_function (option) last_link :: "(nat \<Rightarrow> buf) \<Rightarrow> nat \<Rightarrow> nat option" where
  "last_link bs b = (case qnext (bs b) of None \<Rightarrow> Some b | Some c \<Rightarrow> last_link bs c)"

definition append_queue :: "nat \<Rightarrow> ('z ide_st_scheme, unit) kern" where
  "append_queue b s =
     (case idequeue s of
        None \<Rightarrow> Ok () (s\<lparr>idequeue := Some b\<rparr>)
      | Some h \<Rightarrow>
          (case last_link (bufs s) h of
             None \<Rightarrow> Block ''cyclic queue''
           | Some l \<Rightarrow> upd_buf l (\<lambda>x. x\<lparr>qnext := Some b\<rparr>) s))"

definition iderw_submit :: "nat \<Rightarrow> ('z ide_st_scheme, unit) kern" where
  "iderw_submit b =
     bnd (holdingsleep (BufSleep b)) (\<lambda>h.
     bnd (getk (\<lambda>s. bufs s b)) (\<lambda>x.
     bnd (getk havedisk1) (\<lambda>hd1.
     if \<not> h then panic ''iderw: buf not locked''
     else if b_valid x \<and> \<not> b_dirty x then panic ''iderw: nothing to do''
     else if dev x \<noteq> 0 \<and> \<not> hd1 then panic ''iderw: ide disk 1 not present''
     else bnd (upd_buf b (\<lambda>x. x\<lparr>qnext := None\<rparr>)) (\<lambda>_.
          bnd (append_queue b) (\<lambda>_.
          bnd (getk idequeue) (\<lambda>q.
          if q = Some b then idestart q else ret ()))))))"

definition iderw_wait :: "nat \<Rightarrow> ('z ide_st_scheme, unit) kern" where
  "iderw_wait b s = (if b_valid (bufs s b) \<and> \<not> b_dirty (bufs s b) then Ok () s else Block ''ide'')"

section \<open>The queue\<close>

fun qchain :: "(nat \<Rightarrow> buf) \<Rightarrow> nat option \<Rightarrow> nat list \<Rightarrow> bool" where
  "qchain bs p [] \<longleftrightarrow> p = None"
| "qchain bs p (b # q) \<longleftrightarrow> p = Some b \<and> qchain bs (qnext (bs b)) q"

lemma qchain_upd:
  assumes "b \<notin> set q"
  shows "qchain (bs(b := x)) p q = qchain bs p q"
  using assms by (induction q arbitrary: p) auto

lemma qchain_links: "(\<And>c. c \<in> set q \<Longrightarrow> qnext (bs' c) = qnext (bs c)) \<Longrightarrow> qchain bs' p q = qchain bs p q"
  by (induction q arbitrary: p) auto

lemma last_link_chain: "qchain bs (Some b) q \<Longrightarrow> last_link bs b = Some (last q)"
proof (induction q arbitrary: b)
  case (Cons c q)
  then show ?case by (subst last_link.simps) (cases q; auto)
qed simp

lemma qchain_snoc:
  assumes "qchain bs p q" and "distinct q" and "b \<notin> set q" and "q \<noteq> []" and "qnext (bs b) = None"
  shows "qchain (bs(last q := (bs (last q))\<lparr>qnext := Some b\<rparr>)) p (q @ [b])"
  using assms
proof (induction q arbitrary: p)
  case (Cons c q)
  show ?case
  proof (cases "q = []")
    case True
    with Cons.prems show ?thesis by auto
  next
    case False
    then have "last q \<noteq> c" using Cons.prems(2) last_in_set [OF False] by auto
    with Cons False show ?thesis by simp
  qed
qed simp

text \<open>A request, and the controller working on it.\<close>

definition asks :: "buf \<Rightarrow> bool" where
  "asks x \<longleftrightarrow> blockno x < FSSIZE \<and> (b_valid x \<longrightarrow> b_dirty x)"

definition working :: "'z ide_st_scheme \<Rightarrow> nat \<Rightarrow> bool" where
  "working s b \<longleftrightarrow> (let x = bufs s b in dev_busy s \<and> dev_lba (ports s) = blockno x \<and> dev_drive (ports s) = dev x mod 2
     \<and> ports s 0x1f7 = (if b_dirty x then IDE_CMD_WRITE else IDE_CMD_READ) \<and> (b_dirty x \<longrightarrow> dev_out s = data x))"

definition ide_ok :: "'z ide_st_scheme \<Rightarrow> nat list \<Rightarrow> bool" where
  "ide_ok s q \<longleftrightarrow> qchain (bufs s) (idequeue s) q \<and> distinct q \<and> (\<forall>b \<in> set q. asks (bufs s b))
     \<and> (if q = [] then \<not> dev_busy s else working s (hd q))"

lemma lba_split:
  fixes n :: nat
  assumes "n < 2 ^ 28"
  shows "n mod 256 + 2 ^ 8 * (n div 2 ^ 8 mod 256) + 2 ^ 16 * (n div 2 ^ 16 mod 256) + 2 ^ 24 * (n div 2 ^ 24 mod 16) = n"
proof -
  define a b c where "a = n div 2 ^ 8" and "b = a div 2 ^ 8" and "c = b div 2 ^ 8"
  have "n div 2 ^ 16 = b" "n div 2 ^ 24 = c" by (simp_all add: a_def b_def c_def div_mult2_eq [symmetric])
  moreover have "c < 16" using assms by (simp add: a_def b_def c_def div_mult2_eq [symmetric] less_mult_imp_div_less)
  moreover have "n = n mod 256 + 256 * a" "a = a mod 256 + 256 * b" "b = b mod 256 + 256 * c" by (simp_all add: a_def b_def c_def)
  ultimately show ?thesis unfolding a_def [symmetric] by simp
qed

definition programmed :: "buf \<Rightarrow> (nat \<Rightarrow> nat) \<Rightarrow> nat \<Rightarrow> nat" where
  "programmed x ps = ps(0x3f6 := 0, 0x1f2 := 1, 0x1f3 := blockno x mod 256, 0x1f4 := blockno x div 2 ^ 8 mod 256,
     0x1f5 := blockno x div 2 ^ 16 mod 256, 0x1f6 := 0xe0 + 16 * (dev x mod 2),
     0x1f7 := (if b_dirty x then IDE_CMD_WRITE else IDE_CMD_READ))"

lemma idestart_eq:
  assumes "blockno (bufs s b) < FSSIZE"
  shows "idestart (Some b) s = Ok () (s\<lparr>ports := programmed (bufs s b) (ports s), dev_busy := True,
    dev_out := (if b_dirty (bufs s b) then data (bufs s b) else dev_out s)\<rparr>)"
proof -
  have z: "blockno (bufs s b) div 16777216 = 0" using assms by (simp add: FSSIZE_def)
  have d: "(0xe0 + 16 * (dev (bufs s b) mod 2)) mod 256 = 0xe0 + 16 * (dev (bufs s b) mod 2)" by (rule mod_less) simp
  have c: "IDE_CMD_READ mod 256 = IDE_CMD_READ" "IDE_CMD_WRITE mod 256 = IDE_CMD_WRITE" "BSIZE div SECTOR_SIZE = 1"
    by (simp_all add: IDE_CMD_READ_def IDE_CMD_WRITE_def BSIZE_def SECTOR_SIZE_def)
  show ?thesis using assms unfolding idestart_def programmed_def outb_def outsl_def Let_def c by (simp add: z d c)
qed

lemma idestart_works:
  assumes "blockno (bufs s b) < FSSIZE"
  obtains s' where "idestart (Some b) s = Ok () s'" and "working s' b" and "bufs s' = bufs s" and "idequeue s' = idequeue s"
    and "disks s' = disks s"
proof -
  let ?x = "bufs s b"
  have n: "blockno ?x < 2 ^ 28" "blockno ?x div 2 ^ 24 = 0" using assms by (simp_all add: FSSIZE_def)
  have lba: "dev_lba (programmed ?x (ports s)) = blockno ?x"
    using lba_split [OF n(1)] n(2) assms by (simp add: dev_lba_def programmed_def FSSIZE_def)
  have "dev_drive (programmed ?x (ports s)) = dev ?x mod 2" by (simp add: dev_drive_def programmed_def) presburger
  with lba have w: "working (s\<lparr>ports := programmed ?x (ports s), dev_busy := True,
    dev_out := (if b_dirty ?x then data ?x else dev_out s)\<rparr>) b"
    unfolding working_def Let_def by (simp add: programmed_def)
  show thesis by (rule that [OF idestart_eq [OF assms] w]) simp_all
qed

section \<open>Runs\<close>

text \<open>
  Runs of the driver: a process submits a buffer that it has locked and that is not queued yet, the controller finishes
  and interrupts, an interrupt comes with nothing queued, and the owners of buffers that are not queued change
  them as they like.  The lists are the buffers submitted and served so far.
\<close>

inductive ide_run :: "'z ide_st_scheme \<Rightarrow> 'z ide_st_scheme \<Rightarrow> nat list \<Rightarrow> nat list \<Rightarrow> bool" for s0 where
  start: "ide_run s0 s0 [] []"
| submit: "ide_run s0 s subs dones \<Longrightarrow> qchain (bufs s) (idequeue s) q \<Longrightarrow> b \<notin> set q \<Longrightarrow> blockno (bufs s b) < FSSIZE
    \<Longrightarrow> iderw_submit b s = Ok () s' \<Longrightarrow> ide_run s0 s' (subs @ [b]) dones"
| served: "ide_run s0 s subs dones \<Longrightarrow> idequeue s = Some b \<Longrightarrow> dev_busy s
    \<Longrightarrow> ideintr err (dev_done s) = Ok () s' \<Longrightarrow> ide_run s0 s' subs (dones @ [b])"
| spurious: "ide_run s0 s subs dones \<Longrightarrow> idequeue s = None \<Longrightarrow> ideintr err s = Ok () s' \<Longrightarrow> ide_run s0 s' subs dones"
| owner: "ide_run s0 s subs dones \<Longrightarrow> qchain (bufs s) (idequeue s) q \<Longrightarrow> b \<notin> set q
    \<Longrightarrow> ide_run s0 (s\<lparr>bufs := (bufs s)(b := x)\<rparr>) subs dones"

lemma qchain_unique: "qchain bs p q \<Longrightarrow> qchain bs p r \<Longrightarrow> q = r"
  by (induction q arbitrary: p r) (case_tac r; auto)+

definition same_request :: "buf \<Rightarrow> buf \<Rightarrow> bool" where
  "same_request x y \<longleftrightarrow> x\<lparr>qnext := None\<rparr> = y\<lparr>qnext := None\<rparr>"

lemma same_request_fields:
  assumes "same_request x y"
  shows "asks x = asks y" and "b_dirty x = b_dirty y" and "b_valid x = b_valid y" and "blockno x = blockno y" and "dev x = dev y" and "data x = data y"
  using assms by (cases x; cases y; simp add: same_request_def asks_def)+

lemma same_request_simps [simp]: "same_request x x" "same_request (x\<lparr>qnext := n\<rparr>) x"
  by (simp_all add: same_request_def)

lemma working_cong:
  assumes "working s b" and "same_request (bufs t b) (bufs s b)" and "ports t = ports s" "dev_busy t = dev_busy s" "dev_out t = dev_out s"
  shows "working t b"
  using assms(1) unfolding working_def Let_def assms(3-5) same_request_fields [OF assms(2)] .

lemma holdingsleep_reads: "holdingsleep l s = Ok h t \<Longrightarrow> t = s"
  by (auto simp: holdingsleep_def my_pid_def bnd_def split: if_splits res.splits option.splits)

lemma submit_steps:
  fixes s s' :: "'z ide_st_scheme"
  assumes "iderw_submit b s = Ok () s'"
  shows "bnd (append_queue b) (\<lambda>_. bnd (getk idequeue) (\<lambda>q. if q = Some b then idestart q else ret ()))
      (s\<lparr>bufs := (bufs s)(b := (bufs s b)\<lparr>qnext := None\<rparr>)\<rparr>) = Ok () s'"
    and "b_valid (bufs s b) \<longrightarrow> b_dirty (bufs s b)"
proof -
  obtain h t where h: "holdingsleep (BufSleep b) s = Ok h t"
    using assms unfolding iderw_submit_def by (cases "holdingsleep (BufSleep b) s") (simp_all add: bnd_def)
  note [simp] = holdingsleep_reads [OF h]
  show "bnd (append_queue b) (\<lambda>_. bnd (getk idequeue) (\<lambda>q. if q = Some b then idestart q else ret ()))
      (s\<lparr>bufs := (bufs s)(b := (bufs s b)\<lparr>qnext := None\<rparr>)\<rparr>) = Ok () s'" "b_valid (bufs s b) \<longrightarrow> b_dirty (bufs s b)"
    using assms h unfolding iderw_submit_def by (simp_all add: bnd_def [of "holdingsleep _"] upd_buf_def split: if_splits)
qed

lemma submit_ok:
  fixes s s' :: "'z ide_st_scheme"
  assumes ok: "ide_ok s q" and b: "b \<notin> set q" "blockno (bufs s b) < FSSIZE" and run: "iderw_submit b s = Ok () s'"
  shows "ide_ok s' (q @ [b])"
proof -
  let ?s = "s\<lparr>bufs := (bufs s)(b := (bufs s b)\<lparr>qnext := None\<rparr>)\<rparr>"
  have run': "bnd (append_queue b) (\<lambda>_. bnd (getk idequeue) (\<lambda>q. if q = Some b then idestart q else ret ())) ?s = Ok () s'"
    and a: "asks (bufs s b)"
    using submit_steps [OF run] b(2) unfolding asks_def by blast+
  have ch: "qchain (bufs ?s) (idequeue s) q" using ok b(1) by (simp add: ide_ok_def qchain_upd)
  show ?thesis
  proof (cases "q = []")
    case True
    then have i: "idequeue s = None" using ok by (simp add: ide_ok_def)
    let ?t = "?s\<lparr>idequeue := Some b\<rparr>"
    have "blockno (bufs ?t b) < FSSIZE" using b(2) by simp
    then obtain u where u: "idestart (Some b) ?t = Ok () u" "working u b" "bufs u = bufs ?t" "idequeue u = idequeue ?t"
      by (rule idestart_works)
    have "s' = u" using run' u(1) i by (simp add: append_queue_def bnd_eq_Ok)
    with u True a show ?thesis by (simp add: ide_ok_def asks_def)
  next
    case False
    then obtain h r where q: "q = h # r" by (cases q) auto
    then have i: "idequeue s = Some h" "h \<noteq> b" using ok b(1) by (auto simp: ide_ok_def)
    have l: "last_link (bufs ?s) h = Some (last q)" using last_link_chain [of "bufs ?s" h q] ch i by simp
    have s': "s' = ?s\<lparr>bufs := (bufs ?s)(last q := (bufs ?s (last q))\<lparr>qnext := Some b\<rparr>)\<rparr>"
      using run' i l by (simp add: append_queue_def upd_buf_def bnd_eq_Ok)
    have d: "distinct q" "\<forall>c \<in> set q. asks (bufs s c)" "working s (hd q)" using ok False by (simp_all add: ide_ok_def)
    have same: "same_request (bufs s' c) (bufs s c)" for c unfolding s' by simp
    have "qchain (bufs s') (idequeue s') (q @ [b])"
      unfolding s' using qchain_snoc [OF ch d(1) b(1) False] by simp
    moreover have "working s' (hd q)" by (rule working_cong [OF d(3) same]) (simp_all add: s')
    moreover have "\<forall>c \<in> set (q @ [b]). asks (bufs s' c)"
      unfolding same_request_fields(1) [OF same] using d(2) a by auto
    ultimately show ?thesis using d(1) b(1) False by (simp add: ide_ok_def)
  qed
qed

definition served_buf :: "bool \<Rightarrow> byte list \<Rightarrow> buf \<Rightarrow> buf" where
  "served_buf err bs x = (if b_dirty x \<or> err then x else x\<lparr>data := bs\<rparr>)\<lparr>b_valid := True, b_dirty := False\<rparr>"

lemma ideintr_eq:
  fixes s :: "'z ide_st_scheme" and err :: bool
  assumes "idequeue s = Some b"
  defines "t \<equiv> s\<lparr>idequeue := qnext (bufs s b), bufs := (bufs s)(b := served_buf err (insl s) (bufs s b)),
    procs := woken (BufChan b) (procs s)\<rparr>"
  shows "ideintr err s = (if qnext (bufs s b) \<noteq> None then idestart (qnext (bufs s b)) t else Ok () t)"
proof -
  define u where "u = s\<lparr>idequeue := qnext (bufs s b)\<rparr>"
  have u: "insl u = insl s" "bufs u = bufs s" by (simp_all add: u_def insl_def)
  define v where "v = (if \<not> b_dirty (bufs s b) \<and> idewait err True \<ge> 0
    then u\<lparr>bufs := (bufs s)(b := (bufs s b)\<lparr>data := insl s\<rparr>)\<rparr> else u)"
  have "(if \<not> b_dirty (bufs s b) \<and> idewait err True \<ge> 0
       then bnd (getk insl) (\<lambda>bs. upd_buf b (\<lambda>x. x\<lparr>data := bs\<rparr>)) else ret ()) u = Ok () v"
    by (simp add: v_def upd_buf_def u)
  then have "ideintr err s = bnd (upd_buf b (\<lambda>x. x\<lparr>b_valid := True, b_dirty := False\<rparr>)) (\<lambda>_.
         bnd (wakeup1 (BufChan b)) (\<lambda>_.
         bnd (getk idequeue) (\<lambda>q.
         if q \<noteq> None then idestart q else ret ()))) v"
    using assms(1) by (simp add: ideintr_def u_def)
  also have "\<dots> = bnd (getk idequeue) (\<lambda>q. if q \<noteq> None then idestart q else ret ())
     (v\<lparr>bufs := (bufs v)(b := (bufs v b)\<lparr>b_valid := True, b_dirty := False\<rparr>), procs := woken (BufChan b) (procs v)\<rparr>)"
    by (simp add: upd_buf_def wakeup1_spec)
  also have "v\<lparr>bufs := (bufs v)(b := (bufs v b)\<lparr>b_valid := True, b_dirty := False\<rparr>), procs := woken (BufChan b) (procs v)\<rparr> = t"
    by (cases "b_dirty (bufs s b)"; cases err) (simp_all add: v_def u_def t_def served_buf_def idewait_def)
  finally show ?thesis by (simp add: t_def)
qed

lemma served_ok:
  fixes s :: "'z ide_st_scheme"
  assumes ok: "ide_ok s (b # q)"
  obtains s' where "ideintr err (dev_done s) = Ok () s'" and "ide_ok s' q"
    and "b_valid (bufs s' b)" and "\<not> b_dirty (bufs s' b)" and "\<forall>c. c \<noteq> b \<longrightarrow> bufs s' c = bufs s c"
    and "data (bufs s' b) = (if b_dirty (bufs s b) \<or> err then data (bufs s b) else disks s (dev (bufs s b) mod 2) (blockno (bufs s b)))"
    and "disks s' = (if b_dirty (bufs s b) then (disks s)(dev (bufs s b) mod 2 := (disks s (dev (bufs s b) mod 2))(blockno (bufs s b) := data (bufs s b)))
       else disks s)"
proof -
  let ?x = "bufs s b"
  have w: "working s b" and ch: "idequeue s = Some b" "qchain (bufs s) (qnext ?x) q" and d: "b \<notin> set q" "distinct q" "\<forall>c \<in> set q. asks (bufs s c)"
    using ok by (simp_all add: ide_ok_def)
  define ds where "ds = (if b_dirty ?x then (disks s)(dev ?x mod 2 := (disks s (dev ?x mod 2))(blockno ?x := data ?x)) else disks s)"
  have fin: "dev_done s = s\<lparr>disks := ds, dev_busy := False\<rparr>"
    using w by (simp add: dev_done_def working_def Let_def ds_def IDE_CMD_WRITE_def IDE_CMD_READ_def)
  define y where "y = served_buf err (insl (dev_done s)) ?x"
  have y: "b_valid y" "\<not> b_dirty y" "data y = (if b_dirty ?x \<or> err then data ?x else disks s (dev ?x mod 2) (blockno ?x))"
    using w unfolding y_def fin by (simp_all add: served_buf_def insl_def working_def Let_def ds_def)
  define t where "t = (dev_done s)\<lparr>idequeue := qnext ?x, bufs := (bufs s)(b := y), procs := woken (BufChan b) (procs s)\<rparr>"
  have "idequeue (dev_done s) = Some b" using ch(1) by (simp add: fin)
  from ideintr_eq [OF this, of err]
  have run: "ideintr err (dev_done s) = (if qnext ?x \<noteq> None then idestart (qnext ?x) t else Ok () t)"
    by (simp add: t_def y_def fin)
  have t: "bufs t = (bufs s)(b := y)" "idequeue t = qnext ?x" "disks t = ds" "dev_busy t = False" by (simp_all add: t_def fin)
  have cht: "qchain (bufs t) (qnext ?x) q" using ch(2) d(1) by (simp add: t qchain_upd)
  show thesis
  proof (cases q)
    case Nil
    then have "ide_ok t q" using ch by (simp add: ide_ok_def t)
    with run ch Nil show thesis by (intro that [of t]) (auto simp: t y ds_def)
  next
    case (Cons c r)
    then have n: "qnext ?x = Some c" and c: "c \<noteq> b" using ch(2) d(1) by auto
    have "blockno (bufs t c) < FSSIZE" using d(3) Cons c by (simp add: t asks_def)
    then obtain u where u: "idestart (Some c) t = Ok () u" "working u c" "bufs u = bufs t" "idequeue u = idequeue t" "disks u = disks t"
      by (rule idestart_works)
    have "\<forall>e \<in> set q. asks (bufs t e)" using d(1,3) by (auto simp: t)
    then have "ide_ok u q" using u cht d(2) Cons n by (auto simp: ide_ok_def t)
    with run n u show thesis by (intro that [of u]) (auto simp: t y ds_def)
  qed
qed

lemma run_ok:
  assumes "ide_run s0 s subs dones" and "idequeue s0 = None" and "\<not> dev_busy s0"
  shows "\<exists>q. ide_ok s q \<and> subs = dones @ q"
  using assms
proof (induction rule: ide_run.induct)
  case start
  then show ?case by (simp add: ide_ok_def)
next
  case (submit s subs dones q b s')
  then obtain r where r: "ide_ok s r" "subs = dones @ r" by auto
  with submit.hyps(2) have "q = r" by (auto simp: ide_ok_def dest: qchain_unique)
  with r submit_ok [OF r(1) _ submit.hyps(4,5)] submit.hyps(3) show ?case by auto
next
  case (served s subs dones b err s')
  then obtain r where r: "ide_ok s r" "subs = dones @ r" by auto
  with served.hyps(2) obtain q where q: "r = b # q" by (cases r) (auto simp: ide_ok_def)
  from r(1) q have "ide_ok s (b # q)" by simp
  from served_ok [OF this, of err] served.hyps(4) have "ide_ok s' q" by (metis res.inject(1))
  with r q show ?case by auto
next
  case (spurious s subs dones err s')
  then show ?case by (auto simp: ideintr_def)
next
  case (owner s subs dones q b x)
  then obtain r where r: "ide_ok s r" "subs = dones @ r" by auto
  with owner.hyps(2) have "q = r" by (auto simp: ide_ok_def dest: qchain_unique)
  with r owner.hyps(3) have "ide_ok (s\<lparr>bufs := (bufs s)(b := x)\<rparr>) r"
    by (cases r) (auto simp: ide_ok_def qchain_upd working_def Let_def)
  with r show ?case by blast
qed

section \<open>Requests are served in the order in which they came\<close>


definition ide_boot :: "ide_st" where
  "ide_boot = bio_st.extend ((boot_bio (\<lambda>_. []))\<lparr>slocks := (\<lambda>_. \<lparr>slocked = True, spid = 1\<rparr>),
      bufs := (\<lambda>i. \<lparr>b_valid = i = 0, b_dirty = i = 0, dev = 0, blockno = 700, refcnt = 1, b_prev = 0, b_next = 0, qnext = None,
        data = replicate 512 (if i = 0 then 7 else 0)\<rparr>)\<rparr>)
     (ide_st.fields None False (\<lambda>_. 0) [] False (\<lambda>_ _. []))"

lemma ide_boot_idle: "idequeue ide_boot = None" "\<not> dev_busy ide_boot"
  by (simp_all add: ide_boot_def bio_st.defs ide_st.defs)

lemma ide_boot_request: "bufs ide_boot 0 = \<lparr>b_valid = True, b_dirty = True, dev = 0, blockno = 700, refcnt = 1, b_prev = 0,
    b_next = 0, qnext = None, data = replicate 512 7\<rparr>"
  by (simp add: ide_boot_def bio_st.defs boot_bio_def)

lemma ide_boot_holds: "holdingsleep (BufSleep 0) ide_boot = Ok True ide_boot"
proof -
  have "running ide_boot" "slocks ide_boot = (\<lambda>_. \<lparr>slocked = True, spid = 1\<rparr>)" "curpid ide_boot = 1"
    by (simp_all add: running_def curpid_def this_proc_def ide_boot_def bio_st.defs boot_bio_def)
  then show ?thesis by (simp add: holdingsleep_spec)
qed


end
