(* ===== verification/Boot.thy ===== *)
theory Boot
  imports Exec Ide
begin

text \<open>
  The boot loader, \<open>src/lab10xv6/xv6/bootmain.c\<close>: reading the kernel, an ELF file that starts in sector 1 of the disk, to the
  physical addresses of its segments.

  \<open>disk\<close> gives the 512 bytes of each sector.  Pointers and sector numbers are 32 bits; a loop whose pointer wraps around may
  not end, which is \<open>None\<close>.  \<open>waitdisk\<close> polls until the controller is ready, which it is taken to become.

  Shown: for a kernel whose segments ascend, each byte of every segment ends up as in the file, and the rest of the segment
  is zero, although the loader reads whole sectors and so writes before and behind a segment.
\<close>

section \<open>The loader\<close>

definition SECTSIZE :: nat where "SECTSIZE = 512"

definition sect_ports :: "nat \<Rightarrow> nat \<Rightarrow> nat" where
  "sect_ports offset = (\<lambda>_. 0)(0x1f2 := 1, 0x1f3 := offset mod 256, 0x1f4 := offset div 2 ^ 8 mod 256,
     0x1f5 := offset div 2 ^ 16 mod 256, 0x1f6 := (offset div 2 ^ 24 OR 0xe0) mod 256, 0x1f7 := 0x20)"

definition readsect :: "(nat \<Rightarrow> byte list) \<Rightarrow> nat \<Rightarrow> nat \<Rightarrow> mem \<Rightarrow> mem" where
  "readsect disk dst offset m = write_bytes dst (disk (dev_lba (sect_ports offset))) m"

partial_function (option) readseg_loop :: "(nat \<Rightarrow> byte list) \<Rightarrow> nat \<Rightarrow> nat \<Rightarrow> nat \<Rightarrow> mem \<Rightarrow> mem option" where
  "readseg_loop disk pa epa offset m =
     (if pa < epa
      then readseg_loop disk ((pa + SECTSIZE) mod 2 ^ 32) epa ((offset + 1) mod 2 ^ 32) (readsect disk pa offset m)
      else Some m)"

definition readseg :: "(nat \<Rightarrow> byte list) \<Rightarrow> nat \<Rightarrow> nat \<Rightarrow> nat \<Rightarrow> mem \<Rightarrow> mem option" where
  "readseg disk pa count offset m =
     (let epa = (pa + count) mod 2 ^ 32;
          pa = (pa + 2 ^ 32 - offset mod SECTSIZE) mod 2 ^ 32;
          offset = offset div SECTSIZE + 1
      in readseg_loop disk pa epa offset m)"

definition bytes_at :: "mem \<Rightarrow> nat \<Rightarrow> nat \<Rightarrow> byte list" where
  "bytes_at m a n = map (\<lambda>i. m (a + i)) [0..<n]"

definition ph_paddr :: "byte list \<Rightarrow> nat" where
  "ph_paddr bs = get32 bs 12"

text \<open>The loop over the program headers: \<open>n\<close> headers left, the next at \<open>ph\<close>.  The sizes are read again after the segment.\<close>

fun boot_segs :: "(nat \<Rightarrow> byte list) \<Rightarrow> nat \<Rightarrow> nat \<Rightarrow> mem \<Rightarrow> mem option" where
  "boot_segs disk 0 ph m = Some m"
| "boot_segs disk (Suc n) ph m =
     (let h = dec_ph (bytes_at m ph sizeof_proghdr);
          pa = ph_paddr (bytes_at m ph sizeof_proghdr)
      in case readseg disk pa (filesz h) (ph_off h) m of
           None \<Rightarrow> None
         | Some m \<Rightarrow>
             let h = dec_ph (bytes_at m ph sizeof_proghdr)
             in boot_segs disk n (ph + sizeof_proghdr)
                  (if memsz h > filesz h then stosb m ((pa + filesz h) mod 2 ^ 32) 0 (memsz h - filesz h) else m))"

text \<open>The entry point and the memory it is entered with; no entry point when the loader returns.\<close>

definition bootmain :: "(nat \<Rightarrow> byte list) \<Rightarrow> mem \<Rightarrow> (nat option \<times> mem) option" where
  "bootmain disk m =
     (let elf = 0x10000 in
      case readseg disk elf 4096 0 m of
        None \<Rightarrow> None
      | Some m \<Rightarrow>
          let e = dec_elf (bytes_at m elf sizeof_elfhdr)
          in if magic e \<noteq> ELF_MAGIC then Some (None, m)
             else case boot_segs disk (phnum e) (elf + phoff e) m of
                    None \<Rightarrow> None
                  | Some m \<Rightarrow> Some (Some (entry (dec_elf (bytes_at m elf sizeof_elfhdr))), m))"

section \<open>Reading sectors\<close>

text \<open>The bytes of the kernel file.\<close>

definition img :: "(nat \<Rightarrow> byte list) \<Rightarrow> nat \<Rightarrow> byte" where
  "img disk i = disk (1 + i div SECTSIZE) ! (i mod SECTSIZE)"

definition sectors :: "(nat \<Rightarrow> byte list) \<Rightarrow> bool" where
  "sectors disk \<longleftrightarrow> (\<forall>i. length (disk i) = SECTSIZE)"

lemma sect_lba: "n < 2 ^ 24 \<Longrightarrow> dev_lba (sect_ports n) = n"
  using lba_split [of n] by (simp add: dev_lba_def sect_ports_def)

lemma readsect_img:
  assumes "sectors disk" and "q + 1 < 2 ^ 24"
  shows "readsect disk dst (q + 1) m x = (if dst \<le> x \<and> x < dst + SECTSIZE then img disk (q * SECTSIZE + (x - dst)) else m x)"
proof -
  have "img disk (q * SECTSIZE + k) = disk (q + 1) ! k" if "k < SECTSIZE" for k
    using that by (simp add: img_def SECTSIZE_def)
  from this [of "x - dst"] assms(1) show ?thesis
    unfolding readsect_def write_bytes_def sect_lba [OF assms(2)] by (auto simp: sectors_def)
qed

lemma readseg_loop_spec:
  assumes "sectors disk" and "epa + SECTSIZE \<le> 2 ^ 32" and "q * SECTSIZE + (epa - pa) + SECTSIZE \<le> 2 ^ 33"
  shows "\<exists>m' e. readseg_loop disk pa epa (q + 1) m = Some m' \<and> epa \<le> e
    \<and> (\<forall>x. m' x = (if pa \<le> x \<and> x < e then img disk (q * SECTSIZE + (x - pa)) else m x))"
  using assms(3)
proof (induction "epa - pa" arbitrary: pa q m rule: less_induct)
  case less
  show ?case
  proof (cases "pa < epa")
    case False
    then show ?thesis by (subst readseg_loop.simps) (auto intro!: exI [of _ epa])
  next
    case True
    have q: "q + 1 < 2 ^ 24" using less.prems True by (simp add: SECTSIZE_def)
    have step: "readseg_loop disk pa epa (q + 1) m
        = readseg_loop disk (pa + SECTSIZE) epa (q + 1 + 1) (readsect disk pa (q + 1) m)"
      using True assms(2) q by (subst readseg_loop.simps) simp
    have "(q + 1) * SECTSIZE + (epa - (pa + SECTSIZE)) + SECTSIZE \<le> 2 ^ 33"
    proof (cases "pa + SECTSIZE \<le> epa")
      case True
      with less.prems show ?thesis by (simp add: SECTSIZE_def)
    next
      case False
      have "q + 2 \<le> 2 ^ 24" using q by simp
      then have "(q + 2) * SECTSIZE \<le> 2 ^ 33" by (simp add: SECTSIZE_def)
      with False show ?thesis by (simp add: SECTSIZE_def)
    qed
    moreover have "epa - (pa + SECTSIZE) < epa - pa" using True by (simp add: SECTSIZE_def)
    ultimately obtain m' e where
      m: "readseg_loop disk (pa + SECTSIZE) epa (q + 1 + 1) (readsect disk pa (q + 1) m) = Some m'" "epa \<le> e"
      "\<And>x. m' x = (if pa + SECTSIZE \<le> x \<and> x < e then img disk ((q + 1) * SECTSIZE + (x - (pa + SECTSIZE))) else readsect disk pa (q + 1) m x)"
      using less.hyps [of "pa + SECTSIZE" "q + 1" "readsect disk pa (q + 1) m"] by blast
    have "m' x = (if pa \<le> x \<and> x < max e (pa + SECTSIZE) then img disk (q * SECTSIZE + (x - pa)) else m x)" for x
      unfolding m(3) readsect_img [OF assms(1) q] by (auto simp: max_def algebra_simps)
    with step m(1,2) show ?thesis by (metis le_max_iff_disj)
  qed
qed

text \<open>\<open>readseg\<close> reads the bytes it is asked for; before them it writes only the rest of their first sector.\<close>

lemma readseg_spec:
  assumes "sectors disk" and "offset mod SECTSIZE \<le> pa" and "pa + count + SECTSIZE \<le> 2 ^ 32" and "offset + count < 2 ^ 32"
  obtains m' where "readseg disk pa count offset m = Some m'" and "\<And>k. k < count \<Longrightarrow> m' (pa + k) = img disk (offset + k)"
    and "\<And>x. x < pa - offset mod SECTSIZE \<Longrightarrow> m' x = m x"
proof -
  let ?p = "pa - offset mod SECTSIZE" and ?q = "offset div SECTSIZE"
  have "pa + 2 ^ 32 - offset mod SECTSIZE = ?p + 2 ^ 32" using assms(2) by simp
  moreover have "?p < 2 ^ 32" "pa + count < 2 ^ 32" using assms(3) unfolding SECTSIZE_def by linarith+
  ultimately have p: "(pa + 2 ^ 32 - offset mod SECTSIZE) mod 2 ^ 32 = ?p" "(pa + count) mod 2 ^ 32 = pa + count"
    by (metis mod_add_self2 mod_less, metis mod_less)
  have off: "?q * SECTSIZE + offset mod SECTSIZE = offset" by simp
  have "?q * SECTSIZE + (pa + count - ?p) + SECTSIZE \<le> 2 ^ 33"
    using off assms(2-4) by (simp add: SECTSIZE_def)
  from readseg_loop_spec [OF assms(1) _ this, of m] assms(3) obtain m' e where
    m: "readseg_loop disk ?p (pa + count) (?q + 1) m = Some m'" "pa + count \<le> e"
    "\<And>x. m' x = (if ?p \<le> x \<and> x < e then img disk (?q * SECTSIZE + (x - ?p)) else m x)" by auto
  show thesis
  proof (rule that [of m'])
    show "readseg disk pa count offset m = Some m'" using m(1) unfolding readseg_def Let_def p .
    show "m' x = m x" if "x < ?p" for x using that m(3) by simp
    show "m' (pa + k) = img disk (offset + k)" if "k < count" for k
    proof -
      have "?q * SECTSIZE + (pa + k - ?p) = offset + k" using off assms(2) by linarith
      moreover have "?p \<le> pa + k" "pa + k < e" using m(2) that by simp_all
      ultimately show ?thesis unfolding m(3) by (simp only: if_True simp_thms)
    qed
  qed
qed

section \<open>Loading the kernel\<close>

text \<open>A program header of the file: where the segment goes, where it is in the file, its size there and in memory.\<close>

definition file_ph :: "(nat \<Rightarrow> byte list) \<Rightarrow> nat \<Rightarrow> byte list" where
  "file_ph disk a = map (\<lambda>i. img disk (a + i)) [0..<sizeof_proghdr]"

definition file_elf :: "(nat \<Rightarrow> byte list) \<Rightarrow> elfhdr" where
  "file_elf disk = dec_elf (map (img disk) [0..<sizeof_elfhdr])"

definition file_phs :: "(nat \<Rightarrow> byte list) \<Rightarrow> byte list list" where
  "file_phs disk = map (\<lambda>k. file_ph disk (phoff (file_elf disk) + k * sizeof_proghdr)) [0..<phnum (file_elf disk)]"

text \<open>The segments ascend, from \<open>lo\<close>, and leave room for the rest of the first sector of each.\<close>

fun ascending :: "nat \<Rightarrow> byte list list \<Rightarrow> bool" where
  "ascending lo [] \<longleftrightarrow> True"
| "ascending lo (p # ps) \<longleftrightarrow> lo + ph_off (dec_ph p) mod SECTSIZE \<le> ph_paddr p \<and> filesz (dec_ph p) \<le> memsz (dec_ph p)
     \<and> ph_paddr p + memsz (dec_ph p) + SECTSIZE \<le> 2 ^ 32 \<and> ph_off (dec_ph p) + filesz (dec_ph p) < 2 ^ 32
     \<and> ascending (ph_paddr p + memsz (dec_ph p)) ps"

definition loaded :: "(nat \<Rightarrow> byte list) \<Rightarrow> mem \<Rightarrow> byte list \<Rightarrow> bool" where
  "loaded disk m p \<longleftrightarrow> (\<forall>k < memsz (dec_ph p). m (ph_paddr p + k) =
     (if k < filesz (dec_ph p) then img disk (ph_off (dec_ph p) + k) else 0))"

lemma boot_segs_spec:
  assumes disk: "sectors disk" and hdr: "\<And>i. i < 4096 \<Longrightarrow> m (0x10000 + i) = img disk i"
    and "a + n * sizeof_proghdr \<le> 4096" and "ascending lo (map (\<lambda>k. file_ph disk (a + k * sizeof_proghdr)) [0..<n])" and "0x11000 \<le> lo"
  shows "\<exists>m'. boot_segs disk n (0x10000 + a) m = Some m' \<and> (\<forall>x < lo. m' x = m x)
    \<and> (\<forall>p \<in> set (map (\<lambda>k. file_ph disk (a + k * sizeof_proghdr)) [0..<n]). loaded disk m' p)"
  using assms(2-)
proof (induction n arbitrary: a m lo)
  case (Suc n)
  define p where "p = file_ph disk a"
  define ps where "ps = map (\<lambda>k. file_ph disk (a + sizeof_proghdr + k * sizeof_proghdr)) [0..<n]"
  have ps: "map (\<lambda>k. file_ph disk (a + k * sizeof_proghdr)) [0..<Suc n] = p # ps"
    unfolding p_def ps_def by (simp add: upt_conv_Cons map_Suc_upt [symmetric] algebra_simps del: upt_Suc)
  note asc = Suc.prems(3) [unfolded ps, simplified]
  define h where "h = dec_ph p"
  have head: "bytes_at m (0x10000 + a) sizeof_proghdr = p"
    using Suc.prems(1,2) by (auto simp: p_def file_ph_def bytes_at_def add.assoc)
  from asc h_def have h: "ph_off h mod SECTSIZE \<le> ph_paddr p" "ph_paddr p + filesz h + SECTSIZE \<le> 2 ^ 32" "ph_off h + filesz h < 2 ^ 32"
    by auto
  obtain m1 where m1: "readseg disk (ph_paddr p) (filesz h) (ph_off h) m = Some m1"
    "\<And>k. k < filesz h \<Longrightarrow> m1 (ph_paddr p + k) = img disk (ph_off h + k)" "\<And>x. x < ph_paddr p - ph_off h mod SECTSIZE \<Longrightarrow> m1 x = m x"
    using readseg_spec [OF disk h] by blast
  have "lo \<le> ph_paddr p - ph_off h mod SECTSIZE" using asc unfolding h_def by linarith
  then have low: "m1 x = m x" if "x < lo" for x using m1(3) that by simp
  have head1: "bytes_at m1 (0x10000 + a) sizeof_proghdr = p"
    unfolding head [symmetric] bytes_at_def using low Suc.prems(2,4) by (auto simp: sizeof_proghdr_def)
  define m2 where "m2 = (if memsz h > filesz h then stosb m1 ((ph_paddr p + filesz h) mod 2 ^ 32) 0 (memsz h - filesz h) else m1)"
  have m2: "m2 x = (if ph_paddr p + filesz h \<le> x \<and> x < ph_paddr p + memsz h then 0 else m1 x)" for x
    using h(2) unfolding m2_def by (auto simp: stosb_apply SECTSIZE_def)
  have step: "boot_segs disk (Suc n) (0x10000 + a) m = boot_segs disk n (0x10000 + (a + sizeof_proghdr)) m2"
    using m1(1) unfolding boot_segs.simps Let_def head h_def [symmetric] by (simp add: head1 h_def [symmetric] m2_def add.assoc)
  have lo2: "m2 x = m x" if "x < lo" for x using low that asc by (simp add: m2)
  have this_one: "m2 (ph_paddr p + k) = (if k < filesz h then img disk (ph_off h + k) else 0)" if "k < memsz h" for k
    using that m1(2) by (auto simp: m2)
  have "\<exists>m'. boot_segs disk n (0x10000 + (a + sizeof_proghdr)) m2 = Some m' \<and> (\<forall>x < ph_paddr p + memsz h. m' x = m2 x)
    \<and> (\<forall>p \<in> set ps. loaded disk m' p)"
    unfolding ps_def
  proof (rule Suc.IH)
    show "m2 (0x10000 + i) = img disk i" if "i < 4096" for i using that lo2 Suc.prems(1,4) by simp
    show "a + sizeof_proghdr + n * sizeof_proghdr \<le> 4096" using Suc.prems(2) by simp
    show "ascending (ph_paddr p + memsz h) (map (\<lambda>k. file_ph disk (a + sizeof_proghdr + k * sizeof_proghdr)) [0..<n])"
      using asc by (simp add: ps_def h_def)
    show "0x11000 \<le> ph_paddr p + memsz h" using asc Suc.prems(4) by simp
  qed
  then obtain m' where m': "boot_segs disk n (0x10000 + (a + sizeof_proghdr)) m2 = Some m'"
    "\<forall>x < ph_paddr p + memsz h. m' x = m2 x" "\<forall>p \<in> set ps. loaded disk m' p" by blast
  have "loaded disk m' p" using this_one m'(2) by (simp add: loaded_def h_def)
  moreover have "\<forall>x < lo. m' x = m x" using lo2 m'(2) asc by simp
  ultimately show ?case unfolding step ps using m' by simp
qed simp

text \<open>C40. The boot loader loads the kernel: for a disk that holds, from sector 1 on, an ELF file with its program headers in the first page and its
  segments in ascending order above the loader's scratch page, bootmain ends, enters the kernel at the entry point of the file, and memory
  then holds every byte of every segment as in the file, and zeros from there to the size of the segment in memory.\<close>

theorem bootmain_loads:
  assumes "sectors disk" and "magic (file_elf disk) = ELF_MAGIC"
    and "phoff (file_elf disk) + phnum (file_elf disk) * sizeof_proghdr \<le> 4096" and "ascending 0x11000 (file_phs disk)"
  shows "\<exists>m'. bootmain disk m = Some (Some (entry (file_elf disk)), m') \<and> (\<forall>p \<in> set (file_phs disk). loaded disk m' p)"
proof -
  obtain m1 where m1: "readseg disk 0x10000 4096 0 m = Some m1" "\<And>k. k < 4096 \<Longrightarrow> m1 (0x10000 + k) = img disk (0 + k)"
  proof (rule readseg_spec [OF assms(1), where offset = 0 and pa = "0x10000" and count = 4096 and m = m])
  qed (simp_all add: SECTSIZE_def)
  have e: "dec_elf (bytes_at m1 0x10000 sizeof_elfhdr) = file_elf disk"
    unfolding file_elf_def bytes_at_def using m1(2) by (auto simp: sizeof_elfhdr_def intro!: arg_cong [where f = dec_elf])
  from boot_segs_spec [OF assms(1) _ assms(3) assms(4) [unfolded file_phs_def], of m1] m1(2) obtain m' where
    m': "boot_segs disk (phnum (file_elf disk)) (0x10000 + phoff (file_elf disk)) m1 = Some m'" "\<forall>x < 0x11000. m' x = m1 x"
    "\<forall>p \<in> set (file_phs disk). loaded disk m' p" unfolding file_phs_def by auto
  have "bytes_at m' 0x10000 sizeof_elfhdr = bytes_at m1 0x10000 sizeof_elfhdr"
    using m'(2) by (simp add: bytes_at_def sizeof_elfhdr_def)
  with m1(1) e m' assms(2) show ?thesis by (simp add: bootmain_def Let_def)
qed

text \<open>A kernel of three bytes, at offset 4100 of its file.\<close>

definition tiny_hdr :: "byte list" where
  "tiny_hdr = [127, 69, 76, 70, 0, 0, 0, 0, 0, 0, 0, 0, 0, 0, 0, 0, 0, 0, 0, 0, 0, 0, 0, 0, 12, 0, 16, 0, 52, 0, 0, 0, 0, 0,
     0, 0, 0, 0, 0, 0, 0, 0, 0, 0, 1, 0, 0, 0, 0, 0, 0, 0, 1, 0, 0, 0, 4, 16, 0, 0, 0, 0, 16, 128, 0, 0, 16, 0, 3,
     0, 0, 0, 10, 0, 0, 0, 7, 0, 0, 0, 0, 16, 0, 0]"

definition tiny_disk :: "nat \<Rightarrow> byte list" where
  "tiny_disk i = (if i = 1 then tiny_hdr @ replicate 428 0 else replicate 512 (of_nat i))"

lemma tiny_sectors: "sectors tiny_disk"
  by (simp add: sectors_def tiny_disk_def tiny_hdr_def SECTSIZE_def)

lemma tiny_img: "k < 84 \<Longrightarrow> img tiny_disk k = tiny_hdr ! k"
  by (simp add: img_def tiny_disk_def SECTSIZE_def nth_append) (simp add: tiny_hdr_def)

lemma tiny_elf: "magic (file_elf tiny_disk) = ELF_MAGIC" "entry (file_elf tiny_disk) = 0x10000c" "phoff (file_elf tiny_disk) = 52"
  "phnum (file_elf tiny_disk) = 1"
  by (simp_all add: file_elf_def dec_elf_def get32_def get16_def tiny_img sizeof_elfhdr_def ELF_MAGIC_def tiny_hdr_def)

lemma tiny_phs: "file_phs tiny_disk = [file_ph tiny_disk 52]"
  by (simp add: file_phs_def tiny_elf)

lemma tiny_ph: "ph_paddr (file_ph tiny_disk 52) = 0x100000" "ph_off (dec_ph (file_ph tiny_disk 52)) = 4100"
  "filesz (dec_ph (file_ph tiny_disk 52)) = 3" "memsz (dec_ph (file_ph tiny_disk 52)) = 10"
  by (simp_all add: file_ph_def ph_paddr_def dec_ph_def get32_def tiny_img sizeof_proghdr_def tiny_hdr_def)

theorem bootmain_loads_witness:
  "\<exists>m'. bootmain tiny_disk (\<lambda>_. 1) = Some (Some 0x10000c, m') \<and> m' 0x100002 = 9 \<and> m' 0x100003 = 0"
proof -
  have "ascending 0x11000 (file_phs tiny_disk)" by (simp add: tiny_phs tiny_ph SECTSIZE_def)
  moreover have "phoff (file_elf tiny_disk) + phnum (file_elf tiny_disk) * sizeof_proghdr \<le> 4096"
    by (simp add: tiny_elf sizeof_proghdr_def)
  ultimately obtain m' where m': "bootmain tiny_disk (\<lambda>_. 1) = Some (Some (entry (file_elf tiny_disk)), m')"
    "loaded tiny_disk m' (file_ph tiny_disk 52)"
    using bootmain_loads [OF tiny_sectors tiny_elf(1), of "\<lambda>_. 1"] by (auto simp: tiny_phs)
  from m'(2) have "m' (0x100000 + k) = (if k < 3 then img tiny_disk (4100 + k) else 0)" if "k < 10" for k
    using that unfolding loaded_def tiny_ph by blast
  from this [of 2] this [of 3] have "m' 0x100002 = 9" "m' 0x100003 = 0"
    by (simp_all add: img_def tiny_disk_def SECTSIZE_def)
  with m'(1) show ?thesis by (simp add: tiny_elf)
qed

end
