(* ===== verification/UserProgs.thy ===== *)
theory UserProgs
  imports Ulib Dir
begin

text \<open>
  Small user programs of \<open>src/lab10xv6/xv6\<close>: \<open>wc.c\<close>, \<open>cat.c\<close>, \<open>echo.c\<close>, \<open>mkdir.c\<close>, \<open>rm.c\<close>, \<open>ln.c\<close>, \<open>kill.c\<close> and \<open>ls.c\<close>.

  The system calls are arguments: \<open>read\<close> takes the state of a descriptor and the size of the buffer and gives the bytes, or
  \<open>None\<close> on an error; \<open>write\<close> gives the number of bytes it took.  What a program prints is its result.  Output to descriptor 1
  is \<open>Out\<close>, to descriptor 2 \<open>Err\<close>.  Reading that never comes to an end is \<open>None\<close>.

  Shown: \<open>wc\<close> counts the lines, words and bytes of the input whatever the pieces in which \<open>read\<close> delivers it, and \<open>cat\<close> copies it.
\<close>

datatype msg = Out "byte list" | Err "byte list"

definition lit :: "string \<Rightarrow> byte list" where
  "lit s = map of_char s"

section \<open>wc.c\<close>

text \<open>The counters: lines, words, bytes and whether the last byte was in a word.\<close>

type_synonym counts = "nat \<times> nat \<times> nat \<times> bool"

definition blank :: "byte \<Rightarrow> bool" where
  "blank x \<longleftrightarrow> strchr [32, 13, 9, 10, 11] x \<noteq> None"

fun wc_byte :: "counts \<Rightarrow> byte \<Rightarrow> counts" where
  "wc_byte (l, w, c, inword) x =
     (let c = c + 1; l = (if x = 10 then l + 1 else l)
      in if blank x then (l, w, c, False)
         else if \<not> inword then (l, w + 1, c, True)
         else (l, w, c, inword))"

partial_function (option) wc_loop :: "('f \<Rightarrow> nat \<Rightarrow> byte list option \<times> 'f) \<Rightarrow> 'f \<Rightarrow> counts \<Rightarrow> counts option option" where
  "wc_loop read fd cnt =
     (case read fd 512 of
        (None, fd) \<Rightarrow> Some None
      | (Some buf, fd) \<Rightarrow> if buf = [] then Some (Some cnt) else wc_loop read fd (foldl wc_byte cnt buf))"

text \<open>The output, and whether the program goes on.\<close>

definition wc :: "('f \<Rightarrow> nat \<Rightarrow> byte list option \<times> 'f) \<Rightarrow> 'f \<Rightarrow> byte list \<Rightarrow> (byte list \<times> bool) option" where
  "wc read fd name =
     Option.bind (wc_loop read fd (0, 0, 0, False)) (\<lambda>r.
     case r of
       None \<Rightarrow> Some (lit ''wc: read error'' @ [10], False)
     | Some (l, w, c, _) \<Rightarrow>
         map_option (\<lambda>out. (out, True))
           (printf (lit ''%d %d %d %s'' @ [10]) [Num (of_nat l), Num (of_nat w), Num (of_nat c), Str (Some name)]))"

fun wc_files ::
  "(byte list \<Rightarrow> 'f option) \<Rightarrow> ('f \<Rightarrow> nat \<Rightarrow> byte list option \<times> 'f) \<Rightarrow> byte list list \<Rightarrow> byte list option" where
  "wc_files opn read [] = Some []"
| "wc_files opn read (name # names) =
     (case opn name of
        None \<Rightarrow> printf (lit ''wc: cannot open %s'' @ [10]) [Str (Some name)]
      | Some fd \<Rightarrow>
          Option.bind (wc read fd name) (\<lambda>(out, go).
            if go then map_option ((@) out) (wc_files opn read names) else Some out))"

definition wc_main ::
  "(byte list \<Rightarrow> 'f option) \<Rightarrow> ('f \<Rightarrow> nat \<Rightarrow> byte list option \<times> 'f) \<Rightarrow> 'f \<Rightarrow> byte list list \<Rightarrow> byte list option" where
  "wc_main opn read stdin argv =
     (if length argv \<le> 1 then map_option fst (wc read stdin []) else wc_files opn read (drop 1 argv))"

section \<open>cat.c\<close>

text \<open>\<open>write\<close> to the standard output: how many bytes it takes.\<close>

partial_function (option) cat_loop ::
  "('f \<Rightarrow> nat \<Rightarrow> byte list option \<times> 'f) \<Rightarrow> (byte list \<Rightarrow> int) \<Rightarrow> 'f \<Rightarrow> byte list \<Rightarrow> (byte list \<times> bool) option" where
  "cat_loop read wr fd out =
     (case read fd 512 of
        (None, fd) \<Rightarrow> Some (out @ lit ''cat: read error'' @ [10], False)
      | (Some buf, fd) \<Rightarrow>
          if buf = [] then Some (out, True)
          else if wr buf \<noteq> int (length buf)
          then Some (out @ take (nat (wr buf)) buf @ lit ''cat: write error'' @ [10], False)
          else cat_loop read wr fd (out @ buf))"

definition cat :: "('f \<Rightarrow> nat \<Rightarrow> byte list option \<times> 'f) \<Rightarrow> (byte list \<Rightarrow> int) \<Rightarrow> 'f \<Rightarrow> (byte list \<times> bool) option" where
  "cat read wr fd = cat_loop read wr fd []"

fun cat_files ::
  "(byte list \<Rightarrow> 'f option) \<Rightarrow> ('f \<Rightarrow> nat \<Rightarrow> byte list option \<times> 'f) \<Rightarrow> (byte list \<Rightarrow> int) \<Rightarrow> byte list list \<Rightarrow> byte list option" where
  "cat_files opn read wr [] = Some []"
| "cat_files opn read wr (name # names) =
     (case opn name of
        None \<Rightarrow> printf (lit ''cat: cannot open %s'' @ [10]) [Str (Some name)]
      | Some fd \<Rightarrow>
          Option.bind (cat read wr fd) (\<lambda>(out, go).
            if go then map_option ((@) out) (cat_files opn read wr names) else Some out))"

definition cat_main ::
  "(byte list \<Rightarrow> 'f option) \<Rightarrow> ('f \<Rightarrow> nat \<Rightarrow> byte list option \<times> 'f) \<Rightarrow> (byte list \<Rightarrow> int) \<Rightarrow> 'f \<Rightarrow> byte list list \<Rightarrow> byte list option" where
  "cat_main opn read wr stdin argv =
     (if length argv \<le> 1 then map_option fst (cat read wr stdin) else cat_files opn read wr (drop 1 argv))"

section \<open>echo.c, mkdir.c, rm.c, ln.c and kill.c\<close>

fun echo_args :: "byte list list \<Rightarrow> byte list option" where
  "echo_args [] = Some []"
| "echo_args (a # as) =
     Option.bind (printf (lit ''%s%s'') [Str (Some a), Str (Some (if as \<noteq> [] then [32] else [10]))]) (\<lambda>out.
     map_option ((@) out) (echo_args as))"

definition echo_main :: "byte list list \<Rightarrow> byte list option" where
  "echo_main argv = echo_args (drop 1 argv)"

fun mkdir_args :: "(byte list \<Rightarrow> 's \<Rightarrow> int \<times> 's) \<Rightarrow> byte list list \<Rightarrow> 's \<Rightarrow> byte list option \<times> 's" where
  "mkdir_args sys [] s = (Some [], s)"
| "mkdir_args sys (a # as) s =
     (case sys a s of (r, s) \<Rightarrow>
        if r < 0 then (printf (lit ''mkdir: %s failed to create'' @ [10]) [Str (Some a)], s) else mkdir_args sys as s)"

definition mkdir_main :: "(byte list \<Rightarrow> 's \<Rightarrow> int \<times> 's) \<Rightarrow> byte list list \<Rightarrow> 's \<Rightarrow> byte list option \<times> 's" where
  "mkdir_main sys argv s =
     (if length argv < 2 then (printf (lit ''Usage: mkdir files...'' @ [10]) [], s) else mkdir_args sys (drop 1 argv) s)"

fun rm_args :: "(byte list \<Rightarrow> 's \<Rightarrow> int \<times> 's) \<Rightarrow> byte list list \<Rightarrow> 's \<Rightarrow> byte list option \<times> 's" where
  "rm_args sys [] s = (Some [], s)"
| "rm_args sys (a # as) s =
     (case sys a s of (r, s) \<Rightarrow>
        if r < 0 then (printf (lit ''rm: %s failed to delete'' @ [10]) [Str (Some a)], s) else rm_args sys as s)"

definition rm_main :: "(byte list \<Rightarrow> 's \<Rightarrow> int \<times> 's) \<Rightarrow> byte list list \<Rightarrow> 's \<Rightarrow> byte list option \<times> 's" where
  "rm_main sys argv s =
     (if length argv < 2 then (printf (lit ''Usage: rm files...'' @ [10]) [], s) else rm_args sys (drop 1 argv) s)"

definition ln_main :: "(byte list \<Rightarrow> byte list \<Rightarrow> 's \<Rightarrow> int \<times> 's) \<Rightarrow> byte list list \<Rightarrow> 's \<Rightarrow> byte list option \<times> 's" where
  "ln_main sys argv s =
     (if length argv \<noteq> 3 then (printf (lit ''Usage: ln old new'' @ [10]) [], s)
      else case sys (argv ! 1) (argv ! 2) s of (r, s) \<Rightarrow>
        (if r < 0 then printf (lit ''link %s %s: failed'' @ [10]) [Str (Some (argv ! 1)), Str (Some (argv ! 2))] else Some [], s))"

definition kill_main :: "(uint32 \<Rightarrow> 's \<Rightarrow> int \<times> 's) \<Rightarrow> byte list list \<Rightarrow> 's \<Rightarrow> byte list option \<times> 's" where
  "kill_main sys argv s =
     (if length argv < 2 then (printf (lit ''usage: kill pid...'' @ [10]) [], s)
      else (Some [], foldl (\<lambda>s a. snd (sys (atoi a) s)) s (drop 1 argv)))"

section \<open>ls.c\<close>

text \<open>What follows the last slash, padded with blanks to \<open>DIRSIZ\<close> bytes.\<close>

definition fmtname :: "byte list \<Rightarrow> byte list" where
  "fmtname path =
     (let p = rev (takeWhile (\<lambda>c. c \<noteq> 47) (rev path))
      in if length p \<ge> DIRSIZ then p else p @ replicate (DIRSIZ - length p) 32)"

definition ls_line :: "byte list \<Rightarrow> Fs.stat \<Rightarrow> byte list option" where
  "ls_line path st = printf (lit ''%s %d %d %d'' @ [10])
     [Str (Some (fmtname path)), Num (of_int (st_type st)), Num (of_nat (st_ino st)), Num (of_nat (st_size st))]"

text \<open>The entries of the directory, sixteen bytes each, until \<open>read\<close> gives fewer.\<close>

function ls_entries :: "(byte list \<Rightarrow> Fs.stat option) \<Rightarrow> byte list \<Rightarrow> byte list \<Rightarrow> byte list option" where
  "ls_entries sys_stat path bs =
     (if length bs < sizeof_dirent then Some []
      else let de = take sizeof_dirent bs; rest = drop sizeof_dirent bs in
           if de_inum de = 0 then ls_entries sys_stat path rest
           else let buf = path @ [47] @ takeWhile (\<lambda>c. c \<noteq> 0) (de_name de) in
                Option.bind (case sys_stat buf of
                    None \<Rightarrow> printf (lit ''ls: cannot stat %s'' @ [10]) [Str (Some buf)]
                  | Some st \<Rightarrow> ls_line buf st) (\<lambda>out.
                map_option ((@) out) (ls_entries sys_stat path rest)))"
  by auto
termination by (relation "measure (\<lambda>(sys_stat, path, bs). length bs)") (auto simp: sizeof_dirent_def)

declare ls_entries.simps [simp del]

text \<open>\<open>open\<close> gives the bytes that can be read and what \<open>fstat\<close> says of the descriptor.\<close>

definition ls :: "(byte list \<Rightarrow> (byte list \<times> Fs.stat option) option) \<Rightarrow> (byte list \<Rightarrow> Fs.stat option) \<Rightarrow> byte list \<Rightarrow> msg option" where
  "ls opn sys_stat path =
     (case opn path of
        None \<Rightarrow> map_option Err (printf (lit ''ls: cannot open %s'' @ [10]) [Str (Some path)])
      | Some (bs, None) \<Rightarrow> map_option Err (printf (lit ''ls: cannot stat %s'' @ [10]) [Str (Some path)])
      | Some (bs, Some st) \<Rightarrow>
          if st_type st = T_FILE then map_option Out (ls_line path st)
          else if st_type st = T_DIR
          then if length path + 1 + DIRSIZ + 1 > 512 then Some (Out (lit ''ls: path too long'' @ [10]))
               else map_option Out (ls_entries sys_stat path bs)
          else Some (Out []))"

fun ls_args :: "(byte list \<Rightarrow> (byte list \<times> Fs.stat option) option) \<Rightarrow> (byte list \<Rightarrow> Fs.stat option) \<Rightarrow> byte list list \<Rightarrow> msg list option" where
  "ls_args opn sys_stat [] = Some []"
| "ls_args opn sys_stat (a # as) =
     Option.bind (ls opn sys_stat a) (\<lambda>out. map_option (Cons out) (ls_args opn sys_stat as))"

definition ls_main :: "(byte list \<Rightarrow> (byte list \<times> Fs.stat option) option) \<Rightarrow> (byte list \<Rightarrow> Fs.stat option) \<Rightarrow> byte list list \<Rightarrow> msg list option" where
  "ls_main opn sys_stat argv =
     (if length argv < 2 then ls_args opn sys_stat [[46]] else ls_args opn sys_stat (drop 1 argv))"

section \<open>Counting and copying\<close>

text \<open>A descriptor that delivers its input in pieces, and what there is to count in the whole.\<close>

fun read_pieces :: "byte list list \<Rightarrow> nat \<Rightarrow> byte list option \<times> byte list list" where
  "read_pieces [] n = (Some [], [])"
| "read_pieces (p # ps) n = (Some p, ps)"

definition word_starts :: "byte list \<Rightarrow> nat set" where
  "word_starts bs = {i. i < length bs \<and> \<not> blank (bs ! i) \<and> (i = 0 \<or> blank (bs ! (i - 1)))}"

lemma word_starts_snoc:
  "word_starts (bs @ [x]) = word_starts bs \<union> (if \<not> blank x \<and> (bs = [] \<or> blank (last bs)) then {length bs} else {})"
proof (cases "bs = []")
  case False
  then show ?thesis by (auto simp: word_starts_def nth_append less_Suc_eq last_conv_nth split: if_splits)
qed (auto simp: word_starts_def)

lemma word_starts_below: "word_starts bs \<subseteq> {..<length bs}" "finite (word_starts bs)" "length bs \<notin> word_starts bs"
proof -
  show s: "word_starts bs \<subseteq> {..<length bs}" by (auto simp: word_starts_def)
  then show "finite (word_starts bs)" by (rule finite_subset) simp
  show "length bs \<notin> word_starts bs" using s by auto
qed

lemma wc_bytes:
  "foldl wc_byte (0, 0, 0, False) bs
     = (count_list bs 10, card (word_starts bs), length bs, bs \<noteq> [] \<and> \<not> blank (last bs))"
proof (induction bs rule: rev_induct)
  case Nil
  then show ?case by (simp add: word_starts_def)
next
  case (snoc x bs)
  then show ?case using word_starts_below(2,3) [of bs] by (auto simp: word_starts_snoc Let_def)
qed

lemma wc_loop_pieces:
  assumes "\<forall>p \<in> set ps. p \<noteq> []"
  shows "wc_loop read_pieces ps cnt = Some (Some (foldl wc_byte cnt (concat ps)))"
  using assms
proof (induction ps arbitrary: cnt)
  case Nil
  then show ?case by (subst wc_loop.simps) simp
next
  case (Cons p ps)
  then show ?case by (subst wc_loop.simps) simp
qed

text \<open>\<open>wc\<close> counts the newlines, the starts of words and the bytes of the input, however it is cut into pieces.\<close>

lemma wc_counts:
  assumes "\<forall>p \<in> set ps. p \<noteq> []"
  shows "wc_loop read_pieces ps (0, 0, 0, False) = Some (Some (count_list (concat ps) 10, card (word_starts (concat ps)), length (concat ps),
    concat ps \<noteq> [] \<and> \<not> blank (last (concat ps))))"
  unfolding wc_loop_pieces [OF assms] wc_bytes ..

lemma cat_copies:
  assumes "\<forall>p \<in> set ps. p \<noteq> []"
  shows "cat_loop read_pieces (\<lambda>b. int (length b)) ps out = Some (out @ concat ps, True)"
  using assms
proof (induction ps arbitrary: out)
  case Nil
  then show ?case by (subst cat_loop.simps) simp
next
  case (Cons p ps)
  then show ?case by (subst cat_loop.simps) simp
qed

lemma length_fmtname: "DIRSIZ \<le> length (fmtname path)"
  by (simp add: fmtname_def Let_def)

end
