(* ===== verification/Mp.thy ===== *)
theory Mp
  imports Spinlock
begin

text \<open>
  Finding the processors, \<open>src/lab10xv6/xv6/mp.c\<close> and \<open>mp.h\<close>: the search for the floating pointer structure in the memory that the
  firmware filled, the checks on the configuration table and the loop over its entries.  The structures are read at their
  offsets in memory.  The loop over the entries may not end, which is \<open>None\<close>.

  Shown: for a table of known entries \<open>mpinit\<close> registers the processors of the table in order, up to \<open>NCPU\<close>; at an entry
  of another type it never ends.
\<close>

section \<open>Structures\<close>

record mp_st = lock_st +
  ioapicid :: byte
  lapic :: nat
  imcr :: "(nat \<times> byte) list"

definition NCPU :: nat where "NCPU = 8"

definition MPPROC :: byte where "MPPROC = 0x00"
definition MPBUS :: byte where "MPBUS = 0x01"
definition MPIOAPIC :: byte where "MPIOAPIC = 0x02"
definition MPIOINTR :: byte where "MPIOINTR = 0x03"
definition MPLINTR :: byte where "MPLINTR = 0x04"

definition sizeof_mp :: nat where "sizeof_mp = 16"
definition sizeof_mpconf :: nat where "sizeof_mpconf = 44"
definition sizeof_mpproc :: nat where "sizeof_mpproc = 20"
definition sizeof_mpioapic :: nat where "sizeof_mpioapic = 8"

definition load16 :: "mem \<Rightarrow> nat \<Rightarrow> nat" where
  "load16 m a = unat (m a) + 256 * unat (m (a + 1))"

definition mp_physaddr :: "mem \<Rightarrow> nat \<Rightarrow> nat" where "mp_physaddr m a = unat (load32 m (a + 4))"
definition mp_imcrp :: "mem \<Rightarrow> nat \<Rightarrow> byte" where "mp_imcrp m a = m (a + 12)"
definition conf_length :: "mem \<Rightarrow> nat \<Rightarrow> nat" where "conf_length m a = load16 m (a + 4)"
definition conf_version :: "mem \<Rightarrow> nat \<Rightarrow> byte" where "conf_version m a = m (a + 6)"
definition conf_lapicaddr :: "mem \<Rightarrow> nat \<Rightarrow> nat" where "conf_lapicaddr m a = unat (load32 m (a + 36))"

section \<open>The search\<close>

fun mp_sum :: "mem \<Rightarrow> nat \<Rightarrow> nat \<Rightarrow> byte" where
  "mp_sum m a 0 = 0"
| "mp_sum m a (Suc n) = m a + mp_sum m (a + 1) n"

definition signed_by :: "mem \<Rightarrow> nat \<Rightarrow> byte list \<Rightarrow> bool" where
  "signed_by m a str \<longleftrightarrow> memcmp (\<lambda>i. m (a + i)) (\<lambda>i. str ! i) 4 = 0"

definition sig_mp :: "byte list" where "sig_mp = [0x5f, 0x4d, 0x50, 0x5f]"
definition sig_pcmp :: "byte list" where "sig_pcmp = [0x50, 0x43, 0x4d, 0x50]"

function mpsearch1_loop :: "mem \<Rightarrow> nat \<Rightarrow> nat \<Rightarrow> nat option" where
  "mpsearch1_loop m p e =
     (if p < e
      then if signed_by m p sig_mp \<and> mp_sum m p sizeof_mp = 0 then Some p else mpsearch1_loop m (p + sizeof_mp) e
      else None)"
  by auto
termination by (relation "measure (\<lambda>(m, p, e). e - p)") (auto simp: sizeof_mp_def)

declare mpsearch1_loop.simps [simp del]

definition mpsearch1 :: "mem \<Rightarrow> nat \<Rightarrow> nat \<Rightarrow> nat option" where
  "mpsearch1 m a len = mpsearch1_loop m (P2V a) (P2V a + len)"

definition mpsearch :: "mem \<Rightarrow> nat option" where
  "mpsearch m =
     (let bda = P2V 0x400;
          p = (256 * unat (m (bda + 0x0F)) + unat (m (bda + 0x0E))) * 16;
          base = (256 * unat (m (bda + 0x14)) + unat (m (bda + 0x13))) * 1024;
          hit = (if p \<noteq> 0 then mpsearch1 m p 1024 else mpsearch1 m ((base + 2 ^ 32 - 1024) mod 2 ^ 32) 1024)
      in case hit of Some mp \<Rightarrow> Some mp | None \<Rightarrow> mpsearch1 m 0xF0000 0x10000)"

text \<open>The floating pointer and the table, or nothing.\<close>

definition mpconfig :: "mem \<Rightarrow> (nat \<times> nat) option" where
  "mpconfig m =
     (case mpsearch m of
        None \<Rightarrow> None
      | Some mp \<Rightarrow>
          if mp_physaddr m mp = 0 then None
          else let conf = P2V (mp_physaddr m mp) in
               if \<not> signed_by m conf sig_pcmp then None
               else if conf_version m conf \<noteq> 1 \<and> conf_version m conf \<noteq> 4 then None
               else if mp_sum m conf (conf_length m conf) \<noteq> 0 then None
               else Some (mp, conf))"

section \<open>The entries\<close>

text \<open>\<open>break\<close> in the default case of the \<open>switch\<close> leaves the \<open>switch\<close> only.\<close>

partial_function (option) mpinit_loop :: "nat \<Rightarrow> nat \<Rightarrow> bool \<Rightarrow> 'z mp_st_scheme \<Rightarrow> (bool \<times> 'z mp_st_scheme) option" where
  "mpinit_loop p e ismp s =
     (if p < e
      then let t = mem s p in
           if t = MPPROC
           then mpinit_loop (p + sizeof_mpproc) e ismp
                  (if ncpu s < NCPU
                   then s\<lparr>cpus := (cpus s)(ncpu s := (cpus s (ncpu s))\<lparr>apicid := unat (mem s (p + 1))\<rparr>), ncpu := ncpu s + 1\<rparr>
                   else s)
           else if t = MPIOAPIC
           then mpinit_loop (p + sizeof_mpioapic) e ismp (s\<lparr>ioapicid := mem s (p + 1)\<rparr>)
           else if t = MPBUS \<or> t = MPIOINTR \<or> t = MPLINTR
           then mpinit_loop (p + 8) e ismp s
           else mpinit_loop p e False s
      else Some (ismp, s))"

text \<open>\<open>inb(0x23)\<close> is the argument \<open>in23\<close>; \<open>imcr\<close> lists the bytes written to the ports.\<close>

definition mpinit :: "byte \<Rightarrow> 'z mp_st_scheme \<Rightarrow> (unit, 'z mp_st_scheme) res option" where
  "mpinit in23 s =
     (case mpconfig (mem s) of
        None \<Rightarrow> Some (Panic ''Expect to run on an SMP'')
      | Some (mp, conf) \<Rightarrow>
          (case mpinit_loop (conf + sizeof_mpconf) (conf + conf_length (mem s) conf) True
                  (s\<lparr>lapic := conf_lapicaddr (mem s) conf\<rparr>) of
             None \<Rightarrow> None
           | Some (ismp, s) \<Rightarrow>
               if \<not> ismp then Some (Panic ''Didn't find a suitable machine'')
               else Some (Ok () (if mp_imcrp (mem s) mp \<noteq> 0 then s\<lparr>imcr := imcr s @ [(0x22, 0x70), (0x23, in23 OR 1)]\<rparr> else s))))"

section \<open>What a table says\<close>

datatype entry = Processor nat | IoApic byte | Other

text \<open>The entries in the bytes from \<open>p\<close> to \<open>e\<close>, when all are of a known type.\<close>

function table :: "mem \<Rightarrow> nat \<Rightarrow> nat \<Rightarrow> entry list option" where
  "table m p e =
     (if p < e
      then if m p = MPPROC then map_option (\<lambda>es. Processor (unat (m (p + 1))) # es) (table m (p + sizeof_mpproc) e)
           else if m p = MPIOAPIC then map_option (\<lambda>es. IoApic (m (p + 1)) # es) (table m (p + sizeof_mpioapic) e)
           else if m p = MPBUS \<or> m p = MPIOINTR \<or> m p = MPLINTR then map_option (\<lambda>es. Other # es) (table m (p + 8) e)
           else None
      else Some [])"
  by auto
termination by (relation "measure (\<lambda>(m, p, e). e - p)") (auto simp: sizeof_mpproc_def sizeof_mpioapic_def)

declare table.simps [simp del]

fun proc_ids :: "entry list \<Rightarrow> nat list" where
  "proc_ids [] = []"
| "proc_ids (Processor i # es) = i # proc_ids es"
| "proc_ids (e # es) = proc_ids es"

fun last_ioapic :: "byte \<Rightarrow> entry list \<Rightarrow> byte" where
  "last_ioapic a [] = a"
| "last_ioapic a (IoApic b # es) = last_ioapic b es"
| "last_ioapic a (e # es) = last_ioapic a es"

definition cpu_ids :: "'z lock_st_scheme \<Rightarrow> nat list" where
  "cpu_ids s = map (\<lambda>i. apicid (cpus s i)) [0..<ncpu s]"

lemma length_cpu_ids [simp]: "length (cpu_ids s) = ncpu s"
  by (simp add: cpu_ids_def)

definition registered :: "'z mp_st_scheme \<Rightarrow> entry list \<Rightarrow> 'z mp_st_scheme \<Rightarrow> bool" where
  "registered s es s' \<longleftrightarrow> cpu_ids s' = take NCPU (cpu_ids s @ proc_ids es) \<and> ioapicid s' = last_ioapic (ioapicid s) es
     \<and> lapic s' = lapic s \<and> mem s' = mem s \<and> imcr s' = imcr s"

definition add_cpu :: "nat \<Rightarrow> 'z mp_st_scheme \<Rightarrow> 'z mp_st_scheme" where
  "add_cpu i s = (if ncpu s < NCPU then s\<lparr>cpus := (cpus s)(ncpu s := (cpus s (ncpu s))\<lparr>apicid := i\<rparr>), ncpu := ncpu s + 1\<rparr> else s)"

lemma add_cpu:
  assumes "ncpu s \<le> NCPU"
  shows "cpu_ids (add_cpu i s) = take NCPU (cpu_ids s @ [i])" and "ncpu (add_cpu i s) \<le> NCPU" and "mem (add_cpu i s) = mem s"
    and "ioapicid (add_cpu i s) = ioapicid s" and "lapic (add_cpu i s) = lapic s" and "imcr (add_cpu i s) = imcr s"
proof -
  have "map (\<lambda>k. apicid (((cpus s)(ncpu s := (cpus s (ncpu s))\<lparr>apicid := i\<rparr>)) k)) [0..<ncpu s] = cpu_ids s"
    by (simp add: cpu_ids_def)
  with assms show "cpu_ids (add_cpu i s) = take NCPU (cpu_ids s @ [i])"
    unfolding add_cpu_def by (simp add: cpu_ids_def)
qed (use assms in \<open>simp_all add: add_cpu_def\<close>)

lemma registered_cpu:
  assumes "ncpu s \<le> NCPU" and "registered (add_cpu i s) es s'"
  shows "registered s (Processor i # es) s'"
proof -
  have "take NCPU (take NCPU (cpu_ids s @ [i]) @ proc_ids es) = take NCPU (cpu_ids s @ i # proc_ids es)"
    using assms(1) by (cases "ncpu s = NCPU") simp_all
  with assms show ?thesis by (simp add: registered_def add_cpu)
qed

lemma mpinit_loop_spec:
  fixes s :: "'z mp_st_scheme"
  assumes "table (mem s) p e = Some es" and "ncpu s \<le> NCPU"
  shows "\<exists>s'. mpinit_loop p e ismp s = Some (ismp, s') \<and> registered s es s'"
  using assms
proof (induction "mem s" p e arbitrary: s es rule: table.induct)
  case (1 p e)
  note IH = "1.hyps" and tab = "1.prems"(1) [unfolded table.simps [of "mem s" p e]]
  show ?case
  proof (cases "p < e")
    case False
    then have "es = []" using tab by simp
    with False "1.prems"(2) show ?thesis by (subst mpinit_loop.simps) (simp add: registered_def)
  next
    case True
    note pe = True
    consider "mem s p = MPPROC" | "mem s p \<noteq> MPPROC" "mem s p = MPIOAPIC"
      | "mem s p \<noteq> MPPROC" "mem s p \<noteq> MPIOAPIC" "mem s p = MPBUS \<or> mem s p = MPIOINTR \<or> mem s p = MPLINTR"
      using tab pe by (auto split: if_splits)
    then show ?thesis
    proof cases
      case 1
      let ?t = "add_cpu (unat (mem s (p + 1))) s"
      obtain fs where fs: "table (mem s) (p + sizeof_mpproc) e = Some fs" "es = Processor (unat (mem s (p + 1))) # fs"
        using tab pe 1 by auto
      have "\<exists>s'. mpinit_loop (p + sizeof_mpproc) e ismp ?t = Some (ismp, s') \<and> registered ?t fs s'"
        using IH(1) [OF pe 1, of ?t fs] fs(1) add_cpu [OF "1.prems"(2)] by simp
      then show ?thesis using registered_cpu [OF "1.prems"(2)] pe 1 fs(2)
        by (subst mpinit_loop.simps) (auto simp: add_cpu_def Let_def)
    next
      case 2
      let ?t = "s\<lparr>ioapicid := mem s (p + 1)\<rparr>"
      obtain fs where fs: "table (mem s) (p + sizeof_mpioapic) e = Some fs" "es = IoApic (mem s (p + 1)) # fs"
        using tab pe 2 by auto
      have "\<exists>s'. mpinit_loop (p + sizeof_mpioapic) e ismp ?t = Some (ismp, s') \<and> registered ?t fs s'"
        using IH(2) [OF pe 2, of ?t fs] fs(1) "1.prems"(2) by simp
      then show ?thesis using pe 2 fs(2)
        by (subst mpinit_loop.simps) (auto simp: registered_def Let_def cpu_ids_def)
    next
      case 3
      obtain fs where fs: "table (mem s) (p + 8) e = Some fs" "es = Other # fs"
        using tab pe 3 by auto
      have "\<exists>s'. mpinit_loop (p + 8) e ismp s = Some (ismp, s') \<and> registered s fs s'"
        using IH(3) [OF pe 3, of s fs] fs(1) "1.prems"(2) by simp
      then show ?thesis using pe 3 fs(2)
        by (subst mpinit_loop.simps) (auto simp: registered_def Let_def)
    qed
  qed
qed

text \<open>C39. Booting on several processors: when the firmware's floating pointer and configuration table pass the checks and every entry
  of the table is of a known type, mpinit ends; it has registered the processors of the table in the order of their
  entries, those beyond NCPU left out, recorded the last I/O APIC and the address of the local APIC, and written to no memory.\<close>

theorem mpinit_registers:
  fixes s :: "'z mp_st_scheme"
  assumes "mpconfig (mem s) = Some (mp, conf)" and "ncpu s = 0"
    and "table (mem s) (conf + sizeof_mpconf) (conf + conf_length (mem s) conf) = Some es"
  shows "\<exists>s'. mpinit in23 s = Some (Ok () s') \<and> cpu_ids s' = take NCPU (proc_ids es)
    \<and> ioapicid s' = last_ioapic (ioapicid s) es \<and> lapic s' = conf_lapicaddr (mem s) conf \<and> mem s' = mem s"
proof -
  let ?t = "s\<lparr>lapic := conf_lapicaddr (mem s) conf\<rparr>"
  have "cpu_ids ?t = []" using assms(2) by (simp add: cpu_ids_def)
  with mpinit_loop_spec [of ?t "conf + sizeof_mpconf" "conf + conf_length (mem s) conf" es True] assms obtain u where
    u: "mpinit_loop (conf + sizeof_mpconf) (conf + conf_length (mem s) conf) True ?t = Some (True, u)"
    "cpu_ids u = take NCPU (proc_ids es)" "ioapicid u = last_ioapic (ioapicid s) es" "lapic u = conf_lapicaddr (mem s) conf" "mem u = mem s"
    by (auto simp: registered_def)
  moreover have "cpu_ids (u\<lparr>imcr := x\<rparr>) = cpu_ids u" for x by (simp add: cpu_ids_def)
  ultimately show ?thesis using assms(1) by (simp add: mpinit_def)
qed

text \<open>Firmware with two processors, whose APIC numbers are 0 and 5, and I/O APIC 9.\<close>

definition fw_bytes :: "byte list" where
  "fw_bytes = [95, 77, 80, 95, 16, 244, 9, 0, 1, 4, 147, 0, 0, 0, 0, 0, 80, 67, 77, 80, 92, 0, 4, 126, 0, 0, 0, 0, 0, 0, 0,
    0, 0, 0, 0, 0, 0, 0, 0, 0, 0, 0, 0, 0, 0, 0, 0, 0, 0, 0, 4, 0, 0, 0, 224, 254, 0, 0, 0, 0, 0, 0, 0, 0, 0, 0,
    0, 0, 0, 0, 0, 0, 0, 0, 0, 0, 0, 0, 0, 0, 0, 5, 0, 0, 0, 0, 0, 0, 0, 0, 0, 0, 0, 0, 0, 0, 0, 0, 0, 0, 2, 9, 0,
    0, 0, 0, 0, 0]"

definition firmware :: mem where
  "firmware a = (if a = 0x8000040E then 0x40 else if a = 0x8000040F then 0x9f
     else if 0x8009F400 \<le> a \<and> a - 0x8009F400 < 108 then fw_bytes ! (a - 0x8009F400) else 0)"

definition mp_boot :: mp_st where
  "mp_boot = \<lparr>mem = firmware, freelist = 0, use_lock = False, kend = 0, kpgdir = 0, cr3 = 0, sym_data = 0,
     cpus = (\<lambda>i. \<lparr>apicid = 0, ts = \<lparr>esp0 = 0, ss0 = 0, iomb = 0\<rparr>, ncli = 0, intena = False, cproc = None\<rparr>),
     ncpu = 0, lapicid = 0, hw_if = (\<lambda>_. False), locks = (\<lambda>_. \<lparr>locked = False, lcpu = None\<rparr>),
     ioapicid = 0, lapic = 0, imcr = []\<rparr>"

lemma firmware_at: "k < 108 \<Longrightarrow> firmware (0x8009F400 + k) = fw_bytes ! k"
  by (simp add: firmware_def)

lemma mp_sum_bytes: "k + n \<le> 108 \<Longrightarrow> mp_sum firmware (0x8009F400 + k) n = sum_list (take n (drop k fw_bytes))"
proof (induction n arbitrary: k)
  case (Suc n)
  have "length fw_bytes = 108" by (simp add: fw_bytes_def)
  with Suc.prems have "drop k fw_bytes = fw_bytes ! k # drop (Suc k) fw_bytes" by (simp add: Cons_nth_drop_Suc)
  with Suc.IH [of "Suc k"] Suc.prems firmware_at [of k] show ?case by simp
qed simp

lemma fw_sums: "mp_sum firmware 0x8009F400 16 = 0" "mp_sum firmware 0x8009F410 92 = 0"
proof -
  show "mp_sum firmware 0x8009F400 16 = 0" using mp_sum_bytes [of 0 16] by (simp add: fw_bytes_def)
  show "mp_sum firmware 0x8009F410 92 = 0" using mp_sum_bytes [of 16 92] by (simp add: fw_bytes_def)
qed

lemma fw_fields: "mp_physaddr firmware 0x8009F400 = 0x9F410" "conf_length firmware 0x8009F410 = 92" "conf_version firmware 0x8009F410 = 4"
  by (simp_all add: mp_physaddr_def load32_def conf_length_def load16_def conf_version_def firmware_def fw_bytes_def)

lemma memcmp_4: "memcmp s t 4 = 0 \<longleftrightarrow> s 0 = t 0 \<and> s 1 = t 1 \<and> s 2 = t 2 \<and> s 3 = t 3"
  by (simp add: eval_nat_numeral word_uint_eq_iff)

lemma fw_signed: "signed_by firmware 0x8009F400 sig_mp" "signed_by firmware 0x8009F410 sig_pcmp"
  by (simp_all add: signed_by_def sig_mp_def sig_pcmp_def firmware_def fw_bytes_def memcmp_4)

lemma firmware_config: "mpconfig firmware = Some (0x8009F400, 0x8009F410)"
proof -
  have "mpsearch1 firmware 0x9F400 1024 = Some 0x8009F400"
    unfolding mpsearch1_def by (subst mpsearch1_loop.simps) (simp add: P2V_def KERNBASE_def fw_signed fw_sums sizeof_mp_def)
  then have "mpsearch firmware = Some 0x8009F400" by (simp add: mpsearch_def P2V_def KERNBASE_def firmware_def)
  then show ?thesis by (simp add: mpconfig_def fw_fields fw_signed fw_sums P2V_def KERNBASE_def)
qed

lemma firmware_table:
  "table firmware (0x8009F410 + sizeof_mpconf) (0x8009F410 + conf_length firmware 0x8009F410) = Some [Processor 0, Processor 5, IoApic 9]"
  unfolding fw_fields by (simp add: sizeof_mpconf_def table.simps sizeof_mpproc_def sizeof_mpioapic_def firmware_def fw_bytes_def
    MPPROC_def MPIOAPIC_def)

theorem mpinit_registers_witness:
  "\<exists>s'. mpinit 0 mp_boot = Some (Ok () s') \<and> cpu_ids s' = [0, 5] \<and> ioapicid s' = 9"
proof -
  have m: "mem mp_boot = firmware" "ncpu mp_boot = 0" by (simp_all add: mp_boot_def)
  from mpinit_registers [of mp_boot, unfolded m, OF firmware_config refl firmware_table, of 0] show ?thesis
    by (auto simp: NCPU_def)
qed

lemma mpinit_loop_hangs:
  assumes "p < e" and "mem s p \<notin> {MPPROC, MPBUS, MPIOAPIC, MPIOINTR, MPLINTR}"
  shows "mpinit_loop p e ismp s = None"
proof (rule ccontr)
  assume "mpinit_loop p e ismp s \<noteq> None"
  then obtain r where "mpinit_loop p e ismp s = Some r" by auto
  then have "\<not> (p < e \<and> mem s p \<notin> {MPPROC, MPBUS, MPIOAPIC, MPIOINTR, MPLINTR})"
    by (induction rule: mpinit_loop.raw_induct [rotated 1, consumes 1]) (fastforce simp: Let_def split: if_splits)
  with assms show False by blast
qed

text \<open>An entry of an unknown type at the start of the table: no panic, no end.\<close>

lemma mpinit_hangs:
  assumes "mpconfig (mem s) = Some (mp, conf)" and "sizeof_mpconf < conf_length (mem s) conf"
    and "mem s (conf + sizeof_mpconf) \<notin> {MPPROC, MPBUS, MPIOAPIC, MPIOINTR, MPLINTR}"
  shows "mpinit in23 s = None"
  using assms mpinit_loop_hangs [of "conf + sizeof_mpconf" "conf + conf_length (mem s) conf" "s\<lparr>lapic := conf_lapicaddr (mem s) conf\<rparr>" True]
  by (simp add: mpinit_def)

end
