(* ===== verification/LinkedList.thy ===== *)
theory LinkedList
  imports Prelude
begin

text \<open>
  The linked lists of \<open>src/lab1Revision/linkedList.c\<close>.

  The heap maps the address of an allocated cell to the cell; 0 is \<open>NULL\<close>.  \<open>malloc\<close> is an argument: the address that it
  returns in a heap, 0 when it fails, otherwise one that is not allocated.  Following a null or dangling pointer, freeing a
  cell twice and overflow of \<open>int32_t\<close> are faults.  A loop over a cyclic list does not end and is \<open>None\<close>.

  Shown: \<open>list_map\<close> builds a new list and leaves the given one alone, \<open>fibonacci\<close> lists the Fibonacci numbers, and
  \<open>list_free\<close> frees the head of every list that is not empty a second time.
\<close>

section \<open>Cells and faults\<close>

record link =
  lnext :: nat
  lvalue :: int

type_synonym heap = "nat \<rightharpoonup> link"

datatype fault = NullDeref | BadAccess | DoubleFree | Overflow

type_synonym malloc = "heap \<Rightarrow> nat"

definition load :: "heap \<Rightarrow> nat \<Rightarrow> fault + link" where
  "load h a = (if a = 0 then Inl NullDeref else case h a of None \<Rightarrow> Inl BadAccess | Some x \<Rightarrow> Inr x)"

definition free_cell :: "heap \<Rightarrow> nat \<Rightarrow> fault + heap" where
  "free_cell h a = (case h a of None \<Rightarrow> Inl DoubleFree | Some _ \<Rightarrow> Inr (h(a := None)))"

definition int32 :: "int \<Rightarrow> fault + int" where
  "int32 i = (if - (2 ^ 31) \<le> i \<and> i < 2 ^ 31 then Inr i else Inl Overflow)"

section \<open>The list routines\<close>

datatype item = Dec int | Str string

partial_function (option) print_loop :: "heap \<Rightarrow> nat \<Rightarrow> item list \<Rightarrow> (fault + item list) option" where
  "print_loop h l out =
     (if l = 0 then Some (Inr (out @ [Str [CHR 0x0A]]))
      else case load h l of
        Inl e \<Rightarrow> Some (Inl e)
      | Inr x \<Rightarrow> print_loop h (lnext x) (out @ [Dec (lvalue x)] @ (if lnext x \<noteq> 0 then [Str '', ''] else [])))"

definition list_print :: "heap \<Rightarrow> nat \<Rightarrow> (fault + item list) option" where
  "list_print h list = print_loop h list []"

definition list_append :: "malloc \<Rightarrow> int \<Rightarrow> nat \<Rightarrow> heap \<Rightarrow> fault + nat \<times> heap" where
  "list_append mal x head h =
     (let head' = mal h in
      if head' = 0 then Inl NullDeref else Inr (head', h(head' \<mapsto> \<lparr>lnext = head, lvalue = x\<rparr>)))"

partial_function (option) reverse_loop :: "heap \<Rightarrow> nat \<Rightarrow> nat \<Rightarrow> (fault + nat \<times> heap) option" where
  "reverse_loop h l head =
     (if l = 0 then Some (Inr (head, h))
      else case load h l of
        Inl e \<Rightarrow> Some (Inl e)
      | Inr x \<Rightarrow> reverse_loop (h(l \<mapsto> x\<lparr>lnext := head\<rparr>)) (lnext x) l)"

definition list_reverse :: "nat \<Rightarrow> heap \<Rightarrow> (fault + nat \<times> heap) option" where
  "list_reverse list h = reverse_loop h list 0"

fun fib_loop :: "malloc \<Rightarrow> nat \<Rightarrow> int \<Rightarrow> int \<Rightarrow> nat \<Rightarrow> heap \<Rightarrow> fault + nat \<times> heap" where
  "fib_loop mal 0 prev latest head h = Inr (head, h)"
| "fib_loop mal (Suc k) prev latest head h =
     (case int32 (latest + prev) of
        Inl e \<Rightarrow> Inl e
      | Inr v \<Rightarrow>
          (case list_append mal v head h of
             Inl e \<Rightarrow> Inl e
           | Inr (head, h) \<Rightarrow>
               (case load h head of Inl e \<Rightarrow> Inl e | Inr x \<Rightarrow> fib_loop mal k latest (lvalue x) head h)))"

definition fibonacci :: "malloc \<Rightarrow> int \<Rightarrow> heap \<Rightarrow> (fault + nat \<times> heap) option" where
  "fibonacci mal n h =
     (case (if n > 0 then list_append mal 1 0 h else Inr (0, h)) of
        Inl e \<Rightarrow> Some (Inl e)
      | Inr (head, h) \<Rightarrow>
          (case (if n > 1 then list_append mal 1 head h else Inr (head, h)) of
             Inl e \<Rightarrow> Some (Inl e)
           | Inr (head, h) \<Rightarrow>
               (case fib_loop mal (nat (n - 2)) 1 1 head h of
                  Inl e \<Rightarrow> Some (Inl e)
                | Inr (head, h) \<Rightarrow> list_reverse head h)))"

partial_function (option) map_loop :: "malloc \<Rightarrow> (int \<Rightarrow> fault + int) \<Rightarrow> heap \<Rightarrow> nat \<Rightarrow> nat \<Rightarrow> (fault + nat \<times> heap) option" where
  "map_loop mal f h l new =
     (if l = 0 then Some (Inr (new, h))
      else case load h l of
        Inl e \<Rightarrow> Some (Inl e)
      | Inr x \<Rightarrow>
          (case f (lvalue x) of
             Inl e \<Rightarrow> Some (Inl e)
           | Inr v \<Rightarrow>
               (case list_append mal v new h of
                  Inl e \<Rightarrow> Some (Inl e)
                | Inr (new, h) \<Rightarrow>
                    (case load h l of Inl e \<Rightarrow> Some (Inl e) | Inr x \<Rightarrow> map_loop mal f h (lnext x) new))))"

definition list_map :: "malloc \<Rightarrow> nat \<Rightarrow> (int \<Rightarrow> fault + int) \<Rightarrow> heap \<Rightarrow> (fault + nat \<times> heap) option" where
  "list_map mal list f h =
     (case map_loop mal f h list 0 of
        None \<Rightarrow> None
      | Some (Inl e) \<Rightarrow> Some (Inl e)
      | Some (Inr (new, h)) \<Rightarrow> list_reverse new h)"

partial_function (option) free_loop :: "heap \<Rightarrow> nat \<Rightarrow> (fault + heap) option" where
  "free_loop h l =
     (if l = 0 then Some (Inr h)
      else case load h l of
        Inl e \<Rightarrow> Some (Inl e)
      | Inr x \<Rightarrow> (case free_cell h l of Inl e \<Rightarrow> Some (Inl e) | Inr h \<Rightarrow> free_loop h (lnext x)))"

definition list_free :: "nat \<Rightarrow> heap \<Rightarrow> (fault + heap) option" where
  "list_free list h =
     (case free_loop h list of
        None \<Rightarrow> None
      | Some (Inl e) \<Rightarrow> Some (Inl e)
      | Some (Inr h) \<Rightarrow> Some (if list \<noteq> 0 then free_cell h list else Inr h))"

definition square :: "int \<Rightarrow> fault + int" where
  "square x = int32 (x * x)"

text \<open>\<open>main\<close>: what it prints, and the fault that stops it, if one does.\<close>

definition main_list :: "malloc \<Rightarrow> heap \<Rightarrow> (item list \<times> fault option) option" where
  "main_list mal h =
     (case fibonacci mal 10 h of
        None \<Rightarrow> None
      | Some (Inl e) \<Rightarrow> Some ([], Some e)
      | Some (Inr (fib, h)) \<Rightarrow>
     (case list_map mal fib square h of
        None \<Rightarrow> None
      | Some (Inl e) \<Rightarrow> Some ([], Some e)
      | Some (Inr (fib_sq, h)) \<Rightarrow>
     (case list_print h fib_sq of
        None \<Rightarrow> None
      | Some (Inl e) \<Rightarrow> Some ([], Some e)
      | Some (Inr o1) \<Rightarrow>
     (case list_print h fib of
        None \<Rightarrow> None
      | Some (Inl e) \<Rightarrow> Some (o1, Some e)
      | Some (Inr o2) \<Rightarrow>
     (case list_free fib_sq h of
        None \<Rightarrow> None
      | Some (Inl e) \<Rightarrow> Some (o1 @ o2, Some e)
      | Some (Inr h) \<Rightarrow>
     (case list_free fib h of
        None \<Rightarrow> None
      | Some (Inl e) \<Rightarrow> Some (o1 @ o2, Some e)
      | Some (Inr h) \<Rightarrow> Some (o1 @ o2, None)))))))"

section \<open>Lists in the heap\<close>

text \<open>\<open>links h p cs\<close>: from \<open>p\<close> the heap holds a list whose cells are at the addresses and have the values of \<open>cs\<close>.\<close>

fun links :: "heap \<Rightarrow> nat \<Rightarrow> (nat \<times> int) list \<Rightarrow> bool" where
  "links h p [] \<longleftrightarrow> p = 0"
| "links h p ((a, v) # cs) \<longleftrightarrow> p = a \<and> a \<noteq> 0
     \<and> (case h a of None \<Rightarrow> False | Some x \<Rightarrow> lvalue x = v \<and> links h (lnext x) cs)"

definition addresses :: "(nat \<times> int) list \<Rightarrow> nat set" where
  "addresses cs = fst ` set cs"

lemma addresses_simps [simp]:
  "addresses [] = {}" "addresses (c # cs) = insert (fst c) (addresses cs)" "addresses (rev cs) = addresses cs"
  "finite (addresses cs)"
  by (simp_all add: addresses_def)

lemma links_cong: "(\<And>a. a \<in> addresses cs \<Longrightarrow> h' a = h a) \<Longrightarrow> links h' p cs = links h p cs"
  by (induction cs arbitrary: p) (auto split: option.splits)

lemma links_upd: "a \<notin> addresses cs \<Longrightarrow> links (h(a := x)) p cs = links h p cs"
  by (rule links_cong) auto

lemma links_dom: "links h p cs \<Longrightarrow> addresses cs \<subseteq> dom h"
  by (induction cs arbitrary: p) (fastforce split: option.splits)+

lemma links_unique: "links h p cs \<Longrightarrow> links h p ds \<Longrightarrow> cs = ds"
proof (induction cs arbitrary: p ds)
  case Nil
  then show ?case by (cases ds) auto
next
  case (Cons c cs)
  then show ?case by (cases c; cases ds) (auto split: option.splits)
qed

lemma links_append: "links h p (cs @ ds) \<Longrightarrow> \<exists>q. links h q ds"
  by (induction cs arbitrary: p) (auto split: option.splits)

lemma links_head:
  assumes "links h p ((a, v) # cs)"
  shows "a \<notin> addresses cs"
proof
  assume "a \<in> addresses cs"
  then obtain w where "(a, w) \<in> set cs" by (auto simp: addresses_def)
  then obtain ds es where split: "cs = ds @ (a, w) # es" by (auto dest: split_list)
  from assms obtain x :: link where "links h (lnext x) cs" by (auto split: option.splits)
  with split obtain q where q: "links h q ((a, w) # es)" using links_append by blast
  then have "q = a" "p = a" using assms by simp_all
  with q assms have "(a, w) # es = (a, v) # cs" by (intro links_unique [of h a]) auto
  with split show False by auto
qed

lemma load_links:
  assumes "links h p ((a, v) # cs)"
  obtains x where "load h p = Inr x" and "h p = Some x" and "lvalue x = v" and "links h (lnext x) cs" and "p \<noteq> 0" and "p = a"
  using assms by (auto simp: load_def split: option.splits)


section \<open>What the routines do\<close>

lemma reverse_loop_spec:
  assumes "links h l cs" and "links h head ds" and "addresses cs \<inter> addresses ds = {}"
  shows "\<exists>r h'. reverse_loop h l head = Some (Inr (r, h')) \<and> links h' r (rev cs @ ds) \<and> dom h' = dom h
    \<and> (\<forall>a. a \<notin> addresses cs \<longrightarrow> h' a = h a)"
  using assms
proof (induction cs arbitrary: h l head ds)
  case Nil
  then show ?case by (subst reverse_loop.simps) simp
next
  case (Cons c cs)
  obtain a v where c: "c = (a, v)" by (cases c)
  obtain x where
    x: "load h l = Inr x" "h l = Some x" "lvalue x = v" "links h (lnext x) cs" "l \<noteq> 0" "l = a"
    using load_links [OF Cons.prems(1) [unfolded c]] by blast
  let ?h = "h(l \<mapsto> x\<lparr>lnext := head\<rparr>)"
  have a: "a \<notin> addresses cs" "a \<notin> addresses ds"
    using links_head [OF Cons.prems(1) [unfolded c]] Cons.prems(3) c by auto
  have "links ?h (lnext x) cs" "links ?h l ((a, v) # ds)"
    using x a Cons.prems(2) by (simp_all add: links_upd)
  moreover have "addresses cs \<inter> addresses ((a, v) # ds) = {}" using a Cons.prems(3) c by auto
  ultimately obtain r h' where r: "reverse_loop ?h (lnext x) l = Some (Inr (r, h'))" "links h' r (rev cs @ (a, v) # ds)"
    "dom h' = dom ?h" "\<forall>b. b \<notin> addresses cs \<longrightarrow> h' b = ?h b" using Cons.IH by blast
  have "reverse_loop h l head = reverse_loop ?h (lnext x) l" by (subst reverse_loop.simps) (simp add: x(1,5))
  moreover have "dom ?h = dom h" using x(2) by auto
  moreover have "\<forall>b. b \<notin> addresses (c # cs) \<longrightarrow> h' b = h b" using r(4) x(6) c by simp
  ultimately show ?case using r(1-3) c by (intro exI [of _ r] exI [of _ h']) simp
qed

lemma list_reverse_spec:
  assumes "links h l cs"
  obtains r h' where "list_reverse l h = Some (Inr (r, h'))" and "links h' r (rev cs)" and "dom h' = dom h"
    and "\<And>a. a \<notin> addresses cs \<Longrightarrow> h' a = h a"
  using reverse_loop_spec [OF assms, of 0 "[]"] that unfolding list_reverse_def by simp blast

text \<open>\<open>malloc\<close> hands out addresses that are not in use; 0 is never one of them.\<close>

definition fresh_malloc :: "malloc \<Rightarrow> bool" where
  "fresh_malloc mal \<longleftrightarrow> (\<forall>h. finite (dom h) \<longrightarrow> mal h \<notin> dom h)"

definition no_room :: "malloc \<Rightarrow> bool" where
  "no_room mal \<longleftrightarrow> (\<exists>h. finite (dom h) \<and> mal h = 0)"

text \<open>What a routine that builds a list may do: find no memory, or add the cells \<open>cs\<close> to the heap.\<close>

definition builds :: "malloc \<Rightarrow> heap \<Rightarrow> int list \<Rightarrow> fault + nat \<times> heap \<Rightarrow> bool" where
  "builds mal h vs res \<longleftrightarrow> (case res of
      Inl e \<Rightarrow> e = NullDeref \<and> no_room mal
    | Inr (r, h') \<Rightarrow> \<exists>cs. links h' r cs \<and> map snd cs = vs \<and> addresses cs \<inter> dom h = {} \<and> dom h' = dom h \<union> addresses cs
        \<and> (\<forall>a \<in> dom h. h' a = h a))"

lemma builds_InrI:
  assumes "links h' r cs" and "map snd cs = vs" and "addresses cs \<inter> dom h = {}" and "dom h' = dom h \<union> addresses cs"
    and "\<forall>a \<in> dom h. h' a = h a"
  shows "builds mal h vs (Inr (r, h'))"
  using assms unfolding builds_def by auto

lemma builds_old: "builds mal h vs (Inr (r, h')) \<Longrightarrow> a \<in> dom h \<Longrightarrow> h' a = h a"
  by (auto simp: builds_def)

lemma list_append_builds:
  assumes "fresh_malloc mal" and "finite (dom h)" and "finite (dom h0)" and "builds mal h0 vs (Inr (r, h))"
  shows "builds mal h0 (v # vs) (list_append mal v r h)"
proof (cases "mal h = 0")
  case True
  with assms(2) show ?thesis by (auto simp: builds_def list_append_def no_room_def)
next
  case False
  have fr: "mal h \<notin> dom h" using assms(1,2) by (simp add: fresh_malloc_def)
  from assms(4) obtain cs where cs: "links h r cs" "map snd cs = vs" "addresses cs \<inter> dom h0 = {}" "dom h = dom h0 \<union> addresses cs"
    "\<forall>a \<in> dom h0. h a = h0 a" by (auto simp: builds_def)
  let ?h = "h(mal h \<mapsto> \<lparr>lnext = r, lvalue = v\<rparr>)"
  have n: "mal h \<notin> addresses cs" "mal h \<notin> dom h0" using fr cs(4) by auto
  have "links ?h (mal h) ((mal h, v) # cs)" using False n cs(1) by (simp add: links_upd)
  moreover have "\<forall>a \<in> dom h0. ?h a = h0 a" using n(2) cs(5) by auto
  moreover have "addresses ((mal h, v) # cs) \<inter> dom h0 = {}" "dom ?h = dom h0 \<union> addresses ((mal h, v) # cs)"
    using n cs(3,4) by auto
  moreover have "map snd ((mal h, v) # cs) = v # vs" using cs(2) by simp
  ultimately have "builds mal h0 (v # vs) (Inr (mal h, ?h))" by (intro builds_InrI)
  with False show ?thesis by (simp add: list_append_def Let_def)
qed

lemma builds_reverse:
  assumes "builds mal h0 vs (Inr (r, h))"
  obtains res where "list_reverse r h = Some res" and "builds mal h0 (rev vs) res"
proof -
  from assms obtain cs where cs: "links h r cs" "map snd cs = vs" "addresses cs \<inter> dom h0 = {}" "dom h = dom h0 \<union> addresses cs"
    "\<forall>a \<in> dom h0. h a = h0 a" by (auto simp: builds_def)
  obtain r' h' where r: "list_reverse r h = Some (Inr (r', h'))" "links h' r' (rev cs)" "dom h' = dom h"
    "\<And>a. a \<notin> addresses cs \<Longrightarrow> h' a = h a" using list_reverse_spec [OF cs(1)] by blast
  have old: "\<forall>a \<in> dom h0. h' a = h0 a"
  proof
    fix a assume "a \<in> dom h0"
    moreover from this have "a \<notin> addresses cs" using cs(3) by blast
    ultimately show "h' a = h0 a" using r(4) cs(5) by simp
  qed
  have "map snd (rev cs) = rev vs" unfolding cs(2) [symmetric] by (rule rev_map [symmetric])
  from builds_InrI [OF r(2) this _ _ old] cs(3,4) r(3) have "builds mal h0 (rev vs) (Inr (r', h'))" by auto
  with r(1) show thesis by (rule that)
qed

lemma builds_keeps: "builds mal h vs (Inr (r, h')) \<Longrightarrow> links h p cs \<Longrightarrow> links h' p cs"
proof -
  assume b: "builds mal h vs (Inr (r, h'))" and l: "links h p cs"
  have "h' a = h a" if "a \<in> addresses cs" for a
    using builds_old [OF b] that links_dom [OF l] by blast
  with l show "links h' p cs" using links_cong by blast
qed

lemma builds_finite: "builds mal h vs (Inr (r, h')) \<Longrightarrow> finite (dom h) \<Longrightarrow> finite (dom h')"
  by (auto simp: builds_def)

lemma map_loop_builds:
  assumes mal: "fresh_malloc mal" and fin: "finite (dom h0)"
    and l: "links h0 l cs" and b: "builds mal h0 vs (Inr (new, h))" and f: "\<And>v. v \<in> snd ` set cs \<Longrightarrow> f v = Inr (g v)"
  shows "\<exists>res. map_loop mal f h l new = Some res \<and> builds mal h0 (rev (map (g \<circ> snd) cs) @ vs) res"
  using l b f
proof (induction cs arbitrary: l new h vs)
  case Nil
  then show ?case by (subst map_loop.simps) auto
next
  case (Cons c cs)
  obtain a v where c: "c = (a, v)" by (cases c)
  obtain x where x: "load h l = Inr x" "lvalue x = v" "l \<noteq> 0"
    using load_links [OF builds_keeps [OF Cons.prems(2,1), unfolded c]] by blast
  have fv: "f v = Inr (g v)" using Cons.prems(3) c by simp
  have app: "builds mal h0 (g v # vs) (list_append mal (g v) new h)"
    by (rule list_append_builds [OF mal builds_finite [OF Cons.prems(2) fin] fin Cons.prems(2)])
  show ?case
  proof (cases "list_append mal (g v) new h")
    case (Inl e)
    with app x fv show ?thesis by (subst map_loop.simps) (auto simp: builds_def)
  next
    case (Inr r)
    obtain new' h' where r: "r = (new', h')" by (cases r)
    with app Inr have b: "builds mal h0 (g v # vs) (Inr (new', h'))" by simp
    obtain y where y: "load h' l = Inr y"
      using load_links [OF builds_keeps [OF b Cons.prems(1), unfolded c]] by blast
    obtain z where z: "h0 l = Some z" "links h0 (lnext z) cs"
      using load_links [OF Cons.prems(1) [unfolded c]] by blast
    have "h' l = Some z" using builds_old [OF b, of l] z(1) by auto
    with y x(3) have "y = z" by (simp add: load_def)
    with Cons.IH [OF z(2) b] Cons.prems(3) obtain res where
      "map_loop mal f h' (lnext y) new' = Some res" "builds mal h0 (rev (map (g \<circ> snd) cs) @ g v # vs) res" by fastforce
    with x fv Inr r y c show ?thesis by (subst map_loop.simps) auto
  qed
qed

lemma builds_then_reverse:
  assumes "builds mal h vs res"
  shows "\<exists>out. (case res of Inl e \<Rightarrow> Some (Inl e) | Inr (r, h') \<Rightarrow> list_reverse r h') = Some out \<and> builds mal h (rev vs) out"
proof (cases res)
  case (Inl e)
  with assms show ?thesis by (simp add: builds_def)
next
  case (Inr p)
  then obtain r h' where p: "res = Inr (r, h')" by (cases p) simp
  with assms have "builds mal h vs (Inr (r, h'))" by simp
  then obtain out where "list_reverse r h' = Some out" "builds mal h (rev vs) out" by (rule builds_reverse)
  with p show ?thesis by simp
qed

lemma list_map_builds:
  assumes "fresh_malloc mal" and "finite (dom h)" and "links h l cs" and "\<And>v. v \<in> snd ` set cs \<Longrightarrow> f v = Inr (g v)"
  shows "\<exists>res. list_map mal l f h = Some res \<and> builds mal h (map (g \<circ> snd) cs) res"
proof -
  have "builds mal h [] (Inr (0, h))" by (simp add: builds_def)
  from map_loop_builds [OF assms(1-3) this, of f g] assms(4) obtain res where
    res: "map_loop mal f h l 0 = Some res" "builds mal h (rev (map (g \<circ> snd) cs)) res" by auto
  from builds_then_reverse [OF res(2)] res(1) show ?thesis
    by (cases res) (auto simp: list_map_def)
qed

text \<open>The Fibonacci numbers, starting 1, 1.\<close>

fun fib :: "nat \<Rightarrow> int" where
  "fib 0 = 1"
| "fib (Suc 0) = 1"
| "fib (Suc (Suc n)) = fib (Suc n) + fib n"

lemma fib_pos: "1 \<le> fib n"
  by (induction n rule: fib.induct) auto

lemma fib_mono: "m \<le> n \<Longrightarrow> fib m \<le> fib n"
proof (rule lift_Suc_mono_le [of fib])
  fix n show "fib n \<le> fib (Suc n)"
  proof (cases n)
    case (Suc k)
    then show ?thesis using fib_pos [of k] by simp
  qed simp
qed

lemma int32_fib: "fib n < 2 ^ 31 \<Longrightarrow> int32 (fib n) = Inr (fib n)"
  using fib_pos [of n] by (simp add: int32_def)

lemma fib_loop_builds:
  assumes mal: "fresh_malloc mal" and fin: "finite (dom h0)"
    and b: "builds mal h0 (rev (map fib [0..<Suc (Suc k)])) (Inr (head, h))" and small: "fib (Suc k + m) < 2 ^ 31"
  shows "builds mal h0 (rev (map fib [0..<Suc (Suc k) + m])) (fib_loop mal m (fib k) (fib (Suc k)) head h)"
  using b small
proof (induction m arbitrary: k head h)
  case (Suc m)
  let ?v = "fib (Suc (Suc k))"
  have "?v \<le> fib (Suc k + Suc m)" by (rule fib_mono) simp
  with Suc.prems(2) have v: "int32 (fib (Suc k) + fib k) = Inr ?v" using int32_fib [of "Suc (Suc k)"] by simp
  have app: "builds mal h0 (rev (map fib [0..<Suc (Suc (Suc k))])) (list_append mal ?v head h)"
    using list_append_builds [OF mal builds_finite [OF Suc.prems(1) fin] fin Suc.prems(1), of ?v] by simp
  show ?case
  proof (cases "list_append mal ?v head h")
    case (Inl e)
    with app v show ?thesis by (simp add: builds_def)
  next
    case (Inr r)
    obtain head' h' where r: "r = (head', h')" by (cases r)
    with Inr have "head' \<noteq> 0" "h' head' = Some \<lparr>lnext = head, lvalue = ?v\<rparr>" by (auto simp: list_append_def Let_def split: if_splits)
    then have "load h' head' = Inr \<lparr>lnext = head, lvalue = ?v\<rparr>" by (simp add: load_def)
    with Suc.IH [of "Suc k" head' h'] app Suc.prems(2) Inr r v show ?thesis by (simp del: upt_Suc)
  qed
qed simp

text \<open>The 46th number is the last that an \<open>int32_t\<close> holds.\<close>

primrec fib_pair :: "nat \<Rightarrow> int \<times> int" where
  "fib_pair 0 = (1, 1)"
| "fib_pair (Suc n) = (case fib_pair n of (a, b) \<Rightarrow> (b, b + a))"

lemma fib_pair: "fib_pair n = (fib n, fib (Suc n))"
  by (induction n) auto

lemma fib_45: "fib 45 < 2 ^ 31"
proof -
  have "fst (fib_pair 45) < 2 ^ 31" by code_simp
  then show ?thesis by (simp add: fib_pair)
qed

lemma fibonacci_builds:
  assumes mal: "fresh_malloc mal" and fin: "finite (dom h)" and n: "0 \<le> n" "n \<le> 46"
  shows "\<exists>res. fibonacci mal n h = Some res \<and> builds mal h (map fib [0..<nat n]) res"
proof -
  let ?one = "list_append mal 1 0 h"
  have b0: "builds mal h [] (Inr (0, h))" by (simp add: builds_def)
  have b1: "builds mal h [1] ?one" by (rule list_append_builds [OF mal fin fin b0])
  consider "n = 0" | "0 < n" by (use n in linarith)
  then show ?thesis
  proof cases
    case 1
    with builds_then_reverse [OF b0] show ?thesis by (simp add: fibonacci_def)
  next
    case 2
    show ?thesis
    proof (cases ?one)
      case (Inl e)
      with b1 2 show ?thesis by (simp add: fibonacci_def builds_def)
    next
      case (Inr p)
      obtain h1 r1 where p: "p = (r1, h1)" by (cases p)
      with Inr b1 have b1: "builds mal h [1] (Inr (r1, h1))" by simp
      have b2: "builds mal h [1, 1] (list_append mal 1 r1 h1)"
        by (rule list_append_builds [OF mal builds_finite [OF b1 fin] fin b1])
      show ?thesis
      proof (cases "n = 1")
        case True
        with builds_then_reverse [OF b1] Inr p show ?thesis by (simp add: fibonacci_def)
      next
        case False
        with 2 have n2: "n > 1" "nat n = Suc (Suc 0) + nat (n - 2)" by simp_all
        show ?thesis
        proof (cases "list_append mal 1 r1 h1")
          case (Inl e)
          with b2 n2(1) 2 Inr p show ?thesis by (simp add: fibonacci_def builds_def)
        next
          case (Inr q)
          obtain r2 h2 where q: "q = (r2, h2)" by (cases q)
          have "fib (Suc 0 + nat (n - 2)) \<le> fib 45" by (rule fib_mono) (use n in simp)
          with fib_45 have "fib (Suc 0 + nat (n - 2)) < 2 ^ 31" by linarith
          from fib_loop_builds [OF mal fin, of 0 r2 h2, OF _ this] b2 Inr q
          have "builds mal h (rev (map fib [0..<nat n])) (fib_loop mal (nat (n - 2)) 1 1 r2 h2)"
            unfolding n2(2) by (simp add: nat_diff_distrib)
          from builds_then_reverse [OF this] \<open>?one = Inr p\<close> p Inr q 2 n2(1) show ?thesis
            by (simp add: fibonacci_def rev_map)
        qed
      qed
    qed
  qed
qed

section \<open>Printing and freeing\<close>

fun printed :: "int list \<Rightarrow> item list" where
  "printed [] = [Str [CHR 0x0A]]"
| "printed [v] = [Dec v, Str [CHR 0x0A]]"
| "printed (v # w # vs) = Dec v # Str '', '' # printed (w # vs)"

lemma print_loop_spec: "links h l cs \<Longrightarrow> print_loop h l out = Some (Inr (out @ printed (map snd cs)))"
proof (induction cs arbitrary: l out)
  case Nil
  then show ?case by (subst print_loop.simps) simp
next
  case (Cons c cs)
  obtain a v where c: "c = (a, v)" by (cases c)
  obtain x where x: "load h l = Inr x" "lvalue x = v" "links h (lnext x) cs" "l \<noteq> 0"
    using load_links [OF Cons.prems [unfolded c]] by blast
  from x(3) have "lnext x \<noteq> 0 \<longleftrightarrow> cs \<noteq> []" by (cases cs) auto
  with x Cons.IH [OF x(3)] c show ?case by (subst print_loop.simps) (cases cs; simp)
qed

lemma free_loop_spec: "links h l cs \<Longrightarrow> free_loop h l = Some (Inr (h |` (- addresses cs)))"
proof (induction cs arbitrary: h l)
  case Nil
  then show ?case by (subst free_loop.simps) (simp add: restrict_map_def)
next
  case (Cons c cs)
  obtain a v where c: "c = (a, v)" by (cases c)
  obtain x where x: "load h l = Inr x" "h l = Some x" "links h (lnext x) cs" "l \<noteq> 0" "l = a"
    using load_links [OF Cons.prems [unfolded c]] by blast
  have "links (h(l := None)) (lnext x) cs" using x links_head [OF Cons.prems [unfolded c]] by (simp add: links_upd)
  from Cons.IH [OF this] have "free_loop (h(l := None)) (lnext x) = Some (Inr (h(l := None) |` (- addresses cs)))" .
  moreover have "h(l := None) |` (- addresses cs) = h |` (- addresses (c # cs))"
    using c x(5) by (auto simp: restrict_map_def fun_eq_iff)
  ultimately have "free_loop (h(l := None)) (lnext x) = Some (Inr (h |` (- addresses (c # cs))))"
    by (simp only:)
  with x show ?case by (subst free_loop.simps) (simp add: free_cell_def)
qed

lemma list_free_twice:
  assumes "links h l cs" and "cs \<noteq> []"
  shows "list_free l h = Some (Inl DoubleFree)"
proof -
  from assms have "l \<in> addresses cs" "l \<noteq> 0" by (cases cs; auto)+
  then show ?thesis by (simp add: list_free_def free_loop_spec [OF assms(1)] free_cell_def)
qed

section \<open>The program\<close>

text \<open>C38. list_map builds a new list and leaves the old one alone: for every list in the heap and every function that does not
  fault on its values, the call ends; it returns a list of the images, in order, in cells that were not allocated before, and
  every cell that was allocated is as it was.  Otherwise malloc has failed, and the code has followed its null pointer.\<close>

theorem list_map_copies:
  assumes "fresh_malloc mal" and "finite (dom h)" and "links h l cs" and "\<forall>v \<in> snd ` set cs. f v = Inr (g v)"
  shows "(\<exists>r h' ds. list_map mal l f h = Some (Inr (r, h')) \<and> links h' r ds \<and> map snd ds = map g (map snd cs)
       \<and> addresses ds \<inter> dom h = {} \<and> (\<forall>a \<in> dom h. h' a = h a) \<and> links h' l cs)
    \<or> list_map mal l f h = Some (Inl NullDeref) \<and> no_room mal"
proof -
  from list_map_builds [OF assms(1-3), of f g] assms(4) obtain res where
    res: "list_map mal l f h = Some res" "builds mal h (map (g \<circ> snd) cs) res" by auto
  show ?thesis
  proof (cases res)
    case (Inl e)
    with res show ?thesis by (simp add: builds_def)
  next
    case (Inr p)
    then obtain r h' where p: "res = Inr (r, h')" by (cases p) simp
    with res(2) have b: "builds mal h (map (g \<circ> snd) cs) (Inr (r, h'))" by simp
    then obtain ds where "links h' r ds" "map snd ds = map g (map snd cs)" "addresses ds \<inter> dom h = {}" "\<forall>a \<in> dom h. h' a = h a"
      by (auto simp: builds_def)
    with res(1) p builds_keeps [OF b assms(3)] show ?thesis by blast
  qed
qed

text \<open>An allocator that hands out the address after the highest one in use.\<close>

definition bump :: malloc where
  "bump h = (if finite (dom h) then Suc (Max (insert 0 (dom h))) else 0)"

lemma bump_fresh: "fresh_malloc bump"
proof -
  have "bump h \<notin> dom h" if f: "finite (dom h)" for h
  proof
    assume "bump h \<in> dom h"
    with f have "bump h \<le> Max (insert 0 (dom h))" by (intro Max_ge) auto
    with f show False by (simp add: bump_def)
  qed
  then show ?thesis by (simp add: fresh_malloc_def)
qed

lemma bump_room: "\<not> no_room bump"
  by (simp add: no_room_def bump_def)

definition two_cells :: heap where
  "two_cells = [1 \<mapsto> \<lparr>lnext = 2, lvalue = 5\<rparr>, 2 \<mapsto> \<lparr>lnext = 0, lvalue = 9\<rparr>]"

theorem list_map_copies_witness:
  "\<exists>r h' ds. list_map bump 1 square two_cells = Some (Inr (r, h')) \<and> links h' r ds \<and> map snd ds = [25, 81]"
proof -
  have l: "links two_cells 1 [(1, 5), (2, 9)]" and f: "finite (dom two_cells)" by (simp_all add: two_cells_def)
  have "\<forall>v \<in> snd ` set [(1 :: nat, 5), (2, 9)]. square v = Inr (v * v)" by (simp add: square_def int32_def)
  from list_map_copies [OF bump_fresh f l this] bump_room obtain r h' ds where
    "list_map bump 1 square two_cells = Some (Inr (r, h'))" "links h' r ds" "map snd ds = map (\<lambda>v. v * v) (map snd [(1 :: nat, 5), (2, 9)])"
    by blast
  moreover have "map (\<lambda>v. v * v) (map snd [(1 :: nat, 5 :: int), (2, 9)]) = [25, 81]" by simp
  ultimately show ?thesis by metis
qed

text \<open>The program prints the squares of the first ten Fibonacci numbers and then the numbers, and does not survive the first
  call of list_free: the loop has freed every cell and the call frees the head of the list again.  Only a failing malloc
  stops it earlier.\<close>

lemma main_list_frees_twice:
  assumes "fresh_malloc mal" and "finite (dom h)" and "\<not> no_room mal"
  shows "main_list mal h
    = Some (printed [1, 1, 4, 9, 25, 64, 169, 441, 1156, 3025] @ printed [1, 1, 2, 3, 5, 8, 13, 21, 34, 55], Some DoubleFree)"
proof -
  from fibonacci_builds [OF assms(1,2), of 10] obtain res where
    res: "fibonacci mal 10 h = Some res" "builds mal h (map fib [0..<10]) res" by auto
  with assms(3) obtain p h1 where p: "res = Inr (p, h1)" by (cases res) (auto simp: builds_def)
  with res(2) have b1: "builds mal h (map fib [0..<10]) (Inr (p, h1))" by simp
  then obtain cs where cs: "links h1 p cs" "map snd cs = map fib [0..<10]" by (auto simp: builds_def)
  have fibs: "map fib [0..<10] = [1, 1, 2, 3, 5, 8, 13, 21, 34, 55]" by (simp add: upt_rec numeral_eq_Suc)
  have "snd ` set cs = set (map snd cs)" by simp
  with cs(2) fibs have "\<forall>v \<in> snd ` set cs. square v = Inr (v * v)" by (simp add: square_def int32_def)
  with list_map_builds [OF assms(1) builds_finite [OF b1 assms(2)] cs(1), of square "\<lambda>v. v * v"] obtain res2 where
    res2: "list_map mal p square h1 = Some res2" "builds mal h1 (map ((\<lambda>v. v * v) \<circ> snd) cs) res2" by auto
  with assms(3) obtain q h2 where q: "res2 = Inr (q, h2)" by (cases res2) (auto simp: builds_def)
  with res2(2) have b2: "builds mal h1 (map ((\<lambda>v. v * v) \<circ> snd) cs) (Inr (q, h2))" by simp
  then obtain ds where ds: "links h2 q ds" "map snd ds = map (\<lambda>v. v * v) (map snd cs)" by (auto simp: builds_def)
  have sq: "map snd ds = [1, 1, 4, 9, 25, 64, 169, 441, 1156, 3025]" unfolding ds(2) cs(2) fibs by simp
  then have "ds \<noteq> []" by auto
  then have "list_free q h2 = Some (Inl DoubleFree)" by (rule list_free_twice [OF ds(1)])
  moreover have "list_print h2 q = Some (Inr (printed (map snd ds)))" "list_print h2 p = Some (Inr (printed (map snd cs)))"
    using print_loop_spec [OF ds(1)] print_loop_spec [OF builds_keeps [OF b2 cs(1)]] by (simp_all add: list_print_def)
  ultimately show ?thesis using res(1) res2(1) p q unfolding sq cs(2) fibs by (simp add: main_list_def)
qed

lemma main_list_frees_twice_witness: "\<exists>out. main_list bump Map.empty = Some (out, Some DoubleFree)"
  using main_list_frees_twice [OF bump_fresh _ bump_room, of Map.empty] by auto

end
