(* ===== verification/MergeSort.thy ===== *)
theory MergeSort
  imports Prelude Complex_Main "HOL-Library.Multiset"
begin

text \<open>
  The distributed sort \<open>src/lab8Distributed/sort.c\<close>, as far as it is written: sending and receiving vectors and scattering the
  numbers are still to be done there (\<open>TODO\<close>), so no process sees the numbers of another.

  Vectors are lists of numbers of a linear order, indices are natural numbers, and \<open>int\<close>, where the code subtracts, is
  unbounded.  \<open>qsort\<close> with \<open>compare\<close> is the library's sort; with a negative length it is undefined.  \<open>mergeTree\<close> is given the
  rank and the number of processes; it may not return, which is \<open>None\<close>.

  Shown: \<open>merge\<close> merges, \<open>nextPower2\<close> rounds up, \<open>checkSorted\<close> checks, and for which arguments \<open>main\<close> passes its own test.
\<close>

section \<open>Merging\<close>

function merge_loop :: "'a::linorder list \<Rightarrow> nat \<Rightarrow> 'a list \<Rightarrow> nat \<Rightarrow> nat \<Rightarrow> nat \<Rightarrow> nat \<Rightarrow> 'a list \<Rightarrow> nat \<times> nat \<times> nat \<times> 'a list" where
  "merge_loop a n1 b n2 i j n arr =
     (if i < n1 \<and> j < n2
      then if a ! i < b ! j
           then merge_loop a n1 b n2 (i + 1) j (n + 1) (arr[n := a ! i])
           else merge_loop a n1 b n2 i (j + 1) (n + 1) (arr[n := b ! j])
      else (i, j, n, arr))"
  by auto
termination by (relation "measure (\<lambda>(a, n1, b, n2, i, j, n, arr). (n1 - i) + (n2 - j))") auto

function copy_loop :: "'a list \<Rightarrow> nat \<Rightarrow> nat \<Rightarrow> nat \<Rightarrow> 'a list \<Rightarrow> nat \<times> 'a list" where
  "copy_loop a n1 i n arr = (if i < n1 then copy_loop a n1 (i + 1) (n + 1) (arr[n := a ! i]) else (n, arr))"
  by auto
termination by (relation "measure (\<lambda>(a, n1, i, n, arr). n1 - i)") auto

declare merge_loop.simps [simp del] copy_loop.simps [simp del]

definition merge :: "'a::linorder list \<Rightarrow> nat \<Rightarrow> 'a list \<Rightarrow> nat \<Rightarrow> 'a list \<Rightarrow> 'a list" where
  "merge a n1 b n2 arr =
     (case merge_loop a n1 b n2 0 0 0 arr of
        (i, j, n, arr) \<Rightarrow> (case copy_loop a n1 i n arr of (n, arr) \<Rightarrow> snd (copy_loop b n2 j n arr)))"

text \<open>The block that \<open>malloc\<close> returns has some content, \<open>junk\<close>.\<close>

definition mergeAlloc :: "(nat \<Rightarrow> 'a::linorder list) \<Rightarrow> 'a list \<Rightarrow> nat \<Rightarrow> 'a list \<Rightarrow> nat \<Rightarrow> 'a list" where
  "mergeAlloc junk a n1 b n2 = merge a n1 b n2 (junk (n1 + n2))"

definition compare :: "'a::linorder \<Rightarrow> 'a \<Rightarrow> int" where
  "compare x y = (if x < y then - 1 else if x > y then 1 else 0)"

partial_function (option) nextPower2_loop :: "nat \<Rightarrow> nat \<Rightarrow> nat option" where
  "nextPower2_loop n x = (if x < n then nextPower2_loop n (2 * x) else Some x)"

definition nextPower2 :: "nat \<Rightarrow> nat option" where
  "nextPower2 n = nextPower2_loop n 1"

text \<open>The vector and its length; \<open>None\<close> in the vector's place is \<open>NULL\<close>, which is what has to be received so far.\<close>

partial_function (option) mergeTree ::
  "(nat \<Rightarrow> 'a::linorder list) \<Rightarrow> nat \<Rightarrow> nat \<Rightarrow> 'a list \<Rightarrow> nat \<Rightarrow> nat \<Rightarrow> ('a list option \<times> nat) option" where
  "mergeTree junk rnk worldSize subVec n1 step =
     (case nextPower2 worldSize of
        None \<Rightarrow> None
      | Some p2 \<Rightarrow>
          if step > p2 then Some (Some subVec, n1)
          else if rnk mod step = 0
          then let source = rnk + step div 2 in
               if source \<ge> worldSize then mergeTree junk rnk worldSize subVec n1 (step * 2)
               else let n2 = 0; otherVec = [];
                        merged = mergeAlloc junk subVec n1 otherVec n2
                    in mergeTree junk rnk worldSize merged (n1 + n2) (step * 2)
          else Some (None, 0))"

function check_loop :: "'a::linorder list \<Rightarrow> int \<Rightarrow> nat \<Rightarrow> bool" where
  "check_loop values n i =
     (if int i < n - 1 then if values ! i > values ! (i + 1) then False else check_loop values n (i + 1) else True)"
  by auto
termination by (relation "measure (\<lambda>(values, n, i). nat (n - int i))") auto

declare check_loop.simps [simp del]

definition checkSorted :: "'a::linorder list \<Rightarrow> nat \<Rightarrow> bool" where
  "checkSorted values n = check_loop values (int n) 0"

section \<open>The program\<close>

definition allocVec :: "nat \<Rightarrow> real list" where
  "allocVec n = replicate n 0"

text \<open>What a process does in the end: \<open>Undefined\<close> is the call of \<open>qsort\<close> with a negative length.\<close>

datatype outcome = Undefined | AssertFailed | Report nat bool | Quiet

definition localSize :: "nat \<Rightarrow> nat \<Rightarrow> nat \<Rightarrow> int" where
  "localSize worldRank worldSize totalElems =
     (let elemsProc = (totalElems + (worldSize - 1)) div worldSize;
          totalAlloc = elemsProc * worldSize;
          extra = int totalAlloc - int totalElems;
          isLast = (worldRank + 1 = worldSize);
          size = int elemsProc - (if isLast then extra else 0)
      in if worldRank \<ge> totalElems then 0 else size)"

definition qsort :: "real list \<Rightarrow> nat \<Rightarrow> real list" where
  "qsort xs n = sort (take n xs) @ drop n xs"

definition main_sort :: "(nat \<Rightarrow> real list) \<Rightarrow> nat \<Rightarrow> nat \<Rightarrow> nat \<Rightarrow> outcome option" where
  "main_sort junk worldRank worldSize totalElems =
     (let elemsProc = (totalElems + (worldSize - 1)) div worldSize;
          size = localSize worldRank worldSize totalElems;
          subRandNums = allocVec elemsProc
      in if size < 0 then Some Undefined
         else let subRandNums = qsort subRandNums (nat size)
              in case mergeTree junk worldRank worldSize subRandNums (nat size) 2 of
                   None \<Rightarrow> None
                 | Some (res, resultSize) \<Rightarrow>
                     if worldRank = 0
                     then if resultSize \<noteq> totalElems then Some AssertFailed
                          else Some (Report resultSize (checkSorted (case res of None \<Rightarrow> [] | Some v \<Rightarrow> v) resultSize))
                     else Some Quiet)"

section \<open>Merging is right\<close>

fun mergel :: "'a::linorder list \<Rightarrow> 'a list \<Rightarrow> 'a list" where
  "mergel [] ys = ys"
| "mergel xs [] = xs"
| "mergel (x # xs) (y # ys) = (if x < y then x # mergel xs (y # ys) else y # mergel (x # xs) ys)"

lemma mset_mergel [simp]: "mset (mergel xs ys) = mset xs + mset ys"
  by (induction xs ys rule: mergel.induct) auto

lemma sorted_mergel: "sorted xs \<Longrightarrow> sorted ys \<Longrightarrow> sorted (mergel xs ys)"
proof (induction xs ys rule: mergel.induct)
  case (3 x xs y ys)
  have "set (mergel us vs) = set us \<union> set vs" for us vs :: "'a list"
    using mset_mergel [of us vs] by (metis set_mset_mset set_mset_union)
  with 3 show ?case by auto
qed auto

lemma length_mergel [simp]: "length (mergel xs ys) = length xs + length ys"
  using mset_mergel [of xs ys] by (metis size_mset size_union)

lemma mergel_Nil2 [simp]: "mergel xs [] = xs"
  by (cases xs) auto

lemma put_front:
  assumes "n < length arr"
  shows "bput (arr[n := x]) (Suc n) ys = bput arr n (x # ys)"
  using assms by (simp add: bput_def take_Suc_conv_app_nth drop_update_cancel)

lemma copy_loop_spec:
  assumes "n1 \<le> length a" and "n + (n1 - i) \<le> length arr"
  shows "copy_loop a n1 i n arr = (n + (n1 - i), bput arr n (drop i (take n1 a)))"
  using assms
proof (induction "n1 - i" arbitrary: i n arr)
  case 0
  then show ?case by (subst copy_loop.simps) (simp add: bput_def)
next
  case (Suc k)
  then have "drop i (take n1 a) = a ! i # drop (i + 1) (take n1 a)" by (simp add: Cons_nth_drop_Suc [symmetric])
  moreover from Suc have "i < n1" "n < length arr" "k = n1 - (i + 1)" "n + 1 + (n1 - (i + 1)) \<le> length (arr[n := a ! i])" by auto
  moreover from this have "n + 1 + (n1 - (i + 1)) = n + (n1 - i)" by simp
  ultimately show ?case using Suc.hyps(1) [OF \<open>k = n1 - (i + 1)\<close> Suc.prems(1)]
    by (subst copy_loop.simps) (simp add: put_front)
qed

lemma merge_loop_spec:
  assumes "n1 \<le> length a" and "n2 \<le> length b" and "n + ((n1 - i) + (n2 - j)) \<le> length arr"
  shows "\<exists>i' j' n' arr'. merge_loop a n1 b n2 i j n arr = (i', j', n', arr')
    \<and> snd (case copy_loop a n1 i' n' arr' of (n, arr) \<Rightarrow> copy_loop b n2 j' n arr)
      = bput arr n (mergel (drop i (take n1 a)) (drop j (take n2 b)))"
  using assms
proof (induction a n1 b n2 i j n arr rule: merge_loop.induct)
  case (1 a n1 b n2 i j n arr)
  show ?case
  proof (cases "i < n1 \<and> j < n2")
    case True
    with "1.prems" have d: "drop i (take n1 a) = a ! i # drop (i + 1) (take n1 a)" "drop j (take n2 b) = b ! j # drop (j + 1) (take n2 b)"
      by (simp_all add: Cons_nth_drop_Suc [symmetric])
    have n: "n < length arr" using True "1.prems"(3) by linarith
    show ?thesis
    proof (cases "a ! i < b ! j")
      case less: True
      have "n + 1 + ((n1 - (i + 1)) + (n2 - j)) \<le> length (arr[n := a ! i])" using True "1.prems"(3) unfolding length_list_update by linarith
      from "1.IH"(1) [OF True less "1.prems"(1,2) this] show ?thesis
        using True less n d by (subst merge_loop.simps) (simp add: put_front)
    next
      case ge: False
      have "n + 1 + ((n1 - i) + (n2 - (j + 1))) \<le> length (arr[n := b ! j])" using True "1.prems"(3) unfolding length_list_update by linarith
      from "1.IH"(2) [OF True ge "1.prems"(1,2) this] show ?thesis
        using True ge n d by (subst merge_loop.simps) (simp add: put_front)
    qed
  next
    case False
    then consider "n1 \<le> i" | "n2 \<le> j" "i < n1" by linarith
    then show ?thesis
    proof cases
      case 1
      with False "1.prems" show ?thesis by (subst merge_loop.simps) (simp add: copy_loop_spec bput_def)
    next
      case 2
      with False "1.prems" show ?thesis by (subst merge_loop.simps) (simp add: copy_loop_spec bput_def)
    qed
  qed
qed

lemma merge_eq:
  assumes "n1 \<le> length a" and "n2 \<le> length b" and "n1 + n2 \<le> length arr"
  shows "merge a n1 b n2 arr = mergel (take n1 a) (take n2 b) @ drop (n1 + n2) arr"
proof -
  from merge_loop_spec [OF assms(1,2), of 0 0 0 arr] assms(3) obtain i j n arr' where
    "merge_loop a n1 b n2 0 0 0 arr = (i, j, n, arr')"
    "snd (case copy_loop a n1 i n arr' of (n, arr) \<Rightarrow> copy_loop b n2 j n arr) = bput arr 0 (mergel (take n1 a) (take n2 b))" by auto
  then have "merge a n1 b n2 arr = bput arr 0 (mergel (take n1 a) (take n2 b))" by (auto simp: merge_def split: prod.splits)
  with assms(1,2) show ?thesis by (simp add: bput_def)
qed

text \<open>merge merges: given two sorted vectors and an array with room for both, it leaves in the array their numbers, each as often as
  they have it, in ascending order, and the cells after them as they were.\<close>

lemma merge_merges:
  assumes "n1 \<le> length a" and "n2 \<le> length b" and "n1 + n2 \<le> length arr" and "sorted (take n1 a)" and "sorted (take n2 b)"
  shows "\<exists>m. merge a n1 b n2 arr = m @ drop (n1 + n2) arr \<and> sorted m \<and> mset m = mset (take n1 a) + mset (take n2 b)"
  unfolding merge_eq [OF assms(1-3)] using sorted_mergel [OF assms(4,5)] by auto

lemma merge_merges_witness:
  "\<exists>m. merge [1, 4, 6] 3 [2, 4 :: int] 2 (replicate 6 0) = m @ [0] \<and> sorted m \<and> mset m = mset [1, 4, 6] + mset [2, 4]"
  using merge_merges [of 3 "[1, 4, 6]" 2 "[2, 4 :: int]" "replicate 6 0"] by simp

section \<open>Rounding up and checking\<close>

lemma nextPower2_loop_spec:
  assumes "n \<le> 2 ^ k * x" and "0 < x"
  shows "\<exists>j. nextPower2_loop n x = Some (2 ^ j * x) \<and> n \<le> 2 ^ j * x \<and> (j = 0 \<or> 2 ^ (j - 1) * x < n)"
  using assms
proof (induction k arbitrary: x)
  case 0
  then show ?case by (subst nextPower2_loop.simps) (auto intro: exI [of _ 0])
next
  case (Suc k)
  show ?case
  proof (cases "x < n")
    case True
    from Suc.IH [of "2 * x"] Suc.prems obtain j where
      j: "nextPower2_loop n (2 * x) = Some (2 ^ j * (2 * x))" "n \<le> 2 ^ j * (2 * x)" "j = 0 \<or> 2 ^ (j - 1) * (2 * x) < n"
      by (auto simp: algebra_simps)
    then have "2 ^ (Suc j - 1) * x < n" using True by (cases j) (auto simp: algebra_simps)
    with j True show ?thesis by (subst nextPower2_loop.simps) (auto simp: algebra_simps intro!: exI [of _ "Suc j"])
  next
    case False
    then show ?thesis by (subst nextPower2_loop.simps) (auto intro: exI [of _ 0])
  qed
qed

lemma nextPower2_spec: "\<exists>j. nextPower2 n = Some (2 ^ j) \<and> n \<le> 2 ^ j \<and> (j = 0 \<or> 2 ^ (j - 1) < n)"
  using nextPower2_loop_spec [of n n 1] less_exp [of n] unfolding nextPower2_def by (simp add: less_imp_le)

lemma check_loop_spec:
  assumes "n \<le> length values"
  shows "check_loop values (int n) i \<longleftrightarrow> sorted (drop i (take n values))"
  using assms
proof (induction "n - i" arbitrary: i)
  case 0
  then show ?case by (subst check_loop.simps) simp
next
  case (Suc k)
  show ?case
  proof (cases "i + 1 < n")
    case True
    then have "drop i (take n values) = values ! i # values ! (i + 1) # drop (i + 2) (take n values)"
      "drop (i + 1) (take n values) = values ! (i + 1) # drop (i + 2) (take n values)"
      using Suc.prems by (simp_all add: Cons_nth_drop_Suc [symmetric])
    with Suc True show ?thesis by (subst check_loop.simps) auto
  next
    case False
    with Suc have "n = Suc i" by simp
    with Suc.prems have "drop i (take n values) = [values ! i]" by (simp add: Cons_nth_drop_Suc [symmetric])
    with False show ?thesis by (subst check_loop.simps) simp
  qed
qed

lemma checkSorted_spec: "n \<le> length values \<Longrightarrow> checkSorted values n \<longleftrightarrow> sorted (take n values)"
  using check_loop_spec [of n "values" 0] by (simp add: checkSorted_def)

section \<open>The tree, and the program\<close>

lemma merge_nothing:
  assumes "n1 \<le> length a" and "length (junk n1) = n1"
  shows "mergeAlloc junk a n1 [] 0 = take n1 a"
  using merge_eq [of n1 a 0 "[]" "junk n1"] assms by (simp add: mergeAlloc_def)

lemma mergeTree_spec:
  assumes junk: "\<And>n. length (junk n) = n" and p2: "nextPower2 ws = Some p2" and n1: "n1 \<le> length v" and step: "0 < step"
  shows "\<exists>u. mergeTree junk rnk ws v n1 step = Some u
    \<and> (u = (None, 0) \<and> rnk \<noteq> 0 \<or> (\<exists>w. u = (Some w, n1) \<and> take n1 w = take n1 v \<and> n1 \<le> length w))"
  using n1 step
proof (induction "Suc p2 - step" arbitrary: v step rule: less_induct)
  case less
  show ?case
  proof (cases "step > p2")
    case True
    with p2 less.prems show ?thesis by (subst mergeTree.simps) auto
  next
    case False
    with less.prems have dec: "Suc p2 - step * 2 < Suc p2 - step" "0 < step * 2" by auto
    have len: "n1 \<le> length (take n1 v)" using less.prems(1) by simp
    show ?thesis
    proof (cases "rnk mod step = 0")
      case mod0: True
      show ?thesis
      proof (cases "ws \<le> rnk + step div 2")
        case True
        with less.hyps [OF dec(1) less.prems(1) dec(2)] mod0 False p2 show ?thesis by (subst mergeTree.simps) simp
      next
        case merging: False
        from less.hyps [OF dec(1) len dec(2)] mod0 False p2 merging merge_nothing [of n1 v junk] junk less.prems(1)
        show ?thesis by (subst mergeTree.simps) (simp add: min_def)
      qed
    next
      case mod: False
      then have "rnk \<noteq> 0" by (metis mod_0)
      with mod False p2 show ?thesis by (subst mergeTree.simps) simp
    qed
  qed
qed

lemma share_smaller:
  fixes t w :: nat
  assumes "2 \<le> t" and "2 \<le> w"
  shows "(t + (w - 1)) div w < t"
proof -
  obtain a b where "t = Suc (Suc a)" "w = Suc (Suc b)" using assms by (metis add_2_eq_Suc le_Suc_ex)
  then have "t + (w - 1) < t * w" by simp
  then show ?thesis by (rule less_mult_imp_div_less)
qed

lemma share_whole:
  fixes t w :: nat
  assumes "0 < w" and "w = 1 \<or> t \<le> 1"
  shows "(t + (w - 1)) div w = t"
proof -
  from assms consider "w = 1" | "t = 0" | "t = 1" by linarith
  then show ?thesis using assms(1) by cases auto
qed

text \<open>The process of rank 0 always ends, and its own test tells the truth about the unfinished program: with one process, or at
  most one number, it reports a sorted vector of the right size; with more, since nothing is received from the other processes, its
  assertion on the size of the result fails.\<close>

lemma main_sort_outcome:
  assumes "0 < ws" and "\<forall>n. length (junk n) = n"
  shows "main_sort junk 0 ws tot = Some (if ws = 1 \<or> tot \<le> 1 then Report tot True else AssertFailed)"
proof -
  define e where "e = (tot + (ws - 1)) div ws"
  have size: "localSize 0 ws tot = int e"
  proof (cases "ws = 1")
    case False
    with assms(1) share_whole [of ws 0] show ?thesis by (auto simp: localSize_def e_def Let_def)
  qed (simp add: localSize_def e_def)
  let ?v = "qsort (allocVec e) e"
  have v: "length ?v = e" "sorted (take e ?v)" by (simp_all add: qsort_def allocVec_def)
  obtain p2 where p2: "nextPower2 ws = Some p2" using nextPower2_spec by blast
  from mergeTree_spec [of junk ws p2 e ?v 2 0] assms(2) p2 v(1) obtain w where
    w: "mergeTree junk 0 ws ?v e 2 = Some (Some w, e)" "take e w = take e ?v" "e \<le> length w" by auto
  have ok: "checkSorted w e" using w v(2) checkSorted_spec by metis
  have "e = tot \<longleftrightarrow> ws = 1 \<or> tot \<le> 1"
  proof (cases "ws = 1 \<or> tot \<le> 1")
    case False
    with assms(1) share_smaller [of tot ws] show ?thesis by (simp add: e_def)
  qed (use share_whole [OF assms(1)] in \<open>auto simp: e_def\<close>)
  with size w(1) ok show ?thesis unfolding main_sort_def e_def [symmetric] Let_def by simp
qed

lemma main_sort_outcome_witness: "main_sort (\<lambda>n. replicate n 0) 0 4 100 = Some AssertFailed"
  using main_sort_outcome [of 4 "\<lambda>n. replicate n 0" 100] by simp

text \<open>With 4 processes and 5 numbers the last process has minus one number.\<close>

lemma last_share_negative: "localSize 3 4 5 = - 1" "main_sort junk 3 4 5 = Some Undefined"
  by (simp_all add: main_sort_def localSize_def)

end
