(* ===== verification/Labs.thy ===== *)
theory Labs
  imports Prelude Complex_Main
begin

text \<open>
  Array and number exercises: \<open>src/lab1Revision/buffer.c\<close> and \<open>vector.c\<close>, \<open>src/lab5Cache/matrix.c\<close> and \<open>matrixMul.c\<close>, and
  \<open>src/lab6Threads/collatzSerial.c\<close>.

  A block of memory is the list of its elements; a fresh block from \<open>malloc\<close> holds arbitrary elements, \<open>junk\<close>, and is taken
  to be granted.  Doubles are exact reals.  A \<open>for\<close> loop over an index is a fold over the indices.

  Shown: \<open>copyBuffer\<close>, which fills ever shorter prefixes, copies; the matrix routines compute the transpose and the product;
  \<open>collatzWalk\<close> does not end on 0.
\<close>

section \<open>buffer.c\<close>

record buffer =
  bdata :: "byte list"
  bsize :: nat

definition fill :: "byte list \<Rightarrow> byte \<Rightarrow> nat \<Rightarrow> byte list" where
  "fill xs c n = replicate n c @ drop n xs"

definition copyBuffer :: "(nat \<Rightarrow> byte list) \<Rightarrow> buffer \<Rightarrow> buffer" where
  "copyBuffer junk b =
     (let n = bsize b
      in \<lparr>bdata = foldl (\<lambda>d i. fill d (bdata b ! (n - i - 1)) (n - i)) (junk n) [0..<n], bsize = n\<rparr>)"

lemma copy_prefixes:
  assumes "k \<le> length src" and "length d = length src"
  shows "foldl (\<lambda>d i. fill d (src ! (length src - i - 1)) (length src - i)) d [0..<k]
    = (if k = 0 then d else replicate (length src - k) (src ! (length src - k)) @ drop (length src - k) src)"
  using assms(1)
proof (induction k)
  case (Suc k)
  have i: "length src - k - 1 = length src - Suc k" by simp
  have cons: "drop (length src - Suc k) src = src ! (length src - Suc k) # drop (length src - k) src"
    using Cons_nth_drop_Suc [of "length src - Suc k" src] Suc.prems by (simp add: Suc_diff_Suc Suc_le_lessD)
  have rep: "replicate (length src - k) c = replicate (length src - Suc k) c @ [c]" for c :: byte
    using Suc.prems by (simp add: replicate_append_same Suc_diff_Suc Suc_le_lessD flip: replicate_Suc)
  show ?case
  proof (cases "k = 0")
    case True
    then show ?thesis using assms(2) rep cons by (simp add: fill_def)
  next
    case False
    with Suc have "foldl (\<lambda>d i. fill d (src ! (length src - i - 1)) (length src - i)) d [0..<k]
        = replicate (length src - k) (src ! (length src - k)) @ drop (length src - k) src" by simp
    then have "foldl (\<lambda>d i. fill d (src ! (length src - i - 1)) (length src - i)) d [0..<Suc k]
        = replicate (length src - k) (src ! (length src - Suc k)) @ drop (length src - k) src"
      by (simp add: fill_def i)
    then show ?thesis unfolding rep cons by simp
  qed
qed simp

text \<open>The copy has the bytes of the original.\<close>

lemma copyBuffer_copies:
  assumes "length (bdata b) = bsize b" and "length (junk (bsize b)) = bsize b"
  shows "copyBuffer junk b = b"
proof -
  have "foldl (\<lambda>d i. fill d (bdata b ! (bsize b - i - 1)) (bsize b - i)) (junk (bsize b)) [0..<bsize b] = bdata b"
    using copy_prefixes [of "bsize b" "bdata b" "junk (bsize b)"] assms by (auto split: if_splits)
  then show ?thesis by (simp add: copyBuffer_def)
qed

section \<open>vector.c\<close>

type_synonym vector = "real list"

definition newVector :: "nat \<Rightarrow> vector" where
  "newVector n = replicate n 0"

definition newFrom :: "real list \<Rightarrow> nat \<Rightarrow> vector" where
  "newFrom xs n = foldl (\<lambda>v i. v[i := xs ! i]) (newVector n) [0..<n]"

text \<open>\<open>None\<close>: the assertion on the sizes fails.\<close>

definition addVectors :: "vector \<Rightarrow> vector \<Rightarrow> vector option" where
  "addVectors v1 v2 =
     (if length v1 \<noteq> length v2 then None
      else Some (foldl (\<lambda>r i. r[i := v1 ! i + v2 ! i]) (newVector (length v1)) [0..<length v1]))"

lemma fill_row:
  fixes r :: "'a list"
  shows "length (foldl (\<lambda>r j. r[c + j := g j]) r [0..<m]) = length r"
    and "x < length r \<Longrightarrow> foldl (\<lambda>r j. r[c + j := g j]) r [0..<m] ! x = (if c \<le> x \<and> x < c + m then g (x - c) else r ! x)"
proof -
  show len: "length (foldl (\<lambda>r j. r[c + j := g j]) r [0..<m]) = length r" for m by (induction m) simp_all
  show "foldl (\<lambda>r j. r[c + j := g j]) r [0..<m] ! x = (if c \<le> x \<and> x < c + m then g (x - c) else r ! x)" if "x < length r"
  proof (induction m)
    case (Suc m)
    then show ?case using that len [of m] by (cases "x = c + m") auto
  qed auto
qed

lemma addVectors_adds:
  assumes "length v1 = length v2"
  shows "addVectors v1 v2 = Some (map2 (+) v1 v2)"
proof -
  have "foldl (\<lambda>r i. r[i := v1 ! i + v2 ! i]) (newVector (length v1)) [0..<length v1] = map2 (+) v1 v2"
    using fill_row [where c = 0 and g = "\<lambda>i. v1 ! i + v2 ! i" and m = "length v1" and r = "newVector (length v1)"] assms
    by (intro nth_equalityI) (simp_all add: newVector_def)
  with assms show ?thesis by (simp add: addVectors_def)
qed

lemma newFrom_copies: "n \<le> length xs \<Longrightarrow> newFrom xs n = take n xs"
  using fill_row [where c = 0 and g = "\<lambda>i. xs ! i" and m = n and r = "newVector n"]
  by (intro nth_equalityI) (simp_all add: newFrom_def newVector_def)

section \<open>matrix.c and matrixMul.c\<close>

definition matrixTranspose :: "real list \<Rightarrow> real list \<Rightarrow> nat \<Rightarrow> real list" where
  "matrixTranspose res a n =
     foldl (\<lambda>res i. foldl (\<lambda>res j. res[i * n + j := a ! (j * n + i)]) res [0..<n]) res [0..<n]"

definition zeroMatrix :: "real list \<Rightarrow> nat \<Rightarrow> real list" where
  "zeroMatrix m n = replicate (n * n) 0 @ drop (n * n) m"

definition compareMatrix :: "real list \<Rightarrow> real list \<Rightarrow> nat \<Rightarrow> bool" where
  "compareMatrix a b n = list_all (\<lambda>i. list_all (\<lambda>j. \<not> \<bar>a ! (i * n + j) - b ! (i * n + j)\<bar> > 1 / 10 ^ 6) [0..<n]) [0..<n]"

definition matrixMulBasic :: "real list \<Rightarrow> real list \<Rightarrow> real list \<Rightarrow> nat \<Rightarrow> real list" where
  "matrixMulBasic res a b n =
     foldl (\<lambda>res i. foldl (\<lambda>res j.
       let r = foldl (\<lambda>r k. r + a ! (i * n + k) * b ! (k * n + j)) 0 [0..<n]
       in res[i * n + j := r]) res [0..<n]) res [0..<n]"

lemma fill_rows:
  fixes res :: "'a list"
  assumes "i < m" and "j < n" and "m * n \<le> length res"
  shows "foldl (\<lambda>res i. foldl (\<lambda>res j. res[i * n + j := f i j]) res [0..<n]) res [0..<m] ! (i * n + j) = f i j"
  using assms
proof (induction m)
  case (Suc m)
  let ?r = "foldl (\<lambda>res i. foldl (\<lambda>res j. res[i * n + j := f i j]) res [0..<n]) res [0..<m]"
  have len: "length ?r = length res" by (induction m) (simp_all add: fill_row)
  have "i * n + j < Suc i * n" using Suc.prems(2) by simp
  also have "\<dots> \<le> Suc m * n" using Suc.prems(1) by (intro mult_le_mono1) simp
  also have "\<dots> \<le> length ?r" using Suc.prems(3) len by simp
  finally have x: "i * n + j < length ?r" .
  show ?case
  proof (cases "i = m")
    case True
    then show ?thesis using x Suc.prems(2) by (simp add: fill_row)
  next
    case False
    with Suc.prems(1) have "i < m" by simp
    have "Suc i * n \<le> m * n" using \<open>i < m\<close> by (intro mult_le_mono1) simp
    with Suc.prems(2) have "i * n + j < m * n" by simp
    with x Suc.IH [OF \<open>i < m\<close>] Suc.prems show ?thesis by (simp add: fill_row)
  qed
qed simp

lemma dot_sum: "foldl (\<lambda>r k. r + g k) (0 :: real) [0..<n] = (\<Sum>k < n. g k)"
  by (induction n) simp_all

text \<open>The product, entry by entry.\<close>

lemma matrixMulBasic_product:
  assumes "n * n \<le> length res" and "i < n" and "j < n"
  shows "matrixMulBasic res a b n ! (i * n + j) = (\<Sum>k < n. a ! (i * n + k) * b ! (k * n + j))"
  unfolding matrixMulBasic_def Let_def dot_sum using fill_rows [OF assms(2,3,1)] .

lemma matrixTranspose_transposes:
  assumes "n * n \<le> length res" and "i < n" and "j < n"
  shows "matrixTranspose res a n ! (i * n + j) = a ! (j * n + i)"
  unfolding matrixTranspose_def using fill_rows [OF assms(2,3,1), of "\<lambda>i j. a ! (j * n + i)"] .

section \<open>collatzSerial.c\<close>

partial_function (option) walk_loop :: "64 word \<Rightarrow> 64 word \<Rightarrow> 64 word option" where
  "walk_loop num numSteps =
     (if num = 1 then Some numSteps
      else walk_loop (if num mod 2 = 0 then num div 2 else 3 * num + 1) (numSteps + 1))"

definition collatzWalk :: "uint32 \<Rightarrow> 64 word option" where
  "collatzWalk initNum = walk_loop (ucast initNum) 0"

lemma walk_loop_zero: "walk_loop 0 k = None"
proof (rule ccontr)
  assume "walk_loop 0 k \<noteq> None"
  then obtain r where "walk_loop 0 k = Some r" by auto
  then have "(0 :: 64 word) \<noteq> 0"
    by (induction "0 :: 64 word" k r rule: walk_loop.raw_induct [rotated 1, consumes 1]) (auto split: if_splits)
  then show False by simp
qed

text \<open>0 is the one start below \<open>UINT32_MAX\<close> for which the comment in the loop is wrong.\<close>

lemma collatzWalk_zero: "collatzWalk 0 = None"
  by (simp add: collatzWalk_def walk_loop_zero)

end
