(* ===== verification/Spec2Isabelle.thy ===== *)
theory Spec2Isabelle
  imports Trap FileData Inodes ProcMem Kbd Grep ShRun UmallocSpec Children MkfsSpec Ide Boot UserProgs Mp LinkedList MergeSort Labs
begin

text \<open>
  A verification development for the programs of this repository: the xv6 teaching kernel with its disk image builder, boot loader, shell
  and user programs (\<open>src/lab10xv6/xv6\<close>), the numerical integration programs of the assignment (\<open>src/assignment\<close>) and the exercises
  of the labs around them that compute something (\<open>src/lab1Revision\<close>, \<open>src/lab5Cache\<close>, \<open>src/lab6Threads\<close>, \<open>src/lab8Distributed\<close>).

  \<^bold>\<open>How the system is put together.\<close>  The boot loader reads the kernel from the disk and enters it.  The kernel finds the processors, gives out physical pages,
  builds page tables and runs processes, which it schedules under spin locks; \<open>sleep\<close> and \<open>wakeup\<close> let them wait for one another.  Files
  live in five layers, each a client of the one below: buffer cache, redo log, block and inode layer, directories and path names, open files.
  Pipes and the console are the other things a descriptor can name.  User programs reach all this by traps: \<open>trap\<close> calls \<open>syscall\<close>,
  which fetches arguments from user memory and calls one of the \<open>sys_\<close> functions.  \<open>mkfs\<close> writes the disk that the file system starts from.

  \<^bold>\<open>How code is modelled.\<close>  Theory Prelude fixes the style.  A kernel routine is a function of type \<open>('s, 'a) kern\<close> from the state to \<open>Ok\<close> with a result and a new state, \<open>Panic\<close>
  with the message of the source, or \<open>Block\<close> when the code would spin or sleep until another processor or process acts.  \<open>bnd\<close>, \<open>ret\<close>, \<open>getk\<close> and \<open>modk\<close>
  sequence them.  The state is one extensible record that each component extends, in the order \<open>kmem_st\<close> (Kalloc), \<open>vm_st\<close>, \<open>lock_st\<close>, \<open>proc_st\<close>, \<open>sl_st\<close>,
  \<open>bio_st\<close>, \<open>log_st\<close>, \<open>fs_st\<close>, \<open>pipe_st\<close>, \<open>file_st\<close>, \<open>cons_st\<close>, \<open>life_st\<close>, \<open>kern_st\<close>, and a routine is polymorphic in what comes after.  Memory is a map from addresses to bytes; C integers are words, or numbers with
  the wrap-around written out; pointers are addresses, table indices or \<open>option\<close>.  User programs, which have no kernel state, are functions of
  their input and of the system calls they make.  Hoare triples (\<open>triple\<close>), frame rules (\<open>keeps\<close>) and integer facts are collected in
  \<open>kern_intro\<close>, \<open>keeps_intro\<close>, \<open>kern_simps\<close> and \<open>c_int_simps\<close>.

  \<^bold>\<open>The theories.\<close>

    \<^item> CStr: \<open>string.c\<close> and the string instructions of \<open>x86.h\<close>.  Overlapping \<open>memmove\<close> copies; the copies of \<open>ulib.c\<close> do not (a finding).
    \<^item> Kalloc: \<open>kalloc.c\<close>.  The free list in memory refines a set of pages: locale \<open>page_pool\<close>, interpreted as \<open>kpool\<close>.
    \<^item> Vm, VmSpec, UserMem, ProcMem: \<open>vm.c\<close>, \<open>mmu.h\<close> and \<open>growproc\<close>.  \<open>walkpgdir\<close> and \<open>mappages\<close> against the translation that the MMU makes; \<open>allocuvm\<close> and
      \<open>deallocuvm\<close> account for every page, all or nothing, and keep the other bytes: locale \<open>user_space\<close>, interpreted as \<open>uvm\<close>; growing and shrinking a process on top of it.
    \<^item> Spinlock: \<open>spinlock.c\<close> with \<open>mycpu\<close>.  Interrupt nesting, and mutual exclusion over all interleavings of processors (\<open>lock_run\<close>).
    \<^item> Proc, Sleeplock: \<open>proc.c\<close> and \<open>sleeplock.c\<close>.  Slots, \<open>sleep\<close>, \<open>wakeup\<close>, \<open>kill\<close>, the scheduler; no wakeup is lost (\<open>sw_run\<close>).
    \<^item> Bio: \<open>bio.c\<close> over \<open>memide.c\<close>.  The ring of buffers is a coherent view of the disk: locale \<open>block_cache\<close>, interpreted as \<open>bcache\<close>.
    \<^item> Ide: \<open>ide.c\<close>.  The queue of requests, the registers of the controller and its interrupt (\<open>ide_run\<close>): first come, first served.
    \<^item> Log: \<open>log.c\<close>.  A commit is atomic under a crash between any two writes of blocks; reservation of log space (\<open>log_run\<close>), and its defect with the log that \<open>mkfs\<close> makes.
    \<^item> Fs, FsSpec, Inodes, FileData: \<open>fs.c\<close> up to file content.  \<open>balloc\<close> and \<open>bfree\<close> against the set of free blocks (locale \<open>free_map\<close>, interpreted as \<open>blocks\<close>), the format
      of inodes, \<open>readi\<close> and \<open>writei\<close> against the byte list of a file.
    \<^item> Dir, DirSpec: the rest of \<open>fs.c\<close>.  Path elements; a directory is a map from names to inode numbers, to which \<open>dirlink\<close> adds.
    \<^item> Pipe, File: \<open>pipe.c\<close> and \<open>file.c\<close>.  The ring with its wrapping counters is a bounded queue: locale \<open>byte_queue\<close>, interpreted as \<open>ring\<close>; reading, writing and progress.
    \<^item> Console, ConsoleSpec, Kbd: \<open>console.c\<close>, \<open>kbd.c\<close> and the transfer routines of \<open>uart.c\<close>.  The line discipline as edits of two byte lists; the driver's types.
    \<^item> Syscall, Sysfile, Exec, Trap: \<open>syscall.c\<close>, \<open>sysfile.c\<close>, \<open>exec.c\<close>, \<open>sysproc.c\<close>, \<open>fork\<close>, \<open>exit\<close> and \<open>trap\<close>.  Which user addresses the kernel accepts, exactly.
    \<^item> Mp, Boot: \<open>mp.c\<close> and \<open>bootmain.c\<close>.  The processors of a firmware table are registered; the segments of the kernel file are in memory when it is entered.
    \<^item> Mkfs, MkfsSpec: \<open>mkfs.c\<close>.  The image, read with the kernel's own decoders, has the files that were put in, and the bitmap the blocks they use.
    \<^item> Ulib, Umalloc, UmallocSpec: \<open>ulib.c\<close>, \<open>printf.c\<close> and \<open>umalloc.c\<close>.  The allocator's blocks are disjoint and its free list stays ordered and coalesced.
    \<^item> Sh, ShSpec, ShPrint, ShRun: \<open>sh.c\<close>.  The parser ends on every line and inverts a printer; \<open>runcmd\<close> gives every program the descriptors of its redirections and pipes.
    \<^item> Grep, UserProgs: \<open>grep.c\<close> (the matcher against the language of a pattern, and the buffered line loop), \<open>wc.c\<close>, \<open>cat.c\<close>, \<open>ls.c\<close> and the other small programs.
    \<^item> Integrate, Children: the assignment.  For all interleavings of the threads the result is that of the serial program; the pool of child processes is bounded and serves every query.
    \<^item> LinkedList, MergeSort, Labs: the lab exercises.  Lists on an explicit heap, the unfinished distributed sort, buffers, vectors, matrices and the Collatz walk.

  \<^bold>\<open>Loops, fuel and bounds.\<close>  Structural loops are \<open>fun\<close>, counting loops \<open>function\<close> with a measure.  A loop that might not end is a \<open>partial_function (option)\<close>, where
  \<open>None\<close> means that it does not return, and the theorems show that it does (or, for \<open>mpinit\<close> at an unknown entry, that it does not).  Fuel is used in four places:
  the loops of \<open>vm.c\<close> over the pages of an address range have \<open>2 ^ 20\<close>, the number of pages there are, and VmSpec and UserMem show that they end before it is used up;
  the scans of \<open>bget\<close> have \<open>NBUF + 1\<close>, and the invariant says that the ring has \<open>NBUF\<close> buffers; the loop of control-U has the size of the input ring; the mutually recursive
  parser of the shell has four times the length of the line plus four, and \<open>parsecmd_total\<close> shows that it never runs out.

  \<^bold>\<open>Concurrency.\<close>  Locks, interrupts and context switches are explicit in Spinlock, Proc and Pipe.  Above them a region under one spin lock is one step, which the
  mutual exclusion proved there justifies; each theory says so where it does this.  \<open>swtch\<close>, which is assembly, is an argument.

  \<^bold>\<open>Not modelled.\<close>  The programming of device registers that the code writes and never reads back (\<open>lapic.c\<close>, \<open>ioapic.c\<close>, \<open>picirq.c\<close>, \<open>uartinit\<close>, \<open>seginit\<close>, \<open>tvinit\<close>, \<open>idtinit\<close>) and the
  order of initialisation in \<open>main.c\<close>; assembly; \<open>init.c\<close> and the programs that test the kernel (\<open>usertests.c\<close>, \<open>forktest.c\<close>, \<open>stressfs.c\<close>, \<open>zombie.c\<close>, \<open>pipetest.c\<close>) or are empty (\<open>cp.c\<close>);
  the exercises that only call the operating system or MPI (\<open>lab2Processes\<close>, \<open>lab3Signals\<close>, most of \<open>lab6Threads\<close> and \<open>lab8Distributed\<close>), benchmarks and timing; and \<open>assignment/ENCE360Assignment\<close>, which is a
  copy of the programs above it.  Floating point is exact arithmetic, with not-a-number where the integration programs can reach it.
\<close>

end
